(* ===== verification/Prelude.thy ===== *)
theory Prelude
  imports Main "HOL-Library.Word" "HOL-Library.AList"
begin

text \<open>
  Shared vocabulary of the development: the fault values with which the model
  writes out every panic and every \<open>Err\<close> of the Rust code, the sequencing
  function that stands for the \<open>?\<close> operator, bytes and the fixed-width
  little-endian and big-endian encodings of machine integers
  (\<open>to_le_bytes\<close>, \<open>from_le_bytes\<close>, \<open>to_be_bytes\<close>), and the generic
  facts on lists and maps that the components rely on.
\<close>

named_theorems codec_simps \<open>round trips of readers and writers\<close>

section \<open>Faults and sequencing\<close>

datatype fault =
    Panic string
  | IoErr string

type_synonym 'a result = "fault + 'a"

fun and_then :: "'a result \<Rightarrow> ('a \<Rightarrow> 'b result) \<Rightarrow> 'b result" where
  "and_then (Inl e) f = Inl e"
| "and_then (Inr x) f = f x"

definition unwrap_result :: "'a result \<Rightarrow> 'a result" where
  "unwrap_result r = (case r of Inr x \<Rightarrow> Inr x | Inl (Panic m) \<Rightarrow> Inl (Panic m) | Inl (IoErr m) \<Rightarrow> Inl (Panic ''called Result::unwrap() on an Err value''))"

definition ensure :: "bool \<Rightarrow> string \<Rightarrow> unit result" where
  "ensure b msg = (if b then Inr () else Inl (Panic msg))"

fun unwrap_option :: "'a option \<Rightarrow> 'a result" where
  "unwrap_option None = Inl (Panic ''called Option::unwrap() on a None value'')"
| "unwrap_option (Some x) = Inr x"

fun map_res :: "('a \<Rightarrow> 'b result) \<Rightarrow> 'a list \<Rightarrow> 'b list result" where
  "map_res f [] = Inr []"
| "map_res f (x # xs) = and_then (f x) (\<lambda>y. and_then (map_res f xs) (\<lambda>ys. Inr (y # ys)))"

fun fold_res :: "('a \<Rightarrow> 's \<Rightarrow> 's result) \<Rightarrow> 'a list \<Rightarrow> 's \<Rightarrow> 's result" where
  "fold_res f [] s = Inr s"
| "fold_res f (x # xs) s = and_then (f x s) (fold_res f xs)"

lemma and_then_assoc [simp]: "and_then (and_then r f) g = and_then r (\<lambda>x. and_then (f x) g)"
  by (cases r) auto

lemma and_then_Inr [simp]: "and_then r Inr = r"
  by (cases r) auto

lemma and_then_eq_Inr: "and_then r f = Inr y \<longleftrightarrow> (\<exists>x. r = Inr x \<and> f x = Inr y)"
  by (cases r) auto

lemma case_prod_eq_Inr: "(case p of (a, b) \<Rightarrow> f a b) = Inr y \<longleftrightarrow> (\<exists>a b. p = (a, b) \<and> f a b = Inr y)"
  by (cases p) auto

lemma unwrap_result_value [simp]: "unwrap_result (Inr x) = Inr x"
  by (simp add: unwrap_result_def)

lemma unwrap_result_Inr [simp]: "unwrap_result r = Inr x \<longleftrightarrow> r = Inr x"
  by (auto simp: unwrap_result_def split: sum.splits fault.splits)

lemma ensure_eq_Inr [simp]: "ensure b m = Inr u \<longleftrightarrow> b"
  by (simp add: ensure_def)

lemma ensure_True [simp]: "ensure True m = Inr ()"
  by (simp add: ensure_def)

lemma unwrap_option_eq_Inr [simp]: "unwrap_option o' = Inr x \<longleftrightarrow> o' = Some x"
  by (cases o') auto

lemma fold_res_append: "fold_res f (xs @ ys) s = and_then (fold_res f xs s) (fold_res f ys)"
proof (induction xs arbitrary: s)
  case (Cons x xs)
  then show ?case by (cases "f x s") simp_all
qed simp

lemma fold_res_invariant:
  assumes "fold_res f xs s = Inr t" and "P s"
    and "\<And>x s t. x \<in> set xs \<Longrightarrow> P s \<Longrightarrow> f x s = Inr t \<Longrightarrow> P t"
  shows "P t"
  using assms
proof (induction xs arbitrary: s)
  case (Cons x xs)
  then obtain u where "f x s = Inr u" "fold_res f xs u = Inr t"
    by (auto simp: and_then_eq_Inr)
  with Cons show ?case by (metis list.set_intros)
qed simp

section \<open>Bytes and integer encodings\<close>

type_synonym byte = "8 word"
type_synonym bytes = "byte list"
type_synonym u8 = "8 word"
type_synonym u16 = "16 word"
type_synonym u32 = "32 word"
type_synonym u64 = "64 word"
type_synonym h256 = "256 word"

primrec le_nat :: "nat \<Rightarrow> nat \<Rightarrow> bytes" where
  "le_nat 0 x = []"
| "le_nat (Suc n) x = word_of_nat x # le_nat n (x div 256)"

primrec nat_le :: "bytes \<Rightarrow> nat" where
  "nat_le [] = 0"
| "nat_le (b # bs) = unat b + 256 * nat_le bs"

definition be_nat :: "nat \<Rightarrow> nat \<Rightarrow> bytes" where
  "be_nat n x = rev (le_nat n x)"

definition nat_be :: "bytes \<Rightarrow> nat" where
  "nat_be bs = nat_le (rev bs)"

definition to_le_bytes :: "nat \<Rightarrow> 'a::len word \<Rightarrow> bytes" where
  "to_le_bytes n w = le_nat n (unat w)"

definition from_le_bytes :: "bytes \<Rightarrow> 'a::len word" where
  "from_le_bytes bs = word_of_nat (nat_le bs)"

definition to_be_bytes :: "nat \<Rightarrow> 'a::len word \<Rightarrow> bytes" where
  "to_be_bytes n w = be_nat n (unat w)"

definition from_be_bytes :: "bytes \<Rightarrow> 'a::len word" where
  "from_be_bytes bs = word_of_nat (nat_be bs)"

lemma length_le_nat [simp]: "length (le_nat n x) = n"
  by (induction n arbitrary: x) auto

lemma length_be_nat [simp]: "length (be_nat n x) = n"
  by (simp add: be_nat_def)

lemma length_to_le_bytes [simp]: "length (to_le_bytes n w) = n"
  by (simp add: to_le_bytes_def)

lemma length_to_be_bytes [simp]: "length (to_be_bytes n w) = n"
  by (simp add: to_be_bytes_def)

lemma unat_bound: "unat (w :: 'a::len word) < 2 ^ LENGTH('a)"
  by (rule unsigned_less)

lemma unat_byte_of_nat: "unat (word_of_nat x :: byte) = x mod 256"
  by (simp add: unat_of_nat)

lemma nat_le_le_nat: "nat_le (le_nat n x) = x mod 256 ^ n"
proof (induction n arbitrary: x)
  case (Suc n)
  have "x mod 256 + 256 * (x div 256 mod 256 ^ n) = x mod (256 * 256 ^ n)"
    by (metis add.commute mod_mult2_eq)
  then show ?case using Suc by (simp add: unat_byte_of_nat)
qed simp

lemma nat_le_bound: "nat_le bs < 256 ^ length bs"
proof (induction bs)
  case (Cons b bs)
  have "unat b < 256" using unat_bound [of b] by simp
  then have "unat b + 256 * nat_le bs < 256 * (nat_le bs + 1)" by simp
  also have "\<dots> \<le> 256 * 256 ^ length bs" using Cons by (intro mult_le_mono) auto
  finally show ?case by simp
qed simp

lemma le_nat_nat_le [simp]: "le_nat (length bs) (nat_le bs) = bs"
proof (induction bs)
  case (Cons b bs)
  have "unat b < 256" using unat_bound [of b] by simp
  then have "(unat b + 256 * nat_le bs) div 256 = nat_le bs" by simp
  moreover have "word_of_nat (unat b + 256 * nat_le bs) = b"
  proof -
    have "(256 :: byte) = 0" by (rule word_unat_eq_iff [THEN iffD2]) simp
    then have "256 * z = 0" for z :: byte by (simp only: mult_zero_left)
    then show ?thesis by simp
  qed
  ultimately show ?case using Cons by simp
qed simp

lemma nat_be_be_nat: "nat_be (be_nat n x) = x mod 256 ^ n"
  by (simp add: nat_be_def be_nat_def nat_le_le_nat)

lemma be_nat_nat_be [simp]: "be_nat (length bs) (nat_be bs) = bs"
  using le_nat_nat_le [of "rev bs"] by (simp add: be_nat_def nat_be_def)

lemma be_nat_inject:
  assumes "x < 256 ^ n" "y < 256 ^ n"
  shows "be_nat n x = be_nat n y \<longleftrightarrow> x = y"
  by (metis assms mod_less nat_be_be_nat)

lemma pow_256: "(256::nat) ^ n = 2 ^ (8 * n)"
  by (simp add: power_mult)

lemma from_le_to_le:
  fixes w :: "'a::len word"
  assumes "LENGTH('a) \<le> 8 * n"
  shows "from_le_bytes (to_le_bytes n w) = w"
proof -
  have "unat w < 2 ^ LENGTH('a)" by (rule unat_bound)
  also have "\<dots> \<le> 256 ^ n" unfolding pow_256 by (rule power_increasing [OF assms]) simp
  finally show ?thesis by (simp add: from_le_bytes_def to_le_bytes_def nat_le_le_nat)
qed

lemma from_be_to_be:
  fixes w :: "'a::len word"
  assumes "LENGTH('a) \<le> 8 * n"
  shows "from_be_bytes (to_be_bytes n w) = w"
proof -
  have "unat w < 2 ^ LENGTH('a)" by (rule unat_bound)
  also have "\<dots> \<le> 256 ^ n" unfolding pow_256 by (rule power_increasing [OF assms]) simp
  finally show ?thesis by (simp add: from_be_bytes_def to_be_bytes_def nat_be_be_nat)
qed

lemma to_be_bytes_inject:
  fixes v w :: "'a::len word"
  assumes "LENGTH('a) \<le> 8 * n"
  shows "to_be_bytes n v = to_be_bytes n w \<longleftrightarrow> v = w"
  by (metis assms from_be_to_be)

lemma word_of_nat_inject:
  assumes "x < 2 ^ LENGTH('a::len)" "y < 2 ^ LENGTH('a)"
  shows "(word_of_nat x :: 'a word) = word_of_nat y \<longleftrightarrow> x = y"
  by (metis assms mod_less unat_of_nat)

lemma unat_push_bit_1:
  assumes "t < LENGTH('a::len)"
  shows "unat (push_bit t 1 :: 'a word) = 2 ^ t"
proof -
  have "(2::nat) ^ t < 2 ^ LENGTH('a)" using assms by (rule power_strict_increasing) simp
  moreover have "unat (push_bit t 1 :: 'a word) = take_bit LENGTH('a) (2 ^ t)"
    by (subst unsigned_push_bit_eq) (simp add: push_bit_eq_mult)
  ultimately show ?thesis by (simp only: take_bit_nat_eq_self)
qed

section \<open>Lists and maps\<close>

lemma append_same_suffix_length:
  assumes "xs @ as = ys @ bs" "length as = length bs"
  shows "xs = ys \<and> as = bs"
  using assms by simp

lemma take_append_exact [simp]: "length xs = n \<Longrightarrow> take n (xs @ ys) = xs"
  by simp

lemma drop_append_exact [simp]: "length xs = n \<Longrightarrow> drop n (xs @ ys) = ys"
  by simp

lemma set_AList_update: "set (AList.update k v xs) \<subseteq> insert (k, v) (set xs)"
  by (induction xs) auto

end
