(* ===== verification/Serde.thy ===== *)
theory Serde
  imports Prelude
begin

text \<open>
  The binary serialization layer of lvmt-db (\<open>serde/mod.rs\<close>,
  \<open>serde/basic.rs\<close>, \<open>serde/h256.rs\<close>) and what the derive macro of
  lvmt-serde-derive generates for a struct: its fields in order.  A reader
  consumes a prefix of its input and returns the value with the rest, or the
  error of \<open>read_exact\<close>; a writer appends to the output, so it is a
  function to byte strings (writing to a \<open>Vec<u8>\<close> never fails).
\<close>

type_synonym 'a reader = "bytes \<Rightarrow> ('a \<times> bytes) result"
type_synonym 'a writer = "'a \<Rightarrow> bytes"

record SerdeType =
  consistent :: bool

definition read_exact :: "nat \<Rightarrow> bytes reader" where
  "read_exact n bs = (if n \<le> length bs then Inr (take n bs, drop n bs)
                      else Inl (IoErr ''failed to fill whole buffer''))"

definition read_u8 :: "SerdeType \<Rightarrow> u8 reader" where
  "read_u8 ty bs = and_then (read_exact 1 bs) (\<lambda>(b, r). Inr (from_le_bytes b, r))"
definition write_u8 :: "SerdeType \<Rightarrow> u8 writer" where
  "write_u8 ty x = to_le_bytes 1 x"

definition read_u32 :: "SerdeType \<Rightarrow> u32 reader" where
  "read_u32 ty bs = and_then (read_exact 4 bs) (\<lambda>(b, r). Inr (from_le_bytes b, r))"
definition write_u32 :: "SerdeType \<Rightarrow> u32 writer" where
  "write_u32 ty x = to_le_bytes 4 x"

definition read_u64 :: "SerdeType \<Rightarrow> u64 reader" where
  "read_u64 ty bs = and_then (read_exact 8 bs) (\<lambda>(b, r). Inr (from_le_bytes b, r))"
definition write_u64 :: "SerdeType \<Rightarrow> u64 writer" where
  "write_u64 ty x = to_le_bytes 8 x"

text \<open>\<open>usize\<close> has eight bytes on the targets the crate builds for; the values
  written with it are lengths, so the model keeps them as natural numbers and
  cuts them to the width when they are written.\<close>

definition read_usize :: "SerdeType \<Rightarrow> nat reader" where
  "read_usize ty bs = and_then (read_exact 8 bs) (\<lambda>(b, r). Inr (nat_le b, r))"
definition write_usize :: "SerdeType \<Rightarrow> nat writer" where
  "write_usize ty n = le_nat 8 n"

definition read_bytes :: "SerdeType \<Rightarrow> bytes reader" where
  "read_bytes ty bs = and_then (read_usize ty bs) (\<lambda>(n, r). read_exact n r)"
definition write_bytes :: "SerdeType \<Rightarrow> bytes writer" where
  "write_bytes ty b = write_usize ty (length b) @ b"

definition read_h256 :: "SerdeType \<Rightarrow> h256 reader" where
  "read_h256 ty bs = and_then (read_exact 32 bs) (\<lambda>(b, r). Inr (from_be_bytes b, r))"
definition write_h256 :: "SerdeType \<Rightarrow> h256 writer" where
  "write_h256 ty h = to_be_bytes 32 h"

text \<open>The loop \<open>for _ in 0..length\<close> of \<open>read_vec\<close>, then \<open>read_vec\<close>
  and \<open>write_vec\<close> themselves.\<close>

primrec read_n :: "'a reader \<Rightarrow> nat \<Rightarrow> 'a list reader" where
  "read_n rd 0 bs = Inr ([], bs)"
| "read_n rd (Suc n) bs =
     and_then (rd bs) (\<lambda>(x, r). and_then (read_n rd n r) (\<lambda>(xs, r'). Inr (x # xs, r')))"

definition read_vec :: "(SerdeType \<Rightarrow> 'a reader) \<Rightarrow> SerdeType \<Rightarrow> 'a list reader" where
  "read_vec rd ty bs = and_then (read_usize ty bs) (\<lambda>(n, r). read_n (rd ty) n r)"
definition write_vec :: "(SerdeType \<Rightarrow> 'a writer) \<Rightarrow> SerdeType \<Rightarrow> 'a list writer" where
  "write_vec wr ty xs = write_usize ty (length xs) @ concat (map (wr ty) xs)"

definition from_bytes :: "(SerdeType \<Rightarrow> 'a reader) \<Rightarrow> bytes \<Rightarrow> SerdeType \<Rightarrow> 'a result" where
  "from_bytes rd data ty = and_then (rd ty data) (\<lambda>(x, r). Inr x)"
definition from_bytes_local :: "(SerdeType \<Rightarrow> 'a reader) \<Rightarrow> bytes \<Rightarrow> 'a result" where
  "from_bytes_local rd data = from_bytes rd data \<lparr>consistent = False\<rparr>"
definition from_bytes_consensus :: "(SerdeType \<Rightarrow> 'a reader) \<Rightarrow> bytes \<Rightarrow> 'a result" where
  "from_bytes_consensus rd data = from_bytes rd data \<lparr>consistent = True\<rparr>"
definition to_bytes_local :: "(SerdeType \<Rightarrow> 'a writer) \<Rightarrow> 'a \<Rightarrow> bytes" where
  "to_bytes_local wr x = wr \<lparr>consistent = False\<rparr> x"
definition to_bytes_consensus :: "(SerdeType \<Rightarrow> 'a writer) \<Rightarrow> 'a \<Rightarrow> bytes" where
  "to_bytes_consensus wr x = wr \<lparr>consistent = True\<rparr> x"

lemma read_exact_append [simp]: "length b = n \<Longrightarrow> read_exact n (b @ r) = Inr (b, r)"
  by (simp add: read_exact_def)

lemma read_usize_write: "n < 2 ^ 64 \<Longrightarrow> read_usize ty (write_usize ty n @ r) = Inr (n, r)"
  by (simp add: read_usize_def write_usize_def nat_le_le_nat)

section \<open>The interface: a reader that undoes its writer\<close>

text \<open>What every \<open>MyToBytes\<close>/\<open>MyFromBytes\<close> pair promises, for the values
  \<open>ok\<close> that fit the format: reading what was written gives the value back
  and leaves whatever follows it untouched.\<close>

locale codec =
  fixes wr :: "SerdeType \<Rightarrow> 'a writer"
    and rd :: "SerdeType \<Rightarrow> 'a reader"
    and ok :: "'a \<Rightarrow> bool"
  assumes rd_wr: "ok x \<Longrightarrow> rd ty (wr ty x @ rest) = Inr (x, rest)"
begin

lemma from_to_bytes_local: "ok x \<Longrightarrow> from_bytes_local rd (to_bytes_local wr x) = Inr x"
  using rd_wr [of x _ "[]"] by (simp add: from_bytes_local_def from_bytes_def to_bytes_local_def)

lemma from_to_bytes_consensus:
  "ok x \<Longrightarrow> from_bytes_consensus rd (to_bytes_consensus wr x) = Inr x"
  using rd_wr [of x _ "[]"]
  by (simp add: from_bytes_consensus_def from_bytes_def to_bytes_consensus_def)

lemma wr_prefix_free:
  assumes "ok x" "ok y" "wr ty x @ r = wr ty y @ s"
  shows "x = y \<and> r = s"
proof -
  have "Inr (x, r) = (Inr (y, s) :: ('a \<times> bytes) result)"
    using rd_wr [OF assms(1), of ty r, unfolded assms(3)] rd_wr [OF assms(2), of ty s] by (rule subst)
  then show ?thesis by simp
qed

lemma wr_inject: "ok x \<Longrightarrow> ok y \<Longrightarrow> wr ty x = wr ty y \<longleftrightarrow> x = y"
  by (metis wr_prefix_free)

lemma read_n_concat:
  "list_all ok xs \<Longrightarrow> read_n (rd ty) (length xs) (concat (map (wr ty) xs) @ rest) = Inr (xs, rest)"
  by (induction xs) (simp_all add: rd_wr)

text \<open>The vector combinator preserves the contract: every codec of elements
  gives a codec of vectors.\<close>

lemma vec_codec:
  "codec (write_vec wr) (read_vec rd) (\<lambda>xs. length xs < 2 ^ 64 \<and> list_all ok xs)"
  by unfold_locales (simp add: write_vec_def read_vec_def read_usize_write read_n_concat)

end

interpretation u8_codec: codec write_u8 read_u8 "\<lambda>_. True"
  by unfold_locales (simp add: write_u8_def read_u8_def from_le_to_le)

interpretation u32_codec: codec write_u32 read_u32 "\<lambda>_. True"
  by unfold_locales (simp add: write_u32_def read_u32_def from_le_to_le)

interpretation u64_codec: codec write_u64 read_u64 "\<lambda>_. True"
  by unfold_locales (simp add: write_u64_def read_u64_def from_le_to_le)

interpretation usize_codec: codec write_usize read_usize "\<lambda>n. n < 2 ^ 64"
  by unfold_locales (rule read_usize_write)

interpretation h256_codec: codec write_h256 read_h256 "\<lambda>_. True"
  by unfold_locales (simp add: write_h256_def read_h256_def from_be_to_be)

interpretation bytes_codec: codec write_bytes read_bytes "\<lambda>b. length b < 2 ^ 64"
  by unfold_locales (simp add: write_bytes_def read_bytes_def read_usize_write)

declare u8_codec.rd_wr [codec_simps] u32_codec.rd_wr [codec_simps] u64_codec.rd_wr [codec_simps]
  h256_codec.rd_wr [codec_simps] bytes_codec.rd_wr [codec_simps]

end
