(* ===== verification/Kvdb.thy ===== *)
theory Kvdb
  imports Prelude
begin

text \<open>
  The key-value interface the authenticated structures are written against.
  The trait \<open>KeyValueDB\<close> belongs to the kvdb crate, so a store is a
  parameter: a record of the operations the code calls, over an arbitrary
  state.  The locale \<open>kvdb\<close> states the laws the clients rely on (a
  read sees every buffered write, and a flush changes nothing a read sees); the RocksDB wrapper of the repository
  provides it (theory CfxRocksdb).  The record describes a store whose reads succeed: \<open>kv_get\<close> is the answer inside
  the \<open>Ok\<close> of a read.  A read that answers an error is outside the model of the clients (some panic on it by
  \<open>unwrap\<close> or \<open>expect\<close>, others return it by \<open>?\<close>), and \<open>kv_flush\<close> keeps the errors of a flush.  The
  wrappers of RocksDB and MDBX, which produce such errors, are modelled with them (theories CfxRocksdb, CfxAdmin,
  Backends and BackendStores).  \<open>DBColumn\<close> is the column view of
  lvmt-db, \<open>storage/kvdb.rs\<close>.
\<close>

datatype DBOp =
    Insert nat bytes bytes
  | Delete nat bytes

fun op_col :: "DBOp \<Rightarrow> nat" where
  "op_col (Insert c k v) = c"
| "op_col (Delete c k) = c"

fun op_key :: "DBOp \<Rightarrow> bytes" where
  "op_key (Insert c k v) = k"
| "op_key (Delete c k) = k"

type_synonym contents = "nat \<Rightarrow> bytes \<Rightarrow> bytes option"

fun apply_op :: "DBOp \<Rightarrow> contents \<Rightarrow> contents" where
  "apply_op (Insert c k v) m = m(c := (m c)(k \<mapsto> v))"
| "apply_op (Delete c k) m = m(c := (m c)(k := None))"

definition apply_ops :: "DBOp list \<Rightarrow> contents \<Rightarrow> contents" where
  "apply_ops ops m = fold apply_op ops m"

record 's kvdb_ops =
  kv_get :: "'s \<Rightarrow> nat \<Rightarrow> bytes \<Rightarrow> bytes option"
  kv_write_buffered :: "'s \<Rightarrow> DBOp list \<Rightarrow> 's"
  kv_flush :: "'s \<Rightarrow> 's result"

text \<open>A batch is in range when every operation names one of the store's columns
  (a column out of range is an index panic of the implementations).\<close>

definition ops_in_range :: "nat \<Rightarrow> DBOp list \<Rightarrow> bool" where
  "ops_in_range n ops \<longleftrightarrow> list_all (\<lambda>op. op_col op < n) ops"

locale kvdb =
  fixes D :: "'s kvdb_ops"
    and inv :: "'s \<Rightarrow> bool"
    and cols :: nat
  assumes get_write_buffered:
      "inv s \<Longrightarrow> ops_in_range cols ops \<Longrightarrow>
       kv_get D (kv_write_buffered D s ops) = apply_ops ops (kv_get D s)"
    and inv_write_buffered:
      "inv s \<Longrightarrow> ops_in_range cols ops \<Longrightarrow> inv (kv_write_buffered D s ops)"
    and get_flush: "inv s \<Longrightarrow> kv_flush D s = Inr s' \<Longrightarrow> kv_get D s' = kv_get D s"
    and inv_flush: "inv s \<Longrightarrow> kv_flush D s = Inr s' \<Longrightarrow> inv s'"

section \<open>DBColumn\<close>

fun set_col :: "nat \<Rightarrow> DBOp \<Rightarrow> DBOp" where
  "set_col c (Insert c' k v) = Insert c k v"
| "set_col c (Delete c' k) = Delete c k"

definition DBColumn_get :: "'s kvdb_ops \<Rightarrow> 's \<Rightarrow> nat \<Rightarrow> bytes \<Rightarrow> bytes option" where
  "DBColumn_get D s col key = kv_get D s col key"

definition DBColumn_write_buffered :: "'s kvdb_ops \<Rightarrow> 's \<Rightarrow> nat \<Rightarrow> DBOp list \<Rightarrow> 's" where
  "DBColumn_write_buffered D s col ops = kv_write_buffered D s (map (set_col col) ops)"

text \<open>The reference store: the contents themselves.\<close>

definition plain_kvdb :: "contents kvdb_ops" where
  "plain_kvdb = \<lparr>kv_get = (\<lambda>s. s), kv_write_buffered = (\<lambda>s ops. apply_ops ops s),
     kv_flush = Inr\<rparr>"

interpretation plain: kvdb plain_kvdb "\<lambda>_. True" n for n
  by unfold_locales (simp_all add: plain_kvdb_def)

section \<open>Facts about batches\<close>

lemma set_col_ops:
  "op_col (set_col c op) = c" "op_key (set_col c op) = op_key op"
  by (cases op; simp)+

lemma ops_in_range_set_col [simp]: "c < n \<Longrightarrow> ops_in_range n (map (set_col c) ops)"
  by (simp add: ops_in_range_def list_all_iff set_col_ops)

lemma apply_ops_simps [simp]:
  "apply_ops [] m = m"
  "apply_ops (op # ops) m = apply_ops ops (apply_op op m)"
  by (simp_all add: apply_ops_def)

lemma apply_ops_append [simp]: "apply_ops (xs @ ys) m = apply_ops ys (apply_ops xs m)"
  by (simp add: apply_ops_def)

lemma apply_ops_other:
  "(\<And>op. op \<in> set ops \<Longrightarrow> op_col op \<noteq> c \<or> op_key op \<noteq> k) \<Longrightarrow> apply_ops ops m c k = m c k"
proof (induction ops arbitrary: m)
  case (Cons op ops)
  have "op_col op \<noteq> c \<or> op_key op \<noteq> k" using Cons.prems by simp
  then have "apply_op op m c k = m c k" by (cases op) auto
  with Cons show ?case by simp
qed simp

lemma apply_op_cong: "m c = m' c \<Longrightarrow> apply_op op m c = apply_op op m' c"
  by (cases op) auto

lemma apply_ops_cong: "m c = m' c \<Longrightarrow> apply_ops ops m c = apply_ops ops m' c"
proof (induction ops arbitrary: m m')
  case (Cons op ops)
  have "apply_op op m c = apply_op op m' c" using Cons.prems by (rule apply_op_cong)
  then have "apply_ops ops (apply_op op m) c = apply_ops ops (apply_op op m') c" by (rule Cons.IH)
  then show ?case by simp
qed simp

lemma apply_ops_at: "m c k = m' c k \<Longrightarrow> apply_ops ops m c k = apply_ops ops m' c k"
proof (induction ops arbitrary: m m')
  case (Cons op ops)
  have "apply_op op m c k = apply_op op m' c k" using Cons.prems by (cases op) auto
  then have "apply_ops ops (apply_op op m) c k = apply_ops ops (apply_op op m') c k" by (rule Cons.IH)
  then show ?case by simp
qed simp

text \<open>A batch of insertions of pairs with pairwise different keys into one
  column: each pair is found, every other key is as before.\<close>

lemma apply_inserts_some:
  assumes "distinct (map f xs)" "x \<in> set xs"
  shows "apply_ops (map (\<lambda>x. Insert c (f x) (g x)) xs) m c (f x) = Some (g x)"
  using assms
proof (induction xs arbitrary: m)
  case (Cons y ys)
  show ?case
  proof (cases "x = y")
    case True
    have "apply_ops (map (\<lambda>x. Insert c (f x) (g x)) ys) (m(c := (m c)(f y \<mapsto> g y))) c (f y) = Some (g y)"
      using Cons.prems by (subst apply_ops_other) (auto simp: image_iff)
    with True show ?thesis by simp
  next
    case False
    with Cons.prems have "apply_ops (map (\<lambda>x. Insert c (f x) (g x)) ys) m' c (f x) = Some (g x)" for m'
      by (intro Cons.IH) auto
    then show ?thesis by simp
  qed
qed simp

lemma apply_inserts_other:
  assumes "c' \<noteq> c \<or> k \<notin> f ` set xs"
  shows "apply_ops (map (\<lambda>x. Insert c (f x) (g x)) xs) m c' k = m c' k"
  using assms by (intro apply_ops_other) auto

end
