(* ===== verification/DbAccess.thy ===== *)
theory DbAccess
  imports Serde Kvdb "HOL-Library.AList"
begin

text \<open>
  \<open>DBAccess\<close> of lvmt-db (\<open>storage/access.rs\<close>): a write-back cache of typed
  values over a column of the store, keyed by prefix and position.  The type
  parameters \<open>V\<close> (with its serialization and default) and \<open>L\<close> (the layout)
  are a record of the operations they supply.  The lemmas show that cache and
  store together behave as one map: reads leave it unchanged, writes update
  one entry, and a flush moves entries without changing any.
\<close>

record ('k, 'v) access_ty =
  v_read :: "SerdeType \<Rightarrow> 'v reader"
  v_write :: "SerdeType \<Rightarrow> 'v writer"
  v_default :: 'v
  l_position :: "'k \<Rightarrow> nat"

text \<open>The store with the two global counters \<open>PUT_COUNT\<close> and \<open>PUT_MODE\<close>
  (the modes set by the code are the literals 0 to 3).\<close>

record 's world =
  store :: 's
  PUT_COUNT :: "u64 list"
  PUT_MODE :: nat

record ('k, 'v) DBAccess =
  acc_prefix :: bytes
  acc_col :: nat
  acc_cache :: "('k \<times> ('v \<times> bool)) list"

definition DBAccess_new :: "bytes \<Rightarrow> nat \<Rightarrow> ('k, 'v) DBAccess" where
  "DBAccess_new prefix col = \<lparr>acc_prefix = prefix, acc_col = col, acc_cache = []\<rparr>"

definition compute_key :: "('k, 'v) access_ty \<Rightarrow> bytes \<Rightarrow> 'k \<Rightarrow> bytes" where
  "compute_key T name k = name @ to_be_bytes 4 (word_of_nat (l_position T k) :: u32)"

text \<open>The closure of \<open>ensure_cached\<close>: the value the store holds for a key.\<close>

definition load_value ::
  "'s kvdb_ops \<Rightarrow> ('k, 'v) access_ty \<Rightarrow> 's world \<Rightarrow> ('k, 'v) DBAccess \<Rightarrow> 'k \<Rightarrow> 'v result" where
  "load_value D T w a k =
     (case DBColumn_get D (store w) (acc_col a) (compute_key T (acc_prefix a) k) of
        Some x \<Rightarrow> unwrap_result (from_bytes_local (v_read T) x)
      | None \<Rightarrow> Inr (v_default T))"

definition ensure_cached ::
  "'s kvdb_ops \<Rightarrow> ('k, 'v) access_ty \<Rightarrow> 's world \<Rightarrow> ('k, 'v) DBAccess \<Rightarrow> 'k \<Rightarrow>
   (('v \<times> bool) \<times> ('k, 'v) DBAccess) result" where
  "ensure_cached D T w a k =
     (case map_of (acc_cache a) k of
        Some e \<Rightarrow> Inr (e, a)
      | None \<Rightarrow> and_then (load_value D T w a k)
          (\<lambda>v. Inr ((v, False), a\<lparr>acc_cache := (k, (v, False)) # acc_cache a\<rparr>)))"

definition DBAccess_get ::
  "'s kvdb_ops \<Rightarrow> ('k, 'v) access_ty \<Rightarrow> 's world \<Rightarrow> ('k, 'v) DBAccess \<Rightarrow> 'k \<Rightarrow>
   ('v \<times> ('k, 'v) DBAccess) result" where
  "DBAccess_get D T w a k = and_then (ensure_cached D T w a k) (\<lambda>((v, dirty), a'). Inr (v, a'))"

text \<open>\<open>get_mut\<close> marks the entry dirty and lends it to the caller; \<open>f\<close> is what
  the caller does to the value through the reference.\<close>

definition DBAccess_get_mut ::
  "'s kvdb_ops \<Rightarrow> ('k, 'v) access_ty \<Rightarrow> 's world \<Rightarrow> ('k, 'v) DBAccess \<Rightarrow> 'k \<Rightarrow> ('v \<Rightarrow> 'v) \<Rightarrow>
   ('k, 'v) DBAccess result" where
  "DBAccess_get_mut D T w a k f = and_then (ensure_cached D T w a k)
     (\<lambda>((v, dirty), a'). Inr (a'\<lparr>acc_cache := AList.update k (f v, True) (acc_cache a')\<rparr>))"

definition DBAccess_set :: "('k, 'v) DBAccess \<Rightarrow> 'k \<Rightarrow> 'v \<Rightarrow> ('k, 'v) DBAccess" where
  "DBAccess_set a k v = a\<lparr>acc_cache := AList.update k (v, True) (acc_cache a)\<rparr>"

definition dirty_entries :: "('k, 'v) DBAccess \<Rightarrow> ('k \<times> ('v \<times> bool)) list" where
  "dirty_entries a = filter (\<lambda>(k, v, dirty). dirty) (acc_cache a)"

definition flush_ops :: "('k, 'v) access_ty \<Rightarrow> ('k, 'v) DBAccess \<Rightarrow> DBOp list" where
  "flush_ops T a = map (\<lambda>(k, v, dirty).
     Insert 0 (compute_key T (acc_prefix a) k) (to_bytes_local (v_write T) v)) (dirty_entries a)"

definition flush_cache ::
  "'s kvdb_ops \<Rightarrow> ('k, 'v) access_ty \<Rightarrow> 's world \<Rightarrow> ('k, 'v) DBAccess \<Rightarrow>
   's world \<times> ('k, 'v) DBAccess" where
  "flush_cache D T w a = (let ops = flush_ops T a in
     (w\<lparr>PUT_COUNT := (PUT_COUNT w)[PUT_MODE w := PUT_COUNT w ! PUT_MODE w + word_of_nat (length ops)],
        store := DBColumn_write_buffered D (store w) (acc_col a) ops\<rparr>,
      a\<lparr>acc_cache := []\<rparr>))"

section \<open>The map a DBAccess stands for\<close>

definition acc_view ::
  "'s kvdb_ops \<Rightarrow> ('k, 'v) access_ty \<Rightarrow> 's world \<Rightarrow> ('k, 'v) DBAccess \<Rightarrow> 'k \<Rightarrow> 'v result" where
  "acc_view D T w a k =
     (case map_of (acc_cache a) k of Some (v, dirty) \<Rightarrow> Inr v | None \<Rightarrow> load_value D T w a k)"

text \<open>The cache invariant: one entry per key, and an entry that is not dirty
  holds what the store holds.\<close>

definition cache_ok ::
  "'s kvdb_ops \<Rightarrow> ('k, 'v) access_ty \<Rightarrow> 's world \<Rightarrow> ('k, 'v) DBAccess \<Rightarrow> bool" where
  "cache_ok D T w a \<longleftrightarrow> distinct (map fst (acc_cache a)) \<and>
     (\<forall>k v. map_of (acc_cache a) k = Some (v, False) \<longrightarrow> load_value D T w a k = Inr v)"

lemma load_value_cong:
  "acc_prefix a = acc_prefix b \<Longrightarrow> acc_col a = acc_col b \<Longrightarrow> load_value D T w a = load_value D T w b"
  by (simp add: load_value_def fun_eq_iff)

lemma load_value_cache [simp]: "load_value D T w (a\<lparr>acc_cache := c\<rparr>) = load_value D T w a"
  by (rule load_value_cong) simp_all

lemma cache_ok_new [simp]: "cache_ok D T w (DBAccess_new p c)"
  by (simp add: cache_ok_def DBAccess_new_def)

lemma ensure_cached_view:
  assumes ok: "cache_ok D T w a" and v: "acc_view D T w a k = Inr v"
  obtains d a' where "ensure_cached D T w a k = Inr ((v, d), a')" "cache_ok D T w a'"
    "acc_view D T w a' = acc_view D T w a" "acc_prefix a' = acc_prefix a" "acc_col a' = acc_col a"
    "map_of (acc_cache a') k = Some (v, d)" "fst ` set (acc_cache a') = insert k (fst ` set (acc_cache a))"
    "dirty_entries a' = dirty_entries a"
proof (cases "map_of (acc_cache a) k")
  case None
  then have l: "load_value D T w a k = Inr v" using v by (simp add: acc_view_def)
  let ?a = "a\<lparr>acc_cache := (k, (v, False)) # acc_cache a\<rparr>"
  show thesis
  proof (rule that [of False ?a])
    show "ensure_cached D T w a k = Inr ((v, False), ?a)" using None l by (simp add: ensure_cached_def)
    show "cache_ok D T w ?a" using ok None l by (auto simp: cache_ok_def map_of_eq_None_iff)
    show "acc_view D T w ?a = acc_view D T w a" using None l by (auto simp: acc_view_def fun_eq_iff split: option.splits)
  qed (simp_all add: dirty_entries_def)
next
  case (Some e)
  then obtain d where "e = (v, d)" using v by (cases e) (auto simp: acc_view_def)
  then have "insert k (fst ` set (acc_cache a)) = fst ` set (acc_cache a)"
    using Some by (force dest: map_of_SomeD)
  then show thesis using that [of d a] Some \<open>e = (v, d)\<close> ok by (simp add: ensure_cached_def)
qed

text \<open>Reads and writes on the view.\<close>

lemma DBAccess_get_view:
  assumes "cache_ok D T w a" "acc_view D T w a k = Inr v"
  obtains a' where "DBAccess_get D T w a k = Inr (v, a')" "cache_ok D T w a'"
    "acc_view D T w a' = acc_view D T w a" "acc_prefix a' = acc_prefix a" "acc_col a' = acc_col a"
    "fst ` set (acc_cache a') = insert k (fst ` set (acc_cache a))" "dirty_entries a' = dirty_entries a"
proof -
  from assms obtain d a' where "ensure_cached D T w a k = Inr ((v, d), a')" "cache_ok D T w a'"
    "acc_view D T w a' = acc_view D T w a" "acc_prefix a' = acc_prefix a" "acc_col a' = acc_col a"
    "fst ` set (acc_cache a') = insert k (fst ` set (acc_cache a))" "dirty_entries a' = dirty_entries a"
    by (rule ensure_cached_view)
  then show thesis using that [of a'] by (simp add: DBAccess_get_def)
qed

lemma DBAccess_set_view:
  "acc_view D T w (DBAccess_set a k v) = (acc_view D T w a)(k := Inr v)"
  by (auto simp: DBAccess_set_def acc_view_def update_conv' fun_eq_iff split: option.splits)

lemma DBAccess_set_ok: "cache_ok D T w a \<Longrightarrow> cache_ok D T w (DBAccess_set a k v)"
  by (auto simp: DBAccess_set_def cache_ok_def update_conv' distinct_update)

lemma DBAccess_set_fields [simp]:
  "acc_prefix (DBAccess_set a k v) = acc_prefix a" "acc_col (DBAccess_set a k v) = acc_col a"
  "fst ` set (acc_cache (DBAccess_set a k v)) = insert k (fst ` set (acc_cache a))"
  by (simp_all add: DBAccess_set_def dom_update)

lemma DBAccess_get_mut_is_set:
  assumes "cache_ok D T w a" "acc_view D T w a k = Inr v"
  obtains a' where "DBAccess_get_mut D T w a k f = Inr a'" "cache_ok D T w a'"
    "acc_view D T w a' = (acc_view D T w a)(k := Inr (f v))"
    "acc_prefix a' = acc_prefix a" "acc_col a' = acc_col a"
    "fst ` set (acc_cache a') = insert k (fst ` set (acc_cache a))"
proof -
  from assms obtain d a' where a': "ensure_cached D T w a k = Inr ((v, d), a')" "cache_ok D T w a'"
    "acc_view D T w a' = acc_view D T w a" "acc_prefix a' = acc_prefix a" "acc_col a' = acc_col a"
    "fst ` set (acc_cache a') = insert k (fst ` set (acc_cache a))"
    by (rule ensure_cached_view)
  have m: "DBAccess_get_mut D T w a k f = Inr (DBAccess_set a' k (f v))"
    using a'(1) by (simp add: DBAccess_get_mut_def DBAccess_set_def)
  show thesis
    by (rule that [OF m]) (simp_all add: a' DBAccess_set_ok DBAccess_set_view)
qed

section \<open>Flushing\<close>

text \<open>A store, a codec for the values and positions that tell the keys of \<open>K\<close>
  apart give the contract of a flush.\<close>

locale dbaccess = kvdb D inv cols + V: codec "v_write T" "v_read T" ok
  for D :: "'s kvdb_ops" and inv and cols and T :: "('k, 'v) access_ty" and ok +
  fixes K :: "'k set"
  assumes position_inj: "inj_on (\<lambda>k. word_of_nat (l_position T k) :: u32) K"
begin

lemma compute_key_inj:
  assumes "k \<in> K" "k' \<in> K"
  shows "compute_key T p k = compute_key T p k' \<longleftrightarrow> k = k'"
  using position_inj assms by (auto simp: compute_key_def to_be_bytes_inject dest: inj_onD)

lemma compute_key_prefix: "compute_key T p k = compute_key T p' k' \<Longrightarrow> p = p'"
  by (simp add: compute_key_def)

definition access_ok :: "'s world \<Rightarrow> ('k, 'v) DBAccess \<Rightarrow> bool" where
  "access_ok w a \<longleftrightarrow> inv (store w) \<and> acc_col a < cols \<and> cache_ok D T w a \<and>
     fst ` set (acc_cache a) \<subseteq> K \<and> (\<forall>(k, v, dirty) \<in> set (acc_cache a). dirty \<longrightarrow> ok v)"

lemma flush_contents:
  assumes "access_ok w a" "flush_cache D T w a = (w', a')"
  shows "kv_get D (store w') = apply_ops (map (\<lambda>(k, v, dirty).
      Insert (acc_col a) (compute_key T (acc_prefix a) k) (to_bytes_local (v_write T) v)) (dirty_entries a))
      (kv_get D (store w))"
    and "inv (store w')"
proof -
  have eq: "map (set_col (acc_col a)) (flush_ops T a) = map (\<lambda>(k, v, dirty).
      Insert (acc_col a) (compute_key T (acc_prefix a) k) (to_bytes_local (v_write T) v)) (dirty_entries a)"
    by (simp add: flush_ops_def split_def)
  have s: "store w' = kv_write_buffered D (store w) (map (set_col (acc_col a)) (flush_ops T a))"
    using assms(2) by (auto simp: flush_cache_def Let_def DBColumn_write_buffered_def)
  have "ops_in_range cols (map (set_col (acc_col a)) (flush_ops T a))" "inv (store w)"
    using assms(1) by (auto simp: access_ok_def)
  then show "inv (store w')" "kv_get D (store w') = apply_ops (map (\<lambda>(k, v, dirty).
      Insert (acc_col a) (compute_key T (acc_prefix a) k) (to_bytes_local (v_write T) v)) (dirty_entries a))
      (kv_get D (store w))"
    unfolding s eq [symmetric] by (simp_all add: inv_write_buffered get_write_buffered)
qed

lemma flush_frame:
  assumes "access_ok w a" "flush_cache D T w a = (w', a')"
    and "c \<noteq> acc_col a \<or> (\<forall>k. key \<noteq> compute_key T (acc_prefix a) k)"
  shows "kv_get D (store w') c key = kv_get D (store w) c key"
  unfolding flush_contents(1) [OF assms(1,2)]
  using assms(3) by (intro apply_ops_other) auto

lemma flush_view:
  assumes a: "access_ok w a" and f: "flush_cache D T w a = (w', a')" and k: "k \<in> K"
  shows "acc_view D T w' a' k = acc_view D T w a k"
proof -
  let ?key = "\<lambda>e. compute_key T (acc_prefix a) (fst e)"
  let ?val = "\<lambda>e. to_bytes_local (v_write T) (fst (snd e))"
  have c: "kv_get D (store w') = apply_ops (map (\<lambda>e. Insert (acc_col a) (?key e) (?val e)) (dirty_entries a))
      (kv_get D (store w))"
    using flush_contents(1) [OF a f] by (simp add: split_def)
  have a': "acc_cache a' = []" "acc_prefix a' = acc_prefix a" "acc_col a' = acc_col a"
    using f by (auto simp: flush_cache_def Let_def)
  have dist: "distinct (map fst (acc_cache a))" and sub: "fst ` set (acc_cache a) \<subseteq> K"
    using a by (auto simp: access_ok_def cache_ok_def)
  have "distinct (map fst (dirty_entries a))" using dist by (auto simp: dirty_entries_def distinct_map_filter)
  moreover have "inj_on (compute_key T (acc_prefix a)) (fst ` set (dirty_entries a))"
  proof (rule inj_onI)
    fix x y assume "x \<in> fst ` set (dirty_entries a)" "y \<in> fst ` set (dirty_entries a)"
    then have "x \<in> K" "y \<in> K" using sub by (auto simp: dirty_entries_def)
    then show "compute_key T (acc_prefix a) x = compute_key T (acc_prefix a) y \<Longrightarrow> x = y"
      by (simp add: compute_key_inj)
  qed
  ultimately have dk: "distinct (map ?key (dirty_entries a))"
    by (auto simp: distinct_map inj_on_def)
  show ?thesis
  proof (cases "\<exists>v. (k, v, True) \<in> set (acc_cache a)")
    case True
    then obtain v where v: "(k, v, True) \<in> set (acc_cache a)" by blast
    then have "(k, v, True) \<in> set (dirty_entries a)" by (simp add: dirty_entries_def)
    from apply_inserts_some [OF dk this] have "kv_get D (store w') (acc_col a) (compute_key T (acc_prefix a) k) =
      Some (to_bytes_local (v_write T) v)" by (simp add: c)
    moreover have "ok v" using a v by (auto simp: access_ok_def)
    moreover have "map_of (acc_cache a) k = Some (v, True)" using v dist by simp
    ultimately show ?thesis
      by (simp add: acc_view_def a' load_value_def DBColumn_get_def V.from_to_bytes_local)
  next
    case False
    have "compute_key T (acc_prefix a) k \<notin> ?key ` set (dirty_entries a)"
    proof
      assume "compute_key T (acc_prefix a) k \<in> ?key ` set (dirty_entries a)"
      then obtain k' v' where e: "(k', v', True) \<in> set (acc_cache a)"
        "compute_key T (acc_prefix a) k = compute_key T (acc_prefix a) k'"
        by (auto simp: dirty_entries_def)
      then have "k' \<in> K" using sub by force
      then show False using e k False by (auto simp: compute_key_inj)
    qed
    then have "kv_get D (store w') (acc_col a) (compute_key T (acc_prefix a) k) =
               kv_get D (store w) (acc_col a) (compute_key T (acc_prefix a) k)"
      unfolding c by (intro apply_inserts_other) simp
    then have "acc_view D T w' a' k = load_value D T w a k"
      by (simp add: acc_view_def a' load_value_def DBColumn_get_def)
    also have "\<dots> = acc_view D T w a k"
      using False a by (auto simp: acc_view_def access_ok_def cache_ok_def split: option.splits dest: map_of_SomeD)
        (metis (full_types) map_of_SomeD)
    finally show ?thesis .
  qed
qed

lemma flush_ok: "access_ok w a \<Longrightarrow> flush_cache D T w a = (w', a') \<Longrightarrow> access_ok w' a'"
  using flush_contents(2) [of w a w' a']
  by (auto simp: access_ok_def flush_cache_def Let_def cache_ok_def)

end

section \<open>Layouts\<close>

definition FlattenArray_position :: "nat \<Rightarrow> nat" where
  "FlattenArray_position index = index"

end
