(* ===== verification/AmtNode.thy ===== *)
theory AmtNode
  imports DbAccess
begin

unbundle bit_operations_syntax

text \<open>
  Nodes and node indices of the authenticated multipoint tree,
  \<open>amt/node.rs\<close>, with the tree layout of \<open>storage/layout.rs\<close> and the curve
  serialization of \<open>serde/curves.rs\<close>.  The curve library is not part of the
  repository: its point encodings (projective as is, or through the affine
  form) are a parameter.
\<close>

record 'g curve_bytes =
  proj_write :: "'g writer"
  proj_read :: "'g reader"
  aff_write :: "'g writer"
  aff_read :: "'g reader"

definition read_G1 :: "'g curve_bytes \<Rightarrow> SerdeType \<Rightarrow> 'g reader" where
  "read_G1 B ty bs = (if consistent ty then aff_read B bs else proj_read B bs)"
definition write_G1 :: "'g curve_bytes \<Rightarrow> SerdeType \<Rightarrow> 'g writer" where
  "write_G1 B ty g = (if consistent ty then aff_write B g else proj_write B g)"

record 'g AMTNode =
  commitment :: 'g
  amt_proof :: 'g

definition read_AMTNode :: "'g curve_bytes \<Rightarrow> SerdeType \<Rightarrow> 'g AMTNode reader" where
  "read_AMTNode B ty bs =
     (if consistent ty
      then and_then (aff_read B bs) (\<lambda>(c, r). and_then (aff_read B r)
             (\<lambda>(p, r'). Inr (\<lparr>commitment = c, amt_proof = p\<rparr>, r')))
      else and_then (proj_read B bs) (\<lambda>(c, r). and_then (proj_read B r)
             (\<lambda>(p, r'). Inr (\<lparr>commitment = c, amt_proof = p\<rparr>, r'))))"

definition write_AMTNode :: "'g curve_bytes \<Rightarrow> SerdeType \<Rightarrow> 'g AMTNode writer" where
  "write_AMTNode B ty n =
     (if consistent ty then aff_write B (commitment n) @ aff_write B (amt_proof n)
      else proj_write B (commitment n) @ proj_write B (amt_proof n))"

text \<open>The curve library's documented round trips.\<close>

locale curve_codec =
  fixes B :: "'g curve_bytes"
  assumes proj_round_trip: "proj_read B (proj_write B g @ rest) = Inr (g, rest)"
    and aff_round_trip: "aff_read B (aff_write B g @ rest) = Inr (g, rest)"

sublocale curve_codec \<subseteq> g1: codec "write_G1 B" "read_G1 B" "\<lambda>_. True"
  by unfold_locales (simp add: write_G1_def read_G1_def proj_round_trip aff_round_trip)

sublocale curve_codec \<subseteq> amt_node: codec "write_AMTNode B" "read_AMTNode B" "\<lambda>_. True"
  by unfold_locales (simp add: write_AMTNode_def read_AMTNode_def proj_round_trip aff_round_trip)

section \<open>NodeIndex\<close>

record NodeIndex =
  ni_depth :: nat
  ni_index :: nat

text \<open>\<open>N\<close> is the height \<open>N::USIZE\<close> of the tree.\<close>

definition NodeIndex_new :: "nat \<Rightarrow> nat \<Rightarrow> nat \<Rightarrow> NodeIndex result" where
  "NodeIndex_new N d i =
     and_then (ensure (i < 2 ^ d) ''assertion failed: index < (1 << depth)'') (\<lambda>_.
     and_then (ensure (d \<le> N) ''assertion failed: depth <= N::USIZE'') (\<lambda>_.
       Inr \<lparr>ni_depth = d, ni_index = i\<rparr>))"

definition NodeIndex_leaf :: "nat \<Rightarrow> nat \<Rightarrow> NodeIndex result" where
  "NodeIndex_leaf N i = NodeIndex_new N N i"

definition NodeIndex_root :: NodeIndex where
  "NodeIndex_root = \<lparr>ni_depth = 0, ni_index = 0\<rparr>"

definition to_sibling :: "nat \<Rightarrow> NodeIndex \<Rightarrow> NodeIndex result" where
  "to_sibling N n = NodeIndex_new N (ni_depth n) (ni_index n XOR 1)"

definition to_ancestor :: "nat \<Rightarrow> NodeIndex \<Rightarrow> nat \<Rightarrow> NodeIndex result" where
  "to_ancestor N n height =
     and_then (ensure (height \<le> ni_depth n) ''assertion failed: height <= self.depth'') (\<lambda>_.
       NodeIndex_new N (ni_depth n - height) (drop_bit height (ni_index n)))"

definition needs_maintain :: "nat \<Rightarrow> NodeIndex \<Rightarrow> NodeIndex \<Rightarrow> bool result" where
  "needs_maintain N n shard_root =
     (if n = NodeIndex_root then Inr True
      else if ni_depth shard_root < ni_depth n
      then Inr (drop_bit (ni_depth n - ni_depth shard_root) (ni_index n) = ni_index shard_root)
      else and_then (to_sibling N n) (\<lambda>sib.
             Inr (ni_index sib = drop_bit (ni_depth shard_root - ni_depth sib) (ni_index shard_root))))"

definition FlattenTree_position :: "NodeIndex \<Rightarrow> nat" where
  "FlattenTree_position n = 2 ^ ni_depth n + ni_index n"

definition node_ok :: "nat \<Rightarrow> NodeIndex \<Rightarrow> bool" where
  "node_ok N n \<longleftrightarrow> ni_depth n \<le> N \<and> ni_index n < 2 ^ ni_depth n"

section \<open>Facts\<close>

lemma NodeIndex_root_new: "NodeIndex_new N 0 0 = Inr NodeIndex_root"
  by (simp add: NodeIndex_new_def NodeIndex_root_def)

lemma NodeIndex_new_ok [simp]:
  "i < 2 ^ d \<Longrightarrow> d \<le> N \<Longrightarrow> NodeIndex_new N d i = Inr \<lparr>ni_depth = d, ni_index = i\<rparr>"
  by (simp add: NodeIndex_new_def)

lemma NodeIndex_new_node_ok: "NodeIndex_new N d i = Inr n \<Longrightarrow> node_ok N n"
  by (auto simp: NodeIndex_new_def and_then_eq_Inr node_ok_def)

lemma xor_one_less:
  fixes i :: nat
  assumes "i < 2 ^ Suc d"
  shows "i XOR 1 < 2 ^ Suc d"
  using assms by (auto simp: xor_Suc_0_eq elim!: evenE)

lemma drop_bit_less: "(i :: nat) < 2 ^ d \<Longrightarrow> h \<le> d \<Longrightarrow> drop_bit h i < 2 ^ (d - h)"
  by (simp add: drop_bit_eq_div less_mult_imp_div_less flip: power_add)

lemma to_ancestor_ok:
  assumes "node_ok N n" "h \<le> ni_depth n"
  shows "to_ancestor N n h = Inr \<lparr>ni_depth = ni_depth n - h, ni_index = drop_bit h (ni_index n)\<rparr>"
  using assms drop_bit_less [of "ni_index n" "ni_depth n" h]
  by (simp add: to_ancestor_def node_ok_def le_trans [OF diff_le_self])

lemma to_sibling_ok:
  assumes "node_ok N n" "0 < ni_depth n"
  shows "to_sibling N n = Inr (n\<lparr>ni_index := ni_index n XOR 1\<rparr>)"
proof -
  obtain d where d: "ni_depth n = Suc d" using assms(2) by (cases "ni_depth n") auto
  have "ni_index n XOR 1 < 2 ^ ni_depth n"
    unfolding d by (rule xor_one_less) (use assms d in \<open>simp add: node_ok_def\<close>)
  then show ?thesis using assms by (cases n) (simp add: to_sibling_def node_ok_def)
qed

text \<open>The root has no sibling: asking for it is a panic.\<close>

lemma to_sibling_root: "to_sibling N NodeIndex_root = Inl (Panic ''assertion failed: index < (1 << depth)'')"
  by (simp add: to_sibling_def NodeIndex_root_def NodeIndex_new_def ensure_def)

lemma FlattenTree_inj:
  assumes "node_ok N m" "node_ok N n" "FlattenTree_position m = FlattenTree_position n"
  shows "m = n"
proof -
  have lt: "2 ^ ni_depth m + ni_index m < 2 ^ Suc (ni_depth m)" "2 ^ ni_depth n + ni_index n < 2 ^ Suc (ni_depth n)"
    using assms(1,2) by (simp_all add: node_ok_def)
  have "ni_depth m = ni_depth n"
  proof (rule ccontr)
    assume "ni_depth m \<noteq> ni_depth n"
    then consider "Suc (ni_depth m) \<le> ni_depth n" | "Suc (ni_depth n) \<le> ni_depth m" by linarith
    then show False
    proof cases
      case 1
      then have "(2::nat) ^ Suc (ni_depth m) \<le> 2 ^ ni_depth n" by (intro power_increasing) auto
      then show False using lt assms(3) unfolding FlattenTree_position_def by linarith
    next
      case 2
      then have "(2::nat) ^ Suc (ni_depth n) \<le> 2 ^ ni_depth m" by (intro power_increasing) auto
      then show False using lt assms(3) unfolding FlattenTree_position_def by linarith
    qed
  qed
  then show ?thesis using assms(3) by (cases m; cases n) (simp add: FlattenTree_position_def)
qed

lemma FlattenTree_bound: "node_ok N n \<Longrightarrow> FlattenTree_position n < 2 ^ Suc N"
proof -
  assume n: "node_ok N n"
  then have "FlattenTree_position n < 2 ^ Suc (ni_depth n)" by (simp add: FlattenTree_position_def node_ok_def)
  also have "\<dots> \<le> 2 ^ Suc N" using n by (intro power_increasing) (auto simp: node_ok_def)
  finally show ?thesis .
qed

text \<open>A node the tree keeps for a shard is an ancestor-or-root, a node strictly
  below the shard root, or the sibling of an ancestor-or-self of the shard root.\<close>

lemma needs_maintain_root_shard:
  assumes "node_ok N n"
  shows "needs_maintain N n NodeIndex_root = Inr True"
proof (cases "ni_depth n = 0")
  case True
  then have "n = NodeIndex_root" using assms by (cases n) (simp add: node_ok_def NodeIndex_root_def)
  then show ?thesis by (simp add: needs_maintain_def)
next
  case False
  then have "drop_bit (ni_depth n) (ni_index n) = 0"
    using assms by (simp add: drop_bit_eq_div node_ok_def)
  then show ?thesis using False by (simp add: needs_maintain_def NodeIndex_root_def)
qed

end
