(* ===== verification/AmtParams.thy ===== *)
theory AmtParams
  imports Prelude
begin

unbundle bit_operations_syntax

text \<open>
  The public parameters of the authenticated multipoint tree,
  \<open>crypto/prove_params.rs\<close>: the tables of commitments, quotients and
  verification keys, and the two caches of powers that \<open>get_idents_pow\<close> and
  \<open>get_quotient_pow\<close> fill.  The curve groups come from a library; they are
  arbitrary commutative groups here (written additively, as the code does),
  and \<open>mul\<close> is repeated addition.
\<close>

primrec smul :: "nat \<Rightarrow> 'g::ab_group_add \<Rightarrow> 'g" where
  "smul 0 g = 0"
| "smul (Suc n) g = g + smul n g"

type_synonym FrInt = "256 word"

type_synonym 'g pow_cache = "(nat \<times> 'g) list"

record ('g, 'h) AMTParams =
  commitments :: "'g list"
  quotients :: "'g list list"
  verification :: "'h list list"
  pp_g2 :: 'h
  indents_cache :: "'g pow_cache list"
  quotients_cache :: "'g pow_cache list list"

definition nth_res :: "'a list \<Rightarrow> nat \<Rightarrow> 'a result" where
  "nth_res xs i = (if i < length xs then Inr (xs ! i) else Inl (Panic ''index out of bounds''))"

definition get_commitments :: "('g, 'h) AMTParams \<Rightarrow> nat \<Rightarrow> 'g result" where
  "get_commitments pp index = nth_res (commitments pp) index"

definition get_quotient :: "('g, 'h) AMTParams \<Rightarrow> nat \<Rightarrow> nat \<Rightarrow> 'g result" where
  "get_quotient pp depth index =
     and_then (nth_res (quotients pp) (depth - 1)) (\<lambda>row. nth_res row index)"

definition get_sibling_verification :: "('g, 'h) AMTParams \<Rightarrow> nat \<Rightarrow> nat \<Rightarrow> 'h result" where
  "get_sibling_verification pp depth index =
     (let i = (index AND (2 ^ depth - 1)) XOR 2 ^ (depth - 1)
      in and_then (nth_res (verification pp) (depth - 1)) (\<lambda>row. nth_res row i))"

section \<open>Cached powers\<close>

definition trailing_zeros :: "u64 \<Rightarrow> nat" where
  "trailing_zeros w = length (takeWhile (\<lambda>i. \<not> bit w i) [0..<64])"

definition limbs :: "FrInt \<Rightarrow> u64 list" where
  "limbs p = map (\<lambda>i. ucast (drop_bit (64 * i) p)) [0..<4]"

text \<open>One lookup in the cache of powers, filled on a miss.\<close>

definition cached_pow :: "'g::ab_group_add \<Rightarrow> nat \<Rightarrow> 'g pow_cache \<Rightarrow> 'g \<times> 'g pow_cache" where
  "cached_pow g idx cache =
     (case map_of cache idx of
        Some v \<Rightarrow> (v, cache)
      | None \<Rightarrow> (let v = smul (2 ^ idx) g in (v, (idx, v) # cache)))"

lemma trailing_zeros_bit:
  assumes "trailing_zeros w < 64"
  shows "bit w (trailing_zeros w)"
proof -
  let ?ys = "takeWhile (\<lambda>i. \<not> bit w i) [0..<64]"
  have "length ?ys < length [0..<64]" using assms by (simp add: trailing_zeros_def)
  then have "\<not> \<not> bit w ([0..<64] ! length ?ys)" by (rule nth_length_takeWhile)
  moreover have "[0..<64] ! length ?ys = length ?ys"
    using assms by (simp add: trailing_zeros_def)
  ultimately show ?thesis by (simp add: trailing_zeros_def)
qed

lemma trailing_zeros_64: "\<not> trailing_zeros w < 64 \<longleftrightarrow> w = 0"
proof
  assume "\<not> trailing_zeros w < 64"
  then have "length (takeWhile (\<lambda>i. \<not> bit w i) [0..<64]) = length [0..<64::nat]"
    using length_takeWhile_le [of "\<lambda>i. \<not> bit w i" "[0..<64]"] by (simp add: trailing_zeros_def)
  then have "takeWhile (\<lambda>i. \<not> bit w i) [0..<64] = [0..<64]"
    by (metis takeWhile_eq_take take_all order_refl)
  then have "\<forall>i\<in>set [0..<64]. \<not> bit w i" by (metis takeWhile_eq_all_conv)
  then show "w = 0" by (intro bit_word_eqI) (auto simp: bit_imp_le_length)
qed (simp add: trailing_zeros_def takeWhile_eq_all_conv [THEN iffD2])

lemma clear_bit_unat:
  fixes w :: u64
  assumes "bit w t"
  shows "unat w = 2 ^ t + unat (w XOR push_bit t 1)"
proof -
  have t: "t < 64" using assms bit_imp_le_length by force
  have pb: "unat (push_bit t 1 :: u64) = 2 ^ t" using t by (intro unat_push_bit_1) simp
  let ?n = "unat w"
  have b: "bit ?n t" using assms by (simp add: bit_unsigned_iff)
  have "?n = (?n XOR 2 ^ t) OR 2 ^ t"
    using b by (intro bit_eqI) (auto simp: bit_or_iff bit_xor_iff bit_exp_iff)
  also have "\<dots> = (?n XOR 2 ^ t) + 2 ^ t"
    using b by (intro disjunctive_add [symmetric]) (auto simp: bit_xor_iff bit_exp_iff)
  finally show ?thesis unfolding unsigned_xor_eq pb by simp
qed

text \<open>The loop over the set bits of one limb.\<close>

function pow_limb ::
  "'g::ab_group_add \<Rightarrow> nat \<Rightarrow> u64 \<Rightarrow> 'g \<times> 'g pow_cache \<Rightarrow> 'g \<times> 'g pow_cache" where
  "pow_limb g dword_idx limb (answer, cache) =
     (if trailing_zeros limb < 64
      then (let bit_idx = trailing_zeros limb;
                idx = dword_idx * 64 + bit_idx;
                (v, cache') = cached_pow g idx cache
            in pow_limb g dword_idx (limb XOR push_bit bit_idx 1) (answer + v, cache'))
      else (answer, cache))"
  by pat_completeness auto
termination
proof (relation "measure (\<lambda>(g, d, limb, s). unat limb)")
  fix g :: "'a :: ab_group_add" and dword_idx limb answer cache t idx p v cache'
  assume "trailing_zeros limb < 64" and t: "t = trailing_zeros limb"
  then show "((g, dword_idx, limb XOR push_bit t 1, answer + v, cache'), g, dword_idx, limb, answer, cache)
      \<in> measure (\<lambda>(g, d, limb, s). unat limb)"
    using clear_bit_unat [OF trailing_zeros_bit] by simp
qed simp

declare pow_limb.simps [simp del]

fun pow_limbs ::
  "'g::ab_group_add \<Rightarrow> nat \<Rightarrow> u64 list \<Rightarrow> 'g \<times> 'g pow_cache \<Rightarrow> 'g \<times> 'g pow_cache" where
  "pow_limbs g dword_idx [] s = s"
| "pow_limbs g dword_idx (n # ns) s = pow_limbs g (Suc dword_idx) ns (pow_limb g dword_idx n s)"

definition get_idents_pow ::
  "('g::ab_group_add, 'h) AMTParams \<Rightarrow> nat \<Rightarrow> FrInt \<Rightarrow> ('g \<times> ('g, 'h) AMTParams) result" where
  "get_idents_pow pp index pw =
     and_then (nth_res (indents_cache pp) index) (\<lambda>caches.
     and_then (nth_res (commitments pp) index) (\<lambda>g.
       let (answer, caches') = pow_limbs g 0 (limbs pw) (0, caches)
       in Inr (answer, pp\<lparr>indents_cache := (indents_cache pp)[index := caches']\<rparr>)))"

definition get_quotient_pow ::
  "('g::ab_group_add, 'h) AMTParams \<Rightarrow> nat \<Rightarrow> nat \<Rightarrow> FrInt \<Rightarrow> ('g \<times> ('g, 'h) AMTParams) result" where
  "get_quotient_pow pp depth index pw =
     and_then (nth_res (quotients_cache pp) (depth - 1)) (\<lambda>row.
     and_then (nth_res row index) (\<lambda>caches.
     and_then (get_quotient pp depth index) (\<lambda>g.
       let (answer, caches') = pow_limbs g 0 (limbs pw) (0, caches)
       in Inr (answer, pp\<lparr>quotients_cache :=
            (quotients_cache pp)[depth - 1 := row[index := caches']]\<rparr>))))"

section \<open>Scalar multiples\<close>

lemma smul_add: "smul (m + n) g = smul m g + smul n g"
  by (induction m) (simp_all add: add.assoc)

lemma smul_zero [simp]: "smul n 0 = 0"
  by (induction n) simp_all

lemma smul_plus: "smul n (g + h) = smul n g + smul n h"
  by (induction n) (simp_all add: algebra_simps)

lemma smul_sum: "smul n (\<Sum>i\<in>A. f i) = (\<Sum>i\<in>A. smul n (f i))"
  by (induction A rule: infinite_finite_induct) (simp_all add: smul_plus)

lemma smul_mult: "smul (m * n) g = smul m (smul n g)"
  by (induction m) (simp_all add: smul_add)

section \<open>The cached powers are the powers\<close>

definition pow_cache_ok :: "'g::ab_group_add \<Rightarrow> 'g pow_cache \<Rightarrow> bool" where
  "pow_cache_ok g cache \<longleftrightarrow> (\<forall>i v. map_of cache i = Some v \<longrightarrow> v = smul (2 ^ i) g)"

lemma cached_pow_ok:
  assumes "pow_cache_ok g cache"
  shows "fst (cached_pow g idx cache) = smul (2 ^ idx) g" "pow_cache_ok g (snd (cached_pow g idx cache))"
  using assms by (auto simp: cached_pow_def pow_cache_ok_def Let_def split: option.splits if_splits)

lemma pow_limb_ok:
  assumes "pow_cache_ok g (snd s)"
  shows "fst (pow_limb g d limb s) = fst s + smul (unat limb * 2 ^ (64 * d)) g \<and>
         pow_cache_ok g (snd (pow_limb g d limb s))"
  using assms
proof (induction g d limb s rule: pow_limb.induct)
  case (1 g d limb answer cache)
  show ?case
  proof (cases "trailing_zeros limb < 64")
    case True
    let ?t = "trailing_zeros limb"
    let ?r = "cached_pow g (d * 64 + ?t) cache"
    have c: "fst ?r = smul (2 ^ (d * 64 + ?t)) g" "pow_cache_ok g (snd ?r)"
      using cached_pow_ok [of g cache] 1(2) by auto
    have "pow_limb g d limb (answer, cache) = pow_limb g d (limb XOR push_bit ?t 1) (answer + fst ?r, snd ?r)"
      using True by (simp add: pow_limb.simps Let_def split_def)
    moreover have "fst (pow_limb g d (limb XOR push_bit ?t 1) (answer + fst ?r, snd ?r)) =
        answer + fst ?r + smul (unat (limb XOR push_bit ?t 1) * 2 ^ (64 * d)) g \<and>
        pow_cache_ok g (snd (pow_limb g d (limb XOR push_bit ?t 1) (answer + fst ?r, snd ?r)))"
      using 1(1) [OF True refl refl refl surjective_pairing [symmetric]] c(2) by simp
    moreover have "smul (unat limb * 2 ^ (64 * d)) g =
        smul (2 ^ (d * 64 + ?t)) g + smul (unat (limb XOR push_bit ?t 1) * 2 ^ (64 * d)) g"
      using clear_bit_unat [OF trailing_zeros_bit [OF True]]
      by (simp add: smul_add [symmetric] algebra_simps power_add)
    ultimately show ?thesis using c(1) by (simp add: add.assoc)
  next
    case False
    then have "limb = 0" by (simp add: trailing_zeros_64)
    then show ?thesis using False 1(2) by (simp add: pow_limb.simps)
  qed
qed

fun limbs_value :: "nat \<Rightarrow> u64 list \<Rightarrow> nat" where
  "limbs_value d [] = 0"
| "limbs_value d (n # ns) = unat n * 2 ^ (64 * d) + limbs_value (Suc d) ns"

lemma pow_limbs_ok:
  assumes "pow_cache_ok g (snd s)"
  shows "fst (pow_limbs g d ns s) = fst s + smul (limbs_value d ns) g \<and> pow_cache_ok g (snd (pow_limbs g d ns s))"
  using assms
proof (induction ns arbitrary: d s)
  case (Cons n ns)
  then show ?case using pow_limb_ok [OF Cons.prems, of d n] by (simp add: smul_add add.assoc)
qed simp

lemma limbs_value_limbs: "limbs_value 0 (limbs p) = unat p"
proof -
  have b: "unat p < 2 ^ 256" using unat_bound [of p] by simp
  have l: "unat (ucast (drop_bit k p) :: u64) = unat p div 2 ^ k mod 2 ^ 64" for k
    unfolding unsigned_ucast_eq unsigned_drop_bit_eq
    using b by (simp add: take_bit_eq_mod drop_bit_eq_div)
  let ?B = "2 ^ 64 :: nat"
  have "limbs_value 0 (limbs p) = unat p mod ?B + (unat p div ?B mod ?B) * ?B +
     (unat p div ?B ^ 2 mod ?B) * ?B ^ 2 + (unat p div ?B ^ 3 mod ?B) * ?B ^ 3"
    using l [of 0] by (simp add: limbs_def upt_rec l)
  also have "\<dots> = unat p mod ?B ^ 4"
  proof -
    have s: "n mod (x * ?B) = n mod x + (n div x mod ?B) * x" for n x :: nat
      by (metis add.commute mod_mult2_eq mult.commute)
    show ?thesis
      using s [of "unat p" 1] s [of "unat p" ?B] s [of "unat p" "?B ^ 2"] s [of "unat p" "?B ^ 3"]
      by (simp add: power2_eq_square power3_eq_cube power4_eq_xxxx)
  qed
  also have "\<dots> = unat p" using b by simp
  finally show ?thesis .
qed

definition params_ok :: "nat \<Rightarrow> ('g::ab_group_add, 'h) AMTParams \<Rightarrow> bool" where
  "params_ok N pp \<longleftrightarrow> length (commitments pp) = 2 ^ N \<and> length (indents_cache pp) = 2 ^ N \<and>
     length (quotients pp) = N \<and> length (quotients_cache pp) = N \<and>
     list_all (\<lambda>row. length row = 2 ^ N) (quotients pp) \<and>
     list_all (\<lambda>row. length row = 2 ^ N) (quotients_cache pp) \<and>
     (\<forall>i < 2 ^ N. pow_cache_ok (commitments pp ! i) (indents_cache pp ! i)) \<and>
     (\<forall>d < N. \<forall>i < 2 ^ N. pow_cache_ok (quotients pp ! d ! i) (quotients_cache pp ! d ! i))"

definition same_tables :: "('g, 'h) AMTParams \<Rightarrow> ('g, 'h) AMTParams \<Rightarrow> bool" where
  "same_tables pp pp' \<longleftrightarrow> commitments pp' = commitments pp \<and> quotients pp' = quotients pp \<and>
     verification pp' = verification pp \<and> pp_g2 pp' = pp_g2 pp"

lemma same_tables_trans: "same_tables a b \<Longrightarrow> same_tables b c \<Longrightarrow> same_tables a c"
  by (simp add: same_tables_def)

lemma same_tables_refl [simp]: "same_tables a a"
  by (simp add: same_tables_def)

lemma get_idents_pow_ok:
  assumes "params_ok N pp" "index < 2 ^ N"
  obtains pp' where "get_idents_pow pp index p = Inr (smul (unat p) (commitments pp ! index), pp')"
    "params_ok N pp'" "same_tables pp pp'"
proof -
  let ?g = "commitments pp ! index" and ?c = "indents_cache pp ! index"
  let ?r = "pow_limbs ?g 0 (limbs p) (0, ?c)"
  have "pow_cache_ok ?g ?c" using assms by (simp add: params_ok_def)
  then have r: "fst ?r = smul (unat p) ?g" "pow_cache_ok ?g (snd ?r)"
    using pow_limbs_ok [of ?g "(0, ?c)" 0 "limbs p"] by (simp_all add: limbs_value_limbs)
  let ?pp = "pp\<lparr>indents_cache := (indents_cache pp)[index := snd ?r]\<rparr>"
  have "get_idents_pow pp index p = Inr (smul (unat p) ?g, ?pp)"
    using assms r by (simp add: get_idents_pow_def nth_res_def params_ok_def Let_def split_def)
  moreover have "params_ok N ?pp" using assms r by (auto simp: params_ok_def nth_list_update)
  ultimately show thesis using that by (simp add: same_tables_def)
qed

lemma get_quotient_pow_ok:
  assumes "params_ok N pp" "index < 2 ^ N" "0 < d" "d \<le> N"
  obtains pp' where "get_quotient_pow pp d index p = Inr (smul (unat p) (quotients pp ! (d - 1) ! index), pp')"
    "params_ok N pp'" "same_tables pp pp'"
proof -
  let ?g = "quotients pp ! (d - 1) ! index" and ?row = "quotients_cache pp ! (d - 1)"
  let ?r = "pow_limbs ?g 0 (limbs p) (0, ?row ! index)"
  have dn: "d - 1 < N" using assms by simp
  have len: "length ?row = 2 ^ N" "length (quotients pp ! (d - 1)) = 2 ^ N"
    using assms(1) dn by (auto simp: params_ok_def list_all_length)
  have "pow_cache_ok ?g (?row ! index)" using assms dn unfolding params_ok_def by blast
  then have r: "fst ?r = smul (unat p) ?g" "pow_cache_ok ?g (snd ?r)"
    using pow_limbs_ok [of ?g "(0, ?row ! index)" 0 "limbs p"] by (simp_all add: limbs_value_limbs)
  let ?pp = "pp\<lparr>quotients_cache := (quotients_cache pp)[d - 1 := ?row[index := snd ?r]]\<rparr>"
  have "get_quotient_pow pp d index p = Inr (smul (unat p) ?g, ?pp)"
    using assms(1,2) r(1) len dn
    by (simp add: get_quotient_pow_def get_quotient_def nth_res_def params_ok_def Let_def split_def)
  moreover have "params_ok N ?pp" using assms(1,2) r len dn
    by (auto simp: params_ok_def nth_list_update list_all_length)
  ultimately show thesis using that by (simp add: same_tables_def)
qed

text \<open>The cached power computation of the parameters is exact: whatever the
  caches have been filled with so far, \<open>get_idents_pow\<close> returns the base point
  of the index multiplied by the whole 256-bit exponent, and leaves the tables
  alone and the caches consistent.\<close>

theorem get_idents_pow_exact:
  assumes "params_ok N pp" and "index < 2 ^ N"
  shows "\<exists>pp'. get_idents_pow pp index pw = Inr (smul (unat pw) (commitments pp ! index), pp') \<and>
               params_ok N pp' \<and> same_tables pp pp'"
  using get_idents_pow_ok [OF assms] by metis

definition tiny_params :: "(int, int) AMTParams" where
  "tiny_params = \<lparr>commitments = [3, 5], quotients = [[1, 2]], verification = [[1, 1]], pp_g2 = 1,
     indents_cache = [[(1, 6)], []], quotients_cache = [[[], []]]\<rparr>"

lemma tiny_params_ok: "params_ok 1 tiny_params"
proof -
  have "i < 2 \<longleftrightarrow> i = 0 \<or> i = Suc 0" for i :: nat by auto
  then show ?thesis by (auto simp: params_ok_def tiny_params_def pow_cache_ok_def numeral_2_eq_2)
qed

theorem get_idents_pow_exact_witness:
  "\<exists>pp'. get_idents_pow tiny_params 0 6 = Inr (smul 6 3, pp') \<and> params_ok 1 pp' \<and> same_tables tiny_params pp'"
  using get_idents_pow_exact [OF tiny_params_ok, of 0 6] by (simp add: tiny_params_def)

end
