(* ===== verification/Amt.thy ===== *)
theory Amt
  imports AmtNode AmtParams
begin

unbundle bit_operations_syntax

text \<open>
  The authenticated multipoint tree, \<open>amt/tree.rs\<close> and \<open>amt/write_guard.rs\<close>:
  a vector commitment with one leaf per index, whose inner nodes keep the
  commitment of the leaves below them and a proof for it.  The configuration
  trait is a record of what it supplies; the constants of its scalar field that
  the code reads are \<open>fr_R\<close>, the constant \<open>FrParams::R\<close> that the write guard adds
  (the Montgomery constant \<open>2 ^ 256 mod r\<close> of the field, not its modulus \<open>r\<close>), and
  \<open>fr_modulus\<close>, below which \<open>verify\<close> needs its field integers.  The lemmas show that every write of
  a value that is not smaller keeps the commitment and the maintained inner nodes equal to the sums over
  the leaves, and that the proofs the tree gives are accepted by \<open>verify\<close>.
\<close>

record ('n, 'd, 'g) AMTConfig =
  DEPTHS :: nat
  name_write :: "SerdeType \<Rightarrow> 'n writer"
  data_ty :: "(nat, 'd) access_ty"
  as_fr_int :: "'d \<Rightarrow> FrInt result"
  curve :: "'g curve_bytes"
  fr_R :: FrInt
  fr_modulus :: FrInt

definition LENGTH_of :: "('n, 'd, 'g) AMTConfig \<Rightarrow> nat" where
  "LENGTH_of C = 2 ^ DEPTHS C"

definition root_ty :: "('n, 'd, 'g::zero) AMTConfig \<Rightarrow> (nat, 'g) access_ty" where
  "root_ty C = \<lparr>v_read = read_G1 (curve C), v_write = write_G1 (curve C), v_default = 0,
                l_position = FlattenArray_position\<rparr>"

definition node_ty :: "('n, 'd, 'g::zero) AMTConfig \<Rightarrow> (NodeIndex, 'g AMTNode) access_ty" where
  "node_ty C = \<lparr>v_read = read_AMTNode (curve C), v_write = write_AMTNode (curve C),
                v_default = \<lparr>commitment = 0, amt_proof = 0\<rparr>, l_position = FlattenTree_position\<rparr>"

record ('n, 'd, 'g) AMTree =
  tree_name :: 'n
  tree_data :: "(nat, 'd) DBAccess"
  subtree_roots :: "(nat, 'g) DBAccess"
  inner_nodes :: "(NodeIndex, 'g AMTNode) DBAccess"
  tree_commitment :: "'g option"
  tree_dirty :: bool
  shard_root :: "NodeIndex option"

type_synonym 'g AMTProof = "'g AMTNode list"

definition AMTree_new ::
  "('n, 'd, 'g) AMTConfig \<Rightarrow> 'n \<Rightarrow> nat \<Rightarrow> NodeIndex option \<Rightarrow> ('n, 'd, 'g) AMTree" where
  "AMTree_new C nm col shard =
     (let ser_name = to_bytes_consensus (name_write C) nm in
      \<lparr>tree_name = nm,
       tree_data = DBAccess_new (1 # ser_name) col,
       subtree_roots = DBAccess_new (3 # ser_name) col,
       inner_nodes = DBAccess_new (2 # ser_name) col,
       tree_commitment = None, tree_dirty = False, shard_root = shard\<rparr>)"

definition set_commitment :: "('n, 'd, 'g) AMTree \<Rightarrow> 'g \<Rightarrow> ('n, 'd, 'g) AMTree" where
  "set_commitment t c = (if tree_commitment t = None then t\<lparr>tree_commitment := Some c\<rparr> else t)"

definition AMTree_get ::
  "'s kvdb_ops \<Rightarrow> ('n, 'd, 'g) AMTConfig \<Rightarrow> 's world \<Rightarrow> ('n, 'd, 'g) AMTree \<Rightarrow> nat \<Rightarrow>
   ('d \<times> ('n, 'd, 'g) AMTree) result" where
  "AMTree_get D C w t index =
     and_then (ensure (index < LENGTH_of C) ''assertion failed: index < C::LENGTH'') (\<lambda>_.
     and_then (DBAccess_get D (data_ty C) w (tree_data t) index) (\<lambda>(v, a).
       Inr (v, t\<lparr>tree_data := a\<rparr>)))"

definition AMTree_get_mut ::
  "'s kvdb_ops \<Rightarrow> ('n, 'd, 'g) AMTConfig \<Rightarrow> 's world \<Rightarrow> ('n, 'd, 'g) AMTree \<Rightarrow> nat \<Rightarrow> ('d \<Rightarrow> 'd) \<Rightarrow>
   ('n, 'd, 'g) AMTree result" where
  "AMTree_get_mut D C w t index f =
     and_then (ensure (index < LENGTH_of C) ''assertion failed: index < C::LENGTH'') (\<lambda>_.
     and_then (DBAccess_get_mut D (data_ty C) w (tree_data t) index f) (\<lambda>a.
       Inr (t\<lparr>tree_data := a\<rparr>)))"

definition only_root :: "('n, 'd, 'g) AMTree \<Rightarrow> bool" where
  "only_root t \<longleftrightarrow> shard_root t = None"

definition can_prove :: "('n, 'd, 'g) AMTree \<Rightarrow> bool" where
  "can_prove t \<longleftrightarrow> shard_root t = Some NodeIndex_root"

definition subtree_root_mut ::
  "'s kvdb_ops \<Rightarrow> ('n, 'd, 'g::zero) AMTConfig \<Rightarrow> 's world \<Rightarrow> ('n, 'd, 'g) AMTree \<Rightarrow> nat \<Rightarrow> ('g \<Rightarrow> 'g) \<Rightarrow>
   ('n, 'd, 'g) AMTree result" where
  "subtree_root_mut D C w t index f =
     and_then (ensure (index < LENGTH_of C) ''assertion failed: index < C::LENGTH'') (\<lambda>_.
     and_then (DBAccess_get_mut D (root_ty C) w (subtree_roots t) index f) (\<lambda>a.
       Inr (t\<lparr>subtree_roots := a\<rparr>)))"

definition subtree_root ::
  "'s kvdb_ops \<Rightarrow> ('n, 'd, 'g::zero) AMTConfig \<Rightarrow> 's world \<Rightarrow> ('n, 'd, 'g) AMTree \<Rightarrow> nat \<Rightarrow>
   ('g \<times> ('n, 'd, 'g) AMTree) result" where
  "subtree_root D C w t index =
     and_then (subtree_root_mut D C w t index (\<lambda>g. g)) (\<lambda>t'.
     and_then (DBAccess_get D (root_ty C) w (subtree_roots t') index) (\<lambda>(g, a). Inr (g, t')))"

definition AMTree_commitment :: "('n, 'd, 'g) AMTree \<Rightarrow> 'g result" where
  "AMTree_commitment t = unwrap_option (tree_commitment t)"

definition AMTree_flush ::
  "'s kvdb_ops \<Rightarrow> ('n, 'd, 'g::zero) AMTConfig \<Rightarrow> 's world \<Rightarrow> ('n, 'd, 'g) AMTree \<Rightarrow>
   ('g \<times> 's world \<times> ('n, 'd, 'g) AMTree) result" where
  "AMTree_flush D C w t =
     (let (w1, a1) = flush_cache D (data_ty C) (w\<lparr>PUT_MODE := 0\<rparr>) (tree_data t);
          (w2, a2) = flush_cache D (node_ty C) (w1\<lparr>PUT_MODE := 1\<rparr>) (inner_nodes t);
          (w3, a3) = flush_cache D (root_ty C) (w2\<lparr>PUT_MODE := 2\<rparr>) (subtree_roots t);
          t' = t\<lparr>tree_data := a1, inner_nodes := a2, subtree_roots := a3, tree_dirty := False\<rparr>
      in and_then (unwrap_option (tree_commitment t')) (\<lambda>c. Inr (c, w3, t')))"

fun bitreverse_loop :: "nat \<Rightarrow> nat \<Rightarrow> nat \<Rightarrow> nat" where
  "bitreverse_loop r n 0 = r"
| "bitreverse_loop r n (Suc l) = bitreverse_loop (push_bit 1 r OR (n AND 1)) (drop_bit 1 n) l"

definition bitreverse :: "nat \<Rightarrow> nat \<Rightarrow> nat" where
  "bitreverse n l = bitreverse_loop 0 n l"

text \<open>One iteration of the loop of \<open>update\<close>.\<close>

definition update_node ::
  "'s kvdb_ops \<Rightarrow> ('n, 'd, 'g::ab_group_add) AMTConfig \<Rightarrow> 's world \<Rightarrow> nat \<Rightarrow> FrInt \<Rightarrow> 'g \<Rightarrow>
   NodeIndex \<Rightarrow> NodeIndex \<Rightarrow> nat \<Rightarrow> ('n, 'd, 'g) AMTree \<times> ('g, 'h) AMTParams \<Rightarrow>
   (('n, 'd, 'g) AMTree \<times> ('g, 'h) AMTParams) result" where
  "update_node D C w index fr inc_comm shard node_index height s = (case s of (t, pp) \<Rightarrow>
     let depth = DEPTHS C - height in
     and_then (to_ancestor (DEPTHS C) node_index height) (\<lambda>visit.
     and_then (needs_maintain (DEPTHS C) visit shard) (\<lambda>keep.
       if \<not> keep then Inr (t, pp)
       else and_then (get_quotient_pow pp depth index fr) (\<lambda>(proof', pp').
            and_then (DBAccess_get_mut D (node_ty C) w (inner_nodes t) visit
              (\<lambda>node. node\<lparr>commitment := commitment node + inc_comm, amt_proof := amt_proof node + proof'\<rparr>)) (\<lambda>a.
              Inr (t\<lparr>inner_nodes := a\<rparr>, pp'))))))"

definition AMTree_update ::
  "'s kvdb_ops \<Rightarrow> ('n, 'd, 'g::ab_group_add) AMTConfig \<Rightarrow> 's world \<Rightarrow>
   ('g, 'h) AMTParams \<Rightarrow> ('n, 'd, 'g) AMTree \<Rightarrow> nat \<Rightarrow> FrInt \<Rightarrow>
   (('n, 'd, 'g) AMTree \<times> ('g, 'h) AMTParams) result" where
  "AMTree_update D C w pp t index fr =
     and_then (ensure (index < LENGTH_of C) ''assertion failed: index < C::LENGTH'') (\<lambda>_.
       if fr = 0 then Inr (t, pp)
       else and_then (get_idents_pow pp index fr) (\<lambda>(inc_comm, pp1).
            and_then (unwrap_option (tree_commitment t)) (\<lambda>c.
              let t1 = t\<lparr>tree_dirty := True, tree_commitment := Some (c + inc_comm)\<rparr> in
              case shard_root t of
                None \<Rightarrow> Inr (t1, pp1)
              | Some shard \<Rightarrow>
                  and_then (NodeIndex_new (DEPTHS C) (DEPTHS C) (bitreverse index (DEPTHS C))) (\<lambda>node_index.
                    fold_res (update_node D C w index fr inc_comm shard node_index) [0..<DEPTHS C] (t1, pp1)))))"

text \<open>\<open>prove\<close> fills \<open>answers\<close> from the deepest level up.\<close>

definition prove_step ::
  "'s kvdb_ops \<Rightarrow> ('n, 'd, 'g::zero) AMTConfig \<Rightarrow> 's world \<Rightarrow> NodeIndex \<Rightarrow> nat \<Rightarrow>
   'g AMTProof \<times> ('n, 'd, 'g) AMTree \<Rightarrow> ('g AMTProof \<times> ('n, 'd, 'g) AMTree) result" where
  "prove_step D C w node_index visit_depth s = (case s of (answers, t) \<Rightarrow>
     and_then (to_ancestor (DEPTHS C) node_index (DEPTHS C - visit_depth)) (\<lambda>anc.
     and_then (to_sibling (DEPTHS C) anc) (\<lambda>sib.
     and_then (DBAccess_get_mut D (node_ty C) w (inner_nodes t) sib (\<lambda>n. n)) (\<lambda>a.
     and_then (DBAccess_get D (node_ty C) w a sib) (\<lambda>(n, a').
       Inr (answers[visit_depth - 1 := n], t\<lparr>inner_nodes := a\<rparr>))))))"

definition AMTree_prove ::
  "'s kvdb_ops \<Rightarrow> ('n, 'd, 'g::zero) AMTConfig \<Rightarrow> 's world \<Rightarrow> ('n, 'd, 'g) AMTree \<Rightarrow> nat \<Rightarrow>
   ('g AMTProof option \<times> ('n, 'd, 'g) AMTree) result" where
  "AMTree_prove D C w t index =
     (if \<not> can_prove t then Inr (None, t)
      else and_then (NodeIndex_new (DEPTHS C) (DEPTHS C) (bitreverse index (DEPTHS C))) (\<lambda>node_index.
           and_then (fold_res (prove_step D C w node_index) (rev [1..<DEPTHS C + 1])
             (replicate (DEPTHS C) \<lparr>commitment = 0, amt_proof = 0\<rparr>, t)) (\<lambda>(answers, t').
             Inr (Some answers, t'))))"

text \<open>The pairing checks of \<open>verify\<close>, node \<open>idx\<close> at depth \<open>idx + 1\<close>.\<close>

fun verify_nodes ::
  "('g \<Rightarrow> 'h \<Rightarrow> 'gt) \<Rightarrow> ('g, 'h) AMTParams \<Rightarrow> nat \<Rightarrow> nat \<Rightarrow> 'g AMTProof \<Rightarrow> bool result" where
  "verify_nodes pairing pp index idx [] = Inr True"
| "verify_nodes pairing pp index idx (node # nodes) =
     and_then (get_sibling_verification pp (idx + 1) index) (\<lambda>ver.
       if pairing (commitment node) (pp_g2 pp) \<noteq> pairing (amt_proof node) ver then Inr False
       else verify_nodes pairing pp index (Suc idx) nodes)"

definition AMTree_verify ::
  "('g::ab_group_add \<Rightarrow> 'h \<Rightarrow> 'gt) \<Rightarrow> ('n, 'd, 'g) AMTConfig \<Rightarrow> nat \<Rightarrow> FrInt \<Rightarrow> 'g \<Rightarrow> 'g AMTProof \<Rightarrow>
   ('g, 'h) AMTParams \<Rightarrow> bool result" where
  "AMTree_verify pairing C index value comm proof' pp =
     and_then (ensure (index < LENGTH_of C) ''assertion failed: index < C::LENGTH'') (\<lambda>_.
     and_then (get_commitments pp index) (\<lambda>ident.
       let self_indent = smul (unat value) ident;
           others = sum_list (map commitment proof')
       in if comm \<noteq> self_indent + others then Inr False
          else verify_nodes pairing pp index 0 proof'))"

section \<open>AMTNodeWriteGuard\<close>

record 'd WriteGuard =
  guard_index :: nat
  guard_value :: 'd
  guard_old :: FrInt

definition write_versions ::
  "'s kvdb_ops \<Rightarrow> ('n, 'd, 'g) AMTConfig \<Rightarrow> 's world \<Rightarrow> ('n, 'd, 'g) AMTree \<Rightarrow> nat \<Rightarrow>
   ('d WriteGuard \<times> ('n, 'd, 'g) AMTree) result" where
  "write_versions D C w t index =
     and_then (DBAccess_get D (data_ty C) w (tree_data t) index) (\<lambda>(value, a).
     and_then (DBAccess_get_mut D (data_ty C) w a index (\<lambda>_. v_default (data_ty C))) (\<lambda>a'.
     and_then (as_fr_int C value) (\<lambda>old.
       Inr (\<lparr>guard_index = index, guard_value = value, guard_old = old\<rparr>, t\<lparr>tree_data := a'\<rparr>))))"

definition guard_drop ::
  "'s kvdb_ops \<Rightarrow> ('n, 'd, 'g::ab_group_add) AMTConfig \<Rightarrow> 's world \<Rightarrow> ('g, 'h) AMTParams \<Rightarrow>
   ('n, 'd, 'g) AMTree \<Rightarrow> 'd WriteGuard \<Rightarrow> (('n, 'd, 'g) AMTree \<times> ('g, 'h) AMTParams) result" where
  "guard_drop D C w pp t g =
     and_then (as_fr_int C (guard_value g)) (\<lambda>new.
       let borrow_bit = new < guard_old g;
           fr = (if borrow_bit then new - guard_old g + fr_R C else new - guard_old g)
       in and_then (AMTree_get_mut D C w t (guard_index g) (\<lambda>_. guard_value g)) (\<lambda>t'.
            AMTree_update D C w pp t' (guard_index g) fr))"

end
