(* ===== verification/AmtProofs.thy ===== *)
theory AmtProofs
  imports Amt
begin

unbundle bit_operations_syntax

text \<open>
  Correctness of the authenticated multipoint tree: the bit-reversed leaf
  order and the partition of the leaves along a path, the invariant that
  relates commitment and inner nodes to the leaves, its preservation by
  \<open>update\<close> and by the write guard, and the completeness of \<open>prove\<close>
  against \<open>verify\<close>.
\<close>

section \<open>Bit reversal\<close>

lemma shift_in_bit: "push_bit 1 r OR (n AND 1) = 2 * r + n mod (2 :: nat)"
proof -
  have "\<not> bit (push_bit 1 r) m \<or> \<not> bit (n AND 1) m" for m
    by (cases m) (auto simp: bit_and_iff bit_1_iff bit_0)
  then have "push_bit 1 r OR (n AND 1) = push_bit 1 r + (n AND 1)" by (simp add: disjunctive_add)
  then show ?thesis by (simp add: push_bit_eq_mult and_one_eq)
qed

lemma bitreverse_loop_step:
  "bitreverse_loop r n (Suc l) = bitreverse_loop (2 * r + n mod 2) (n div 2) l"
  by (simp only: bitreverse_loop.simps shift_in_bit) (simp add: drop_bit_eq_div)

lemma bitreverse_loop_Suc:
  "bitreverse_loop r n (Suc l) = 2 * bitreverse_loop r n l + (n div 2 ^ l) mod 2"
proof (induction l arbitrary: r n)
  case 0
  then show ?case by (simp only: bitreverse_loop_step) simp
next
  case (Suc l)
  have "n div 2 div 2 ^ l = n div 2 ^ Suc l" by (simp add: div_mult2_eq)
  then show ?case
    using Suc.IH [of "2 * r + n mod 2" "n div 2"]
    by (simp only: bitreverse_loop_step [of r n])
qed

lemma digit_eq:
  fixes a b c e :: nat
  assumes "b < 2" "e < 2"
  shows "2 * a + b = 2 * c + e \<longleftrightarrow> a = c \<and> b = e"
    and "2 * a + b = (2 * c + e) XOR 1 \<longleftrightarrow> a = c \<and> b \<noteq> e"
proof -
  show "2 * a + b = 2 * c + e \<longleftrightarrow> a = c \<and> b = e" using assms by presburger
  have "(2 * c + e) XOR 1 = 2 * c + (1 - e)"
    using assms by (cases "e = 0") (auto simp: xor_Suc_0_eq)
  moreover have "2 * a + b = 2 * c + (1 - e) \<longleftrightarrow> a = c \<and> b \<noteq> e" using assms by presburger
  ultimately show "2 * a + b = (2 * c + e) XOR 1 \<longleftrightarrow> a = c \<and> b \<noteq> e" by simp
qed

lemma bitreverse_0 [simp]: "bitreverse n 0 = 0"
  by (simp add: bitreverse_def)

lemma bitreverse_Suc: "bitreverse n (Suc l) = 2 * bitreverse n l + (n div 2 ^ l) mod 2"
  by (simp only: bitreverse_def bitreverse_loop_Suc)

lemma bitreverse_bound: "bitreverse n l < 2 ^ l"
proof (induction l)
  case (Suc l)
  have "(n div 2 ^ l) mod 2 < 2" by simp
  then show ?case using Suc unfolding bitreverse_Suc power_Suc by linarith
qed simp

lemma bitreverse_ancestor: "d \<le> N \<Longrightarrow> drop_bit (N - d) (bitreverse i N) = bitreverse i d"
proof (induction N)
  case (Suc N)
  show ?case
  proof (cases "d = Suc N")
    case False
    then have d: "d \<le> N" using Suc.prems by simp
    have "drop_bit (Suc N - d) (bitreverse i (Suc N)) = drop_bit (N - d) (bitreverse i (Suc N) div 2)"
      using d by (simp add: Suc_diff_le drop_bit_Suc)
    also have "bitreverse i (Suc N) div 2 = bitreverse i N" by (simp add: bitreverse_Suc)
    finally show ?thesis using Suc.IH [OF d] by simp
  qed simp
qed simp

lemma bitreverse_eq_iff: "bitreverse i d = bitreverse j d \<longleftrightarrow> i mod 2 ^ d = j mod 2 ^ d"
proof (induction d)
  case (Suc d)
  have m: "k mod 2 ^ Suc d = k mod 2 ^ d + 2 ^ d * (k div 2 ^ d mod 2)" for k :: nat
    by (metis add.commute mod_mult2_eq power_Suc2)
  have b: "a + 2 ^ d * x = c + 2 ^ d * y \<longleftrightarrow> a = c \<and> x = y" if "a < 2 ^ d" "c < 2 ^ d" for a c x y :: nat
  proof
    assume h: "a + 2 ^ d * x = c + 2 ^ d * y"
    have "(a + 2 ^ d * x) mod 2 ^ d = a" "(c + 2 ^ d * y) mod 2 ^ d = c"
      "(a + 2 ^ d * x) div 2 ^ d = x" "(c + 2 ^ d * y) div 2 ^ d = y" using that by simp_all
    then show "a = c \<and> x = y" using h by metis
  qed simp
  show ?case unfolding bitreverse_Suc m using Suc by (simp add: digit_eq b)
qed simp

lemma bitreverse_sibling:
  "bitreverse i (Suc d) = bitreverse j (Suc d) XOR 1 \<longleftrightarrow>
   bitreverse i d = bitreverse j d \<and> (i div 2 ^ d) mod 2 \<noteq> (j div 2 ^ d) mod 2"
  unfolding bitreverse_Suc by (rule digit_eq) simp_all

section \<open>Leaves below a node\<close>

definition leaves :: "nat \<Rightarrow> nat \<Rightarrow> nat \<Rightarrow> nat set" where
  "leaves N d x = {i. i < 2 ^ N \<and> bitreverse i d = x}"

lemma finite_leaves [simp]: "finite (leaves N d x)"
  by (simp add: leaves_def)

lemma leaves_root: "leaves N 0 0 = {..< 2 ^ N}"
  by (auto simp: leaves_def)

lemma leaves_bottom: "j < 2 ^ N \<Longrightarrow> leaves N N (bitreverse j N) = {j}"
  by (auto simp: leaves_def bitreverse_eq_iff)

lemma leaves_split:
  "leaves N d (bitreverse j d) =
   leaves N (Suc d) (bitreverse j (Suc d)) \<union> leaves N (Suc d) (bitreverse j (Suc d) XOR 1)"
  "leaves N (Suc d) (bitreverse j (Suc d)) \<inter> leaves N (Suc d) (bitreverse j (Suc d) XOR 1) = {}"
proof -
  have m: "bitreverse i (Suc d) = bitreverse j (Suc d) \<longleftrightarrow>
      bitreverse i d = bitreverse j d \<and> (i div 2 ^ d) mod 2 = (j div 2 ^ d) mod 2" for i
    unfolding bitreverse_Suc by (rule digit_eq) simp_all
  show "leaves N d (bitreverse j d) =
    leaves N (Suc d) (bitreverse j (Suc d)) \<union> leaves N (Suc d) (bitreverse j (Suc d) XOR 1)"
    unfolding leaves_def m bitreverse_sibling by blast
  show "leaves N (Suc d) (bitreverse j (Suc d)) \<inter> leaves N (Suc d) (bitreverse j (Suc d) XOR 1) = {}"
    unfolding leaves_def m bitreverse_sibling by blast
qed

lemma sum_leaves_path:
  fixes f :: "nat \<Rightarrow> 'g::ab_group_add"
  shows "(\<Sum>i\<in>leaves N 0 0. f i) = (\<Sum>i\<in>leaves N d (bitreverse j d). f i) +
    (\<Sum>k<d. \<Sum>i\<in>leaves N (Suc k) (bitreverse j (Suc k) XOR 1). f i)"
proof (induction d)
  case (Suc d)
  have "(\<Sum>i\<in>leaves N d (bitreverse j d). f i) =
      (\<Sum>i\<in>leaves N (Suc d) (bitreverse j (Suc d)). f i) +
      (\<Sum>i\<in>leaves N (Suc d) (bitreverse j (Suc d) XOR 1). f i)"
    using leaves_split [of N d j] by (simp add: sum.union_disjoint)
  then show ?case using Suc by (simp add: algebra_simps)
qed simp

text \<open>The leaves are the leaf itself and the leaves below the siblings of its path.\<close>

lemma sum_all_leaves:
  fixes f :: "nat \<Rightarrow> 'g::ab_group_add"
  assumes "j < 2 ^ N"
  shows "(\<Sum>i<2 ^ N. f i) = f j + (\<Sum>k<N. \<Sum>i\<in>leaves N (Suc k) (bitreverse j (Suc k) XOR 1). f i)"
  using sum_leaves_path [of f N N j] assms by (simp add: leaves_root leaves_bottom)

section \<open>The invariant\<close>

definition fr_nat :: "('n, 'd, 'g) AMTConfig \<Rightarrow> 'd \<Rightarrow> nat" where
  "fr_nat C x = (case as_fr_int C x of Inr v \<Rightarrow> unat v | Inl _ \<Rightarrow> 0)"

definition commitment_of :: "nat \<Rightarrow> ('g::ab_group_add, 'h) AMTParams \<Rightarrow> (nat \<Rightarrow> nat) \<Rightarrow> 'g" where
  "commitment_of N pp f = (\<Sum>i<2 ^ N. smul (f i) (commitments pp ! i))"

definition node_of :: "nat \<Rightarrow> ('g::ab_group_add, 'h) AMTParams \<Rightarrow> (nat \<Rightarrow> nat) \<Rightarrow> NodeIndex \<Rightarrow> 'g AMTNode" where
  "node_of N pp f n = \<lparr>commitment = (\<Sum>i\<in>leaves N (ni_depth n) (ni_index n). smul (f i) (commitments pp ! i)),
     amt_proof = (\<Sum>i\<in>leaves N (ni_depth n) (ni_index n). smul (f i) (quotients pp ! (ni_depth n - 1) ! i))\<rparr>"

definition kept :: "nat \<Rightarrow> NodeIndex option \<Rightarrow> NodeIndex \<Rightarrow> bool" where
  "kept N shard n \<longleftrightarrow> (\<exists>s. shard = Some s \<and> node_ok N n \<and> 0 < ni_depth n \<and> needs_maintain N n s = Inr True)"

text \<open>\<open>f\<close> gives the field value of each leaf.\<close>

definition sums_ok ::
  "'s kvdb_ops \<Rightarrow> ('n, 'd, 'g::ab_group_add) AMTConfig \<Rightarrow> 's world \<Rightarrow> ('g, 'h) AMTParams \<Rightarrow>
   ('n, 'd, 'g) AMTree \<Rightarrow> (nat \<Rightarrow> nat) \<Rightarrow> bool" where
  "sums_ok D C w pp t f \<longleftrightarrow>
     tree_commitment t = Some (commitment_of (DEPTHS C) pp f) \<and>
     cache_ok D (node_ty C) w (inner_nodes t) \<and>
     (\<forall>s. shard_root t = Some s \<longrightarrow> node_ok (DEPTHS C) s) \<and>
     (\<forall>n. kept (DEPTHS C) (shard_root t) n \<longrightarrow>
        acc_view D (node_ty C) w (inner_nodes t) n = Inr (node_of (DEPTHS C) pp f n))"

definition amt_inv ::
  "'s kvdb_ops \<Rightarrow> ('n, 'd, 'g::ab_group_add) AMTConfig \<Rightarrow> 's world \<Rightarrow> ('g, 'h) AMTParams \<Rightarrow>
   ('n, 'd, 'g) AMTree \<Rightarrow> (nat \<Rightarrow> 'd) \<Rightarrow> bool" where
  "amt_inv D C w pp t dat \<longleftrightarrow> params_ok (DEPTHS C) pp \<and>
     cache_ok D (data_ty C) w (tree_data t) \<and>
     (\<forall>i < LENGTH_of C. acc_view D (data_ty C) w (tree_data t) i = Inr (dat i)) \<and>
     sums_ok D C w pp t (\<lambda>i. fr_nat C (dat i))"

lemma kept_new_node:
  assumes "node_ok N s" "0 < d" "d \<le> N" "x < 2 ^ d"
  shows "\<exists>b. needs_maintain N \<lparr>ni_depth = d, ni_index = x\<rparr> s = Inr b"
  using assms to_sibling_ok [of N "\<lparr>ni_depth = d, ni_index = x\<rparr>"]
  by (auto simp: needs_maintain_def node_ok_def)

section \<open>update\<close>

definition bump ::
  "('g::ab_group_add, 'h) AMTParams \<Rightarrow> nat \<Rightarrow> FrInt \<Rightarrow> NodeIndex \<Rightarrow> 'g AMTNode \<Rightarrow> 'g AMTNode" where
  "bump pp index fr n v = \<lparr>commitment = commitment v + smul (unat fr) (commitments pp ! index),
     amt_proof = amt_proof v + smul (unat fr) (quotients pp ! (ni_depth n - 1) ! index)\<rparr>"

definition on_path :: "nat \<Rightarrow> nat \<Rightarrow> nat set \<Rightarrow> NodeIndex \<Rightarrow> bool" where
  "on_path N index hs n \<longleftrightarrow> (\<exists>h\<in>hs. n = \<lparr>ni_depth = N - h, ni_index = bitreverse index (N - h)\<rparr>)"

lemma update_node_ok:
  fixes t :: "('n, 'd, 'g::ab_group_add) AMTree" and pp :: "('g, 'h) AMTParams"
  assumes pp: "params_ok (DEPTHS C) pp" and i: "index < 2 ^ DEPTHS C" and h: "h < DEPTHS C"
    and s: "node_ok (DEPTHS C) s" and sh: "shard_root t = Some s"
    and ok: "cache_ok D (node_ty C) w (inner_nodes t)"
    and views: "\<And>n. kept (DEPTHS C) (Some s) n \<Longrightarrow> \<exists>v. acc_view D (node_ty C) w (inner_nodes t) n = Inr v"
  shows "\<exists>a pp'. update_node D C w index fr (smul (unat fr) (commitments pp ! index)) s
      \<lparr>ni_depth = DEPTHS C, ni_index = bitreverse index (DEPTHS C)\<rparr> h (t, pp) = Inr (t\<lparr>inner_nodes := a\<rparr>, pp') \<and>
    params_ok (DEPTHS C) pp' \<and> same_tables pp pp' \<and> cache_ok D (node_ty C) w a \<and>
    (\<forall>n. acc_view D (node_ty C) w a n =
       (if kept (DEPTHS C) (Some s) n \<and> on_path (DEPTHS C) index {h} n
        then map_sum id (bump pp index fr n) (acc_view D (node_ty C) w (inner_nodes t) n)
        else acc_view D (node_ty C) w (inner_nodes t) n))"
proof -
  let ?N = "DEPTHS C"
  let ?d = "?N - h"
  let ?v = "\<lparr>ni_depth = ?d, ni_index = bitreverse index ?d\<rparr>"
  let ?inc = "smul (unat fr) (commitments pp ! index)"
  have anc: "to_ancestor ?N \<lparr>ni_depth = ?N, ni_index = bitreverse index ?N\<rparr> h = Inr ?v"
    using h bitreverse_ancestor [of ?d ?N index]
    by (subst to_ancestor_ok) (simp_all add: node_ok_def bitreverse_bound)
  have vok: "node_ok ?N ?v" "0 < ni_depth ?v" using h by (simp_all add: node_ok_def bitreverse_bound)
  obtain b where b: "needs_maintain ?N ?v s = Inr b"
    using kept_new_node [OF s, of ?d "bitreverse index ?d"] h by (auto simp: bitreverse_bound)
  show ?thesis
  proof (cases b)
    case False
    then have "\<not> kept ?N (Some s) ?v" using b by (simp add: kept_def)
    then have "kept ?N (Some s) n \<and> on_path ?N index {h} n \<longleftrightarrow> False" for n by (auto simp: on_path_def)
    moreover have "update_node D C w index fr ?inc s \<lparr>ni_depth = ?N, ni_index = bitreverse index ?N\<rparr> h (t, pp)
        = Inr (t\<lparr>inner_nodes := inner_nodes t\<rparr>, pp)"
      using b False by (simp add: update_node_def anc)
    ultimately show ?thesis using pp ok by (intro exI [of _ "inner_nodes t"] exI [of _ pp]) (simp only: if_False, simp)
  next
    case True
    then have k: "kept ?N (Some s) ?v" using b vok by (simp add: kept_def)
    then obtain v where v: "acc_view D (node_ty C) w (inner_nodes t) ?v = Inr v" using views by blast
    from pp i obtain pp' where pp': "get_quotient_pow pp ?d index fr =
        Inr (smul (unat fr) (quotients pp ! (?d - 1) ! index), pp')" "params_ok ?N pp'" "same_tables pp pp'"
      by (rule get_quotient_pow_ok [where d = ?d]) (use h in auto)
    let ?f = "\<lambda>node. node\<lparr>commitment := commitment node + ?inc,
        amt_proof := amt_proof node + smul (unat fr) (quotients pp ! (?d - 1) ! index)\<rparr>"
    from ok v obtain a where a: "DBAccess_get_mut D (node_ty C) w (inner_nodes t) ?v ?f = Inr a"
      "cache_ok D (node_ty C) w a"
      "acc_view D (node_ty C) w a = (acc_view D (node_ty C) w (inner_nodes t))(?v := Inr (?f v))"
      by (rule DBAccess_get_mut_is_set)
    have fv: "?f v = bump pp index fr ?v v" by (simp add: bump_def)
    have "acc_view D (node_ty C) w a n =
       (if kept ?N (Some s) n \<and> on_path ?N index {h} n
        then map_sum id (bump pp index fr n) (acc_view D (node_ty C) w (inner_nodes t) n)
        else acc_view D (node_ty C) w (inner_nodes t) n)" for n
    proof (cases "n = ?v")
      case True
      then show ?thesis using k v by (simp only: a(3) fv fun_upd_same on_path_def) simp
    next
      case False
      then show ?thesis by (simp add: a(3) on_path_def)
    qed
    moreover have "update_node D C w index fr ?inc s \<lparr>ni_depth = ?N, ni_index = bitreverse index ?N\<rparr> h (t, pp)
        = Inr (t\<lparr>inner_nodes := a\<rparr>, pp')"
      using b True a(1) pp'(1) by (simp add: update_node_def anc)
    ultimately show ?thesis using pp' a(2) by blast
  qed
qed

lemma bump_cong: "same_tables pp pp' \<Longrightarrow> bump pp' = bump pp"
  by (simp add: fun_eq_iff bump_def same_tables_def)

lemma update_fold_ok:
  fixes t :: "('n, 'd, 'g::ab_group_add) AMTree" and pp :: "('g, 'h) AMTParams"
  assumes pp: "params_ok (DEPTHS C) pp" and i: "index < 2 ^ DEPTHS C"
    and hs: "distinct hs" "set hs \<subseteq> {..<DEPTHS C}"
    and s: "node_ok (DEPTHS C) s" and sh: "shard_root t = Some s"
    and ok: "cache_ok D (node_ty C) w (inner_nodes t)"
    and views: "\<And>n. kept (DEPTHS C) (Some s) n \<Longrightarrow> \<exists>v. acc_view D (node_ty C) w (inner_nodes t) n = Inr v"
  shows "\<exists>a pp'. fold_res (update_node D C w index fr (smul (unat fr) (commitments pp ! index)) s
      \<lparr>ni_depth = DEPTHS C, ni_index = bitreverse index (DEPTHS C)\<rparr>) hs (t, pp) = Inr (t\<lparr>inner_nodes := a\<rparr>, pp') \<and>
    params_ok (DEPTHS C) pp' \<and> same_tables pp pp' \<and> cache_ok D (node_ty C) w a \<and>
    (\<forall>n. acc_view D (node_ty C) w a n =
       (if kept (DEPTHS C) (Some s) n \<and> on_path (DEPTHS C) index (set hs) n
        then map_sum id (bump pp index fr n) (acc_view D (node_ty C) w (inner_nodes t) n)
        else acc_view D (node_ty C) w (inner_nodes t) n))"
  using pp hs sh ok views
proof (induction hs arbitrary: t pp)
  case Nil
  then show ?case by (intro exI [of _ "inner_nodes t"] exI [of _ pp]) (simp add: on_path_def)
next
  case (Cons h hs)
  let ?N = "DEPTHS C"
  have h: "h < ?N" using Cons.prems(3) by simp
  from update_node_ok [OF Cons.prems(1) i h s Cons.prems(4-6), of fr]
  obtain a1 pp1 where 1: "update_node D C w index fr (smul (unat fr) (commitments pp ! index)) s
      \<lparr>ni_depth = ?N, ni_index = bitreverse index ?N\<rparr> h (t, pp) = Inr (t\<lparr>inner_nodes := a1\<rparr>, pp1)"
    "params_ok ?N pp1" "same_tables pp pp1" "cache_ok D (node_ty C) w a1"
    and v1: "\<And>n. acc_view D (node_ty C) w a1 n =
       (if kept ?N (Some s) n \<and> on_path ?N index {h} n
        then map_sum id (bump pp index fr n) (acc_view D (node_ty C) w (inner_nodes t) n)
        else acc_view D (node_ty C) w (inner_nodes t) n)" by blast
  have "\<exists>v. acc_view D (node_ty C) w (inner_nodes (t\<lparr>inner_nodes := a1\<rparr>)) n = Inr v" if "kept ?N (Some s) n" for n
    using Cons.prems(6) [OF that] by (auto simp: v1)
  with Cons.IH [OF 1(2), of "t\<lparr>inner_nodes := a1\<rparr>"] Cons.prems 1(4)
  obtain a2 pp2 where 2: "fold_res (update_node D C w index fr (smul (unat fr) (commitments pp1 ! index)) s
      \<lparr>ni_depth = ?N, ni_index = bitreverse index ?N\<rparr>) hs (t\<lparr>inner_nodes := a1\<rparr>, pp1) = Inr (t\<lparr>inner_nodes := a2\<rparr>, pp2)"
    "params_ok ?N pp2" "same_tables pp1 pp2" "cache_ok D (node_ty C) w a2"
    and v2: "\<And>n. acc_view D (node_ty C) w a2 n =
       (if kept ?N (Some s) n \<and> on_path ?N index (set hs) n
        then map_sum id (bump pp1 index fr n) (acc_view D (node_ty C) w a1 n)
        else acc_view D (node_ty C) w a1 n)" by auto
  have c: "commitments pp1 = commitments pp" using 1(3) by (simp add: same_tables_def)
  have excl: "on_path ?N index {h} n \<Longrightarrow> \<not> on_path ?N index (set hs) n" for n
  proof
    assume "on_path ?N index {h} n" "on_path ?N index (set hs) n"
    then obtain h' where h': "h' \<in> set hs" "?N - h = ?N - h'" by (auto simp: on_path_def)
    then have "h' < ?N" using Cons.prems(3) by auto
    then have "h' = h" using h h'(2) by simp
    then show False using h'(1) Cons.prems(2) by simp
  qed
  have split: "on_path ?N index (set (h # hs)) n \<longleftrightarrow> on_path ?N index {h} n \<or> on_path ?N index (set hs) n" for n
    by (auto simp: on_path_def)
  have "acc_view D (node_ty C) w a2 n =
       (if kept ?N (Some s) n \<and> on_path ?N index (set (h # hs)) n
        then map_sum id (bump pp index fr n) (acc_view D (node_ty C) w (inner_nodes t) n)
        else acc_view D (node_ty C) w (inner_nodes t) n)" for n
    unfolding split v2 v1 bump_cong [OF 1(3)] using excl [of n] by auto
  moreover have "fold_res (update_node D C w index fr (smul (unat fr) (commitments pp ! index)) s
      \<lparr>ni_depth = ?N, ni_index = bitreverse index ?N\<rparr>) (h # hs) (t, pp) = Inr (t\<lparr>inner_nodes := a2\<rparr>, pp2)"
    using 1(1) 2(1) by (simp add: c)
  ultimately show ?case using 2(2,4) same_tables_trans [OF 1(3) 2(3)] by blast
qed

lemma sum_smul_update:
  fixes g :: "nat \<Rightarrow> 'g::ab_group_add"
  assumes "finite A"
  shows "(\<Sum>i\<in>A. smul ((f(j := f j + u)) i) (g i)) =
    (\<Sum>i\<in>A. smul (f i) (g i)) + (if j \<in> A then smul u (g j) else 0)"
proof (cases "j \<in> A")
  case True
  have "(\<Sum>i\<in>A. smul ((f(j := f j + u)) i) (g i)) = (\<Sum>i\<in>A. smul (f i) (g i) + (if i = j then smul u (g j) else 0))"
    by (rule sum.cong) (auto simp: smul_add)
  then show ?thesis using True assms by (simp add: sum.distrib)
qed (auto intro: sum.cong)

lemma node_of_update:
  assumes "j < 2 ^ N"
  shows "node_of N pp (f(j := f j + unat u)) n =
    (if bitreverse j (ni_depth n) = ni_index n then bump pp j u n (node_of N pp f n) else node_of N pp f n)"
  using assms unfolding node_of_def bump_def
  by (simp only: sum_smul_update finite_leaves) (simp add: leaves_def)

lemma commitment_of_update:
  "j < 2 ^ N \<Longrightarrow> commitment_of N pp (f(j := f j + u)) = commitment_of N pp f + smul u (commitments pp ! j)"
  unfolding commitment_of_def by (simp only: sum_smul_update finite_lessThan) simp

lemma on_path_all:
  assumes "kept N sh n"
  shows "on_path N index (set [0..<N]) n \<longleftrightarrow> bitreverse index (ni_depth n) = ni_index n"
proof
  assume b: "bitreverse index (ni_depth n) = ni_index n"
  have "N - ni_depth n \<in> set [0..<N]" "N - (N - ni_depth n) = ni_depth n"
    using assms by (auto simp: kept_def node_ok_def)
  then show "on_path N index (set [0..<N]) n"
    unfolding on_path_def by (intro bexI [of _ "N - ni_depth n"]) (cases n, use b in simp_all)
qed (auto simp: on_path_def)

lemma sums_ok_tables:
  assumes "same_tables pp pp'"
  shows "sums_ok D C w pp' t f = sums_ok D C w pp t f"
  using assms by (simp add: sums_ok_def commitment_of_def node_of_def same_tables_def)

lemma update_ok:
  fixes t :: "('n, 'd, 'g::ab_group_add) AMTree" and pp :: "('g, 'h) AMTParams"
  assumes pp: "params_ok (DEPTHS C) pp" and i: "index < 2 ^ DEPTHS C"
    and ok: "sums_ok D C w pp t f"
  shows "\<exists>t' pp'. AMTree_update D C w pp t index fr = Inr (t', pp') \<and> params_ok (DEPTHS C) pp' \<and>
    same_tables pp pp' \<and> sums_ok D C w pp' t' (f(index := f index + unat fr)) \<and>
    tree_data t' = tree_data t \<and> subtree_roots t' = subtree_roots t \<and> shard_root t' = shard_root t \<and>
    tree_name t' = tree_name t"
proof (cases "fr = 0")
  case True
  then show ?thesis using assms by (auto simp: AMTree_update_def LENGTH_of_def)
next
  case False
  let ?N = "DEPTHS C"
  let ?inc = "smul (unat fr) (commitments pp ! index)"
  let ?f = "f(index := f index + unat fr)"
  from pp i obtain pp1 where pp1: "get_idents_pow pp index fr = Inr (?inc, pp1)" "params_ok ?N pp1" "same_tables pp pp1"
    by (rule get_idents_pow_ok)
  have c: "commitments pp1 = commitments pp" using pp1(3) by (simp add: same_tables_def)
  define t1 where "t1 = t\<lparr>tree_dirty := True, tree_commitment := Some (commitment_of ?N pp ?f)\<rparr>"
  have tc: "tree_commitment t = Some (commitment_of ?N pp f)" using ok by (simp add: sums_ok_def)
  have comm: "commitment_of ?N pp f + ?inc = commitment_of ?N pp ?f" by (simp add: commitment_of_update [OF i])
  show ?thesis
  proof (cases "shard_root t")
    case None
    have "AMTree_update D C w pp t index fr = Inr (t1, pp1)"
      using i False pp1(1) tc None comm by (simp add: AMTree_update_def LENGTH_of_def t1_def)
    moreover have "sums_ok D C w pp1 t1 ?f"
      unfolding sums_ok_tables [OF pp1(3)] using ok None by (simp add: sums_ok_def t1_def kept_def)
    ultimately show ?thesis using pp1 by (auto simp: t1_def)
  next
    case (Some s)
    have t1: "shard_root t1 = Some s" "inner_nodes t1 = inner_nodes t" using Some by (simp_all add: t1_def)
    have sn: "node_ok ?N s" and co: "cache_ok D (node_ty C) w (inner_nodes t1)"
      and vw: "\<And>n. kept ?N (Some s) n \<Longrightarrow> acc_view D (node_ty C) w (inner_nodes t1) n = Inr (node_of ?N pp f n)"
      using ok Some t1 by (auto simp: sums_ok_def)
    obtain a pp2 where 2: "fold_res (update_node D C w index fr (smul (unat fr) (commitments pp1 ! index)) s
        \<lparr>ni_depth = ?N, ni_index = bitreverse index ?N\<rparr>) [0..<?N] (t1, pp1) = Inr (t1\<lparr>inner_nodes := a\<rparr>, pp2)"
      "params_ok ?N pp2" "same_tables pp1 pp2" "cache_ok D (node_ty C) w a"
      and v2: "\<And>n. acc_view D (node_ty C) w a n =
         (if kept ?N (Some s) n \<and> on_path ?N index (set [0..<?N]) n
          then map_sum id (bump pp1 index fr n) (acc_view D (node_ty C) w (inner_nodes t1) n)
          else acc_view D (node_ty C) w (inner_nodes t1) n)"
    proof -
      have sub: "set [0..<?N] \<subseteq> {..<?N}" by auto
      have vw': "\<And>n. kept ?N (Some s) n \<Longrightarrow> \<exists>v. acc_view D (node_ty C) w (inner_nodes t1) n = Inr v"
        using vw by blast
      show thesis
        using update_fold_ok [OF pp1(2) i distinct_upt sub sn t1(1) co vw', of fr] that by blast
    qed
    have "AMTree_update D C w pp t index fr = Inr (t1\<lparr>inner_nodes := a\<rparr>, pp2)"
      using i False pp1(1) tc Some comm 2(1) by (simp add: AMTree_update_def LENGTH_of_def t1_def c bitreverse_bound)
    moreover have "acc_view D (node_ty C) w a n = Inr (node_of ?N pp ?f n)" if "kept ?N (Some s) n" for n
      using that by (simp add: v2 vw on_path_all [OF that] node_of_update [OF i] bump_cong [OF pp1(3)] del: set_upt)
    then have "sums_ok D C w pp2 (t1\<lparr>inner_nodes := a\<rparr>) ?f"
      unfolding sums_ok_tables [OF same_tables_trans [OF pp1(3) 2(3)]]
      using 2(4) sn Some by (simp add: sums_ok_def t1_def)
    ultimately show ?thesis using 2(2) same_tables_trans [OF pp1(3) 2(3)]
      by (intro exI [of _ "t1\<lparr>inner_nodes := a\<rparr>"] exI [of _ pp2]) (simp add: t1_def)
  qed
qed

section \<open>The write guard\<close>

text \<open>What the guard adds to the leaf: the difference when the new value is not
  smaller.  When it is smaller, the subtraction borrows and the guard adds the
  constant \<open>fr_R\<close>, so the leaf counts for the new value plus that constant, and
  for \<open>2 ^ 256\<close> more when the addition does not carry the borrow back.\<close>

definition guard_difference :: "('n, 'd, 'g) AMTConfig \<Rightarrow> FrInt \<Rightarrow> FrInt \<Rightarrow> FrInt" where
  "guard_difference C old new = (if new < old then new - old + fr_R C else new - old)"

lemma guard_difference_grows: "old \<le> new \<Longrightarrow> unat old + unat (guard_difference C old new) = unat new"
  by (simp add: guard_difference_def unat_sub word_le_nat_alt word_less_nat_alt not_less)

definition borrow_excess :: "('n, 'd, 'g) AMTConfig \<Rightarrow> FrInt \<Rightarrow> FrInt \<Rightarrow> nat" where
  "borrow_excess C old new = unat (fr_R C) + (if unat old - unat new \<le> unat (fr_R C) then 0 else 2 ^ 256)"

lemma guard_difference_shrinks:
  assumes "new < old"
  shows "unat old + unat (guard_difference C old new) = unat new + borrow_excess C old new"
proof -
  let ?r = "unat (fr_R C)"
  have lt: "unat new < unat old" "unat old < 2 ^ 256" "?r < 2 ^ 256"
    using assms unat_bound [of old] unat_bound [of "fr_R C"] by (simp_all add: word_less_nat_alt)
  have n: "unat new + 2 ^ 256 - unat old < 2 ^ 256" using lt by simp
  have "word_of_nat (unat new + 2 ^ 256 - unat old) = (new - old :: FrInt)"
    using lt by (simp add: of_nat_diff)
  moreover have "unat (word_of_nat (unat new + 2 ^ 256 - unat old) :: FrInt) = unat new + 2 ^ 256 - unat old"
    using n by (simp only: unat_of_nat) simp
  ultimately have d: "unat (new - old) = unat new + 2 ^ 256 - unat old" by simp
  have "unat (new - old + fr_R C) = (unat new + 2 ^ 256 - unat old + ?r) mod 2 ^ 256"
    by (simp add: unat_word_ariths d)
  also have "\<dots> = (if unat old - unat new \<le> ?r then unat new + ?r - unat old else unat new + 2 ^ 256 - unat old + ?r)"
  proof (cases "unat old - unat new \<le> ?r")
    case True
    then have e: "unat new + 2 ^ 256 - unat old + ?r = (unat new + ?r - unat old) + 2 ^ 256" using lt by simp
    have b: "unat new + ?r - unat old < 2 ^ 256" using lt by simp
    show ?thesis unfolding e mod_add_self2 mod_less [OF b] using True by (simp only: if_True)
  next
    case False
    then have "unat new + 2 ^ 256 - unat old + ?r < 2 ^ 256" using lt by simp
    then show ?thesis using False by simp
  qed
  finally show ?thesis using lt assms by (auto simp: guard_difference_def borrow_excess_def)
qed

text \<open>The whole scope of a write: the guard takes the value out, the caller edits
  it, and the drop puts it back and updates the sums by the difference.\<close>

lemma write_scope:
  fixes t :: "('n, 'd, 'g::ab_group_add) AMTree" and pp :: "('g, 'h) AMTParams"
  assumes inv: "amt_inv D C w pp t dat" and i: "index < LENGTH_of C"
    and old: "as_fr_int C (dat index) = Inr old" and new: "as_fr_int C x = Inr new"
  shows "\<exists>g t1 t2 pp2. write_versions D C w t index = Inr (g, t1) \<and> guard_value g = dat index \<and>
    guard_index g = index \<and>
    guard_drop D C w pp t1 (g\<lparr>guard_value := x\<rparr>) = Inr (t2, pp2) \<and>
    params_ok (DEPTHS C) pp2 \<and> cache_ok D (data_ty C) w (tree_data t2) \<and>
    (\<forall>i < LENGTH_of C. acc_view D (data_ty C) w (tree_data t2) i = Inr ((dat(index := x)) i)) \<and>
    sums_ok D C w pp2 t2 ((\<lambda>i. fr_nat C (dat i))(index := unat old + unat (guard_difference C old new))) \<and>
    same_tables pp pp2 \<and> subtree_roots t2 = subtree_roots t \<and> shard_root t2 = shard_root t \<and> tree_name t2 = tree_name t"
proof -
  have pp: "params_ok (DEPTHS C) pp" and co: "cache_ok D (data_ty C) w (tree_data t)"
    and vw: "\<And>i. i < LENGTH_of C \<Longrightarrow> acc_view D (data_ty C) w (tree_data t) i = Inr (dat i)"
    and so: "sums_ok D C w pp t (\<lambda>i. fr_nat C (dat i))" using inv by (auto simp: amt_inv_def)
  from co vw [OF i] obtain a where a: "DBAccess_get D (data_ty C) w (tree_data t) index = Inr (dat index, a)"
    "cache_ok D (data_ty C) w a" "acc_view D (data_ty C) w a = acc_view D (data_ty C) w (tree_data t)"
    by (rule DBAccess_get_view)
  have "acc_view D (data_ty C) w a index = Inr (dat index)" using a(3) vw [OF i] by simp
  from a(2) this obtain a1 where a1: "DBAccess_get_mut D (data_ty C) w a index (\<lambda>_. v_default (data_ty C)) = Inr a1"
    "cache_ok D (data_ty C) w a1"
    "acc_view D (data_ty C) w a1 = (acc_view D (data_ty C) w a)(index := Inr (v_default (data_ty C)))"
    by (rule DBAccess_get_mut_is_set)
  define t1 where "t1 = t\<lparr>tree_data := a1\<rparr>"
  define g where "g = \<lparr>guard_index = index, guard_value = dat index, guard_old = old\<rparr>"
  have wv: "write_versions D C w t index = Inr (g, t1)"
    using a(1) a1(1) old by (simp add: write_versions_def g_def t1_def)
  have "acc_view D (data_ty C) w a1 index = Inr (v_default (data_ty C))" using a1(3) by simp
  from a1(2) this obtain a2 where a2: "DBAccess_get_mut D (data_ty C) w a1 index (\<lambda>_. x) = Inr a2"
    "cache_ok D (data_ty C) w a2" "acc_view D (data_ty C) w a2 = (acc_view D (data_ty C) w a1)(index := Inr x)"
    by (rule DBAccess_get_mut_is_set)
  define fr where "fr = guard_difference C old new"
  have "sums_ok D C w pp (t\<lparr>tree_data := a2\<rparr>) (\<lambda>i. fr_nat C (dat i))" using so by (simp add: sums_ok_def)
  from update_ok [OF pp _ this, of index fr] i obtain t2 pp2 where
    u: "AMTree_update D C w pp (t\<lparr>tree_data := a2\<rparr>) index fr = Inr (t2, pp2)" "params_ok (DEPTHS C) pp2"
      "same_tables pp pp2"
      "sums_ok D C w pp2 t2 ((\<lambda>i. fr_nat C (dat i))(index := fr_nat C (dat index) + unat fr))"
      "tree_data t2 = a2" "subtree_roots t2 = subtree_roots t" "shard_root t2 = shard_root t"
      "tree_name t2 = tree_name t"
    by (auto simp: LENGTH_of_def)
  have gd: "guard_drop D C w pp t1 (g\<lparr>guard_value := x\<rparr>) = Inr (t2, pp2)"
    using new i a2(1) u(1) by (auto simp: guard_drop_def g_def t1_def AMTree_get_mut_def fr_def guard_difference_def Let_def split: if_splits)
  have "fr_nat C (dat index) + unat fr = unat old + unat (guard_difference C old new)"
    using old by (simp add: fr_nat_def fr_def)
  then have "sums_ok D C w pp2 t2 ((\<lambda>i. fr_nat C (dat i))(index := unat old + unat (guard_difference C old new)))"
    using u(4) by simp
  moreover have "\<forall>i < LENGTH_of C. acc_view D (data_ty C) w (tree_data t2) i = Inr ((dat(index := x)) i)"
    using u(5) a2(3) a1(3) a(3) vw by simp
  ultimately show ?thesis using wv gd u a2(2) by (auto simp: g_def)
qed

lemma write_scope_grows:
  fixes t :: "('n, 'd, 'g::ab_group_add) AMTree" and pp :: "('g, 'h) AMTParams"
  assumes "amt_inv D C w pp t dat" and "index < LENGTH_of C"
    and "as_fr_int C (dat index) = Inr old" and "as_fr_int C x = Inr new" and "old \<le> new"
  shows "\<exists>g t1 t2 pp2. write_versions D C w t index = Inr (g, t1) \<and> guard_value g = dat index \<and>
    guard_drop D C w pp t1 (g\<lparr>guard_value := x\<rparr>) = Inr (t2, pp2) \<and> amt_inv D C w pp2 t2 (dat(index := x)) \<and>
    same_tables pp pp2"
proof -
  have "(\<lambda>i. fr_nat C (dat i))(index := unat new) = (\<lambda>i. fr_nat C ((dat(index := x)) i))"
    using assms(4) by (auto simp: fr_nat_def)
  moreover from write_scope [OF assms(1-4)] obtain g t1 t2 pp2 where
    "write_versions D C w t index = Inr (g, t1)" "guard_value g = dat index"
    "guard_drop D C w pp t1 (g\<lparr>guard_value := x\<rparr>) = Inr (t2, pp2)" "same_tables pp pp2"
    "params_ok (DEPTHS C) pp2" "cache_ok D (data_ty C) w (tree_data t2)"
    "\<forall>i < LENGTH_of C. acc_view D (data_ty C) w (tree_data t2) i = Inr ((dat(index := x)) i)"
    "sums_ok D C w pp2 t2 ((\<lambda>i. fr_nat C (dat i))(index := unat new))"
    unfolding guard_difference_grows [OF assms(5)] by blast
  ultimately show ?thesis unfolding amt_inv_def by metis
qed

lemma commitment_edit:
  assumes "index < 2 ^ N" "f' index = f index + d" "\<And>i. i \<noteq> index \<Longrightarrow> f' i = f i"
  shows "commitment_of N pp f' = commitment_of N pp f + smul d (commitments pp ! index)"
proof -
  have "commitment_of N pp f' = (\<Sum>i<2 ^ N. smul (f i) (commitments pp ! i) + (if i = index then smul d (commitments pp ! index) else 0))"
    unfolding commitment_of_def by (rule sum.cong) (auto simp: assms(2,3) smul_add)
  also have "\<dots> = commitment_of N pp f + smul d (commitments pp ! index)"
    using assms(1) by (simp add: sum.distrib commitment_of_def)
  finally show ?thesis .
qed

section \<open>prove and verify\<close>

text \<open>The proof of a leaf: the sibling nodes of its path, from the top down.\<close>

definition sibling_node :: "nat \<Rightarrow> nat \<Rightarrow> NodeIndex" where
  "sibling_node index d = \<lparr>ni_depth = d, ni_index = bitreverse index d XOR 1\<rparr>"

definition proof_of :: "nat \<Rightarrow> ('g::ab_group_add, 'h) AMTParams \<Rightarrow> (nat \<Rightarrow> nat) \<Rightarrow> nat \<Rightarrow> 'g AMTProof" where
  "proof_of N pp f index = map (\<lambda>k. node_of N pp f (sibling_node index (Suc k))) [0..<N]"

lemma sibling_node_kept:
  assumes "0 < d" "d \<le> N"
  shows "kept N (Some NodeIndex_root) (sibling_node index d)"
proof -
  obtain k where k: "d = Suc k" using assms by (cases d) auto
  have "bitreverse index d XOR 1 < 2 ^ d" unfolding k by (rule xor_one_less [OF bitreverse_bound])
  then have "node_ok N (sibling_node index d)" using assms by (simp add: node_ok_def sibling_node_def)
  then show ?thesis using assms by (simp add: kept_def needs_maintain_root_shard sibling_node_def)
qed

lemma prove_step_ok:
  assumes ok: "sums_ok D C w pp t f" and root: "shard_root t = Some NodeIndex_root" and d: "0 < d" "d \<le> DEPTHS C"
  shows "\<exists>t'. prove_step D C w \<lparr>ni_depth = DEPTHS C, ni_index = bitreverse index (DEPTHS C)\<rparr> d (ans, t) =
      Inr (ans[d - 1 := node_of (DEPTHS C) pp f (sibling_node index d)], t') \<and>
    sums_ok D C w pp t' f \<and> shard_root t' = Some NodeIndex_root \<and> tree_data t' = tree_data t"
proof -
  let ?N = "DEPTHS C"
  let ?v = "\<lparr>ni_depth = d, ni_index = bitreverse index d\<rparr>"
  let ?n = "node_of ?N pp f (sibling_node index d)"
  have anc: "to_ancestor ?N \<lparr>ni_depth = ?N, ni_index = bitreverse index ?N\<rparr> (?N - d) = Inr ?v"
    using d bitreverse_ancestor [of d ?N index] by (subst to_ancestor_ok) (simp_all add: node_ok_def bitreverse_bound)
  have sib: "to_sibling ?N ?v = Inr (sibling_node index d)"
    using d by (subst to_sibling_ok) (simp_all add: node_ok_def bitreverse_bound sibling_node_def)
  have co: "cache_ok D (node_ty C) w (inner_nodes t)" using ok by (simp add: sums_ok_def)
  have vw: "acc_view D (node_ty C) w (inner_nodes t) (sibling_node index d) = Inr ?n"
    using ok root sibling_node_kept [OF d, of index] by (simp add: sums_ok_def)
  from co vw obtain a where a: "DBAccess_get_mut D (node_ty C) w (inner_nodes t) (sibling_node index d) (\<lambda>n. n) = Inr a"
    "cache_ok D (node_ty C) w a"
    "acc_view D (node_ty C) w a = (acc_view D (node_ty C) w (inner_nodes t))(sibling_node index d := Inr ?n)"
    by (rule DBAccess_get_mut_is_set)
  have same: "acc_view D (node_ty C) w a = acc_view D (node_ty C) w (inner_nodes t)"
    using a(3) vw by (simp add: fun_eq_iff)
  have "acc_view D (node_ty C) w a (sibling_node index d) = Inr ?n" using same vw by simp
  from a(2) this obtain a' where "DBAccess_get D (node_ty C) w a (sibling_node index d) = Inr (?n, a')"
    by (rule DBAccess_get_view)
  then have "prove_step D C w \<lparr>ni_depth = ?N, ni_index = bitreverse index ?N\<rparr> d (ans, t) =
      Inr (ans[d - 1 := ?n], t\<lparr>inner_nodes := a\<rparr>)"
    using a(1) by (simp add: prove_step_def anc sib)
  moreover have "sums_ok D C w pp (t\<lparr>inner_nodes := a\<rparr>) f" using ok a(2) same by (simp add: sums_ok_def)
  ultimately show ?thesis using root by auto
qed

lemma prove_fold_ok:
  assumes ok: "sums_ok D C w pp t f" and root: "shard_root t = Some NodeIndex_root" and d: "d \<le> DEPTHS C"
    and len: "length ans = DEPTHS C"
  shows "\<exists>ans' t'. fold_res (prove_step D C w \<lparr>ni_depth = DEPTHS C, ni_index = bitreverse index (DEPTHS C)\<rparr>)
      (rev [1..<d + 1]) (ans, t) = Inr (ans', t') \<and> length ans' = DEPTHS C \<and>
    (\<forall>k < DEPTHS C. ans' ! k = (if k < d then node_of (DEPTHS C) pp f (sibling_node index (Suc k)) else ans ! k)) \<and>
    sums_ok D C w pp t' f \<and> shard_root t' = Some NodeIndex_root \<and> tree_data t' = tree_data t"
  using ok root d len
proof (induction d arbitrary: t ans)
  case (Suc d)
  from prove_step_ok [OF Suc.prems(1,2), of "Suc d" index ans] Suc.prems(3)
  obtain t1 where t1: "prove_step D C w \<lparr>ni_depth = DEPTHS C, ni_index = bitreverse index (DEPTHS C)\<rparr> (Suc d) (ans, t) =
      Inr (ans[d := node_of (DEPTHS C) pp f (sibling_node index (Suc d))], t1)"
    "sums_ok D C w pp t1 f" "shard_root t1 = Some NodeIndex_root" "tree_data t1 = tree_data t" by auto
  let ?ans = "ans[d := node_of (DEPTHS C) pp f (sibling_node index (Suc d))]"
  from Suc.IH [OF t1(2,3), of ?ans] Suc.prems
  obtain ans' t' where "fold_res (prove_step D C w \<lparr>ni_depth = DEPTHS C, ni_index = bitreverse index (DEPTHS C)\<rparr>)
      (rev [1..<d + 1]) (?ans, t1) = Inr (ans', t')" "length ans' = DEPTHS C"
    "\<forall>k < DEPTHS C. ans' ! k = (if k < d then node_of (DEPTHS C) pp f (sibling_node index (Suc k)) else ?ans ! k)"
    "sums_ok D C w pp t' f" "shard_root t' = Some NodeIndex_root" "tree_data t' = tree_data t" using t1(4) by auto
  then show ?case using t1(1) Suc.prems(4)
    by (intro exI [of _ ans'] exI [of _ t']) (auto simp: nth_list_update less_Suc_eq)
qed auto

lemma AMTree_prove_ok:
  assumes "sums_ok D C w pp t f" "shard_root t = Some NodeIndex_root"
  shows "\<exists>t'. AMTree_prove D C w t index = Inr (Some (proof_of (DEPTHS C) pp f index), t') \<and>
    sums_ok D C w pp t' f \<and> shard_root t' = Some NodeIndex_root \<and> tree_data t' = tree_data t"
proof -
  from prove_fold_ok [OF assms order_refl, of "replicate (DEPTHS C) \<lparr>commitment = 0, amt_proof = 0\<rparr>" index]
  obtain ans t' where a: "fold_res (prove_step D C w \<lparr>ni_depth = DEPTHS C, ni_index = bitreverse index (DEPTHS C)\<rparr>)
      (rev [1..<DEPTHS C + 1]) (replicate (DEPTHS C) \<lparr>commitment = 0, amt_proof = 0\<rparr>, t) = Inr (ans, t')"
    "length ans = DEPTHS C" "\<forall>k < DEPTHS C. ans ! k = node_of (DEPTHS C) pp f (sibling_node index (Suc k))"
    "sums_ok D C w pp t' f" "shard_root t' = Some NodeIndex_root" "tree_data t' = tree_data t" by auto
  have "ans = proof_of (DEPTHS C) pp f index"
    using a(2,3) by (intro nth_equalityI) (auto simp: proof_of_def)
  then show ?thesis using a(1,4-6) assms(2)
    by (auto simp: AMTree_prove_def can_prove_def bitreverse_bound)
qed

lemma and_low_mask: "(j :: nat) AND (2 ^ Suc k - 1) = take_bit (Suc k) j"
  by (simp add: take_bit_eq_mask mask_eq_exp_minus_1)

lemma sibling_low_bits:
  assumes "bitreverse i (Suc k) = bitreverse j (Suc k) XOR 1"
  shows "(j AND (2 ^ Suc k - 1)) XOR 2 ^ k = i mod 2 ^ Suc k"
proof -
  have e: "i mod 2 ^ k = j mod 2 ^ k" and d: "(i div 2 ^ k) mod 2 \<noteq> (j div 2 ^ k) mod 2"
    using assms unfolding bitreverse_sibling bitreverse_eq_iff by auto
  have low: "bit i m = bit j m" if "m < k" for m
    using e that by (metis bit_take_bit_iff take_bit_eq_mod)
  have top': "bit i k \<noteq> bit j k"
    using d by (auto simp: bit_iff_odd even_iff_mod_2_eq_zero)
  show ?thesis
    unfolding and_low_mask take_bit_eq_mod [symmetric] using low top'
    by (intro bit_eqI) (auto simp: bit_xor_iff bit_take_bit_iff bit_exp_iff less_Suc_eq)
qed

text \<open>What the public parameters promise: the verification key of the residue of
  a leaf at each depth pairs with its quotient as its commitment pairs with the
  generator.\<close>

definition tables_pair ::
  "nat \<Rightarrow> ('g \<Rightarrow> 'h \<Rightarrow> 'gt) \<Rightarrow> ('g, 'h) AMTParams \<Rightarrow> bool" where
  "tables_pair N pairing pp \<longleftrightarrow> length (verification pp) = N \<and>
     (\<forall>d < N. length (verification pp ! d) = 2 ^ Suc d) \<and>
     (\<forall>d < N. \<forall>i < 2 ^ N. pairing (commitments pp ! i) (pp_g2 pp) =
        pairing (quotients pp ! d ! i) (verification pp ! d ! (i mod 2 ^ Suc d)))"

locale pairing_group =
  fixes pairing :: "'g::ab_group_add \<Rightarrow> 'h \<Rightarrow> 'gt::ab_group_add"
  assumes pairing_add: "pairing (a + b) h = pairing a h + pairing b h"
begin

lemma pairing_zero: "pairing 0 h = 0"
  using pairing_add [of 0 0 h] by simp

lemma pairing_smul: "pairing (smul n a) h = smul n (pairing a h)"
  by (induction n) (simp_all add: pairing_zero pairing_add)

lemma pairing_sum: "finite A \<Longrightarrow> pairing (\<Sum>i\<in>A. f i) h = (\<Sum>i\<in>A. pairing (f i) h)"
  by (induction A rule: finite_induct) (simp_all add: pairing_zero pairing_add)

lemma sibling_pairs:
  assumes tp: "tables_pair N pairing pp" and k: "k < N"
  shows "\<exists>ver. get_sibling_verification pp (k + 1) index = Inr ver \<and>
    pairing (commitment (node_of N pp f (sibling_node index (Suc k)))) (pp_g2 pp) =
    pairing (amt_proof (node_of N pp f (sibling_node index (Suc k)))) ver"
proof -
  let ?j = "(index AND (2 ^ Suc k - 1)) XOR 2 ^ k"
  let ?A = "leaves N (Suc k) (bitreverse index (Suc k) XOR 1)"
  have "?j < 2 ^ Suc k"
  proof -
    have "take_bit (Suc k) ?j = ?j"
      unfolding and_low_mask
      by (intro bit_eqI) (auto simp: bit_take_bit_iff bit_xor_iff bit_exp_iff)
    then show ?thesis by (metis take_bit_nat_less_exp)
  qed
  then have ver: "get_sibling_verification pp (k + 1) index = Inr (verification pp ! k ! ?j)"
    using tp k by (simp add: get_sibling_verification_def nth_res_def tables_pair_def Let_def)
  have "pairing (commitments pp ! i) (pp_g2 pp) = pairing (quotients pp ! k ! i) (verification pp ! k ! ?j)"
    if "i \<in> ?A" for i
  proof -
    have "?j = i mod 2 ^ Suc k" using that by (intro sibling_low_bits) (simp add: leaves_def)
    then show ?thesis using tp k that by (simp add: tables_pair_def leaves_def)
  qed
  then have "pairing (\<Sum>i\<in>?A. smul (f i) (commitments pp ! i)) (pp_g2 pp) =
      pairing (\<Sum>i\<in>?A. smul (f i) (quotients pp ! k ! i)) (verification pp ! k ! ?j)"
    by (simp add: pairing_sum pairing_smul)
  then show ?thesis using ver by (simp add: node_of_def sibling_node_def)
qed

lemma verify_nodes_ok:
  assumes tp: "tables_pair N pairing pp" and le: "k + n \<le> N"
  shows "verify_nodes pairing pp index k (map (\<lambda>k. node_of N pp f (sibling_node index (Suc k))) [k..<k + n]) = Inr True"
  using le
proof (induction n arbitrary: k)
  case (Suc n)
  have "k < N" using Suc.prems by simp
  from sibling_pairs [OF tp this, of index f]
  obtain ver where "get_sibling_verification pp (k + 1) index = Inr ver"
    "pairing (commitment (node_of N pp f (sibling_node index (Suc k)))) (pp_g2 pp) =
     pairing (amt_proof (node_of N pp f (sibling_node index (Suc k)))) ver" by blast
  then show ?case using Suc.IH [of "Suc k"] Suc.prems by (simp add: upt_conv_Cons del: upt_Suc)
qed simp

lemma verify_proof_of:
  fixes pp :: "('g, 'h) AMTParams"
  assumes tp: "tables_pair (DEPTHS C) pairing pp" and i: "index < LENGTH_of C"
    and len: "length (commitments pp) = 2 ^ DEPTHS C"
    and v: "smul (unat v) (commitments pp ! index) = smul (f index) (commitments pp ! index)"
  shows "AMTree_verify pairing C index v (commitment_of (DEPTHS C) pp f) (proof_of (DEPTHS C) pp f index) pp = Inr True"
proof -
  let ?N = "DEPTHS C"
  have "sum_list (map commitment (proof_of ?N pp f index)) =
      (\<Sum>k<?N. \<Sum>i\<in>leaves ?N (Suc k) (bitreverse index (Suc k) XOR 1). smul (f i) (commitments pp ! i))"
    by (simp add: proof_of_def comp_def sum_list_sum_nth node_of_def sibling_node_def lessThan_atLeast0)
  moreover have "commitment_of ?N pp f = smul (f index) (commitments pp ! index) +
      (\<Sum>k<?N. \<Sum>i\<in>leaves ?N (Suc k) (bitreverse index (Suc k) XOR 1). smul (f i) (commitments pp ! i))"
    using i unfolding commitment_of_def by (intro sum_all_leaves) (simp add: LENGTH_of_def)
  moreover have "verify_nodes pairing pp index 0 (proof_of ?N pp f index) = Inr True"
    using verify_nodes_ok [OF tp, of 0 ?N index f] by (simp add: proof_of_def)
  ultimately show ?thesis
    using i len v by (simp add: AMTree_verify_def get_commitments_def nth_res_def LENGTH_of_def)
qed

end

section \<open>Fresh trees\<close>

lemma commitment_of_zero: "commitment_of N pp (\<lambda>_. 0) = 0"
  by (simp add: commitment_of_def)

lemma node_of_zero: "node_of N pp (\<lambda>_. 0) n = \<lparr>commitment = 0, amt_proof = 0\<rparr>"
  by (simp add: node_of_def)

definition unused_prefix :: "'s kvdb_ops \<Rightarrow> 's world \<Rightarrow> nat \<Rightarrow> bytes \<Rightarrow> bool" where
  "unused_prefix D w col p \<longleftrightarrow> (\<forall>rest. kv_get D (store w) col (p @ rest) = None)"

lemma fresh_view:
  assumes "unused_prefix D w col p"
  shows "acc_view D T w (DBAccess_new p col) k = Inr (v_default T)"
  using assms by (simp add: acc_view_def DBAccess_new_def load_value_def DBColumn_get_def unused_prefix_def compute_key_def)

lemma amt_inv_fresh:
  assumes pp: "params_ok (DEPTHS C) pp" and d: "as_fr_int C (v_default (data_ty C)) = Inr 0"
    and sh: "\<And>s. shard = Some s \<Longrightarrow> node_ok (DEPTHS C) s"
    and u: "unused_prefix D w col (1 # to_bytes_consensus (name_write C) nm)"
      "unused_prefix D w col (2 # to_bytes_consensus (name_write C) nm)"
  shows "amt_inv D C w pp (set_commitment (AMTree_new C nm col shard) 0) (\<lambda>_. v_default (data_ty C))"
proof -
  have "v_default (node_ty C) = \<lparr>commitment = 0, amt_proof = 0\<rparr>" by (simp add: node_ty_def)
  then show ?thesis
    using pp d sh by (simp add: amt_inv_def sums_ok_def set_commitment_def AMTree_new_def Let_def
        fresh_view [OF u(1)] fresh_view [OF u(2)] fr_nat_def commitment_of_zero node_of_zero)
qed

section \<open>Properties\<close>

text \<open>C5. Writing a leaf through the guard keeps the tree committed to its leaves:
  from a state in which the commitment and every maintained inner node are the
  sums over the leaf values, opening the guard on any index, replacing the value
  by one whose field integer is not smaller and dropping the guard succeeds and
  re-establishes those sums for the new leaves.  The version tree only writes
  such values.\<close>

theorem amt_write_keeps_sums:
  fixes C :: "('n, 'd, 'g::ab_group_add) AMTConfig" and pp :: "('g, 'h) AMTParams"
  assumes "amt_inv D C w pp t dat" and "index < LENGTH_of C"
    and "as_fr_int C (dat index) = Inr old" and "as_fr_int C x = Inr new" and "old \<le> new"
  shows "\<exists>g t1 t2 pp2. write_versions D C w t index = Inr (g, t1) \<and> guard_value g = dat index \<and>
    guard_drop D C w pp t1 (g\<lparr>guard_value := x\<rparr>) = Inr (t2, pp2) \<and>
    amt_inv D C w pp2 t2 (dat(index := x))"
  using write_scope_grows [OF assms] by blast

text \<open>C22. Writing a smaller value breaks the commitment: when the field integer of
  the new value is smaller than the old one, the guard adds \<open>FrParams::R\<close>, which is
  the Montgomery constant of the scalar field and not its modulus, to the
  difference that wrapped at \<open>2 ^ 256\<close>.  The write succeeds and the leaf holds the
  new value, but the tree's commitment exceeds the sum over the leaves by
  \<open>fr_R\<close> times the commitment of the index (by \<open>fr_R + 2 ^ 256\<close> times, when the
  old value exceeds the new one by more than \<open>fr_R\<close>), so the tree has its sums
  only if that multiple is zero in the group.\<close>

theorem amt_smaller_value_shifts_commitment:
  fixes C :: "('n, 'd, 'g::ab_group_add) AMTConfig" and pp :: "('g, 'h) AMTParams"
  assumes "amt_inv D C w pp t dat" and "index < LENGTH_of C"
    and "as_fr_int C (dat index) = Inr old" and "as_fr_int C x = Inr new" and "new < old"
  shows "\<exists>g t1 t2 pp2. write_versions D C w t index = Inr (g, t1) \<and>
    guard_drop D C w pp t1 (g\<lparr>guard_value := x\<rparr>) = Inr (t2, pp2) \<and>
    acc_view D (data_ty C) w (tree_data t2) index = Inr x \<and>
    tree_commitment t2 = Some (commitment_of (DEPTHS C) pp2 (\<lambda>i. fr_nat C ((dat(index := x)) i)) +
      smul (borrow_excess C old new) (commitments pp ! index)) \<and>
    (amt_inv D C w pp2 t2 (dat(index := x)) \<longrightarrow> smul (borrow_excess C old new) (commitments pp ! index) = 0)"
proof -
  from write_scope [OF assms(1-4)] obtain g t1 t2 pp2 where
    r: "write_versions D C w t index = Inr (g, t1)" "guard_drop D C w pp t1 (g\<lparr>guard_value := x\<rparr>) = Inr (t2, pp2)"
      "acc_view D (data_ty C) w (tree_data t2) index = Inr x" "same_tables pp pp2"
    and so: "sums_ok D C w pp2 t2 ((\<lambda>i. fr_nat C (dat i))(index := unat old + unat (guard_difference C old new)))"
    using assms(2) by fastforce
  have "commitment_of (DEPTHS C) pp2 ((\<lambda>i. fr_nat C (dat i))(index := unat old + unat (guard_difference C old new))) =
      commitment_of (DEPTHS C) pp2 (\<lambda>i. fr_nat C ((dat(index := x)) i)) + smul (borrow_excess C old new) (commitments pp2 ! index)"
    using assms(2,4) guard_difference_shrinks [OF assms(5), of C]
    by (intro commitment_edit) (simp_all add: LENGTH_of_def fr_nat_def)
  moreover have "commitments pp2 = commitments pp" using r(4) by (simp add: same_tables_def)
  ultimately have c: "tree_commitment t2 = Some (commitment_of (DEPTHS C) pp2 (\<lambda>i. fr_nat C ((dat(index := x)) i)) +
      smul (borrow_excess C old new) (commitments pp ! index))" using so by (simp add: sums_ok_def)
  then have "amt_inv D C w pp2 t2 (dat(index := x)) \<longrightarrow> smul (borrow_excess C old new) (commitments pp ! index) = 0"
    by (simp add: amt_inv_def sums_ok_def)
  then show ?thesis using r c by blast
qed

text \<open>A small instance that evaluates: a tree of two leaves over the 256-element
  group, with byte leaves.\<close>

definition byte_ty :: "(nat, u8) access_ty" where
  "byte_ty = \<lparr>v_read = read_u8, v_write = write_u8, v_default = 0, l_position = FlattenArray_position\<rparr>"

definition byte_curve :: "u8 curve_bytes" where
  "byte_curve = \<lparr>proj_write = (\<lambda>x. [x]), proj_read = (\<lambda>bs. case bs of [] \<Rightarrow> Inl (IoErr ''eof'') | b # r \<Rightarrow> Inr (b, r)),
     aff_write = (\<lambda>x. [x]), aff_read = (\<lambda>bs. case bs of [] \<Rightarrow> Inl (IoErr ''eof'') | b # r \<Rightarrow> Inr (b, r))\<rparr>"

definition byte_config :: "(unit, u8, u8) AMTConfig" where
  "byte_config = \<lparr>DEPTHS = 1, name_write = (\<lambda>ty _. []), data_ty = byte_ty,
     as_fr_int = (\<lambda>x. Inr (ucast x)), curve = byte_curve, fr_R = 1, fr_modulus = 256\<rparr>"

definition byte_params :: "(u8, u8) AMTParams" where
  "byte_params = \<lparr>commitments = [3, 5], quotients = [[3, 5]], verification = [[1, 1]], pp_g2 = 1,
     indents_cache = [[], []], quotients_cache = [[[], []]]\<rparr>"

definition empty_world :: "contents world" where
  "empty_world = \<lparr>store = (\<lambda>_ _. None), PUT_COUNT = [0, 0, 0, 0], PUT_MODE = 0\<rparr>"

interpretation byte_curve_codec: curve_codec byte_curve
  by unfold_locales (simp_all add: byte_curve_def)

lemma smul_byte: "smul n (g :: u8) = of_nat n * g"
  by (induction n) (simp_all add: algebra_simps)

interpretation byte_pair: pairing_group "(*) :: u8 \<Rightarrow> u8 \<Rightarrow> u8"
  by unfold_locales (simp add: algebra_simps)

lemma less_two: "(i :: nat) < 2 \<longleftrightarrow> i = 0 \<or> i = 1"
  by auto

lemma byte_params_ok: "params_ok (Suc 0) byte_params" "tables_pair (Suc 0) (*) byte_params"
  by (auto simp: params_ok_def byte_params_def pow_cache_ok_def tables_pair_def less_two)

lemma byte_tree_inv:
  "amt_inv plain_kvdb byte_config empty_world byte_params
     (set_commitment (AMTree_new byte_config () 0 (Some NodeIndex_root)) 0) (\<lambda>_. 0)"
  using amt_inv_fresh [of byte_config byte_params "Some NodeIndex_root" plain_kvdb empty_world 0 "()"]
  by (simp add: byte_config_def byte_params_ok byte_ty_def unused_prefix_def plain_kvdb_def empty_world_def
      NodeIndex_root_def node_ok_def)

theorem amt_write_keeps_sums_witness:
  "\<exists>g t1 t2 pp2.
     write_versions plain_kvdb byte_config empty_world
       (set_commitment (AMTree_new byte_config () 0 (Some NodeIndex_root)) 0) 1 = Inr (g, t1) \<and> guard_value g = 0 \<and>
     guard_drop plain_kvdb byte_config empty_world byte_params t1 (g\<lparr>guard_value := 7\<rparr>) = Inr (t2, pp2) \<and>
     amt_inv plain_kvdb byte_config empty_world pp2 t2 ((\<lambda>_. 0)(1 := 7))"
  using amt_write_keeps_sums [OF byte_tree_inv, of 1 0 7 7]
  by (simp add: byte_config_def LENGTH_of_def)

text \<open>A leaf that is set to 7 and then to 5.\<close>

theorem amt_smaller_value_witness:
  "\<exists>(t :: (unit, u8, u8) AMTree) pp g t1 t2 pp2. write_versions plain_kvdb byte_config empty_world t 1 = Inr (g, t1) \<and>
     guard_drop plain_kvdb byte_config empty_world (pp :: (u8, u8) AMTParams) t1 (g\<lparr>guard_value := 5\<rparr>) = Inr (t2, pp2) \<and>
     \<not> amt_inv plain_kvdb byte_config empty_world pp2 t2 ((\<lambda>_. 0)(1 := 7, 1 := 5))"
proof -
  obtain t and pp :: "(u8, u8) AMTParams" where t: "amt_inv plain_kvdb byte_config empty_world pp t ((\<lambda>_. 0)(1 := 7))"
      and pp: "commitments pp = [3, 5]"
    using write_scope_grows [OF byte_tree_inv, of 1 0 7 7]
    by (fastforce simp: byte_config_def LENGTH_of_def same_tables_def byte_params_def)
  have "smul (borrow_excess byte_config 7 5) (5 :: u8) \<noteq> 0"
    by (simp add: borrow_excess_def byte_config_def smul_byte)
  then show ?thesis
    using amt_smaller_value_shifts_commitment [OF t, of 1 7 5 5] pp
    by (fastforce simp: byte_config_def LENGTH_of_def)
qed

text \<open>C6. Completeness of the tree's proofs: a tree with the full shard whose
  sums are right gives a proof for every index, of one node per level, and
  \<open>verify\<close> accepts it against the tree's commitment for the value of that leaf,
  for every bilinear pairing and every parameter tables that pair.\<close>

theorem amt_prove_verify:
  fixes C :: "('n, 'd, 'g::ab_group_add) AMTConfig" and pairing :: "'g \<Rightarrow> 'h \<Rightarrow> 'gt::ab_group_add"
  assumes "pairing_group pairing" and "tables_pair (DEPTHS C) pairing pp"
    and "amt_inv D C w pp t dat" and "can_prove t" and "index < LENGTH_of C"
    and "as_fr_int C (dat index) = Inr v"
  shows "\<exists>c prf t'. AMTree_commitment t = Inr c \<and> AMTree_prove D C w t index = Inr (Some prf, t') \<and>
    length prf = DEPTHS C \<and> AMTree_verify pairing C index v c prf pp = Inr True \<and> amt_inv D C w pp t' dat"
proof -
  let ?f = "\<lambda>i. fr_nat C (dat i)"
  have so: "sums_ok D C w pp t ?f" and pp: "params_ok (DEPTHS C) pp" using assms(3) by (simp_all add: amt_inv_def)
  have sh: "shard_root t = Some NodeIndex_root" using assms(4) by (simp add: can_prove_def)
  obtain t' where t': "AMTree_prove D C w t index = Inr (Some (proof_of (DEPTHS C) pp ?f index), t')"
    "sums_ok D C w pp t' ?f" "tree_data t' = tree_data t" using AMTree_prove_ok [OF so sh] by blast
  have "AMTree_verify pairing C index v (commitment_of (DEPTHS C) pp ?f) (proof_of (DEPTHS C) pp ?f index) pp = Inr True"
    using pp assms(6) by (intro pairing_group.verify_proof_of [OF assms(1,2,5)]) (simp_all add: params_ok_def fr_nat_def)
  moreover have "tree_commitment t = Some (commitment_of (DEPTHS C) pp ?f)" using so by (simp add: sums_ok_def)
  moreover have "amt_inv D C w pp t' dat" using assms(3) t'(2,3) by (simp add: amt_inv_def)
  ultimately show ?thesis using t'(1) by (auto simp: AMTree_commitment_def proof_of_def)
qed

theorem amt_prove_verify_witness:
  "\<exists>c prf t'. AMTree_commitment (set_commitment (AMTree_new byte_config () 0 (Some NodeIndex_root)) 0) = Inr c \<and>
     AMTree_prove plain_kvdb byte_config empty_world
       (set_commitment (AMTree_new byte_config () 0 (Some NodeIndex_root)) 0) 1 = Inr (Some prf, t') \<and>
     length prf = DEPTHS byte_config \<and> AMTree_verify (*) byte_config 1 0 c prf byte_params = Inr True \<and>
     amt_inv plain_kvdb byte_config empty_world byte_params t' (\<lambda>_. 0)"
  by (rule amt_prove_verify [OF byte_pair.pairing_group_axioms _ byte_tree_inv])
    (simp_all add: byte_config_def byte_params_ok LENGTH_of_def can_prove_def set_commitment_def AMTree_new_def Let_def)

end
