(* ===== verification/LvmtKey.thy ===== *)
theory LvmtKey
  imports Serde "HOL-Library.List_Lexorder"
begin

text \<open>
  The names and leaves of the multi-layer version tree:
  \<open>multi_layer_amt/key.rs\<close> (the path of a key through the layers),
  \<open>multi_layer_amt/name.rs\<close> (tree names and their serialization) and
  \<open>multi_layer_amt/node.rs\<close> (the leaf with the versions of its up to five
  keys, packed into a field element).
\<close>

section \<open>TreeName\<close>

datatype TreeName = TreeName (name_path: "u32 list")

text \<open>The derived order of \<open>TreeName\<close> is the lexicographic one.\<close>

instantiation TreeName :: linorder
begin

definition less_eq_TreeName :: "TreeName \<Rightarrow> TreeName \<Rightarrow> bool" where
  "less_eq_TreeName a b \<longleftrightarrow> name_path a \<le> name_path b"

definition less_TreeName :: "TreeName \<Rightarrow> TreeName \<Rightarrow> bool" where
  "less_TreeName a b \<longleftrightarrow> name_path a < name_path b"

instance
  by intro_classes
    (auto simp: less_eq_TreeName_def less_TreeName_def less_le_not_le TreeName.expand intro: TreeName.expand)

end

definition read_TreeName :: "SerdeType \<Rightarrow> TreeName reader" where
  "read_TreeName ty bs = and_then (read_u8 ty bs) (\<lambda>(len, r).
     and_then (read_n (read_u32 ty) (unat len) r) (\<lambda>(xs, r'). Inr (TreeName xs, r')))"

definition write_TreeName :: "SerdeType \<Rightarrow> TreeName writer" where
  "write_TreeName ty n = write_u8 ty (word_of_nat (length (name_path n))) @
     concat (map (write_u32 ty) (name_path n))"

definition TreeName_root :: TreeName where
  "TreeName_root = TreeName []"

definition level_index :: "TreeName \<Rightarrow> u32 option" where
  "level_index n = (if name_path n = [] then None else Some (last (name_path n)))"

definition child :: "TreeName \<Rightarrow> u32 \<Rightarrow> TreeName" where
  "child n index = TreeName (name_path n @ [index])"

definition parent :: "TreeName \<Rightarrow> TreeName option" where
  "parent n = (if name_path n = [] then None else Some (TreeName (butlast (name_path n))))"

lemma parent_child: "parent (child n i) = Some n" "level_index (child n i) = Some i"
  by (simp_all add: parent_def child_def level_index_def)

interpretation name_codec: codec write_TreeName read_TreeName "\<lambda>n. length (name_path n) < 256"
proof
  fix x ty rest
  assume "length (name_path x) < 256"
  then have "unat (word_of_nat (length (name_path x)) :: u8) = length (name_path x)"
    by (simp add: unat_of_nat)
  moreover have "read_n (read_u32 ty) (length (name_path x)) (concat (map (write_u32 ty) (name_path x)) @ rest) =
      Inr (name_path x, rest)"
    by (rule u32_codec.read_n_concat) (simp add: list_all_iff)
  ultimately show "read_TreeName ty (write_TreeName ty x @ rest) = Inr (x, rest)"
    by (simp add: read_TreeName_def write_TreeName_def codec_simps)
qed

section \<open>Key\<close>

type_synonym Key = bytes

text \<open>\<open>mid\<close> takes \<open>len\<close> bits from bit \<open>start\<close> on.  The slice panics when it
  starts beyond the end of the key; the result is a \<open>u128\<close>.\<close>

definition key_mid :: "Key \<Rightarrow> nat \<Rightarrow> nat \<Rightarrow> 128 word result" where
  "key_mid k start len =
     (if len = 0 then Inr 0
      else let start_byte = start div 8;
               start_bit = start - start_byte * 8
           in if length k < start_byte then Inl (Panic ''slice index starts at out of range'')
              else let entry = take 16 (drop start_byte k);
                       entry' = entry @ replicate (16 - length entry) 0;
                       shift = start_bit + (128 - len)
                   in if 128 \<le> shift then Inl (Panic ''attempt to shift right with overflow'')
                      else Inr (drop_bit shift (from_be_bytes entry' :: 128 word)))"

definition index_at_level :: "nat \<Rightarrow> Key \<Rightarrow> nat \<Rightarrow> nat result" where
  "index_at_level depths k level =
     and_then (key_mid k (level * depths) depths) (\<lambda>x. Inr (unat (ucast x :: u64)))"

definition tree_at_level :: "nat \<Rightarrow> Key \<Rightarrow> nat \<Rightarrow> TreeName result" where
  "tree_at_level depths k level =
     and_then (map_res (\<lambda>l. and_then (index_at_level depths k l) (\<lambda>i. Inr (word_of_nat i :: u32))) [0..<level])
       (\<lambda>xs. Inr (TreeName xs))"

section \<open>The leaf of a version tree\<close>

definition VERSION_BITS :: nat where "VERSION_BITS = 40"
definition MAX_VERSION_NUMBER :: u64 where "MAX_VERSION_NUMBER = 2 ^ 40 - 1"

record EpochPosition =
  ep_epoch :: u64
  ep_position :: u64

record Node =
  key_versions :: "u64 list"
  tree_version :: u64
  tree_position :: EpochPosition

definition EpochPosition_default :: EpochPosition where
  "EpochPosition_default = \<lparr>ep_epoch = 0, ep_position = 0\<rparr>"

definition Node_default :: Node where
  "Node_default = \<lparr>key_versions = [], tree_version = 0, tree_position = EpochPosition_default\<rparr>"

text \<open>The derived serializations: the fields in order.  \<open>KeyVersions\<close> has one
  field of type \<open>Vec<u64>\<close>, which the macro reads with \<open>read_vec\<close>.\<close>

definition read_EpochPosition :: "SerdeType \<Rightarrow> EpochPosition reader" where
  "read_EpochPosition ty bs = and_then (read_u64 ty bs) (\<lambda>(e, r).
     and_then (read_u64 ty r) (\<lambda>(p, r'). Inr (\<lparr>ep_epoch = e, ep_position = p\<rparr>, r')))"
definition write_EpochPosition :: "SerdeType \<Rightarrow> EpochPosition writer" where
  "write_EpochPosition ty x = write_u64 ty (ep_epoch x) @ write_u64 ty (ep_position x)"

definition read_Node :: "SerdeType \<Rightarrow> Node reader" where
  "read_Node ty bs = and_then (read_vec read_u64 ty bs) (\<lambda>(kv, r).
     and_then (read_u64 ty r) (\<lambda>(tv, r').
     and_then (read_EpochPosition ty r') (\<lambda>(tp, r'').
       Inr (\<lparr>key_versions = kv, tree_version = tv, tree_position = tp\<rparr>, r''))))"
definition write_Node :: "SerdeType \<Rightarrow> Node writer" where
  "write_Node ty n = write_vec write_u64 ty (key_versions n) @ write_u64 ty (tree_version n) @
     write_EpochPosition ty (tree_position n)"

interpretation position_codec: codec write_EpochPosition read_EpochPosition "\<lambda>_. True"
  by unfold_locales (simp add: write_EpochPosition_def read_EpochPosition_def codec_simps)

interpretation versions_codec: codec "write_vec write_u64" "read_vec read_u64"
  "\<lambda>xs. length xs < 2 ^ 64 \<and> list_all (\<lambda>_. True) xs"
  by (rule u64_codec.vec_codec)

declare position_codec.rd_wr [codec_simps] versions_codec.rd_wr [codec_simps]

interpretation node_codec: codec write_Node read_Node "\<lambda>n. length (key_versions n) < 2 ^ 64"
  by unfold_locales
    (simp add: write_Node_def read_Node_def codec_simps list_all_iff)

text \<open>The packing into a field element, little-endian, five bytes per version.\<close>

definition Node_as_fr_int :: "Node \<Rightarrow> 256 word result" where
  "Node_as_fr_int n =
     and_then (ensure (length (key_versions n) \<le> 5) ''assertion failed: self.key_versions.len() <= 5'') (\<lambda>_.
       let fields = map (\<lambda>v. take 5 (to_le_bytes 8 v)) (tree_version n # key_versions n)
       in Inr (from_le_bytes (concat fields @ replicate (32 - length (concat fields)) 0)))"

definition versions_from_fr_int :: "256 word \<Rightarrow> nat \<Rightarrow> u64 result" where
  "versions_from_fr_int fr index =
     and_then (ensure (index < 6) ''assertion failed: index < 6'') (\<lambda>_.
       Inr (from_le_bytes (take 5 (drop (index * 5) (to_le_bytes 32 fr)) @ [0, 0, 0])))"

definition fr_int_pow_2 :: "nat \<Rightarrow> 256 word" where
  "fr_int_pow_2 p = push_bit p 1"

section \<open>VerInfo\<close>

record VerInfo =
  version :: u64
  level :: u8
  slot_index :: u8

definition read_VerInfo :: "SerdeType \<Rightarrow> VerInfo reader" where
  "read_VerInfo ty bs = and_then (read_u64 ty bs) (\<lambda>(v, r). and_then (read_u8 ty r) (\<lambda>(l, r').
     and_then (read_u8 ty r') (\<lambda>(s, r''). Inr (\<lparr>version = v, level = l, slot_index = s\<rparr>, r''))))"
definition write_VerInfo :: "SerdeType \<Rightarrow> VerInfo writer" where
  "write_VerInfo ty v = write_u64 ty (version v) @ write_u8 ty (level v) @ write_u8 ty (slot_index v)"

interpretation ver_codec: codec write_VerInfo read_VerInfo "\<lambda>_. True"
  by unfold_locales (simp add: write_VerInfo_def read_VerInfo_def codec_simps)

declare ver_codec.rd_wr [codec_simps]

section \<open>The packed value\<close>

lemma nat_le_append: "nat_le (xs @ ys) = nat_le xs + 256 ^ length xs * nat_le ys"
  by (induction xs) (simp_all add: algebra_simps)

lemma nat_le_zeros [simp]: "nat_le (replicate n 0) = 0"
  by (induction n) simp_all

lemma take_le_nat: "m \<le> n \<Longrightarrow> take m (le_nat n x) = le_nat m x"
proof (induction m arbitrary: n x)
  case (Suc m)
  then obtain n' where "n = Suc n'" by (cases n) auto
  with Suc show ?case by simp
qed simp

lemma drop_le_nat: "drop k (le_nat n x) = le_nat (n - k) (x div 256 ^ k)"
proof (induction k arbitrary: n x)
  case (Suc k)
  then show ?case by (cases n) (simp_all add: div_mult2_eq)
qed simp

lemma nat_le_field: "k + m \<le> n \<Longrightarrow> nat_le (take m (drop k (le_nat n x))) = x div 256 ^ k mod 256 ^ m"
  by (simp add: drop_le_nat take_le_nat nat_le_le_nat)

text \<open>The value of a list of 40-bit fields.\<close>

fun pack :: "u64 list \<Rightarrow> nat" where
  "pack [] = 0"
| "pack (v # vs) = unat v mod 2 ^ 40 + 2 ^ 40 * pack vs"

lemma nat_le_fields: "nat_le (concat (map (\<lambda>v. take 5 (to_le_bytes 8 v)) vs)) = pack vs"
proof (induction vs)
  case (Cons v vs)
  have "nat_le (take 5 (to_le_bytes 8 v)) = unat v mod 256 ^ 5"
    by (simp add: to_le_bytes_def take_le_nat nat_le_le_nat)
  with Cons show ?case by (simp add: nat_le_append)
qed simp

lemma pack_bound: "pack vs < 2 ^ (40 * length vs)"
proof (induction vs)
  case (Cons v vs)
  have "unat v mod 2 ^ 40 < 2 ^ 40" by simp
  then have "pack (v # vs) < 2 ^ 40 * (pack vs + 1)" by simp
  also have "\<dots> \<le> 2 ^ 40 * 2 ^ (40 * length vs)" using Cons by (intro mult_le_mono) auto
  finally show ?case by (simp only: length_Cons mult_Suc_right power_add)
qed simp

lemma pack_field: "i < length vs \<Longrightarrow> pack vs div 2 ^ (40 * i) mod 2 ^ 40 = unat (vs ! i) mod 2 ^ 40"
proof (induction vs arbitrary: i)
  case (Cons v vs)
  show ?case
  proof (cases i)
    case (Suc j)
    have "pack (v # vs) div 2 ^ (40 * i) = pack (v # vs) div 2 ^ 40 div 2 ^ (40 * j)"
      by (simp only: Suc mult_Suc_right power_add div_mult2_eq)
    also have "pack (v # vs) div 2 ^ 40 = pack vs" by simp
    finally show ?thesis using Cons Suc by simp
  qed simp
qed simp

lemma pack_increment:
  assumes "i < length vs" "unat (vs ! i) < 2 ^ 40 - 1"
  shows "pack (vs[i := vs ! i + 1]) = pack vs + 2 ^ (40 * i)"
  using assms
proof (induction vs arbitrary: i)
  case (Cons v vs)
  show ?case
  proof (cases i)
    case 0
    have "unat (v + 1) = (unat v + 1) mod 2 ^ 64" by (simp add: unat_word_ariths)
    also have "\<dots> = unat v + 1" using Cons.prems(2) 0 by (intro mod_less) simp
    finally have "unat (v + 1) = unat v + 1" .
    then show ?thesis using Cons.prems(2) 0 by simp
  next
    case (Suc j)
    then show ?thesis using Cons by (simp add: algebra_simps power_add)
  qed
qed simp

lemma as_fr_int_pack:
  assumes "length (key_versions n) \<le> 5"
  shows "\<exists>fr. Node_as_fr_int n = Inr fr \<and> unat fr = pack (tree_version n # key_versions n)"
proof -
  let ?vs = "tree_version n # key_versions n"
  let ?fs = "concat (map (\<lambda>v. take 5 (to_le_bytes 8 v)) ?vs)"
  have "pack ?vs < 2 ^ (40 * length ?vs)" by (rule pack_bound)
  also have "(2::nat) ^ (40 * length ?vs) \<le> 2 ^ 256" using assms by (intro power_increasing) auto
  finally have b: "pack ?vs < 2 ^ 256" .
  have "nat_le (?fs @ replicate (32 - length ?fs) 0) = pack ?vs"
    by (simp only: nat_le_append nat_le_fields nat_le_zeros mult_zero_right add_0_right)
  then have "unat (from_le_bytes (?fs @ replicate (32 - length ?fs) 0) :: 256 word) = pack ?vs"
    using b by (simp only: from_le_bytes_def unat_of_nat) simp
  then show ?thesis using assms by (simp add: Node_as_fr_int_def Let_def del: pack.simps)
qed

lemma versions_from_pack:
  assumes "i < 6" "unat fr = pack vs" "i < length vs" "unat (vs ! i) < 2 ^ 40"
  shows "versions_from_fr_int fr i = Inr (vs ! i)"
proof -
  have "nat_le (take 5 (drop (i * 5) (to_le_bytes 32 fr))) = unat fr div 256 ^ (i * 5) mod 256 ^ 5"
    unfolding to_le_bytes_def using assms(1) by (intro nat_le_field) simp
  also have "\<dots> = unat fr div 2 ^ (40 * i) mod 2 ^ 40"
    by (simp add: pow_256 mult.commute)
  also have "\<dots> = unat (vs ! i)"
    unfolding assms(2) using pack_field [OF assms(3)] assms(4) by simp
  finally have n: "nat_le (take 5 (drop (i * 5) (to_le_bytes 32 fr)) @ [0, 0, 0]) = unat (vs ! i)"
    by (simp add: nat_le_append)
  show ?thesis using assms(1) by (simp add: versions_from_fr_int_def from_le_bytes_def n)
qed

text \<open>Packing a leaf into a field element loses nothing: for a leaf with at
  most five key versions, all versions below \<open>2 ^ 40\<close>, the element exists, it is
  below \<open>2 ^ 240\<close>, and \<open>versions_from_fr_int\<close> reads back the tree version at
  index 0 and the version of slot \<open>i\<close> at index \<open>i + 1\<close>.\<close>

theorem node_fr_int_round_trip:
  assumes "length (key_versions n) \<le> 5" and "unat (tree_version n) < 2 ^ 40"
    and "list_all (\<lambda>v. unat v < 2 ^ 40) (key_versions n)"
  shows "\<exists>fr. Node_as_fr_int n = Inr fr \<and> unat fr < 2 ^ 240 \<and>
    versions_from_fr_int fr 0 = Inr (tree_version n) \<and>
    (\<forall>i < length (key_versions n). versions_from_fr_int fr (i + 1) = Inr (key_versions n ! i))"
proof -
  let ?vs = "tree_version n # key_versions n"
  obtain fr where fr: "Node_as_fr_int n = Inr fr" "unat fr = pack ?vs" using as_fr_int_pack [OF assms(1)] by blast
  have "pack ?vs < 2 ^ (40 * length ?vs)" by (rule pack_bound)
  also have "(2::nat) ^ (40 * length ?vs) \<le> 2 ^ 240" using assms(1) by (intro power_increasing) auto
  finally have "unat fr < 2 ^ 240" using fr by simp
  moreover have "versions_from_fr_int fr i = Inr (?vs ! i)" if "i < length ?vs" for i
    using that assms fr(2) by (intro versions_from_pack) (auto simp: nth_Cons' list_all_length)
  ultimately show ?thesis using fr(1) by force
qed

theorem node_fr_int_round_trip_witness:
  "\<exists>fr. Node_as_fr_int \<lparr>key_versions = [2, 3], tree_version = 1, tree_position = EpochPosition_default\<rparr> = Inr fr \<and>
     unat fr < 2 ^ 240 \<and> versions_from_fr_int fr 0 = Inr 1 \<and>
     versions_from_fr_int fr 1 = Inr 2 \<and> versions_from_fr_int fr 2 = Inr 3"
proof -
  let ?n = "\<lparr>key_versions = [2, 3], tree_version = 1, tree_position = EpochPosition_default\<rparr>"
  obtain fr where fr: "Node_as_fr_int ?n = Inr fr" "unat fr < 2 ^ 240"
    "versions_from_fr_int fr 0 = Inr (tree_version ?n)"
    "\<forall>i < length (key_versions ?n). versions_from_fr_int fr (i + 1) = Inr (key_versions ?n ! i)"
    using node_fr_int_round_trip [of ?n] by auto
  from fr(4) [rule_format, of 0] fr(4) [rule_format, of 1] fr(1-3) show ?thesis by (auto simp: numeral_2_eq_2)
qed

lemma slot_increment:
  assumes "length (key_versions n) \<le> 5" and "slot < length (key_versions n)"
    and "key_versions n ! slot < MAX_VERSION_NUMBER"
  shows "\<exists>old new. Node_as_fr_int n = Inr old \<and>
    Node_as_fr_int (n\<lparr>key_versions := (key_versions n)[slot := key_versions n ! slot + 1]\<rparr>) = Inr new \<and>
    unat new = unat old + 2 ^ ((slot + 1) * 40) \<and> new = old + fr_int_pow_2 ((slot + 1) * 40)"
proof -
  let ?kv = "(key_versions n)[slot := key_versions n ! slot + 1]"
  let ?vs = "tree_version n # key_versions n"
  obtain old where old: "Node_as_fr_int n = Inr old" "unat old = pack ?vs" using as_fr_int_pack [OF assms(1)] by blast
  obtain new where new: "Node_as_fr_int (n\<lparr>key_versions := ?kv\<rparr>) = Inr new" "unat new = pack (tree_version n # ?kv)"
    using as_fr_int_pack [of "n\<lparr>key_versions := ?kv\<rparr>"] assms(1) by auto
  have lt: "unat (key_versions n ! slot) < 2 ^ 40 - 1"
    using assms(3) by (simp add: MAX_VERSION_NUMBER_def word_less_nat_alt)
  have "pack (?vs[Suc slot := ?vs ! Suc slot + 1]) = pack ?vs + 2 ^ (40 * Suc slot)"
    using assms(2) lt by (intro pack_increment) simp_all
  then have u: "unat new = unat old + 2 ^ ((slot + 1) * 40)" using old new by (simp add: algebra_simps)
  have "unat (fr_int_pow_2 ((slot + 1) * 40)) = 2 ^ ((slot + 1) * 40)"
    unfolding fr_int_pow_2_def using assms(1,2) by (intro unat_push_bit_1) simp
  then have "word_of_nat (unat new) = (word_of_nat (unat old + unat (fr_int_pow_2 ((slot + 1) * 40))) :: 256 word)"
    using u by simp
  then have "new = old + fr_int_pow_2 ((slot + 1) * 40)" by simp
  then show ?thesis using old(1) new(1) u by blast
qed

text \<open>The two ways \<open>inc_key_ver\<close> increments a key agree: adding
  \<open>fr_int_pow_2((slot + 1) * 40)\<close> to the packed leaf is packing the leaf with
  the version of that slot incremented, as long as the version is below the
  maximum, so a carry never reaches the next slot.\<close>

theorem increment_slot_is_fr_int_pow_2:
  assumes "length (key_versions n) \<le> 5" and "slot < length (key_versions n)"
    and "key_versions n ! slot < MAX_VERSION_NUMBER"
  shows "\<exists>old new. Node_as_fr_int n = Inr old \<and>
    Node_as_fr_int (n\<lparr>key_versions := (key_versions n)[slot := key_versions n ! slot + 1]\<rparr>) = Inr new \<and>
    unat new = unat old + 2 ^ ((slot + 1) * 40) \<and> new = old + fr_int_pow_2 ((slot + 1) * 40)"
  using slot_increment [OF assms] .

theorem increment_slot_witness:
  "\<exists>old new.
     Node_as_fr_int \<lparr>key_versions = [7], tree_version = 1, tree_position = EpochPosition_default\<rparr> = Inr old \<and>
     Node_as_fr_int \<lparr>key_versions = [8], tree_version = 1, tree_position = EpochPosition_default\<rparr> = Inr new \<and>
     unat new = unat old + 2 ^ 40 \<and> new = old + fr_int_pow_2 40"
  using increment_slot_is_fr_int_pow_2
    [of "\<lparr>key_versions = [7], tree_version = 1, tree_position = EpochPosition_default\<rparr>" 0]
  by (simp add: MAX_VERSION_NUMBER_def)

section \<open>The path of a key\<close>

lemma nat_be_append: "nat_be (xs @ ys) = nat_be xs * 256 ^ length ys + nat_be ys"
  by (simp add: nat_be_def nat_le_append algebra_simps)

lemma nat_be_bound: "nat_be bs < 256 ^ length bs"
  using nat_le_bound [of "rev bs"] by (simp add: nat_be_def)

lemma top_bytes:
  fixes e :: bytes
  assumes "length e = 16" "j \<le> 16"
  shows "unat (drop_bit (128 - 8 * j) (from_be_bytes e :: 128 word)) = nat_be (take j e)"
proof -
  have "nat_be e < 256 ^ 16" using nat_be_bound [of e] assms(1) by simp
  then have e: "unat (from_be_bytes e :: 128 word) = nat_be e"
    by (simp add: from_be_bytes_def unat_of_nat)
  have "nat_be e = nat_be (take j e) * 256 ^ (16 - j) + nat_be (drop j e)"
    using nat_be_append [of "take j e" "drop j e"] assms by simp
  moreover have "nat_be (drop j e) < 256 ^ (16 - j)" using nat_be_bound [of "drop j e"] assms by simp
  ultimately have "nat_be e div 256 ^ (16 - j) = nat_be (take j e)" by simp
  moreover have "(256::nat) ^ (16 - j) = 2 ^ (128 - 8 * j)" using assms(2) by (simp add: pow_256 diff_mult_distrib2)
  moreover have "unat (from_be_bytes e :: 128 word) mod 2 ^ 128 = unat (from_be_bytes e :: 128 word)"
    using unat_bound [of "from_be_bytes e :: 128 word"] by simp
  ultimately show ?thesis
    unfolding unsigned_drop_bit_eq take_bit_eq_mod by (simp add: e drop_bit_eq_div)
qed

text \<open>The bytes of a key that a level reads, padded with zeros at its end.\<close>

definition level_bytes :: "nat \<Rightarrow> Key \<Rightarrow> nat \<Rightarrow> bytes" where
  "level_bytes m k l = (let bs = take m (drop (l * m) k) in bs @ replicate (m - length bs) 0)"

lemma length_level_bytes [simp]: "length (level_bytes m k l) = m"
  by (simp add: level_bytes_def Let_def)

lemma index_at_level_aligned:
  assumes "0 < m" "m \<le> 8" "l * m \<le> length k"
  shows "index_at_level (8 * m) k l = Inr (nat_be (level_bytes m k l))"
proof -
  let ?e = "take 16 (drop (l * m) k)"
  let ?e' = "?e @ replicate (16 - length ?e) 0"
  have d: "l * (8 * m) div 8 = l * m" "l * (8 * m) - l * m * 8 = 0" by simp_all
  have mid: "key_mid k (l * (8 * m)) (8 * m) = Inr (drop_bit (128 - 8 * m) (from_be_bytes ?e'))"
    using assms by (simp add: key_mid_def Let_def d not_less)
  have t: "take m ?e' = level_bytes m k l"
    using assms(2) by (simp add: level_bytes_def Let_def take_append min_def replicate_append_same diff_le_mono split: if_splits)
  have "unat (drop_bit (128 - 8 * m) (from_be_bytes ?e' :: 128 word)) = nat_be (take m ?e')"
    using assms(2) by (intro top_bytes) auto
  then have v: "unat (drop_bit (128 - 8 * m) (from_be_bytes ?e' :: 128 word)) = nat_be (level_bytes m k l)"
    unfolding t .
  have "nat_be (level_bytes m k l) < 256 ^ m" using nat_be_bound [of "level_bytes m k l"] by simp
  also have "(256::nat) ^ m \<le> 2 ^ 64" unfolding pow_256 using assms(2) by (intro power_increasing) auto
  finally have "unat (ucast (drop_bit (128 - 8 * m) (from_be_bytes ?e' :: 128 word)) :: u64) = nat_be (level_bytes m k l)"
    unfolding unsigned_ucast_eq v by (simp add: take_bit_nat_eq_self)
  then show ?thesis by (simp add: index_at_level_def mid)
qed

lemma nat_be_inject: "length xs = length ys \<Longrightarrow> nat_be xs = nat_be ys \<longleftrightarrow> xs = ys"
  by (metis be_nat_nat_be)

lemma level_bytes_nth:
  assumes "i < length k" "0 < m"
  shows "level_bytes m k (i div m) ! (i mod m) = k ! i"
proof -
  have i: "i div m * m + i mod m = i" by simp
  have "i mod m < length (take m (drop (i div m * m) k))"
    using assms by (simp add: less_diff_conv add.commute [of "i mod m"])
  moreover have "i div m * m \<le> length k" using assms i by linarith
  ultimately show ?thesis using assms i by (simp add: level_bytes_def Let_def nth_append nth_drop)
qed

text \<open>When the depth of a layer is a whole number of bytes, the path of a key
  is its bytes: on every level within the key the index is below \<open>2 ^ depths\<close>,
  and two keys of the same length with the same indices on all levels are equal,
  so no two keys share all their leaves.\<close>

theorem key_path_injective:
  assumes "0 < m" and "m \<le> 8" and "length a = length b"
    and "\<And>l. l * m < length a \<Longrightarrow> index_at_level (8 * m) a l = index_at_level (8 * m) b l"
  shows "a = b \<and> (\<forall>l. l * m \<le> length a \<longrightarrow> (\<exists>i < 2 ^ (8 * m). index_at_level (8 * m) a l = Inr i))"
proof (intro conjI allI impI)
  show "a = b"
  proof (rule nth_equalityI [OF assms(3)])
    fix i assume i: "i < length a"
    have l: "i div m * m < length a" using i by (meson div_times_less_eq_dividend le_less_trans)
    from assms(4) [OF l] l have "nat_be (level_bytes m a (i div m)) = nat_be (level_bytes m b (i div m))"
      using assms(1-3) by (simp add: index_at_level_aligned)
    then have "level_bytes m a (i div m) = level_bytes m b (i div m)" by (simp add: nat_be_inject)
    then show "a ! i = b ! i" using i assms(1,3) by (metis level_bytes_nth)
  qed
next
  fix l assume "l * m \<le> length a"
  then have "index_at_level (8 * m) a l = Inr (nat_be (level_bytes m a l))"
    using assms(1,2) by (simp add: index_at_level_aligned)
  moreover have "nat_be (level_bytes m a l) < 2 ^ (8 * m)"
    using nat_be_bound [of "level_bytes m a l"] by (simp add: pow_256)
  ultimately show "\<exists>i < 2 ^ (8 * m). index_at_level (8 * m) a l = Inr i" by blast
qed

theorem key_path_injective_witness:
  "\<exists>i < 2 ^ 16. index_at_level 16 [1, 2] 1 = Inr i"
  using key_path_injective [of 2 "[1, 2]" "[1, 2]"] by (auto dest: spec [of _ "Suc 0"])

text \<open>With a depth of 12 bits the index of level 1 is the second byte of the
  key alone: the shift drops as many bits as it skips, so four of its bits are
  those level 0 already used, four bits of the key are never read there, and the
  index stays below 256 in a tree of 4096 leaves.\<close>

theorem key_index_depth_12:
  assumes "2 \<le> length k"
  shows "index_at_level 12 k 1 = Inr (unat (k ! 1))"
proof -
  let ?e = "take 16 (drop 1 k)"
  let ?e' = "?e @ replicate (16 - length ?e) 0"
  have mid: "key_mid k 12 12 = Inr (drop_bit 120 (from_be_bytes ?e'))"
    using assms by (auto simp: key_mid_def Let_def)
  have "take 1 ?e' = [k ! 1]"
    using assms by (cases k; cases "tl k") (auto simp: take_Suc_conv_app_nth)
  then have "unat (drop_bit (128 - 8 * 1) (from_be_bytes ?e' :: 128 word)) = nat_be [k ! 1]"
    by (subst top_bytes) (auto simp: min_def)
  then have v: "unat (drop_bit 120 (from_be_bytes ?e' :: 128 word)) = unat (k ! 1)" by (simp add: nat_be_def)
  have "unat (k ! 1) < 2 ^ 8" using unat_bound [of "k ! 1"] by simp
  then have "unat (ucast (drop_bit 120 (from_be_bytes ?e' :: 128 word)) :: u64) = unat (k ! 1)"
    unfolding unsigned_ucast_eq v by (simp add: take_bit_nat_eq_self)
  then show ?thesis by (simp add: index_at_level_def mid del: One_nat_def)
qed

theorem key_index_depth_12_witness:
  "index_at_level 12 [17, 34, 51] 1 = Inr 34"
  using key_index_depth_12 [of "[17, 34, 51]"] by simp

end
