(* ===== verification/VersionTree.thy ===== *)
theory VersionTree
  imports AmtProofs LvmtKey
begin

unbundle bit_operations_syntax

text \<open>
  The multi-layer version tree, \<open>multi_layer_amt/tree.rs\<close>: a forest of
  authenticated multipoint trees, one layer per depth, in which a key is given
  one of the five version slots of a leaf on its path.  The layers are
  association lists from paths to trees; \<open>get_tree_mut\<close> creates a tree on
  demand and marks its ancestors, and every caller reads and writes the tree
  at its place in the forest.
\<close>

definition node_data_ty :: "(nat, Node) access_ty" where
  "node_data_ty = \<lparr>v_read = read_Node, v_write = write_Node, v_default = Node_default,
                   l_position = FlattenArray_position\<rparr>"

text \<open>The configuration \<open>AMTConfig\<close> of \<open>multi_layer_amt/mod.rs\<close>.\<close>

definition lvmt_config :: "nat \<Rightarrow> 'g curve_bytes \<Rightarrow> FrInt \<Rightarrow> FrInt \<Rightarrow> (TreeName, Node, 'g) AMTConfig" where
  "lvmt_config depths B R M = \<lparr>DEPTHS = depths, name_write = write_TreeName, data_ty = node_data_ty,
     as_fr_int = Node_as_fr_int, curve = B, fr_R = R, fr_modulus = M\<rparr>"

type_synonym 'g Tree = "(TreeName, Node, 'g) AMTree"
type_synonym 'g Config = "(TreeName, Node, 'g) AMTConfig"

record 'g TreeWithInfo =
  twi_tree :: "'g Tree"
  mark_in_parent :: bool
  children_marks :: "u32 list"

type_synonym 'g TreesLayer = "(u32 list \<times> 'g TreeWithInfo) list"

record 'g VersionTree =
  forest :: "'g TreesLayer list"
  vt_col :: nat
  shard_node :: "NodeIndex option"

definition ROOT_KEY :: bytes where "ROOT_KEY = [0, 0]"

definition TreeProducer_new_tree ::
  "'g Config \<Rightarrow> nat \<Rightarrow> NodeIndex option \<Rightarrow> TreeName \<Rightarrow> 'g Tree result" where
  "TreeProducer_new_tree C col shard nm =
     (case shard of
        None \<Rightarrow> Inr (AMTree_new C nm col None)
      | Some s \<Rightarrow>
          if length (name_path nm) = 0 then Inr (AMTree_new C nm col (Some s))
          else and_then (NodeIndex_leaf (DEPTHS C) (unat (hd (name_path nm)))) (\<lambda>root_tree_leaf.
               and_then (needs_maintain (DEPTHS C) root_tree_leaf s) (\<lambda>b.
                 Inr (AMTree_new C nm col (if b then Some NodeIndex_root else None)))))"

definition VersionTree_new ::
  "'s kvdb_ops \<Rightarrow> 'g::ab_group_add Config \<Rightarrow> 's world \<Rightarrow> nat \<Rightarrow> NodeIndex option \<Rightarrow> 'g VersionTree result" where
  "VersionTree_new D C w col shard =
     and_then (case DBColumn_get D (store w) col ROOT_KEY of
                 None \<Rightarrow> Inr 0
               | Some x \<Rightarrow> unwrap_result (from_bytes_local (read_G1 (curve C)) x)) (\<lambda>root.
     and_then (TreeProducer_new_tree C col shard TreeName_root) (\<lambda>t.
       Inr \<lparr>forest = [[([], \<lparr>twi_tree = set_commitment t root, mark_in_parent = True, children_marks = []\<rparr>)]],
            vt_col = col, shard_node = shard\<rparr>))"

section \<open>Access to the forest\<close>

definition find_tree :: "'g TreesLayer list \<Rightarrow> u32 list \<Rightarrow> 'g TreeWithInfo result" where
  "find_tree f path =
     (if length path < length f
      then unwrap_option (map_of (f ! length path) path)
      else Inl (Panic ''index out of bounds''))"

definition put_tree :: "'g TreesLayer list \<Rightarrow> u32 list \<Rightarrow> 'g TreeWithInfo \<Rightarrow> 'g TreesLayer list" where
  "put_tree f path i = f[length path := AList.update path i (f ! length path)]"

text \<open>\<open>layer.entry(name).or_insert_with(|| new_tree(name))\<close>.\<close>

definition ensure_tree ::
  "'g Config \<Rightarrow> nat \<Rightarrow> NodeIndex option \<Rightarrow> 'g TreesLayer list \<Rightarrow> u32 list \<Rightarrow> 'g TreesLayer list result" where
  "ensure_tree C col shard f path =
     (case map_of (f ! length path) path of
        Some i \<Rightarrow> Inr f
      | None \<Rightarrow> and_then (TreeProducer_new_tree C col shard (TreeName path)) (\<lambda>t.
          Inr (put_tree f path \<lparr>twi_tree = t, mark_in_parent = False, children_marks = []\<rparr>)))"

text \<open>The loop over the ancestors, from the parent of level \<open>l\<close> upwards.\<close>

fun mark_ancestors ::
  "'s kvdb_ops \<Rightarrow> 'g::ab_group_add Config \<Rightarrow> 's world \<Rightarrow> nat \<Rightarrow> NodeIndex option \<Rightarrow> u32 list \<Rightarrow> nat \<Rightarrow>
   'g TreesLayer list \<Rightarrow> 'g TreesLayer list result" where
  "mark_ancestors D C w col shard path 0 f = Inr f"
| "mark_ancestors D C w col shard path (Suc l) f =
     (let anc = take l path; sub_index = path ! l in
      and_then (ensure_tree C col shard f anc) (\<lambda>f1.
      and_then (find_tree f1 anc) (\<lambda>info.
      and_then (subtree_root D C w (twi_tree info) (unat sub_index)) (\<lambda>(root, t).
        let f2 = put_tree f1 anc (info\<lparr>twi_tree := t, mark_in_parent := True,
                   children_marks := List.insert sub_index (children_marks info)\<rparr>) in
        and_then (find_tree f2 (take (Suc l) path)) (\<lambda>last_tree.
          let f3 = put_tree f2 (take (Suc l) path)
                     (last_tree\<lparr>twi_tree := set_commitment (twi_tree last_tree) root\<rparr>)
          in if mark_in_parent info then Inr f3
             else mark_ancestors D C w col shard path l f3)))))"

definition get_tree_mut ::
  "'s kvdb_ops \<Rightarrow> 'g::ab_group_add Config \<Rightarrow> 's world \<Rightarrow> 'g VersionTree \<Rightarrow> TreeName \<Rightarrow> 'g VersionTree result" where
  "get_tree_mut D C w vt nm =
     (let path = name_path nm;
          lvl = length path;
          f0 = forest vt @ replicate (lvl + 1 - length (forest vt)) []
      in and_then (ensure_tree C (vt_col vt) (shard_node vt) f0 path) (\<lambda>f1.
         and_then (find_tree f1 path) (\<lambda>info.
           if mark_in_parent info then Inr (vt\<lparr>forest := f1\<rparr>)
           else and_then (mark_ancestors D C w (vt_col vt) (shard_node vt) path lvl
                  (put_tree f1 path (info\<lparr>mark_in_parent := True\<rparr>))) (\<lambda>f2.
                  Inr (vt\<lparr>forest := f2\<rparr>)))))"

text \<open>What a caller does with the tree \<open>get_tree_mut\<close> lends it.\<close>

definition on_tree ::
  "'g VersionTree \<Rightarrow> TreeName \<Rightarrow> ('g Tree \<Rightarrow> ('x \<times> 'g Tree) result) \<Rightarrow> ('x \<times> 'g VersionTree) result" where
  "on_tree vt nm g =
     and_then (find_tree (forest vt) (name_path nm)) (\<lambda>info.
     and_then (g (twi_tree info)) (\<lambda>(x, t).
       Inr (x, vt\<lparr>forest := put_tree (forest vt) (name_path nm) (info\<lparr>twi_tree := t\<rparr>)\<rparr>)))"

section \<open>Versions of keys\<close>

text \<open>Opening the guard on a leaf, editing the leaf and dropping the guard.\<close>

definition edit_leaf ::
  "'s kvdb_ops \<Rightarrow> 'g::ab_group_add Config \<Rightarrow> 's world \<Rightarrow> ('g, 'h) AMTParams \<Rightarrow> nat \<Rightarrow>
   (Node \<Rightarrow> ('x \<times> Node) result) \<Rightarrow> 'g Tree \<Rightarrow> (('x \<times> ('g, 'h) AMTParams) \<times> 'g Tree) result" where
  "edit_leaf D C w pp index edit t =
     and_then (write_versions D C w t index) (\<lambda>(g, t1).
     and_then (edit (guard_value g)) (\<lambda>(x, n).
     and_then (guard_drop D C w pp t1 (g\<lparr>guard_value := n\<rparr>)) (\<lambda>(t2, pp2).
       Inr ((x, pp2), t2))))"

definition push_version :: "Node \<Rightarrow> (nat \<times> Node) result" where
  "push_version n = Inr (length (key_versions n), n\<lparr>key_versions := key_versions n @ [0]\<rparr>)"

definition inc_version :: "nat \<Rightarrow> Node \<Rightarrow> (unit \<times> Node) result" where
  "inc_version slot n =
     (if slot < length (key_versions n)
      then Inr ((), n\<lparr>key_versions := (key_versions n)[slot := key_versions n ! slot + 1]\<rparr>)
      else Inl (Panic ''index out of bounds''))"

fun allocate_from ::
  "'s kvdb_ops \<Rightarrow> 'g::ab_group_add Config \<Rightarrow> 's world \<Rightarrow> Key \<Rightarrow> nat list \<Rightarrow>
   ('g, 'h) AMTParams \<Rightarrow> 'g VersionTree \<Rightarrow> (VerInfo \<times> ('g, 'h) AMTParams \<times> 'g VersionTree) result" where
  "allocate_from D C w key [] pp vt = Inl (Panic ''Exceed maximum support level'')"
| "allocate_from D C w key (lvl # lvls) pp vt =
     and_then (tree_at_level (DEPTHS C) key lvl) (\<lambda>nm.
     and_then (get_tree_mut D C w vt nm) (\<lambda>vt1.
     and_then (index_at_level (DEPTHS C) key lvl) (\<lambda>node_index.
     and_then (on_tree vt1 nm (\<lambda>t. AMTree_get D C w t node_index)) (\<lambda>(leaf, vt2).
       if length (key_versions leaf) < 5
       then and_then (on_tree vt2 nm (edit_leaf D C w pp node_index push_version)) (\<lambda>((slot, pp3), vt3).
              Inr (\<lparr>version = 0, level = word_of_nat lvl, slot_index = word_of_nat slot\<rparr>, pp3, vt3))
       else allocate_from D C w key lvls pp vt2))))"

definition allocate_vacant_slot ::
  "'s kvdb_ops \<Rightarrow> 'g::ab_group_add Config \<Rightarrow> 's world \<Rightarrow> Key \<Rightarrow>
   ('g, 'h) AMTParams \<Rightarrow> 'g VersionTree \<Rightarrow> (VerInfo \<times> ('g, 'h) AMTParams \<times> 'g VersionTree) result" where
  "allocate_vacant_slot D C w key = allocate_from D C w key [0..<32]"

definition in_proof_shard :: "'g Config \<Rightarrow> NodeIndex option \<Rightarrow> Key \<Rightarrow> bool result" where
  "in_proof_shard C shard key =
     (case shard of
        None \<Rightarrow> Inr False
      | Some s \<Rightarrow> and_then (index_at_level (DEPTHS C) key 0) (\<lambda>i.
                  and_then (NodeIndex_leaf (DEPTHS C) i) (\<lambda>leaf. needs_maintain (DEPTHS C) leaf s)))"

definition inc_key_ver ::
  "'s kvdb_ops \<Rightarrow> 'g::ab_group_add Config \<Rightarrow> 's world \<Rightarrow> Key \<Rightarrow> VerInfo option \<Rightarrow>
   ('g, 'h) AMTParams \<Rightarrow> 'g VersionTree \<Rightarrow> (VerInfo \<times> ('g, 'h) AMTParams \<times> 'g VersionTree) result" where
  "inc_key_ver D C w key ver pp vt =
     and_then (case ver of None \<Rightarrow> allocate_vacant_slot D C w key pp vt | Some v \<Rightarrow> Inr (v, pp, vt)) (\<lambda>(v, pp1, vt1).
     and_then (tree_at_level (DEPTHS C) key (unat (level v))) (\<lambda>nm.
     and_then (get_tree_mut D C w vt1 nm) (\<lambda>vt2.
     and_then (index_at_level (DEPTHS C) key (unat (level v))) (\<lambda>node.
     and_then (in_proof_shard C (shard_node vt) key) (\<lambda>keep.
     and_then (if \<not> keep
         then on_tree vt2 nm (\<lambda>t. and_then
                (AMTree_update D C w pp1 t node (fr_int_pow_2 ((unat (slot_index v) + 1) * 40)))
                (\<lambda>(t', pp'). Inr (((), pp'), t')))
         else on_tree vt2 nm (edit_leaf D C w pp1 node (inc_version (unat (slot_index v))))) (\<lambda>((u, pp3), vt3).
     and_then (ensure (version v < MAX_VERSION_NUMBER) ''assertion failed: version < MAX_VERSION_NUMBER'') (\<lambda>_.
       Inr (v\<lparr>version := version v + 1\<rparr>, pp3, vt3))))))))"

section \<open>Committing\<close>

record 'g SubTreeRootRecorder =
  rec_versions :: "(TreeName \<times> u64) list"
  rec_commitments :: "'g list"

definition recorder_new :: "'g SubTreeRootRecorder" where
  "recorder_new = \<lparr>rec_versions = [], rec_commitments = []\<rparr>"

definition recorder_push :: "TreeName \<Rightarrow> u64 \<Rightarrow> 'g \<Rightarrow> 'g SubTreeRootRecorder \<Rightarrow> 'g SubTreeRootRecorder" where
  "recorder_push nm v c r = r\<lparr>rec_commitments := rec_commitments r @ [c], rec_versions := rec_versions r @ [(nm, v)]\<rparr>"

definition recorder_len :: "'g SubTreeRootRecorder \<Rightarrow> nat" where
  "recorder_len r = length (rec_versions r)"

text \<open>\<open>SubTreeRootRecorderIter\<close>: the two queues popped together.\<close>

fun recorder_iter :: "(TreeName \<times> u64) list \<Rightarrow> 'g list \<Rightarrow> (TreeName \<times> u64 \<times> 'g) list result" where
  "recorder_iter [] cs = Inr []"
| "recorder_iter ((nm, v) # vs) [] = unwrap_option None"
| "recorder_iter ((nm, v) # vs) (c # cs) = and_then (recorder_iter vs cs) (\<lambda>xs. Inr ((nm, v, c) # xs))"

record ('s, 'g, 'h) commit_state =
  cs_world :: "'s world"
  cs_pp :: "('g, 'h) AMTParams"
  cs_forest :: "'g TreesLayer list"
  cs_updates :: "'g SubTreeRootRecorder"

text \<open>What a parent does for one dirty child.\<close>

definition record_child ::
  "'s kvdb_ops \<Rightarrow> 'g::ab_group_add Config \<Rightarrow> u64 \<Rightarrow> u64 \<Rightarrow> TreeName \<Rightarrow> u32 \<Rightarrow> 'g \<Rightarrow>
   ('s, 'g, 'h) commit_state \<Rightarrow> ('s, 'g, 'h) commit_state result" where
  "record_child D C epoch start_pos nm index comm s =
     and_then (find_tree (cs_forest s) (name_path nm)) (\<lambda>info.
     and_then (subtree_root_mut D C (cs_world s) (twi_tree info) (unat index) (\<lambda>_. comm)) (\<lambda>t1.
     and_then (edit_leaf D C (cs_world s) (cs_pp s) (unat index) (\<lambda>n.
         let v = tree_version n + 1 in
         Inr (v, n\<lparr>tree_version := v, tree_position :=
           \<lparr>ep_epoch = epoch, ep_position = start_pos + word_of_nat (recorder_len (cs_updates s))\<rparr>\<rparr>)) t1)
       (\<lambda>((v, pp), t2).
         Inr (s\<lparr>cs_pp := pp,
                cs_forest := put_tree (cs_forest s) (name_path nm) (info\<lparr>twi_tree := t2\<rparr>),
                cs_updates := recorder_push (child nm index) v comm (cs_updates s)\<rparr>))))"

text \<open>\<open>layers\<close> is the number of layers left below and including this one; no
  layer left is the panic of \<open>split_first_mut().unwrap()\<close>.\<close>

primrec commit_tree ::
  "nat \<Rightarrow> 's kvdb_ops \<Rightarrow> 'g::ab_group_add Config \<Rightarrow> u64 \<Rightarrow> u64 \<Rightarrow> TreeName \<Rightarrow>
   ('s, 'g, 'h) commit_state \<Rightarrow> ((bool \<times> 'g) \<times> ('s, 'g, 'h) commit_state) result" where
  "commit_tree 0 D C epoch start_pos nm s = unwrap_option None"
| "commit_tree (Suc layers) D C epoch start_pos nm s =
     and_then (find_tree (cs_forest s) (name_path nm)) (\<lambda>info0.
     and_then (fold_res (\<lambda>index s1.
         and_then (commit_tree layers D C epoch start_pos (child nm index) s1) (\<lambda>((dirty, comm), s2).
           if dirty then record_child D C epoch start_pos nm index comm s2 else Inr s2))
       (sort (children_marks info0)) s) (\<lambda>s3.
     and_then (find_tree (cs_forest s3) (name_path nm)) (\<lambda>info.
       let t = twi_tree info; dirty = tree_dirty t in
       and_then (if 0 < length (name_path nm) then AMTree_flush D C (cs_world s3) t
                 else and_then (AMTree_commitment t) (\<lambda>c. Inr (c, cs_world s3, t))) (\<lambda>(c, w', t').
         Inr ((dirty, c), s3\<lparr>cs_world := w',
           cs_forest := put_tree (cs_forest s3) (name_path nm)
             (info\<lparr>twi_tree := t', mark_in_parent := False, children_marks := []\<rparr>)\<rparr>)))))"

definition VersionTree_commit ::
  "'s kvdb_ops \<Rightarrow> 'g::ab_group_add Config \<Rightarrow> u64 \<Rightarrow> u64 \<Rightarrow> 's world \<Rightarrow> ('g, 'h) AMTParams \<Rightarrow> 'g VersionTree \<Rightarrow>
   ('g \<times> 'g SubTreeRootRecorder \<times> 's world \<times> ('g, 'h) AMTParams \<times> 'g VersionTree) result" where
  "VersionTree_commit D C epoch start_pos w pp vt =
     and_then (commit_tree (length (forest vt)) D C epoch start_pos TreeName_root
       \<lparr>cs_world = w, cs_pp = pp, cs_forest = forest vt, cs_updates = recorder_new\<rparr>) (\<lambda>((dirty, c), s).
       Inr (c, cs_updates s, cs_world s, cs_pp s, vt\<lparr>forest := cs_forest s\<rparr>))"

definition VersionTree_flush_all ::
  "'s kvdb_ops \<Rightarrow> 'g::ab_group_add Config \<Rightarrow> 's world \<Rightarrow> 'g VersionTree \<Rightarrow> ('s world \<times> 'g VersionTree) result" where
  "VersionTree_flush_all D C w vt =
     and_then (get_tree_mut D C w vt TreeName_root) (\<lambda>vt1.
     and_then (on_tree vt1 TreeName_root (\<lambda>t. and_then (AMTree_flush D C w t) (\<lambda>(c, w', t'). Inr ((c, w'), t'))))
       (\<lambda>((c, w1), vt2).
         Inr (w1\<lparr>store := DBColumn_write_buffered D (store w1) (vt_col vt)
                [Insert 0 ROOT_KEY (to_bytes_local (write_G1 (curve C)) c)]\<rparr>, vt2)))"

end
