(* ===== verification/Merkle.thy ===== *)
theory Merkle
  imports DbAccess
begin

unbundle bit_operations_syntax

text \<open>
  The static Merkle tree of lvmt-db (\<open>merkle/mod.rs\<close>) that commits to the
  list of key-value hashes of one epoch.  The hash function keccak is a
  parameter (\<open>KECCAK_EMPTY\<close> is its value on the empty string).  Nodes live in
  the store under the epoch number, the node of level \<open>l\<close> and index \<open>i\<close> at
  position \<open>2 ^ l + i\<close>, the depth at position 0.
\<close>

type_synonym MerkleProof = "h256 list \<times> nat"

definition combine_hash :: "(bytes \<Rightarrow> h256) \<Rightarrow> h256 \<Rightarrow> h256 \<Rightarrow> h256" where
  "combine_hash keccak a b = keccak (to_be_bytes 32 a @ to_be_bytes 32 b)"

definition merkle_ty :: "(nat, h256) access_ty" where
  "merkle_ty = \<lparr>v_read = read_h256, v_write = write_h256, v_default = 0,
                l_position = FlattenArray_position\<rparr>"

record StaticMerkleTree =
  merkle_data :: "(nat, h256) DBAccess"
  merkle_root :: h256
  merkle_depth :: nat

text \<open>\<open>depth\<close> is a \<open>u32\<close>: the low 64 bits of the stored word, cut to 32.\<close>

definition StaticMerkleTree_new ::
  "'s kvdb_ops \<Rightarrow> 's world \<Rightarrow> nat \<Rightarrow> u64 \<Rightarrow> StaticMerkleTree result" where
  "StaticMerkleTree_new D w col epoch =
     and_then (DBAccess_get D merkle_ty w (DBAccess_new (to_be_bytes 8 epoch) col) 0) (\<lambda>(d, a1).
     and_then (DBAccess_get D merkle_ty w a1 1) (\<lambda>(r, a2).
       Inr \<lparr>merkle_data = a2, merkle_root = r, merkle_depth = unat (ucast (ucast d :: u64) :: u32)\<rparr>))"

text \<open>The loop of \<open>prove\<close> from the deepest level up; \<open>d\<close> is the loop variable.\<close>

fun prove_levels ::
  "(bytes \<Rightarrow> h256) \<Rightarrow> 's kvdb_ops \<Rightarrow> 's world \<Rightarrow> nat \<Rightarrow> nat \<Rightarrow> (nat, h256) DBAccess \<Rightarrow> nat \<Rightarrow>
   (h256 list \<times> (nat, h256) DBAccess) result" where
  "prove_levels keccak D w top_d position a 0 = Inr ([], a)"
| "prove_levels keccak D w top_d position a (Suc d) =
     (let height = top_d - Suc d;
          index = (2 ^ Suc d) OR (drop_bit height position XOR 1)
      in and_then (DBAccess_get D merkle_ty w a index) (\<lambda>(h, a').
         let answer = (if h = 0 then keccak [] else h)
         in and_then (prove_levels keccak D w top_d position a' d)
              (\<lambda>(hs, a''). Inr (answer # hs, a''))))"

definition merkle_prove ::
  "(bytes \<Rightarrow> h256) \<Rightarrow> 's kvdb_ops \<Rightarrow> 's world \<Rightarrow> StaticMerkleTree \<Rightarrow> nat \<Rightarrow>
   (MerkleProof \<times> StaticMerkleTree) result" where
  "merkle_prove keccak D w t position =
     and_then (prove_levels keccak D w (merkle_depth t) position (merkle_data t) (merkle_depth t))
       (\<lambda>(hs, a). Inr ((hs, position), t\<lparr>merkle_data := a\<rparr>))"

text \<open>The loop of \<open>verify\<close>; the shift by \<open>index\<close> is masked to the width of \<open>u64\<close>.\<close>

fun merkle_climb :: "(bytes \<Rightarrow> h256) \<Rightarrow> nat \<Rightarrow> nat \<Rightarrow> h256 \<Rightarrow> h256 list \<Rightarrow> h256" where
  "merkle_climb keccak pos index h [] = h"
| "merkle_climb keccak pos index h (p # ps) =
     merkle_climb keccak pos (Suc index)
       (if drop_bit (index mod 64) pos mod 2 = 0 then combine_hash keccak h p else combine_hash keccak p h) ps"

definition merkle_verify :: "(bytes \<Rightarrow> h256) \<Rightarrow> h256 \<Rightarrow> h256 \<Rightarrow> MerkleProof \<Rightarrow> bool" where
  "merkle_verify keccak r h proof' = (case proof' of (path, pos) \<Rightarrow> merkle_climb keccak pos 0 h path = r)"

text \<open>\<open>length.next_power_of_two().trailing_zeros()\<close>.\<close>

fun clog2 :: "nat \<Rightarrow> nat" where
  "clog2 n = (if n \<le> 1 then 0 else Suc (clog2 ((n + 1) div 2)))"

declare clog2.simps [simp del]

text \<open>Padding a level of odd length and combining its chunks of two.\<close>

fun next_level :: "(bytes \<Rightarrow> h256) \<Rightarrow> h256 list \<Rightarrow> h256 list" where
  "next_level keccak [] = []"
| "next_level keccak [x] = [combine_hash keccak x (keccak [])]"
| "next_level keccak (x # y # r) = combine_hash keccak x y # next_level keccak r"

fun set_level :: "nat \<Rightarrow> nat \<Rightarrow> h256 list \<Rightarrow> (nat, h256) DBAccess \<Rightarrow> (nat, h256) DBAccess" where
  "set_level level i [] a = a"
| "set_level level i (h # hs) a = set_level level (Suc i) hs (DBAccess_set a (2 ^ level + i) h)"

fun dump_levels ::
  "(bytes \<Rightarrow> h256) \<Rightarrow> bool \<Rightarrow> nat \<Rightarrow> h256 list \<Rightarrow> (nat, h256) DBAccess \<Rightarrow> h256 \<times> (nat, h256) DBAccess" where
  "dump_levels keccak only_root 0 xs a =
     ((if xs = [] then 0 else last xs), if only_root then a else set_level 0 0 xs a)"
| "dump_levels keccak only_root (Suc l) xs a =
     dump_levels keccak only_root l (next_level keccak xs)
       (if only_root then a else set_level (Suc l) 0 xs a)"

definition merkle_dump ::
  "(bytes \<Rightarrow> h256) \<Rightarrow> 's kvdb_ops \<Rightarrow> 's world \<Rightarrow> nat \<Rightarrow> u64 \<Rightarrow> h256 list \<Rightarrow> bool \<Rightarrow> h256 \<times> 's world" where
  "merkle_dump keccak D w col epoch xs only_root =
     (let d = clog2 (length xs);
          (r, a) = dump_levels keccak only_root d xs (DBAccess_new (to_be_bytes 8 epoch) col);
          a' = DBAccess_set a 0 (word_of_nat d);
          (w', a'') = flush_cache D merkle_ty (w\<lparr>PUT_MODE := 3\<rparr>) a'
      in (r, w'))"

section \<open>Levels\<close>

definition level_at :: "(bytes \<Rightarrow> h256) \<Rightarrow> h256 list \<Rightarrow> nat \<Rightarrow> h256 list" where
  "level_at keccak xs k = (next_level keccak ^^ k) xs"

definition sibling :: "(bytes \<Rightarrow> h256) \<Rightarrow> h256 list \<Rightarrow> nat \<Rightarrow> h256" where
  "sibling keccak xs i = (let j = i XOR 1 in if j < length xs then xs ! j else keccak [])"

lemma xor_one_nat: "(i :: nat) XOR 1 = (if even i then i + 1 else i - 1)"
  by (simp add: xor_Suc_0_eq)

lemma length_next_level: "length (next_level keccak xs) = (length xs + 1) div 2"
  by (induction keccak xs rule: next_level.induct) auto

text \<open>The inputs of the hash function in one step of \<open>dump\<close>.\<close>

definition pair_bytes :: "h256 \<Rightarrow> h256 \<Rightarrow> bytes" where
  "pair_bytes a b = to_be_bytes 32 a @ to_be_bytes 32 b"

fun level_inputs :: "(bytes \<Rightarrow> h256) \<Rightarrow> h256 list \<Rightarrow> bytes list" where
  "level_inputs keccak [] = []"
| "level_inputs keccak [x] = [pair_bytes x (keccak [])]"
| "level_inputs keccak (x # y # r) = pair_bytes x y # level_inputs keccak r"

lemma next_level_inputs: "next_level keccak xs = map keccak (level_inputs keccak xs)"
  by (induction keccak xs rule: next_level.induct) (simp_all add: combine_hash_def pair_bytes_def)

lemma length_level_inputs: "length (level_inputs keccak xs) = (length xs + 1) div 2"
  using length_next_level [of keccak xs] by (simp add: next_level_inputs)

lemma level_inputs_nth:
  "i < length xs \<Longrightarrow> level_inputs keccak xs ! (i div 2) =
    (if even i then pair_bytes (xs ! i) (sibling keccak xs i) else pair_bytes (sibling keccak xs i) (xs ! i))"
proof (induction keccak xs arbitrary: i rule: level_inputs.induct)
  case (3 keccak x y r)
  consider "i = 0" | "i = 1" | j where "i = j + 2"
    by (metis One_nat_def add_2_eq_Suc' not0_implies_Suc)
  then show ?case
  proof cases
    case (3 j)
    have "(j + 2) XOR 1 = (j XOR 1) + 2" unfolding xor_one_nat by auto
    then have "sibling keccak (x # y # r) (j + 2) = sibling keccak r j" by (simp add: sibling_def Let_def)
    then show ?thesis using 3 "3.IH" [of j] "3.prems" by simp
  qed (simp_all add: sibling_def xor_one_nat)
qed (auto simp: sibling_def xor_one_nat)

lemma next_level_nth:
  assumes "i < length xs"
  shows "next_level keccak xs ! (i div 2) =
    (if even i then combine_hash keccak (xs ! i) (sibling keccak xs i)
     else combine_hash keccak (sibling keccak xs i) (xs ! i))"
proof -
  have "i div 2 < length (level_inputs keccak xs)" using assms by (simp add: length_level_inputs)
  then show ?thesis using level_inputs_nth [OF assms] by (simp add: next_level_inputs combine_hash_def pair_bytes_def)
qed

lemma level_at_Suc: "level_at keccak xs (Suc k) = next_level keccak (level_at keccak xs k)"
  by (simp add: level_at_def)

lemma level_at_next: "level_at keccak (next_level keccak xs) k = level_at keccak xs (Suc k)"
  by (simp add: level_at_def funpow_swap1)

lemma level_at_0 [simp]: "level_at keccak xs 0 = xs"
  by (simp add: level_at_def)

lemma clog2_bound: "n \<le> 2 ^ clog2 n"
proof (induction n rule: clog2.induct)
  case (1 n)
  then show ?case by (cases "n \<le> 1") (auto simp: clog2.simps [of n])
qed

lemma clog2_least: "n \<le> 2 ^ d \<Longrightarrow> clog2 n \<le> d"
proof (induction d arbitrary: n)
  case (Suc d)
  then have "clog2 ((n + 1) div 2) \<le> d" by (intro Suc.IH) simp
  then show ?case by (subst clog2.simps) simp
qed (simp add: clog2.simps)

lemma length_level_at_pos: "0 < length xs \<Longrightarrow> 0 < length (level_at keccak xs k)"
  by (induction k) (auto simp: level_at_Suc length_next_level)

lemma length_level_at_le: "length xs \<le> 2 ^ (d + k) \<Longrightarrow> length (level_at keccak xs k) \<le> 2 ^ d"
proof (induction k arbitrary: d)
  case (Suc k)
  have "length (level_at keccak xs k) \<le> 2 ^ Suc d" using Suc.prems by (intro Suc.IH) simp
  then show ?case by (simp add: level_at_Suc length_next_level)
qed simp

lemma level_at_nth_bound:
  "i < length xs \<Longrightarrow> i div 2 ^ k < length (level_at keccak xs k)"
proof (induction k)
  case (Suc k)
  have "i div 2 ^ Suc k = i div 2 ^ k div 2" by (metis div_mult2_eq power_Suc2)
  then show ?case using Suc by (simp add: level_at_Suc length_next_level)
qed simp

lemma top_level:
  assumes "0 < length xs"
  shows "length (level_at keccak xs (clog2 (length xs))) = 1"
  using length_level_at_le [of xs 0 "clog2 (length xs)" keccak] clog2_bound [of "length xs"]
    length_level_at_pos [OF assms, of keccak "clog2 (length xs)"] by (simp add: le_Suc_eq)

section \<open>Completeness of the pure path\<close>

definition path_of :: "(bytes \<Rightarrow> h256) \<Rightarrow> h256 list \<Rightarrow> nat \<Rightarrow> nat \<Rightarrow> nat \<Rightarrow> h256 list" where
  "path_of keccak xs pos k n = map (\<lambda>j. sibling keccak (level_at keccak xs j) (pos div 2 ^ j)) [k..<k + n]"

lemma climb_path:
  assumes "pos < length xs" "k + n \<le> 64"
  shows "merkle_climb keccak pos k (level_at keccak xs k ! (pos div 2 ^ k)) (path_of keccak xs pos k n) =
         level_at keccak xs (k + n) ! (pos div 2 ^ (k + n))"
  using assms(2)
proof (induction n arbitrary: k)
  case (Suc n)
  let ?s = "sibling keccak (level_at keccak xs k) (pos div 2 ^ k)"
  have p: "path_of keccak xs pos k (Suc n) = ?s # path_of keccak xs pos (Suc k) n"
    by (simp add: path_of_def upt_conv_Cons del: upt_Suc)
  have d: "pos div 2 ^ Suc k = pos div 2 ^ k div 2" by (metis div_mult2_eq power_Suc2)
  have "level_at keccak xs (Suc k) ! (pos div 2 ^ Suc k) =
      (if even (pos div 2 ^ k) then combine_hash keccak (level_at keccak xs k ! (pos div 2 ^ k)) ?s
       else combine_hash keccak ?s (level_at keccak xs k ! (pos div 2 ^ k)))"
    unfolding d level_at_Suc by (rule next_level_nth [OF level_at_nth_bound [OF assms(1)]])
  then have "merkle_climb keccak pos k (level_at keccak xs k ! (pos div 2 ^ k)) (path_of keccak xs pos k (Suc n)) =
    merkle_climb keccak pos (Suc k) (level_at keccak xs (Suc k) ! (pos div 2 ^ Suc k)) (path_of keccak xs pos (Suc k) n)"
    using Suc.prems by (simp add: p drop_bit_eq_div even_iff_mod_2_eq_zero)
  also have "\<dots> = level_at keccak xs (Suc k + n) ! (pos div 2 ^ (Suc k + n))"
    using Suc.prems by (intro Suc.IH) simp
  finally show ?case by simp
qed (simp add: path_of_def)

section \<open>Soundness\<close>

text \<open>The inputs hashed while \<open>verify\<close> climbs, and those hashed by \<open>dump\<close>.\<close>

fun climb_inputs :: "(bytes \<Rightarrow> h256) \<Rightarrow> nat \<Rightarrow> nat \<Rightarrow> h256 \<Rightarrow> h256 list \<Rightarrow> bytes set" where
  "climb_inputs keccak pos index h [] = {}"
| "climb_inputs keccak pos index h (p # ps) =
     (let x = (if drop_bit (index mod 64) pos mod 2 = 0 then pair_bytes h p else pair_bytes p h)
      in insert x (climb_inputs keccak pos (Suc index) (keccak x) ps))"

definition dump_inputs :: "(bytes \<Rightarrow> h256) \<Rightarrow> h256 list \<Rightarrow> bytes set" where
  "dump_inputs keccak xs = (\<Union>k < clog2 (length xs). set (level_inputs keccak (level_at keccak xs k)))"

lemma pair_bytes_inject [simp]: "pair_bytes a b = pair_bytes c d \<longleftrightarrow> a = c \<and> b = d"
  by (simp add: pair_bytes_def to_be_bytes_inject)

lemma climb_collision:
  assumes "pos < length xs" "k + length ps \<le> 64" "h \<noteq> level_at keccak xs k ! (pos div 2 ^ k)"
    and "merkle_climb keccak pos k h ps = level_at keccak xs (k + length ps) ! (pos div 2 ^ (k + length ps))"
  shows "\<exists>x y j. x \<in> climb_inputs keccak pos k h ps \<and> j < k + length ps \<and> y \<in> set (level_inputs keccak (level_at keccak xs j)) \<and>
    x \<noteq> y \<and> keccak x = keccak y"
  using assms(2-)
proof (induction ps arbitrary: k h)
  case (Cons p ps)
  let ?i = "pos div 2 ^ k" and ?l = "level_at keccak xs k"
  let ?s = "sibling keccak ?l ?i"
  define x where "x = (if even ?i then pair_bytes h p else pair_bytes p h)"
  define y where "y = (if even ?i then pair_bytes (?l ! ?i) ?s else pair_bytes ?s (?l ! ?i))"
  have b: "?i < length ?l" using level_at_nth_bound [OF assms(1)] .
  have c: "drop_bit (k mod 64) pos mod 2 = 0 \<longleftrightarrow> even ?i" using Cons.prems(1) by (simp add: drop_bit_eq_div even_iff_mod_2_eq_zero)
  have d: "pos div 2 ^ Suc k = ?i div 2" by (metis div_mult2_eq power_Suc2)
  have nb: "?i div 2 < length (level_inputs keccak ?l)" using b by (simp add: length_level_inputs)
  have y: "y = level_inputs keccak ?l ! (?i div 2)" using level_inputs_nth [OF b] by (simp add: y_def)
  have n: "level_at keccak xs (Suc k) ! (pos div 2 ^ Suc k) = keccak y"
    using nb y by (simp add: level_at_Suc next_level_inputs d del: power_Suc)
  have ci: "climb_inputs keccak pos k h (p # ps) = insert x (climb_inputs keccak pos (Suc k) (keccak x) ps)"
    by (simp add: c x_def Let_def)
  have st: "merkle_climb keccak pos k h (p # ps) = merkle_climb keccak pos (Suc k) (keccak x) ps"
    by (simp add: c x_def combine_hash_def pair_bytes_def)
  have ym: "y \<in> set (level_inputs keccak ?l)" using nb y by simp
  show ?case
  proof (cases "keccak x = keccak y")
    case True
    moreover have "x \<noteq> y" using Cons.prems(2) by (auto simp: x_def y_def)
    ultimately show ?thesis using ym ci by (intro exI [of _ x] exI [of _ y] exI [of _ k]) simp
  next
    case False
    have "\<exists>x' y' j. x' \<in> climb_inputs keccak pos (Suc k) (keccak x) ps \<and> j < Suc k + length ps \<and>
        y' \<in> set (level_inputs keccak (level_at keccak xs j)) \<and> x' \<noteq> y' \<and> keccak x' = keccak y'"
      using Cons.prems False st by (intro Cons.IH) (simp_all add: n del: power_Suc)
    then show ?thesis unfolding ci by auto
  qed
qed simp

section \<open>What dump stores\<close>

text \<open>The keys a level writes are at least its power of two, so the levels do
  not overwrite each other.\<close>

lemma set_level_view:
  "acc_view D T w (set_level level i hs a) k =
    (if 2 ^ level + i \<le> k \<and> k < 2 ^ level + i + length hs then Inr (hs ! (k - (2 ^ level + i)))
     else acc_view D T w a k)"
proof (induction hs arbitrary: i a)
  case (Cons h hs)
  then show ?case by (auto simp: DBAccess_set_view nth_Cons' Suc_diff_le)
qed auto

lemma set_level_ok: "cache_ok D T w a \<Longrightarrow> cache_ok D T w (set_level level i hs a)"
  by (induction hs arbitrary: i a) (auto intro: DBAccess_set_ok)

lemma set_level_fields [simp]:
  "acc_prefix (set_level level i hs a) = acc_prefix a"
  "acc_col (set_level level i hs a) = acc_col a"
  by (induction hs arbitrary: i a) auto

lemma set_level_keys:
  "fst ` set (acc_cache (set_level level i hs a)) \<subseteq> {..< 2 ^ level + i + length hs} \<union> fst ` set (acc_cache a)"
proof (induction hs arbitrary: i a)
  case (Cons h hs)
  then show ?case using Cons.IH [of "Suc i" "DBAccess_set a (2 ^ level + i) h"] by auto
qed simp

lemma dump_levels_view_above:
  assumes "length xs \<le> 2 ^ L" "2 ^ Suc L \<le> k \<or> k = 0"
  shows "acc_view D T w (snd (dump_levels keccak False L xs a)) k = acc_view D T w a k"
  using assms
proof (induction L arbitrary: xs a)
  case 0
  then show ?case by (auto simp: set_level_view)
next
  case (Suc L)
  have "length (next_level keccak xs) \<le> 2 ^ L" using Suc.prems by (simp add: length_next_level)
  moreover have "2 ^ Suc L \<le> k \<or> k = 0" using Suc.prems(2) by auto
  ultimately show ?case using Suc.IH Suc.prems by (auto simp: set_level_view)
qed

lemma dump_levels_view:
  assumes "length xs \<le> 2 ^ L" "l \<le> L" "i < 2 ^ l"
  shows "acc_view D T w (snd (dump_levels keccak False L xs a)) (2 ^ l + i) =
    (if i < length (level_at keccak xs (L - l)) then Inr (level_at keccak xs (L - l) ! i)
     else acc_view D T w a (2 ^ l + i))"
  using assms
proof (induction L arbitrary: xs a)
  case 0
  then show ?case by (auto simp: set_level_view)
next
  case (Suc L)
  have len: "length (next_level keccak xs) \<le> 2 ^ L" using Suc.prems by (simp add: length_next_level)
  show ?case
  proof (cases "l = Suc L")
    case True
    have "acc_view D T w (snd (dump_levels keccak False L (next_level keccak xs) (set_level (Suc L) 0 xs a))) (2 ^ l + i)
        = acc_view D T w (set_level (Suc L) 0 xs a) (2 ^ l + i)"
      using True by (intro dump_levels_view_above [OF len]) simp
    then show ?thesis using True by (simp add: set_level_view)
  next
    case False
    then have l: "l \<le> L" using Suc.prems by simp
    have "(2 :: nat) ^ l + i < 2 ^ Suc L"
    proof -
      have "(2 :: nat) ^ l + i < 2 ^ Suc l" using Suc.prems(3) by simp
      also have "\<dots> \<le> 2 ^ Suc L" using l by (intro power_increasing) auto
      finally show ?thesis .
    qed
    then have "acc_view D T w (set_level (Suc L) 0 xs a) (2 ^ l + i) = acc_view D T w a (2 ^ l + i)"
      by (simp add: set_level_view)
    then show ?thesis
      using Suc.IH [OF len l Suc.prems(3)] l by (simp add: level_at_next Suc_diff_le)
  qed
qed

lemma dump_levels_keeps:
  assumes "length xs \<le> 2 ^ L" "cache_ok D T w a" "fst ` set (acc_cache a) \<subseteq> {..< 2 ^ Suc N}" "L \<le> N"
  shows "cache_ok D T w (snd (dump_levels keccak b L xs a)) \<and>
    acc_prefix (snd (dump_levels keccak b L xs a)) = acc_prefix a \<and>
    acc_col (snd (dump_levels keccak b L xs a)) = acc_col a \<and>
    fst ` set (acc_cache (snd (dump_levels keccak b L xs a))) \<subseteq> {..< 2 ^ Suc N}"
  using assms
proof (induction L arbitrary: xs a)
  case 0
  have "(2::nat) ^ 1 \<le> 2 ^ Suc N" by (rule power_increasing) simp_all
  moreover have "length xs \<le> 1" using 0(1) by simp
  ultimately have "2 ^ 0 + 0 + length xs \<le> 2 ^ Suc N"
    by (simp only: power_0 power_one_right add_0_right)
  then have "{..< 2 ^ 0 + 0 + length xs} \<subseteq> {..< 2 ^ Suc N}" by (simp only: lessThan_subset_iff)
  then have "fst ` set (acc_cache (set_level 0 0 xs a)) \<subseteq> {..< 2 ^ Suc N}"
    using set_level_keys [of 0 0 xs a] 0(3) by (meson Un_least order_trans)
  then show ?case using 0 by (simp add: set_level_ok)
next
  case (Suc L)
  have len: "length (next_level keccak xs) \<le> 2 ^ L" using Suc.prems by (simp add: length_next_level)
  have "2 ^ Suc L + length xs \<le> (2::nat) ^ Suc (Suc L)" using Suc.prems(1) by simp
  also have "\<dots> \<le> 2 ^ Suc N" using Suc.prems(4) by (intro power_increasing) auto
  finally have "fst ` set (acc_cache (set_level (Suc L) 0 xs a)) \<subseteq> {..< 2 ^ Suc N}"
    using set_level_keys [of "Suc L" 0 xs a] Suc.prems(3) by force
  then show ?case
    using Suc.IH [OF len, of a] Suc.IH [OF len, of "set_level (Suc L) 0 xs a"] Suc.prems
    by (cases b) (simp_all add: set_level_ok)
qed

lemma dump_levels_root:
  assumes "0 < length xs" "length xs \<le> 2 ^ L"
  shows "fst (dump_levels keccak b L xs a) = level_at keccak xs L ! 0"
  using assms
proof (induction L arbitrary: xs a)
  case 0
  then obtain x where "xs = [x]" by (cases xs) auto
  then show ?case by simp
next
  case (Suc L)
  have "0 < length (next_level keccak xs)" "length (next_level keccak xs) \<le> 2 ^ L"
    using Suc.prems by (simp_all add: length_next_level)
  from Suc.IH [OF this] show ?case by (simp add: level_at_next)
qed

section \<open>The tree in the store\<close>

definition fresh_epoch :: "'s kvdb_ops \<Rightarrow> 's world \<Rightarrow> nat \<Rightarrow> u64 \<Rightarrow> bool" where
  "fresh_epoch D w col epoch \<longleftrightarrow> (\<forall>k. kv_get D (store w) col (compute_key merkle_ty (to_be_bytes 8 epoch) k) = None)"

definition stored_tree ::
  "(bytes \<Rightarrow> h256) \<Rightarrow> 's kvdb_ops \<Rightarrow> 's world \<Rightarrow> (nat, h256) DBAccess \<Rightarrow> h256 list \<Rightarrow> bool" where
  "stored_tree keccak D w a xs \<longleftrightarrow> (let d = clog2 (length xs) in
     acc_view D merkle_ty w a 0 = Inr (word_of_nat d) \<and>
     (\<forall>l i. l \<le> d \<longrightarrow> i < 2 ^ l \<longrightarrow> acc_view D merkle_ty w a (2 ^ l + i) =
        Inr (if i < length (level_at keccak xs (d - l)) then level_at keccak xs (d - l) ! i else 0)))"

text \<open>No node of the tree is the zero word, which \<open>prove\<close> takes for absent.\<close>

definition no_zero_node :: "(bytes \<Rightarrow> h256) \<Rightarrow> h256 list \<Rightarrow> bool" where
  "no_zero_node keccak xs \<longleftrightarrow> (\<forall>k \<le> clog2 (length xs). 0 \<notin> set (level_at keccak xs k))"

definition merkle_positions :: "nat set" where
  "merkle_positions = {..< 2 ^ 32}"

locale merkle_store = kvdb D inv cols
  for D :: "'s kvdb_ops" and inv and cols +
  fixes keccak :: "bytes \<Rightarrow> h256"

sublocale merkle_store \<subseteq> acc: dbaccess D inv cols merkle_ty "\<lambda>_. True" merkle_positions
proof
  show "v_read merkle_ty ty (v_write merkle_ty ty x @ rest) = Inr (x, rest)" for x ty rest
    by (simp add: merkle_ty_def codec_simps)
  show "inj_on (\<lambda>k. word_of_nat (l_position merkle_ty k) :: u32) merkle_positions"
    by (rule inj_onI) (simp add: merkle_positions_def FlattenArray_position_def merkle_ty_def word_of_nat_inject)
qed

context merkle_store
begin

lemma dump_stored:
  assumes inv: "inv (store w)" and col: "col < cols" and fresh: "fresh_epoch D w col epoch"
    and len: "0 < length xs" "length xs \<le> 2 ^ 31"
    and dump: "merkle_dump keccak D w col epoch xs False = (r, w')"
  shows "stored_tree keccak D w' (DBAccess_new (to_be_bytes 8 epoch) col) xs"
    and "r = level_at keccak xs (clog2 (length xs)) ! 0" and "inv (store w')"
proof -
  define d where "d = clog2 (length xs)"
  define a0 :: "(nat, h256) DBAccess" where "a0 = DBAccess_new (to_be_bytes 8 epoch) col"
  define w3 where "w3 = w\<lparr>PUT_MODE := 3\<rparr>"
  define a1 where "a1 = snd (dump_levels keccak False d xs a0)"
  define a2 where "a2 = DBAccess_set a1 0 (word_of_nat d)"
  have d31: "d \<le> 31" unfolding d_def using len(2) by (rule clog2_least)
  have dl: "length xs \<le> 2 ^ d" unfolding d_def by (rule clog2_bound)
  have view0: "acc_view D merkle_ty w3 a0 k = Inr 0" for k
    using fresh by (simp add: acc_view_def a0_def DBAccess_new_def load_value_def DBColumn_get_def w3_def
        fresh_epoch_def merkle_ty_def)
  have k1: "cache_ok D merkle_ty w3 a1 \<and> acc_prefix a1 = acc_prefix a0 \<and> acc_col a1 = acc_col a0 \<and>
      fst ` set (acc_cache a1) \<subseteq> {..< 2 ^ Suc 31}"
    unfolding a1_def
    by (rule dump_levels_keeps [OF dl _ _ d31]) (simp_all add: a0_def DBAccess_new_def cache_ok_def)
  have view2: "acc_view D merkle_ty w3 a2 = (acc_view D merkle_ty w3 a1)(0 := Inr (word_of_nat d))"
    by (simp add: a2_def DBAccess_set_view)
  obtain a3 where f: "flush_cache D merkle_ty w3 a2 = (w', a3)" and r: "r = fst (dump_levels keccak False d xs a0)"
    using dump by (auto simp: merkle_dump_def Let_def d_def [symmetric] a0_def [symmetric] w3_def [symmetric]
        a1_def a2_def split: prod.splits)
  have a3: "a3 = a0" using f k1 by (auto simp: flush_cache_def Let_def a2_def DBAccess_set_def a0_def DBAccess_new_def)
  have ok: "acc.access_ok w3 a2"
    unfolding acc.access_ok_def
  proof (intro conjI)
    show "inv (store w3)" using inv by (simp add: w3_def)
    show "acc_col a2 < cols" using k1 col by (simp add: a2_def a0_def DBAccess_new_def)
    show "cache_ok D merkle_ty w3 a2" using k1 by (simp add: a2_def DBAccess_set_ok)
    show "fst ` set (acc_cache a2) \<subseteq> merkle_positions"
      using k1 by (simp add: a2_def merkle_positions_def)
  qed auto
  show "inv (store w')" by (rule acc.flush_contents(2) [OF ok f])
  show "r = level_at keccak xs (clog2 (length xs)) ! 0"
    unfolding r d_def [symmetric] by (rule dump_levels_root [OF len(1) dl])
  have v: "acc_view D merkle_ty w' a0 k = acc_view D merkle_ty w3 a2 k" if "k < 2 ^ 32" for k
    using acc.flush_view [OF ok f, of k] that by (simp add: a3 merkle_positions_def)
  have node: "acc_view D merkle_ty w' a0 (2 ^ l + i) =
      Inr (if i < length (level_at keccak xs (d - l)) then level_at keccak xs (d - l) ! i else 0)"
    if "l \<le> d" "i < 2 ^ l" for l i
  proof -
    have "2 ^ l + i < 2 ^ Suc l" using that by simp
    also have "(2::nat) ^ Suc l \<le> 2 ^ 32" using that d31 by (intro power_increasing) auto
    finally have "acc_view D merkle_ty w' a0 (2 ^ l + i) = acc_view D merkle_ty w3 a1 (2 ^ l + i)"
      by (simp add: v view2)
    then show ?thesis unfolding a1_def by (simp add: dump_levels_view [OF dl that] view0)
  qed
  then show "stored_tree keccak D w' (DBAccess_new (to_be_bytes 8 epoch) col) xs"
    by (simp add: stored_tree_def d_def [symmetric] a0_def [symmetric] v view2 del: One_nat_def)
qed

lemma stored_depth: "d \<le> 31 \<Longrightarrow> unat (ucast (ucast (word_of_nat d :: h256) :: u64) :: u32) = d"
  by (simp add: unsigned_ucast_eq unsigned_of_nat take_bit_nat_eq_self)

lemma stored_tree_node:
  assumes "stored_tree keccak D w a xs" "l \<le> clog2 (length xs)" "i < 2 ^ l"
  shows "acc_view D merkle_ty w a (2 ^ l + i) =
    Inr (if i < length (level_at keccak xs (clog2 (length xs) - l))
         then level_at keccak xs (clog2 (length xs) - l) ! i else 0)"
  using assms unfolding stored_tree_def Let_def by blast

lemma new_ok:
  assumes st: "stored_tree keccak D w (DBAccess_new (to_be_bytes 8 epoch) col) xs"
    and len: "0 < length xs" "length xs \<le> 2 ^ 31"
  obtains t where "StaticMerkleTree_new D w col epoch = Inr t"
    "merkle_root t = level_at keccak xs (clog2 (length xs)) ! 0" "merkle_depth t = clog2 (length xs)"
    "stored_tree keccak D w (merkle_data t) xs" "cache_ok D merkle_ty w (merkle_data t)"
proof -
  define a0 :: "(nat, h256) DBAccess" where "a0 = DBAccess_new (to_be_bytes 8 epoch) col"
  let ?d = "clog2 (length xs)"
  have v0: "acc_view D merkle_ty w a0 0 = Inr (word_of_nat ?d)"
    using st by (simp add: stored_tree_def Let_def a0_def)
  have "acc_view D merkle_ty w a0 (2 ^ 0 + 0) =
      Inr (if 0 < length (level_at keccak xs (?d - 0)) then level_at keccak xs (?d - 0) ! 0 else 0)"
    unfolding a0_def by (rule stored_tree_node [OF st]) simp_all
  then have v1: "acc_view D merkle_ty w a0 1 = Inr (level_at keccak xs ?d ! 0)"
    using top_level [OF len(1), of keccak] by simp
  have "cache_ok D merkle_ty w a0" by (simp add: a0_def)
  from this v0 obtain a1 where a1: "DBAccess_get D merkle_ty w a0 0 = Inr (word_of_nat ?d, a1)"
    "cache_ok D merkle_ty w a1" "acc_view D merkle_ty w a1 = acc_view D merkle_ty w a0"
    by (rule DBAccess_get_view)
  have "acc_view D merkle_ty w a1 1 = Inr (level_at keccak xs ?d ! 0)" using v1 a1(3) by simp
  from a1(2) this obtain a2 where a2: "DBAccess_get D merkle_ty w a1 1 = Inr (level_at keccak xs ?d ! 0, a2)"
    "cache_ok D merkle_ty w a2" "acc_view D merkle_ty w a2 = acc_view D merkle_ty w a1"
    by (rule DBAccess_get_view)
  have "?d \<le> 31" using len(2) by (rule clog2_least)
  then show thesis
    using that [of "\<lparr>merkle_data = a2, merkle_root = level_at keccak xs ?d ! 0, merkle_depth = ?d\<rparr>"] a1 a2 st
    by (simp add: StaticMerkleTree_new_def a0_def [symmetric] stored_depth stored_tree_def)
qed

lemma index_or: "x < 2 ^ n \<Longrightarrow> (2 ^ n :: nat) OR x = 2 ^ n + x"
proof -
  assume "x < 2 ^ n"
  then have "take_bit n x = x" by (rule take_bit_nat_eq_self)
  then have "\<not> bit (2 ^ n :: nat) m \<or> \<not> bit x m" for m
    by (metis bit_exp_iff bit_take_bit_iff less_irrefl)
  then show ?thesis by (simp add: disjunctive_add)
qed

lemma prove_levels_path:
  assumes st: "stored_tree keccak D w a xs" and ok: "cache_ok D merkle_ty w a"
    and pos: "pos < length xs" and d: "d \<le> clog2 (length xs)" and nz: "no_zero_node keccak xs"
  shows "\<exists>a'. prove_levels keccak D w (clog2 (length xs)) pos a d =
    Inr (path_of keccak xs pos (clog2 (length xs) - d) d, a') \<and> stored_tree keccak D w a' xs \<and> cache_ok D merkle_ty w a'"
  using st ok d
proof (induction d arbitrary: a)
  case (Suc d)
  let ?n = "clog2 (length xs)"
  let ?h = "?n - Suc d"
  let ?i = "drop_bit ?h pos XOR 1"
  let ?lv = "level_at keccak xs ?h"
  have "pos < 2 ^ ?n" using pos clog2_bound [of "length xs"] by linarith
  also have "(2::nat) ^ ?n = 2 ^ Suc d * 2 ^ ?h" using Suc.prems(3) by (metis le_add_diff_inverse power_add)
  finally have "pos div 2 ^ ?h < 2 ^ Suc d" by (simp add: less_mult_imp_div_less)
  then have "drop_bit ?h pos < 2 ^ Suc d" by (simp add: drop_bit_eq_div)
  then have i: "?i < 2 ^ Suc d" unfolding xor_one_nat by (auto elim!: evenE)
  have idx: "(2 ^ Suc d) OR ?i = 2 ^ Suc d + ?i" by (rule index_or [OF i])
  have sd: "Suc d \<le> ?n" using Suc.prems(3) .
  define h where "h = (if ?i < length ?lv then ?lv ! ?i else 0)"
  have view: "acc_view D merkle_ty w a (2 ^ Suc d + ?i) = Inr h"
    unfolding h_def by (rule stored_tree_node [OF Suc.prems(1) sd i])
  from Suc.prems(2) view obtain a1 where a1: "DBAccess_get D merkle_ty w a (2 ^ Suc d + ?i) = Inr (h, a1)"
    "cache_ok D merkle_ty w a1" "acc_view D merkle_ty w a1 = acc_view D merkle_ty w a"
    by (rule DBAccess_get_view)
  have st1: "stored_tree keccak D w a1 xs" using Suc.prems(1) a1(3) by (simp add: stored_tree_def)
  have "d \<le> ?n" using sd by simp
  from Suc.IH [OF st1 a1(2) this] obtain a2 where a2: "prove_levels keccak D w ?n pos a1 d =
      Inr (path_of keccak xs pos (?n - d) d, a2)" "stored_tree keccak D w a2 xs" "cache_ok D merkle_ty w a2" by blast
  have "0 \<notin> set ?lv" using nz by (simp add: no_zero_node_def)
  then have ans: "(if h = 0 then keccak [] else h) = sibling keccak ?lv (pos div 2 ^ ?h)"
    by (auto simp: h_def sibling_def Let_def drop_bit_eq_div simp del: One_nat_def dest: nth_mem)
  have "path_of keccak xs pos ?h (Suc d) = sibling keccak ?lv (pos div 2 ^ ?h) # path_of keccak xs pos (?n - d) d"
    using sd by (simp add: path_of_def upt_conv_Cons Suc_diff_Suc del: upt_Suc)
  then show ?case using a1(1) a2 ans by (simp add: Let_def idx del: One_nat_def power_Suc)
qed (simp add: path_of_def)

lemma prove_verify:
  assumes st: "stored_tree keccak D w (merkle_data t) xs" and ok: "cache_ok D merkle_ty w (merkle_data t)"
    and pos: "pos < length xs" and t: "merkle_depth t = clog2 (length xs)" and nz: "no_zero_node keccak xs"
    and len: "length xs \<le> 2 ^ 31"
  shows "\<exists>t'. merkle_prove keccak D w t pos = Inr ((path_of keccak xs pos 0 (clog2 (length xs)), pos), t') \<and>
    merkle_verify keccak (level_at keccak xs (clog2 (length xs)) ! 0) (xs ! pos)
      (path_of keccak xs pos 0 (clog2 (length xs)), pos)"
proof -
  let ?n = "clog2 (length xs)"
  have "?n \<le> 31" using len by (rule clog2_least)
  then have "merkle_climb keccak pos 0 (xs ! pos) (path_of keccak xs pos 0 ?n) =
      level_at keccak xs ?n ! (pos div 2 ^ ?n)"
    using climb_path [OF pos, of 0 ?n keccak] by simp
  moreover have "pos div 2 ^ ?n = 0" using pos clog2_bound [of "length xs"] by simp
  ultimately show ?thesis
    using prove_levels_path [OF st ok pos order_refl nz] t by (auto simp: merkle_prove_def merkle_verify_def)
qed

end

section \<open>Properties\<close>

lemma dump_root:
  assumes "0 < length xs"
  shows "fst (merkle_dump keccak D w col epoch xs b) = level_at keccak xs (clog2 (length xs)) ! 0"
  using dump_levels_root [OF assms clog2_bound, of keccak b "DBAccess_new (to_be_bytes 8 epoch) col"]
  by (simp add: merkle_dump_def Let_def split_def)

text \<open>C3. Completeness of the epoch Merkle tree: after \<open>dump\<close> has written a
  non-empty list of hashes under an epoch number not used before, \<open>new\<close> reads
  back a tree with the root \<open>dump\<close> returned, \<open>prove\<close> gives a proof for every
  position of the list, of one hash per level, and \<open>verify\<close> accepts it for the
  hash at that position.  The only condition on the hash function is that no
  node of this tree is the zero word, which \<open>prove\<close> reads as absent.\<close>

theorem merkle_dump_prove_verify:
  assumes "kvdb D kv_ok cols" and "kv_ok (store w)" and "col < cols" and "fresh_epoch D w col epoch"
    and "0 < length xs" and "length xs \<le> 2 ^ 31" and "no_zero_node keccak xs" and "pos < length xs"
    and "merkle_dump keccak D w col epoch xs False = (r, w')"
  shows "\<exists>t path t'. StaticMerkleTree_new D w' col epoch = Inr t \<and> merkle_root t = r \<and>
    merkle_prove keccak D w' t pos = Inr ((path, pos), t') \<and> length path = clog2 (length xs) \<and>
    merkle_verify keccak r (xs ! pos) (path, pos)"
proof -
  have ms: "merkle_store D kv_ok cols" using assms(1) by (simp add: merkle_store_def)
  note st = merkle_store.dump_stored [OF ms assms(2-6,9)]
  from merkle_store.new_ok [OF ms st(1) assms(5,6)]
  obtain t where t: "StaticMerkleTree_new D w' col epoch = Inr t" "merkle_root t = r" "merkle_depth t = clog2 (length xs)"
    "stored_tree keccak D w' (merkle_data t) xs" "cache_ok D merkle_ty w' (merkle_data t)"
    using st(2) by metis
  from merkle_store.prove_verify [OF ms t(4,5) assms(8) t(3) assms(7,6)] t(1,2) st(2)
  show ?thesis by (force simp: path_of_def)
qed

definition weak_hash :: "bytes \<Rightarrow> h256" where
  "weak_hash bs = 1 + word_of_nat (length bs)"

lemma weak_combine: "combine_hash weak_hash a b = 65" "weak_hash [] = 1"
  by (simp_all add: combine_hash_def weak_hash_def)

lemma clog2_small:
  "clog2 3 = 2" "clog2 2 = 1" "clog2 (Suc (Suc (Suc 0))) = 2" "clog2 (Suc (Suc 0)) = Suc 0"
  by (simp_all add: clog2.simps)

lemma weak_levels:
  "level_at weak_hash [11, 12, 13] 0 = [11, 12, 13]"
  "level_at weak_hash [11, 12, 13] (Suc 0) = [65, 65]"
  "level_at weak_hash [11, 12, 13] 2 = [65]"
  "level_at weak_hash [11, 12] (Suc 0) = [65]"
  by (simp_all add: level_at_def weak_combine numeral_2_eq_2)

theorem merkle_dump_prove_verify_witness:
  "\<exists>r w' t path t'.
     merkle_dump weak_hash plain_kvdb \<lparr>store = (\<lambda>_ _. None), PUT_COUNT = [0,0,0,0], PUT_MODE = 0\<rparr> 0 5 [11, 12, 13] False = (r, w') \<and>
     StaticMerkleTree_new plain_kvdb w' 0 5 = Inr t \<and> merkle_root t = r \<and>
     merkle_prove weak_hash plain_kvdb w' t 2 = Inr ((path, 2), t') \<and> length path = clog2 3 \<and>
     merkle_verify weak_hash r 13 (path, 2)"
proof -
  let ?w = "\<lparr>store = (\<lambda>_ _. None), PUT_COUNT = [0,0,0,0], PUT_MODE = 0\<rparr> :: contents world"
  obtain r w' where d: "merkle_dump weak_hash plain_kvdb ?w 0 5 [11, 12, 13] False = (r, w')" by (cases "merkle_dump weak_hash plain_kvdb ?w 0 5 [11, 12, 13] False")
  have "k \<le> 2 \<longleftrightarrow> k = 0 \<or> k = Suc 0 \<or> k = 2" for k :: nat by auto
  then have nz: "no_zero_node weak_hash [11, 12, 13]"
    by (auto simp: no_zero_node_def clog2_small weak_levels)
  have fr: "fresh_epoch plain_kvdb ?w 0 5" by (simp add: fresh_epoch_def plain_kvdb_def)
  from merkle_dump_prove_verify [OF plain.kvdb_axioms [of 1] _ _ fr _ _ nz _ d, of 2] d
  show ?thesis by (simp add: clog2_small)
qed

lemma verify_collision:
  assumes "r = fst (merkle_dump keccak D w col epoch xs b)" and "0 < length xs" and "length xs \<le> 2 ^ 31"
    and "pos < length xs" and "length path = clog2 (length xs)"
    and "merkle_verify keccak r h (path, pos)" and "h \<noteq> xs ! pos"
  shows "\<exists>x y. x \<in> climb_inputs keccak pos 0 h path \<and> y \<in> dump_inputs keccak xs \<and> x \<noteq> y \<and> keccak x = keccak y"
proof -
  have n: "clog2 (length xs) \<le> 31" using assms(3) by (rule clog2_least)
  have "pos div 2 ^ clog2 (length xs) = 0" using assms(4) clog2_bound [of "length xs"] by simp
  then have "merkle_climb keccak pos 0 h path = level_at keccak xs (0 + length path) ! (pos div 2 ^ (0 + length path))"
    using assms(1,2,5,6) by (simp add: dump_root merkle_verify_def)
  moreover have "h \<noteq> level_at keccak xs 0 ! (pos div 2 ^ 0)" using assms(7) by (simp add: level_at_def)
  ultimately show ?thesis
    using climb_collision [OF assms(4), of 0 path h keccak] n assms(5) unfolding dump_inputs_def by auto
qed

text \<open>C4. Soundness of the epoch Merkle tree: when \<open>verify\<close> accepts a hash that
  is not the one at the given position, with a proof of the depth of the tree,
  then an input hashed while verifying and a different input hashed by \<open>dump\<close> have
  the same hash: the proof exhibits a collision.\<close>

theorem merkle_verify_sound:
  assumes "r = fst (merkle_dump keccak D w col epoch xs b)" and "0 < length xs" and "length xs \<le> 2 ^ 31"
    and "pos < length xs" and "length path = clog2 (length xs)"
    and "merkle_verify keccak r h (path, pos)" and "h \<noteq> xs ! pos"
  shows "\<exists>x y. x \<in> climb_inputs keccak pos 0 h path \<and> y \<in> dump_inputs keccak xs \<and> x \<noteq> y \<and> keccak x = keccak y"
  using verify_collision [OF assms] .

theorem merkle_verify_sound_witness:
  "\<exists>x y. x \<in> climb_inputs weak_hash 0 0 9 [12] \<and> y \<in> dump_inputs weak_hash [11, 12] \<and> x \<noteq> y \<and> weak_hash x = weak_hash y"
proof -
  have "fst (merkle_dump weak_hash plain_kvdb w 0 5 [11, 12] True) = 65" for w
    by (simp add: dump_root clog2_small weak_levels)
  from merkle_verify_sound [OF this [symmetric], of 0 "[12]" 9] show ?thesis
    by (simp add: clog2_small merkle_verify_def weak_combine)
qed

end
