(* ===== verification/LvmtDb.thy ===== *)
theory LvmtDb
  imports VersionTree Merkle
begin

text \<open>
  The authenticated database LVMT, \<open>lvmt_db.rs\<close>: values are stored with the
  version and position of their last write, versions are kept in the version
  tree, and the hashes of one epoch's writes are committed by a static Merkle
  tree.  The three columns of the store are the constants \<open>COL_VER_TREE\<close>,
  \<open>COL_KEY_NEW\<close> and \<open>COL_MERKLE\<close>.  The two global counters
  \<open>INC_KEY_COUNT\<close> and \<open>INC_KEY_LEVEL_SUM\<close> are fields of the state.
\<close>

definition COL_VER_TREE :: nat where "COL_VER_TREE = 0"
definition COL_KEY_NEW :: nat where "COL_KEY_NEW = 1"
definition COL_MERKLE :: nat where "COL_MERKLE = 2"
definition NUM_COLS :: nat where "NUM_COLS = 3"
definition EPOCH_NUMBER_KEY :: bytes where "EPOCH_NUMBER_KEY = [0, 0]"

record 'g TreeValue =
  tv_key :: TreeName
  tv_version_number :: u64
  tv_commitment :: 'g

record KeyValue =
  kv_key :: bytes
  kv_version :: VerInfo
  kv_value :: bytes

record Value =
  val_value :: bytes
  val_version :: VerInfo
  val_position :: EpochPosition

record 'g LevelProof =
  merkle_epoch :: u64
  merkle_proof :: MerkleProof
  level_amt_proof :: "'g AMTProof"
  level_commitment :: 'g
  node_fr_int :: FrInt
  node_version :: u64

record AssociateProof =
  ap_value :: "bytes option"
  ap_ver_info :: VerInfo

type_synonym 'g Proof = "AssociateProof \<times> 'g LevelProof list"

record 'g LvmtDB =
  version_tree :: "'g VersionTree"
  db_cache :: "(Key \<times> (Value option \<times> bool)) list"
  uncommitted_key_values :: "(Key \<times> bytes) list"
  dirty_guard :: bool
  only_merkle_root :: bool
  INC_KEY_COUNT :: u64
  INC_KEY_LEVEL_SUM :: u64

section \<open>Serialization of the records\<close>

definition write_TreeValue :: "'g curve_bytes \<Rightarrow> SerdeType \<Rightarrow> 'g TreeValue writer" where
  "write_TreeValue B ty x = write_TreeName ty (tv_key x) @ write_u64 ty (tv_version_number x) @
     aff_write B (tv_commitment x)"

definition write_KeyValue :: "SerdeType \<Rightarrow> KeyValue writer" where
  "write_KeyValue ty x = write_bytes ty (kv_key x) @ write_VerInfo ty (kv_version x) @ write_bytes ty (kv_value x)"

definition read_KeyValue :: "SerdeType \<Rightarrow> KeyValue reader" where
  "read_KeyValue ty bs = and_then (read_bytes ty bs) (\<lambda>(k, r). and_then (read_VerInfo ty r) (\<lambda>(v, r').
     and_then (read_bytes ty r') (\<lambda>(x, r''). Inr (\<lparr>kv_key = k, kv_version = v, kv_value = x\<rparr>, r''))))"

definition write_Value :: "SerdeType \<Rightarrow> Value writer" where
  "write_Value ty x = write_bytes ty (val_value x) @ write_VerInfo ty (val_version x) @
     write_EpochPosition ty (val_position x)"

definition read_Value :: "SerdeType \<Rightarrow> Value reader" where
  "read_Value ty bs = and_then (read_bytes ty bs) (\<lambda>(x, r). and_then (read_VerInfo ty r) (\<lambda>(v, r').
     and_then (read_EpochPosition ty r') (\<lambda>(p, r''). Inr (\<lparr>val_value = x, val_version = v, val_position = p\<rparr>, r''))))"

interpretation value_codec: codec write_Value read_Value "\<lambda>x. length (val_value x) < 2 ^ 64"
  by unfold_locales
    (simp add: write_Value_def read_Value_def codec_simps)

interpretation kv_codec: codec write_KeyValue read_KeyValue
  "\<lambda>x. length (kv_key x) < 2 ^ 64 \<and> length (kv_value x) < 2 ^ 64"
  by unfold_locales (simp add: write_KeyValue_def read_KeyValue_def codec_simps)

section \<open>Reading and writing\<close>

definition LvmtDB_new ::
  "'s kvdb_ops \<Rightarrow> 'g::ab_group_add Config \<Rightarrow> 's world \<Rightarrow> bool \<Rightarrow> (nat \<times> nat) option \<Rightarrow> 'g LvmtDB result" where
  "LvmtDB_new D C w only_mr shard_info =
     and_then (case shard_info of
         None \<Rightarrow> Inr None
       | Some (d, i) \<Rightarrow> and_then (NodeIndex_new (DEPTHS C) d i) (\<lambda>n. Inr (Some n))) (\<lambda>shard.
     and_then (VersionTree_new D C w COL_VER_TREE shard) (\<lambda>vt.
       Inr \<lparr>version_tree = vt, db_cache = [], uncommitted_key_values = [], dirty_guard = False,
            only_merkle_root = only_mr, INC_KEY_COUNT = 0, INC_KEY_LEVEL_SUM = 0\<rparr>))"

text \<open>The value stored for a key, decoded: \<open>get\<close> unwraps the decoding, \<open>commit\<close> and \<open>prove\<close>
  hand its error on.\<close>

definition stored_value :: "'s kvdb_ops \<Rightarrow> 's world \<Rightarrow> Key \<Rightarrow> Value option result" where
  "stored_value D w key =
     (case DBColumn_get D (store w) COL_KEY_NEW key of
        None \<Rightarrow> Inr None
      | Some x \<Rightarrow> and_then (from_bytes_local read_Value x) (\<lambda>v. Inr (Some v)))"

definition LvmtDB_get ::
  "'s kvdb_ops \<Rightarrow> 's world \<Rightarrow> 'g LvmtDB \<Rightarrow> Key \<Rightarrow> (bytes option \<times> 'g LvmtDB) result" where
  "LvmtDB_get D w db key =
     (case map_of (db_cache db) key of
        Some (v, dirty) \<Rightarrow> Inr (map_option val_value v, db)
      | None \<Rightarrow> and_then (unwrap_result (stored_value D w key)) (\<lambda>v.
          Inr (map_option val_value v, db\<lparr>db_cache := (key, (v, False)) # db_cache db\<rparr>)))"

definition LvmtDB_set :: "'g LvmtDB \<Rightarrow> Key \<Rightarrow> bytes \<Rightarrow> 'g LvmtDB" where
  "LvmtDB_set db key value = db\<lparr>uncommitted_key_values := uncommitted_key_values db @ [(key, value)]\<rparr>"

definition current_epoch :: "'s kvdb_ops \<Rightarrow> 's world \<Rightarrow> u64 result" where
  "current_epoch D w =
     (case DBColumn_get D (store w) COL_MERKLE EPOCH_NUMBER_KEY of
        None \<Rightarrow> Inr 0
      | Some x \<Rightarrow> unwrap_result (from_bytes_local read_u64 x))"

section \<open>commit\<close>

record ('g, 'h) put_state =
  ps_pp :: "('g, 'h) AMTParams"
  ps_tree :: "'g VersionTree"
  ps_hashes :: "h256 list"
  ps_ops :: "DBOp list"
  ps_count :: u64
  ps_levels :: u64

definition cached_version :: "'s kvdb_ops \<Rightarrow> 's world \<Rightarrow> 'g LvmtDB \<Rightarrow> Key \<Rightarrow> VerInfo option result" where
  "cached_version D w db key =
     (case map_of (db_cache db) key of
        Some (v, dirty) \<Rightarrow> Inr (map_option val_version v)
      | None \<Rightarrow> and_then (stored_value D w key) (\<lambda>v. Inr (map_option val_version v)))"

text \<open>The body of the loop over the drained key-value pairs; the position in the
  loop is the number of hashes so far.\<close>

definition commit_key ::
  "(bytes \<Rightarrow> h256) \<Rightarrow> 's kvdb_ops \<Rightarrow> 'g::ab_group_add Config \<Rightarrow> 's world \<Rightarrow> 'g LvmtDB \<Rightarrow> u64 \<Rightarrow>
   Key \<times> bytes \<Rightarrow> ('g, 'h) put_state \<Rightarrow> ('g, 'h) put_state result" where
  "commit_key keccak D C w db epoch kv s = (case kv of (key, value) \<Rightarrow>
     and_then (cached_version D w db key) (\<lambda>old.
     and_then (inc_key_ver D C w key old (ps_pp s) (ps_tree s)) (\<lambda>(ver, pp, vt).
       let v = \<lparr>val_value = value, val_version = ver,
                val_position = \<lparr>ep_epoch = epoch, ep_position = word_of_nat (length (ps_hashes s))\<rparr>\<rparr>;
           h = keccak (to_bytes_consensus write_KeyValue \<lparr>kv_key = key, kv_version = ver, kv_value = value\<rparr>)
       in Inr \<lparr>ps_pp = pp, ps_tree = vt, ps_hashes = ps_hashes s @ [h],
               ps_ops = ps_ops s @ [Insert 0 key (to_bytes_local write_Value v)],
               ps_count = ps_count s + 1, ps_levels = ps_levels s + ucast (level ver) + 1\<rparr>)))"

definition tree_hash :: "(bytes \<Rightarrow> h256) \<Rightarrow> 'g Config \<Rightarrow> TreeName \<times> u64 \<times> 'g \<Rightarrow> h256" where
  "tree_hash keccak C u = (case u of (nm, ver, comm) \<Rightarrow>
     keccak (to_bytes_consensus (write_TreeValue (curve C))
       \<lparr>tv_key = nm, tv_version_number = ver, tv_commitment = comm\<rparr>))"

text \<open>\<open>commit\<close> up to the list of hashes of the epoch: the writes of the keys and
  of the version tree, and the hashes of the written keys followed by those of the
  updated subtrees.\<close>

definition commit_hashes ::
  "(bytes \<Rightarrow> h256) \<Rightarrow> 's kvdb_ops \<Rightarrow> 'g::ab_group_add Config \<Rightarrow> 's world \<Rightarrow> ('g, 'h) AMTParams \<Rightarrow> 'g LvmtDB \<Rightarrow>
   u64 \<Rightarrow> ('g \<times> h256 list \<times> 's world \<times> ('g, 'h) AMTParams \<times> 'g LvmtDB) result" where
  "commit_hashes keccak D C w pp db epoch =
     and_then (fold_res (commit_key keccak D C w db epoch) (uncommitted_key_values db)
        \<lparr>ps_pp = pp, ps_tree = version_tree db, ps_hashes = [], ps_ops = [],
         ps_count = INC_KEY_COUNT db, ps_levels = INC_KEY_LEVEL_SUM db\<rparr>) (\<lambda>s.
     let w1 = w\<lparr>store := DBColumn_write_buffered D (store w) COL_KEY_NEW (ps_ops s)\<rparr> in
     and_then (VersionTree_commit D C epoch (word_of_nat (length (ps_hashes s))) w1 (ps_pp s) (ps_tree s))
       (\<lambda>(amt_root, updates, w2, pp2, vt2).
     and_then (recorder_iter (rec_versions updates) (rec_commitments updates)) (\<lambda>ups.
       Inr (amt_root, ps_hashes s @ map (tree_hash keccak C) ups, w2, pp2,
            db\<lparr>version_tree := vt2, uncommitted_key_values := [],
               INC_KEY_COUNT := ps_count s, INC_KEY_LEVEL_SUM := ps_levels s\<rparr>))))"

definition LvmtDB_commit ::
  "(bytes \<Rightarrow> h256) \<Rightarrow> 's kvdb_ops \<Rightarrow> 'g::ab_group_add Config \<Rightarrow> 's world \<Rightarrow> ('g, 'h) AMTParams \<Rightarrow> 'g LvmtDB \<Rightarrow>
   (('g \<times> h256) \<times> 's world \<times> ('g, 'h) AMTParams \<times> 'g LvmtDB) result" where
  "LvmtDB_commit keccak D C w pp db =
     and_then (current_epoch D w) (\<lambda>epoch.
     and_then (commit_hashes keccak D C w pp db epoch) (\<lambda>(amt_root, hashes, w2, pp2, db1).
     let (mroot, w3) = merkle_dump keccak D w2 COL_MERKLE epoch hashes (only_merkle_root db);
         w4 = w3\<lparr>store := DBColumn_write_buffered D (store w3) COL_MERKLE
                [Insert 0 EPOCH_NUMBER_KEY (to_bytes_local write_u64 (epoch + 1))]\<rparr>
     in and_then (kv_flush D (store w4)) (\<lambda>st.
        Inr ((amt_root, mroot), w4\<lparr>store := st\<rparr>, pp2, db1\<lparr>dirty_guard := False, db_cache := []\<rparr>))))"

section \<open>prove\<close>

definition prove_merkle ::
  "(bytes \<Rightarrow> h256) \<Rightarrow> 's kvdb_ops \<Rightarrow> 's world \<Rightarrow> EpochPosition \<Rightarrow> (u64 \<times> MerkleProof) result" where
  "prove_merkle keccak D w pos =
     and_then (StaticMerkleTree_new D w COL_MERKLE (ep_epoch pos)) (\<lambda>t.
     and_then (Merkle.merkle_prove keccak D w t (unat (ep_position pos))) (\<lambda>(p, t').
       Inr (ep_epoch pos, p)))"

definition prove_amt_node ::
  "'s kvdb_ops \<Rightarrow> 'g::ab_group_add Config \<Rightarrow> 's world \<Rightarrow> 'g VersionTree \<Rightarrow> TreeName \<Rightarrow> nat \<Rightarrow>
   (('g \<times> Node \<times> 'g AMTProof) \<times> 'g VersionTree) result" where
  "prove_amt_node D C w vt nm index =
     and_then (get_tree_mut D C w vt nm) (\<lambda>vt1.
       on_tree vt1 nm (\<lambda>t.
         and_then (AMTree_commitment t) (\<lambda>c.
         and_then (AMTree_get D C w t index) (\<lambda>(n, t1).
         and_then (AMTree_prove D C w t1 index) (\<lambda>(p, t2).
         case p of
           None \<Rightarrow> Inl (Panic ''Currently, all the nodes are working in full mode'')
         | Some prf \<Rightarrow> Inr ((c, n, prf), t2))))))"

text \<open>One level above the bottom, pushed to the front.\<close>

definition prove_level ::
  "(bytes \<Rightarrow> h256) \<Rightarrow> 's kvdb_ops \<Rightarrow> 'g::ab_group_add Config \<Rightarrow> 's world \<Rightarrow> Key \<Rightarrow> nat \<Rightarrow>
   'g LevelProof list \<times> 'g VersionTree \<Rightarrow> ('g LevelProof list \<times> 'g VersionTree) result" where
  "prove_level keccak D C w key lvl s = (case s of (lps, vt) \<Rightarrow>
     and_then (tree_at_level (DEPTHS C) key lvl) (\<lambda>nm.
     and_then (index_at_level (DEPTHS C) key lvl) (\<lambda>index.
     and_then (get_tree_mut D C w vt nm) (\<lambda>vt1.
     and_then (on_tree vt1 nm (\<lambda>t. AMTree_get D C w t index)) (\<lambda>(leaf, vt2).
     and_then (prove_merkle keccak D w (tree_position leaf)) (\<lambda>(ep, mp).
     and_then (prove_amt_node D C w vt2 nm index) (\<lambda>((c, n, prf), vt3).
     and_then (Node_as_fr_int n) (\<lambda>fr.
       Inr (\<lparr>merkle_epoch = ep, merkle_proof = mp, level_amt_proof = prf, level_commitment = c,
             node_fr_int = fr, node_version = tree_version n\<rparr> # lps, vt3)))))))))"

definition LvmtDB_prove ::
  "(bytes \<Rightarrow> h256) \<Rightarrow> 's kvdb_ops \<Rightarrow> 'g::ab_group_add Config \<Rightarrow> 's world \<Rightarrow> 'g LvmtDB \<Rightarrow> Key \<Rightarrow>
   ('g Proof \<times> 'g LvmtDB) result" where
  "LvmtDB_prove keccak D C w db key =
     and_then (stored_value D w key) (\<lambda>ov. case ov of
       None \<Rightarrow> Inl (Panic ''We only support existent proof'')
     | Some value \<Rightarrow>
       let ver_info = val_version value; lvl = unat (level ver_info) in
       and_then (prove_merkle keccak D w (val_position value)) (\<lambda>(ep, mp).
       and_then (tree_at_level (DEPTHS C) key lvl) (\<lambda>nm.
       and_then (index_at_level (DEPTHS C) key lvl) (\<lambda>index.
       and_then (prove_amt_node D C w (version_tree db) nm index) (\<lambda>((c, n, prf), vt1).
       and_then (Node_as_fr_int n) (\<lambda>fr.
       and_then (nth_res (key_versions n) (unat (slot_index ver_info))) (\<lambda>nv.
       and_then (fold_res (prove_level keccak D C w key) (rev [0..<lvl])
          ([\<lparr>merkle_epoch = ep, merkle_proof = mp, level_amt_proof = prf, level_commitment = c,
             node_fr_int = fr, node_version = nv\<rparr>], vt1)) (\<lambda>(lps, vt2).
         Inr ((\<lparr>ap_value = Some (val_value value), ap_ver_info = ver_info\<rparr>, lps),
              db\<lparr>version_tree := vt2\<rparr>)))))))))"

definition LvmtDB_flush_root ::
  "'s kvdb_ops \<Rightarrow> 'g::ab_group_add Config \<Rightarrow> 's world \<Rightarrow> 'g LvmtDB \<Rightarrow> ('s world \<times> 'g LvmtDB) result" where
  "LvmtDB_flush_root D C w db =
     and_then (VersionTree_flush_all D C w (version_tree db)) (\<lambda>(w1, vt).
     and_then (kv_flush D (store w1)) (\<lambda>st. Inr (w1\<lparr>store := st\<rparr>, db\<lparr>version_tree := vt\<rparr>)))"

section \<open>verify\<close>

text \<open>The result of \<open>verify\<close>: a refusal (one constructor per message of the code,
  with the level it is formatted with), or acceptance; a panic is a fault around it.\<close>

datatype verify_error =
    IncorrectAMTProof nat
  | IncorrectMerkleProofBottom
  | IncorrectMerkleProof nat
  | InconsistentVersionBottom
  | InconsistentVersion nat

type_synonym verdict = "verify_error + unit"

fun then_check :: "verdict result \<Rightarrow> verdict result \<Rightarrow> verdict result" where
  "then_check (Inr (Inr ())) r = r"
| "then_check x r = x"

definition check :: "bool \<Rightarrow> verify_error \<Rightarrow> verdict" where
  "check b msg = (if b then Inr () else Inl msg)"

fun verify_amt_levels ::
  "('g::ab_group_add \<Rightarrow> 'h \<Rightarrow> 'gt) \<Rightarrow> 'g Config \<Rightarrow> ('g, 'h) AMTParams \<Rightarrow> Key \<Rightarrow> nat \<Rightarrow> 'g LevelProof list \<Rightarrow>
   verdict result" where
  "verify_amt_levels pairing C pp key lvl [] = Inr (Inr ())"
| "verify_amt_levels pairing C pp key lvl (lp # lps) =
     and_then (index_at_level (DEPTHS C) key (lvl mod 256)) (\<lambda>amt_index.
     and_then (ensure (node_fr_int lp < fr_modulus C) ''called Option::unwrap() on a None value'') (\<lambda>_.
     and_then (AMTree_verify pairing C amt_index (node_fr_int lp) (level_commitment lp) (level_amt_proof lp) pp) (\<lambda>ok.
       then_check (Inr (check ok (IncorrectAMTProof lvl)))
         (verify_amt_levels pairing C pp key (Suc lvl) lps))))"

definition verify_bottom ::
  "(bytes \<Rightarrow> h256) \<Rightarrow> Key \<Rightarrow> AssociateProof \<Rightarrow> 'g LevelProof list \<Rightarrow> (u64 \<Rightarrow> h256) \<Rightarrow> verdict result" where
  "verify_bottom keccak key ap lps epoch_root =
     (case ap_value ap of
        None \<Rightarrow> Inr (Inr ())
      | Some value \<Rightarrow>
          if lps = [] then Inl (Panic ''attempt to subtract with overflow'')
          else Inr (check (merkle_verify keccak (epoch_root (merkle_epoch (last lps)))
                 (keccak (to_bytes_consensus write_KeyValue
                    \<lparr>kv_key = key, kv_version = ap_ver_info ap, kv_value = value\<rparr>)) (merkle_proof (last lps)))
               IncorrectMerkleProofBottom))"

fun verify_rest ::
  "(bytes \<Rightarrow> h256) \<Rightarrow> 'g Config \<Rightarrow> Key \<Rightarrow> (u64 \<Rightarrow> h256) \<Rightarrow> nat \<Rightarrow> 'g LevelProof list \<Rightarrow> verdict result" where
  "verify_rest keccak C key epoch_root lvl (lp # lp' # lps) =
     and_then (tree_at_level (DEPTHS C) key ((lvl mod 256 + 1) mod 256)) (\<lambda>nm.
       then_check (Inr (check (merkle_verify keccak (epoch_root (merkle_epoch lp))
            (tree_hash keccak C (nm, node_version lp, level_commitment lp')) (merkle_proof lp))
          (IncorrectMerkleProof lvl)))
         (verify_rest keccak C key epoch_root (Suc lvl) (lp' # lps)))"
| "verify_rest keccak C key epoch_root lvl lps = Inr (Inr ())"

definition verify_bottom_version :: "VerInfo \<Rightarrow> 'g LevelProof list \<Rightarrow> verdict result" where
  "verify_bottom_version vi lps =
     (if lps = [] then Inl (Panic ''attempt to subtract with overflow'')
      else and_then (versions_from_fr_int (node_fr_int (last lps)) (unat (slot_index vi) + 1)) (\<lambda>v.
             Inr (check (v = node_version (last lps)) InconsistentVersionBottom)))"

fun verify_rest_versions :: "nat \<Rightarrow> 'g LevelProof list \<Rightarrow> verdict result" where
  "verify_rest_versions lvl [] = Inr (Inr ())"
| "verify_rest_versions lvl (lp # lps) =
     and_then (versions_from_fr_int (node_fr_int lp) 0) (\<lambda>v.
       then_check (Inr (check (v = node_version lp) (InconsistentVersion lvl)))
         (verify_rest_versions (Suc lvl) lps))"

definition LvmtDB_verify ::
  "(bytes \<Rightarrow> h256) \<Rightarrow> ('g::ab_group_add \<Rightarrow> 'h \<Rightarrow> 'gt) \<Rightarrow> 'g Config \<Rightarrow> Key \<Rightarrow> 'g Proof \<Rightarrow> (u64 \<Rightarrow> h256) \<Rightarrow>
   ('g, 'h) AMTParams \<Rightarrow> verdict result" where
  "LvmtDB_verify keccak pairing C key proof' epoch_root pp = (case proof' of (ap, lps) \<Rightarrow>
     then_check (verify_amt_levels pairing C pp key 0 lps)
    (then_check (verify_bottom keccak key ap lps epoch_root)
    (then_check (if lps = [] then Inl (Panic ''attempt to subtract with overflow'')
                 else verify_rest keccak C key epoch_root 0 lps)
    (then_check (verify_bottom_version (ap_ver_info ap) lps)
      (verify_rest_versions 0 (butlast lps))))))"

end
