(* ===== verification/LvmtProofs.thy ===== *)
theory LvmtProofs
  imports LvmtDb
begin

text \<open>
  Properties of the version tree and of LVMT that span components: the column
  every tree of the forest writes to, what a commit stores for each key, the
  Merkle proof of a committed value, and what \<open>verify\<close> does and does not
  check.
\<close>

section \<open>Every tree stays in its column\<close>

definition tree_col :: "nat \<Rightarrow> ('n, 'd, 'g) AMTree \<Rightarrow> bool" where
  "tree_col c t \<longleftrightarrow> acc_col (tree_data t) = c \<and> acc_col (subtree_roots t) = c \<and> acc_col (inner_nodes t) = c"

lemma ensure_cached_col: "ensure_cached D T w a k = Inr (e, a') \<Longrightarrow> acc_col a' = acc_col a"
  by (auto simp: ensure_cached_def and_then_eq_Inr split: option.splits)

lemma DBAccess_get_col: "DBAccess_get D T w a k = Inr (v, a') \<Longrightarrow> acc_col a' = acc_col a"
  by (auto simp: DBAccess_get_def and_then_eq_Inr dest: ensure_cached_col)

lemma DBAccess_get_mut_col: "DBAccess_get_mut D T w a k f = Inr a' \<Longrightarrow> acc_col a' = acc_col a"
  by (auto simp: DBAccess_get_mut_def and_then_eq_Inr dest: ensure_cached_col)

lemma AMTree_get_col: "AMTree_get D C w t i = Inr (v, t') \<Longrightarrow> tree_col c t \<Longrightarrow> tree_col c t'"
  by (auto simp: AMTree_get_def and_then_eq_Inr tree_col_def dest: DBAccess_get_col)

lemma AMTree_get_mut_col: "AMTree_get_mut D C w t i f = Inr t' \<Longrightarrow> tree_col c t \<Longrightarrow> tree_col c t'"
  by (auto simp: AMTree_get_mut_def and_then_eq_Inr tree_col_def dest: DBAccess_get_mut_col)

lemma subtree_root_mut_col: "subtree_root_mut D C w t i f = Inr t' \<Longrightarrow> tree_col c t \<Longrightarrow> tree_col c t'"
  by (auto simp: subtree_root_mut_def and_then_eq_Inr tree_col_def dest: DBAccess_get_mut_col)

lemma subtree_root_col: "subtree_root D C w t i = Inr (g, t') \<Longrightarrow> tree_col c t \<Longrightarrow> tree_col c t'"
  by (auto simp: subtree_root_def and_then_eq_Inr dest: subtree_root_mut_col)

lemma update_node_col:
  "update_node D C w i fr inc s ni h (t, pp) = Inr (t', pp') \<Longrightarrow> tree_col c t \<Longrightarrow> tree_col c t'"
  by (auto simp: update_node_def Let_def and_then_eq_Inr tree_col_def split: if_splits dest: DBAccess_get_mut_col)

lemma AMTree_update_col:
  assumes u: "AMTree_update D C w pp t i fr = Inr (t', pp')" and c: "tree_col c t"
  shows "tree_col c t'"
proof -
  have step: "tree_col c (fst s')" if "update_node D C w i fr inc s ni h q = Inr s'" "tree_col c (fst q)" for inc s ni h q s'
    using that by (cases q; cases s') (auto dest: update_node_col)
  have fold: "tree_col c (fst s')" if "fold_res (update_node D C w i fr inc s ni) hs q = Inr s'" "tree_col c (fst q)" for inc s ni hs q s'
    using that(1) by (rule fold_res_invariant [where P = "\<lambda>s. tree_col c (fst s)"]) (use that step in auto)
  have c1: "tree_col c (t\<lparr>tree_dirty := d, tree_commitment := x\<rparr>)" for d x using c by (simp add: tree_col_def)
  show ?thesis using u c c1
    by (auto simp: AMTree_update_def and_then_eq_Inr Let_def split: if_splits option.splits dest!: fold)
qed

lemma write_versions_col: "write_versions D C w t i = Inr (g, t') \<Longrightarrow> tree_col c t \<Longrightarrow> tree_col c t'"
  by (auto simp: write_versions_def and_then_eq_Inr tree_col_def dest!: DBAccess_get_col DBAccess_get_mut_col)

lemma guard_drop_col: "guard_drop D C w pp t g = Inr (t', pp') \<Longrightarrow> tree_col c t \<Longrightarrow> tree_col c t'"
  by (auto simp: guard_drop_def Let_def and_then_eq_Inr intro: AMTree_update_col dest: AMTree_get_mut_col)

lemma edit_leaf_col: "edit_leaf D C w pp i e t = Inr (x, t') \<Longrightarrow> tree_col c t \<Longrightarrow> tree_col c t'"
  by (auto simp: edit_leaf_def and_then_eq_Inr dest!: write_versions_col guard_drop_col)

lemma set_commitment_col: "tree_col c (set_commitment t x) = tree_col c t"
  by (simp add: set_commitment_def tree_col_def)

lemma AMTree_new_col: "tree_col c (AMTree_new C nm c sh)"
  by (simp add: AMTree_new_def tree_col_def DBAccess_new_def Let_def)

lemma new_tree_col: "TreeProducer_new_tree C c sh nm = Inr t \<Longrightarrow> tree_col c t"
  by (auto simp: TreeProducer_new_tree_def and_then_eq_Inr AMTree_new_col split: option.splits if_splits)

text \<open>The forest.\<close>

definition forest_col :: "nat \<Rightarrow> 'g TreesLayer list \<Rightarrow> bool" where
  "forest_col c f \<longleftrightarrow> (\<forall>layer \<in> set f. \<forall>(p, i) \<in> set layer. tree_col c (twi_tree i))"

lemma find_tree_col: "find_tree f p = Inr i \<Longrightarrow> forest_col c f \<Longrightarrow> tree_col c (twi_tree i)"
  by (auto simp: find_tree_def forest_col_def split: if_splits dest!: map_of_SomeD)

lemma put_tree_col:
  assumes "forest_col c f" "tree_col c (twi_tree i)"
  shows "forest_col c (put_tree f p i)"
proof (cases "length p < length f")
  case True
  let ?l = "AList.update p i (f ! length p)"
  have "\<forall>(q, j) \<in> set (f ! length p). tree_col c (twi_tree j)" using assms(1) nth_mem [OF True] unfolding forest_col_def by blast
  then have l: "\<forall>(q, j) \<in> set ?l. tree_col c (twi_tree j)"
    using set_AList_update [of p i "f ! length p"] assms(2) by blast
  have "set (put_tree f p i) \<subseteq> insert ?l (set f)" unfolding put_tree_def by (rule set_update_subset_insert)
  then show ?thesis using assms(1) l unfolding forest_col_def by blast
next
  case False
  then have "put_tree f p i = f" by (simp add: put_tree_def not_less list_update_beyond)
  then show ?thesis using assms by simp
qed

lemma ensure_tree_col: "ensure_tree C c sh f p = Inr f' \<Longrightarrow> forest_col c f \<Longrightarrow> forest_col c f'"
  by (auto simp: ensure_tree_def and_then_eq_Inr split: option.splits intro!: put_tree_col dest: new_tree_col)

lemma mark_ancestors_col:
  "mark_ancestors D C w c sh p l f = Inr f' \<Longrightarrow> forest_col c f \<Longrightarrow> forest_col c f'"
proof (induction l arbitrary: f)
  case (Suc l)
  then show ?case
    by (auto simp: Let_def and_then_eq_Inr set_commitment_col split: if_splits
        dest!: ensure_tree_col subtree_root_col find_tree_col intro!: put_tree_col elim!: Suc.IH)
qed simp

lemma get_tree_mut_col:
  assumes g: "get_tree_mut D C w vt nm = Inr vt'" and c: "forest_col (vt_col vt) (forest vt)"
  shows "forest_col (vt_col vt) (forest vt')" "vt_col vt' = vt_col vt" "shard_node vt' = shard_node vt"
proof -
  let ?f0 = "forest vt @ replicate (length (name_path nm) + 1 - length (forest vt)) []"
  have f0: "forest_col (vt_col vt) ?f0" using c by (auto simp: forest_col_def)
  from g obtain f1 info where f1: "ensure_tree C (vt_col vt) (shard_node vt) ?f0 (name_path nm) = Inr f1"
    "find_tree f1 (name_path nm) = Inr info" and
    r: "vt' = vt\<lparr>forest := f1\<rparr> \<or> (\<exists>f2. mark_ancestors D C w (vt_col vt) (shard_node vt) (name_path nm) (length (name_path nm))
           (put_tree f1 (name_path nm) (info\<lparr>mark_in_parent := True\<rparr>)) = Inr f2 \<and> vt' = vt\<lparr>forest := f2\<rparr>)"
    by (auto simp: get_tree_mut_def Let_def and_then_eq_Inr split: if_splits)
  have c1: "forest_col (vt_col vt) f1" using ensure_tree_col [OF f1(1) f0] .
  have "forest_col (vt_col vt) (put_tree f1 (name_path nm) (info\<lparr>mark_in_parent := True\<rparr>))"
    using find_tree_col [OF f1(2) c1] c1 by (intro put_tree_col) simp_all
  then show "forest_col (vt_col vt) (forest vt')" "vt_col vt' = vt_col vt" "shard_node vt' = shard_node vt"
    using r c1 mark_ancestors_col by auto
qed

lemma on_tree_col:
  assumes "on_tree vt nm g = Inr (x, vt')" "forest_col c (forest vt)"
    "\<And>t x t'. g t = Inr (x, t') \<Longrightarrow> tree_col c t \<Longrightarrow> tree_col c t'"
  shows "forest_col c (forest vt') \<and> vt_col vt' = vt_col vt \<and> shard_node vt' = shard_node vt"
proof -
  from assms(1) obtain i t where i: "find_tree (forest vt) (name_path nm) = Inr i" "g (twi_tree i) = Inr (x, t)"
    "vt' = vt\<lparr>forest := put_tree (forest vt) (name_path nm) (i\<lparr>twi_tree := t\<rparr>)\<rparr>"
    by (auto simp: on_tree_def and_then_eq_Inr)
  have "tree_col c t" using assms(3) [OF i(2)] find_tree_col [OF i(1) assms(2)] .
  then show ?thesis using i(3) put_tree_col [OF assms(2), of "i\<lparr>twi_tree := t\<rparr>"] by simp
qed

definition vt_ok :: "'g VersionTree \<Rightarrow> bool" where
  "vt_ok vt \<longleftrightarrow> forest_col (vt_col vt) (forest vt)"

lemma VersionTree_new_ok: "VersionTree_new D C w c sh = Inr vt \<Longrightarrow> vt_ok vt \<and> vt_col vt = c"
  by (auto simp: VersionTree_new_def and_then_eq_Inr vt_ok_def forest_col_def set_commitment_col dest: new_tree_col)

lemma allocate_from_ok:
  "allocate_from D C w key lvls pp vt = Inr (v, pp', vt') \<Longrightarrow> vt_ok vt \<Longrightarrow> vt_ok vt' \<and> vt_col vt' = vt_col vt"
proof (induction lvls arbitrary: pp vt)
  case (Cons lvl lvls)
  from Cons.prems(1) obtain nm vt1 ni leaf vt2 where
    1: "get_tree_mut D C w vt nm = Inr vt1" "on_tree vt1 nm (\<lambda>t. AMTree_get D C w t ni) = Inr (leaf, vt2)" and
    r: "(\<exists>y. on_tree vt2 nm (edit_leaf D C w pp ni push_version) = Inr (y, vt')) \<or>
        allocate_from D C w key lvls pp vt2 = Inr (v, pp', vt')"
    by (auto simp: and_then_eq_Inr split: if_splits)
  have c1: "forest_col (vt_col vt) (forest vt1)" "vt_col vt1 = vt_col vt"
    using get_tree_mut_col [OF 1(1)] Cons.prems(2) by (auto simp: vt_ok_def)
  have c2: "forest_col (vt_col vt) (forest vt2) \<and> vt_col vt2 = vt_col vt1 \<and> shard_node vt2 = shard_node vt1"
    by (rule on_tree_col [OF 1(2) c1(1)]) (rule AMTree_get_col)
  show ?case
  proof (cases "allocate_from D C w key lvls pp vt2 = Inr (v, pp', vt')")
    case True
    then show ?thesis using Cons.IH [OF True] c1 c2 by (auto simp: vt_ok_def)
  next
    case False
    then obtain y where "on_tree vt2 nm (edit_leaf D C w pp ni push_version) = Inr (y, vt')" using r by blast
    then have "forest_col (vt_col vt) (forest vt') \<and> vt_col vt' = vt_col vt2 \<and> shard_node vt' = shard_node vt2"
      using c2 by (intro on_tree_col) (auto dest: edit_leaf_col)
    then show ?thesis using c1 c2 by (simp add: vt_ok_def)
  qed
qed simp

lemma inc_key_ver_ok:
  assumes i: "inc_key_ver D C w key ver pp vt = Inr (v, pp', vt')" and ok: "vt_ok vt"
  shows "vt_ok vt'" "vt_col vt' = vt_col vt" "\<And>old. ver = Some old \<Longrightarrow> v = old\<lparr>version := version old + 1\<rparr>"
proof -
  let ?upd = "\<lambda>pp1 node v1 t. and_then (AMTree_update D C w pp1 t node (fr_int_pow_2 ((unat (slot_index v1) + 1) * 40)))
                (\<lambda>(t', pp'). Inr (((), pp'), t'))"
  let ?edit = "\<lambda>pp1 node v1. edit_leaf D C w pp1 node (inc_version (unat (slot_index v1)))"
  from i obtain v1 pp1 vt1 nm vt2 node keep u where
    1: "(case ver of None \<Rightarrow> allocate_vacant_slot D C w key pp vt | Some v \<Rightarrow> Inr (v, pp, vt)) = Inr (v1, pp1, vt1)"
    "get_tree_mut D C w vt1 nm = Inr vt2" "v = v1\<lparr>version := version v1 + 1\<rparr>" and
    2: "(if \<not> keep then on_tree vt2 nm (?upd pp1 node v1) else on_tree vt2 nm (?edit pp1 node v1)) = Inr ((u, pp'), vt')"
    by (auto simp: inc_key_ver_def and_then_eq_Inr split del: if_split)
  have upd: "tree_col c t'" if "?upd pp1 node v1 t = Inr (x, t')" "tree_col c t" for c t x t'
    using that by (auto simp: and_then_eq_Inr dest: AMTree_update_col)
  have c1: "vt_ok vt1 \<and> vt_col vt1 = vt_col vt"
    using 1(1) ok allocate_from_ok [of D C w key "[0..<32]" pp vt] by (auto simp: allocate_vacant_slot_def split: option.splits)
  then have c2: "forest_col (vt_col vt1) (forest vt2)" "vt_col vt2 = vt_col vt1"
    using get_tree_mut_col [OF 1(2)] by (auto simp: vt_ok_def)
  have c3: "forest_col (vt_col vt1) (forest vt') \<and> vt_col vt' = vt_col vt2 \<and> shard_node vt' = shard_node vt2"
  proof (cases keep)
    case True
    then have "on_tree vt2 nm (?edit pp1 node v1) = Inr ((u, pp'), vt')" using 2 by simp
    then show ?thesis using c2(1) by (rule on_tree_col) (rule edit_leaf_col)
  next
    case False
    then have "on_tree vt2 nm (?upd pp1 node v1) = Inr ((u, pp'), vt')" using 2 by simp
    then show ?thesis using c2(1) by (rule on_tree_col) (rule upd)
  qed
  then show "vt_ok vt'" "vt_col vt' = vt_col vt" using c1 c2 by (auto simp: vt_ok_def)
  show "v = old\<lparr>version := version old + 1\<rparr>" if "ver = Some old" for old using 1(1,3) that by simp
qed

section \<open>Writes of a commit by column\<close>

context kvdb
begin

definition other_cols :: "nat \<Rightarrow> contents \<Rightarrow> 's world \<Rightarrow> bool" where
  "other_cols c m w \<longleftrightarrow> inv (store w) \<and> (\<forall>c'. c' \<noteq> c \<longrightarrow> kv_get D (store w) c' = m c')"

lemma write_other_cols:
  assumes "other_cols c m w" "c < cols"
  shows "other_cols c m (w\<lparr>store := DBColumn_write_buffered D (store w) c ops\<rparr>)"
proof -
  have "apply_ops (map (set_col c) ops) m' c' = m' c'" if "c' \<noteq> c" for c' and m' :: contents
    using that by (intro ext, intro apply_ops_other) (auto simp: set_col_ops)
  then show ?thesis using assms
    by (simp add: other_cols_def DBColumn_write_buffered_def get_write_buffered inv_write_buffered)
qed

lemma other_cols_mode [simp]: "other_cols c m (w\<lparr>PUT_MODE := x\<rparr>) = other_cols c m w"
  "other_cols c m (w\<lparr>PUT_COUNT := y\<rparr>) = other_cols c m w"
  by (simp_all add: other_cols_def)

lemma flush_other_cols:
  assumes "other_cols (acc_col a) m w" "acc_col a < cols" "flush_cache D T w a = (w', a')"
  shows "other_cols (acc_col a) m w' \<and> acc_col a' = acc_col a"
proof -
  let ?w = "w\<lparr>store := DBColumn_write_buffered D (store w) (acc_col a) (flush_ops T a)\<rparr>"
  have "other_cols (acc_col a) m ?w" using assms(1,2) by (rule write_other_cols)
  then show ?thesis using assms(3) by (auto simp: flush_cache_def Let_def other_cols_def)
qed

lemma AMTree_flush_other_cols:
  assumes f: "AMTree_flush D C w t = Inr (g, w', t')" and o: "other_cols c m w" and c: "tree_col c t" "c < cols"
  shows "other_cols c m w' \<and> tree_col c t'"
proof -
  obtain w1 a1 where 1: "flush_cache D (data_ty C) (w\<lparr>PUT_MODE := 0\<rparr>) (tree_data t) = (w1, a1)" by (rule prod.exhaust)
  obtain w2 a2 where 2: "flush_cache D (node_ty C) (w1\<lparr>PUT_MODE := 1\<rparr>) (inner_nodes t) = (w2, a2)" by (rule prod.exhaust)
  obtain w3 a3 where 3: "flush_cache D (root_ty C) (w2\<lparr>PUT_MODE := 2\<rparr>) (subtree_roots t) = (w3, a3)" by (rule prod.exhaust)
  have o1: "other_cols c m w1 \<and> acc_col a1 = c" using flush_other_cols [OF _ _ 1, of m] o c by (simp add: tree_col_def)
  have o2: "other_cols c m w2 \<and> acc_col a2 = c" using flush_other_cols [OF _ _ 2, of m] o1 c by (simp add: tree_col_def)
  have o3: "other_cols c m w3 \<and> acc_col a3 = c" using flush_other_cols [OF _ _ 3, of m] o2 c by (simp add: tree_col_def)
  have "w' = w3" "t' = t\<lparr>tree_data := a1, inner_nodes := a2, subtree_roots := a3, tree_dirty := False\<rparr>"
    using f 1 2 3 by (auto simp: AMTree_flush_def and_then_eq_Inr)
  then show ?thesis using o1 o2 o3 by (simp add: tree_col_def)
qed

definition commit_ok :: "nat \<Rightarrow> contents \<Rightarrow> ('s, 'g, 'h) commit_state \<Rightarrow> bool" where
  "commit_ok c m s \<longleftrightarrow> forest_col c (cs_forest s) \<and> other_cols c m (cs_world s)"

lemma record_child_ok:
  assumes "record_child D C epoch sp nm index g s = Inr s'" "commit_ok c m s"
  shows "commit_ok c m s'"
  using assms by (auto simp: record_child_def and_then_eq_Inr commit_ok_def
      intro!: put_tree_col dest!: edit_leaf_col subtree_root_mut_col find_tree_col)

lemma commit_tree_ok:
  fixes C :: "'g::ab_group_add Config" and s s' :: "('s, 'g, 'h) commit_state"
  assumes "c < cols" "commit_tree layers D C epoch sp nm s = Inr (r, s')" "commit_ok c m s"
  shows "commit_ok c m s'"
  using assms(2,3)
proof (induction layers arbitrary: nm s s' r)
  case (Suc layers)
  let ?body = "\<lambda>index s1. and_then (commit_tree layers D C epoch sp (child nm index) s1) (\<lambda>((dirty, comm), s2).
           if dirty then record_child D C epoch sp nm index comm s2 else Inr s2)"
  from Suc.prems(1) obtain marks s3 info g w' t' where
    1: "fold_res ?body marks s = Inr s3" "find_tree (cs_forest s3) (name_path nm) = Inr info"
    "(if 0 < length (name_path nm) then AMTree_flush D C (cs_world s3) (twi_tree info)
      else and_then (AMTree_commitment (twi_tree info)) (\<lambda>c. Inr (c, cs_world s3, twi_tree info))) = Inr (g, w', t')"
    "s' = s3\<lparr>cs_world := w', cs_forest := put_tree (cs_forest s3) (name_path nm)
             (info\<lparr>twi_tree := t', mark_in_parent := False, children_marks := []\<rparr>)\<rparr>"
    by (clarsimp simp: and_then_eq_Inr Let_def split del: if_split)
  have 3: "commit_ok c m s3"
    using 1(1) Suc.prems(2)
  proof (rule fold_res_invariant)
    fix x and s t :: "('s, 'g, 'h) commit_state" assume "commit_ok c m s" "?body x s = Inr t"
    then show "commit_ok c m t"
      by (auto simp: and_then_eq_Inr split: if_splits intro: record_child_ok dest: Suc.IH)
  qed
  then have tc: "tree_col c (twi_tree info)" using find_tree_col [OF 1(2)] by (simp add: commit_ok_def)
  have "other_cols c m w' \<and> tree_col c t'"
    using 1(3) tc 3 AMTree_flush_other_cols [OF _ _ tc assms(1)]
    by (auto simp: commit_ok_def and_then_eq_Inr split: if_splits)
  then show ?case using 3 1(4) by (auto simp: commit_ok_def intro!: put_tree_col)
qed simp

lemma VersionTree_commit_other_cols:
  assumes "VersionTree_commit D C epoch sp w pp vt = Inr (g, u, w', pp', vt')" "vt_ok vt" "vt_col vt < cols"
    "inv (store w)"
  shows "inv (store w') \<and> (\<forall>c'. c' \<noteq> vt_col vt \<longrightarrow> kv_get D (store w') c' = kv_get D (store w) c') \<and> vt_ok vt' \<and> vt_col vt' = vt_col vt"
proof -
  let ?s = "\<lparr>cs_world = w, cs_pp = pp, cs_forest = forest vt, cs_updates = recorder_new\<rparr>"
  from assms(1) obtain d s where s: "commit_tree (length (forest vt)) D C epoch sp TreeName_root ?s = Inr ((d, g), s)"
    "w' = cs_world s" "vt' = vt\<lparr>forest := cs_forest s\<rparr>"
    by (auto simp: VersionTree_commit_def and_then_eq_Inr)
  have "commit_ok (vt_col vt) (kv_get D (store w)) ?s" using assms(2,4) by (simp add: commit_ok_def vt_ok_def other_cols_def)
  from commit_tree_ok [OF assms(3) s(1) this] show ?thesis using s by (simp add: commit_ok_def other_cols_def vt_ok_def)
qed

end

section \<open>What the loop over the writes of an epoch produces\<close>

definition kv_hash :: "(bytes \<Rightarrow> h256) \<Rightarrow> Key \<Rightarrow> Value \<Rightarrow> h256" where
  "kv_hash keccak key v = keccak (to_bytes_consensus write_KeyValue
     \<lparr>kv_key = key, kv_version = val_version v, kv_value = val_value v\<rparr>)"

text \<open>The records stored for a list of writes: one per write, with the value
  written, the position of its hash, and a version one above the version before
  the epoch for a key that had one.\<close>

definition records_for ::
  "'s kvdb_ops \<Rightarrow> 's world \<Rightarrow> 'g LvmtDB \<Rightarrow> u64 \<Rightarrow> nat \<Rightarrow> (Key \<times> bytes) list \<Rightarrow> Value list \<Rightarrow> bool" where
  "records_for D w db epoch n kvs vs \<longleftrightarrow> length vs = length kvs \<and>
     (\<forall>i < length kvs. val_value (vs ! i) = snd (kvs ! i) \<and>
        val_position (vs ! i) = \<lparr>ep_epoch = epoch, ep_position = word_of_nat (n + i)\<rparr> \<and>
        (\<forall>old. cached_version D w db (fst (kvs ! i)) = Inr (Some old) \<longrightarrow>
           val_version (vs ! i) = old\<lparr>version := version old + 1\<rparr>))"

lemma commit_keys_ok:
  assumes "fold_res (commit_key keccak D C w db epoch) kvs s = Inr s'" "vt_ok (ps_tree s)"
  shows "vt_ok (ps_tree s') \<and> vt_col (ps_tree s') = vt_col (ps_tree s) \<and>
    (\<exists>vs. records_for D w db epoch (length (ps_hashes s)) kvs vs \<and>
      ps_ops s' = ps_ops s @ map2 (\<lambda>kv v. Insert 0 (fst kv) (to_bytes_local write_Value v)) kvs vs \<and>
      ps_hashes s' = ps_hashes s @ map2 (\<lambda>kv v. kv_hash keccak (fst kv) v) kvs vs)"
  using assms
proof (induction kvs arbitrary: s)
  case (Cons kv kvs)
  obtain key x where kv: "kv = (key, x)" by (cases kv)
  from Cons.prems(1) obtain s1 where s1: "commit_key keccak D C w db epoch kv s = Inr s1"
    "fold_res (commit_key keccak D C w db epoch) kvs s1 = Inr s'" by (auto simp: and_then_eq_Inr)
  from s1(1) obtain old ver pp vt where
    cv: "cached_version D w db key = Inr old" "inc_key_ver D C w key old (ps_pp s) (ps_tree s) = Inr (ver, pp, vt)" and
    v: "ps_tree s1 = vt" "ps_ops s1 = ps_ops s @ [Insert 0 key (to_bytes_local write_Value
           \<lparr>val_value = x, val_version = ver, val_position = \<lparr>ep_epoch = epoch, ep_position = word_of_nat (length (ps_hashes s))\<rparr>\<rparr>)]"
       "ps_hashes s1 = ps_hashes s @ [keccak (to_bytes_consensus write_KeyValue \<lparr>kv_key = key, kv_version = ver, kv_value = x\<rparr>)]"
    by (auto simp: commit_key_def kv and_then_eq_Inr Let_def)
  let ?v = "\<lparr>val_value = x, val_version = ver, val_position = \<lparr>ep_epoch = epoch, ep_position = word_of_nat (length (ps_hashes s))\<rparr>\<rparr>"
  note i = inc_key_ver_ok [OF cv(2) Cons.prems(2)]
  have "vt_ok (ps_tree s1)" using i(1) v(1) by simp
  from Cons.IH [OF s1(2) this] obtain vs where
    ih: "vt_ok (ps_tree s')" "vt_col (ps_tree s') = vt_col (ps_tree s1)"
      "records_for D w db epoch (length (ps_hashes s1)) kvs vs"
      "ps_ops s' = ps_ops s1 @ map2 (\<lambda>kv v. Insert 0 (fst kv) (to_bytes_local write_Value v)) kvs vs"
      "ps_hashes s' = ps_hashes s1 @ map2 (\<lambda>kv v. kv_hash keccak (fst kv) v) kvs vs" by blast
  have "records_for D w db epoch (length (ps_hashes s)) (kv # kvs) (?v # vs)"
    using ih(3) i(3) cv(1) v(3) by (auto simp: records_for_def kv nth_Cons' gr0_conv_Suc)
  moreover have "ps_ops s' = ps_ops s @ map2 (\<lambda>kv v. Insert 0 (fst kv) (to_bytes_local write_Value v)) (kv # kvs) (?v # vs)"
    "ps_hashes s' = ps_hashes s @ map2 (\<lambda>kv v. kv_hash keccak (fst kv) v) (kv # kvs) (?v # vs)"
    using ih(4,5) v kv by (simp_all add: kv_hash_def)
  ultimately show ?case using ih(1,2) i(2) v(1) by metis
qed (auto simp: records_for_def)

text \<open>The last record of a key in a list of writes, and what a batch of them leaves.\<close>

definition last_record :: "(Key \<times> bytes) list \<Rightarrow> Value list \<Rightarrow> Key \<Rightarrow> Value option" where
  "last_record kvs vs key = map_of (rev (zip (map fst kvs) vs)) key"

lemma apply_records:
  "length vs = length kvs \<Longrightarrow>
   apply_ops (map2 (\<lambda>kv v. Insert c (fst kv) (to_bytes_local write_Value v)) kvs vs) m c key =
    (case last_record kvs vs key of Some v \<Rightarrow> Some (to_bytes_local write_Value v) | None \<Rightarrow> m c key)"
proof (induction vs arbitrary: kvs m)
  case (Cons v vs)
  then obtain kv kvs' where "kvs = kv # kvs'" by (cases kvs) auto
  with Cons show ?case
    by (auto simp: last_record_def map_add_def split: option.splits)
qed (simp add: last_record_def)

lemma last_record_value:
  assumes "records_for D w db epoch n kvs vs"
  shows "map_option val_value (last_record kvs vs key) = map_of (rev kvs) key"
proof -
  have l: "length vs = length kvs" and v: "map val_value vs = map snd kvs"
    using assms by (auto simp: records_for_def intro: nth_equalityI)
  have "map_option val_value (map_of xs key) = map_of (map (\<lambda>(k, v). (k, val_value v)) xs) key" for xs :: "(Key \<times> Value) list"
    by (induction xs) auto
  moreover have "map (\<lambda>(k, v). (k, val_value v)) (zip (map fst kvs) vs) = kvs"
    using l v by (metis zip_map2 zip_map_fst_snd)
  ultimately show ?thesis unfolding last_record_def by (simp flip: rev_map)
qed

section \<open>The effect of a commit on the store\<close>

lemma col_distinct [simp]:
  "COL_KEY_NEW \<noteq> COL_MERKLE" "COL_MERKLE \<noteq> COL_KEY_NEW" "COL_KEY_NEW \<noteq> COL_VER_TREE" "COL_MERKLE \<noteq> COL_VER_TREE"
  by (simp_all add: COL_KEY_NEW_def COL_MERKLE_def COL_VER_TREE_def)

lemma dump_levels_col: "acc_col (snd (dump_levels keccak b L xs a)) = acc_col a"
  by (induction L arbitrary: xs a) auto

context kvdb
begin

lemma merkle_dump_other_cols:
  assumes "merkle_dump keccak D w col epoch xs b = (r, w')" "inv (store w)" "col < cols"
  shows "inv (store w') \<and> (\<forall>c. c \<noteq> col \<longrightarrow> kv_get D (store w') c = kv_get D (store w) c)"
proof -
  let ?a = "DBAccess_set (snd (dump_levels keccak b (clog2 (length xs)) xs (DBAccess_new (to_be_bytes 8 epoch) col)))
              0 (word_of_nat (clog2 (length xs)))"
  have col: "acc_col ?a = col" by (simp add: dump_levels_col DBAccess_new_def)
  obtain a' where f: "flush_cache D merkle_ty (w\<lparr>PUT_MODE := 3\<rparr>) ?a = (w', a')"
    using assms(1) by (auto simp: merkle_dump_def Let_def split: prod.splits)
  have "other_cols col (kv_get D (store w)) (w\<lparr>PUT_MODE := 3\<rparr>)" using assms(2) by (simp add: other_cols_def)
  then show ?thesis using flush_other_cols [OF _ _ f, of "kv_get D (store w)"] col assms(3) by (simp add: other_cols_def)
qed

lemma commit_effect:
  fixes pp :: "('g::ab_group_add, 'h) AMTParams"
  assumes com: "LvmtDB_commit keccak D C w pp db = Inr ((ar, mr), w', pp', db')"
    and inv: "inv (store w)" and n: "NUM_COLS \<le> cols"
    and vt: "vt_ok (version_tree db)" "vt_col (version_tree db) = COL_VER_TREE"
  obtains epoch vs ups w2 w3 hashes pp2 db1 where
    "current_epoch D w = Inr epoch"
    "commit_hashes keccak D C w pp db epoch = Inr (ar, hashes, w2, pp2, db1)"
    "hashes = map2 (\<lambda>kv v. kv_hash keccak (fst kv) v) (uncommitted_key_values db) vs @ map (tree_hash keccak C) ups"
    "records_for D w db epoch 0 (uncommitted_key_values db) vs"
    "\<And>key. kv_get D (store w') COL_KEY_NEW key =
       (case last_record (uncommitted_key_values db) vs key of Some v \<Rightarrow> Some (to_bytes_local write_Value v)
        | None \<Rightarrow> kv_get D (store w) COL_KEY_NEW key)"
    "inv (store w2)" "kv_get D (store w2) COL_MERKLE = kv_get D (store w) COL_MERKLE"
    "merkle_dump keccak D w2 COL_MERKLE epoch hashes (only_merkle_root db) = (mr, w3)"
    "kv_get D (store w') COL_MERKLE = (kv_get D (store w3) COL_MERKLE)
       (EPOCH_NUMBER_KEY \<mapsto> to_bytes_local write_u64 (epoch + 1))"
    "inv (store w')" "db_cache db' = []" "uncommitted_key_values db' = []"
    "vt_ok (version_tree db')" "vt_col (version_tree db') = COL_VER_TREE"
proof -
  let ?kvs = "uncommitted_key_values db"
  let ?s0 = "\<lparr>ps_pp = pp, ps_tree = version_tree db, ps_hashes = [], ps_ops = [],
         ps_count = INC_KEY_COUNT db, ps_levels = INC_KEY_LEVEL_SUM db\<rparr>"
  from com obtain epoch hashes w2 pp2 db1 w3 st where
    e: "current_epoch D w = Inr epoch" and ch: "commit_hashes keccak D C w pp db epoch = Inr (ar, hashes, w2, pp2, db1)" and
    m: "merkle_dump keccak D w2 COL_MERKLE epoch hashes (only_merkle_root db) = (mr, w3)" and
    fl: "kv_flush D (DBColumn_write_buffered D (store w3) COL_MERKLE
          [Insert 0 EPOCH_NUMBER_KEY (to_bytes_local write_u64 (epoch + 1))]) = Inr st" and
    w': "store w' = st" "db_cache db' = []" "uncommitted_key_values db' = uncommitted_key_values db1"
      "version_tree db' = version_tree db1"
    by (auto simp: LvmtDB_commit_def and_then_eq_Inr Let_def case_prod_eq_Inr)
  from ch obtain s vt2 updates ups where f: "fold_res (commit_key keccak D C w db epoch) ?kvs ?s0 = Inr s" and
    v: "VersionTree_commit D C epoch (word_of_nat (length (ps_hashes s)))
          (w\<lparr>store := DBColumn_write_buffered D (store w) COL_KEY_NEW (ps_ops s)\<rparr>) (ps_pp s) (ps_tree s)
        = Inr (ar, updates, w2, pp2, vt2)" and
    h: "hashes = ps_hashes s @ map (tree_hash keccak C) ups" and
    d1: "uncommitted_key_values db1 = []" "version_tree db1 = vt2"
    by (auto simp: commit_hashes_def and_then_eq_Inr Let_def)
  have cs: "COL_VER_TREE < cols" "COL_KEY_NEW < cols" "COL_MERKLE < cols"
    using n by (simp_all add: NUM_COLS_def COL_VER_TREE_def COL_KEY_NEW_def COL_MERKLE_def)
  from commit_keys_ok [OF f] vt obtain vs where
    k: "vt_ok (ps_tree s)" "vt_col (ps_tree s) = COL_VER_TREE" "records_for D w db epoch 0 ?kvs vs"
      "ps_ops s = map2 (\<lambda>kv v. Insert 0 (fst kv) (to_bytes_local write_Value v)) ?kvs vs"
      "ps_hashes s = map2 (\<lambda>kv v. kv_hash keccak (fst kv) v) ?kvs vs" by auto
  define w1 where "w1 = w\<lparr>store := DBColumn_write_buffered D (store w) COL_KEY_NEW (ps_ops s)\<rparr>"
  have "other_cols COL_KEY_NEW (kv_get D (store w)) w1"
    unfolding w1_def using inv cs(2) by (intro write_other_cols) (simp_all add: other_cols_def)
  then have w1: "inv (store w1)" "kv_get D (store w1) COL_MERKLE = kv_get D (store w) COL_MERKLE"
    by (simp_all add: other_cols_def COL_KEY_NEW_def COL_MERKLE_def)
  have g1: "kv_get D (store w1) = apply_ops (map (set_col COL_KEY_NEW) (ps_ops s)) (kv_get D (store w))"
    using inv cs(2) by (simp add: w1_def DBColumn_write_buffered_def get_write_buffered)
  have "map (set_col COL_KEY_NEW) (ps_ops s) =
      map2 (\<lambda>kv v. Insert COL_KEY_NEW (fst kv) (to_bytes_local write_Value v)) ?kvs vs"
    by (simp add: k(4) split_def)
  moreover have "length vs = length ?kvs" using k(3) by (simp add: records_for_def)
  ultimately have keys: "kv_get D (store w1) COL_KEY_NEW key =
      (case last_record ?kvs vs key of Some v \<Rightarrow> Some (to_bytes_local write_Value v)
        | None \<Rightarrow> kv_get D (store w) COL_KEY_NEW key)" for key
    unfolding g1 by (simp only: apply_records)
  have v2: "inv (store w2)" "\<And>c. c \<noteq> COL_VER_TREE \<Longrightarrow> kv_get D (store w2) c = kv_get D (store w1) c"
      "vt_ok vt2" "vt_col vt2 = COL_VER_TREE"
    using VersionTree_commit_other_cols [OF v [folded w1_def] k(1)] k(2) cs(1) w1(1) by auto
  have m3: "inv (store w3)" "\<And>c. c \<noteq> COL_MERKLE \<Longrightarrow> kv_get D (store w3) c = kv_get D (store w2) c"
    using merkle_dump_other_cols [OF m v2(1) cs(3)] by auto
  let ?st = "DBColumn_write_buffered D (store w3) COL_MERKLE [Insert 0 EPOCH_NUMBER_KEY (to_bytes_local write_u64 (epoch + 1))]"
  have st: "inv ?st" "kv_get D ?st = (kv_get D (store w3))(COL_MERKLE :=
      (kv_get D (store w3) COL_MERKLE)(EPOCH_NUMBER_KEY \<mapsto> to_bytes_local write_u64 (epoch + 1)))"
    using m3(1) cs(3) by (simp_all add: DBColumn_write_buffered_def inv_write_buffered get_write_buffered ops_in_range_def)
  have w4: "inv (store w')" "kv_get D (store w') = kv_get D ?st"
    using inv_flush [OF st(1) fl] get_flush [OF st(1) fl] w'(1) by simp_all
  show thesis
  proof (rule that [OF e ch h [unfolded k(5)] k(3) _ v2(1) _ m _ w4(1) w'(2)])
    show "uncommitted_key_values db' = []" using w'(3) d1(1) by simp
    show "kv_get D (store w') COL_KEY_NEW key = (case last_record ?kvs vs key of Some v \<Rightarrow> Some (to_bytes_local write_Value v)
        | None \<Rightarrow> kv_get D (store w) COL_KEY_NEW key)" for key
      using keys by (simp add: w4(2) st(2) v2(2) m3(2))
    show "kv_get D (store w2) COL_MERKLE = kv_get D (store w) COL_MERKLE"
      using v2(2) [of COL_MERKLE] w1(2) by (simp add: COL_MERKLE_def COL_VER_TREE_def)
    show "kv_get D (store w') COL_MERKLE = (kv_get D (store w3) COL_MERKLE)
       (EPOCH_NUMBER_KEY \<mapsto> to_bytes_local write_u64 (epoch + 1))" by (simp add: w4(2) st(2))
    show "vt_ok (version_tree db')" "vt_col (version_tree db') = COL_VER_TREE" using v2(3,4) w'(4) d1(2) by simp_all
  qed
qed

end

section \<open>Proofs of committed writes\<close>

lemma last_record_index:
  assumes "records_for D w db epoch n kvs vs" "last_record kvs vs key = Some v"
  obtains i where "i < length kvs" "fst (kvs ! i) = key" "vs ! i = v" "length vs = length kvs"
proof -
  have "(key, v) \<in> set (zip (map fst kvs) vs)" using assms(2) by (auto simp: last_record_def dest: map_of_SomeD)
  then show thesis using that assms(1) by (auto simp: in_set_zip records_for_def)
qed

text \<open>The key of the epoch number is no key of a Merkle node.\<close>

lemma epoch_key_not_node: "compute_key merkle_ty (to_be_bytes 8 (e :: u64)) k \<noteq> EPOCH_NUMBER_KEY"
proof
  assume "compute_key merkle_ty (to_be_bytes 8 e) k = EPOCH_NUMBER_KEY"
  then have "length (compute_key merkle_ty (to_be_bytes 8 e) k) = 2" by (simp add: EPOCH_NUMBER_KEY_def)
  then show False by (simp add: compute_key_def)
qed

lemma stored_tree_transfer:
  assumes "stored_tree keccak D w (DBAccess_new p col) xs"
    and "\<And>k. kv_get D (store w') col (compute_key merkle_ty p k) = kv_get D (store w) col (compute_key merkle_ty p k)"
  shows "stored_tree keccak D w' (DBAccess_new p col) xs"
proof -
  have "acc_view D merkle_ty w' (DBAccess_new p col) = acc_view D merkle_ty w (DBAccess_new p col)"
    by (simp add: fun_eq_iff acc_view_def DBAccess_new_def load_value_def DBColumn_get_def assms(2))
  with assms(1) show ?thesis by (simp add: stored_tree_def)
qed

lemma prove_after_dump:
  assumes D: "kvdb D kv_ok cols" and ok: "kv_ok (store w)" and n: "NUM_COLS \<le> cols"
    and fresh: "fresh_epoch D w COL_MERKLE epoch" and i: "i < length xs" and len: "length xs \<le> 2 ^ 31"
    and nz: "no_zero_node keccak xs" and dump: "merkle_dump keccak D w COL_MERKLE epoch xs False = (r, w3)"
    and w': "kv_get D (store w') COL_MERKLE = (kv_get D (store w3) COL_MERKLE)(EPOCH_NUMBER_KEY \<mapsto> x)"
  shows "\<exists>mp. prove_merkle keccak D w' \<lparr>ep_epoch = epoch, ep_position = word_of_nat i\<rparr> = Inr (epoch, mp) \<and>
    merkle_verify keccak r (xs ! i) mp"
proof -
  have ms: "merkle_store D kv_ok cols" using D by (simp add: merkle_store_def)
  have c: "COL_MERKLE < cols" using n by (simp add: NUM_COLS_def COL_MERKLE_def)
  have pos: "0 < length xs" using i by linarith
  note st = merkle_store.dump_stored [OF ms ok c fresh pos len dump]
  have "stored_tree keccak D w' (DBAccess_new (to_be_bytes 8 epoch) COL_MERKLE) xs"
    by (rule stored_tree_transfer [OF st(1)]) (simp add: w' epoch_key_not_node)
  from merkle_store.new_ok [OF ms this pos len]
  obtain t where t: "StaticMerkleTree_new D w' COL_MERKLE epoch = Inr t" "merkle_depth t = clog2 (length xs)"
    "stored_tree keccak D w' (merkle_data t) xs" "cache_ok D merkle_ty w' (merkle_data t)" by metis
  have "unat (word_of_nat i :: u64) = i" using i len by (simp add: unsigned_of_nat take_bit_nat_eq_self)
  then show ?thesis
    using merkle_store.prove_verify [OF ms t(3,4) i t(2) nz len] t(1) st(2) by (auto simp: prove_merkle_def)
qed

section \<open>A small instance\<close>

text \<open>A fresh database over the 256-element group, 256 leaves per tree, and a
  commit of one write on it, evaluated step by step.\<close>

definition one_params :: "(u8, u8) AMTParams" where
  "one_params = \<lparr>commitments = replicate 256 3, quotients = [], verification = [], pp_g2 = 1,
     indents_cache = replicate 256 [(40, 0), (80, 0)], quotients_cache = []\<rparr>"
definition one_config :: "u8 Config" where "one_config = lvmt_config 8 byte_curve 1 (2 ^ 248)"

definition one_vt :: "u8 Tree \<Rightarrow> u8 VersionTree" where
  "one_vt t = \<lparr>forest = [[([], \<lparr>twi_tree = t, mark_in_parent = True, children_marks = []\<rparr>)]],
     vt_col = COL_VER_TREE, shard_node = None\<rparr>"

definition one_tree :: "(nat \<times> (Node \<times> bool)) list \<Rightarrow> bool \<Rightarrow> u8 Tree" where
  "one_tree c d = \<lparr>tree_name = TreeName [], tree_data = \<lparr>acc_prefix = [1, 0], acc_col = 0, acc_cache = c\<rparr>,
    subtree_roots = \<lparr>acc_prefix = [3, 0], acc_col = 0, acc_cache = []\<rparr>,
    inner_nodes = \<lparr>acc_prefix = [2, 0], acc_col = 0, acc_cache = []\<rparr>,
    tree_commitment = Some 0, tree_dirty = d, shard_root = None\<rparr>"

definition one_db :: "(Key \<times> bytes) list \<Rightarrow> u8 LvmtDB" where
  "one_db kvs = \<lparr>version_tree = one_vt (one_tree [] False), db_cache = [], uncommitted_key_values = kvs,
     dirty_guard = False, only_merkle_root = False, INC_KEY_COUNT = 0, INC_KEY_LEVEL_SUM = 0\<rparr>"

lemma one_config_fields:
  "DEPTHS one_config = 8" "data_ty one_config = node_data_ty" "as_fr_int one_config = Node_as_fr_int"
  "name_write one_config = write_TreeName" "LENGTH_of one_config = 256"
  by (simp_all add: one_config_def lvmt_config_def LENGTH_of_def)

lemma one_db_new: "LvmtDB_new plain_kvdb one_config empty_world False None = Inr (one_db [])"
  by (simp add: LvmtDB_new_def VersionTree_new_def DBColumn_get_def TreeProducer_new_tree_def one_db_def one_vt_def
    one_tree_def plain_kvdb_def empty_world_def COL_VER_TREE_def TreeName_root_def set_commitment_def AMTree_new_def Let_def
    one_config_fields to_bytes_consensus_def write_TreeName_def DBAccess_new_def write_u8_def level_index_def to_le_bytes_def)

lemma one_key: "index_at_level 8 [7, 1] 0 = Inr 7" "tree_at_level 8 [7, 1] 0 = Inr (TreeName [])"
  using index_at_level_aligned [of 1 0 "[7, 1]"] by (simp_all add: tree_at_level_def level_bytes_def nat_be_def Let_def)

lemma one_vt_get: "get_tree_mut plain_kvdb one_config w (one_vt t) (TreeName []) = Inr (one_vt t)"
  by (simp add: one_vt_def get_tree_mut_def Let_def ensure_tree_def find_tree_def)

lemma one_vt_on: "on_tree (one_vt t) (TreeName []) g = and_then (g t) (\<lambda>(x, t'). Inr (x, one_vt t'))"
  by (simp add: one_vt_def on_tree_def find_tree_def put_tree_def)

lemma pow_40:
  "limbs (fr_int_pow_2 40) = [1099511627776, 0, 0, 0]" "trailing_zeros 1099511627776 = 40" "trailing_zeros 0 = 64"
  "(1099511627776::u64) XOR push_bit 40 1 = 0"
  by code_simp+

lemma one_pow: "get_idents_pow one_params 7 (fr_int_pow_2 40) = Inr (0, one_params)"
  by (simp add: get_idents_pow_def one_params_def nth_res_def pow_40 pow_limb.simps cached_pow_def list_update_same_conv)

definition one_node :: "u64 list \<Rightarrow> Node" where
  "one_node vs = \<lparr>key_versions = vs, tree_version = 0, tree_position = \<lparr>ep_epoch = 0, ep_position = 0\<rparr>\<rparr>"

lemma one_node_fr: "Node_as_fr_int (one_node []) = Inr 0" "Node_as_fr_int (one_node [0]) = Inr 0"
   by code_simp+

lemma one_default: "v_default node_data_ty = one_node []"
  by (simp add: node_data_ty_def one_node_def Node_default_def EpochPosition_default_def)

lemma upt_32: "[0..<32] = 0 # [1..<32]" by (simp add: upt_conv_Cons)

lemma one_get: "AMTree_get plain_kvdb one_config empty_world (one_tree [] False) 7 = Inr (one_node [], one_tree [(7, one_node [], False)] False)"
  by (simp add: AMTree_get_def one_config_fields DBAccess_get_def ensure_cached_def load_value_def DBColumn_get_def
    plain_kvdb_def empty_world_def one_tree_def one_default)

lemma one_edit: "edit_leaf plain_kvdb one_config empty_world one_params 7 push_version (one_tree [(7, one_node [], False)] False)
  = Inr ((0, one_params), one_tree [(7, one_node [0], True)] False)"
proof -
  have "one_node []\<lparr>key_versions := [0]\<rparr> = one_node [0]" "key_versions (one_node []) = []" by (simp_all add: one_node_def)
  then show ?thesis
  by (simp add: edit_leaf_def write_versions_def DBAccess_get_def DBAccess_get_mut_def ensure_cached_def one_tree_def one_config_fields one_default
   push_version_def one_node_fr guard_drop_def AMTree_get_mut_def Let_def AMTree_update_def)
qed

lemma one_alloc: "allocate_vacant_slot plain_kvdb one_config empty_world [7, 1] one_params (one_vt (one_tree [] False)) =
  Inr (\<lparr>version = 0, level = 0, slot_index = 0\<rparr>, one_params, one_vt (one_tree [(7, one_node [0], True)] False))"
  by (simp add: allocate_vacant_slot_def upt_32 one_config_fields one_key one_vt_get one_vt_on one_get one_edit)
   (simp add: one_node_def)
lemma one_update: "AMTree_update plain_kvdb one_config empty_world one_params (one_tree c d) 7 (fr_int_pow_2 40) = Inr (one_tree c True, one_params)"
proof -
  have "fr_int_pow_2 40 \<noteq> 0" by code_simp
  then show ?thesis by (simp add: AMTree_update_def one_config_fields one_pow one_tree_def Let_def)
qed

lemma one_inc: "inc_key_ver plain_kvdb one_config empty_world [7, 1] None one_params (one_vt (one_tree [] False)) =
  Inr (\<lparr>version = 1, level = 0, slot_index = 0\<rparr>, one_params, one_vt (one_tree [(7, one_node [0], True)] True))"
proof -
  have "shard_node (one_vt t) = None" for t by (simp add: one_vt_def)
  then show ?thesis
    by (simp add: inc_key_ver_def one_alloc one_config_fields one_key one_vt_get one_vt_on in_proof_shard_def
        one_update MAX_VERSION_NUMBER_def)
qed

definition one_value :: Value where
  "one_value = \<lparr>val_value = [42], val_version = \<lparr>version = 1, level = 0, slot_index = 0\<rparr>, val_position = \<lparr>ep_epoch = 0, ep_position = 0\<rparr>\<rparr>"

lemma one_commit_key: "commit_key weak_hash plain_kvdb one_config empty_world (one_db kvs) 0 ([7, 1], [42])
  \<lparr>ps_pp = one_params, ps_tree = one_vt (one_tree [] False), ps_hashes = [], ps_ops = [], ps_count = 0, ps_levels = 0\<rparr> =
  Inr \<lparr>ps_pp = one_params, ps_tree = one_vt (one_tree [(7, one_node [0], True)] True), ps_hashes = [kv_hash weak_hash [7, 1] one_value],
   ps_ops = [Insert 0 [7, 1] (to_bytes_local write_Value one_value)], ps_count = 1, ps_levels = 1\<rparr>"
proof -
  have "cached_version plain_kvdb empty_world (one_db kvs) [7, 1] = Inr None"
    by (simp add: cached_version_def one_db_def stored_value_def DBColumn_get_def plain_kvdb_def empty_world_def)
  then show ?thesis by (simp add: commit_key_def one_inc Let_def kv_hash_def one_value_def)
qed
lemma one_vt_commit:
  "\<exists>vt2. VersionTree_commit plain_kvdb one_config e p w pp (one_vt (one_tree c True)) = Inr (0, recorder_new, w, pp, vt2)"
  by (simp add: VersionTree_commit_def one_vt_def find_tree_def TreeName_root_def AMTree_commitment_def Let_def one_tree_def)

lemma one_commit_hashes:
  "\<exists>w2 db1. commit_hashes weak_hash plain_kvdb one_config empty_world one_params (one_db [([7, 1], [42])]) 0 =
     Inr (0, [kv_hash weak_hash [7, 1] one_value], w2, one_params, db1)"
proof -
  let ?db = "one_db [([7, 1], [42])]"
  have db: "uncommitted_key_values ?db = [([7, 1], [42])]" "version_tree ?db = one_vt (one_tree [] False)"
    "INC_KEY_COUNT ?db = 0" "INC_KEY_LEVEL_SUM ?db = 0" by (simp_all add: one_db_def)
  obtain vt2 where "VersionTree_commit plain_kvdb one_config 0 1 (empty_world\<lparr>store := DBColumn_write_buffered plain_kvdb (store empty_world)
      COL_KEY_NEW [Insert 0 [7, 1] (to_bytes_local write_Value one_value)]\<rparr>) one_params
      (one_vt (one_tree [(7, one_node [0], True)] True)) = Inr (0, recorder_new, empty_world\<lparr>store := DBColumn_write_buffered plain_kvdb (store empty_world)
      COL_KEY_NEW [Insert 0 [7, 1] (to_bytes_local write_Value one_value)]\<rparr>, one_params, vt2)" using one_vt_commit by blast
  then show ?thesis by (simp add: commit_hashes_def db one_commit_key Let_def recorder_new_def)
qed

lemma one_epoch: "current_epoch plain_kvdb empty_world = Inr 0"
  by (simp add: current_epoch_def DBColumn_get_def plain_kvdb_def empty_world_def)

lemma one_commit:
  obtains mroot w' db' where "LvmtDB_commit weak_hash plain_kvdb one_config empty_world one_params (one_db [([7, 1], [42])]) =
    Inr ((0, mroot), w', one_params, db')"
proof -
  from one_commit_hashes obtain w2 db1 where c: "commit_hashes weak_hash plain_kvdb one_config empty_world one_params (one_db [([7, 1], [42])]) 0 =
     Inr (0, [kv_hash weak_hash [7, 1] one_value], w2, one_params, db1)" by blast
  obtain r w3 where "merkle_dump weak_hash plain_kvdb w2 COL_MERKLE 0 [kv_hash weak_hash [7, 1] one_value]
    (only_merkle_root (one_db [([7, 1], [42])])) = (r, w3)" by fastforce
  moreover have "kv_flush plain_kvdb x = Inr x" for x by (simp add: plain_kvdb_def)
  ultimately show thesis using that c by (simp add: LvmtDB_commit_def one_epoch Let_def)
qed

lemma one_db_ok: "vt_ok (version_tree (one_db kvs))" "vt_col (version_tree (one_db kvs)) = COL_VER_TREE"
  by (simp_all add: one_db_def one_vt_def vt_ok_def COL_VER_TREE_def forest_col_def tree_col_def one_tree_def)

section \<open>Properties\<close>

text \<open>C1. Read after commit: when a commit of LVMT returns, reading any key gives
  the value of the last write of that key among the writes of the epoch, and a key
  that was not written reads as before.  The state of the tree is any state whose
  trees write to their own column, the store any store that keeps the interface's
  laws, and the hash function and the curve are arbitrary.\<close>

theorem lvmt_read_after_commit:
  assumes "kvdb D kv_ok cols" and "kv_ok (store w)" and "NUM_COLS \<le> cols"
    and "vt_ok (version_tree db)" and "vt_col (version_tree db) = COL_VER_TREE"
    and "list_all (\<lambda>(k, x). length x < 2 ^ 64) (uncommitted_key_values db)"
    and "LvmtDB_commit keccak D C w pp db = Inr (roots, w', pp', db')"
    and "stored_value D w key = Inr before"
  shows "\<exists>db''. LvmtDB_get D w' db' key =
    Inr (case map_of (rev (uncommitted_key_values db)) key of Some x \<Rightarrow> Some x | None \<Rightarrow> map_option val_value before, db'')"
proof -
  let ?kvs = "uncommitted_key_values db"
  obtain ar mr where roots: "roots = (ar, mr)" by (cases roots)
  from kvdb.commit_effect [OF assms(1) assms(7) [unfolded roots] assms(2-5)]
  obtain epoch vs where r: "records_for D w db epoch 0 ?kvs vs" and
    g: "\<And>key. kv_get D (store w') COL_KEY_NEW key =
       (case last_record ?kvs vs key of Some v \<Rightarrow> Some (to_bytes_local write_Value v)
        | None \<Rightarrow> kv_get D (store w) COL_KEY_NEW key)" and c: "db_cache db' = []" by metis
  note lv = last_record_value [OF r, of key]
  show ?thesis
  proof (cases "last_record ?kvs vs key")
    case None
    then have "stored_value D w' key = Inr before" using assms(8) by (simp add: stored_value_def DBColumn_get_def g)
    moreover have "map_of (rev ?kvs) key = None" using lv None by simp
    ultimately show ?thesis by (simp add: LvmtDB_get_def c)
  next
    case (Some v)
    then have m: "map_of (rev ?kvs) key = Some (val_value v)" using lv by simp
    then have "(key, val_value v) \<in> set ?kvs" by (auto dest: map_of_SomeD)
    then have "length (val_value v) < 2 ^ 64" using assms(6) by (auto simp: list_all_iff)
    then have "stored_value D w' key = Inr (Some v)"
      by (simp add: stored_value_def DBColumn_get_def g Some value_codec.from_to_bytes_local)
    then show ?thesis using m by (simp add: LvmtDB_get_def c)
  qed
qed

theorem lvmt_read_after_commit_witness:
  "\<exists>roots w' pp' db' db''.
     LvmtDB_commit weak_hash plain_kvdb one_config empty_world one_params (one_db [([7, 1], [42])]) = Inr (roots, w', pp', db') \<and>
     LvmtDB_get plain_kvdb w' db' [7, 1] = Inr (Some [42], db'')"
proof -
  obtain mroot w' db' where c: "LvmtDB_commit weak_hash plain_kvdb one_config empty_world one_params
     (one_db [([7, 1], [42])]) = Inr ((0, mroot), w', one_params, db')" by (rule one_commit)
  have u: "uncommitted_key_values (one_db kvs) = kvs" for kvs by (simp add: one_db_def)
  have "stored_value plain_kvdb empty_world [7, 1] = Inr None"
    by (simp add: stored_value_def DBColumn_get_def plain_kvdb_def empty_world_def)
  from lvmt_read_after_commit [OF plain.kvdb_axioms [of NUM_COLS] _ _ one_db_ok _ c this] c
  show ?thesis by (auto simp: u)
qed

text \<open>C2. Committed writes can be proved, under these conditions: the database keeps its Merkle trees
  (\<open>only_merkle_root\<close> is not set; the adapter of the benchmark sets it, and then \<open>dump\<close> keeps nothing
  to prove from), the store has nothing yet under the number of the epoch, no node of the epoch's tree is the zero word
  (which is how an absent node reads), the epoch has at most \<open>2 ^ 31\<close> hashes, and the values are shorter than \<open>2 ^ 64\<close>
  bytes.  Then, after the commit, the record stored for a key written in the epoch holds the last value written to it
  and a position from which \<open>prove_merkle\<close> gives a proof, and that proof verifies against the Merkle root
  the commit returned, for the hash of the key with the stored version and value.\<close>

theorem lvmt_committed_value_has_merkle_proof:
  assumes "kvdb D kv_ok cols" and "kv_ok (store w)" and "NUM_COLS \<le> cols"
    and "vt_ok (version_tree db)" and "vt_col (version_tree db) = COL_VER_TREE"
    and "list_all (\<lambda>(k, x). length x < 2 ^ 64) (uncommitted_key_values db)"
    and "LvmtDB_commit keccak D C w pp db = Inr ((aroot, mroot), w', pp', db')"
    and "\<not> only_merkle_root db" and "current_epoch D w = Inr epoch" and "fresh_epoch D w COL_MERKLE epoch"
    and "commit_hashes keccak D C w pp db epoch = Inr (aroot, hashes, w2, pp2, db1)"
    and "length hashes \<le> 2 ^ 31" and "no_zero_node keccak hashes"
    and "map_of (rev (uncommitted_key_values db)) key = Some x"
  shows "\<exists>v mp. stored_value D w' key = Inr (Some v) \<and> val_value v = x \<and>
    prove_merkle keccak D w' (val_position v) = Inr (epoch, mp) \<and>
    merkle_verify keccak mroot (kv_hash keccak key v) mp"
proof -
  let ?kvs = "uncommitted_key_values db"
  show ?thesis
  proof (rule kvdb.commit_effect [OF assms(1) assms(7) assms(2-5)])
    fix epoch' vs ups w2' w3 hashes' pp2' db1'
    assume e: "current_epoch D w = Inr epoch'"
      and ch: "commit_hashes keccak D C w pp db epoch' = Inr (aroot, hashes', w2', pp2', db1')"
      and h: "hashes' = map2 (\<lambda>kv v. kv_hash keccak (fst kv) v) ?kvs vs @ map (tree_hash keccak C) ups"
      and r: "records_for D w db epoch' 0 ?kvs vs"
      and g: "\<And>key. kv_get D (store w') COL_KEY_NEW key =
         (case last_record ?kvs vs key of Some v \<Rightarrow> Some (to_bytes_local write_Value v)
          | None \<Rightarrow> kv_get D (store w) COL_KEY_NEW key)"
      and w2: "kv_ok (store w2')" "kv_get D (store w2') COL_MERKLE = kv_get D (store w) COL_MERKLE"
      and m: "merkle_dump keccak D w2' COL_MERKLE epoch' hashes' (only_merkle_root db) = (mroot, w3)"
      and w': "kv_get D (store w') COL_MERKLE = (kv_get D (store w3) COL_MERKLE)
         (EPOCH_NUMBER_KEY \<mapsto> to_bytes_local write_u64 (epoch' + 1))"
    have eq: "epoch' = epoch" "hashes' = hashes" using e ch assms(9,11) by auto
    obtain v where v: "last_record ?kvs vs key = Some v" "val_value v = x"
      using last_record_value [OF r, of key] assms(14) by auto
    obtain i where i: "i < length ?kvs" "fst (?kvs ! i) = key" "vs ! i = v" "length vs = length ?kvs"
      by (rule last_record_index [OF r v(1)])
    have "(key, x) \<in> set ?kvs" using assms(14) by (auto dest: map_of_SomeD)
    then have "length (val_value v) < 2 ^ 64" using assms(6) v(2) by (auto simp: list_all_iff)
    then have sv: "stored_value D w' key = Inr (Some v)"
      by (simp add: stored_value_def DBColumn_get_def g v(1) value_codec.from_to_bytes_local)
    have pos: "val_position v = \<lparr>ep_epoch = epoch, ep_position = word_of_nat i\<rparr>"
      using r i by (auto simp: records_for_def eq)
    have hi: "i < length hashes" "hashes ! i = kv_hash keccak key v"
      using h i by (simp_all add: eq nth_append)
    have fresh: "fresh_epoch D w2' COL_MERKLE epoch" using assms(10) w2(2) by (simp add: fresh_epoch_def)
    have "\<exists>mp. prove_merkle keccak D w' \<lparr>ep_epoch = epoch, ep_position = word_of_nat i\<rparr> = Inr (epoch, mp) \<and>
        merkle_verify keccak mroot (hashes ! i) mp"
      by (rule prove_after_dump [OF assms(1) w2(1) assms(3) fresh hi(1) assms(12,13) _ w' [unfolded eq]])
        (use m assms(8) eq in simp)
    then show ?thesis using sv v(2) pos hi(2) by auto
  qed
qed

theorem lvmt_committed_value_has_merkle_proof_witness:
  "\<exists>aroot mroot w' pp' db' v mp.
     LvmtDB_commit weak_hash plain_kvdb one_config empty_world one_params (one_db [([7, 1], [42])]) =
       Inr ((aroot, mroot), w', pp', db') \<and>
     stored_value plain_kvdb w' [7, 1] = Inr (Some v) \<and> val_value v = [42] \<and>
     prove_merkle weak_hash plain_kvdb w' (val_position v) = Inr (0, mp) \<and>
     merkle_verify weak_hash mroot (kv_hash weak_hash [7, 1] v) mp"
proof -
  obtain mroot w' db' where c: "LvmtDB_commit weak_hash plain_kvdb one_config empty_world one_params
     (one_db [([7, 1], [42])]) = Inr ((0, mroot), w', one_params, db')" by (rule one_commit)
  obtain w2 db1 where h: "commit_hashes weak_hash plain_kvdb one_config empty_world one_params (one_db [([7, 1], [42])]) 0 =
     Inr (0, [kv_hash weak_hash [7, 1] one_value], w2, one_params, db1)" using one_commit_hashes by blast
  have u: "uncommitted_key_values (one_db kvs) = kvs" "\<not> only_merkle_root (one_db kvs)" for kvs by (simp_all add: one_db_def)
  have f: "fresh_epoch plain_kvdb empty_world COL_MERKLE 0" by (simp add: fresh_epoch_def plain_kvdb_def empty_world_def)
  have z: "no_zero_node weak_hash [kv_hash weak_hash [7, 1] one_value]"
  proof -
    have "kv_hash weak_hash [7, 1] one_value \<noteq> 0" by code_simp
    then show ?thesis by (simp add: no_zero_node_def clog2.simps)
  qed
  from lvmt_committed_value_has_merkle_proof [OF plain.kvdb_axioms [of NUM_COLS] _ _ one_db_ok _ c u(2) one_epoch f h _ z, of "[7, 1]" "[42]"] c
  show ?thesis by (auto simp: u)
qed

end
