(* ===== verification/LvmtVerify.thy ===== *)
theory LvmtVerify
  imports LvmtProofs
begin

text \<open>
  What an accepted LVMT proof shows.  The value of an accepted proof was
  committed for its key in the epoch the proof names, up to a collision of the
  hash function; the checks do not relate the version of the value to the
  version in the leaf, so the record of any earlier epoch with the same slot
  is accepted in its place.
\<close>

lemma then_check_accept: "then_check a b = Inr (Inr ()) \<longleftrightarrow> a = Inr (Inr ()) \<and> b = Inr (Inr ())"
  by (cases "(a, b)" rule: then_check.cases) auto

lemma check_accept: "check b e = Inr () \<longleftrightarrow> b"
  by (simp add: check_def)

lemmas accept_simps = then_check_accept check_accept and_then_eq_Inr

text \<open>What the leaves of an epoch's Merkle tree are the hashes of: the records of
  the keys and those of the updated subtrees.\<close>

definition record_enc :: "KeyValue \<Rightarrow> bytes" where
  "record_enc r = to_bytes_consensus write_KeyValue r"

definition tree_enc :: "'g Config \<Rightarrow> TreeName \<times> u64 \<times> 'g \<Rightarrow> bytes" where
  "tree_enc C u = (case u of (nm, ver, comm) \<Rightarrow>
     to_bytes_consensus (write_TreeValue (curve C)) \<lparr>tv_key = nm, tv_version_number = ver, tv_commitment = comm\<rparr>)"

definition epoch_encodings :: "'g Config \<Rightarrow> KeyValue list \<Rightarrow> (TreeName \<times> u64 \<times> 'g) list \<Rightarrow> bytes list" where
  "epoch_encodings C rs ups = map record_enc rs @ map (tree_enc C) ups"

lemma epoch_hashes: "map keccak (epoch_encodings C rs ups) = map (keccak \<circ> record_enc) rs @ map (tree_hash keccak C) ups"
  by (auto simp: epoch_encodings_def tree_enc_def tree_hash_def)

section \<open>Accepted Merkle proofs\<close>

lemma climb_snoc:
  "\<exists>x. (x = pair_bytes (merkle_climb keccak pos k h ps) p \<or> x = pair_bytes p (merkle_climb keccak pos k h ps)) \<and>
     merkle_climb keccak pos k h (ps @ [p]) = keccak x \<and>
     climb_inputs keccak pos k h (ps @ [p]) = insert x (climb_inputs keccak pos k h ps)"
proof (induction ps arbitrary: k h)
  case (Cons q ps)
  let ?y = "if drop_bit (k mod 64) pos mod 2 = 0 then pair_bytes h q else pair_bytes q h"
  have s: "merkle_climb keccak pos k h (q # l) = merkle_climb keccak pos (Suc k) (keccak ?y) l"
    "climb_inputs keccak pos k h (q # l) = insert ?y (climb_inputs keccak pos (Suc k) (keccak ?y) l)" for l
    by (simp_all add: combine_hash_def pair_bytes_def Let_def)
  obtain x where "x = pair_bytes (merkle_climb keccak pos (Suc k) (keccak ?y) ps) p \<or>
      x = pair_bytes p (merkle_climb keccak pos (Suc k) (keccak ?y) ps)"
    "merkle_climb keccak pos (Suc k) (keccak ?y) (ps @ [p]) = keccak x"
    "climb_inputs keccak pos (Suc k) (keccak ?y) (ps @ [p]) = insert x (climb_inputs keccak pos (Suc k) (keccak ?y) ps)"
    using Cons.IH [of "Suc k" "keccak ?y"] by blast
  then show ?case unfolding append_Cons s by (intro exI [of _ x] conjI) (simp_all only: insert_commute)
qed (auto simp: Let_def combine_hash_def pair_bytes_def [symmetric])

lemma level_inputs_members:
  "pair_bytes a b \<in> set (level_inputs keccak l) \<Longrightarrow> {a, b} \<subseteq> insert (keccak []) (set l)"
  by (induction keccak l rule: level_inputs.induct) auto

lemma pair_bytes_not_Nil: "pair_bytes a b \<noteq> []" "[] \<noteq> pair_bytes a b"
  by (auto simp: pair_bytes_def dest: arg_cong [where f = length])

definition collides :: "('a \<Rightarrow> 'b) \<Rightarrow> 'a set \<Rightarrow> 'a set \<Rightarrow> bool" where
  "collides f A B \<longleftrightarrow> (\<exists>x\<in>A. \<exists>y\<in>B. x \<noteq> y \<and> f x = f y)"

lemma collides_mono: "collides f A B \<Longrightarrow> A \<subseteq> A' \<Longrightarrow> B \<subseteq> B' \<Longrightarrow> collides f A' B'"
  by (auto simp: collides_def)

lemma collides_or_eq: "f x = f y \<Longrightarrow> x \<in> A \<Longrightarrow> y \<in> B \<Longrightarrow> x = y \<or> collides f A B"
  by (auto simp: collides_def)

text \<open>A path of any length, read from the root down: as long as no two inputs
  collide, every value on the way is a node of the dumped tree or the padding,
  so the hash it starts from is a node, or the path goes below a leaf.\<close>

lemma climb_accounts:
  assumes "merkle_climb keccak pos k h ps \<in> insert (keccak []) (set (level_at keccak xs j))" and "j \<le> clog2 (length xs)"
  shows "h = keccak [] \<or> (\<exists>i\<le>j. h \<in> set (level_at keccak xs i)) \<or>
    (\<exists>x\<in>climb_inputs keccak pos k h ps. keccak x \<in> set xs) \<or>
    collides keccak (climb_inputs keccak pos k h ps) (insert [] (dump_inputs keccak xs))"
  using assms
proof (induction ps arbitrary: j rule: rev_induct)
  case (snoc p ps)
  let ?v = "merkle_climb keccak pos k h ps"
  obtain x where x: "x = pair_bytes ?v p \<or> x = pair_bytes p ?v" "merkle_climb keccak pos k h (ps @ [p]) = keccak x"
    "climb_inputs keccak pos k h (ps @ [p]) = insert x (climb_inputs keccak pos k h ps)"
    using climb_snoc [of keccak pos k h ps p] by blast
  have ne: "x \<noteq> []" using x(1) by (auto simp: pair_bytes_not_Nil)
  show ?case
  proof (cases "keccak x = keccak []")
    case True
    then show ?thesis using ne x(3) by (auto simp: collides_def)
  next
    case False
    then have m: "keccak x \<in> set (level_at keccak xs j)" using snoc.prems(1) x(2) by simp
    show ?thesis
    proof (cases j)
      case 0
      then show ?thesis using m x(3) by auto
    next
      case (Suc i)
      then obtain y where y: "y \<in> set (level_inputs keccak (level_at keccak xs i))" "keccak x = keccak y"
        using m by (auto simp: level_at_Suc next_level_inputs)
      have d: "y \<in> dump_inputs keccak xs" using y(1) Suc snoc.prems(2) by (auto simp: dump_inputs_def)
      show ?thesis
      proof (cases "x = y")
        case True
        then have "?v \<in> insert (keccak []) (set (level_at keccak xs i))"
          using x(1) y(1) level_inputs_members [of _ _ keccak "level_at keccak xs i"] by blast
        then have "h = keccak [] \<or> (\<exists>i'\<le>i. h \<in> set (level_at keccak xs i')) \<or>
            (\<exists>x\<in>climb_inputs keccak pos k h ps. keccak x \<in> set xs) \<or>
            collides keccak (climb_inputs keccak pos k h ps) (insert [] (dump_inputs keccak xs))"
          by (rule snoc.IH) (use Suc snoc.prems(2) in simp)
        then show ?thesis using x(3) Suc collides_mono [OF _ subset_insertI order_refl] by (metis insertI2 le_SucI)
      next
        case False
        then show ?thesis using y(2) d x(3) by (auto simp: collides_def)
      qed
    qed
  qed
qed auto

lemma accepted_input:
  assumes "merkle_verify keccak (fst (merkle_dump keccak D w col epoch (map keccak es) b)) (keccak c) (path, pos)"
    and "es \<noteq> []" and "c \<noteq> []"
  shows "c \<in> set es \<or> c \<in> dump_inputs keccak (map keccak es) \<or>
    climb_inputs keccak pos 0 (keccak c) path \<inter> set es \<noteq> {} \<or>
    collides keccak (insert c (climb_inputs keccak pos 0 (keccak c) path))
      (insert [] (set es \<union> dump_inputs keccak (map keccak es)))"
proof -
  let ?xs = "map keccak es" and ?I = "climb_inputs keccak pos 0 (keccak c) path"
  let ?A = "insert c ?I" and ?B = "insert [] (set es \<union> dump_inputs keccak ?xs)"
  have "merkle_climb keccak pos 0 (keccak c) path = level_at keccak ?xs (clog2 (length ?xs)) ! 0"
    using assms(1,2) by (simp add: merkle_verify_def dump_root)
  then have "merkle_climb keccak pos 0 (keccak c) path \<in> insert (keccak []) (set (level_at keccak ?xs (clog2 (length ?xs))))"
    using top_level [of ?xs keccak] assms(2) by simp
  from climb_accounts [OF this order_refl] consider
    "keccak c = keccak []" | i where "i \<le> clog2 (length ?xs)" "keccak c \<in> set (level_at keccak ?xs i)"
    | x where "x \<in> ?I" "keccak x \<in> set ?xs" | "collides keccak ?I (insert [] (dump_inputs keccak ?xs))" by blast
  then show ?thesis
  proof cases
    case 1
    then show ?thesis using collides_or_eq [of keccak c "[]" ?A ?B] assms(3) by simp
  next
    case (2 i)
    show ?thesis
    proof (cases i)
      case 0
      then obtain e where "e \<in> set es" "keccak c = keccak e" using 2 by auto
      then show ?thesis using collides_or_eq [of keccak c e ?A ?B] by auto
    next
      case (Suc j)
      then obtain y where y: "y \<in> set (level_inputs keccak (level_at keccak ?xs j))" "keccak c = keccak y"
        using 2 by (auto simp: level_at_Suc next_level_inputs)
      have "y \<in> dump_inputs keccak ?xs" using y(1) Suc 2(1) by (auto simp: dump_inputs_def)
      then show ?thesis using collides_or_eq [of keccak c y ?A ?B] y(2) by auto
    qed
  next
    case (3 x)
    then obtain e where "e \<in> set es" "keccak x = keccak e" by auto
    then show ?thesis using collides_or_eq [of keccak x e ?A ?B] 3(1) by auto
  next
    case 4
    then have "collides keccak ?A ?B" by (rule collides_mono) auto
    then show ?thesis by blast
  qed
qed

section \<open>Proofs of one level\<close>

text \<open>The last level's Merkle fields are read by the check of the value alone.\<close>

lemma amt_levels_merkle:
  "verify_amt_levels pairing C pp key l (lps @ [lp\<lparr>merkle_epoch := e, merkle_proof := mp\<rparr>]) =
   verify_amt_levels pairing C pp key l (lps @ [lp])"
  by (induction lps arbitrary: l) simp_all

lemma verify_rest_merkle:
  "verify_rest keccak C key epoch_root l (lps @ [lp\<lparr>merkle_epoch := e, merkle_proof := mp\<rparr>]) =
   verify_rest keccak C key epoch_root l (lps @ [lp])"
proof (induction lps arbitrary: l)
  case (Cons a lps)
  then show ?case by (cases lps) simp_all
qed simp

text \<open>A proof of one level that is accepted.\<close>

definition one_level :: "u64 \<Rightarrow> u8 LevelProof" where
  "one_level e = \<lparr>merkle_epoch = e, merkle_proof = ([], 0), level_amt_proof = [], level_commitment = 0,
     node_fr_int = 0, node_version = 0\<rparr>"

definition one_ap :: AssociateProof where
  "one_ap = \<lparr>ap_value = Some [42], ap_ver_info = \<lparr>version = 8, level = 0, slot_index = 0\<rparr>\<rparr>"

lemma one_hash:
  "weak_hash (to_bytes_consensus write_KeyValue
     \<lparr>kv_key = [7, 1], kv_version = \<lparr>version = 1, level = 0, slot_index = 0\<rparr>, kv_value = [9]\<rparr>) = 30"
  "weak_hash (to_bytes_consensus write_KeyValue
     \<lparr>kv_key = [7, 1], kv_version = \<lparr>version = 8, level = 0, slot_index = 0\<rparr>, kv_value = [42]\<rparr>) = 30"
  by code_simp+

lemma one_accepted:
  "LvmtDB_verify weak_hash (*) one_config [7, 1] (one_ap, [] @ [one_level 5]) (\<lambda>_. 30) one_params = Inr (Inr ())"
proof -
  have v: "versions_from_fr_int 0 (Suc 0) = Inr 0" by code_simp
  have c: "get_commitments one_params 7 = Inr 3" by (simp add: get_commitments_def nth_res_def one_params_def)
  have r: "fr_modulus one_config = 2 ^ 248" by (simp add: one_config_def lvmt_config_def)
  show ?thesis
    by (simp add: LvmtDB_verify_def accept_simps verify_bottom_def verify_bottom_version_def merkle_verify_def one_hash v
        one_config_fields one_key r AMTree_verify_def c Let_def one_ap_def one_level_def)
qed

text \<open>C32. An accepted proof does not fix the version of its value: whenever
  \<open>verify\<close> accepts a proof for a key, it also accepts the proof in which the
  value, the version number and the level are those of any other record of that
  key with the same slot index that some epoch root contains, with that epoch's
  Merkle proof in the last level.  So a value that was overwritten later still
  verifies against the current commitments.\<close>

theorem lvmt_verify_accepts_any_record_of_slot:
  assumes "LvmtDB_verify keccak pairing C key (ap, lps @ [lp]) epoch_root pp = Inr (Inr ())"
    and "slot_index vi = slot_index (ap_ver_info ap)"
    and "merkle_verify keccak (epoch_root e)
      (keccak (to_bytes_consensus write_KeyValue \<lparr>kv_key = key, kv_version = vi, kv_value = x\<rparr>)) mp"
  shows "LvmtDB_verify keccak pairing C key
    (\<lparr>ap_value = Some x, ap_ver_info = vi\<rparr>, lps @ [lp\<lparr>merkle_epoch := e, merkle_proof := mp\<rparr>]) epoch_root pp = Inr (Inr ())"
  using assms
  by (simp add: LvmtDB_verify_def accept_simps amt_levels_merkle verify_rest_merkle verify_bottom_def
      verify_bottom_version_def)

theorem lvmt_verify_accepts_any_record_witness:
  "LvmtDB_verify weak_hash (*) one_config [7, 1]
     (\<lparr>ap_value = Some [9], ap_ver_info = \<lparr>version = 1, level = 0, slot_index = 0\<rparr>\<rparr>, [one_level 3])
     (\<lambda>_. 30) one_params = Inr (Inr ())"
  using lvmt_verify_accepts_any_record_of_slot [OF one_accepted,
      where vi = "\<lparr>version = 1, level = 0, slot_index = 0\<rparr>" and e = 3 and x = "[9]" and mp = "([], 0)"]
  by (simp add: merkle_verify_def one_hash one_ap_def) (simp add: one_level_def)

text \<open>C7. What an accepted proof binds: when \<open>verify\<close> accepts a proof with a
  value, and the root the verifier holds for the epoch the proof names is the
  Merkle root over the records of that epoch, then, whatever length and position
  the Merkle proof has, the record of this very key, version and value is one of
  the epoch's records; or a hash collides; or an encoding is taken for another
  kind of input, which the code does not prevent by separating their domains:
  the record's bytes are those of a subtree record or of an inner node of the
  epoch's tree, or a pair hashed on the path is a record of the epoch.\<close>

theorem lvmt_verify_binds_value:
  assumes "LvmtDB_verify keccak pairing C key (ap, lps @ [lp]) epoch_root pp = Inr (Inr ())"
    and "ap_value ap = Some x" and "merkle_proof lp = (path, pos)"
    and "r = \<lparr>kv_key = key, kv_version = ap_ver_info ap, kv_value = x\<rparr>"
    and "epoch_root (merkle_epoch lp) = fst (merkle_dump keccak D w col epoch (map keccak (epoch_encodings C rs ups)) b)"
    and "epoch_encodings C rs ups \<noteq> []"
    and "list_all (\<lambda>r. length (kv_key r) < 2 ^ 64 \<and> length (kv_value r) < 2 ^ 64) (r # rs)"
  shows "r \<in> set rs \<or>
    record_enc r \<in> tree_enc C ` set ups \<union> dump_inputs keccak (map keccak (epoch_encodings C rs ups)) \<or>
    climb_inputs keccak pos 0 (keccak (record_enc r)) path \<inter> set (epoch_encodings C rs ups) \<noteq> {} \<or>
    collides keccak (insert (record_enc r) (climb_inputs keccak pos 0 (keccak (record_enc r)) path))
      (insert [] (set (epoch_encodings C rs ups) \<union> dump_inputs keccak (map keccak (epoch_encodings C rs ups))))"
proof -
  have mv: "merkle_verify keccak (epoch_root (merkle_epoch lp)) (keccak (record_enc r)) (path, pos)"
    using assms(1-4) by (simp add: LvmtDB_verify_def accept_simps verify_bottom_def record_enc_def)
  have "0 < length (record_enc r)"
    by (simp add: record_enc_def to_bytes_consensus_def write_KeyValue_def write_bytes_def write_usize_def)
  then have ne: "record_enc r \<noteq> []" by blast
  consider "record_enc r \<in> record_enc ` set rs" | "record_enc r \<notin> record_enc ` set rs" by blast
  then show ?thesis
  proof cases
    case 1
    then obtain q where "q \<in> set rs" "record_enc r = record_enc q" by auto
    moreover have "q = r" if "length (kv_key q) < 2 ^ 64 \<and> length (kv_value q) < 2 ^ 64" "record_enc r = record_enc q" for q
      using kv_codec.wr_inject [of r q] that assms(7) by (simp add: record_enc_def to_bytes_consensus_def)
    ultimately show ?thesis using assms(7) by (auto simp: list_all_iff)
  next
    case 2
    then show ?thesis
      using accepted_input [OF mv [unfolded assms(5)] assms(6) ne]
      by (auto simp: epoch_encodings_def)
  qed
qed

theorem lvmt_verify_binds_value_witness:
  "let r = \<lparr>kv_key = [7, 1], kv_version = \<lparr>version = 8, level = 0, slot_index = 0\<rparr>, kv_value = [42]\<rparr>;
       es = epoch_encodings one_config [r] [] in
   r \<in> set [r] \<or> record_enc r \<in> tree_enc one_config ` set [] \<union> dump_inputs weak_hash (map weak_hash es) \<or>
   climb_inputs weak_hash 0 0 (weak_hash (record_enc r)) [] \<inter> set es \<noteq> {} \<or>
   collides weak_hash (insert (record_enc r) (climb_inputs weak_hash 0 0 (weak_hash (record_enc r)) []))
     (insert [] (set es \<union> dump_inputs weak_hash (map weak_hash es)))"
  unfolding Let_def
proof (rule lvmt_verify_binds_value [OF one_accepted, where D = plain_kvdb
      and w = empty_world and col = 2 and epoch = 5 and b = False])
  show "(30 :: h256) = fst (merkle_dump weak_hash plain_kvdb empty_world 2 5 (map weak_hash
      (epoch_encodings one_config [\<lparr>kv_key = [7, 1], kv_version = \<lparr>version = 8, level = 0, slot_index = 0\<rparr>, kv_value = [42]\<rparr>] [])) False)"
    by (simp add: dump_root epoch_encodings_def record_enc_def one_hash clog2.simps)
qed (simp_all add: one_ap_def one_level_def epoch_encodings_def)

end
