(* ===== verification/VersionProofs.thy ===== *)
theory VersionProofs
  imports VersionTree
begin

text \<open>
  Editing leaves of the version tree: an edit that does not lower the field
  integer of a leaf keeps the sums of the tree, and the two ways \<open>inc_key_ver\<close>
  increments a version (through the leaf on a full node, through a power of
  two on a light node) give the same commitment.
\<close>

text \<open>An edit that does not lower the field integer of the leaf keeps the tree's
  sums; the version tree only increments versions and appends zero slots.\<close>

lemma edit_leaf_ok:
  fixes pp :: "('g::ab_group_add, 'h) AMTParams"
  assumes inv: "amt_inv D (lvmt_config depths B R M) w pp t dat" and i: "index < 2 ^ depths"
    and e: "edit (dat index) = Inr (x, n)"
    and fr: "Node_as_fr_int (dat index) = Inr old" "Node_as_fr_int n = Inr new" "old \<le> new"
  shows "\<exists>t' pp'. edit_leaf D (lvmt_config depths B R M) w pp index edit t = Inr ((x, pp'), t') \<and>
    amt_inv D (lvmt_config depths B R M) w pp' t' (dat(index := n)) \<and> same_tables pp pp'"
proof -
  let ?C = "lvmt_config depths B R M"
  have "as_fr_int ?C = Node_as_fr_int" "LENGTH_of ?C = 2 ^ depths" by (simp_all add: lvmt_config_def LENGTH_of_def)
  with write_scope_grows [OF inv, of index old n new] i fr
  obtain g t1 t2 pp2 where "write_versions D ?C w t index = Inr (g, t1)" "guard_value g = dat index"
    "guard_drop D ?C w pp t1 (g\<lparr>guard_value := n\<rparr>) = Inr (t2, pp2)"
    "amt_inv D ?C w pp2 t2 (dat(index := n))" "same_tables pp pp2" by auto
  then show ?thesis using e by (simp add: edit_leaf_def)
qed

lemma increment_agrees:
  fixes pp :: "('g::ab_group_add, 'h) AMTParams"
  assumes inv: "amt_inv D (lvmt_config depths B R M) w pp t dat" and i: "index < 2 ^ depths"
    and l: "length (key_versions (dat index)) \<le> 5" "slot < length (key_versions (dat index))"
    and v: "key_versions (dat index) ! slot < MAX_VERSION_NUMBER"
    and light: "shard_root t0 = None" "tree_commitment t0 = tree_commitment t"
  shows "\<exists>t' pp' t0' pp0'. edit_leaf D (lvmt_config depths B R M) w pp index (inc_version slot) t = Inr (((), pp'), t') \<and>
    AMTree_update D (lvmt_config depths B R M) w pp t0 index (fr_int_pow_2 ((slot + 1) * 40)) = Inr (t0', pp0') \<and>
    tree_commitment t0' = tree_commitment t' \<and> tree_dirty t0' \<and>
    amt_inv D (lvmt_config depths B R M) w pp' t' (dat(index := (dat index)\<lparr>key_versions :=
      (key_versions (dat index))[slot := key_versions (dat index) ! slot + 1]\<rparr>))"
proof -
  let ?C = "lvmt_config depths B R M"
  let ?n = "dat index"
  let ?n' = "?n\<lparr>key_versions := (key_versions ?n)[slot := key_versions ?n ! slot + 1]\<rparr>"
  let ?p = "fr_int_pow_2 ((slot + 1) * 40)"
  have N: "DEPTHS ?C = depths" "as_fr_int ?C = Node_as_fr_int" by (simp_all add: lvmt_config_def)
  from slot_increment [OF l v] obtain old new where on: "Node_as_fr_int ?n = Inr old" "Node_as_fr_int ?n' = Inr new"
    "unat new = unat old + 2 ^ ((slot + 1) * 40)" by blast
  have "inc_version slot ?n = Inr ((), ?n')" using l(2) by (simp add: inc_version_def)
  moreover have "old \<le> new" using on(3) by (simp add: word_le_nat_alt)
  ultimately obtain t' pp' where
    t': "edit_leaf D ?C w pp index (inc_version slot) t = Inr (((), pp'), t')"
      "amt_inv D ?C w pp' t' (dat(index := ?n'))" "same_tables pp pp'"
    using edit_leaf_ok [OF inv i _ on(1,2), where edit = "inc_version slot" and x = "()"] by blast
  have up: "unat ?p = 2 ^ ((slot + 1) * 40)" unfolding fr_int_pow_2_def using l by (intro unat_push_bit_1) simp
  then have onp: "unat new = unat old + unat ?p" using on(3) by simp
  have p0: "?p \<noteq> 0" using up by (metis power_not_zero unat_0 zero_neq_numeral)
  have pp: "params_ok depths pp" "tree_commitment t = Some (commitment_of depths pp (\<lambda>i. fr_nat ?C (dat i)))"
    using inv by (simp_all add: amt_inv_def sums_ok_def N)
  from get_idents_pow_ok [OF pp(1) i] obtain pp0 where
    p: "get_idents_pow pp index ?p = Inr (smul (unat ?p) (commitments pp ! index), pp0)" by metis
  have u: "AMTree_update D ?C w pp t0 index ?p = Inr (t0\<lparr>tree_dirty := True, tree_commitment :=
      Some (commitment_of depths pp (\<lambda>i. fr_nat ?C (dat i)) + smul (unat ?p) (commitments pp ! index))\<rparr>, pp0)"
    using p light pp(2) i p0 by (simp add: AMTree_update_def LENGTH_of_def N Let_def)
  have "commitment_of depths pp (\<lambda>i. fr_nat ?C ((dat(index := ?n')) i)) =
      commitment_of depths pp (\<lambda>i. fr_nat ?C (dat i)) + smul (unat ?p) (commitments pp ! index)"
    by (rule commitment_edit [OF i]) (simp_all only: fun_upd_def refl if_True if_False fr_nat_def N on(1,2) sum.case onp)
  moreover have "commitment_of depths pp' f = commitment_of depths pp f" for f
    using t'(3) by (simp add: commitment_of_def same_tables_def)
  moreover have "tree_commitment t' = Some (commitment_of depths pp' (\<lambda>i. fr_nat ?C ((dat(index := ?n')) i)))"
    using t'(2) by (simp add: amt_inv_def sums_ok_def N)
  ultimately show ?thesis using t' u by auto
qed

section \<open>Properties\<close>

text \<open>C9. Full and light nodes agree: on a tree that keeps its leaves, incrementing
  a version slot through the write guard, and on a tree with the same commitment
  that keeps no shard, adding the power of two of the slot, both succeed and leave
  the same commitment, for a version below the maximum; the leaves of the full
  tree are those with the slot incremented.\<close>


theorem full_and_light_increment_agree:
  fixes pp :: "('g::ab_group_add, 'h) AMTParams" and B :: "'g curve_bytes"
  assumes "amt_inv D (lvmt_config depths B R M) w pp t dat" and "index < 2 ^ depths"
    and "length (key_versions (dat index)) \<le> 5" and "slot < length (key_versions (dat index))"
    and "key_versions (dat index) ! slot < MAX_VERSION_NUMBER"
    and "shard_root t0 = None" and "tree_commitment t0 = tree_commitment t"
  shows "\<exists>t' pp' t0' pp0'. edit_leaf D (lvmt_config depths B R M) w pp index (inc_version slot) t = Inr (((), pp'), t') \<and>
    AMTree_update D (lvmt_config depths B R M) w pp t0 index (fr_int_pow_2 ((slot + 1) * 40)) = Inr (t0', pp0') \<and>
    tree_commitment t0' = tree_commitment t' \<and> tree_dirty t0' \<and>
    amt_inv D (lvmt_config depths B R M) w pp' t' (dat(index := (dat index)\<lparr>key_versions :=
      (key_versions (dat index))[slot := key_versions (dat index) ! slot + 1]\<rparr>))"
  by (rule increment_agrees [OF assms])

definition small_config :: "u8 Config" where
  "small_config = lvmt_config 1 byte_curve 1 (2 ^ 248)"

lemma small_tree_inv:
  "amt_inv plain_kvdb small_config empty_world byte_params
     (set_commitment (AMTree_new small_config TreeName_root 0 (Some NodeIndex_root)) 0) (\<lambda>_. Node_default)"
proof -
  have "Node_as_fr_int Node_default = Inr 0" by code_simp
  then show ?thesis
    using amt_inv_fresh [of small_config byte_params "Some NodeIndex_root" plain_kvdb empty_world 0 TreeName_root]
    by (simp add: small_config_def lvmt_config_def byte_params_ok node_data_ty_def unused_prefix_def plain_kvdb_def
        empty_world_def NodeIndex_root_def node_ok_def)
qed

theorem full_and_light_increment_witness:
  "\<exists>(t :: u8 Tree) pp t' pp' t0' pp0'.
     edit_leaf plain_kvdb small_config empty_world pp 1 (inc_version 0) t = Inr (((), pp'), t') \<and>
     AMTree_update plain_kvdb small_config empty_world (pp :: (u8, u8) AMTParams) (t\<lparr>shard_root := None\<rparr>) 1 (fr_int_pow_2 40) = Inr (t0', pp0') \<and>
     tree_commitment t0' = tree_commitment t'"
proof -
  let ?n = "Node_default\<lparr>key_versions := [0]\<rparr>"
  have "push_version Node_default = Inr (0, ?n)" by (simp add: push_version_def Node_default_def)
  moreover have fr: "Node_as_fr_int Node_default = Inr 0" "Node_as_fr_int ?n = Inr 0" by code_simp+
  ultimately obtain t pp where t: "amt_inv plain_kvdb small_config empty_world (pp :: (u8, u8) AMTParams) t ((\<lambda>_. Node_default)(1 := ?n))"
    using edit_leaf_ok [OF small_tree_inv [unfolded small_config_def], of 1 push_version 0 ?n 0 0] fr
    by (auto simp: small_config_def)
  have "key_versions (((\<lambda>_. Node_default)(1 := ?n)) 1) = [0]" by simp
  then obtain t' pp' t0' pp0' where "edit_leaf plain_kvdb small_config empty_world pp 1 (inc_version 0) t = Inr (((), pp'), t')"
    "AMTree_update plain_kvdb small_config empty_world pp (t\<lparr>shard_root := None\<rparr>) 1 (fr_int_pow_2 40) = Inr (t0', pp0')"
    "tree_commitment t0' = tree_commitment t'"
    using full_and_light_increment_agree [OF t [unfolded small_config_def], of 1 0 "t\<lparr>shard_root := None\<rparr>"]
    by (auto simp: small_config_def MAX_VERSION_NUMBER_def)
  then show ?thesis by blast
qed

end
