(* ===== verification/Nibble.thy ===== *)
theory Nibble
  imports Prelude
begin

text \<open>
  Nibbles and the hex-prefix encoding of trie keys, \<open>nibble.rs\<close> of
  rainblock-trie.  A \<open>Nibble\<close> is built only by \<open>from_hi\<close>, \<open>from_lo\<close> and from
  literals below four, so its byte is always below sixteen: it is a four-bit
  word.  The lemmas show that a key is determined by its nibbles and that
  \<open>from_mpt_key\<close> reads back what \<open>to_mpt_key\<close> writes.
\<close>

unbundle bit_operations_syntax

type_synonym nibble = "4 word"

definition inner :: "nibble \<Rightarrow> u8" where
  "inner x = ucast x"

definition from_hi :: "u8 \<Rightarrow> nibble" where
  "from_hi x = ucast (drop_bit 4 x)"

definition from_lo :: "u8 \<Rightarrow> nibble" where
  "from_lo x = ucast (x AND 15)"

definition from_hi_and_lo :: "u8 \<Rightarrow> nibble list" where
  "from_hi_and_lo x = [from_hi x, from_lo x]"

definition combine_pair :: "nibble \<Rightarrow> nibble \<Rightarrow> u8" where
  "combine_pair hi lo = (push_bit 4 (inner hi) OR inner lo)"

definition nibble_all :: "nibble list" where
  "nibble_all = map (\<lambda>i. from_lo (word_of_nat i)) [0..<16]"

definition nibble_iter :: "bytes \<Rightarrow> nibble list" where
  "nibble_iter data = concat (map from_hi_and_lo data)"

definition bytes_to_nibble_list :: "bytes \<Rightarrow> nibble list" where
  "bytes_to_nibble_list data = nibble_iter data"

text \<open>\<open>iterator.next().unwrap()\<close>\<close>

fun next_unwrap :: "'a list \<Rightarrow> ('a \<times> 'a list) result" where
  "next_unwrap [] = Inl (Panic ''called Option::unwrap() on a None value'')"
| "next_unwrap (x # xs) = Inr (x, xs)"

definition from_mpt_key :: "bytes \<Rightarrow> (nibble list \<times> bool) result" where
  "from_mpt_key key =
     and_then (next_unwrap (nibble_iter key)) (\<lambda>(ty, it).
     and_then (if inner ty AND 1 = 0 then and_then (next_unwrap it) (\<lambda>(_, it'). Inr it') else Inr it) (\<lambda>it'.
       Inr (it', inner ty AND 2 \<noteq> 0)))"

fun combine_pairs :: "nibble list \<Rightarrow> bytes result" where
  "combine_pairs [] = Inr []"
| "combine_pairs [hi] = Inl (Panic ''called Option::unwrap() on a None value'')"
| "combine_pairs (hi # lo # it) = and_then (combine_pairs it) (\<lambda>bs. Inr (combine_pair hi lo # bs))"

definition mpt_prefix :: "bool \<Rightarrow> bool \<Rightarrow> nibble list" where
  "mpt_prefix is_odd leaf = (case (is_odd, leaf) of
     (False, False) \<Rightarrow> [0, 0] | (True, False) \<Rightarrow> [1] | (False, True) \<Rightarrow> [2, 0] | (True, True) \<Rightarrow> [3])"

definition to_mpt_key :: "nibble list \<Rightarrow> bool \<Rightarrow> bytes result" where
  "to_mpt_key key leaf = combine_pairs (mpt_prefix (length key mod 2 = 1) leaf @ key)"

section \<open>Round trips\<close>

lemma from_lo_ucast: "from_lo x = ucast x"
proof -
  have "(15 :: u8) = mask 4" by (simp add: mask_eq_exp_minus_1)
  then have "from_lo x = ucast (take_bit 4 x)" by (simp only: from_lo_def take_bit_eq_mask)
  also have "\<dots> = ucast x" by (rule bit_word_eqI) (simp add: bit_simps)
  finally show ?thesis .
qed

lemma from_hi_combine [simp]: "from_hi (combine_pair hi lo) = hi"
  by (rule bit_word_eqI) (auto simp: from_hi_def combine_pair_def inner_def bit_simps dest: bit_imp_le_length)

lemma from_lo_combine [simp]: "from_lo (combine_pair hi lo) = lo"
  by (rule bit_word_eqI) (auto simp: from_lo_ucast combine_pair_def inner_def bit_simps)

lemma combine_hi_lo [simp]: "combine_pair (from_hi x) (from_lo x) = x"
  by (rule bit_word_eqI) (auto simp: from_hi_def from_lo_ucast combine_pair_def inner_def bit_simps)

lemma nibble_iter_simps [simp]:
  "nibble_iter [] = []" "nibble_iter (b # bs) = from_hi b # from_lo b # nibble_iter bs"
  by (simp_all add: nibble_iter_def from_hi_and_lo_def)

lemma combine_nibble_iter: "combine_pairs (nibble_iter bs) = Inr bs"
  by (induction bs) simp_all

lemma nibble_list_inject [simp]: "bytes_to_nibble_list a = bytes_to_nibble_list b \<longleftrightarrow> a = b"
  unfolding bytes_to_nibble_list_def by (metis combine_nibble_iter sum.inject(2))

lemma combine_pairs_even: "even (length ns) \<Longrightarrow> \<exists>bs. combine_pairs ns = Inr bs \<and> nibble_iter bs = ns"
  by (induction ns rule: combine_pairs.induct) auto

lemma mpt_prefix_even: "even (length (mpt_prefix (length key mod 2 = 1) leaf @ key))"
  by (auto simp: mpt_prefix_def odd_iff_mod_2_eq_one split: bool.split)

text \<open>The encoder never panics: the prefix makes the number of nibbles even.\<close>

lemma to_mpt_key_total:
  "\<exists>bs. to_mpt_key key leaf = Inr bs \<and> nibble_iter bs = mpt_prefix (length key mod 2 = 1) leaf @ key"
  unfolding to_mpt_key_def by (rule combine_pairs_even [OF mpt_prefix_even])

lemma mpt_key_round_trip: "and_then (to_mpt_key key leaf) from_mpt_key = Inr (key, leaf)"
proof -
  obtain bs where bs: "to_mpt_key key leaf = Inr bs" "nibble_iter bs = mpt_prefix (length key mod 2 = 1) leaf @ key"
    using to_mpt_key_total by blast
  have "from_mpt_key bs = Inr (key, leaf)"
    by (cases "length key mod 2 = 1"; cases leaf) (simp_all add: bs from_mpt_key_def mpt_prefix_def inner_def)
  then show ?thesis by (simp add: bs)
qed

text \<open>The hex-prefix encoding of a trie key loses nothing: \<open>to_mpt_key\<close> never
  panics, and \<open>from_mpt_key\<close> applied to its bytes gives the nibbles of the key
  and the leaf flag back, for keys of even and of odd length.\<close>

theorem mpt_key_encoding_round_trip:
  "\<exists>bs. to_mpt_key key leaf = Inr bs \<and> from_mpt_key bs = Inr (key, leaf)"
  using to_mpt_key_total [of key leaf] mpt_key_round_trip [of key leaf] by auto

end
