(* ===== verification/RainNode.thy ===== *)
theory RainNode
  imports Nibble Kvdb
begin

text \<open>
  The nodes of the RainBlock trie: \<open>trie_node.rs\<close>, \<open>trie_node_ext.rs\<close> and
  \<open>child_ref.rs\<close> of rainblock-trie.

  A node pointer (\<open>Rc<Node>\<close>) is the node itself: the code gives every node one
  owner, since \<open>reset_pointers\<close> detaches a node before it is changed, so that
  \<open>Rc::make_mut\<close> never copies a node that somebody else sees.  What the cells
  inside a node (\<open>RefCell\<close>, \<open>Cell\<close>) change is returned with the node.  The weak
  pointers the tree keeps in \<open>loaded_node\<close> and \<open>exile_nodes\<close> are marks on the
  node they point to: \<open>Rc::make_mut\<close> on a node with weak pointers moves it, which
  ends them, and a dropped node ends them as well.

  The rlp crate and the hasher are parameters.  \<open>rlp_view\<close> is what the accessors
  of \<open>Rlp\<close> see in a piece of input: its raw bytes, and its payload or its items.
\<close>

section \<open>Parameters\<close>

datatype rlp_view =
    VData (view_raw: bytes) bytes
  | VList (view_raw: bytes) "rlp_view list"
  | VBad (view_raw: bytes)

record trie_env =
  te_hasher :: "bytes \<Rightarrow> h256"
  te_data :: "bytes \<Rightarrow> bytes"
  te_list :: "bytes list \<Rightarrow> bytes"
  te_view :: "bytes \<Rightarrow> rlp_view"

fun view_is_empty :: "rlp_view \<Rightarrow> bool" where
  "view_is_empty (VData b d) = (d = [])"
| "view_is_empty (VList b vs) = (vs = [])"
| "view_is_empty (VBad b) = False"

fun view_is_list :: "rlp_view \<Rightarrow> bool" where
  "view_is_list (VList b vs) = True"
| "view_is_list _ = False"

fun view_bytes :: "rlp_view \<Rightarrow> bytes result" where
  "view_bytes (VData b d) = Inr d"
| "view_bytes (VList b vs) = Inl (IoErr ''RlpExpectedToBeData'')"
| "view_bytes (VBad b) = Inl (IoErr ''RlpIsTooShort'')"

definition view_h256 :: "rlp_view \<Rightarrow> h256 result" where
  "view_h256 v = and_then (view_bytes v) (\<lambda>d.
     if length d = 32 then Inr (from_be_bytes d) else Inl (IoErr ''RlpInvalidLength''))"

definition digest_bytes :: "h256 \<Rightarrow> bytes" where
  "digest_bytes h = to_be_bytes 32 h"

section \<open>Data\<close>

datatype Commit = Committed | Pending | Light | Working

record node_cache =
  nc_hash :: "h256 option"
  nc_rlp_encode :: "bytes option"
  nc_commited :: Commit
  in_loaded_node :: bool
  in_exile_nodes :: bool

datatype TrieNode =
    Leaf "nibble list" bytes
  | Branch "ChildRef list" bytes
  | Extension "nibble list" ChildRef
and ChildRef =
    Null
  | Ref h256
  | Owned TrieNodeExt
and TrieNodeExt = TrieNodeExt (ext_node: TrieNode) (ext_cache: node_cache)

datatype NextResult = Matched | NotMatched | Next TrieNodeExt nibble

definition TrieNode_default :: TrieNode where
  "TrieNode_default = Leaf [] []"

definition new_leaf :: "nibble list \<Rightarrow> bytes \<Rightarrow> TrieNode" where
  "new_leaf key_remainder value = Leaf key_remainder value"

definition new_branch :: TrieNode where
  "new_branch = Branch (replicate 16 Null) []"

definition new_extention :: "nibble list \<Rightarrow> ChildRef \<Rightarrow> TrieNode" where
  "new_extention new_key child = Extension new_key child"

fun node_key :: "TrieNode \<Rightarrow> nibble list option" where
  "node_key (Leaf key value) = Some key"
| "node_key (Extension key child) = Some key"
| "node_key (Branch children value) = None"

text \<open>\<open>key_mut().unwrap()\<close>, \<open>child_mut(index).unwrap()\<close> and \<open>value_mut().unwrap()\<close>, written through.\<close>

fun update_key :: "(nibble list \<Rightarrow> nibble list) \<Rightarrow> TrieNode \<Rightarrow> TrieNode result" where
  "update_key f (Leaf key value) = Inr (Leaf (f key) value)"
| "update_key f (Extension key child) = Inr (Extension (f key) child)"
| "update_key f (Branch children value) = Inl (Panic ''called Option::unwrap() on a None value'')"

fun set_child :: "nibble \<Rightarrow> ChildRef \<Rightarrow> TrieNode \<Rightarrow> TrieNode result" where
  "set_child index c (Branch children value) = Inr (Branch (children[unat index := c]) value)"
| "set_child index c (Extension key child) =
     (if index = 0 then Inr (Extension key c) else Inl (Panic ''called Option::unwrap() on a None value''))"
| "set_child index c (Leaf key value) = Inl (Panic ''called Option::unwrap() on a None value'')"

fun node_value :: "TrieNode \<Rightarrow> bytes option" where
  "node_value (Leaf key value) = Some value"
| "node_value (Branch children value) = Some value"
| "node_value (Extension key child) = None"

fun set_value :: "bytes \<Rightarrow> TrieNode \<Rightarrow> TrieNode result" where
  "set_value val (Leaf key value) = Inr (Leaf key val)"
| "set_value val (Branch children value) = Inr (Branch children val)"
| "set_value val (Extension key child) = Inl (Panic ''called Option::unwrap() on a None value'')"

fun as_branch :: "TrieNode \<Rightarrow> (ChildRef list \<times> bytes) option" where
  "as_branch (Branch children value) = Some (children, value)"
| "as_branch _ = None"

fun as_extension :: "TrieNode \<Rightarrow> (nibble list \<times> ChildRef) option" where
  "as_extension (Extension key child) = Some (key, child)"
| "as_extension _ = None"

fun as_leaf :: "TrieNode \<Rightarrow> (nibble list \<times> bytes) option" where
  "as_leaf (Leaf key value) = Some (key, value)"
| "as_leaf _ = None"

definition clear_cache :: node_cache where
  "clear_cache = \<lparr>nc_hash = None, nc_rlp_encode = None, nc_commited = Working,
     in_loaded_node = False, in_exile_nodes = False\<rparr>"

definition TrieNodeExt_new :: "TrieNode \<Rightarrow> TrieNodeExt" where
  "TrieNodeExt_new node = TrieNodeExt node clear_cache"

definition seal_ref :: "TrieNode \<Rightarrow> ChildRef" where
  "seal_ref node = Owned (TrieNodeExt_new node)"

definition from_child_ref :: "TrieNode \<Rightarrow> bytes \<Rightarrow> TrieNodeExt result" where
  "from_child_ref node rlp_encode =
     and_then (ensure (length rlp_encode < 32) ''assertion failed: rlp_encode.len() < 32'') (\<lambda>_.
       Inr (TrieNodeExt node (clear_cache\<lparr>nc_rlp_encode := Some rlp_encode, nc_commited := Light\<rparr>)))"

fun is_null :: "ChildRef \<Rightarrow> bool" where
  "is_null Null = True"
| "is_null _ = False"

fun owned_mut :: "ChildRef \<Rightarrow> TrieNodeExt option" where
  "owned_mut (Owned node) = Some node"
| "owned_mut _ = None"

text \<open>\<open>ChildRefGroup\<close>: the sixteen children of a branch.\<close>

definition no_child :: "ChildRef list \<Rightarrow> bool" where
  "no_child children = list_all is_null children"

definition child_cnt :: "ChildRef list \<Rightarrow> nat" where
  "child_cnt children = length (filter (\<lambda>c. \<not> is_null c) children)"

fun only_child_loop :: "(nibble \<times> ChildRef) list \<Rightarrow> nibble option \<Rightarrow> nibble option" where
  "only_child_loop [] non_null_child = non_null_child"
| "only_child_loop ((idx, c) # rest) non_null_child =
     (if non_null_child \<noteq> None then None else only_child_loop rest (Some idx))"

definition only_child_mut :: "ChildRef list \<Rightarrow> (nibble \<times> ChildRef) option" where
  "only_child_mut children =
     map_option (\<lambda>idx. (idx, children ! unat idx))
       (only_child_loop (filter (\<lambda>(_, c). \<not> is_null c) (zip nibble_all children)) None)"

section \<open>Decoding\<close>

fun TrieNode_decode :: "rlp_view \<Rightarrow> TrieNode result"
and ChildRef_decode :: "rlp_view \<Rightarrow> ChildRef result"
and ChildRefs_decode :: "nat \<Rightarrow> rlp_view list \<Rightarrow> ChildRef list result" where
  "TrieNode_decode (VList b [k, v]) =
     and_then (view_bytes k) (\<lambda>kb. and_then (from_mpt_key kb) (\<lambda>(key, leaf).
       if leaf then and_then (view_bytes v) (\<lambda>value. Inr (Leaf key value))
       else and_then (ChildRef_decode v) (\<lambda>child. Inr (Extension key child))))"
| "TrieNode_decode (VList b vs) =
     (if length vs = 17
      then and_then (ChildRefs_decode 16 vs) (\<lambda>children. and_then (view_bytes (vs ! 16)) (\<lambda>value. Inr (Branch children value)))
      else Inl (IoErr ''RlpInvalidLength''))"
| "TrieNode_decode (VData b d) = Inl (IoErr ''RlpExpectedToBeList'')"
| "TrieNode_decode (VBad b) = Inl (IoErr ''RlpIsTooShort'')"
| "ChildRef_decode v =
     (if view_is_empty v then Inr Null
      else if view_is_list v then and_then (TrieNode_decode v) (\<lambda>n. and_then (from_child_ref n (view_raw v)) (\<lambda>e. Inr (Owned e)))
      else and_then (view_h256 v) (\<lambda>h. Inr (Ref h)))"
| "ChildRefs_decode 0 vs = Inr []"
| "ChildRefs_decode (Suc n) [] = Inl (IoErr ''RlpIsTooShort'')"
| "ChildRefs_decode (Suc n) (v # vs) =
     and_then (ChildRef_decode v) (\<lambda>c. and_then (ChildRefs_decode n vs) (\<lambda>cs. Inr (c # cs)))"

text \<open>\<open>TrieNode::new\<close> and \<open>TrieNodeExt::load\<close>: every failure is a panic.\<close>

definition TrieNode_new :: "trie_env \<Rightarrow> bytes \<Rightarrow> TrieNode result" where
  "TrieNode_new E data = (case TrieNode_decode (te_view E data) of
     Inr n \<Rightarrow> Inr n | Inl e \<Rightarrow> Inl (Panic ''called Result::unwrap() on an Err value''))"

definition TrieNodeExt_load :: "trie_env \<Rightarrow> 's kvdb_ops \<Rightarrow> 's \<Rightarrow> h256 \<Rightarrow> TrieNodeExt result" where
  "TrieNodeExt_load E D db digest = (case kv_get D db 0 (digest_bytes digest) of
     Some loaded \<Rightarrow> and_then (TrieNode_new E loaded) (\<lambda>node.
       Inr (TrieNodeExt node (clear_cache\<lparr>nc_hash := Some digest, nc_rlp_encode := Some loaded, nc_commited := Committed\<rparr>)))
   | None \<Rightarrow> Inl (Panic ''Hash not found''))"

definition loaded_mut :: "trie_env \<Rightarrow> 's kvdb_ops \<Rightarrow> 's \<Rightarrow> ChildRef \<Rightarrow> TrieNodeExt option result" where
  "loaded_mut E D db c = (case c of
     Null \<Rightarrow> Inr None
   | Ref digest \<Rightarrow> and_then (TrieNodeExt_load E D db digest) (\<lambda>node. Inr (Some node))
   | Owned node \<Rightarrow> Inr (Some node))"

text \<open>The node, and whether it was loaded; the cell then owns it.\<close>

definition owned_or_load :: "trie_env \<Rightarrow> 's kvdb_ops \<Rightarrow> 's \<Rightarrow> ChildRef \<Rightarrow> (TrieNodeExt \<times> bool) option result" where
  "owned_or_load E D db c = (case c of
     Null \<Rightarrow> Inr None
   | Ref digest \<Rightarrow> and_then (TrieNodeExt_load E D db digest) (\<lambda>node. Inr (Some (node, True)))
   | Owned node \<Rightarrow> Inr (Some (node, False)))"

section \<open>Encoding and caches\<close>

text \<open>\<open>to_mpt_key\<close> never panics (\<open>to_mpt_key_total\<close>); the encoder takes its bytes.\<close>

definition mpt_key_bytes :: "nibble list \<Rightarrow> bool \<Rightarrow> bytes" where
  "mpt_key_bytes key leaf = (case to_mpt_key key leaf of Inr bs \<Rightarrow> bs | Inl e \<Rightarrow> [])"

text \<open>\<open>hash\<close> of a node whose encoding is at hand.\<close>

definition hash_of :: "trie_env \<Rightarrow> bytes \<Rightarrow> TrieNodeExt \<Rightarrow> h256 \<times> TrieNodeExt" where
  "hash_of E rlp_encode e = (case nc_hash (ext_cache e) of
     Some h \<Rightarrow> (h, e)
   | None \<Rightarrow> let h = te_hasher E rlp_encode in (h, TrieNodeExt (ext_node e) ((ext_cache e)\<lparr>nc_hash := Some h\<rparr>)))"

fun get_rlp_encode :: "trie_env \<Rightarrow> TrieNodeExt \<Rightarrow> bytes \<times> TrieNodeExt"
and rlp_bytes :: "trie_env \<Rightarrow> TrieNode \<Rightarrow> bytes \<times> TrieNode"
and child_rlp_append :: "trie_env \<Rightarrow> ChildRef \<Rightarrow> bytes \<times> ChildRef"
and children_rlp_append :: "trie_env \<Rightarrow> ChildRef list \<Rightarrow> bytes list \<times> ChildRef list" where
  "get_rlp_encode E (TrieNodeExt node c) = (case nc_rlp_encode c of
     Some b \<Rightarrow> (b, TrieNodeExt node c)
   | None \<Rightarrow> (case rlp_bytes E node of (b, node') \<Rightarrow>
       (b, TrieNodeExt node' (c\<lparr>nc_rlp_encode := Some b, nc_commited := (if length b < 32 then Light else Pending)\<rparr>))))"
| "rlp_bytes E (Leaf key value) = (te_list E [te_data E (mpt_key_bytes key True), te_data E value], Leaf key value)"
| "rlp_bytes E (Branch children value) = (case children_rlp_append E children of (bs, children') \<Rightarrow>
     (te_list E (bs @ [te_data E value]), Branch children' value))"
| "rlp_bytes E (Extension key child) = (case child_rlp_append E child of (b, child') \<Rightarrow>
     (te_list E [te_data E (mpt_key_bytes key False), b], Extension key child'))"
| "child_rlp_append E Null = (te_data E [], Null)"
| "child_rlp_append E (Ref digest) = (te_data E (digest_bytes digest), Ref digest)"
| "child_rlp_append E (Owned node) = (case get_rlp_encode E node of (b, node1) \<Rightarrow>
     if length b < 32 then (b, Owned node1)
     else case hash_of E b node1 of (h, node2) \<Rightarrow> (te_data E (digest_bytes h), Owned node2))"
| "children_rlp_append E [] = ([], [])"
| "children_rlp_append E (c # cs) = (case child_rlp_append E c of (b, c') \<Rightarrow>
     case children_rlp_append E cs of (bs, cs') \<Rightarrow> (b # bs, c' # cs'))"

definition ext_hash :: "trie_env \<Rightarrow> TrieNodeExt \<Rightarrow> h256 \<times> TrieNodeExt" where
  "ext_hash E e = (case nc_hash (ext_cache e) of
     Some h \<Rightarrow> (h, e)
   | None \<Rightarrow> (case get_rlp_encode E e of (b, e') \<Rightarrow> hash_of E b e'))"

definition is_small_node :: "trie_env \<Rightarrow> TrieNodeExt \<Rightarrow> bool \<times> TrieNodeExt" where
  "is_small_node E e = (case get_rlp_encode E e of (b, e') \<Rightarrow> (length b < 32, e'))"

text \<open>\<open>make_mut\<close>: the node the caller changes and the deletions; the changed node
  \<open>n\<close> goes back as \<open>TrieNodeExt_new n\<close>, its caches cleared and its weak pointers ended.\<close>

definition make_mut :: "TrieNodeExt \<Rightarrow> h256 list \<Rightarrow> TrieNode \<times> h256 list" where
  "make_mut me del_ops = (ext_node me,
     if nc_commited (ext_cache me) = Committed
     then (case nc_hash (ext_cache me) of Some digest \<Rightarrow> del_ops @ [digest] | None \<Rightarrow> del_ops)
     else del_ops)"

section \<open>Walking the tree\<close>

definition ChildRef_truncate :: "trie_env \<Rightarrow> ChildRef \<Rightarrow> ChildRef" where
  "ChildRef_truncate E c = (case c of
     Owned node \<Rightarrow> (case is_small_node E node of (small, node') \<Rightarrow>
       if small then Owned node' else Ref (fst (ext_hash E node')))
   | _ \<Rightarrow> c)"

definition TrieNodeExt_truncate :: "trie_env \<Rightarrow> TrieNodeExt \<Rightarrow> TrieNodeExt" where
  "TrieNodeExt_truncate E e = TrieNodeExt (case ext_node e of
       Branch children value \<Rightarrow> Branch (map (ChildRef_truncate E) children) value
     | Extension key child \<Rightarrow> Extension key (ChildRef_truncate E child)
     | Leaf key value \<Rightarrow> Leaf key value) (ext_cache e)"

fun ext_exile :: "nat \<Rightarrow> nat \<Rightarrow> TrieNodeExt \<Rightarrow> TrieNodeExt"
and node_exile :: "nat \<Rightarrow> nat \<Rightarrow> TrieNode \<Rightarrow> TrieNode"
and child_exile :: "nat \<Rightarrow> nat \<Rightarrow> ChildRef \<Rightarrow> ChildRef" where
  "ext_exile N depth (TrieNodeExt node c) =
     (if depth > N then TrieNodeExt node c
      else if depth = N then TrieNodeExt node (c\<lparr>in_exile_nodes := True\<rparr>)
      else TrieNodeExt (node_exile N depth node) c)"
| "node_exile N depth (Branch children value) = Branch (map (child_exile N (depth + 1)) children) value"
| "node_exile N depth (Extension key child) = Extension key (child_exile N (depth + 1) child)"
| "node_exile N depth (Leaf key value) = Leaf key value"
| "child_exile N depth (Owned node) = Owned (ext_exile N depth node)"
| "child_exile N depth c = c"

function ext_commit :: "trie_env \<Rightarrow> nat \<Rightarrow> bool \<Rightarrow> nat \<Rightarrow> TrieNodeExt \<Rightarrow> (h256 \<times> bytes) list \<Rightarrow> (TrieNodeExt \<times> (h256 \<times> bytes) list) result"
and node_commit :: "trie_env \<Rightarrow> nat \<Rightarrow> bool \<Rightarrow> nat \<Rightarrow> TrieNode \<Rightarrow> (h256 \<times> bytes) list \<Rightarrow> (TrieNode \<times> (h256 \<times> bytes) list) result"
and child_commit :: "trie_env \<Rightarrow> nat \<Rightarrow> bool \<Rightarrow> nat \<Rightarrow> ChildRef \<Rightarrow> (h256 \<times> bytes) list \<Rightarrow> (ChildRef \<times> (h256 \<times> bytes) list) result"
and children_commit :: "trie_env \<Rightarrow> nat \<Rightarrow> bool \<Rightarrow> nat \<Rightarrow> ChildRef list \<Rightarrow> (h256 \<times> bytes) list \<Rightarrow> (ChildRef list \<times> (h256 \<times> bytes) list) result" where
  "ext_commit E N top_layer depth (TrieNodeExt node c) put_ops =
     (if depth \<ge> N \<and> top_layer then Inr (TrieNodeExt node c, put_ops)
      else if (nc_commited c = Committed \<or> nc_commited c = Light) \<and> \<not> top_layer then Inr (TrieNodeExt node c, put_ops)
      else and_then (node_commit E N top_layer depth node put_ops) (\<lambda>(node1, put_ops1).
        case get_rlp_encode E (TrieNodeExt node1 c) of (rlp_encode, e1) \<Rightarrow>
        and_then
          (if length rlp_encode \<ge> 32 \<or> depth = 0 then
             (case ext_hash E e1 of (h, e2) \<Rightarrow>
                Inr (TrieNodeExt (ext_node e2) ((ext_cache e2)\<lparr>nc_commited := Committed\<rparr>),
                     if depth \<ge> N \<or> top_layer then put_ops1 @ [(h, rlp_encode)] else put_ops1))
           else and_then (ensure (nc_commited (ext_cache e1) = Light) ''assertion failed: left == right'') (\<lambda>_. Inr (e1, put_ops1)))
          (\<lambda>(e3, put_ops3).
             Inr (if depth = N - 1 \<and> \<not> top_layer then TrieNodeExt_truncate E e3 else e3, put_ops3))))"
| "node_commit E N top_layer depth (Branch children value) put_ops =
     and_then (children_commit E N top_layer (depth + 1) children put_ops) (\<lambda>(children', put_ops'). Inr (Branch children' value, put_ops'))"
| "node_commit E N top_layer depth (Extension key child) put_ops =
     and_then (child_commit E N top_layer (depth + 1) child put_ops) (\<lambda>(child', put_ops'). Inr (Extension key child', put_ops'))"
| "node_commit E N top_layer depth (Leaf key value) put_ops = Inr (Leaf key value, put_ops)"
| "child_commit E N top_layer depth (Owned node) put_ops =
     and_then (ext_commit E N top_layer depth node put_ops) (\<lambda>(node', put_ops'). Inr (Owned node', put_ops'))"
| "child_commit E N top_layer depth Null put_ops = Inr (Null, put_ops)"
| "child_commit E N top_layer depth (Ref digest) put_ops = Inr (Ref digest, put_ops)"
| "children_commit E N top_layer depth [] put_ops = Inr ([], put_ops)"
| "children_commit E N top_layer depth (c # cs) put_ops =
     and_then (child_commit E N top_layer depth c put_ops) (\<lambda>(c', put_ops').
     and_then (children_commit E N top_layer depth cs put_ops') (\<lambda>(cs', put_ops''). Inr (c' # cs', put_ops'')))"
  by pat_completeness auto
termination
  by (relation "measure (\<lambda>x. case x of
      Inl (Inl (E, N, top_layer, depth, e, put_ops)) \<Rightarrow> size e
    | Inl (Inr (E, N, top_layer, depth, n, put_ops)) \<Rightarrow> size n
    | Inr (Inl (E, N, top_layer, depth, c, put_ops)) \<Rightarrow> size c
    | Inr (Inr (E, N, top_layer, depth, cs, put_ops)) \<Rightarrow> size_list size cs)") auto

function load_children :: "trie_env \<Rightarrow> 's kvdb_ops \<Rightarrow> 's \<Rightarrow> nat \<Rightarrow> nat \<Rightarrow> TrieNodeExt \<Rightarrow> TrieNodeExt result"
and load_child :: "trie_env \<Rightarrow> 's kvdb_ops \<Rightarrow> 's \<Rightarrow> nat \<Rightarrow> nat \<Rightarrow> ChildRef \<Rightarrow> ChildRef result"
and load_child_list :: "trie_env \<Rightarrow> 's kvdb_ops \<Rightarrow> 's \<Rightarrow> nat \<Rightarrow> nat \<Rightarrow> ChildRef list \<Rightarrow> ChildRef list result" where
  "load_children E D db N depth e =
     (if depth \<ge> N - 1 then Inr e
      else and_then (ensure (nc_commited (ext_cache e) \<noteq> Working) ''assertion failed: self.commited.get() != Working'') (\<lambda>_.
        case ext_node e of
          Branch children value \<Rightarrow> and_then (load_child_list E D db N (depth + 1) children) (\<lambda>cs.
            Inr (TrieNodeExt (Branch cs value) (ext_cache e)))
        | Extension key child \<Rightarrow> and_then (load_child E D db N (depth + 1) child) (\<lambda>c.
            Inr (TrieNodeExt (Extension key c) (ext_cache e)))
        | Leaf key value \<Rightarrow> Inr e))"
| "load_child E D db N depth c = and_then (owned_or_load E D db c) (\<lambda>r. case r of
     Some (node, _) \<Rightarrow> and_then (load_children E D db N depth node) (\<lambda>node'. Inr (Owned node'))
   | None \<Rightarrow> Inr Null)"
| "load_child_list E D db N depth [] = Inr []"
| "load_child_list E D db N depth (c # cs) =
     and_then (load_child E D db N depth c) (\<lambda>c'. and_then (load_child_list E D db N depth cs) (\<lambda>cs'. Inr (c' # cs')))"
  by pat_completeness auto
termination
  by (relation "inv_image (less_than <*lex*> less_than <*lex*> less_than) (\<lambda>x. case x of
      Inl (E, D, db, N, depth, e) \<Rightarrow> (N - depth, 0, 0)
    | Inr (Inl (E, D, db, N, depth, c)) \<Rightarrow> (N - depth, 1, 0)
    | Inr (Inr (E, D, db, N, depth, cs)) \<Rightarrow> (N - depth, 2, length cs))") auto

text \<open>\<open>TrieNode::next\<close>: the answer, the nibbles left, and the node with the child
  it loaded and the weak pointer it gave to \<open>truncate_ops\<close>.\<close>

definition mark_loaded :: "bool \<Rightarrow> node_cache \<Rightarrow> node_cache" where
  "mark_loaded b c = (if b then c\<lparr>in_loaded_node := True\<rparr> else c)"

definition trie_next :: "trie_env \<Rightarrow> 's kvdb_ops \<Rightarrow> 's \<Rightarrow> nat \<Rightarrow> nat \<Rightarrow> TrieNodeExt \<Rightarrow> nibble list \<Rightarrow>
  (NextResult \<times> nibble list \<times> TrieNodeExt) result" where
  "trie_next E D db N depth me nibbles = (case ext_node me of
     Branch children value \<Rightarrow> (case nibbles of
         [] \<Rightarrow> Inr (Matched, nibbles, me)
       | branch_key # rest \<Rightarrow> and_then (owned_or_load E D db (children ! unat branch_key)) (\<lambda>r. case r of
           Some (next_node, is_loaded) \<Rightarrow> Inr (Next next_node branch_key, rest,
             TrieNodeExt (Branch (children[unat branch_key := Owned next_node]) value)
               (mark_loaded (is_loaded \<and> depth \<ge> N) (ext_cache me)))
         | None \<Rightarrow> Inr (NotMatched, nibbles, me)))
   | Extension key child \<Rightarrow>
       if take (length key) nibbles = key then
         and_then (owned_or_load E D db child) (\<lambda>r. and_then (unwrap_option r) (\<lambda>(node, is_loaded).
           Inr (Next node 0, drop (length key) nibbles,
             TrieNodeExt (Extension key (Owned node)) (mark_loaded (is_loaded \<and> depth \<ge> N) (ext_cache me)))))
       else Inr (NotMatched, nibbles, me)
   | Leaf key value \<Rightarrow>
       if key = nibbles then Inr (Matched, [], me) else Inr (NotMatched, nibbles, me))"

end
