(* ===== verification/RainMpt.thy ===== *)
theory RainMpt
  imports RainNode
begin

text \<open>
  The operations of the RainBlock trie, \<open>rain_mpt.rs\<close> of rainblock-trie, and its
  \<open>AuthDB\<close> wrapper, \<open>asb-authdb/src/rain_mpt.rs\<close>.  The nodes on the search stack
  are shared with the tree; the model writes what the search changed in them (the
  loaded children and the marks) back with \<open>plug_stack\<close>.  The search loop is a
  partial function: \<open>None\<close> means that it does not return.
\<close>

record 's MerklePatriciaTree =
  mpt_db :: 's
  mpt_root :: "TrieNodeExt option"
  mpt_del_ops :: "h256 list"

type_synonym search_stack = "(TrieNodeExt \<times> nibble option) list"

record SearchResult =
  sr_stack :: search_stack
  sr_matched :: bool
  sr_remainder :: "nibble list"

definition matched_node :: "SearchResult \<Rightarrow> TrieNodeExt option" where
  "matched_node r = (if sr_matched r then Some (fst (last (sr_stack r))) else None)"

definition ROOT_KEY :: bytes where
  "ROOT_KEY = [128]"

definition EMPTY_ROOT :: h256 where
  "EMPTY_ROOT = 0"

definition common_prefix :: "'a list \<Rightarrow> 'a list \<Rightarrow> 'a list" where
  "common_prefix a b = map fst (takeWhile (\<lambda>(x, y). x = y) (zip a b))"

definition add_prefix :: "'a list \<Rightarrow> 'a list \<Rightarrow> 'a list" where
  "add_prefix prefix base = prefix @ base"

definition digest_from_slice :: "bytes \<Rightarrow> h256 result" where
  "digest_from_slice bs = and_then (ensure (length bs = 32) ''source slice length does not match'') (\<lambda>_. Inr (from_be_bytes bs))"

definition mpt_new :: "trie_env \<Rightarrow> 's kvdb_ops \<Rightarrow> nat \<Rightarrow> 's \<Rightarrow> 's MerklePatriciaTree result" where
  "mpt_new E D N db =
     and_then (case kv_get D db 0 ROOT_KEY of
         Some bs \<Rightarrow> and_then (digest_from_slice bs) (\<lambda>digest.
           and_then (TrieNodeExt_load E D db digest) (\<lambda>node.
           and_then (load_children E D db N 0 node) (\<lambda>node'. Inr (Some node'))))
       | None \<Rightarrow> Inr None)
       (\<lambda>root. Inr \<lparr>mpt_db = db, mpt_root = root, mpt_del_ops = []\<rparr>)"

definition mpt_root_hash :: "trie_env \<Rightarrow> 's MerklePatriciaTree \<Rightarrow> h256 option \<times> 's MerklePatriciaTree" where
  "mpt_root_hash E t = (case mpt_root t of
     Some x \<Rightarrow> (case ext_hash E x of (h, x') \<Rightarrow> (Some h, t\<lparr>mpt_root := Some x'\<rparr>))
   | None \<Rightarrow> (None, t))"

section \<open>Search\<close>

partial_function (option) search_loop ::
  "trie_env \<Rightarrow> 's kvdb_ops \<Rightarrow> 's \<Rightarrow> nat \<Rightarrow> search_stack \<Rightarrow> TrieNodeExt \<Rightarrow> nibble list \<Rightarrow> nat \<Rightarrow> SearchResult result option" where
  "search_loop E D db N stack node remainder depth =
     (case trie_next E D db N depth node remainder of
        Inl f \<Rightarrow> Some (Inl f)
      | Inr (Matched, remainder', node') \<Rightarrow>
          Some (Inr \<lparr>sr_stack = stack @ [(node', None)], sr_matched = True, sr_remainder = remainder'\<rparr>)
      | Inr (NotMatched, remainder', node') \<Rightarrow>
          Some (Inr \<lparr>sr_stack = stack @ [(node', None)], sr_matched = False, sr_remainder = remainder'\<rparr>)
      | Inr (Next next_node pos, remainder', node') \<Rightarrow>
          search_loop E D db N (stack @ [(node', Some pos)]) next_node remainder' (depth + 1))"

text \<open>The tree behind a stack.\<close>

fun put_owned :: "nibble \<Rightarrow> TrieNodeExt \<Rightarrow> TrieNodeExt \<Rightarrow> TrieNodeExt" where
  "put_owned pos child e = TrieNodeExt (case ext_node e of
       Branch children value \<Rightarrow> Branch (children[unat pos := Owned child]) value
     | Extension key c \<Rightarrow> Extension key (Owned child)
     | Leaf key value \<Rightarrow> Leaf key value) (ext_cache e)"

fun plug_stack :: "search_stack \<Rightarrow> TrieNodeExt option" where
  "plug_stack [] = None"
| "plug_stack ((e, None) # rest) = Some e"
| "plug_stack ((e, Some pos) # rest) = (case plug_stack rest of
     Some child \<Rightarrow> Some (put_owned pos child e) | None \<Rightarrow> Some e)"

definition mpt_search :: "trie_env \<Rightarrow> 's kvdb_ops \<Rightarrow> nat \<Rightarrow> 's MerklePatriciaTree \<Rightarrow> bytes \<Rightarrow>
  (SearchResult \<times> 's MerklePatriciaTree) result option" where
  "mpt_search E D N t key = (case mpt_root t of
     None \<Rightarrow> Some (Inl (Panic ''called Option::unwrap() on a None value''))
   | Some node \<Rightarrow> map_option (\<lambda>r. and_then r (\<lambda>res. Inr (res, t\<lparr>mpt_root := plug_stack (sr_stack res)\<rparr>)))
       (search_loop E D (mpt_db t) N [] node (bytes_to_nibble_list key) 1))"

definition mpt_get :: "trie_env \<Rightarrow> 's kvdb_ops \<Rightarrow> nat \<Rightarrow> 's MerklePatriciaTree \<Rightarrow> bytes \<Rightarrow>
  (bytes option \<times> 's MerklePatriciaTree) result option" where
  "mpt_get E D N t key =
     (if key = [] then Some (Inl (Panic ''Empty key is not supported''))
      else if mpt_root t = None then Some (Inr (None, t))
      else map_option (\<lambda>r. and_then r (\<lambda>(res, t').
        Inr (case matched_node res of Some e \<Rightarrow> node_value (ext_node e) | None \<Rightarrow> None, t')))
        (mpt_search E D N t key))"

section \<open>Detaching and attaching the path\<close>

fun reset_pointers :: "search_stack \<Rightarrow> h256 list \<Rightarrow> (search_stack \<times> h256 list) result" where
  "reset_pointers [] del_ops = Inr ([], del_ops)"
| "reset_pointers ((node, None) # rest) del_ops =
     and_then (reset_pointers rest del_ops) (\<lambda>(rest', del_ops'). Inr ((node, None) # rest', del_ops'))"
| "reset_pointers ((node, Some child_idx) # rest) del_ops =
     (case make_mut node del_ops of (trie_node, del_ops1) \<Rightarrow>
      and_then (set_child child_idx Null trie_node) (\<lambda>trie_node'.
      and_then (reset_pointers rest del_ops1) (\<lambda>(rest', del_ops').
        Inr ((TrieNodeExt_new trie_node', Some child_idx) # rest', del_ops'))))"

fun recover_loop :: "search_stack \<Rightarrow> TrieNodeExt option \<Rightarrow> h256 list \<Rightarrow> (TrieNodeExt option \<times> h256 list) result" where
  "recover_loop [] last_child del_ops = Inr (last_child, del_ops)"
| "recover_loop ((node, None) # rest) last_child del_ops = recover_loop rest (Some node) del_ops"
| "recover_loop ((node, Some child_idx) # rest) last_child del_ops =
     (case make_mut node del_ops of (trie_node, del_ops') \<Rightarrow>
      and_then (unwrap_option last_child) (\<lambda>c.
      and_then (set_child child_idx (Owned c) trie_node) (\<lambda>trie_node'.
        recover_loop rest (Some (TrieNodeExt_new trie_node')) del_ops')))"

definition recover_pointers :: "search_stack \<Rightarrow> h256 list \<Rightarrow> (TrieNodeExt option \<times> h256 list) result" where
  "recover_pointers stack del_ops = recover_loop (rev stack) None del_ops"

section \<open>Insertion\<close>

definition insert_on_branch :: "nat \<Rightarrow> ChildRef list \<Rightarrow> nibble list \<Rightarrow> bytes \<Rightarrow> nat \<Rightarrow> h256 list \<Rightarrow>
  (ChildRef list \<times> h256 list) result" where
  "insert_on_branch N children remainder val depth del_ops = (case remainder of
     [] \<Rightarrow> Inl (Panic ''assertion failed: !remainder.is_empty()'')
   | first # rest \<Rightarrow>
      (let prev_branch_node = children ! unat first in
       if is_null prev_branch_node then Inr (children[unat first := seal_ref (new_leaf rest val)], del_ops)
       else
        (let (new_children, new_value) = (case rest of
             idx # rest2 \<Rightarrow> ((replicate 16 Null)[unat idx := seal_ref (new_leaf rest2 val)], [])
           | [] \<Rightarrow> (replicate 16 Null, val)) in
         and_then (unwrap_option (owned_mut prev_branch_node)) (\<lambda>prev.
           case make_mut prev del_ops of (trie_node, del_ops') \<Rightarrow>
           (case trie_node of
              Leaf key value \<Rightarrow> (case key of
                  first_key # key_rest \<Rightarrow>
                    Inr (children[unat first := seal_ref (Branch (new_children[unat first_key := seal_ref (new_leaf key_rest value)]) new_value)], del_ops')
                | [] \<Rightarrow> Inr (children[unat first := seal_ref (Branch new_children value)], del_ops'))
            | Extension key child \<Rightarrow> (case key of
                  first_key # key_rest \<Rightarrow>
                    Inr (children[unat first := seal_ref (Branch
                      (new_children[unat first_key := child_exile N (depth + 2) (seal_ref (Extension key_rest child))]) new_value)], del_ops')
                | [] \<Rightarrow> Inl (Panic ''called Option::unwrap() on a None value''))
            | Branch _ _ \<Rightarrow> Inl (Panic ''Search should not end in a node with a branch child''))))))"

definition insert_on_extension :: "trie_env \<Rightarrow> 's kvdb_ops \<Rightarrow> 's \<Rightarrow> nat \<Rightarrow> nibble list \<Rightarrow> ChildRef \<Rightarrow> nibble list \<Rightarrow> bytes \<Rightarrow> nat \<Rightarrow>
  h256 list \<Rightarrow> (TrieNode \<times> h256 list) result" where
  "insert_on_extension E D db N ext_key child remainder val depth del_ops =
     (let intersection = common_prefix remainder ext_key in
      case drop (length intersection) ext_key of
        [] \<Rightarrow> Inl (Panic ''index out of bounds'')
      | ext_key_next # ext_key_rest \<Rightarrow>
        and_then
          (if ext_key_rest \<noteq> [] then
             and_then (loaded_mut E D db child) (\<lambda>r. and_then (unwrap_option r) (\<lambda>child_node.
               case ext_node child_node of
                 Branch _ _ \<Rightarrow> Inr (seal_ref (new_extention ext_key_rest (child_exile N (depth + 2) (Owned child_node))), del_ops)
               | _ \<Rightarrow> (case make_mut child_node del_ops of (trie_node, del_ops') \<Rightarrow>
                   and_then (update_key (add_prefix ext_key_rest) trie_node) (\<lambda>n. Inr (seal_ref n, del_ops')))))
           else Inr (child, del_ops))
          (\<lambda>(child', del_ops').
            let children1 = (replicate 16 Null)[unat ext_key_next := child_exile N (depth + 2) child'];
                (children2, value2) = (case drop (length intersection) remainder of
                   remainder_next # rest \<Rightarrow> (children1[unat remainder_next := seal_ref (new_leaf rest val)], [])
                 | [] \<Rightarrow> (children1, val));
                new_branch_node = Branch children2 value2
            in Inr (if intersection \<noteq> [] then Extension intersection (seal_ref new_branch_node) else new_branch_node, del_ops')))"

definition insert_on_leaf :: "nibble list \<Rightarrow> bytes \<Rightarrow> nibble list \<Rightarrow> bytes \<Rightarrow> TrieNode" where
  "insert_on_leaf leaf_key leaf_value remainder val =
     (let intersection = common_prefix remainder leaf_key;
          rest_remainder = drop (length intersection) remainder;
          rest_leaf_key = drop (length intersection) leaf_key;
          (children1, value1) = (case rest_remainder of
             rest_idx # rest \<Rightarrow> ((replicate 16 Null)[unat rest_idx := seal_ref (new_leaf rest val)], [])
           | [] \<Rightarrow> (replicate 16 Null, val));
          (children2, value2) = (case rest_leaf_key of
             rest_idx # new_leaf_key \<Rightarrow> (children1[unat rest_idx := seal_ref (Leaf new_leaf_key leaf_value)], value1)
           | [] \<Rightarrow> (children1, leaf_value));
          new_branch_node = Branch children2 value2
      in if intersection \<noteq> [] then new_extention intersection (seal_ref new_branch_node) else new_branch_node)"

definition mpt_insert :: "trie_env \<Rightarrow> 's kvdb_ops \<Rightarrow> 's \<Rightarrow> nat \<Rightarrow> TrieNode \<Rightarrow> nibble list \<Rightarrow> bytes \<Rightarrow> nat \<Rightarrow>
  h256 list \<Rightarrow> (TrieNode \<times> h256 list) result" where
  "mpt_insert E D db N last_node remainder val depth del_ops = (case last_node of
     Branch children value \<Rightarrow> and_then (insert_on_branch N children remainder val depth del_ops) (\<lambda>(children', del_ops').
       Inr (Branch children' value, del_ops'))
   | Extension ext_key child \<Rightarrow> insert_on_extension E D db N ext_key child remainder val depth del_ops
   | Leaf leaf_key leaf_value \<Rightarrow> Inr (insert_on_leaf leaf_key leaf_value remainder val, del_ops))"

section \<open>Removal\<close>

definition drop_single_child_branch :: "trie_env \<Rightarrow> 's kvdb_ops \<Rightarrow> 's \<Rightarrow> nibble \<Rightarrow> ChildRef \<Rightarrow> h256 list \<Rightarrow>
  (TrieNode \<times> h256 list) result" where
  "drop_single_child_branch E D db idx child_ref del_ops =
     and_then (loaded_mut E D db child_ref) (\<lambda>r. and_then (unwrap_option r) (\<lambda>child.
       if node_key (ext_node child) \<noteq> None then
         (case make_mut child del_ops of (n, del_ops') \<Rightarrow>
            and_then (update_key (add_prefix [idx]) n) (\<lambda>n'. Inr (n', del_ops')))
       else Inr (new_extention [idx] (Owned child), del_ops)))"

definition push_non_branch_to_stack :: "TrieNode \<Rightarrow> search_stack \<Rightarrow> search_stack result" where
  "push_non_branch_to_stack node stack =
     (if stack = [] then Inr [(TrieNodeExt_new node, None)]
      else case ext_node (fst (last stack)) of
        Extension ext_key child \<Rightarrow> and_then (update_key (add_prefix ext_key) node) (\<lambda>node'.
          Inr (butlast stack @ [(TrieNodeExt_new node', None)]))
      | _ \<Rightarrow> Inr (stack @ [(TrieNodeExt_new node, None)]))"

definition remove_branch_value :: "trie_env \<Rightarrow> 's kvdb_ops \<Rightarrow> 's \<Rightarrow> ChildRef list \<Rightarrow> search_stack \<Rightarrow> h256 list \<Rightarrow>
  (search_stack \<times> h256 list) result" where
  "remove_branch_value E D db children stack del_ops = (case only_child_mut children of
     Some (idx, child_ref) \<Rightarrow>
       and_then (drop_single_child_branch E D db idx child_ref del_ops) (\<lambda>(connect_node, del_ops').
       and_then (push_non_branch_to_stack connect_node stack) (\<lambda>stack'. Inr (stack', del_ops')))
   | None \<Rightarrow> Inr (stack @ [(TrieNodeExt_new (Branch children []), None)], del_ops))"

definition remove_leaf :: "trie_env \<Rightarrow> 's kvdb_ops \<Rightarrow> 's \<Rightarrow> search_stack \<Rightarrow> h256 list \<Rightarrow>
  (search_stack \<times> h256 list) result" where
  "remove_leaf E D db stack del_ops =
     (if stack = [] then Inr ([], del_ops)
      else case last stack of (last_parent, idx_opt) \<Rightarrow>
        let stack1 = butlast stack in
        case make_mut last_parent del_ops of (parent, del_ops1) \<Rightarrow>
        and_then (unwrap_option idx_opt) (\<lambda>idx.
        and_then (unwrap_option (as_branch parent)) (\<lambda>(children, value).
          let children' = children[unat idx := Null] in
          if value = [] then
            (case only_child_mut children' of
               Some (idx', child_ref) \<Rightarrow>
                 and_then (drop_single_child_branch E D db idx' child_ref del_ops1) (\<lambda>(connect_node, del_ops2).
                 and_then (push_non_branch_to_stack connect_node stack1) (\<lambda>stack'. Inr (stack', del_ops2)))
             | None \<Rightarrow> Inr (stack1 @ [(TrieNodeExt_new (Branch children' value), None)], del_ops1))
          else if no_child children' then
            and_then (push_non_branch_to_stack (new_leaf [] value) stack1) (\<lambda>stack'. Inr (stack', del_ops1))
          else Inr (stack1 @ [(TrieNodeExt_new (Branch children' value), None)], del_ops1))))"

definition mpt_remove :: "trie_env \<Rightarrow> 's kvdb_ops \<Rightarrow> 's \<Rightarrow> search_stack \<Rightarrow> h256 list \<Rightarrow> (search_stack \<times> h256 list) result" where
  "mpt_remove E D db stack del_ops =
     (if stack = [] then Inl (Panic ''called Option::unwrap() on a None value'')
      else case make_mut (fst (last stack)) del_ops of (last_node, del_ops1) \<Rightarrow>
        (case last_node of
           Branch children value \<Rightarrow> remove_branch_value E D db children (butlast stack) del_ops1
         | Leaf key value \<Rightarrow> remove_leaf E D db (butlast stack) del_ops1
         | Extension key child \<Rightarrow> Inl (Panic ''internal error: entered unreachable code'')))"

definition mpt_del :: "trie_env \<Rightarrow> 's kvdb_ops \<Rightarrow> nat \<Rightarrow> 's MerklePatriciaTree \<Rightarrow> bytes \<Rightarrow> 's MerklePatriciaTree result option" where
  "mpt_del E D N t key =
     (if mpt_root t = None then Some (Inr t)
      else map_option (\<lambda>r. and_then r (\<lambda>(res, t').
        if \<not> sr_matched res then Inr t'
        else and_then (reset_pointers (sr_stack res) (mpt_del_ops t')) (\<lambda>(stack, del_ops).
             and_then (mpt_remove E D (mpt_db t') stack del_ops) (\<lambda>(stack', del_ops').
             and_then (recover_pointers stack' del_ops') (\<lambda>(root, del_ops'').
               Inr (t'\<lparr>mpt_root := root, mpt_del_ops := del_ops''\<rparr>))))))
        (mpt_search E D N t key))"

text \<open>The part of \<open>put\<close> after the search: the value is set on the matched node, or
  inserted at the node where the search stopped.\<close>

definition put_at :: "trie_env \<Rightarrow> 's kvdb_ops \<Rightarrow> nat \<Rightarrow> SearchResult \<Rightarrow> bytes \<Rightarrow> 's MerklePatriciaTree \<Rightarrow> 's MerklePatriciaTree result" where
  "put_at E D N res val t =
     and_then (reset_pointers (sr_stack res) (mpt_del_ops t)) (\<lambda>(stack, del_ops).
       case make_mut (fst (last stack)) del_ops of (n, del_ops1) \<Rightarrow>
       and_then (if sr_matched res then and_then (set_value val n) (\<lambda>n'. Inr (n', del_ops1))
                 else mpt_insert E D (mpt_db t) N n (sr_remainder res) val (length stack - 1) del_ops1) (\<lambda>(n', del_ops2).
       and_then (recover_pointers (butlast stack @ [(TrieNodeExt_new n', snd (last stack))]) del_ops2) (\<lambda>(root, del_ops3).
         Inr (t\<lparr>mpt_root := root, mpt_del_ops := del_ops3\<rparr>))))"

definition mpt_put :: "trie_env \<Rightarrow> 's kvdb_ops \<Rightarrow> nat \<Rightarrow> 's MerklePatriciaTree \<Rightarrow> bytes \<Rightarrow> bytes \<Rightarrow> 's MerklePatriciaTree result option" where
  "mpt_put E D N t key val =
     (if key = [] then Some (Inl (Panic ''Empty key is not supported''))
      else if val = [] then mpt_del E D N t key
      else if mpt_root t = None then
        Some (Inr (t\<lparr>mpt_root := Some (TrieNodeExt_new (new_leaf (bytes_to_nibble_list key) val))\<rparr>))
      else map_option (\<lambda>r. and_then r (\<lambda>(res, t').
        (case matched_node res of
           Some e \<Rightarrow> and_then (unwrap_option (node_value (ext_node e))) (\<lambda>old.
             if old = val then Inr t' else put_at E D N res val t')
         | None \<Rightarrow> put_at E D N res val t')))
        (mpt_search E D N t key))"

section \<open>Commit\<close>

text \<open>\<open>exile_nodes.drain(..)\<close> and \<open>loaded_node.drain(..)\<close>: the marked nodes of the
  tree, visited bottom-up.  The order of the two lists does not matter: the
  operations are keyed by the hash of their value, and truncating a node only drops
  nodes below it.\<close>

function ext_drain_exiled :: "trie_env \<Rightarrow> TrieNodeExt \<Rightarrow> (h256 \<times> bytes) list \<Rightarrow> TrieNodeExt \<times> (h256 \<times> bytes) list"
and node_drain_exiled :: "trie_env \<Rightarrow> TrieNode \<Rightarrow> (h256 \<times> bytes) list \<Rightarrow> TrieNode \<times> (h256 \<times> bytes) list"
and child_drain_exiled :: "trie_env \<Rightarrow> ChildRef \<Rightarrow> (h256 \<times> bytes) list \<Rightarrow> ChildRef \<times> (h256 \<times> bytes) list"
and children_drain_exiled :: "trie_env \<Rightarrow> ChildRef list \<Rightarrow> (h256 \<times> bytes) list \<Rightarrow> ChildRef list \<times> (h256 \<times> bytes) list" where
  "ext_drain_exiled E (TrieNodeExt node c) put_ops = (case node_drain_exiled E node put_ops of (node1, put_ops1) \<Rightarrow>
     if in_exile_nodes c then
       (case ext_hash E (TrieNodeExt node1 (c\<lparr>in_exile_nodes := False\<rparr>)) of (h, e1) \<Rightarrow>
        case get_rlp_encode E e1 of (rlp_encode, e2) \<Rightarrow> (e2, put_ops1 @ [(h, rlp_encode)]))
     else (TrieNodeExt node1 c, put_ops1))"
| "node_drain_exiled E (Branch children value) put_ops = (case children_drain_exiled E children put_ops of (children', put_ops') \<Rightarrow>
     (Branch children' value, put_ops'))"
| "node_drain_exiled E (Extension key child) put_ops = (case child_drain_exiled E child put_ops of (child', put_ops') \<Rightarrow>
     (Extension key child', put_ops'))"
| "node_drain_exiled E (Leaf key value) put_ops = (Leaf key value, put_ops)"
| "child_drain_exiled E (Owned node) put_ops = (case ext_drain_exiled E node put_ops of (node', put_ops') \<Rightarrow> (Owned node', put_ops'))"
| "child_drain_exiled E Null put_ops = (Null, put_ops)"
| "child_drain_exiled E (Ref digest) put_ops = (Ref digest, put_ops)"
| "children_drain_exiled E [] put_ops = ([], put_ops)"
| "children_drain_exiled E (c # cs) put_ops = (case child_drain_exiled E c put_ops of (c', put_ops') \<Rightarrow>
     case children_drain_exiled E cs put_ops' of (cs', put_ops'') \<Rightarrow> (c' # cs', put_ops''))"
  by pat_completeness auto
termination
  by (relation "measure (\<lambda>x. case x of
      Inl (Inl (E, e, put_ops)) \<Rightarrow> size e
    | Inl (Inr (E, n, put_ops)) \<Rightarrow> size n
    | Inr (Inl (E, c, put_ops)) \<Rightarrow> size c
    | Inr (Inr (E, cs, put_ops)) \<Rightarrow> size_list size cs)") auto

fun ext_drain_loaded :: "trie_env \<Rightarrow> TrieNodeExt \<Rightarrow> TrieNodeExt"
and node_drain_loaded :: "trie_env \<Rightarrow> TrieNode \<Rightarrow> TrieNode"
and child_drain_loaded :: "trie_env \<Rightarrow> ChildRef \<Rightarrow> ChildRef" where
  "ext_drain_loaded E (TrieNodeExt node c) =
     (let e = TrieNodeExt (node_drain_loaded E node) (c\<lparr>in_loaded_node := False\<rparr>) in
      if in_loaded_node c then TrieNodeExt_truncate E e else e)"
| "node_drain_loaded E (Branch children value) = Branch (map (child_drain_loaded E) children) value"
| "node_drain_loaded E (Extension key child) = Extension key (child_drain_loaded E child)"
| "node_drain_loaded E (Leaf key value) = Leaf key value"
| "child_drain_loaded E (Owned node) = Owned (ext_drain_loaded E node)"
| "child_drain_loaded E Null = Null"
| "child_drain_loaded E (Ref digest) = Ref digest"

definition write_each :: "'s kvdb_ops \<Rightarrow> DBOp list \<Rightarrow> 's \<Rightarrow> 's" where
  "write_each D ops db = fold (\<lambda>op db. kv_write_buffered D db [op]) ops db"

definition del_dbop :: "h256 \<Rightarrow> DBOp" where
  "del_dbop h = Delete 0 (digest_bytes h)"

definition put_dbop :: "h256 \<times> bytes \<Rightarrow> DBOp" where
  "put_dbop kv = Insert 0 (digest_bytes (fst kv)) (snd kv)"

definition mpt_commit :: "trie_env \<Rightarrow> 's kvdb_ops \<Rightarrow> nat \<Rightarrow> 's MerklePatriciaTree \<Rightarrow> (h256 \<times> 's MerklePatriciaTree) result" where
  "mpt_commit E D N t = (case mpt_root t of
     None \<Rightarrow>
       (let db1 = kv_write_buffered D (mpt_db t) [Delete 0 ROOT_KEY];
            db2 = write_each D (map del_dbop (mpt_del_ops t)) db1 in
        and_then (kv_flush D db2) (\<lambda>db3. Inr (EMPTY_ROOT, t\<lparr>mpt_db := db3, mpt_del_ops := []\<rparr>)))
   | Some root \<Rightarrow>
       (case ext_drain_exiled E root [] of (root1, put_ops1) \<Rightarrow>
        and_then (ext_commit E N False 0 root1 put_ops1) (\<lambda>(root2, put_ops2).
          let root3 = ext_drain_loaded E root2;
              db1 = write_each D (map del_dbop (mpt_del_ops t)) (mpt_db t);
              db2 = write_each D (map put_dbop put_ops2) db1;
              (h, root4) = ext_hash E root3;
              db3 = kv_write_buffered D db2 [Insert 0 ROOT_KEY (digest_bytes h)] in
          and_then (kv_flush D db3) (\<lambda>db4. Inr (h, t\<lparr>mpt_db := db4, mpt_root := Some root4, mpt_del_ops := []\<rparr>)))))"

definition mpt_flush_all :: "trie_env \<Rightarrow> 's kvdb_ops \<Rightarrow> nat \<Rightarrow> 's MerklePatriciaTree \<Rightarrow> 's MerklePatriciaTree result" where
  "mpt_flush_all E D N t =
     and_then (case mpt_root t of
         None \<Rightarrow> Inr (None, [])
       | Some root \<Rightarrow> and_then (ext_commit E N True 0 root []) (\<lambda>(root', put_ops). Inr (Some root', put_ops)))
       (\<lambda>(root', put_ops).
         and_then (kv_flush D (write_each D (map put_dbop put_ops) (mpt_db t))) (\<lambda>db. Inr (t\<lparr>mpt_db := db, mpt_root := root'\<rparr>)))"

section \<open>The AuthDB wrapper\<close>

definition CACHED_LEVEL :: nat where
  "CACHED_LEVEL = 6"

type_synonym 's RainMpt = "'s MerklePatriciaTree"

definition RainMpt_new :: "trie_env \<Rightarrow> 's kvdb_ops \<Rightarrow> 's \<Rightarrow> 's RainMpt result" where
  "RainMpt_new E D backend = mpt_new E D CACHED_LEVEL backend"

definition RainMpt_get :: "trie_env \<Rightarrow> 's kvdb_ops \<Rightarrow> 's RainMpt \<Rightarrow> bytes \<Rightarrow> (bytes option \<times> 's RainMpt) result option" where
  "RainMpt_get E D t key = mpt_get E D CACHED_LEVEL t key"

definition RainMpt_set :: "trie_env \<Rightarrow> 's kvdb_ops \<Rightarrow> 's RainMpt \<Rightarrow> bytes \<Rightarrow> bytes \<Rightarrow> 's RainMpt result option" where
  "RainMpt_set E D t key value = mpt_put E D CACHED_LEVEL t key value"

definition RainMpt_commit :: "trie_env \<Rightarrow> 's kvdb_ops \<Rightarrow> 's RainMpt \<Rightarrow> nat \<Rightarrow> 's RainMpt result" where
  "RainMpt_commit E D t index = and_then (mpt_commit E D CACHED_LEVEL t) (\<lambda>(_, t'). Inr t')"

definition RainMpt_flush_all :: "trie_env \<Rightarrow> 's kvdb_ops \<Rightarrow> 's RainMpt \<Rightarrow> 's RainMpt result" where
  "RainMpt_flush_all E D t = mpt_flush_all E D CACHED_LEVEL t"

end
