(* ===== verification/RainReps.thy ===== *)
theory RainReps
  imports RainMpt "HOL-Library.Sublist"
begin

text \<open>
  What a RainBlock trie stands for.  A \<open>ptrie\<close> is the trie without caches, with
  every subtree present; it determines a map from nibble keys to values
  (\<open>plookup\<close>) and the bytes the code hashes (\<open>penc\<close>).  The relations \<open>rep_node\<close>,
  \<open>rep_child\<close> and \<open>rep_ext\<close> say that a node of the program, whose children may
  still be hashes to be loaded, stands for a \<open>ptrie\<close> and that its caches hold the
  encoding and the hash of it.  A search stack stands for a list of frames
  around the node where the search stopped.
\<close>

section \<open>The trie in full\<close>

datatype ptrie =
    PLeaf "nibble list" bytes
  | PBranch "ptrie option list" bytes
  | PExt "nibble list" ptrie

function plookup :: "ptrie \<Rightarrow> nibble list \<Rightarrow> bytes option" where
  "plookup (PLeaf k v) ks = (if ks = k then Some v else None)"
| "plookup (PBranch ts v) [] = (if v = [] then None else Some v)"
| "plookup (PBranch ts v) (i # ks) = (case ts ! unat i of Some t \<Rightarrow> plookup t ks | None \<Rightarrow> None)"
| "plookup (PExt k t) ks = (if prefix k ks then plookup t (drop (length k) ks) else None)"
  by pat_completeness auto
termination
  by (relation "measures [\<lambda>(t, ks). length ks, \<lambda>(t, ks). size t]") auto

definition entries :: "ptrie option list \<Rightarrow> bytes \<Rightarrow> nat" where
  "entries ts v = length (filter (\<lambda>x. x \<noteq> None) ts) + (if v = [] then 0 else 1)"

fun is_pbranch :: "ptrie \<Rightarrow> bool" where
  "is_pbranch (PBranch ts v) = True"
| "is_pbranch _ = False"

primrec pwf :: "ptrie \<Rightarrow> bool" where
  "pwf (PLeaf k v) = (v \<noteq> [])"
| "pwf (PBranch ts v) = (length ts = 16 \<and> 2 \<le> entries ts v \<and> list_all (case_option True (\<lambda>b. b)) (map (map_option pwf) ts))"
| "pwf (PExt k t) = (k \<noteq> [] \<and> is_pbranch t \<and> pwf t)"

definition pref :: "trie_env \<Rightarrow> bytes \<Rightarrow> bytes" where
  "pref E b = (if length b < 32 then b else te_data E (digest_bytes (te_hasher E b)))"

primrec penc :: "trie_env \<Rightarrow> ptrie \<Rightarrow> bytes" where
  "penc E (PLeaf k v) = te_list E [te_data E (mpt_key_bytes k True), te_data E v]"
| "penc E (PBranch ts v) = te_list E (map (case_option (te_data E []) (pref E)) (map (map_option (penc E)) ts) @ [te_data E v])"
| "penc E (PExt k t) = te_list E [te_data E (mpt_key_bytes k False), pref E (penc E t)]"

declare pwf.simps(2) [simp del]

lemma pwf_branch [simp]:
  "pwf (PBranch ts v) \<longleftrightarrow> length ts = 16 \<and> 2 \<le> entries ts v \<and> (\<forall>t. Some t \<in> set ts \<longrightarrow> pwf t)"
  by (auto simp: pwf.simps(2) list_all_iff split: option.split)

definition penc_child :: "trie_env \<Rightarrow> ptrie option \<Rightarrow> bytes" where
  "penc_child E x = (case x of Some t \<Rightarrow> pref E (penc E t) | None \<Rightarrow> te_data E [])"

lemma penc_branch: "penc E (PBranch ts v) = te_list E (map (penc_child E) ts @ [te_data E v])"
  by (auto simp: penc_child_def intro!: arg_cong [where f = "te_list E"] split: option.split)

section \<open>Nodes that stand for a trie\<close>

definition cache_ok :: "trie_env \<Rightarrow> node_cache \<Rightarrow> ptrie \<Rightarrow> bool" where
  "cache_ok E c t \<longleftrightarrow>
     (\<forall>b. nc_rlp_encode c = Some b \<longrightarrow> b = penc E t) \<and>
     (\<forall>h. nc_hash c = Some h \<longrightarrow> h = te_hasher E (penc E t))"

inductive rep_node :: "trie_env \<Rightarrow> (h256 \<Rightarrow> TrieNodeExt result) \<Rightarrow> TrieNode \<Rightarrow> ptrie \<Rightarrow> bool"
and rep_child :: "trie_env \<Rightarrow> (h256 \<Rightarrow> TrieNodeExt result) \<Rightarrow> ChildRef \<Rightarrow> ptrie option \<Rightarrow> bool"
and rep_ext :: "trie_env \<Rightarrow> (h256 \<Rightarrow> TrieNodeExt result) \<Rightarrow> TrieNodeExt \<Rightarrow> ptrie \<Rightarrow> bool"
for E L where
  rep_leaf: "rep_node E L (Leaf k v) (PLeaf k v)"
| rep_branch: "list_all2 (rep_child E L) cs ts \<Longrightarrow> rep_node E L (Branch cs v) (PBranch ts v)"
| rep_extension: "rep_child E L c (Some t) \<Longrightarrow> rep_node E L (Extension k c) (PExt k t)"
| rep_null: "rep_child E L Null None"
| rep_ref: "L h = Inr e \<Longrightarrow> rep_ext E L e t \<Longrightarrow> h = te_hasher E (penc E t) \<Longrightarrow> 32 \<le> length (penc E t) \<Longrightarrow>
    rep_child E L (Ref h) (Some t)"
| rep_owned: "rep_ext E L e t \<Longrightarrow> rep_child E L (Owned e) (Some t)"
| rep_extI: "rep_node E L n t \<Longrightarrow> cache_ok E c t \<Longrightarrow> rep_ext E L (TrieNodeExt n c) t"

lemmas rep_intros = rep_leaf rep_branch rep_extension rep_null rep_owned rep_extI

inductive_simps rep_node_leaf: "rep_node E L (Leaf k v) t"
inductive_simps rep_node_branch: "rep_node E L (Branch cs v) t"
inductive_simps rep_node_extension: "rep_node E L (Extension k c) t"
inductive_simps rep_node_pleaf: "rep_node E L n (PLeaf k v)"
inductive_simps rep_node_pbranch: "rep_node E L n (PBranch ts v)"
inductive_simps rep_node_pext: "rep_node E L n (PExt k t)"
inductive_simps rep_child_null: "rep_child E L Null x"
inductive_simps rep_child_ref: "rep_child E L (Ref h) x"
inductive_simps rep_child_owned: "rep_child E L (Owned e) x"
inductive_simps rep_child_none: "rep_child E L c None"
inductive_simps rep_ext_iff: "rep_ext E L e t"

lemmas rep_simps = rep_node_leaf rep_node_branch rep_node_extension rep_child_null rep_child_owned rep_child_none


section \<open>Frames\<close>

datatype frame =
    FB "ptrie option list" bytes nibble
  | FE "nibble list"

fun fill1 :: "frame \<Rightarrow> ptrie \<Rightarrow> ptrie" where
  "fill1 (FB ts v p) t = PBranch (ts[unat p := Some t]) v"
| "fill1 (FE k) t = PExt k t"

definition fill :: "frame list \<Rightarrow> ptrie \<Rightarrow> ptrie" where
  "fill fs t = foldr fill1 fs t"

fun fpath :: "frame \<Rightarrow> nibble list" where
  "fpath (FB ts v p) = [p]"
| "fpath (FE k) = k"

definition path :: "frame list \<Rightarrow> nibble list" where
  "path fs = concat (map fpath fs)"

fun frame_ok :: "frame \<Rightarrow> bool" where
  "frame_ok (FB ts v p) = (length ts = 16)"
| "frame_ok (FE k) = True"

fun is_fe :: "frame \<Rightarrow> bool" where
  "is_fe (FE k) = True"
| "is_fe (FB ts v p) = False"

lemma fill_simps [simp]:
  "fill [] t = t" "fill (f # fs) t = fill1 f (fill fs t)" "fill (fs @ gs) t = fill fs (fill gs t)"
  by (simp_all add: fill_def)

lemma path_simps [simp]: "path [] = []" "path (f # fs) = fpath f @ path fs" "path (fs @ gs) = path fs @ path gs"
  by (simp_all add: path_def)

lemma unat_nibble: "unat (i :: nibble) < 16"
  using unat_bound [of i] by simp

lemma plookup_fill1_update:
  assumes "frame_ok f" "plookup t' = (plookup t)(r := x)"
  shows "plookup (fill1 f t') = (plookup (fill1 f t))(fpath f @ r := x)"
proof
  fix ks
  show "plookup (fill1 f t') ks = ((plookup (fill1 f t))(fpath f @ r := x)) ks"
  proof (cases f)
    case (FB ts v p)
    show ?thesis
    proof (cases ks)
      case Nil
      then show ?thesis using FB by simp
    next
      case (Cons i rest)
      then show ?thesis using assms FB unat_nibble [of p] by (cases "i = p") (simp_all add: word_unat_eq_iff)
    qed
  next
    case (FE k)
    then show ?thesis using assms by (auto simp: prefix_def)
  qed
qed

lemma plookup_fill_update:
  "list_all frame_ok fs \<Longrightarrow> plookup t' = (plookup t)(r := x) \<Longrightarrow>
   plookup (fill fs t') = (plookup (fill fs t))(path fs @ r := x)"
  by (induction fs) (simp_all add: plookup_fill1_update)

lemma plookup_fill: "list_all frame_ok fs \<Longrightarrow> plookup (fill fs t) (path fs @ r) = plookup t r"
proof (induction fs)
  case (Cons f fs)
  then show ?case by (cases f) (simp_all add: unat_nibble)
qed simp

lemma is_pbranch_fill1: "is_pbranch (fill1 f t) \<longleftrightarrow> \<not> is_fe f"
  by (cases f) simp_all

lemma entries_update:
  "i < length ts \<Longrightarrow> ts ! i \<noteq> None \<Longrightarrow> entries (ts[i := Some t]) v = entries ts v"
  by (induction ts arbitrary: i) (auto simp: entries_def nth_Cons split: nat.splits)

lemma pwf_fill1:
  assumes "pwf (fill1 f t)" "pwf t'" "is_fe f \<Longrightarrow> is_pbranch t'"
  shows "pwf (fill1 f t')"
proof (cases f)
  case (FB ts v p)
  let ?i = "unat p"
  have l: "length ts = 16" using assms(1) FB by simp
  have "entries ((ts[?i := Some t])[?i := Some t']) v = entries (ts[?i := Some t]) v"
    using l unat_nibble [of p] by (intro entries_update) simp_all
  then show ?thesis using assms FB l unat_nibble [of p]
    by (auto simp: in_set_conv_nth nth_list_update split: if_splits)
next
  case (FE k)
  then show ?thesis using assms by simp
qed

lemma pwf_fill_inner: "pwf (fill fs t) \<Longrightarrow> pwf t"
proof (induction fs)
  case (Cons f fs)
  then show ?case using unat_nibble by (cases f) (auto simp: set_update_memI)
qed simp

lemma pwf_fill_frames: "pwf (fill fs t) \<Longrightarrow> list_all frame_ok fs"
proof (induction fs)
  case (Cons f fs)
  then have "pwf (fill fs t)" using pwf_fill_inner [of "[f]" "fill fs t"] by simp
  then show ?case using Cons by (cases f) auto
qed simp

lemma pwf_fill:
  "pwf (fill fs t) \<Longrightarrow> pwf t' \<Longrightarrow> (fs \<noteq> [] \<Longrightarrow> is_fe (last fs) \<Longrightarrow> is_pbranch t') \<Longrightarrow> pwf (fill fs t')"
proof (induction fs)
  case (Cons f fs)
  have w: "pwf (fill fs t)" using Cons.prems(1) pwf_fill_inner [of "[f]" "fill fs t"] by simp
  then have "pwf (fill fs t')" using Cons by (cases "fs = []") simp_all
  moreover have "is_pbranch (fill fs t')" if "is_fe f"
  proof (cases fs)
    case Nil
    then show ?thesis using Cons.prems that by simp
  next
    case (Cons g gs)
    then show ?thesis using Cons.prems(1) that \<open>pwf (fill (f # fs) t)\<close> by (cases f) (auto simp: is_pbranch_fill1)
  qed
  ultimately show ?case using Cons.prems(1) by (simp add: pwf_fill1)
qed simp

section \<open>Stacks that stand for frames\<close>

inductive rep_frame :: "trie_env \<Rightarrow> (h256 \<Rightarrow> TrieNodeExt result) \<Rightarrow> TrieNode \<Rightarrow> nibble \<Rightarrow> frame \<Rightarrow> bool" for E L where
  rep_FB: "length cs = 16 \<Longrightarrow> length ts = 16 \<Longrightarrow> (\<And>i. i < 16 \<Longrightarrow> i \<noteq> unat p \<Longrightarrow> rep_child E L (cs ! i) (ts ! i)) \<Longrightarrow>
    rep_frame E L (Branch cs v) p (FB ts v p)"
| rep_FE: "rep_frame E L (Extension k c) 0 (FE k)"

lemma rep_frame_set_child:
  assumes "rep_frame E L n p f"
  shows "\<exists>n'. set_child p c n = Inr n' \<and> rep_frame E L n' p f \<and> (\<forall>t. rep_child E L c (Some t) \<longrightarrow> rep_node E L n' (fill1 f t))"
  using assms
proof cases
  case (rep_FB cs ts v)
  have "rep_node E L (Branch (cs[unat p := c]) v) (fill1 f t)" if "rep_child E L c (Some t)" for t
  proof -
    have "list_all2 (rep_child E L) (cs[unat p := c]) (ts[unat p := Some t])"
      using rep_FB that unat_nibble [of p] by (auto simp: list_all2_conv_all_nth nth_list_update)
    then show ?thesis unfolding rep_FB(2) fill1.simps by (rule rep_branch)
  qed
  moreover have "rep_frame E L (Branch (cs[unat p := c]) v) p f"
    unfolding rep_FB(2) using rep_FB by (intro rep_frame.rep_FB) simp_all
  ultimately show ?thesis using rep_FB by simp
next
  case (rep_FE k c)
  then show ?thesis by (auto intro: rep_frame.rep_FE rep_extension)
qed

text \<open>A stack a search leaves: the caches of its nodes are those of the tree as it was.\<close>

fun live_path :: "trie_env \<Rightarrow> (h256 \<Rightarrow> TrieNodeExt result) \<Rightarrow> search_stack \<Rightarrow> frame list \<Rightarrow> ptrie \<Rightarrow> bool" where
  "live_path E L [] [] t = True"
| "live_path E L ((e, Some p) # stk) (f # fs) t =
     (rep_frame E L (ext_node e) p f \<and> cache_ok E (ext_cache e) (fill (f # fs) t) \<and> live_path E L stk fs t)"
| "live_path E L _ _ t = False"

text \<open>A stack with its nodes detached: the caches are empty.\<close>

definition detached :: "trie_env \<Rightarrow> (h256 \<Rightarrow> TrieNodeExt result) \<Rightarrow> search_stack \<Rightarrow> frame list \<Rightarrow> bool" where
  "detached E L stk fs = list_all2 (\<lambda>(e, pos) f. \<exists>n p. e = TrieNodeExt_new n \<and> pos = Some p \<and> rep_frame E L n p f) stk fs"

lemma cache_ok_clear [simp]: "cache_ok E clear_cache t"
  by (simp add: cache_ok_def clear_cache_def)

lemma rep_ext_new [simp]: "rep_ext E L (TrieNodeExt_new n) t \<longleftrightarrow> rep_node E L n t"
  by (simp add: TrieNodeExt_new_def rep_ext_iff)

lemma make_mut_new [simp]: "make_mut (TrieNodeExt_new n) del = (n, del)"
  by (simp add: make_mut_def TrieNodeExt_new_def clear_cache_def)

lemma put_owned_set_child:
  "set_child p (Owned e') (ext_node e) = Inr n' \<Longrightarrow> put_owned p e' e = TrieNodeExt n' (ext_cache e)"
  by (cases "ext_node e") (auto split: if_splits)

lemma plug_live_path:
  "live_path E L stk fs t \<Longrightarrow> rep_ext E L e t \<Longrightarrow>
   \<exists>e'. plug_stack (stk @ [(e, None)]) = Some e' \<and> rep_ext E L e' (fill fs t)"
proof (induction E L stk fs t rule: live_path.induct)
  case (2 E L e1 p stk f fs t)
  then obtain e' where e': "plug_stack (stk @ [(e, None)]) = Some e'" "rep_ext E L e' (fill fs t)" by auto
  obtain n' where n': "set_child p (Owned e') (ext_node e1) = Inr n'" "rep_node E L n' (fill1 f (fill fs t))"
    using rep_frame_set_child 2(2) e'(2) rep_owned by (metis live_path.simps(2))
  then show ?case using e' put_owned_set_child [OF n'(1)] 2(2) by (simp add: rep_ext_iff del: put_owned.simps)
qed simp_all

lemma reset_live_path:
  "live_path E L stk fs t \<Longrightarrow>
   \<exists>stk' del'. reset_pointers (stk @ [(e, None)]) del = Inr (stk' @ [(e, None)], del') \<and> detached E L stk' fs"
proof (induction E L stk fs t arbitrary: del rule: live_path.induct)
  case (1 E L t)
  then show ?case by (simp add: detached_def)
next
  case (2 E L e1 p stk f fs t)
  obtain n1 del1 where m: "make_mut e1 del = (n1, del1)" by fastforce
  then have n1: "n1 = ext_node e1" by (simp add: make_mut_def)
  obtain n' where n': "set_child p Null n1 = Inr n'" "rep_frame E L n' p f"
    using rep_frame_set_child 2(2) n1 by (metis live_path.simps(2))
  from 2 obtain stk' del' where "reset_pointers (stk @ [(e, None)]) del1 = Inr (stk' @ [(e, None)], del')" "detached E L stk' fs"
    by fastforce
  then show ?case using m n' by (intro exI [of _ "(TrieNodeExt_new n', Some p) # stk'"]) (auto simp: detached_def)
qed simp_all

lemma recover_detached:
  "detached E L stk fs \<Longrightarrow> rep_ext E L e t \<Longrightarrow>
   \<exists>e' del'. recover_pointers (stk @ [(e, None)]) del = Inr (Some e', del') \<and> rep_ext E L e' (fill fs t)"
proof (induction stk arbitrary: fs e t del rule: rev_induct)
  case Nil
  then show ?case by (simp add: detached_def recover_pointers_def)
next
  case (snoc x stk)
  then obtain fs' f n p where fs: "fs = fs' @ [f]" "detached E L stk fs'" and x: "x = (TrieNodeExt_new n, Some p)" "rep_frame E L n p f"
    by (auto simp: detached_def list_all2_append1 list_all2_Cons1)
  obtain n' where n': "set_child p (Owned e) n = Inr n'" "rep_node E L n' (fill1 f t)"
    using rep_frame_set_child [OF x(2)] rep_owned [OF snoc.prems(2)] by metis
  obtain e' del' where "recover_pointers (stk @ [(TrieNodeExt_new n', None)]) del = Inr (Some e', del')"
      "rep_ext E L e' (fill fs' (fill1 f t))"
    using snoc.IH [OF fs(2)] n' rep_ext_new by metis
  then show ?case using fs x n' by (simp add: recover_pointers_def)
qed

end
