(* ===== verification/RainProofs.thy ===== *)
theory RainProofs
  imports RainReps
begin

text \<open>
  The RainBlock trie refines a map: the search returns on every well-formed
  trie, \<open>get\<close> reads the map and \<open>put\<close> updates it, with subtrees loaded from the
  store on the way.
\<close>

section \<open>Search\<close>

lemma owned_or_load_rep:
  assumes "rep_child E (TrieNodeExt_load E D db) c (Some t)"
  shows "\<exists>e b. owned_or_load E D db c = Inr (Some (e, b)) \<and> rep_ext E (TrieNodeExt_load E D db) e t"
  using assms by cases (auto simp: owned_or_load_def)

lemma loaded_mut_rep:
  assumes "rep_child E (TrieNodeExt_load E D db) c (Some t)"
  shows "\<exists>e. loaded_mut E D db c = Inr (Some e) \<and> rep_ext E (TrieNodeExt_load E D db) e t"
  using assms by cases (auto simp: loaded_mut_def)

text \<open>Where a search stops, relative to the node it stopped at.\<close>

fun stops :: "bool \<Rightarrow> ptrie \<Rightarrow> nibble list \<Rightarrow> bool" where
  "stops True (PLeaf k v) r = (r = k)"
| "stops True (PBranch ts v) r = (r = [])"
| "stops True (PExt k t) r = False"
| "stops False (PLeaf k v) r = (r \<noteq> k)"
| "stops False (PBranch ts v) r = (case r of [] \<Rightarrow> False | i # _ \<Rightarrow> ts ! unat i = None)"
| "stops False (PExt k t) r = (\<not> prefix k r)"

definition search_ends :: "trie_env \<Rightarrow> (h256 \<Rightarrow> TrieNodeExt result) \<Rightarrow> search_stack \<Rightarrow> ptrie \<Rightarrow> nibble list \<Rightarrow>
  SearchResult result option \<Rightarrow> bool" where
  "search_ends E L stack t ks r \<longleftrightarrow> (\<exists>stk fs e tn rest rem m.
     r = Some (Inr \<lparr>sr_stack = stack @ stk @ [(e, None)], sr_matched = m, sr_remainder = rem\<rparr>) \<and>
     live_path E L stk fs tn \<and> rep_ext E L e tn \<and> fill fs tn = t \<and> ks = path fs @ rest \<and> stops m tn rest \<and> (\<not> m \<longrightarrow> rem = rest))"

lemma search_ends_here:
  "rep_ext E L e t \<Longrightarrow> stops m t ks \<Longrightarrow> (\<not> m \<longrightarrow> rem = ks) \<Longrightarrow>
   search_ends E L stack t ks (Some (Inr \<lparr>sr_stack = stack @ [(e, None)], sr_matched = m, sr_remainder = rem\<rparr>))"
  unfolding search_ends_def
  by (intro exI [of _ "[]"] exI [of _ e] exI [of _ t] exI [of _ ks] exI [of _ rem] exI [of _ m]) simp

lemma search_ends_next:
  assumes "search_ends E L (stack @ [(e, Some p)]) t ks r" and "rep_frame E L (ext_node e) p f" and "cache_ok E (ext_cache e) (fill1 f t)"
  shows "search_ends E L stack (fill1 f t) (fpath f @ ks) r"
proof -
  obtain stk fs e' tn rest rem m where
    "r = Some (Inr \<lparr>sr_stack = (stack @ [(e, Some p)]) @ stk @ [(e', None)], sr_matched = m, sr_remainder = rem\<rparr>)"
    and "live_path E L stk fs tn" "rep_ext E L e' tn" "fill fs tn = t" "ks = path fs @ rest" "stops m tn rest" "\<not> m \<longrightarrow> rem = rest"
    using assms(1) unfolding search_ends_def by blast
  then show ?thesis using assms(2,3) unfolding search_ends_def
    by (intro exI [of _ "(e, Some p) # stk"] exI [of _ "f # fs"] exI [of _ e'] exI [of _ tn] exI [of _ rest] exI [of _ rem] exI [of _ m]) simp
qed

lemma cache_ok_mark [simp]: "cache_ok E (mark_loaded b c) t = cache_ok E c t"
  by (simp add: cache_ok_def mark_loaded_def)

lemma prefix_take: "prefix k ks \<longleftrightarrow> take (length k) ks = k"
  by (metis append_eq_conv_conj append_take_drop_id prefix_def)

lemma search_loop_ends:
  "rep_ext E (TrieNodeExt_load E D db) e t \<Longrightarrow> pwf t \<Longrightarrow>
   search_ends E (TrieNodeExt_load E D db) stack t ks (search_loop E D db N stack e ks depth)"
proof (induction t arbitrary: e ks stack depth)
  case (PLeaf k v)
  then have "ext_node e = Leaf k v" by (auto simp: rep_ext_iff rep_node_pleaf)
  then show ?case using PLeaf search_loop.simps [of E D db N stack e ks depth]
    by (auto simp: trie_next_def intro!: search_ends_here)
next
  case (PBranch ts v)
  let ?L = "TrieNodeExt_load E D db"
  obtain cs c where e: "e = TrieNodeExt (Branch cs v) c" "list_all2 (rep_child E ?L) cs ts" "cache_ok E c (PBranch ts v)"
    using PBranch.prems(1) by (auto simp: rep_ext_iff rep_node_pbranch)
  have l: "length cs = 16" "length ts = 16" using e PBranch.prems by (auto dest: list_all2_lengthD)
  show ?case
  proof (cases ks)
    case Nil
    then show ?thesis using PBranch.prems search_loop.simps [of E D db N stack e ks depth] e
      by (auto simp: trie_next_def intro!: search_ends_here)
  next
    case (Cons i rest)
    have ch: "rep_child E ?L (cs ! unat i) (ts ! unat i)" using e(2) l unat_nibble [of i] by (simp add: list_all2_conv_all_nth)
    show ?thesis
    proof (cases "ts ! unat i")
      case None
      then have "cs ! unat i = Null" using ch by (simp add: rep_child_none)
      then show ?thesis using PBranch.prems search_loop.simps [of E D db N stack e ks depth] e Cons None
        by (auto simp: trie_next_def owned_or_load_def intro!: search_ends_here)
    next
      case (Some t)
      obtain e1 b where e1: "owned_or_load E D db (cs ! unat i) = Inr (Some (e1, b))" "rep_ext E ?L e1 t"
        using owned_or_load_rep ch Some by metis
      have mem: "Some t \<in> set ts" using Some l unat_nibble [of i] by (metis nth_mem)
      let ?e = "TrieNodeExt (Branch (cs[unat i := Owned e1]) v) (mark_loaded (b \<and> depth \<ge> N) c)"
      have "search_ends E ?L (stack @ [(?e, Some i)]) t rest (search_loop E D db N (stack @ [(?e, Some i)]) e1 rest (depth + 1))"
        using PBranch.IH [OF mem, of t] PBranch.prems(2) mem e1(2) by simp
      moreover have "rep_frame E ?L (ext_node ?e) i (FB ts v i)"
        using e(2) l by (auto simp: list_all2_conv_all_nth intro!: rep_FB)
      moreover have f: "fill1 (FB ts v i) t = PBranch ts v" using Some by (simp add: list_update_same_conv l unat_nibble)
      ultimately have "search_ends E ?L stack (PBranch ts v) ks (search_loop E D db N (stack @ [(?e, Some i)]) e1 rest (depth + 1))"
        using search_ends_next [where f = "FB ts v i"] e(3) Cons by fastforce
      then show ?thesis using search_loop.simps [of E D db N stack e ks depth] e(1) e1(1) Cons by (simp add: trie_next_def)
    qed
  qed
next
  case (PExt k t)
  let ?L = "TrieNodeExt_load E D db"
  obtain c0 c where e: "e = TrieNodeExt (Extension k c0) c" "rep_child E ?L c0 (Some t)" "cache_ok E c (PExt k t)"
    using PExt.prems(1) by (auto simp: rep_ext_iff rep_node_pext)
  show ?case
  proof (cases "prefix k ks")
    case False
    then show ?thesis using PExt.prems search_loop.simps [of E D db N stack e ks depth] e
      by (auto simp: trie_next_def prefix_take intro!: search_ends_here)
  next
    case True
    then obtain rest where ks: "ks = k @ rest" by (auto simp: prefix_def)
    obtain e1 b where e1: "owned_or_load E D db c0 = Inr (Some (e1, b))" "rep_ext E ?L e1 t"
      using owned_or_load_rep e(2) by metis
    let ?e = "TrieNodeExt (Extension k (Owned e1)) (mark_loaded (b \<and> depth \<ge> N) c)"
    have "search_ends E ?L (stack @ [(?e, Some 0)]) t rest (search_loop E D db N (stack @ [(?e, Some 0)]) e1 rest (depth + 1))"
      using PExt.IH PExt.prems(2) e1(2) by simp
    then have "search_ends E ?L stack (PExt k t) ks (search_loop E D db N (stack @ [(?e, Some 0)]) e1 rest (depth + 1))"
      using search_ends_next [where f = "FE k"] e(3) ks by (fastforce intro: rep_FE)
    then show ?thesis using search_loop.simps [of E D db N stack e ks depth] e(1) e1(1) ks by (simp add: trie_next_def)
  qed
qed

section \<open>Pieces of a trie\<close>

lemma common_prefix_simps [simp]:
  "common_prefix [] b = []" "common_prefix a [] = []"
  "common_prefix (x # a) (y # b) = (if x = y then x # common_prefix a b else [])"
  by (simp_all add: common_prefix_def)

lemma common_prefix_split:
  obtains cp a' b' where "a = cp @ a'" "b = cp @ b'" "cp = common_prefix a b" "a' = [] \<or> b' = [] \<or> hd a' \<noteq> hd b'"
proof -
  have "\<exists>cp a' b'. a = cp @ a' \<and> b = cp @ b' \<and> cp = common_prefix a b \<and> (a' = [] \<or> b' = [] \<or> hd a' \<noteq> hd b')"
  proof (induction a arbitrary: b)
    case (Cons x a)
    show ?case
    proof (cases "b \<noteq> [] \<and> hd b = x")
      case True
      then obtain b0 where b0: "b = x # b0" by (cases b) auto
      obtain cp a' b' where f: "a = cp @ a'" "b0 = cp @ b'" "cp = common_prefix a b0" "a' = [] \<or> b' = [] \<or> hd a' \<noteq> hd b'"
        using Cons.IH by blast
      show ?thesis using f(1,2,4) f(3) [symmetric]
        by (intro exI [of _ "x # cp"] exI [of _ a'] exI [of _ b']) (simp add: b0)
    next
      case False
      then show ?thesis by (intro exI [of _ "[]"] exI [of _ "x # a"] exI [of _ b]) (cases b; auto)
    qed
  qed simp
  then show ?thesis using that by blast
qed

text \<open>A subtree below a prefix: an extension, unless the prefix is empty.\<close>

definition pext :: "nibble list \<Rightarrow> ptrie \<Rightarrow> ptrie" where
  "pext k t = (if k = [] then t else PExt k t)"

lemma plookup_pext: "plookup (pext k t) ks = (if prefix k ks then plookup t (drop (length k) ks) else None)"
  by (simp add: pext_def)

lemma plookup_PBranch:
  "plookup (PBranch ts v) ks = (case ks of [] \<Rightarrow> if v = [] then None else Some v
     | i # r \<Rightarrow> (case ts ! unat i of Some t \<Rightarrow> plookup t r | None \<Rightarrow> None))"
  by (cases ks) simp_all

definition no_children :: "ptrie option list" where
  "no_children = replicate 16 None"

lemma no_children_simps [simp]: "length no_children = 16" "no_children ! unat (i :: nibble) = None"
  by (simp_all add: no_children_def unat_nibble)

lemma set_no_children [simp]: "Some t \<notin> set no_children"
  by (simp add: no_children_def)

lemma entries_no_children [simp]: "entries no_children v = (if v = [] then 0 else 1)"
  by (simp add: entries_def no_children_def)

lemma entries_add: "i < length ts \<Longrightarrow> ts ! i = None \<Longrightarrow> entries (ts[i := Some t]) v = Suc (entries ts v)"
  by (induction ts arbitrary: i) (auto simp: entries_def nth_Cons split: nat.splits)

lemma nibble_update [simp]:
  "length ts = 16 \<Longrightarrow> ts[unat (i :: nibble) := x] ! unat j = (if i = j then x else ts ! unat j)"
  by (simp add: nth_list_update unat_nibble word_unat_eq_iff)

lemma in_update_iff: "length ts = 16 \<Longrightarrow> x \<in> set (ts[unat (i :: nibble) := y]) \<Longrightarrow> x = y \<or> x \<in> set ts"
  using set_update_subset_insert by fastforce

lemma rep_no_children: "list_all2 (rep_child E L) (replicate 16 Null) no_children"
  by (simp add: no_children_def list_all2_conv_all_nth rep_null)

lemma rep_update:
  "list_all2 (rep_child E L) cs ts \<Longrightarrow> rep_child E L c x \<Longrightarrow> list_all2 (rep_child E L) (cs[i := c]) (ts[i := x])"
  by (rule list_all2_update_cong)

lemma rep_seal [simp]: "rep_child E L (seal_ref n) (Some t) \<longleftrightarrow> rep_node E L n t"
  by (simp add: seal_ref_def rep_child_owned)

lemma rep_new_leaf [simp]: "rep_node E L (new_leaf k v) (PLeaf k v)"
  by (simp add: new_leaf_def rep_leaf)

lemma rep_pext:
  "rep_node E L n t \<Longrightarrow> rep_node E L (if k \<noteq> [] then Extension k (seal_ref n) else n) (pext k t)"
  by (simp add: pext_def rep_extension)

text \<open>Two entries below a branch, below a common prefix.  An entry is the rest of
  its key and the trie found there; the rest of a value stored at the branch is empty.\<close>

fun add_entry :: "nibble list \<times> ptrie \<Rightarrow> ptrie option list \<times> bytes \<Rightarrow> ptrie option list \<times> bytes" where
  "add_entry (i # k, PLeaf _ w) (ts, v) = (ts[unat i := Some (PLeaf k w)], v)"
| "add_entry ([], PLeaf _ w) (ts, v) = (ts, w)"
| "add_entry (i # k, t) (ts, v) = (ts[unat i := Some (pext k t)], v)"
| "add_entry ([], t) (ts, v) = (ts, v)"

definition fork :: "nibble list \<Rightarrow> nibble list \<times> ptrie \<Rightarrow> nibble list \<times> ptrie \<Rightarrow> ptrie" where
  "fork cp a b = pext cp (case add_entry b (add_entry a (no_children, [])) of (ts, v) \<Rightarrow> PBranch ts v)"

text \<open>An entry is a leaf with a value, with its key cut to the rest, or a branch some nibbles below.\<close>

definition entry_ok :: "nibble list \<times> ptrie \<Rightarrow> bool" where
  "entry_ok a \<longleftrightarrow> pwf (snd a) \<and> (case snd a of PLeaf k v \<Rightarrow> k = [] | PBranch ts v \<Rightarrow> fst a \<noteq> [] | PExt k t \<Rightarrow> False)"

definition entry_lookup :: "nibble list \<times> ptrie \<Rightarrow> nibble list \<Rightarrow> bytes option" where
  "entry_lookup a ks = (if prefix (fst a) ks then plookup (snd a) (drop (length (fst a)) ks) else None)"

definition apart :: "nibble list \<Rightarrow> nibble list \<Rightarrow> bool" where
  "apart ra rb \<longleftrightarrow> (ra \<noteq> [] \<or> rb \<noteq> []) \<and> (ra = [] \<or> rb = [] \<or> hd ra \<noteq> hd rb)"

lemma entry_cases:
  assumes "entry_ok (r, a)"
  obtains (value_here) w where "r = []" "a = PLeaf [] w" "w \<noteq> []"
    | (leaf_below) i k w where "r = i # k" "a = PLeaf [] w" "w \<noteq> []"
    | (branch_below) i k ts v where "r = i # k" "a = PBranch ts v" "pwf a"
  using assms by (cases a; cases r) (auto simp: entry_ok_def)

lemma entry_lookup_leaf [simp]: "entry_lookup (r, PLeaf [] w) ks = (if ks = r then Some w else None)"
  by (auto simp: entry_lookup_def prefix_def)

lemma entry_lookup_branch [simp]: "entry_lookup (i # k, PBranch ts v) ks =
    (case ks of [] \<Rightarrow> None | j # r \<Rightarrow> if i = j then plookup (pext k (PBranch ts v)) r else None)"
  by (auto simp: entry_lookup_def plookup_pext prefix_Cons split: list.split)

lemma plookup_fork:
  assumes "entry_ok (ra, a)" "entry_ok (rb, b)" "apart ra rb"
  shows "plookup (fork cp (ra, a) (rb, b)) ks =
    (if prefix cp ks then (entry_lookup (rb, b) ++ entry_lookup (ra, a)) (drop (length cp) ks) else None)"
proof -
  have "plookup (case add_entry (rb, b) (add_entry (ra, a) (no_children, [])) of (ts, v) \<Rightarrow> PBranch ts v) ks =
      (entry_lookup (rb, b) ++ entry_lookup (ra, a)) ks" for ks
    by (rule entry_cases [OF assms(1)]; rule entry_cases [OF assms(2)];
        use assms(3) in \<open>auto simp: plookup_PBranch map_add_def apart_def split: list.split option.split\<close>)
  then show ?thesis by (simp add: fork_def plookup_pext)
qed

lemma pwf_fork:
  assumes "entry_ok (ra, a)" "entry_ok (rb, b)" "apart ra rb"
  shows "pwf (fork cp (ra, a) (rb, b))"
proof -
  have "pwf (case add_entry (rb, b) (add_entry (ra, a) (no_children, [])) of (ts, v) \<Rightarrow> PBranch ts v)"
    by (rule entry_cases [OF assms(1)]; rule entry_cases [OF assms(2)];
        use assms(3) in \<open>auto simp: apart_def entries_add unat_nibble pext_def dest!: in_update_iff [rotated]\<close>)
  then show ?thesis by (auto simp: fork_def pext_def split: prod.splits)
qed

section \<open>Insertion\<close>

lemma rep_exile:
  shows "rep_node E L n t \<Longrightarrow> rep_node E L (node_exile N d n) t"
    and "rep_child E L c x \<Longrightarrow> rep_child E L (child_exile N d c) x"
    and "rep_ext E L e t \<Longrightarrow> rep_ext E L (ext_exile N d e) t"
proof (induction arbitrary: d and d and d rule: rep_node_rep_child_rep_ext.inducts)
  case (rep_branch cs ts v)
  then show ?case by (auto simp: list_all2_conv_all_nth intro: rep_node_rep_child_rep_ext.rep_branch)
next
  case (rep_extI n t c)
  then show ?case by (auto simp: cache_ok_def intro: rep_node_rep_child_rep_ext.rep_extI)
qed (auto intro: rep_intros rep_ref)

lemma insert_on_leaf_rep:
  assumes "r = cp @ r'" "k = cp @ k'" "cp = common_prefix r k" "apart r' k'"
  shows "rep_node E L (insert_on_leaf k v r val) (fork cp (r', PLeaf [] val) (k', PLeaf [] v))"
proof -
  have d: "drop (length cp) r = r'" "drop (length cp) k = k'" by (simp_all add: assms(1,2))
  show ?thesis
    unfolding insert_on_leaf_def fork_def new_extention_def Let_def assms(3) [symmetric] d
    by (cases r'; cases k'; auto simp: pext_def new_leaf_def intro!: rep_branch rep_extension rep_update rep_no_children rep_leaf)
qed

lemma insert_on_extension_rep:
  assumes c: "rep_child E (TrieNodeExt_load E D db) c (Some t)" and t: "is_pbranch t"
    and k: "r = cp @ r'" "k = cp @ j # k'" "cp = common_prefix r k" "r' = [] \<or> hd r' \<noteq> j"
  shows "\<exists>n del'. insert_on_extension E D db N k c r val depth del = Inr (n, del') \<and>
    rep_node E (TrieNodeExt_load E D db) n (fork cp (j # k', t) (r', PLeaf [] val))"
proof -
  let ?L = "TrieNodeExt_load E D db"
  have d: "drop (length cp) r = r'" "drop (length cp) k = j # k'" by (simp_all add: k(1,2))
  obtain ts v where t: "t = PBranch ts v" using t by (cases t) auto
  obtain e where e: "loaded_mut E D db c = Inr (Some e)" "rep_ext E ?L e t" using loaded_mut_rep [OF c] by blast
  obtain cs where cs: "ext_node e = Branch cs v" using e(2) t by (auto simp: rep_ext_iff rep_node_pbranch)
  define c' where "c' = (if k' = [] then c else seal_ref (Extension k' (child_exile N (depth + 2) (Owned e))))"
  have c': "rep_child E ?L (child_exile N (depth + 2) c') (Some (pext k' t))"
    using c e(2) by (auto simp: c'_def pext_def rep_child_owned intro!: rep_exile rep_extension)
  define cs1 where "cs1 = (replicate 16 Null)[unat j := child_exile N (depth + 2) c']"
  define B where "B = (case r' of i # rest \<Rightarrow> Branch (cs1[unat i := seal_ref (new_leaf rest val)]) [] | [] \<Rightarrow> Branch cs1 val)"
  have "insert_on_extension E D db N k c r val depth del = Inr (if cp \<noteq> [] then Extension cp (seal_ref B) else B, del)"
    unfolding insert_on_extension_def Let_def k(3) [symmetric] d
    by (cases r') (simp_all add: e(1) cs new_extention_def c'_def cs1_def B_def)
  moreover have "rep_node E ?L B (case add_entry (r', PLeaf [] val) (add_entry (j # k', t) (no_children, [])) of (ts, v) \<Rightarrow> PBranch ts v)"
    using c' by (cases r') (simp_all add: B_def cs1_def t rep_branch rep_update rep_no_children)
  ultimately show ?thesis using rep_pext unfolding fork_def by blast
qed

definition inserted :: "ptrie \<Rightarrow> nibble list \<Rightarrow> bytes option \<Rightarrow> ptrie \<Rightarrow> bool" where
  "inserted t r x t' \<longleftrightarrow> pwf t' \<and> plookup t' = (plookup t)(r := x) \<and> (is_pbranch t \<longrightarrow> is_pbranch t')"

lemma insert_leaf_case:
  assumes "r \<noteq> k" "v \<noteq> []" "val \<noteq> []"
  shows "\<exists>t'. rep_node E L (insert_on_leaf k v r val) t' \<and> inserted (PLeaf k v) r (Some val) t'"
proof -
  obtain cp r' k' where s: "r = cp @ r'" "k = cp @ k'" "cp = common_prefix r k" "r' = [] \<or> k' = [] \<or> hd r' \<noteq> hd k'"
    by (rule common_prefix_split)
  have a: "apart r' k'" using s(1,2,4) assms(1) by (auto simp: apart_def)
  have e: "entry_ok (r', PLeaf [] val)" "entry_ok (k', PLeaf [] v)" using assms by (simp_all add: entry_ok_def)
  let ?t = "fork cp (r', PLeaf [] val) (k', PLeaf [] v)"
  have "plookup ?t ks = ((plookup (PLeaf k v))(r \<mapsto> val)) ks" for ks
    unfolding plookup_fork [OF e a] s(1,2) by (auto simp: map_add_def prefix_def)
  then have "plookup ?t = (plookup (PLeaf k v))(r \<mapsto> val)" by blast
  then show ?thesis using insert_on_leaf_rep [OF s(1-3) a] pwf_fork [OF e a, of cp] unfolding inserted_def
    by (intro exI [of _ ?t]) simp
qed

lemma insert_extension_case:
  assumes c: "rep_child E (TrieNodeExt_load E D db) c (Some t)" and w: "pwf (PExt k t)" and np: "\<not> prefix k r" and v: "val \<noteq> []"
  shows "\<exists>n del' t'. insert_on_extension E D db N k c r val depth del = Inr (n, del') \<and>
    rep_node E (TrieNodeExt_load E D db) n t' \<and> inserted (PExt k t) r (Some val) t'"
proof -
  obtain cp r' k0 where s: "r = cp @ r'" "k = cp @ k0" "cp = common_prefix r k" "r' = [] \<or> k0 = [] \<or> hd r' \<noteq> hd k0"
    by (rule common_prefix_split)
  have "k0 \<noteq> []" using s(1,2) np by auto
  then obtain j k' where k0: "k0 = j # k'" by (cases k0) auto
  have a: "apart k0 r'" using s(4) k0 by (auto simp: apart_def)
  have e: "entry_ok (k0, t)" "entry_ok (r', PLeaf [] val)" using w v k0 by (cases t; auto simp: entry_ok_def)+
  let ?t = "fork cp (k0, t) (r', PLeaf [] val)"
  have "\<not> prefix k0 r'" using np s(1,2) by simp
  then have "plookup ?t ks = ((plookup (PExt k t))(r \<mapsto> val)) ks" for ks
    unfolding plookup_fork [OF e a] s(1,2) by (auto simp: map_add_def entry_lookup_def [of "(k0, t)"] prefix_def split: option.split)
  then have "plookup ?t = (plookup (PExt k t))(r \<mapsto> val)" by blast
  moreover have "is_pbranch t" using w by simp
  ultimately show ?thesis
    using insert_on_extension_rep [OF c _ s(1) s(2) [unfolded k0] s(3), of N val depth del] s(4) k0 pwf_fork [OF e a, of cp]
    unfolding inserted_def by auto
qed

lemma insert_branch_case:
  assumes cs: "list_all2 (rep_child E L) cs ts" and w: "pwf (PBranch ts v)" and n: "ts ! unat i = None" and val: "val \<noteq> []"
  shows "\<exists>cs' del' t'. insert_on_branch N cs (i # r) val depth del = Inr (cs', del') \<and>
    rep_node E L (Branch cs' v) t' \<and> inserted (PBranch ts v) (i # r) (Some val) t'"
proof -
  have l: "length ts = 16" "length cs = 16" using w cs by (auto dest: list_all2_lengthD)
  have "rep_child E L (cs ! unat i) None" using cs n l unat_nibble [of i] by (metis list_all2_nthD2)
  then have c: "cs ! unat i = Null" by (simp add: rep_child_none)
  let ?t = "PBranch (ts[unat i := Some (PLeaf r val)]) v"
  have "plookup ?t ks = ((plookup (PBranch ts v))(i # r \<mapsto> val)) ks" for ks
    using l n by (auto simp: plookup_PBranch split: list.split)
  then have "plookup ?t = (plookup (PBranch ts v))(i # r \<mapsto> val)" by blast
  moreover have "pwf ?t" using w n l val by (auto simp: entries_add unat_nibble dest!: in_update_iff [rotated])
  moreover have "rep_node E L (Branch (cs[unat i := seal_ref (new_leaf r val)]) v) ?t"
    using cs by (simp add: rep_branch rep_update)
  ultimately show ?thesis unfolding inserted_def
    by (intro exI [of _ "cs[unat i := seal_ref (new_leaf r val)]"] exI [of _ del] exI [of _ ?t])
      (simp add: insert_on_branch_def Let_def c del: pwf_branch)
qed

lemma insert_rep:
  assumes e: "rep_ext E (TrieNodeExt_load E D db) e t" and w: "pwf t" and st: "stops False t r" and val: "val \<noteq> []"
  shows "\<exists>n del' t'. mpt_insert E D db N (ext_node e) r val depth del = Inr (n, del') \<and>
    rep_node E (TrieNodeExt_load E D db) n t' \<and> inserted t r (Some val) t'"
proof (cases t)
  case (PLeaf k v)
  then have "ext_node e = Leaf k v" using e by (auto simp: rep_ext_iff rep_node_pleaf)
  then show ?thesis using insert_leaf_case [of r k v val] st w val PLeaf by (simp add: mpt_insert_def)
next
  case (PBranch ts v)
  then obtain cs where cs: "ext_node e = Branch cs v" "list_all2 (rep_child E (TrieNodeExt_load E D db)) cs ts"
    using e by (auto simp: rep_ext_iff rep_node_pbranch)
  obtain i r' where r: "r = i # r'" "ts ! unat i = None" using st PBranch by (cases r) auto
  show ?thesis using insert_branch_case [OF cs(2) _ r(2) val, of v N r' depth del] w r PBranch cs(1)
    by (auto simp: mpt_insert_def)
next
  case (PExt k t1)
  then obtain c where c: "ext_node e = Extension k c" "rep_child E (TrieNodeExt_load E D db) c (Some t1)"
    using e by (auto simp: rep_ext_iff rep_node_pext)
  then show ?thesis using insert_extension_case [OF c(2), of k r val N depth del] st w val PExt by (simp add: mpt_insert_def)
qed

section \<open>The tree as a map\<close>

definition mpt_reps :: "trie_env \<Rightarrow> 's kvdb_ops \<Rightarrow> 's MerklePatriciaTree \<Rightarrow> (nibble list \<rightharpoonup> bytes) \<Rightarrow> bool" where
  "mpt_reps E D T m \<longleftrightarrow> (case mpt_root T of
     None \<Rightarrow> m = Map.empty
   | Some e \<Rightarrow> \<exists>t. rep_ext E (TrieNodeExt_load E D (mpt_db T)) e t \<and> pwf t \<and> m = plookup t)"

text \<open>The state a search leaves for \<open>put\<close> and \<open>del\<close>.\<close>

definition found :: "trie_env \<Rightarrow> 's kvdb_ops \<Rightarrow> 's MerklePatriciaTree \<Rightarrow> (nibble list \<rightharpoonup> bytes) \<Rightarrow> nibble list \<Rightarrow> SearchResult \<Rightarrow>
  search_stack \<Rightarrow> frame list \<Rightarrow> TrieNodeExt \<Rightarrow> ptrie \<Rightarrow> nibble list \<Rightarrow> bool" where
  "found E D T m ks res stk fs e tn rest \<longleftrightarrow>
     sr_stack res = stk @ [(e, None)] \<and> live_path E (TrieNodeExt_load E D (mpt_db T)) stk fs tn \<and>
     rep_ext E (TrieNodeExt_load E D (mpt_db T)) e tn \<and> pwf (fill fs tn) \<and> m = plookup (fill fs tn) \<and>
     ks = path fs @ rest \<and> stops (sr_matched res) tn rest \<and> (\<not> sr_matched res \<longrightarrow> sr_remainder res = rest)"

lemma mpt_search_rep:
  assumes "mpt_reps E D T m" and "mpt_root T = Some e0"
  shows "\<exists>res T' stk fs e tn rest. mpt_search E D N T key = Some (Inr (res, T')) \<and>
    found E D T m (bytes_to_nibble_list key) res stk fs e tn rest \<and>
    mpt_reps E D T' m \<and> mpt_db T' = mpt_db T \<and> mpt_del_ops T' = mpt_del_ops T"
proof -
  let ?L = "TrieNodeExt_load E D (mpt_db T)"
  obtain t where t: "rep_ext E ?L e0 t" "pwf t" "m = plookup t" using assms by (auto simp: mpt_reps_def)
  obtain stk fs e tn rest rem b where
    r: "search_loop E D (mpt_db T) N [] e0 (bytes_to_nibble_list key) 1 =
      Some (Inr \<lparr>sr_stack = stk @ [(e, None)], sr_matched = b, sr_remainder = rem\<rparr>)"
    and f: "live_path E ?L stk fs tn" "rep_ext E ?L e tn" "fill fs tn = t" "bytes_to_nibble_list key = path fs @ rest"
      "stops b tn rest" "\<not> b \<longrightarrow> rem = rest"
    using search_loop_ends [OF t(1,2), of "[]" "bytes_to_nibble_list key" N 1]
    unfolding search_ends_def append_Nil by blast
  obtain e' where e': "plug_stack (stk @ [(e, None)]) = Some e'" "rep_ext E ?L e' t"
    using plug_live_path [OF f(1,2)] f(3) by auto
  show ?thesis using r f e' t assms(2)
    by (intro exI [of _ "\<lparr>sr_stack = stk @ [(e, None)], sr_matched = b, sr_remainder = rem\<rparr>"] exI [of _ "T\<lparr>mpt_root := Some e'\<rparr>"]
        exI [of _ stk] exI [of _ fs] exI [of _ e] exI [of _ tn] exI [of _ rest])
      (auto simp: mpt_search_def found_def mpt_reps_def)
qed

lemma pwf_fill_last: "pwf (fill fs t) \<Longrightarrow> fs \<noteq> [] \<Longrightarrow> is_fe (last fs) \<Longrightarrow> is_pbranch t"
proof (induction fs rule: rev_induct)
  case (snoc f fs)
  then have "pwf (fill1 f t)" using pwf_fill_inner [of fs] by simp
  then show ?case using snoc.prems by (cases f) auto
qed simp

lemma fill_inserted:
  assumes "pwf (fill fs t)" and "inserted t r x t'"
  shows "pwf (fill fs t')" and "plookup (fill fs t') = (plookup (fill fs t))(path fs @ r := x)"
  using assms pwf_fill [of fs t t'] pwf_fill_last [of fs t] plookup_fill_update [of fs t' t r x] pwf_fill_frames [of fs t]
  by (auto simp: inserted_def)

lemma recover_reps:
  assumes "detached E (TrieNodeExt_load E D (mpt_db T)) stk fs" "rep_ext E (TrieNodeExt_load E D (mpt_db T)) e t"
    and "pwf (fill fs t)" and "m' = plookup (fill fs t)"
  shows "\<exists>root del'. recover_pointers (stk @ [(e, None)]) del = Inr (root, del') \<and>
    mpt_reps E D (T\<lparr>mpt_root := root, mpt_del_ops := del'\<rparr>) m'"
  using recover_detached [OF assms(1,2), of del] assms(3,4) by (auto simp: mpt_reps_def)

lemma set_value_rep:
  assumes e: "rep_ext E L e t" and w: "pwf t" and st: "stops True t r" and val: "val \<noteq> []"
  shows "\<exists>n t'. set_value val (ext_node e) = Inr n \<and> rep_node E L n t' \<and> inserted t r (Some val) t'"
proof (cases t)
  case (PLeaf k v)
  then have "ext_node e = Leaf k v" using e by (auto simp: rep_ext_iff rep_node_pleaf)
  then show ?thesis using PLeaf st val
    by (intro exI [of _ "Leaf k val"] exI [of _ "PLeaf k val"]) (auto simp: inserted_def rep_leaf)
next
  case (PBranch ts v)
  then obtain cs where cs: "ext_node e = Branch cs v" "list_all2 (rep_child E L) cs ts"
    using e by (auto simp: rep_ext_iff rep_node_pbranch)
  have "2 \<le> entries ts val" using w val PBranch by (auto simp: entries_def split: if_splits)
  moreover have "plookup (PBranch ts val) = (plookup (PBranch ts v))([] \<mapsto> val)"
    using val by (auto simp: plookup_PBranch split: list.split)
  ultimately show ?thesis using PBranch w st cs
    by (intro exI [of _ "Branch cs val"] exI [of _ "PBranch ts val"]) (auto simp: inserted_def rep_branch)
qed (use st in simp)

lemma put_at_rep:
  assumes f: "found E D T m ks res stk fs e tn rest" and val: "val \<noteq> []"
  shows "\<exists>T'. put_at E D N res val T = Inr T' \<and> mpt_reps E D T' (m(ks \<mapsto> val)) \<and> mpt_db T' = mpt_db T"
proof -
  let ?L = "TrieNodeExt_load E D (mpt_db T)"
  have s: "sr_stack res = stk @ [(e, None)]" "live_path E ?L stk fs tn" "rep_ext E ?L e tn" "pwf (fill fs tn)"
      "m = plookup (fill fs tn)" "ks = path fs @ rest" "stops (sr_matched res) tn rest" "\<not> sr_matched res \<Longrightarrow> sr_remainder res = rest"
    using f by (auto simp: found_def)
  obtain stk' del1 where r: "reset_pointers (stk @ [(e, None)]) (mpt_del_ops T) = Inr (stk' @ [(e, None)], del1)" "detached E ?L stk' fs"
    using reset_live_path [OF s(2)] by blast
  obtain del2 where mm: "make_mut e del1 = (ext_node e, del2)" by (simp add: make_mut_def)
  obtain n del3 t' where n: "(if sr_matched res then and_then (set_value val (ext_node e)) (\<lambda>n'. Inr (n', del2))
        else mpt_insert E D (mpt_db T) N (ext_node e) (sr_remainder res) val (length (stk' @ [(e, None)]) - 1) del2) = Inr (n, del3)"
      "rep_node E ?L n t'" "inserted tn rest (Some val) t'"
  proof (cases "sr_matched res")
    case True
    then show ?thesis using that set_value_rep [OF s(3) pwf_fill_inner [OF s(4)], of rest val] s(7) val by auto
  next
    case False
    then show ?thesis using that insert_rep [OF s(3) pwf_fill_inner [OF s(4)], of rest val N "length stk'" del2] s(7,8) val by auto
  qed
  have rn: "rep_ext E ?L (TrieNodeExt_new n) t'" using n(2) by simp
  obtain root del4 where "recover_pointers (stk' @ [(TrieNodeExt_new n, None)]) del3 = Inr (root, del4)"
      "mpt_reps E D (T\<lparr>mpt_root := root, mpt_del_ops := del4\<rparr>) (m(ks \<mapsto> val))"
    using recover_reps [OF r(2) rn fill_inserted(1) [OF s(4) n(3)], of "m(ks \<mapsto> val)" del3] fill_inserted(2) [OF s(4) n(3)] s(5,6) by auto
  then show ?thesis using r(1) s(1) mm n(1) by (auto simp: put_at_def simp del: if_split)
qed

end
