(* ===== verification/RainRemove.thy ===== *)
theory RainRemove
  imports RainProofs
begin

text \<open>
  Removal from the RainBlock trie: the branch that loses an entry is collapsed
  when a single entry is left, and an extension above it is merged, so that the
  trie stays in its normal form.
\<close>

section \<open>Prefixing a trie\<close>

fun ppre :: "nibble list \<Rightarrow> ptrie \<Rightarrow> ptrie" where
  "ppre k (PLeaf k' v) = PLeaf (k @ k') v"
| "ppre k (PExt k' t) = PExt (k @ k') t"
| "ppre k (PBranch ts v) = PExt k (PBranch ts v)"

lemma plookup_ppre: "plookup (ppre k t) = plookup (PExt k t)"
  by (rule ext, cases t) (auto simp: prefix_def)

lemma pwf_ppre: "k \<noteq> [] \<Longrightarrow> pwf t \<Longrightarrow> pwf (ppre k t)"
  by (cases t) auto

lemma ppre_not_branch [simp]: "\<not> is_pbranch (ppre k t)"
  by (cases t) auto

lemma update_key_rep:
  assumes "rep_node E L n t" "\<not> is_pbranch t"
  shows "\<exists>n'. update_key (add_prefix k) n = Inr n' \<and> rep_node E L n' (ppre k t)"
  using assms(1)
proof cases
  case (rep_branch cs ts v)
  then show ?thesis using assms(2) by simp
qed (auto simp: add_prefix_def intro: rep_intros)

lemma drop_single_child_rep:
  assumes "rep_child E (TrieNodeExt_load E D db) c (Some t)"
  shows "\<exists>n del'. drop_single_child_branch E D db i c del = Inr (n, del') \<and> rep_node E (TrieNodeExt_load E D db) n (ppre [i] t)"
proof -
  let ?L = "TrieNodeExt_load E D db"
  obtain e where e: "loaded_mut E D db c = Inr (Some e)" "rep_ext E ?L e t" using loaded_mut_rep [OF assms] by blast
  have n: "rep_node E ?L (ext_node e) t" using e(2) by (auto simp: rep_ext_iff)
  obtain del1 where mm: "make_mut e del = (ext_node e, del1)" by (simp add: make_mut_def)
  show ?thesis
  proof (cases "is_pbranch t")
    case True
    then have "node_key (ext_node e) = None" using n by (cases t) (auto simp: rep_node_pbranch)
    moreover have "ppre [i] t = PExt [i] t" using True by (cases t) auto
    ultimately show ?thesis using e by (auto simp: drop_single_child_branch_def new_extention_def rep_child_owned intro!: rep_extension)
  next
    case False
    then have "node_key (ext_node e) \<noteq> None" using n by (cases t) (auto simp: rep_node_pleaf rep_node_pext)
    then show ?thesis using update_key_rep [OF n False, of "[i]"] e(1) mm by (auto simp: drop_single_child_branch_def)
  qed
qed

section \<open>The only child\<close>

lemma only_child_loop_singleton: "only_child_loop xs None = (case xs of [(i, c)] \<Rightarrow> Some i | _ \<Rightarrow> None)"
  by (auto split: list.split)

lemma set_nibble_zip:
  assumes "length cs = 16"
  shows "set (zip nibble_all cs) = {(i, cs ! unat i) | i. True}"
proof -
  have n: "nibble_all ! k = word_of_nat k" if "k < 16" for k
  proof -
    have "ucast (word_of_nat k :: u8) = (word_of_nat (unat (word_of_nat k :: u8)) :: nibble)" by simp
    also have "\<dots> = word_of_nat k" using that by (simp only: unat_byte_of_nat) simp
    finally show ?thesis using that by (simp add: nibble_all_def from_lo_ucast)
  qed
  have "(i, cs ! unat i) \<in> set (zip nibble_all cs)" for i
    using n [of "unat i"] assms unat_nibble [of i] by (auto simp: in_set_zip nibble_all_def intro!: exI [of _ "unat i"])
  moreover have "(i, c) \<in> set (zip nibble_all cs) \<Longrightarrow> c = cs ! unat i" for i c
    using n assms by (auto simp: in_set_zip unat_of_nat)
  ultimately show ?thesis by auto
qed

lemma only_child_some:
  assumes "length cs = 16" "only_child_mut cs = Some (i, c)"
  shows "c = cs ! unat i" and "\<not> is_null (cs ! unat j) \<longleftrightarrow> j = i"
proof -
  obtain c' where "filter (\<lambda>(_, c). \<not> is_null c) (zip nibble_all cs) = [(i, c')]"
    using assms(2) by (auto simp: only_child_mut_def only_child_loop_singleton split: list.splits)
  then have "{x \<in> set (zip nibble_all cs). \<not> is_null (snd x)} = {(i, c')}"
    by (metis (mono_tags, lifting) Collect_cong case_prod_unfold list.set(1,2) set_filter)
  moreover have "(k, x) \<in> {x \<in> set (zip nibble_all cs). \<not> is_null (snd x)} \<longleftrightarrow> x = cs ! unat k \<and> \<not> is_null x" for k x
    unfolding set_nibble_zip [OF assms(1)] by auto
  ultimately have s: "k = i \<and> x = c' \<longleftrightarrow> x = cs ! unat k \<and> \<not> is_null x" for k x by auto
  show "\<not> is_null (cs ! unat j) \<longleftrightarrow> j = i" using s [of j "cs ! unat j"] s [of i c'] by blast
  show "c = cs ! unat i" using assms(2) by (auto simp: only_child_mut_def)
qed

lemma only_child_none:
  assumes "length cs = 16" "only_child_mut cs = None"
  shows "length (filter (\<lambda>c. \<not> is_null c) cs) \<noteq> 1"
proof
  assume "length (filter (\<lambda>c. \<not> is_null c) cs) = 1"
  moreover have "map snd (zip nibble_all cs) = cs" using assms(1) by (simp add: nibble_all_def)
  moreover have "length (filter (\<lambda>c. \<not> is_null c) (map snd (zip nibble_all cs))) =
      length (filter (\<lambda>(_, c). \<not> is_null c) (zip nibble_all cs))"
    by (simp only: filter_map length_map comp_def case_prod_unfold)
  ultimately have "length (filter (\<lambda>(_, c). \<not> is_null c) (zip nibble_all cs)) = 1" by simp
  then obtain x where "filter (\<lambda>(_, c). \<not> is_null c) (zip nibble_all cs) = [x]" by (auto simp: length_Suc_conv)
  then show False using assms(2) by (cases x) (simp add: only_child_mut_def only_child_loop_singleton)
qed

lemma rep_is_null: "rep_child E L c x \<Longrightarrow> is_null c \<longleftrightarrow> x = None"
  by (cases c) (auto simp: rep_child_null rep_child_ref rep_child_owned)

lemma rep_count:
  "list_all2 (rep_child E L) cs ts \<Longrightarrow> length (filter (\<lambda>c. \<not> is_null c) cs) = length (filter (\<lambda>x. x \<noteq> None) ts)"
  by (induction rule: list_all2_induct) (auto simp: rep_is_null)

section \<open>Collapsing a branch\<close>

text \<open>What is left of a branch that has lost an entry.\<close>

definition rest_of :: "ptrie option list \<Rightarrow> bytes \<Rightarrow> ptrie \<Rightarrow> bool" where
  "rest_of ts v t \<longleftrightarrow> pwf t \<and> plookup t = plookup (PBranch ts v)"

lemma collapse_single:
  assumes "length ts = 16" and "\<And>j. ts ! unat j \<noteq> None \<longleftrightarrow> j = i" and "ts ! unat i = Some t" and "pwf t"
  shows "rest_of ts [] (ppre [i] t)"
proof -
  have "plookup (PExt [i] t) ks = plookup (PBranch ts []) ks" for ks
    using assms(2,3) by (auto simp: plookup_PBranch prefix_Cons split: list.split option.split) (metis option.distinct(1))
  then show ?thesis using assms(4) by (auto simp: rest_of_def plookup_ppre pwf_ppre)
qed

lemma collapse_value:
  assumes "length ts = 16" and "\<And>j :: nibble. ts ! unat j = None" and "v \<noteq> []"
  shows "rest_of ts v (PLeaf [] v)"
proof -
  have "plookup (PLeaf [] v) ks = plookup (PBranch ts v) ks" for ks
    using assms by (simp add: plookup_PBranch split: list.split)
  then show ?thesis using assms(3) by (auto simp: rest_of_def)
qed

text \<open>Putting a node that is not a branch on the stack.\<close>

definition stack_reps :: "trie_env \<Rightarrow> (h256 \<Rightarrow> TrieNodeExt result) \<Rightarrow> search_stack \<Rightarrow> (nibble list \<rightharpoonup> bytes) \<Rightarrow> bool" where
  "stack_reps E L stk m \<longleftrightarrow> (\<exists>stk' fs e t. stk = stk' @ [(e, None)] \<and> detached E L stk' fs \<and> rep_ext E L e t \<and>
     pwf (fill fs t) \<and> m = plookup (fill fs t))"

lemma plookup_fill_cong: "plookup t' = plookup t \<Longrightarrow> list_all frame_ok fs \<Longrightarrow> plookup (fill fs t') = plookup (fill fs t)"
  using plookup_fill_update [of fs t' t "[]" "plookup t []"] by (metis fun_upd_triv plookup_fill append_Nil2)

lemma stack_repsI:
  assumes "detached E L stk fs" "rep_node E L n t'" "pwf (fill fs t)" "pwf t'" "fs \<noteq> [] \<Longrightarrow> is_fe (last fs) \<Longrightarrow> is_pbranch t'"
  shows "stack_reps E L (stk @ [(TrieNodeExt_new n, None)]) (plookup (fill fs t'))"
  using assms pwf_fill [of fs t t'] rep_ext_new unfolding stack_reps_def by blast

lemma push_non_branch_rep:
  assumes d: "detached E L stk fs" and n: "rep_node E L n t'" and w: "pwf (fill fs t)" and w': "pwf t'" and nb: "\<not> is_pbranch t'"
  shows "\<exists>stk'. push_non_branch_to_stack n stk = Inr stk' \<and> stack_reps E L stk' (plookup (fill fs t'))"
proof (cases "fs \<noteq> [] \<and> is_fe (last fs)")
  case True
  then obtain fs0 k where fs: "fs = fs0 @ [FE k]" by (metis append_butlast_last_id is_fe.elims(2))
  then obtain stk0 n0 p where stk: "stk = stk0 @ [(TrieNodeExt_new n0, Some p)]" "rep_frame E L n0 p (FE k)" "detached E L stk0 fs0"
    using d by (auto simp: detached_def list_all2_append2 list_all2_Cons2)
  then obtain c where n0: "n0 = Extension k c" by (auto elim: rep_frame.cases)
  obtain n' where n': "update_key (add_prefix k) n = Inr n'" "rep_node E L n' (ppre k t')" using update_key_rep [OF n nb] by blast
  have k: "pwf (PExt k t)" using w fs pwf_fill_inner [of fs0 "PExt k t"] by simp
  have "stack_reps E L (stk0 @ [(TrieNodeExt_new n', None)]) (plookup (fill fs0 (ppre k t')))"
    using stk(3) n'(2) w fs k w' pwf_fill_last [of fs0 "PExt k t"] by (intro stack_repsI [where t = "PExt k t"] pwf_ppre) auto
  moreover have "plookup (fill fs0 (ppre k t')) = plookup (fill fs t')"
    unfolding fs using plookup_fill_cong [OF plookup_ppre] pwf_fill_frames w fs by auto
  ultimately show ?thesis using n'(1) by (auto simp: push_non_branch_to_stack_def stk n0 TrieNodeExt_new_def)
next
  case False
  have "push_non_branch_to_stack n stk = Inr (stk @ [(TrieNodeExt_new n, None)])"
  proof (cases stk rule: rev_cases)
    case Nil
    then show ?thesis by (simp add: push_non_branch_to_stack_def)
  next
    case (snoc stk0 x)
    then obtain fs0 f n0 p where f: "fs = fs0 @ [f]" "x = (TrieNodeExt_new n0, Some p)" "rep_frame E L n0 p f"
      using d by (auto simp: detached_def list_all2_append1 list_all2_Cons1)
    then show ?thesis using False snoc by (auto simp: push_non_branch_to_stack_def TrieNodeExt_new_def elim: rep_frame.cases)
  qed
  then show ?thesis using stack_repsI [OF d n w w'] False by auto
qed

section \<open>Removal\<close>

lemma collapse_rep:
  assumes cs: "list_all2 (rep_child E (TrieNodeExt_load E D db)) cs ts" and l: "length ts = 16"
    and w: "\<And>t. Some t \<in> set ts \<Longrightarrow> pwf t" and ne: "1 \<le> entries ts []"
    and d: "detached E (TrieNodeExt_load E D db) stk fs" and f: "pwf (fill fs t0)"
  shows "\<exists>stk' del'. remove_branch_value E D db cs stk del = Inr (stk', del') \<and>
    stack_reps E (TrieNodeExt_load E D db) stk' (plookup (fill fs (PBranch ts [])))"
proof (cases "only_child_mut cs")
  case None
  have lc: "length cs = 16" using cs l by (simp add: list_all2_lengthD)
  have "length (filter (\<lambda>x. x \<noteq> None) ts) \<noteq> 1" using only_child_none [OF lc None] rep_count [OF cs] by simp
  then have "pwf (PBranch ts [])" using l w ne by (auto simp: entries_def)
  then show ?thesis using stack_repsI [OF d rep_branch [OF cs] f, of "[]"] None by (auto simp: remove_branch_value_def)
next
  case (Some x)
  obtain i c where x: "x = (i, c)" by (cases x)
  have lc: "length cs = 16" using cs l by (simp add: list_all2_lengthD)
  note oc = only_child_some [OF lc Some [unfolded x]]
  have r: "rep_child E (TrieNodeExt_load E D db) (cs ! unat j) (ts ! unat j)" for j :: nibble
    using cs l unat_nibble [of j] by (simp add: list_all2_conv_all_nth)
  have j: "ts ! unat j \<noteq> None \<longleftrightarrow> j = i" for j using oc(2) rep_is_null [OF r] by simp
  then obtain t where t: "ts ! unat i = Some t" by auto
  then have "pwf t" using w l unat_nibble [of i] by (metis nth_mem)
  then have c: "rest_of ts [] (ppre [i] t)" using collapse_single [OF l j t] by simp
  obtain n del1 where n: "drop_single_child_branch E D db i c del = Inr (n, del1)" "rep_node E (TrieNodeExt_load E D db) n (ppre [i] t)"
    using drop_single_child_rep [of E D db c t i del] r [of i] t oc(1) by auto
  obtain stk' where "push_non_branch_to_stack n stk = Inr stk'" "stack_reps E (TrieNodeExt_load E D db) stk' (plookup (fill fs (ppre [i] t)))"
    using push_non_branch_rep [OF d n(2) f] c by (auto simp: rest_of_def)
  moreover have "plookup (fill fs (ppre [i] t)) = plookup (fill fs (PBranch ts []))"
    using c pwf_fill_frames [OF f] by (auto simp: rest_of_def intro: plookup_fill_cong)
  ultimately show ?thesis using Some x n by (simp add: remove_branch_value_def)
qed

lemma remove_value_rep:
  assumes e: "rep_ext E (TrieNodeExt_load E D db) e (PBranch ts v)" and d: "detached E (TrieNodeExt_load E D db) stk fs"
    and f: "pwf (fill fs (PBranch ts v))"
  shows "\<exists>stk' del'. mpt_remove E D db (stk @ [(e, None)]) del = Inr (stk', del') \<and>
    stack_reps E (TrieNodeExt_load E D db) stk' ((plookup (fill fs (PBranch ts v)))(path fs := None))"
proof -
  obtain cs where cs: "ext_node e = Branch cs v" "list_all2 (rep_child E (TrieNodeExt_load E D db)) cs ts"
    using e by (auto simp: rep_ext_iff rep_node_pbranch)
  have w: "pwf (PBranch ts v)" using pwf_fill_inner [OF f] .
  then have ne: "1 \<le> entries ts []" by (auto simp: entries_def split: if_splits)
  have "plookup (PBranch ts []) = (plookup (PBranch ts v))([] := None)" by (auto simp: plookup_PBranch split: list.split)
  then have "plookup (fill fs (PBranch ts [])) = (plookup (fill fs (PBranch ts v)))(path fs := None)"
    using plookup_fill_update [OF pwf_fill_frames [OF f], of "PBranch ts []" "PBranch ts v" "[]" None] by simp
  then show ?thesis using collapse_rep [OF cs(2) _ _ ne d f] w cs(1) by (simp add: mpt_remove_def make_mut_def)
qed

lemma remove_leaf_rep:
  assumes e: "rep_ext E (TrieNodeExt_load E D db) e (PLeaf k w)" and d: "detached E (TrieNodeExt_load E D db) stk fs"
    and f: "pwf (fill fs (PLeaf k w))" and ne: "fs \<noteq> []"
  shows "\<exists>stk' del'. mpt_remove E D db (stk @ [(e, None)]) del = Inr (stk', del') \<and>
    stack_reps E (TrieNodeExt_load E D db) stk' ((plookup (fill fs (PLeaf k w)))(path fs @ k := None))"
proof -
  let ?L = "TrieNodeExt_load E D db"
  have "\<not> is_fe (last fs)" using pwf_fill_last [OF f ne] by auto
  then obtain fs0 ts v p where fs: "fs = fs0 @ [FB ts v p]" using ne by (metis append_butlast_last_id is_fe.elims(3))
  then obtain stk0 n0 where stk: "stk = stk0 @ [(TrieNodeExt_new n0, Some p)]" "rep_frame E ?L n0 p (FB ts v p)" "detached E ?L stk0 fs0"
    using d by (auto simp: detached_def list_all2_append2 list_all2_Cons2 elim: rep_frame.cases)
  from stk(2) obtain cs where cs: "n0 = Branch cs v" "length cs = 16" "length ts = 16"
      "\<And>i. i < 16 \<Longrightarrow> i \<noteq> unat p \<Longrightarrow> rep_child E ?L (cs ! i) (ts ! i)"
    by (auto elim: rep_frame.cases)
  let ?ts = "ts[unat p := None]" and ?cs = "cs[unat p := Null]" and ?t0 = "PBranch (ts[unat p := Some (PLeaf k w)]) v"
  have r: "list_all2 (rep_child E ?L) ?cs ?ts"
    using cs unat_nibble [of p] by (auto simp: list_all2_conv_all_nth nth_list_update rep_null)
  have f0: "pwf (fill fs0 ?t0)" using f fs by simp
  then have w0: "pwf ?t0" by (rule pwf_fill_inner)
  have "entries (?ts[unat p := Some (PLeaf k w)]) v = Suc (entries ?ts v)"
    using cs unat_nibble [of p] by (intro entries_add) simp_all
  then have ne1: "1 \<le> entries ?ts v" using w0 by simp
  have sub: "Some t \<in> set ?ts \<Longrightarrow> pwf t" for t
    using w0 cs(3) unat_nibble [of p] by (auto simp: in_set_conv_nth nth_list_update split: if_splits)
  have up: "plookup (PBranch ?ts v) = (plookup ?t0)(p # k := None)"
    using cs(3) by (auto simp: plookup_PBranch split: list.split option.split)
  then have m: "plookup (fill fs0 (PBranch ?ts v)) = (plookup (fill fs (PLeaf k w)))(path fs @ k := None)"
    using plookup_fill_update [OF pwf_fill_frames [OF f0] up] fs by simp
  have en: "ext_node e = Leaf k w" using e by (auto simp: rep_ext_iff rep_node_pleaf)
  obtain del1 where mm: "make_mut e del = (Leaf k w, del1)" by (simp add: make_mut_def en)
  have step: "mpt_remove E D db (stk @ [(e, None)]) del =
      (if v = [] then remove_branch_value E D db ?cs stk0 del1
       else if no_child ?cs then and_then (push_non_branch_to_stack (new_leaf [] v) stk0) (\<lambda>stack'. Inr (stack', del1))
       else Inr (stk0 @ [(TrieNodeExt_new (Branch ?cs v), None)], del1))"
    by (cases "v = []") (simp_all add: mpt_remove_def remove_leaf_def stk(1) mm cs(1) butlast_append Let_def remove_branch_value_def)
  show ?thesis
  proof (cases "v = []")
    case True
    then show ?thesis using step collapse_rep [OF r _ sub _ stk(3) f0] ne1 cs(3) m by (auto simp del: fun_upd_apply)
  next
    case False
    show ?thesis
    proof (cases "no_child ?cs")
      case True
      then have "?ts ! unat (j :: nibble) = None" for j
        using r cs(2) unat_nibble [of j] rep_is_null unfolding no_child_def list_all_length list_all2_conv_all_nth
        by (metis length_list_update)
      then have ro: "rest_of ?ts v (PLeaf [] v)" using False cs(3) by (intro collapse_value) simp_all
      then obtain stk' where "push_non_branch_to_stack (new_leaf [] v) stk0 = Inr stk'" "stack_reps E ?L stk' (plookup (fill fs0 (PLeaf [] v)))"
        using push_non_branch_rep [OF stk(3) rep_new_leaf f0, of "[]" v] by (auto simp: rest_of_def)
      moreover have "plookup (fill fs0 (PLeaf [] v)) = plookup (fill fs0 (PBranch ?ts v))"
        using ro pwf_fill_frames [OF f0] by (auto simp: rest_of_def intro: plookup_fill_cong)
      ultimately show ?thesis using step False True m by (auto simp del: fun_upd_apply)
    next
      case nc: False
      then have "1 \<le> length (filter (\<lambda>c. \<not> is_null c) ?cs)"
        by (auto simp: no_child_def list_all_iff Suc_le_eq filter_empty_conv length_greater_0_conv simp del: length_greater_0_conv)
      then have "pwf (PBranch ?ts v)" using False cs(3) sub rep_count [OF r] by (auto simp: entries_def)
      then show ?thesis using stack_repsI [OF stk(3) rep_branch [OF r] f0, of v] step False nc m by (auto simp del: fun_upd_apply)
    qed
  qed
qed

lemma recover_stack_reps:
  assumes "stack_reps E (TrieNodeExt_load E D (mpt_db T)) stk m"
  shows "\<exists>root del'. recover_pointers stk del = Inr (root, del') \<and> mpt_reps E D (T\<lparr>mpt_root := root, mpt_del_ops := del'\<rparr>) m"
  using assms recover_reps unfolding stack_reps_def by metis

lemma stops_absent: "stops False t r \<Longrightarrow> plookup t r = None"
  by (cases t) (auto split: list.splits)

lemma mpt_del_rep:
  assumes T: "mpt_reps E D T m"
  shows "\<exists>T'. mpt_del E D N T key = Some (Inr T') \<and> mpt_reps E D T' (m(bytes_to_nibble_list key := None)) \<and> mpt_db T' = mpt_db T"
proof (cases "mpt_root T")
  case None
  then show ?thesis using T by (simp add: mpt_del_def mpt_reps_def)
next
  case (Some e0)
  let ?L = "TrieNodeExt_load E D (mpt_db T)" and ?ks = "bytes_to_nibble_list key"
  obtain res T1 stk fs e tn rest where se: "mpt_search E D N T key = Some (Inr (res, T1))" and
    "found E D T m ?ks res stk fs e tn rest" and T1: "mpt_reps E D T1 m" "mpt_db T1 = mpt_db T"
    using mpt_search_rep [OF T Some, of N key] by blast
  then have s: "sr_stack res = stk @ [(e, None)]" "live_path E ?L stk fs tn" "rep_ext E ?L e tn" "pwf (fill fs tn)"
      "m = plookup (fill fs tn)" "?ks = path fs @ rest" "stops (sr_matched res) tn rest"
    by (auto simp: found_def)
  show ?thesis
  proof (cases "sr_matched res")
    case False
    then have "m ?ks = None" using s stops_absent plookup_fill [OF pwf_fill_frames [OF s(4)]] by simp
    then have "m(?ks := None) = m" by auto
    then show ?thesis using se T1 Some False by (simp add: mpt_del_def del: fun_upd_apply)
  next
    case True
    obtain stk' del1 where r: "reset_pointers (stk @ [(e, None)]) (mpt_del_ops T1) = Inr (stk' @ [(e, None)], del1)" "detached E ?L stk' fs"
      using reset_live_path [OF s(2)] by blast
    have "\<exists>stk2 del2 root del3. mpt_remove E D (mpt_db T1) (stk' @ [(e, None)]) del1 = Inr (stk2, del2) \<and>
        recover_pointers stk2 del2 = Inr (root, del3) \<and> mpt_reps E D (T1\<lparr>mpt_root := root, mpt_del_ops := del3\<rparr>) (m(?ks := None))"
    proof (cases tn)
      case (PBranch ts v)
      then have "rest = []" using s(7) True by simp
      then obtain stk2 del2 where "mpt_remove E D (mpt_db T1) (stk' @ [(e, None)]) del1 = Inr (stk2, del2)"
          "stack_reps E ?L stk2 (m(?ks := None))"
        using remove_value_rep [of E D "mpt_db T" e ts v stk' fs del1] s r(2) PBranch T1(2) by (auto simp del: fun_upd_apply)
      then show ?thesis using recover_stack_reps [of E D T1 stk2 _ del2] T1(2) by auto
    next
      case (PLeaf k w)
      show ?thesis
      proof (cases fs)
        case Nil
        then have "stk' = []" using r(2) by (simp add: detached_def)
        moreover have "ext_node e = Leaf k w" using s(3) PLeaf by (auto simp: rep_ext_iff rep_node_pleaf)
        moreover have "m(?ks := None) = Map.empty" using s True PLeaf Nil by auto
        ultimately show ?thesis
          by (auto simp: mpt_remove_def make_mut_def remove_leaf_def recover_pointers_def mpt_reps_def)
      next
        case (Cons f fs')
        then obtain stk2 del2 where "mpt_remove E D (mpt_db T1) (stk' @ [(e, None)]) del1 = Inr (stk2, del2)"
            "stack_reps E ?L stk2 (m(?ks := None))"
          using remove_leaf_rep [of E D "mpt_db T" e k w stk' fs del1] s r(2) PLeaf T1(2) True by (auto simp del: fun_upd_apply)
        then show ?thesis using recover_stack_reps [of E D T1 stk2 _ del2] T1(2) by auto
      qed
    qed (use s(7) True in simp)
    then show ?thesis using se s(1) r(1) Some True T1(2) by (auto simp: mpt_del_def simp del: fun_upd_apply)
  qed
qed

end
