(* ===== verification/RainRoot.thy ===== *)
theory RainRoot
  imports RainRemove
begin

text \<open>
  The root hash of the RainBlock trie.  The cached encodings are right, a
  well-formed trie is determined by its contents, and so the root hash depends on
  the contents only.
\<close>

section \<open>Encodings and hashes\<close>

lemma hash_of_rep:
  assumes "rep_ext E L e t"
  shows "\<exists>e'. hash_of E (penc E t) e = (te_hasher E (penc E t), e') \<and> rep_ext E L e' t"
proof (cases "nc_hash (ext_cache e)")
  case None
  then show ?thesis using assms by (cases e) (auto simp: hash_of_def rep_ext_iff cache_ok_def Let_def)
next
  case (Some h)
  then show ?thesis using assms by (cases e) (auto simp: hash_of_def rep_ext_iff cache_ok_def)
qed

lemma get_rlp_encode_rep:
  shows "rep_node E L n t \<Longrightarrow> \<exists>n'. rlp_bytes E n = (penc E t, n') \<and> rep_node E L n' t"
    and "rep_child E L c x \<Longrightarrow> \<exists>c'. child_rlp_append E c = (penc_child E x, c') \<and> rep_child E L c' x"
    and "rep_ext E L e t \<Longrightarrow> \<exists>e'. get_rlp_encode E e = (penc E t, e') \<and> rep_ext E L e' t \<and> nc_rlp_encode (ext_cache e') = Some (penc E t)"
proof (induction rule: rep_node_rep_child_rep_ext.inducts)
  case (rep_branch cs ts v)
  then have "\<exists>cs'. children_rlp_append E cs = (map (penc_child E) ts, cs') \<and> list_all2 (rep_child E L) cs' ts"
    by (induction rule: list_all2_induct) auto
  then show ?case by (auto simp: penc_branch simp del: penc.simps intro: rep_node_rep_child_rep_ext.rep_branch)
next
  case (rep_extension c t k)
  then show ?case by (auto simp: penc_child_def intro: rep_node_rep_child_rep_ext.rep_extension)
next
  case (rep_ref h e t)
  then show ?case by (auto simp: penc_child_def pref_def intro: rep_node_rep_child_rep_ext.rep_ref)
next
  case (rep_owned e t)
  then obtain e' where e': "get_rlp_encode E e = (penc E t, e')" "rep_ext E L e' t" "nc_rlp_encode (ext_cache e') = Some (penc E t)" by blast
  show ?case
  proof (cases "length (penc E t) < 32")
    case True
    then show ?thesis using e' by (simp add: penc_child_def pref_def rep_child_owned)
  next
    case False
    then show ?thesis using e' hash_of_rep [OF e'(2)] by (auto simp: penc_child_def pref_def rep_child_owned)
  qed
next
  case (rep_extI n t c)
  then show ?case by (auto simp: cache_ok_def rep_ext_iff split: option.split)
qed (auto simp: penc_child_def intro: rep_intros)

lemma ext_hash_rep:
  assumes "rep_ext E L e t"
  shows "\<exists>e'. ext_hash E e = (te_hasher E (penc E t), e') \<and> rep_ext E L e' t"
proof -
  obtain e' where e': "get_rlp_encode E e = (penc E t, e')" "rep_ext E L e' t" using get_rlp_encode_rep(3) [OF assms] by blast
  show ?thesis
  proof (cases "nc_hash (ext_cache e)")
    case None
    then show ?thesis using e' hash_of_rep [OF e'(2)] by (simp add: ext_hash_def)
  next
    case (Some h)
    then show ?thesis using assms hash_of_rep [OF assms] by (auto simp: ext_hash_def hash_of_def)
  qed
qed

section \<open>A trie is determined by its contents\<close>

lemma nibble_of_index: "i < 16 \<Longrightarrow> unat (word_of_nat i :: nibble) = i"
  by (simp add: unat_of_nat)

lemma child_key:
  assumes "j < 16" "ts ! j = Some t" "plookup t ks \<noteq> None"
  shows "plookup (PBranch ts v) (word_of_nat j # ks) \<noteq> None"
  using assms nibble_of_index by simp

lemma pwf_inhabited: "pwf t \<Longrightarrow> \<exists>ks. plookup t ks \<noteq> None"
proof (induction t)
  case (PBranch ts v)
  show ?case
  proof (cases "v = []")
    case False
    then show ?thesis by (intro exI [of _ "[]"]) simp
  next
    case True
    then have "filter (\<lambda>x. x \<noteq> None) ts \<noteq> []" using PBranch.prems by (auto simp: entries_def)
    then obtain i t where i: "i < 16" "ts ! i = Some t" using PBranch.prems by (auto simp: filter_empty_conv in_set_conv_nth)
    then obtain ks where "plookup t ks \<noteq> None" using PBranch.IH [of "Some t" t] PBranch.prems by (metis nth_mem option.set_intros pwf_branch)
    then show ?thesis using child_key [OF i] by blast
  qed
next
  case (PExt k t)
  then obtain ks where "plookup t ks \<noteq> None" by auto
  then show ?case by (intro exI [of _ "k @ ks"]) simp
qed auto

text \<open>The keys below a branch do not all begin with one nibble, and there are two of them.\<close>

lemma branch_keys_differ:
  assumes "pwf (PBranch ts v)"
  shows "\<exists>ks. plookup (PBranch ts v) ks \<noteq> None \<and> (ks = [] \<or> hd ks \<noteq> i)"
proof (cases "v = []")
  case False
  then show ?thesis by (intro exI [of _ "[]"]) simp
next
  case True
  have "\<exists>j. j \<noteq> unat i \<and> j < 16 \<and> ts ! j \<noteq> None"
  proof (rule ccontr)
    assume "\<not> (\<exists>j. j \<noteq> unat i \<and> j < 16 \<and> ts ! j \<noteq> None)"
    then have "{j. j < length ts \<and> ts ! j \<noteq> None} \<subseteq> {unat i}" using assms by auto
    then have "card {j. j < length ts \<and> ts ! j \<noteq> None} \<le> 1" using card_mono [of "{unat i}"] by fastforce
    then show False using assms True by (auto simp: entries_def length_filter_conv_card)
  qed
  then obtain j t where j: "j \<noteq> unat i" "j < 16" "ts ! j = Some t" by auto
  then obtain ks where "plookup t ks \<noteq> None" using assms pwf_inhabited by (metis nth_mem pwf_branch)
  then show ?thesis using child_key [OF j(2,3)] j(1) nibble_of_index [OF j(2)] by (metis list.sel(1))
qed

lemma branch_below:
  assumes "pwf (PBranch ts v)"
  shows "\<exists>i ks. plookup (PBranch ts v) (i # ks) \<noteq> None"
proof -
  have "filter (\<lambda>x. x \<noteq> None) ts \<noteq> []" using assms by (auto simp: entries_def split: if_splits)
  then obtain i t where i: "i < 16" "ts ! i = Some t" using assms by (auto simp: filter_empty_conv in_set_conv_nth)
  then obtain ks where "plookup t ks \<noteq> None" using assms pwf_inhabited by (metis nth_mem pwf_branch)
  then show ?thesis using child_key [OF i] by blast
qed

lemma branch_two_keys:
  assumes "pwf (PBranch ts v)"
  shows "\<exists>a b. a \<noteq> b \<and> plookup (PBranch ts v) a \<noteq> None \<and> plookup (PBranch ts v) b \<noteq> None"
  using branch_below [OF assms] branch_keys_differ [OF assms] by (metis list.sel(1) list.distinct(1))

lemma leaf_only:
  assumes "pwf t" "plookup t = plookup (PLeaf k v)"
  shows "t = PLeaf k v"
proof (cases t)
  case (PLeaf k' v')
  have "plookup t k' = plookup (PLeaf k v) k'" using assms(2) by simp
  then show ?thesis using PLeaf by (simp split: if_splits)
next
  case (PBranch ts w)
  then show ?thesis using branch_two_keys [of ts w] assms by (auto split: if_splits)
next
  case (PExt k' t')
  then obtain ts w where t': "t' = PBranch ts w" using assms(1) by (cases t') auto
  then obtain a b where ab: "a \<noteq> b" "plookup t' a \<noteq> None" "plookup t' b \<noteq> None" using branch_two_keys [of ts w] assms(1) PExt by auto
  have "plookup t (k' @ a) \<noteq> None" "plookup t (k' @ b) \<noteq> None" using ab PExt by simp_all
  then show ?thesis using ab(1) assms(2) by (auto split: if_splits)
qed

lemma branch_ext_differ:
  assumes "pwf (PBranch ts v)" "k \<noteq> []"
  shows "plookup (PBranch ts v) \<noteq> plookup (PExt k t)"
proof
  assume eq: "plookup (PBranch ts v) = plookup (PExt k t)"
  obtain ks where ks: "plookup (PBranch ts v) ks \<noteq> None" "ks = [] \<or> hd ks \<noteq> hd k" using branch_keys_differ [OF assms(1)] by blast
  then have "prefix k ks" using eq by (auto split: if_splits)
  then show False using ks(2) assms(2) by (auto simp: prefix_def)
qed

lemma trie_canonical: "pwf s \<Longrightarrow> pwf t \<Longrightarrow> plookup s = plookup t \<Longrightarrow> s = t"
proof (induction s arbitrary: t)
  case (PLeaf k v)
  then show ?case using leaf_only by metis
next
  case (PBranch ts v)
  show ?case
  proof (cases t)
    case (PLeaf k w)
    then show ?thesis using leaf_only [OF PBranch.prems(1)] PBranch.prems(3) by blast
  next
    case t: (PBranch ts' v')
    have l: "length ts = 16" "length ts' = 16" using PBranch.prems t by auto
    have "v = v'" using fun_cong [OF PBranch.prems(3), of "[]"] t by (auto split: if_splits)
    moreover have "ts ! i = ts' ! i" if i: "i < 16" for i
    proof -
      have eq: "case_option Map.empty plookup (ts ! i) = case_option Map.empty plookup (ts' ! i)"
        using fun_cong [OF PBranch.prems(3), of "word_of_nat i # ks" for ks] t nibble_of_index [OF i]
        by (auto simp: fun_eq_iff split: option.splits)
      have inh: "ts ! i = Some a \<Longrightarrow> plookup a \<noteq> Map.empty" "ts' ! i = Some a \<Longrightarrow> plookup a \<noteq> Map.empty" for a
        using PBranch.prems(1,2) t l i pwf_inhabited [of a] by (metis nth_mem pwf_branch)+
      show ?thesis
      proof (cases "ts ! i")
        case None
        then show ?thesis using eq inh(2) by (cases "ts' ! i") auto
      next
        case (Some a)
        then obtain b where b: "ts' ! i = Some b" using eq inh(1) by (cases "ts' ! i") auto
        have "a = b"
          using PBranch.IH [of "Some a" a b] PBranch.prems(1,2) t l i Some b eq by (metis nth_mem option.set_intros option.simps(5) pwf_branch)
        then show ?thesis using Some b by simp
      qed
    qed
    ultimately show ?thesis using l t by (simp add: nth_equalityI)
  next
    case (PExt k t')
    then show ?thesis using branch_ext_differ [OF PBranch.prems(1), of k t'] PBranch.prems(2,3) by auto
  qed
next
  case (PExt k s')
  obtain ts v where s': "s' = PBranch ts v" using PExt.prems(1) by (cases s') auto
  show ?case
  proof (cases t)
    case (PLeaf k w)
    then show ?thesis using leaf_only [OF PExt.prems(1)] PExt.prems(3) by blast
  next
    case (PBranch ts' w)
    then show ?thesis using branch_ext_differ [of ts' w k s'] PExt.prems by auto
  next
    case t: (PExt k' t')
    obtain ts' w where t': "t' = PBranch ts' w" using PExt.prems(2) t by (cases t') auto
    obtain cp a b where c: "k = cp @ a" "k' = cp @ b" "a = [] \<or> b = [] \<or> hd a \<noteq> hd b" using common_prefix_split by metis
    have eq: "plookup (pext a s') = plookup (pext b t')"
    proof
      fix ks
      have "plookup (PExt k s') (cp @ ks) = plookup (PExt k' t') (cp @ ks)"
        using fun_cong [OF PExt.prems(3), of "cp @ ks"] unfolding t .
      then show "plookup (pext a s') ks = plookup (pext b t') ks" unfolding c(1,2) by (auto simp: plookup_pext split: if_splits)
    qed
    have "a = [] \<and> b = []"
    proof -
      have "a \<noteq> [] \<Longrightarrow> b \<noteq> [] \<Longrightarrow> False"
      proof -
        assume ne: "a \<noteq> []" "b \<noteq> []"
        obtain ks where "plookup s' ks \<noteq> None" using pwf_inhabited PExt.prems(1) by (metis pwf.simps(3))
        then have "plookup (pext b t') (a @ ks) \<noteq> None" using eq [symmetric] by (simp add: plookup_pext)
        then show False using ne c(3) by (cases a; cases b) (auto simp: plookup_pext split: if_splits)
      qed
      moreover have "a = [] \<Longrightarrow> b \<noteq> [] \<Longrightarrow> False"
        using branch_ext_differ [of ts v b t'] eq PExt.prems(1) s' by (auto simp: pext_def)
      moreover have "b = [] \<Longrightarrow> a \<noteq> [] \<Longrightarrow> False"
        using branch_ext_differ [of ts' w a s'] eq PExt.prems(2) t t' by (auto simp: pext_def)
      ultimately show ?thesis by blast
    qed
    then show ?thesis using eq PExt.IH [of t'] PExt.prems(1,2) t c by (auto simp: pext_def)
  qed
qed

lemma mpt_root_hash_reps:
  assumes "mpt_reps E D T m"
  shows "m = Map.empty \<and> fst (mpt_root_hash E T) = None \<or>
    m \<noteq> Map.empty \<and> (\<exists>t. pwf t \<and> m = plookup t \<and> fst (mpt_root_hash E T) = Some (te_hasher E (penc E t)))"
proof (cases "mpt_root T")
  case None
  then show ?thesis using assms by (simp add: mpt_reps_def mpt_root_hash_def)
next
  case (Some e)
  then obtain t where t: "rep_ext E (TrieNodeExt_load E D (mpt_db T)) e t" "pwf t" "m = plookup t"
    using assms by (auto simp: mpt_reps_def)
  moreover have "m \<noteq> Map.empty" using t(3) pwf_inhabited [OF t(2)] by (metis (no_types))
  ultimately show ?thesis using ext_hash_rep [OF t(1)] Some by (auto simp: mpt_root_hash_def)
qed

section \<open>Properties\<close>

lemma mpt_put_rep:
  assumes "mpt_reps E D T m" and "key \<noteq> []"
  shows "\<exists>T'. mpt_put E D N T key val = Some (Inr T') \<and>
    mpt_reps E D T' (m(bytes_to_nibble_list key := if val = [] then None else Some val)) \<and> mpt_db T' = mpt_db T"
proof (cases "val = []")
  case True
  then show ?thesis using mpt_del_rep [OF assms(1), of N key] assms(2) by (simp add: mpt_put_def)
next
  case False
  show ?thesis
  proof (cases "mpt_root T")
    case None
    then have "m = Map.empty" using assms(1) by (simp add: mpt_reps_def)
    moreover have "plookup (PLeaf k val) = [k \<mapsto> val]" for k by auto
    ultimately show ?thesis using None False assms(2)
      by (auto simp: mpt_put_def mpt_reps_def simp del: plookup.simps intro!: exI [of _ "PLeaf (bytes_to_nibble_list key) val"])
  next
    case (Some e0)
    let ?ks = "bytes_to_nibble_list key"
    obtain res T1 stk fs e tn rest where se: "mpt_search E D N T key = Some (Inr (res, T1))" and
      f: "found E D T m ?ks res stk fs e tn rest" and T1: "mpt_reps E D T1 m" "mpt_db T1 = mpt_db T"
      using mpt_search_rep [OF assms(1) Some, of N key] by blast
    have f1: "found E D T1 m ?ks res stk fs e tn rest" using f T1(2) by (simp add: found_def)
    have pa: "\<exists>T'. put_at E D N res val T1 = Inr T' \<and> mpt_reps E D T' (m(?ks \<mapsto> val)) \<and> mpt_db T' = mpt_db T"
      using put_at_rep [OF f1 False, of N] T1(2) by simp
    show ?thesis
    proof (cases "sr_matched res")
      case True
      then have mn: "matched_node res = Some e" using f by (simp add: matched_node_def found_def)
      have st: "stops True tn rest" "rep_ext E (TrieNodeExt_load E D (mpt_db T)) e tn" "m ?ks = plookup tn rest"
        using f True plookup_fill [of fs tn rest] pwf_fill_frames [of fs tn] by (auto simp: found_def)
      obtain old where old: "node_value (ext_node e) = Some old" "old = val \<Longrightarrow> m ?ks = Some val"
        using st False by (cases tn) (auto simp: rep_ext_iff rep_node_pleaf rep_node_pbranch)
      then show ?thesis using se mn pa T1 False Some assms(2)
        by (cases "old = val") (auto simp: mpt_put_def fun_upd_idem simp del: fun_upd_apply)
    next
      case nm: False
      then show ?thesis using se pa False Some assms(2) by (auto simp: mpt_put_def matched_node_def simp del: fun_upd_apply)
    qed
  qed
qed

lemma mpt_get_rep:
  assumes "mpt_reps E D T m" and "key \<noteq> []"
  shows "\<exists>r T'. mpt_get E D N T key = Some (Inr (r, T')) \<and> mpt_reps E D T' m \<and> mpt_db T' = mpt_db T \<and>
    (r = m (bytes_to_nibble_list key) \<or>
     r = Some [] \<and> m (bytes_to_nibble_list key) = None \<and>
     (\<exists>i a j b. i \<noteq> j \<and> m (bytes_to_nibble_list key @ i # a) \<noteq> None \<and> m (bytes_to_nibble_list key @ j # b) \<noteq> None))"
proof (cases "mpt_root T")
  case None
  then show ?thesis using assms by (simp add: mpt_get_def mpt_reps_def)
next
  case (Some e0)
  let ?ks = "bytes_to_nibble_list key"
  obtain res T1 stk fs e tn rest where se: "mpt_search E D N T key = Some (Inr (res, T1))" and
    f: "found E D T m ?ks res stk fs e tn rest" and T1: "mpt_reps E D T1 m" "mpt_db T1 = mpt_db T"
    using mpt_search_rep [OF assms(1) Some, of N key] by blast
  have st: "stops (sr_matched res) tn rest" "rep_ext E (TrieNodeExt_load E D (mpt_db T)) e tn" "pwf tn"
    and mk: "m (?ks @ ks) = plookup tn (rest @ ks)" for ks
    using f plookup_fill [of fs tn] pwf_fill_frames [of fs tn] pwf_fill_inner [of fs tn] by (auto simp: found_def)
  have m0: "m ?ks = plookup tn rest" using mk [of "[]"] by simp
  have g: "mpt_get E D N T key = Some (Inr (if sr_matched res then node_value (ext_node e) else None, T1))"
    using se f Some assms(2) by (simp add: mpt_get_def matched_node_def found_def)
  show ?thesis
  proof (cases "sr_matched res")
    case False
    then show ?thesis using g T1 st(1) m0 stops_absent by simp
  next
    case True
    show ?thesis
    proof (cases tn)
      case (PLeaf k v)
      then show ?thesis using g T1 st m0 True by (auto simp: rep_ext_iff rep_node_pleaf)
    next
      case (PBranch ts v)
      have "node_value (ext_node e) = Some v" using PBranch st(2) by (auto simp: rep_ext_iff rep_node_pbranch)
      moreover have "\<exists>i a j b. i \<noteq> j \<and> m (?ks @ i # a) \<noteq> None \<and> m (?ks @ j # b) \<noteq> None" if "v = []"
      proof -
        obtain i a where i: "plookup (PBranch ts v) (i # a) \<noteq> None" using branch_below st(3) PBranch by blast
        obtain b where b: "plookup (PBranch ts v) b \<noteq> None" "b = [] \<or> hd b \<noteq> i" using branch_keys_differ st(3) PBranch by blast
        then obtain j b' where "b = j # b'" "i \<noteq> j" using \<open>v = []\<close> by (cases b) auto
        moreover have "m (?ks @ ks) = plookup (PBranch ts v) ks" for ks using mk [of ks] PBranch st(1) True by simp
        ultimately show ?thesis using i b(1)
          by (intro exI [of _ i] exI [of _ a] exI [of _ j] exI [of _ b']) (simp del: plookup.simps)
      qed
      ultimately show ?thesis using g T1 m0 st(1) True PBranch by (cases "v = []") auto
    next
      case (PExt k t)
      then show ?thesis using st(1) True by simp
    qed
  qed
qed

text \<open>C18. \<open>put\<close> updates the map the trie stands for: on a trie over any store, with
  subtrees still unloaded, \<open>put\<close> with a key that is not empty returns, does not
  panic, and the new trie stands for the old contents with the key set to the
  value, or without the key when the value is empty; it is again in normal form
  and its caches are right.  The store is not changed.\<close>

theorem rain_put_updates_map:
  assumes "mpt_reps E D T m" and "key \<noteq> []"
  shows "\<exists>T'. mpt_put E D N T key val = Some (Inr T') \<and>
    mpt_reps E D T' (m(bytes_to_nibble_list key := if val = [] then None else Some val)) \<and> mpt_db T' = mpt_db T"
  by (rule mpt_put_rep [OF assms])

text \<open>C24. \<open>get\<close> reads the map: it returns and does not panic for every key that is
  not empty, and keeps the contents (it may load subtrees).  Its answer is the
  value stored under the key, with one exception: for a key with no value at which
  two longer keys part, it is \<open>Some\<close> of the empty value instead of \<open>None\<close>.\<close>

theorem rain_get_reads_map:
  assumes "mpt_reps E D T m" and "key \<noteq> []"
  shows "\<exists>r T'. mpt_get E D N T key = Some (Inr (r, T')) \<and> mpt_reps E D T' m \<and> mpt_db T' = mpt_db T \<and>
    (r = m (bytes_to_nibble_list key) \<or>
     r = Some [] \<and> m (bytes_to_nibble_list key) = None \<and>
     (\<exists>i a j b. i \<noteq> j \<and> m (bytes_to_nibble_list key @ i # a) \<noteq> None \<and> m (bytes_to_nibble_list key @ j # b) \<noteq> None))"
  by (rule mpt_get_rep [OF assms])

text \<open>C19. The root hash depends on the contents only: two tries with the same
  contents, whatever operations built them, whatever they have loaded or cached
  and whatever stores they are over, give the same root hash.\<close>

theorem rain_root_determined_by_contents:
  assumes "mpt_reps E D T m" and "mpt_reps E D' T' m"
  shows "fst (mpt_root_hash E T) = fst (mpt_root_hash E T')"
proof (cases "m = Map.empty")
  case True
  then show ?thesis using mpt_root_hash_reps [OF assms(1)] mpt_root_hash_reps [OF assms(2)] by simp
next
  case False
  then obtain t t' where "pwf t" "m = plookup t" "pwf t'" "m = plookup t'"
      "fst (mpt_root_hash E T) = Some (te_hasher E (penc E t))" "fst (mpt_root_hash E T') = Some (te_hasher E (penc E t'))"
    using mpt_root_hash_reps [OF assms(1)] mpt_root_hash_reps [OF assms(2)] by blast
  then show ?thesis using trie_canonical [of t t'] by simp
qed

section \<open>Witnesses\<close>

definition demo_env :: trie_env where
  "demo_env = \<lparr>te_hasher = (\<lambda>b. word_of_nat (length b)), te_data = (\<lambda>b. b), te_list = concat, te_view = VBad\<rparr>"

definition one_leaf :: "node_cache \<Rightarrow> contents MerklePatriciaTree" where
  "one_leaf c = \<lparr>mpt_db = (\<lambda>_ _. None), mpt_root = Some (TrieNodeExt (Leaf [1, 2] [7]) c), mpt_del_ops = []\<rparr>"

lemma one_leaf_reps:
  assumes "cache_ok demo_env c (PLeaf [1, 2] [7])"
  shows "mpt_reps demo_env plain_kvdb (one_leaf c) [[1, 2] \<mapsto> [7]]"
proof -
  have "plookup (PLeaf [1, 2] [7]) = [[1, 2] \<mapsto> [7]]" by auto
  then show ?thesis using assms
    by (auto simp: mpt_reps_def one_leaf_def rep_ext_iff rep_leaf simp del: plookup.simps intro!: exI [of _ "PLeaf [1, 2] [7]"])
qed

text \<open>The same trie with its encoding and hash cached.\<close>

definition warm :: node_cache where
  "warm = clear_cache\<lparr>nc_rlp_encode := Some (penc demo_env (PLeaf [1, 2] [7])),
     nc_hash := Some (te_hasher demo_env (penc demo_env (PLeaf [1, 2] [7]))), nc_commited := Light\<rparr>"

lemma warm_ok: "cache_ok demo_env warm (PLeaf [1, 2] [7])"
  by (simp add: warm_def cache_ok_def)

lemma nibbles_34: "bytes_to_nibble_list [18] = [1, 2]" "bytes_to_nibble_list [19] = [1, 3]"
  by (simp_all add: bytes_to_nibble_list_def from_hi_def from_lo_ucast)

theorem rain_put_updates_map_witness:
  "\<exists>T'. mpt_put demo_env plain_kvdb 6 (one_leaf clear_cache) [19] [9] = Some (Inr T') \<and>
     mpt_reps demo_env plain_kvdb T' [[1, 2] \<mapsto> [7], [1, 3] \<mapsto> [9]]"
  using rain_put_updates_map [OF one_leaf_reps [OF cache_ok_clear], of "[19]" 6 "[9]"] by (auto simp: nibbles_34)

theorem rain_get_reads_map_witness:
  "\<exists>T'. mpt_get demo_env plain_kvdb 6 (one_leaf warm) [18] = Some (Inr (Some [7], T'))"
  using rain_get_reads_map [OF one_leaf_reps [OF warm_ok], of "[18]" 6] by (auto simp: nibbles_34)

theorem rain_root_determined_by_contents_witness:
  "fst (mpt_root_hash demo_env (one_leaf clear_cache)) = fst (mpt_root_hash demo_env (one_leaf warm))"
  using rain_root_determined_by_contents [OF one_leaf_reps [OF cache_ok_clear] one_leaf_reps [OF warm_ok]] .

end
