(* ===== verification/RainCodec.thy ===== *)
theory RainCodec
  imports RainRoot
begin

text \<open>
  The rlp encoding of the nodes of the RainBlock trie is read back by the decoder.
  The locale states what is used of the rlp crate: the accessors see what was
  appended, and an encoding is longer than its parts.  What is decoded from
  the encoding of a trie is its top node, with the small children inside it and
  the large ones as hashes.
\<close>

section \<open>The rlp crate\<close>

inductive rlp_valid :: "trie_env \<Rightarrow> bytes \<Rightarrow> bool" for E where
  valid_data: "rlp_valid E (te_data E d)"
| valid_list: "list_all (rlp_valid E) xs \<Longrightarrow> rlp_valid E (te_list E xs)"

locale trie_rlp =
  fixes E :: trie_env
  assumes view_data: "te_view E (te_data E d) = VData (te_data E d) d"
    and view_list: "list_all (rlp_valid E) xs \<Longrightarrow> te_view E (te_list E xs) = VList (te_list E xs) (map (te_view E) xs)"
    and list_longer: "x \<in> set xs \<Longrightarrow> length x < length (te_list E xs)"
    and data_longer: "length d \<le> length (te_data E d)"

section \<open>A concrete encoding\<close>

text \<open>A tag, the length in unary, and the contents.\<close>

definition tag_data :: "bytes \<Rightarrow> bytes" where
  "tag_data d = 0 # replicate (length d) 1 @ 0 # d"

definition tag_list :: "bytes list \<Rightarrow> bytes" where
  "tag_list xs = 1 # replicate (length xs) 1 @ 0 # concat xs"

fun read_unary :: "bytes \<Rightarrow> (nat \<times> bytes) option" where
  "read_unary [] = None"
| "read_unary (b # bs) = (if b = 0 then Some (0, bs) else map_option (\<lambda>(n, r). (Suc n, r)) (read_unary bs))"

fun read_items :: "nat \<Rightarrow> bytes \<Rightarrow> (rlp_view \<times> bytes) option"
and read_many :: "nat \<Rightarrow> nat \<Rightarrow> bytes \<Rightarrow> (rlp_view list \<times> bytes) option" where
  "read_items 0 bs = None"
| "read_items (Suc fuel) [] = None"
| "read_items (Suc fuel) (b # bs) = (case read_unary bs of
     None \<Rightarrow> None
   | Some (n, r) \<Rightarrow>
       if b = 0 then
         (if n \<le> length r then Some (VData (take (length bs + 1 - length (drop n r)) (b # bs)) (take n r), drop n r) else None)
       else (case read_many fuel n r of
         None \<Rightarrow> None | Some (vs, r') \<Rightarrow> Some (VList (take (length bs + 1 - length r') (b # bs)) vs, r')))"
| "read_many fuel 0 bs = Some ([], bs)"
| "read_many 0 (Suc n) bs = None"
| "read_many (Suc fuel) (Suc n) bs = (case read_items (Suc fuel) bs of
     None \<Rightarrow> None | Some (v, r) \<Rightarrow> map_option (\<lambda>(vs, r'). (v # vs, r')) (read_many fuel n r))"

definition tag_view :: "bytes \<Rightarrow> rlp_view" where
  "tag_view bs = (case read_items (length bs) bs of Some (v, []) \<Rightarrow> v | _ \<Rightarrow> VBad bs)"

definition tag_env :: "(bytes \<Rightarrow> h256) \<Rightarrow> trie_env" where
  "tag_env H = \<lparr>te_hasher = H, te_data = tag_data, te_list = tag_list, te_view = tag_view\<rparr>"

lemma read_unary_replicate [simp]: "read_unary (replicate n 1 @ 0 # r) = Some (n, r)"
  by (induction n) simp_all

lemma tag_lengths: "x \<in> set xs \<Longrightarrow> length x < length (tag_list xs)" "length d \<le> length (tag_data d)"
  using member_le_sum_list [of "length x" "map length xs"] by (auto simp: tag_list_def tag_data_def length_concat)

lemma read_data: "0 < fuel \<Longrightarrow> read_items fuel (tag_data d @ rest) = Some (VData (tag_data d) d, rest)"
  by (cases fuel) (simp_all add: tag_data_def)

lemma read_list:
  assumes "read_many fuel (length xs) (concat xs @ rest) = Some (vs, rest)"
  shows "read_items (Suc fuel) (tag_list xs @ rest) = Some (VList (tag_list xs) vs, rest)"
  using assms by (simp add: tag_list_def)

text \<open>\<open>x\<close> is read as \<open>v\<close> wherever it stands.\<close>

definition reads_as :: "bytes \<Rightarrow> rlp_view \<Rightarrow> bool" where
  "reads_as x v \<longleftrightarrow> x \<noteq> [] \<and> (\<forall>fuel rest. length x \<le> fuel \<longrightarrow> read_items fuel (x @ rest) = Some (v, rest))"

lemma reads_as_view: "reads_as x v \<Longrightarrow> tag_view x = v"
  unfolding reads_as_def tag_view_def by (metis (no_types, lifting) append_Nil2 list.simps(4) option.simps(5) order_refl prod.case)

lemma read_many_all:
  assumes "list_all (\<lambda>x. reads_as x (tag_view x)) xs" and "length (concat xs) \<le> fuel"
  shows "read_many fuel (length xs) (concat xs @ rest) = Some (map tag_view xs, rest)"
  using assms
proof (induction xs arbitrary: fuel)
  case (Cons x xs)
  then have x: "x \<noteq> []" "\<And>f r. length x \<le> f \<Longrightarrow> read_items f (x @ r) = Some (tag_view x, r)"
    by (auto simp: reads_as_def)
  obtain f where f: "fuel = Suc f" using x(1) Cons.prems(2) by (cases fuel) auto
  have "1 \<le> length x" "length x + length (concat xs) \<le> Suc f" using x(1) Cons.prems(2) f by (simp_all add: Suc_le_eq)
  then have "length (concat xs) \<le> f" by linarith
  moreover have "length x \<le> Suc f" using Cons.prems(2) f by simp
  ultimately show ?case using x(2) [of "Suc f"] Cons f by (simp del: read_items.simps)
qed simp

lemma valid_reads: "rlp_valid (tag_env H) x \<Longrightarrow> reads_as x (tag_view x)"
proof (induction rule: rlp_valid.induct)
  case (valid_data d)
  have "reads_as (tag_data d) (VData (tag_data d) d)" using read_data by (auto simp: reads_as_def tag_data_def)
  then show ?case using reads_as_view by (fastforce simp: tag_env_def)
next
  case (valid_list xs)
  have a: "list_all (\<lambda>x. reads_as x (tag_view x)) xs" using valid_list by (simp add: list_all_iff)
  have "read_items fuel (tag_list xs @ rest) = Some (VList (tag_list xs) (map tag_view xs), rest)"
    if "length (tag_list xs) \<le> fuel" for fuel rest
    using that read_list [OF read_many_all [OF a]] by (cases fuel) (auto simp: tag_list_def)
  then have "reads_as (tag_list xs) (VList (tag_list xs) (map tag_view xs))" by (auto simp: reads_as_def tag_list_def)
  then show ?case using reads_as_view by (fastforce simp: tag_env_def)
qed

interpretation tag: trie_rlp "tag_env H" for H
proof
  show "te_view (tag_env H) (te_data (tag_env H) d) = VData (te_data (tag_env H) d) d" for d
    using read_data [of "length (tag_data d)" d "[]"] by (simp add: tag_env_def tag_view_def) (simp add: tag_data_def)
  show "te_view (tag_env H) (te_list (tag_env H) xs) = VList (te_list (tag_env H) xs) (map (te_view (tag_env H)) xs)"
    if "list_all (rlp_valid (tag_env H)) xs" for xs
  proof -
    have a: "list_all (\<lambda>x. reads_as x (tag_view x)) xs" using that valid_reads by (auto simp: list_all_iff)
    have "read_items (length (tag_list xs)) (tag_list xs @ []) = Some (VList (tag_list xs) (map tag_view xs), [])"
      using read_list [OF read_many_all [OF a], of "length (tag_list xs) - 1" "[]"] by (simp add: tag_list_def)
    then show ?thesis by (simp add: tag_env_def tag_view_def)
  qed
  show "x \<in> set xs \<Longrightarrow> length x < length (te_list (tag_env H) xs)" for x xs by (simp add: tag_env_def tag_lengths)
  show "length d \<le> length (te_data (tag_env H) d)" for d by (simp add: tag_env_def tag_lengths)
qed

section \<open>What is decoded\<close>

text \<open>A child as it is read: a small node is inside its parent, a large one is a hash.\<close>

definition child_as_read :: "trie_env \<Rightarrow> bytes \<Rightarrow> TrieNode \<Rightarrow> ChildRef" where
  "child_as_read E b n = (if length b < 32
     then Owned (TrieNodeExt n (clear_cache\<lparr>nc_rlp_encode := Some b, nc_commited := Light\<rparr>))
     else Ref (te_hasher E b))"

lemma size_some_member [termination_simp]: "Some t \<in> set ts \<Longrightarrow> size t < Suc (size_list (size_option size) ts)"
  by (induction ts) auto

fun shallow :: "trie_env \<Rightarrow> ptrie \<Rightarrow> TrieNode" where
  "shallow E (PLeaf k v) = Leaf k v"
| "shallow E (PBranch ts v) = Branch (map (\<lambda>x. case x of None \<Rightarrow> Null | Some t \<Rightarrow> child_as_read E (penc E t) (shallow E t)) ts) v"
| "shallow E (PExt k t) = Extension k (child_as_read E (penc E t) (shallow E t))"

definition shallow_child :: "trie_env \<Rightarrow> ptrie option \<Rightarrow> ChildRef" where
  "shallow_child E x = (case x of None \<Rightarrow> Null | Some t \<Rightarrow> child_as_read E (penc E t) (shallow E t))"

definition as_loaded :: "trie_env \<Rightarrow> ptrie \<Rightarrow> TrieNodeExt" where
  "as_loaded E t = TrieNodeExt (shallow E t)
     (clear_cache\<lparr>nc_hash := Some (te_hasher E (penc E t)), nc_rlp_encode := Some (penc E t), nc_commited := Committed\<rparr>)"

lemma shallow_branch: "shallow E (PBranch ts v) = Branch (map (shallow_child E) ts) v"
  by (auto simp: shallow_child_def)

lemma mpt_key_bytes_round_trip: "from_mpt_key (mpt_key_bytes k leaf) = Inr (k, leaf)"
  using to_mpt_key_total [of k leaf] mpt_key_round_trip [of k leaf] by (auto simp: mpt_key_bytes_def)

context trie_rlp
begin

lemma penc_valid: "rlp_valid E (penc E t)"
proof (induction t)
  case (PBranch ts v)
  then have "list_all (rlp_valid E) (map (penc_child E) ts)"
    by (auto simp: list_all_iff penc_child_def pref_def valid_data split: option.split)
  then show ?case unfolding penc_branch by (intro valid_list) (simp add: valid_data)
qed (auto simp: pref_def intro!: valid_list valid_data)

lemma penc_child_valid: "rlp_valid E (penc_child E x)"
  by (auto simp: penc_child_def pref_def valid_data penc_valid split: option.split)

lemma penc_list: obtains xs where "penc E t = te_list E xs" "list_all (rlp_valid E) xs" "xs \<noteq> []"
proof (cases t)
  case (PLeaf k v)
  then show ?thesis using that [of "[te_data E (mpt_key_bytes k True), te_data E v]"] by (simp add: valid_data)
next
  case (PBranch ts v)
  then show ?thesis using that [of "map (penc_child E) ts @ [te_data E v]"]
    by (simp add: penc_branch valid_data list_all_iff penc_child_valid del: penc.simps)
next
  case (PExt k t')
  then show ?thesis using that [of "[te_data E (mpt_key_bytes k False), pref E (penc E t')]"]
    using penc_child_valid [of "Some t'"] by (simp add: valid_data penc_child_def)
qed

lemma view_penc: "view_is_list (te_view E (penc E t))" "\<not> view_is_empty (te_view E (penc E t))"
    "view_raw (te_view E (penc E t)) = penc E t"
  using penc_list [of t] view_list by (metis list.map_disc_iff rlp_view.sel(2) view_is_empty.simps(2) view_is_list.simps(1))+

lemma decode_child:
  assumes "\<And>t. x = Some t \<Longrightarrow> TrieNode_decode (te_view E (penc E t)) = Inr (shallow E t)"
  shows "ChildRef_decode (te_view E (penc_child E x)) = Inr (shallow_child E x)"
proof (cases x)
  case None
  then show ?thesis by (simp add: penc_child_def view_data shallow_child_def)
next
  case (Some t)
  show ?thesis
  proof (cases "length (penc E t) < 32")
    case True
    then show ?thesis using Some assms view_penc
      by (simp add: penc_child_def pref_def shallow_child_def child_as_read_def from_child_ref_def)
  next
    case False
    moreover have "to_be_bytes 32 h \<noteq> []" for h :: h256 by (metis length_to_be_bytes list.size(3) zero_neq_numeral)
    ultimately show ?thesis using Some
      by (simp add: penc_child_def pref_def view_data view_h256_def digest_bytes_def from_be_to_be shallow_child_def child_as_read_def)
  qed
qed

lemma decode_children:
  "(\<And>x. x \<in> set ts \<Longrightarrow> ChildRef_decode (te_view E (penc_child E x)) = Inr (shallow_child E x)) \<Longrightarrow>
   ChildRefs_decode (length ts) (map (te_view E) (map (penc_child E) ts @ rest)) = Inr (map (shallow_child E) ts)"
  by (induction ts) (simp_all del: ChildRef_decode.simps)

lemma decode_penc: "pwf t \<Longrightarrow> TrieNode_decode (te_view E (penc E t)) = Inr (shallow E t)"
proof (induction t)
  case (PLeaf k v)
  show ?case by (simp add: view_list valid_data view_data mpt_key_bytes_round_trip)
next
  case (PBranch ts v)
  have l: "length ts = 16" using PBranch.prems by simp
  have "ChildRef_decode (te_view E (penc_child E x)) = Inr (shallow_child E x)" if "x \<in> set ts" for x
    using that PBranch by (intro decode_child) simp
  then have ch: "ChildRefs_decode 16 (map (te_view E) (map (penc_child E) ts @ [te_data E v])) = Inr (map (shallow_child E) ts)"
    using decode_children [of ts "[te_data E v]"] l by (simp only:)
  have v: "te_view E (penc E (PBranch ts v)) = VList (penc E (PBranch ts v)) (map (te_view E) (map (penc_child E) ts @ [te_data E v]))"
    unfolding penc_branch by (rule view_list) (simp add: list_all_iff penc_child_valid valid_data)
  obtain a b c r where s: "map (te_view E) (map (penc_child E) ts @ [te_data E v]) = a # b # c # r"
    using l by (auto simp: numeral_eq_Suc length_Suc_conv)
  have n: "(map (te_view E) (map (penc_child E) ts @ [te_data E v])) ! 16 = te_view E (te_data E v)" using l by (simp add: nth_append)
  have len: "length (map (te_view E) (map (penc_child E) ts @ [te_data E v])) = 17" using l by simp
  show ?case unfolding shallow_branch v s TrieNode_decode.simps
    using ch n len unfolding s by (simp add: view_data del: ChildRefs_decode.simps)
next
  case (PExt k t)
  then have "ChildRef_decode (te_view E (pref E (penc E t))) = Inr (shallow_child E (Some t))"
    using decode_child [of "Some t"] by (simp add: penc_child_def del: ChildRef_decode.simps)
  then show ?case using penc_child_valid [of "Some t"]
    by (simp add: view_list valid_data view_data mpt_key_bytes_round_trip shallow_child_def penc_child_def del: ChildRef_decode.simps)
qed

text \<open>Decoding loses nothing that is encoded.\<close>

lemma rlp_shallow_child: "fst (child_rlp_append E (shallow_child E x)) = penc_child E x"
  by (auto simp: shallow_child_def child_as_read_def penc_child_def pref_def split: option.split)

lemma rlp_shallow: "fst (rlp_bytes E (shallow E t)) = penc E t"
proof (cases t)
  case (PLeaf k v)
  then show ?thesis by simp
next
  case (PBranch ts v)
  have "fst (children_rlp_append E (map (shallow_child E) ts)) = map (penc_child E) ts"
    using rlp_shallow_child by (induction ts) (auto split: prod.splits, metis fst_conv)
  then show ?thesis unfolding PBranch shallow_branch penc_branch by (auto split: prod.splits)
next
  case (PExt k t')
  then show ?thesis using rlp_shallow_child [of "Some t'"]
    by (auto simp: shallow_child_def penc_child_def split: prod.splits)
qed

end

section \<open>The hash commits to the contents\<close>

primrec subtries :: "ptrie \<Rightarrow> ptrie set" where
  "subtries (PLeaf k v) = {PLeaf k v}"
| "subtries (PBranch ts v) = insert (PBranch ts v) (\<Union> (set (map (case_option {} (\<lambda>s. s)) (map (map_option subtries) ts))))"
| "subtries (PExt k t) = insert (PExt k t) (subtries t)"

lemma subtries_self [simp]: "t \<in> subtries t"
  by (cases t) simp_all

lemma subtries_child: "Some t \<in> set ts \<Longrightarrow> subtries t \<subseteq> subtries (PBranch ts v)"
  by force

definition collision :: "trie_env \<Rightarrow> ptrie \<Rightarrow> ptrie \<Rightarrow> bool" where
  "collision E t u \<longleftrightarrow> (\<exists>a \<in> penc E ` subtries t. \<exists>b \<in> penc E ` subtries u. a \<noteq> b \<and> te_hasher E a = te_hasher E b)"

lemma collision_mono: "collision E s u \<Longrightarrow> subtries s \<subseteq> subtries t \<Longrightarrow> subtries u \<subseteq> subtries w \<Longrightarrow> collision E t w"
  unfolding collision_def by blast

context trie_rlp
begin

lemma same_child:
  assumes "shallow_child E (Some s) = shallow_child E (Some u)" and "penc E s = penc E u \<Longrightarrow> s = u \<or> collision E s u"
  shows "s = u \<or> collision E s u"
proof (cases "penc E s = penc E u")
  case False
  then have "te_hasher E (penc E s) = te_hasher E (penc E u)"
    using assms(1) by (auto simp: shallow_child_def child_as_read_def clear_cache_def split: if_splits)
  then show ?thesis using False unfolding collision_def by (metis imageI subtries_self)
qed (use assms(2) in blast)

lemma penc_inject: "pwf s \<Longrightarrow> pwf t \<Longrightarrow> penc E s = penc E t \<Longrightarrow> s = t \<or> collision E s t"
proof (induction s arbitrary: t)
  case (PLeaf k v)
  then have "shallow E (PLeaf k v) = shallow E t" using decode_penc by (metis sum.inject(2))
  then show ?case by (cases t) auto
next
  case (PBranch ts v)
  then have "shallow E (PBranch ts v) = shallow E t" using decode_penc by (metis sum.inject(2))
  then obtain us where t: "t = PBranch us v" "map (shallow_child E) ts = map (shallow_child E) us"
    by (cases t) (simp_all add: shallow_branch del: shallow.simps, simp_all)
  have l: "length ts = 16" "length us = 16" using PBranch.prems t by simp_all
  show ?case
  proof (cases "\<forall>i<16. ts ! i = us ! i")
    case True
    then show ?thesis using l t by (simp add: nth_equalityI)
  next
    case False
    then obtain i where i: "i < 16" "ts ! i \<noteq> us ! i" by blast
    have eq: "shallow_child E (ts ! i) = shallow_child E (us ! i)" using t(2) l i(1) by (metis nth_map)
    then obtain a b where ab: "ts ! i = Some a" "us ! i = Some b"
      using i(2) by (cases "ts ! i"; cases "us ! i") (auto simp: shallow_child_def child_as_read_def split: if_splits)
    have m: "Some a \<in> set ts" "Some b \<in> set us" using ab l i(1) nth_mem by metis+
    have "penc E a = penc E b \<Longrightarrow> a = b \<or> collision E a b"
      using PBranch.IH [OF m(1), of a b] PBranch.prems(1,2) m t by simp
    then have "collision E a b" using same_child [of a b] eq ab i(2) by auto
    then show ?thesis using collision_mono [OF _ subtries_child [OF m(1)] subtries_child [OF m(2)]] t by blast
  qed
next
  case (PExt k s)
  then have "shallow E (PExt k s) = shallow E t" using decode_penc by (metis sum.inject(2))
  then obtain u where t: "t = PExt k u" "shallow_child E (Some s) = shallow_child E (Some u)"
    by (cases t) (auto simp: shallow_child_def)
  then have "s = u \<or> collision E s u" using same_child [of s u] PExt.IH [of u] PExt.prems by simp
  then show ?case using t(1) collision_mono [of E s u "PExt k s" "PExt k u"] by auto
qed

end

text \<open>The encodings of the nodes of the trie that stands for a map.\<close>

definition node_encodings :: "trie_env \<Rightarrow> (nibble list \<rightharpoonup> bytes) \<Rightarrow> bytes set" where
  "node_encodings E m = {penc E s | s t. pwf t \<and> plookup t = m \<and> s \<in> subtries t}"

section \<open>Properties\<close>

text \<open>A hash for the witnesses: the first 32 bytes.\<close>

definition low_bytes :: "bytes \<Rightarrow> h256" where
  "low_bytes b = from_be_bytes (take 32 b)"

definition leaf_tree :: "bytes \<Rightarrow> contents MerklePatriciaTree" where
  "leaf_tree v = \<lparr>mpt_db = (\<lambda>_ _. None), mpt_root = Some (TrieNodeExt_new (Leaf [1, 2] v)), mpt_del_ops = []\<rparr>"

lemma leaf_tree_reps: "v \<noteq> [] \<Longrightarrow> mpt_reps E plain_kvdb (leaf_tree v) (plookup (PLeaf [1, 2] v))"
  by (auto simp: mpt_reps_def leaf_tree_def rep_leaf simp del: plookup.simps intro!: exI [of _ "PLeaf [1, 2] v"])

text \<open>A node survives the store: decoding the bytes a node is encoded to does
  not fail, and the decoded node encodes to the same bytes.\<close>

theorem rain_node_encoding_round_trip:
  assumes "trie_rlp E" and "rep_node E L n t" and "pwf t"
  shows "\<exists>n'. TrieNode_new E (fst (rlp_bytes E n)) = Inr n' \<and> fst (rlp_bytes E n') = fst (rlp_bytes E n)"
proof -
  obtain n1 where "rlp_bytes E n = (penc E t, n1)" using get_rlp_encode_rep(1) [OF assms(2)] by blast
  then show ?thesis using trie_rlp.decode_penc [OF assms(1,3)] trie_rlp.rlp_shallow [OF assms(1)] by (simp add: TrieNode_new_def)
qed

theorem rain_node_encoding_round_trip_witness:
  "\<exists>n'. TrieNode_new (tag_env low_bytes) (fst (rlp_bytes (tag_env low_bytes) (Leaf [1] [7]))) = Inr n' \<and>
     fst (rlp_bytes (tag_env low_bytes) n') = fst (rlp_bytes (tag_env low_bytes) (Leaf [1] [7]))"
  using rain_node_encoding_round_trip [OF tag.trie_rlp_axioms rep_leaf] by simp

text \<open>C21. The root hash commits to the contents: if two tries have the same root
  hash then they have the same contents, or the encodings of two of their nodes,
  different from each other, have the same hash.\<close>

theorem rain_root_binds_contents:
  assumes "trie_rlp E" and "mpt_reps E D T m" and "mpt_reps E D' T' m'"
    and "fst (mpt_root_hash E T) = fst (mpt_root_hash E T')"
  shows "m = m' \<or> (\<exists>a b. a \<in> node_encodings E m \<and> b \<in> node_encodings E m' \<and> a \<noteq> b \<and> te_hasher E a = te_hasher E b)"
proof -
  consider "m = Map.empty" "m' = Map.empty"
    | t t' where "pwf t" "m = plookup t" "pwf t'" "m' = plookup t'" "te_hasher E (penc E t) = te_hasher E (penc E t')"
    using mpt_root_hash_reps [OF assms(2)] mpt_root_hash_reps [OF assms(3)] assms(4) by auto
  then show ?thesis
  proof cases
    case 2
    have "m = m' \<or> collision E t t'"
    proof (cases "penc E t = penc E t'")
      case True
      then show ?thesis using trie_rlp.penc_inject [OF assms(1) 2(1,3)] 2 by auto
    next
      case False
      then show ?thesis using 2(5) unfolding collision_def by (metis imageI subtries_self)
    qed
    then show ?thesis using 2 unfolding collision_def node_encodings_def by blast
  qed simp
qed

definition long_value :: "byte \<Rightarrow> bytes" where
  "long_value b = replicate 30 1 @ [b]"

lemma long_value_ne [simp]: "long_value b \<noteq> []"
  by (simp add: long_value_def)

lemma long_leaf_hash:
  "te_hasher (tag_env low_bytes) (penc (tag_env low_bytes) (PLeaf k (long_value a))) =
   te_hasher (tag_env low_bytes) (penc (tag_env low_bytes) (PLeaf k (long_value b)))"
proof -
  define pre where "pre = tag_list [] @ tag_data (mpt_key_bytes k True) @ 0 # replicate 31 1 @ 0 # replicate 30 (1 :: byte)"
  have "penc (tag_env low_bytes) (PLeaf k (long_value x)) = 1 # 1 # 1 # tl pre @ [x]" for x
    by (simp add: pre_def tag_env_def tag_list_def tag_data_def long_value_def numeral_2_eq_2)
  moreover have "32 \<le> length (tl pre)" by (simp add: pre_def tag_list_def)
  ultimately show ?thesis by (simp add: tag_env_def low_bytes_def)
qed

text \<open>Two values that differ after the bytes this hash looks at.\<close>

theorem rain_root_binds_contents_witness:
  "\<exists>a b. a \<in> node_encodings (tag_env low_bytes) (plookup (PLeaf [1, 2] (long_value 7))) \<and>
     b \<in> node_encodings (tag_env low_bytes) (plookup (PLeaf [1, 2] (long_value 8))) \<and> a \<noteq> b \<and>
     te_hasher (tag_env low_bytes) a = te_hasher (tag_env low_bytes) b"
proof -
  have r: "fst (mpt_root_hash (tag_env low_bytes) (leaf_tree (long_value 7))) =
      fst (mpt_root_hash (tag_env low_bytes) (leaf_tree (long_value 8)))"
    using long_leaf_hash [of "[1, 2]" 7 8]
    by (simp add: mpt_root_hash_def leaf_tree_def ext_hash_def TrieNodeExt_new_def clear_cache_def hash_of_def Let_def)
  have "plookup (PLeaf [1, 2] (long_value 7)) [1, 2] \<noteq> plookup (PLeaf [1, 2] (long_value 8)) [1, 2]"
    by (simp add: long_value_def)
  then have "plookup (PLeaf [1, 2] (long_value 7)) \<noteq> plookup (PLeaf [1, 2] (long_value 8))" by metis
  then show ?thesis
    using rain_root_binds_contents [OF tag.trie_rlp_axioms leaf_tree_reps leaf_tree_reps r] by simp
qed

end
