(* ===== verification/RainCommit.thy ===== *)
theory RainCommit
  imports RainCodec
begin

text \<open>
  Committing a RainBlock trie.  A subtree is durable when its hash can be loaded
  from the store.  The relation \<open>ok_ext\<close> describes the trees a commit works on:
  which nodes are settled (written, or inside their parent), which are still to be
  encoded, and where marks of \<open>loaded_node\<close> and \<open>exile_nodes\<close> may stand.  A commit
  settles every node: the subtrees below the top layers become durable, and
  what is cut off is durable.
\<close>

section \<open>Loading from a store\<close>

type_synonym loader = "h256 \<Rightarrow> TrieNodeExt result"

definition extends :: "loader \<Rightarrow> loader \<Rightarrow> bool" where
  "extends M L \<longleftrightarrow> (\<forall>h e. L h = Inr e \<longrightarrow> M h = Inr e)"

definition in_store :: "trie_env \<Rightarrow> loader \<Rightarrow> ptrie \<Rightarrow> bool" where
  "in_store E L t \<longleftrightarrow> L (te_hasher E (penc E t)) = Inr (as_loaded E t)"

definition durable :: "trie_env \<Rightarrow> loader \<Rightarrow> ptrie \<Rightarrow> bool" where
  "durable E L t \<longleftrightarrow> rep_child E L (Ref (te_hasher E (penc E t))) (Some t)"

definition pput :: "trie_env \<Rightarrow> ptrie \<Rightarrow> h256 \<times> bytes" where
  "pput E t = (te_hasher E (penc E t), penc E t)"

fun pchildren :: "ptrie \<Rightarrow> ptrie set" where
  "pchildren (PLeaf k v) = {}"
| "pchildren (PBranch ts v) = {t. Some t \<in> set ts}"
| "pchildren (PExt k t) = {t}"

lemma rep_mono:
  shows "rep_node E L n t \<Longrightarrow> extends M L \<Longrightarrow> rep_node E M n t"
    and "rep_child E L c y \<Longrightarrow> extends M L \<Longrightarrow> rep_child E M c y"
    and "rep_ext E L e t \<Longrightarrow> extends M L \<Longrightarrow> rep_ext E M e t"
proof (induction rule: rep_node_rep_child_rep_ext.inducts)
  case (rep_branch cs ts v)
  then show ?case by (auto simp: list_all2_conv_all_nth intro: rep_node_rep_child_rep_ext.rep_branch)
next
  case (rep_ref h e t)
  then show ?case by (auto simp: extends_def intro: rep_node_rep_child_rep_ext.rep_ref)
qed (auto intro: rep_intros)

lemma durable_mono: "durable E L t \<Longrightarrow> extends M L \<Longrightarrow> durable E M t"
  unfolding durable_def by (rule rep_mono(2))

lemma durable_ref: "rep_child E L (Ref h) (Some t) \<Longrightarrow> h = te_hasher E (penc E t) \<and> durable E L t"
  by (auto simp: durable_def rep_child_ref)

lemma subtries_pchildren: "u \<in> pchildren t \<Longrightarrow> subtries u \<subseteq> subtries t"
  by (cases t) force+

lemma pwf_pchildren: "pwf t \<Longrightarrow> u \<in> pchildren t \<Longrightarrow> pwf u"
  by (cases t) auto

lemma pwf_subtries: "pwf t \<Longrightarrow> s \<in> subtries t \<Longrightarrow> pwf s"
  by (induction t) (fastforce split: option.splits)+

context trie_rlp
begin

lemma small_pchildren:
  assumes "length (penc E t) < 32" "u \<in> pchildren t"
  shows "length (penc E u) < 32"
proof (rule ccontr)
  assume "\<not> length (penc E u) < 32"
  then have "pref E (penc E u) = te_data E (digest_bytes (te_hasher E (penc E u)))" by (simp add: pref_def)
  then have "32 \<le> length (pref E (penc E u))"
    using data_longer [of "digest_bytes (te_hasher E (penc E u))"] by (simp add: digest_bytes_def)
  moreover have "length (pref E (penc E u)) < length (penc E t)"
  proof (cases t)
    case (PBranch ts v)
    then have "pref E (penc E u) \<in> set (map (penc_child E) ts @ [te_data E v])"
      using assms(2) by (force simp: penc_child_def image_iff intro: bexI [of _ "Some u"])
    then show ?thesis unfolding PBranch penc_branch by (rule list_longer)
  next
    case (PExt k s)
    then show ?thesis using assms(2) list_longer [of _ "[te_data E (mpt_key_bytes k False), pref E (penc E s)]"] by simp
  qed (use assms(2) in simp)
  ultimately show False using assms(1) by simp
qed

lemma child_as_read_rep:
  assumes "32 \<le> length (penc E u) \<Longrightarrow> durable E L u" and "length (penc E u) < 32 \<Longrightarrow> rep_node E L (shallow E u) u"
  shows "rep_child E L (child_as_read E (penc E u) (shallow E u)) (Some u)"
  using assms by (auto simp: child_as_read_def durable_def cache_ok_def clear_cache_def intro!: rep_owned rep_extI)

lemma rep_shallow: "(\<And>u. u \<in> pchildren t \<Longrightarrow> 32 \<le> length (penc E u) \<Longrightarrow> durable E L u) \<Longrightarrow> rep_node E L (shallow E t) t"
proof (induction t)
  case (PLeaf k v)
  then show ?case by (simp add: rep_leaf)
next
  case (PBranch ts v)
  have "rep_child E L (shallow_child E x) x" if "x \<in> set ts" for x
  proof (cases x)
    case (Some u)
    have "rep_node E L (shallow E u) u" if "length (penc E u) < 32"
      using PBranch.IH [of x u] \<open>x \<in> set ts\<close> Some small_pchildren [OF that] by fastforce
    then show ?thesis using PBranch.prems [of u] \<open>x \<in> set ts\<close> Some by (simp add: shallow_child_def child_as_read_rep)
  qed (simp add: shallow_child_def rep_null)
  then show ?case unfolding shallow_branch by (intro rep_branch) (simp add: list_all2_conv_all_nth)
next
  case (PExt k s)
  have "rep_node E L (shallow E s) s" if "length (penc E s) < 32"
    using PExt.IH small_pchildren [OF that] by fastforce
  then show ?case using PExt.prems [of s] by (auto intro!: rep_extension child_as_read_rep)
qed

lemma as_loaded_rep:
  "(\<And>u. u \<in> pchildren t \<Longrightarrow> 32 \<le> length (penc E u) \<Longrightarrow> durable E L u) \<Longrightarrow> rep_ext E L (as_loaded E t) t"
  unfolding as_loaded_def by (intro rep_extI rep_shallow) (auto simp: cache_ok_def clear_cache_def)

lemma durableI:
  assumes "in_store E L t" "32 \<le> length (penc E t)" "\<And>u. u \<in> pchildren t \<Longrightarrow> 32 \<le> length (penc E u) \<Longrightarrow> durable E L u"
  shows "durable E L t"
  using as_loaded_rep [OF assms(3)] assms(1,2) unfolding durable_def in_store_def by (intro rep_ref) auto

end

section \<open>Trees a commit works on\<close>

text \<open>The status of a settled node: small and inside its parent, or committed; below
  the top layers it is then durable, or still waiting in \<open>exile_nodes\<close>.\<close>

definition settled :: "trie_env \<Rightarrow> loader \<Rightarrow> nat \<Rightarrow> bool \<Rightarrow> nat \<Rightarrow> node_cache \<Rightarrow> ptrie \<Rightarrow> bool" where
  "settled E L N x d c t \<longleftrightarrow> nc_rlp_encode c \<noteq> None \<and>
     (nc_commited c = Light \<and> length (penc E t) < 32 \<or>
      nc_commited c = Committed \<and> (32 \<le> length (penc E t) \<or> d = 0) \<and>
        (N \<le> d \<longrightarrow> durable E L t \<or> x \<and> in_exile_nodes c))"

text \<open>A node that has been changed, and whether it has been encoded since.\<close>

definition unsettled :: "trie_env \<Rightarrow> node_cache \<Rightarrow> ptrie \<Rightarrow> bool" where
  "unsettled E c t \<longleftrightarrow>
     nc_commited c = Working \<and> nc_rlp_encode c = None \<or>
     nc_commited c = Pending \<and> nc_rlp_encode c \<noteq> None \<and> 32 \<le> length (penc E t)"

text \<open>\<open>w\<close> allows unsettled nodes, \<open>x\<close> allows committed nodes that wait in \<open>exile_nodes\<close>.\<close>

inductive ok_node :: "trie_env \<Rightarrow> loader \<Rightarrow> nat \<Rightarrow> bool \<Rightarrow> bool \<Rightarrow> nat \<Rightarrow> TrieNode \<Rightarrow> ptrie \<Rightarrow> bool"
and ok_child :: "trie_env \<Rightarrow> loader \<Rightarrow> nat \<Rightarrow> bool \<Rightarrow> bool \<Rightarrow> nat \<Rightarrow> ChildRef \<Rightarrow> ptrie option \<Rightarrow> bool"
and ok_ext :: "trie_env \<Rightarrow> loader \<Rightarrow> nat \<Rightarrow> bool \<Rightarrow> bool \<Rightarrow> nat \<Rightarrow> TrieNodeExt \<Rightarrow> ptrie \<Rightarrow> bool"
for E L N where
  ok_leaf: "ok_node E L N w x d (Leaf k v) (PLeaf k v)"
| ok_branch: "list_all2 (ok_child E L N w x (Suc d)) cs ts \<Longrightarrow> ok_node E L N w x d (Branch cs v) (PBranch ts v)"
| ok_extension: "ok_child E L N w x (Suc d) c (Some t) \<Longrightarrow> ok_node E L N w x d (Extension k c) (PExt k t)"
| ok_null: "ok_child E L N w x d Null None"
| ok_ref: "rep_child E L (Ref h) (Some t) \<Longrightarrow> ok_child E L N w x d (Ref h) (Some t)"
| ok_owned: "ok_ext E L N w x d e t \<Longrightarrow> ok_child E L N w x d (Owned e) (Some t)"
| ok_settled: "ok_node E L N False x d n t \<Longrightarrow> cache_ok E c t \<Longrightarrow> settled E L N x d c t \<Longrightarrow>
    (in_loaded_node c \<longrightarrow> N \<le> Suc d) \<Longrightarrow> ok_ext E L N w x d (TrieNodeExt n c) t"
| ok_unsettled: "ok_node E L N True x d n t \<Longrightarrow> cache_ok E c t \<Longrightarrow> unsettled E c t \<Longrightarrow>
    (in_loaded_node c \<longrightarrow> N \<le> Suc d) \<Longrightarrow> ok_ext E L N True x d (TrieNodeExt n c) t"

inductive_simps ok_node_pleaf: "ok_node E L N w x d n (PLeaf k v)"
inductive_simps ok_node_pbranch: "ok_node E L N w x d n (PBranch ts v)"
inductive_simps ok_node_pext: "ok_node E L N w x d n (PExt k t)"
inductive_simps ok_child_null: "ok_child E L N w x d Null y"
inductive_simps ok_child_owned: "ok_child E L N w x d (Owned e) y"
inductive_simps ok_child_ref: "ok_child E L N w x d (Ref h) y"
inductive_simps ok_child_none: "ok_child E L N w x d c None"
inductive_simps ok_ext_iff: "ok_ext E L N w x d (TrieNodeExt n c) t"

lemma ok_rep:
  shows "ok_node E L N w x d n t \<Longrightarrow> rep_node E L n t"
    and "ok_child E L N w x d c y \<Longrightarrow> rep_child E L c y"
    and "ok_ext E L N w x d e t \<Longrightarrow> rep_ext E L e t"
proof (induction rule: ok_node_ok_child_ok_ext.inducts)
  case (ok_branch w x d cs ts v)
  then show ?case by (auto simp: list_all2_conv_all_nth intro: rep_branch)
qed (auto intro: rep_intros)

lemma ok_weaken:
  shows "ok_node E L N w x d n t \<Longrightarrow> \<not> w \<Longrightarrow> ok_node E L N True x d n t"
    and "ok_child E L N w x d c y \<Longrightarrow> \<not> w \<Longrightarrow> ok_child E L N True x d c y"
    and "ok_ext E L N w x d e t \<Longrightarrow> \<not> w \<Longrightarrow> ok_ext E L N True x d e t"
proof (induction rule: ok_node_ok_child_ok_ext.inducts)
  case (ok_branch w x d cs ts v)
  then show ?case by (auto simp: list_all2_conv_all_nth intro: ok_node_ok_child_ok_ext.ok_branch)
qed (auto intro: ok_node_ok_child_ok_ext.intros)

lemma ok_exile_weaken:
  shows "ok_node E L N w x d n t \<Longrightarrow> \<not> x \<Longrightarrow> ok_node E L N w True d n t"
    and "ok_child E L N w x d c y \<Longrightarrow> \<not> x \<Longrightarrow> ok_child E L N w True d c y"
    and "ok_ext E L N w x d e t \<Longrightarrow> \<not> x \<Longrightarrow> ok_ext E L N w True d e t"
proof (induction rule: ok_node_ok_child_ok_ext.inducts)
  case (ok_branch w x d cs ts v)
  then show ?case by (auto simp: list_all2_conv_all_nth intro: ok_node_ok_child_ok_ext.ok_branch)
next
  case (ok_settled x d n t c w)
  then show ?case by (intro ok_node_ok_child_ok_ext.ok_settled) (auto simp: settled_def)
qed (auto intro: ok_node_ok_child_ok_ext.intros)

lemma ok_mono:
  shows "ok_node E L N w x d n t \<Longrightarrow> extends M L \<Longrightarrow> ok_node E M N w x d n t"
    and "ok_child E L N w x d c y \<Longrightarrow> extends M L \<Longrightarrow> ok_child E M N w x d c y"
    and "ok_ext E L N w x d e t \<Longrightarrow> extends M L \<Longrightarrow> ok_ext E M N w x d e t"
proof (induction rule: ok_node_ok_child_ok_ext.inducts)
  case (ok_branch w x d cs ts v)
  then show ?case by (auto simp: list_all2_conv_all_nth intro: ok_node_ok_child_ok_ext.ok_branch)
next
  case (ok_ref h t w x d)
  then show ?case by (auto intro: ok_node_ok_child_ok_ext.ok_ref rep_mono)
next
  case (ok_settled x d n t c w)
  then show ?case
    by (intro ok_node_ok_child_ok_ext.ok_settled) (auto simp: settled_def intro: durable_mono)
qed (auto intro: ok_node_ok_child_ok_ext.intros)

section \<open>Encoding settles small nodes\<close>

lemma settled_hash [simp]: "settled E L N x d (c\<lparr>nc_hash := h\<rparr>) t = settled E L N x d c t"
  by (simp add: settled_def)

lemma unsettled_hash [simp]: "unsettled E (c\<lparr>nc_hash := h\<rparr>) t = unsettled E c t"
  by (simp add: unsettled_def)

lemma hash_of_ok:
  assumes "ok_ext E L N w x d e t"
  shows "\<exists>e'. hash_of E (penc E t) e = (te_hasher E (penc E t), e') \<and> ok_ext E L N w x d e' t \<and>
    ext_node e' = ext_node e \<and> nc_rlp_encode (ext_cache e') = nc_rlp_encode (ext_cache e) \<and> nc_commited (ext_cache e') = nc_commited (ext_cache e)"
proof (cases "nc_hash (ext_cache e)")
  case None
  show ?thesis
    using assms None by (cases e) (auto simp: hash_of_def Let_def ok_ext_iff cache_ok_def)
next
  case (Some h)
  then show ?thesis using assms by (cases e) (auto simp: hash_of_def ok_ext_iff cache_ok_def)
qed

text \<open>A tree that is encoded: it stays as it was, and a small tree is settled.\<close>

definition encoded :: "trie_env \<Rightarrow> loader \<Rightarrow> nat \<Rightarrow> bool \<Rightarrow> bool \<Rightarrow> nat \<Rightarrow> ptrie \<Rightarrow> TrieNodeExt \<Rightarrow> bool" where
  "encoded E L N w x d t e \<longleftrightarrow> ok_ext E L N w x d e t \<and> nc_rlp_encode (ext_cache e) = Some (penc E t) \<and>
     (length (penc E t) < 32 \<longrightarrow> ok_ext E L N False x d e t)"

context trie_rlp
begin

lemma encode_ok:
  shows "ok_node E L N w x d n t \<Longrightarrow> \<exists>n'. rlp_bytes E n = (penc E t, n') \<and> ok_node E L N w x d n' t \<and>
      (length (penc E t) < 32 \<longrightarrow> ok_node E L N False x d n' t)"
    and "ok_child E L N w x d c y \<Longrightarrow> \<exists>c'. child_rlp_append E c = (penc_child E y, c') \<and> ok_child E L N w x d c' y \<and>
      ((\<forall>u. y = Some u \<longrightarrow> length (penc E u) < 32) \<longrightarrow> ok_child E L N False x d c' y)"
    and "ok_ext E L N w x d e t \<Longrightarrow> \<exists>e'. get_rlp_encode E e = (penc E t, e') \<and> encoded E L N w x d t e'"
proof (induction rule: ok_node_ok_child_ok_ext.inducts)
  case (ok_leaf w x d k v)
  then show ?case by (auto intro: ok_node_ok_child_ok_ext.ok_leaf)
next
  case (ok_branch w x d cs ts v)
  have "\<exists>cs'. children_rlp_append E cs = (map (penc_child E) ts, cs') \<and> list_all2 (ok_child E L N w x (Suc d)) cs' ts \<and>
      ((\<forall>u. Some u \<in> set ts \<longrightarrow> length (penc E u) < 32) \<longrightarrow> list_all2 (ok_child E L N False x (Suc d)) cs' ts)"
    using ok_branch by (induction rule: list_all2_induct) auto
  then show ?case using small_pchildren [of "PBranch ts v"]
    by (auto simp: penc_branch simp del: penc.simps intro: ok_node_ok_child_ok_ext.ok_branch)
next
  case (ok_extension w x d c t k)
  then show ?case using small_pchildren [of "PExt k t" t]
    by (auto simp: penc_child_def intro: ok_node_ok_child_ok_ext.ok_extension)
next
  case (ok_null w x d)
  then show ?case by (auto simp: penc_child_def intro: ok_node_ok_child_ok_ext.ok_null)
next
  case (ok_ref h t w x d)
  then have "h = te_hasher E (penc E t)" "32 \<le> length (penc E t)" by (auto simp: rep_child_ref)
  then show ?case using ok_ref by (auto simp: penc_child_def pref_def intro: ok_node_ok_child_ok_ext.ok_ref)
next
  case (ok_owned w x d e t)
  then obtain e' where e': "get_rlp_encode E e = (penc E t, e')" "encoded E L N w x d t e'" by blast
  show ?case
  proof (cases "length (penc E t) < 32")
    case True
    then show ?thesis using e' by (auto simp: penc_child_def pref_def encoded_def intro: ok_node_ok_child_ok_ext.ok_owned)
  next
    case False
    then show ?thesis using e' hash_of_ok [of E L N w x d e' t]
      by (auto simp: penc_child_def pref_def encoded_def intro: ok_node_ok_child_ok_ext.ok_owned)
  qed
next
  case (ok_settled x d n t c w)
  obtain b where b: "nc_rlp_encode c = Some b" using ok_settled by (auto simp: settled_def)
  then show ?case using ok_settled by (auto simp: encoded_def cache_ok_def intro: ok_node_ok_child_ok_ext.ok_settled)
next
  case (ok_unsettled x d n t c)
  then obtain n' where n': "rlp_bytes E n = (penc E t, n')" "ok_node E L N True x d n' t"
      "length (penc E t) < 32 \<longrightarrow> ok_node E L N False x d n' t" by blast
  show ?case
  proof (cases "nc_commited c = Pending")
    case True
    then obtain b where "nc_rlp_encode c = Some b" "32 \<le> length (penc E t)" using ok_unsettled by (auto simp: unsettled_def)
    then show ?thesis using ok_unsettled by (auto simp: encoded_def cache_ok_def intro: ok_node_ok_child_ok_ext.ok_unsettled)
  next
    case False
    then have nb: "nc_rlp_encode c = None" using ok_unsettled by (auto simp: unsettled_def)
    let ?c = "c\<lparr>nc_rlp_encode := Some (penc E t), nc_commited := (if length (penc E t) < 32 then Light else Pending)\<rparr>"
    have co: "cache_ok E ?c t" "in_loaded_node ?c \<longrightarrow> N \<le> Suc d" using ok_unsettled by (auto simp: cache_ok_def)
    have "encoded E L N True x d t (TrieNodeExt n' ?c)"
    proof (cases "length (penc E t) < 32")
      case True
      then have "settled E L N x d ?c t" by (simp add: settled_def)
      then show ?thesis using n' co True by (simp add: encoded_def ok_ext_iff)
    next
      case False
      then have "unsettled E ?c t" by (simp add: unsettled_def)
      then show ?thesis using n' co False by (simp add: encoded_def ok_ext_iff)
    qed
    then show ?thesis using n' nb by simp
  qed
qed

lemma ext_hash_ok:
  assumes "ok_ext E L N w x d e t"
  shows "\<exists>e'. ext_hash E e = (te_hasher E (penc E t), e') \<and> ok_ext E L N w x d e' t"
proof (cases "nc_hash (ext_cache e)")
  case None
  obtain e1 where "get_rlp_encode E e = (penc E t, e1)" "ok_ext E L N w x d e1 t"
    using encode_ok(3) [OF assms] by (auto simp: encoded_def)
  then show ?thesis using None hash_of_ok [of E L N w x d e1 t] by (auto simp: ext_hash_def)
next
  case (Some h)
  then show ?thesis using hash_of_ok [OF assms] assms by (auto simp: ext_hash_def hash_of_def)
qed

lemma children_durable:
  assumes "ok_node E L N False False d n t" "N \<le> Suc d" "u \<in> pchildren t" "32 \<le> length (penc E u)"
  shows "durable E L u"
proof -
  have c: "durable E L u" if "ok_child E L N False False (Suc d) c (Some u)" for c
    using that assms(2,4) by cases (auto simp: ok_ext_iff settled_def dest: durable_ref elim!: ok_ext.cases)
  show ?thesis
  proof (cases t)
    case (PBranch ts v)
    then obtain i where "i < length ts" "ts ! i = Some u" using assms(3) by (auto simp: in_set_conv_nth)
    then show ?thesis using assms(1) c unfolding PBranch by (auto simp: ok_node_pbranch list_all2_conv_all_nth)
  next
    case (PExt k s)
    then show ?thesis using assms(1,3) c by (auto simp: ok_node_pext)
  qed (use assms(3) in simp)
qed

end

section \<open>Draining the lists of nodes\<close>

text \<open>The outcome of a walk that writes: the operations are those of subtries in \<open>S\<close>,
  and once these are in the store the result satisfies \<open>Q\<close>.\<close>

definition outcome :: "trie_env \<Rightarrow> loader \<Rightarrow> ptrie set \<Rightarrow> (h256 \<times> bytes) list \<Rightarrow> (loader \<Rightarrow> 'a \<Rightarrow> bool) \<Rightarrow> 'a \<times> (h256 \<times> bytes) list \<Rightarrow> bool" where
  "outcome E L S ops Q r \<longleftrightarrow> (\<exists>ss. snd r = ops @ map (pput E) ss \<and> set ss \<subseteq> S \<and>
     (\<forall>M. extends M L \<longrightarrow> (\<forall>s\<in>set ss. in_store E M s) \<longrightarrow> Q M (fst r)))"

definition full :: "trie_env \<Rightarrow> loader \<Rightarrow> loader \<Rightarrow> ptrie set \<Rightarrow> bool" where
  "full E V L S \<longleftrightarrow> extends V L \<and> (\<forall>s\<in>S. in_store E V s)"

lemma outcome_mono: "outcome E L S ops Q r \<Longrightarrow> S \<subseteq> S' \<Longrightarrow> outcome E L S' ops Q r"
  unfolding outcome_def by blast

lemma outcome_nothing: "(\<And>M. extends M L \<Longrightarrow> Q M y) \<Longrightarrow> outcome E L S ops Q (y, ops)"
  unfolding outcome_def by (intro exI [of _ "[]"]) simp

lemma outcome_map: "outcome E L S ops Q (y, ops') \<Longrightarrow> (\<And>M. extends M L \<Longrightarrow> Q M y \<Longrightarrow> Q' M y') \<Longrightarrow> outcome E L S ops Q' (y', ops')"
  unfolding outcome_def by (metis fst_conv snd_conv)

lemma outcome_seq:
  assumes "outcome E L S ops Q (y, ops1)" "outcome E L S' ops1 Q' (y', ops2)"
    and "\<And>M. extends M L \<Longrightarrow> Q M y \<Longrightarrow> Q' M y' \<Longrightarrow> Q'' M z"
  shows "outcome E L (S \<union> S') ops Q'' (z, ops2)"
proof -
  obtain ss ss' where "ops1 = ops @ map (pput E) ss" "set ss \<subseteq> S" "\<And>M. extends M L \<Longrightarrow> \<forall>s\<in>set ss. in_store E M s \<Longrightarrow> Q M y"
      "ops2 = ops1 @ map (pput E) ss'" "set ss' \<subseteq> S'" "\<And>M. extends M L \<Longrightarrow> \<forall>s\<in>set ss'. in_store E M s \<Longrightarrow> Q' M y'"
    using assms(1,2) unfolding outcome_def by auto
  then show ?thesis using assms(3) unfolding outcome_def by (intro exI [of _ "ss @ ss'"]) auto
qed

lemma outcome_put:
  assumes "outcome E L S ops Q (y, ops1)" "t \<in> S" "\<And>M. extends M L \<Longrightarrow> in_store E M t \<Longrightarrow> Q M y \<Longrightarrow> Q' M z"
  shows "outcome E L S ops Q' (z, ops1 @ [pput E t])"
proof -
  obtain ss where "ops1 = ops @ map (pput E) ss" "set ss \<subseteq> S" "\<And>M. extends M L \<Longrightarrow> \<forall>s\<in>set ss. in_store E M s \<Longrightarrow> Q M y"
    using assms(1) unfolding outcome_def by auto
  then show ?thesis using assms(2,3) unfolding outcome_def by (intro exI [of _ "ss @ [t]"]) auto
qed

lemma outcome_full: "outcome E L S ops Q (y, ops') \<Longrightarrow> full E V L S \<Longrightarrow> Q V y"
  unfolding outcome_def full_def by (metis fst_conv subsetD)

lemma full_sub: "full E V L S \<Longrightarrow> S' \<subseteq> S \<Longrightarrow> full E V L S'"
  unfolding full_def by blast

definition child_subtries :: "ptrie option \<Rightarrow> ptrie set" where
  "child_subtries y = (case y of Some t \<Rightarrow> subtries t | None \<Rightarrow> {})"

definition children_subtries :: "ptrie option list \<Rightarrow> ptrie set" where
  "children_subtries ts = (\<Union>y \<in> set ts. child_subtries y)"

lemma child_subtries_simps [simp]: "child_subtries None = {}" "child_subtries (Some t) = subtries t"
  by (simp_all add: child_subtries_def)

lemma children_subtries_simps [simp]: "children_subtries [] = {}" "children_subtries (y # ts) = child_subtries y \<union> children_subtries ts"
  by (simp_all add: children_subtries_def)

lemma subtries_PBranch: "subtries (PBranch ts v) = insert (PBranch ts v) (children_subtries ts)"
  by (auto simp: children_subtries_def child_subtries_def split: option.splits)

declare subtries.simps(2) [simp del] subtries_PBranch [simp]

context trie_rlp
begin

lemma exile_clear_ok:
  assumes n: "ok_node E M N w' False d n t" and c: "cache_ok E c t" "in_loaded_node c \<longrightarrow> N \<le> Suc d"
    and st: "w' = False \<and> settled E L N x d c t \<or> w' \<and> w \<and> unsettled E c t"
    and ds: "extends M L" "in_exile_nodes c \<Longrightarrow> in_store E M t" and N: "0 < N"
  shows "ok_ext E M N w False d (TrieNodeExt n (c\<lparr>in_exile_nodes := False\<rparr>)) t"
  using st
proof
  assume s: "w' = False \<and> settled E L N x d c t"
  have "settled E M N False d (c\<lparr>in_exile_nodes := False\<rparr>) t"
  proof (cases "nc_commited c = Committed \<and> N \<le> d")
    case True
    then have "32 \<le> length (penc E t)" using s N by (auto simp: settled_def)
    moreover have "durable E M t" if "in_exile_nodes c"
    proof (rule durableI)
      show "in_store E M t" using ds(2) [OF that] .
      show "32 \<le> length (penc E t)" by fact
      show "durable E M u" if "u \<in> pchildren t" "32 \<le> length (penc E u)" for u
        using children_durable [of M N d n t u] n s True that by simp
    qed
    moreover have "durable E M t" if "durable E L t" using that ds(1) durable_mono by blast
    ultimately show ?thesis using s True by (auto simp: settled_def)
  next
    case False
    then show ?thesis using s by (auto simp: settled_def)
  qed
  then show ?thesis using n c s by (auto simp: ok_ext_iff cache_ok_def)
next
  assume "w' \<and> w \<and> unsettled E c t"
  then show ?thesis using n c by (auto simp: ok_ext_iff cache_ok_def unsettled_def)
qed

lemma settled_no_exile: "settled E L N x d c t \<Longrightarrow> \<not> in_exile_nodes c \<Longrightarrow> extends M L \<Longrightarrow> settled E M N False d c t"
  using durable_mono by (auto simp: settled_def)

text \<open>The step at a node once the nodes below it are drained.\<close>

lemma drain_step:
  assumes out: "outcome E L (subtries t) ops (\<lambda>M n. ok_node E M N w' False d n t) (n1, ops1)" and fu: "full E V L (subtries t)"
    and c: "cache_ok E c t" "in_loaded_node c \<longrightarrow> N \<le> Suc d"
    and st: "w' = False \<and> settled E L N x d c t \<or> w' \<and> w \<and> unsettled E c t" and N: "0 < N"
  shows "outcome E L (subtries t) ops (\<lambda>M e. ok_ext E M N w False d e t)
    (if in_exile_nodes c then
       (case ext_hash E (TrieNodeExt n1 (c\<lparr>in_exile_nodes := False\<rparr>)) of (h, e1) \<Rightarrow>
        case get_rlp_encode E e1 of (rlp_encode, e2) \<Rightarrow> (e2, ops1 @ [(h, rlp_encode)]))
     else (TrieNodeExt n1 c, ops1))"
proof (cases "in_exile_nodes c")
  case False
  have "ok_ext E M N w False d (TrieNodeExt n1 c) t" if "extends M L" "ok_node E M N w' False d n1 t" for M
    using exile_clear_ok [OF that(2) c st that(1) _ N] False by (cases c) simp
  from outcome_map [OF out, where Q' = "\<lambda>M e. ok_ext E M N w False d e t" and y' = "TrieNodeExt n1 c", OF this]
  show ?thesis using False by simp
next
  case True
  let ?e = "TrieNodeExt n1 (c\<lparr>in_exile_nodes := False\<rparr>)"
  have e: "ok_ext E M N w False d ?e t" if "extends M L" "in_store E M t" "ok_node E M N w' False d n1 t" for M
    using exile_clear_ok [OF that(3) c st that(1) _ N] that(2) by simp
  have V: "ok_ext E V N w False d ?e t" using e outcome_full [OF out fu] fu by (auto simp: full_def)
  obtain e1 where e1: "ext_hash E ?e = (te_hasher E (penc E t), e1)" "ok_ext E V N w False d e1 t" using ext_hash_ok [OF V] by blast
  obtain e2 where e2: "get_rlp_encode E e1 = (penc E t, e2)" using encode_ok(3) [OF e1(2)] by blast
  have "ok_ext E M N w False d e2 t" if "extends M L" "in_store E M t" "ok_node E M N w' False d n1 t" for M
    using ext_hash_ok [OF e [OF that]] encode_ok(3) e1(1) e2 by (fastforce simp: encoded_def)
  then have "outcome E L (subtries t) ops (\<lambda>M e. ok_ext E M N w False d e t) (e2, ops1 @ [pput E t])"
    by (intro outcome_put [OF out subtries_self])
  then show ?thesis using True e1(1) e2 by (simp add: pput_def)
qed

lemma drain_exiled_ok:
  shows "ok_node E L N w x d n t \<Longrightarrow> full E V L (subtries t) \<Longrightarrow> 0 < N \<Longrightarrow>
      outcome E L (subtries t) ops (\<lambda>M n. ok_node E M N w False d n t) (node_drain_exiled E n ops)"
    and "ok_child E L N w x d c y \<Longrightarrow> full E V L (child_subtries y) \<Longrightarrow> 0 < N \<Longrightarrow>
      outcome E L (child_subtries y) ops (\<lambda>M c. ok_child E M N w False d c y) (child_drain_exiled E c ops)"
    and "ok_ext E L N w x d e t \<Longrightarrow> full E V L (subtries t) \<Longrightarrow> 0 < N \<Longrightarrow>
      outcome E L (subtries t) ops (\<lambda>M e. ok_ext E M N w False d e t) (ext_drain_exiled E e ops)"
proof (induction arbitrary: ops and ops and ops rule: ok_node_ok_child_ok_ext.inducts)
  case (ok_leaf w x d k v)
  show ?case by (simp add: outcome_nothing ok_node_ok_child_ok_ext.ok_leaf)
next
  case (ok_branch w x d cs ts v)
  have fu: "full E V L (children_subtries ts)" by (rule full_sub [OF ok_branch(2)]) auto
  have out: "outcome E L (children_subtries ts) ops (\<lambda>M cs. list_all2 (ok_child E M N w False (Suc d)) cs ts) (children_drain_exiled E cs ops)"
    using ok_branch(1) fu ok_branch(3)
  proof (induction arbitrary: ops rule: list_all2_induct)
    case Nil
    show ?case by (simp add: outcome_nothing)
  next
    case (Cons c cs y ts)
    obtain c' ops1 where c': "child_drain_exiled E c ops = (c', ops1)" by fastforce
    obtain cs' ops2 where cs': "children_drain_exiled E cs ops1 = (cs', ops2)" by fastforce
    have fu: "full E V L (child_subtries y)" "full E V L (children_subtries ts)"
      using Cons.prems(1) by (rule full_sub, simp)+
    have "outcome E L (child_subtries y \<union> children_subtries ts) ops
        (\<lambda>M cs. list_all2 (ok_child E M N w False (Suc d)) cs (y # ts)) (c' # cs', ops2)"
    proof (rule outcome_seq)
      have "\<And>ops. outcome E L (child_subtries y) ops (\<lambda>M c. ok_child E M N w False (Suc d) c y) (child_drain_exiled E c ops)"
        using Cons.hyps(1) fu(1) Cons.prems(2) by blast
      then show "outcome E L (child_subtries y) ops (\<lambda>M c. ok_child E M N w False (Suc d) c y) (c', ops1)"
        unfolding c' [symmetric] .
      show "outcome E L (children_subtries ts) ops1 (\<lambda>M cs. list_all2 (ok_child E M N w False (Suc d)) cs ts) (cs', ops2)"
        using Cons.IH [OF fu(2) Cons.prems(2), of ops1] cs' by simp
    qed simp
    then show ?case using c' cs' by simp
  qed
  obtain cs' ops' where cs': "children_drain_exiled E cs ops = (cs', ops')" by fastforce
  have "outcome E L (children_subtries ts) ops (\<lambda>M n. ok_node E M N w False d n (PBranch ts v)) (Branch cs' v, ops')"
    by (rule outcome_map [OF out [unfolded cs']]) (rule ok_node_ok_child_ok_ext.ok_branch)
  then have "outcome E L (subtries (PBranch ts v)) ops (\<lambda>M n. ok_node E M N w False d n (PBranch ts v)) (Branch cs' v, ops')"
    by (rule outcome_mono) auto
  then show ?case using cs' by simp
next
  case (ok_extension w x d c t k)
  obtain c' ops' where c': "child_drain_exiled E c ops = (c', ops')" by fastforce
  have "full E V L (child_subtries (Some t))" by (rule full_sub [OF ok_extension.prems(1)]) auto
  then have out: "outcome E L (child_subtries (Some t)) ops (\<lambda>M c. ok_child E M N w False (Suc d) c (Some t)) (c', ops')"
    using ok_extension.IH(2) [of ops] ok_extension.prems(2) c' by simp
  have "outcome E L (child_subtries (Some t)) ops (\<lambda>M n. ok_node E M N w False d n (PExt k t)) (Extension k c', ops')"
    by (rule outcome_map [OF out]) (rule ok_node_ok_child_ok_ext.ok_extension)
  then have "outcome E L (subtries (PExt k t)) ops (\<lambda>M n. ok_node E M N w False d n (PExt k t)) (Extension k c', ops')"
    by (rule outcome_mono) auto
  then show ?case using c' by simp
next
  case (ok_null w x d)
  show ?case by (simp add: outcome_nothing ok_node_ok_child_ok_ext.ok_null)
next
  case (ok_ref h t w x d)
  then have "ok_child E M N w False d (Ref h) (Some t)" if "extends M L" for M
    using that by (intro ok_node_ok_child_ok_ext.ok_ref) (rule rep_mono(2))
  then show ?case unfolding child_drain_exiled.simps by (rule outcome_nothing)
next
  case (ok_owned w x d e t)
  obtain e' ops' where e': "ext_drain_exiled E e ops = (e', ops')" by fastforce
  have out: "outcome E L (subtries t) ops (\<lambda>M e. ok_ext E M N w False d e t) (e', ops')"
    using ok_owned.IH(2) [of ops] ok_owned.prems e' by simp
  have "outcome E L (subtries t) ops (\<lambda>M c. ok_child E M N w False d c (Some t)) (Owned e', ops')"
    by (rule outcome_map [OF out]) (rule ok_node_ok_child_ok_ext.ok_owned)
  then show ?case using e' by simp
next
  case (ok_settled x d n t c w)
  obtain n1 ops1 where n1: "node_drain_exiled E n ops = (n1, ops1)" by fastforce
  then have "outcome E L (subtries t) ops (\<lambda>M n. ok_node E M N False False d n t) (n1, ops1)"
    using ok_settled.IH(2) [of ops] ok_settled.prems by simp
  from drain_step [OF this ok_settled.prems(1) ok_settled.IH(3) ok_settled.IH(5) _ ok_settled.prems(2)]
  show ?case using ok_settled.IH(4) n1 by (simp del: get_rlp_encode.simps)
next
  case (ok_unsettled x d n t c)
  obtain n1 ops1 where n1: "node_drain_exiled E n ops = (n1, ops1)" by fastforce
  then have "outcome E L (subtries t) ops (\<lambda>M n. ok_node E M N True False d n t) (n1, ops1)"
    using ok_unsettled.IH(2) [of ops] ok_unsettled.prems by simp
  from drain_step [OF this ok_unsettled.prems(1) ok_unsettled.IH(3) ok_unsettled.IH(5) _ ok_unsettled.prems(2)]
  show ?case using ok_unsettled.IH(4) n1 by (simp del: get_rlp_encode.simps)
qed

end

end
