(* ===== verification/RainFlush.thy ===== *)
theory RainFlush
  imports RainCommit
begin

text \<open>
  What a commit of a RainBlock trie leaves, and what is read back from it.  The
  walk of \<open>commit\<close> succeeds and settles every node; the walk of
  \<open>flush_all\<close> writes the top layers as well, so that the whole trie can be loaded
  from its root hash.  The last part connects this with the operations on the
  store: a commit keeps the contents, and after \<open>commit\<close> and \<open>flush_all\<close> a tree opened
  on the store has the same contents.
\<close>

section \<open>Truncation and the marks of loaded nodes\<close>

context trie_rlp
begin

lemma large_child_durable:
  assumes "ok_child E L N False False d c (Some u)" "N \<le> d" "32 \<le> length (penc E u)"
  shows "durable E L u"
  using assms by cases (auto simp: ok_ext_iff settled_def dest: durable_ref elim!: ok_ext.cases)

lemma truncate_child_ok:
  assumes "ok_child E L N False False d c y" "N \<le> d"
  shows "ok_child E L N False False d (ChildRef_truncate E c) y"
proof (cases c)
  case (Owned e)
  then obtain u where u: "y = Some u" "ok_ext E L N False False d e u" using assms(1) by (auto simp: ok_child_owned)
  obtain e' where e': "get_rlp_encode E e = (penc E u, e')" "ok_ext E L N False False d e' u"
    using encode_ok(3) [OF u(2)] by (auto simp: encoded_def)
  show ?thesis
  proof (cases "length (penc E u) < 32")
    case True
    then show ?thesis using Owned u e' by (simp add: ChildRef_truncate_def is_small_node_def ok_owned)
  next
    case False
    then have "durable E L u" using large_child_durable [of L N d c u] assms u by simp
    then show ?thesis using Owned u e' False ext_hash_ok [OF e'(2)]
      by (auto simp: ChildRef_truncate_def is_small_node_def durable_def intro!: ok_ref)
  qed
qed (use assms in \<open>simp_all add: ChildRef_truncate_def\<close>)

lemma truncate_ok:
  assumes "ok_ext E L N False False d e t" "N \<le> Suc d"
  shows "ok_ext E L N False False d (TrieNodeExt_truncate E e) t"
proof -
  obtain n c where e: "e = TrieNodeExt n c" by (cases e)
  have "ok_node E L N False False d n t" using assms(1) e by (auto simp: ok_ext_iff)
  then have "ok_node E L N False False d (ext_node (TrieNodeExt_truncate E e)) t"
    unfolding e using assms(2) truncate_child_ok
    by cases (auto simp: TrieNodeExt_truncate_def list_all2_conv_all_nth intro!: ok_leaf ok_branch ok_extension)
  then show ?thesis using assms(1) unfolding e by (auto simp: TrieNodeExt_truncate_def ok_ext_iff)
qed

lemma drain_loaded_ok:
  shows "ok_node E L N w x d n t \<Longrightarrow> \<not> w \<Longrightarrow> \<not> x \<Longrightarrow> ok_node E L N False False d (node_drain_loaded E n) t"
    and "ok_child E L N w x d c y \<Longrightarrow> \<not> w \<Longrightarrow> \<not> x \<Longrightarrow> ok_child E L N False False d (child_drain_loaded E c) y"
    and "ok_ext E L N w x d e t \<Longrightarrow> \<not> w \<Longrightarrow> \<not> x \<Longrightarrow> ok_ext E L N False False d (ext_drain_loaded E e) t"
proof (induction rule: ok_node_ok_child_ok_ext.inducts)
  case (ok_branch w x d cs ts v)
  then show ?case by (auto simp: list_all2_conv_all_nth intro!: ok_node_ok_child_ok_ext.ok_branch)
next
  case (ok_settled x d n t c w)
  let ?e = "TrieNodeExt (node_drain_loaded E n) (c\<lparr>in_loaded_node := False\<rparr>)"
  have "ok_ext E L N False False d ?e t"
    using ok_settled by (auto simp: ok_ext_iff settled_def cache_ok_def)
  then show ?case using ok_settled truncate_ok [of L N d ?e t] by (auto simp: Let_def)
qed (auto intro: ok_node_ok_child_ok_ext.intros)

end

section \<open>The walk of commit and of flush\<close>

text \<open>What the walk reaches: every node is settled, and the walk over the top layers
  makes what it visits durable; the root, which may be small, is in the store.\<close>

definition saved_node :: "trie_env \<Rightarrow> nat \<Rightarrow> bool \<Rightarrow> nat \<Rightarrow> ptrie \<Rightarrow> loader \<Rightarrow> TrieNode \<Rightarrow> bool" where
  "saved_node E N upper d t M n \<longleftrightarrow> ok_node E M N False False d n t \<and>
     (upper \<longrightarrow> (\<forall>u\<in>pchildren t. 32 \<le> length (penc E u) \<longrightarrow> durable E M u))"

definition saved_child :: "trie_env \<Rightarrow> nat \<Rightarrow> bool \<Rightarrow> nat \<Rightarrow> ptrie option \<Rightarrow> loader \<Rightarrow> ChildRef \<Rightarrow> bool" where
  "saved_child E N upper d y M c \<longleftrightarrow> ok_child E M N False False d c y \<and>
     (upper \<longrightarrow> (\<forall>u. y = Some u \<longrightarrow> 32 \<le> length (penc E u) \<longrightarrow> durable E M u))"

definition openable :: "trie_env \<Rightarrow> loader \<Rightarrow> ptrie \<Rightarrow> bool" where
  "openable E M t \<longleftrightarrow> in_store E M t \<and> (\<forall>u\<in>pchildren t. 32 \<le> length (penc E u) \<longrightarrow> durable E M u)"

definition saved_ext :: "trie_env \<Rightarrow> nat \<Rightarrow> bool \<Rightarrow> nat \<Rightarrow> ptrie \<Rightarrow> loader \<Rightarrow> TrieNodeExt \<Rightarrow> bool" where
  "saved_ext E N upper d t M e \<longleftrightarrow> ok_ext E M N False False d e t \<and>
     (upper \<longrightarrow> (32 \<le> length (penc E t) \<longrightarrow> durable E M t) \<and> (d = 0 \<longrightarrow> openable E M t))"

definition commits :: "trie_env \<Rightarrow> loader \<Rightarrow> ptrie set \<Rightarrow> (h256 \<times> bytes) list \<Rightarrow> (loader \<Rightarrow> 'a \<Rightarrow> bool) \<Rightarrow> ('a \<times> (h256 \<times> bytes) list) result \<Rightarrow> bool" where
  "commits E L S ops Q r \<longleftrightarrow> (\<exists>y ops'. r = Inr (y, ops') \<and> outcome E L S ops Q (y, ops'))"

definition finish_commit :: "trie_env \<Rightarrow> nat \<Rightarrow> bool \<Rightarrow> nat \<Rightarrow> TrieNodeExt \<times> (h256 \<times> bytes) list \<Rightarrow> (TrieNodeExt \<times> (h256 \<times> bytes) list) result" where
  "finish_commit E N upper d = (\<lambda>(e3, ops3). Inr (if d = N - 1 \<and> \<not> upper then TrieNodeExt_truncate E e3 else e3, ops3))"

lemma commits_bind:
  assumes "commits E L S ops Q r" "\<And>y ops'. outcome E L S ops Q (y, ops') \<Longrightarrow> commits E L S' ops Q' (f (y, ops'))"
  shows "commits E L S' ops Q' (and_then r f)"
  using assms unfolding commits_def by fastforce

lemma commits_return: "outcome E L S ops Q (y, ops') \<Longrightarrow> commits E L S ops Q (Inr (y, ops'))"
  by (auto simp: commits_def)

lemma commits_nothing: "(\<And>M. extends M L \<Longrightarrow> Q M y) \<Longrightarrow> commits E L S ops Q (Inr (y, ops))"
  by (intro commits_return outcome_nothing)

context trie_rlp
begin

text \<open>The encoding of a node whose children are settled.\<close>

lemma commit_encode:
  assumes "ok_node E M N False False d n t" "cache_ok E c t" "settled E L N False d c t \<or> unsettled E c t"
  shows "\<exists>n' c'. get_rlp_encode E (TrieNodeExt n c) = (penc E t, TrieNodeExt n' c') \<and> ok_node E M N False False d n' t \<and>
    cache_ok E c' t \<and> nc_rlp_encode c' = Some (penc E t) \<and> (length (penc E t) < 32 \<longrightarrow> d \<noteq> 0 \<longrightarrow> nc_commited c' = Light) \<and>
    in_loaded_node c' = in_loaded_node c"
proof (cases "nc_rlp_encode c")
  case None
  then show ?thesis using encode_ok(1) [OF assms(1)] assms(2) by (auto simp: cache_ok_def)
next
  case (Some b)
  then show ?thesis using assms by (auto simp: cache_ok_def settled_def unsettled_def)
qed

lemma hash_cached:
  assumes "cache_ok E c t" "nc_rlp_encode c = Some (penc E t)"
  shows "ext_hash E (TrieNodeExt n c) = (te_hasher E (penc E t), TrieNodeExt n (c\<lparr>nc_hash := Some (te_hasher E (penc E t))\<rparr>))"
  using assms by (cases "nc_hash c") (auto simp: ext_hash_def hash_of_def cache_ok_def Let_def)

text \<open>The node after the encoding: committed when it is large or the root, and
  written when it is below the top layers or the top layers are written.\<close>

lemma saved_committed:
  assumes n: "saved_node E N upper d t M n" and c: "cache_ok E c t" "nc_rlp_encode c = Some (penc E t)" "in_loaded_node c \<longrightarrow> N \<le> Suc d"
    and big: "32 \<le> length (penc E t) \<or> d = 0" and st: "N \<le> d \<or> upper \<Longrightarrow> in_store E M t" and N: "0 < N"
  shows "saved_ext E N upper d t M (TrieNodeExt n (c\<lparr>nc_hash := Some (te_hasher E (penc E t)), nc_commited := Committed\<rparr>))"
proof -
  have ok: "ok_node E M N False False d n t" using n by (simp add: saved_node_def)
  have "durable E M t" if "32 \<le> length (penc E t)" "N \<le> d \<or> upper"
  proof (rule durableI [OF st [OF that(2)] that(1)])
    show "durable E M u" if "u \<in> pchildren t" "32 \<le> length (penc E u)" for u
      using children_durable [OF ok _ that] n that \<open>N \<le> d \<or> upper\<close> by (auto simp: saved_node_def)
  qed
  moreover have "\<not> N \<le> d" if "d = 0" using N that by simp
  ultimately show ?thesis using n c big st
    by (auto simp: saved_ext_def saved_node_def openable_def ok_ext_iff settled_def cache_ok_def)
qed

lemma saved_light:
  assumes "saved_node E N upper d t M n" "cache_ok E c t" "nc_rlp_encode c = Some (penc E t)" "nc_commited c = Light"
    "in_loaded_node c \<longrightarrow> N \<le> Suc d" "length (penc E t) < 32" "d \<noteq> 0"
  shows "saved_ext E N upper d t M (TrieNodeExt n c)"
  using assms by (auto simp: saved_ext_def saved_node_def ok_ext_iff settled_def)

lemma saved_truncate:
  "saved_ext E N False d t M e \<Longrightarrow> N \<le> Suc d \<Longrightarrow> saved_ext E N False d t M (TrieNodeExt_truncate E e)"
  by (simp add: saved_ext_def truncate_ok)

lemma finish_commit_ok:
  assumes "outcome E L S ops (saved_ext E N upper d t) (e, ops')" "0 < N"
  shows "commits E L S ops (saved_ext E N upper d t) (finish_commit E N upper d (e, ops'))"
proof -
  have "saved_ext E N upper d t M (if d = N - 1 \<and> \<not> upper then TrieNodeExt_truncate E e else e)" if "saved_ext E N upper d t M e" for M
    using that assms(2) saved_truncate [of N d t M e] by (cases upper) auto
  from outcome_map [OF assms(1), where Q' = "saved_ext E N upper d t", OF this]
  show ?thesis by (simp add: finish_commit_def commits_return)
qed

lemma commit_step:
  assumes walk: "commits E L (subtries t) ops (saved_node E N upper d t) (node_commit E N upper d n ops)" and fu: "full E V L (subtries t)"
    and c: "cache_ok E c t" "in_loaded_node c \<longrightarrow> N \<le> Suc d" and st: "settled E L N False d c t \<or> unsettled E c t"
    and go: "\<not> (N \<le> d \<and> upper)" "\<not> ((nc_commited c = Committed \<or> nc_commited c = Light) \<and> \<not> upper)" and N: "0 < N"
  shows "commits E L (subtries t) ops (saved_ext E N upper d t) (ext_commit E N upper d (TrieNodeExt n c) ops)"
proof -
  obtain n1 ops1 where n1: "node_commit E N upper d n ops = Inr (n1, ops1)"
    and out: "outcome E L (subtries t) ops (saved_node E N upper d t) (n1, ops1)" using walk by (auto simp: commits_def)
  have "ok_node E V N False False d n1 t" using outcome_full [OF out fu] by (simp add: saved_node_def)
  from commit_encode [OF this c(1) st] obtain n2 c2 where enc: "get_rlp_encode E (TrieNodeExt n1 c) = (penc E t, TrieNodeExt n2 c2)"
    and c2: "cache_ok E c2 t" "nc_rlp_encode c2 = Some (penc E t)" "length (penc E t) < 32 \<longrightarrow> d \<noteq> 0 \<longrightarrow> nc_commited c2 = Light"
      "in_loaded_node c2 \<longrightarrow> N \<le> Suc d" using c(2) by auto
  have n2: "saved_node E N upper d t M n2" if "saved_node E N upper d t M n1" for M
    using commit_encode [of M N d n1 t c] that c(1) st enc by (auto simp: saved_node_def)
  have eq: "ext_commit E N upper d (TrieNodeExt n c) ops = and_then
      (if 32 \<le> length (penc E t) \<or> d = 0 then
         Inr (TrieNodeExt n2 (c2\<lparr>nc_hash := Some (te_hasher E (penc E t)), nc_commited := Committed\<rparr>),
              if N \<le> d \<or> upper then ops1 @ [pput E t] else ops1)
       else Inr (TrieNodeExt n2 c2, ops1)) (finish_commit E N upper d)"
    unfolding ext_commit.simps if_not_P [OF go(1)] if_not_P [OF go(2)] finish_commit_def
    using c2(3) by (simp add: n1 enc hash_cached [OF c2(1,2)] pput_def ensure_def del: get_rlp_encode.simps)
  show ?thesis
  proof (cases "32 \<le> length (penc E t) \<or> d = 0")
    case True
    let ?e = "TrieNodeExt n2 (c2\<lparr>nc_hash := Some (te_hasher E (penc E t)), nc_commited := Committed\<rparr>)"
    have e: "saved_ext E N upper d t M ?e" if "saved_node E N upper d t M n1" "N \<le> d \<or> upper \<Longrightarrow> in_store E M t" for M
      using saved_committed [OF n2 [OF that(1)] c2(1,2,4) True that(2) N] .
    have "outcome E L (subtries t) ops (saved_ext E N upper d t) (?e, if N \<le> d \<or> upper then ops1 @ [pput E t] else ops1)"
    proof (cases "N \<le> d \<or> upper")
      case True
      then show ?thesis using outcome_put [OF out subtries_self, of "saved_ext E N upper d t" ?e] e by simp
    next
      case False
      then show ?thesis using outcome_map [OF out, of "saved_ext E N upper d t" ?e] e by simp
    qed
    from finish_commit_ok [OF this N] show ?thesis unfolding eq using True by simp
  next
    case False
    have "saved_ext E N upper d t M (TrieNodeExt n2 c2)" if "saved_node E N upper d t M n1" for M
      using saved_light [OF n2 [OF that] c2(1,2) _ c2(4)] c2(3) False by simp
    then have "outcome E L (subtries t) ops (saved_ext E N upper d t) (TrieNodeExt n2 c2, ops1)"
      using outcome_map [OF out, of "saved_ext E N upper d t" "TrieNodeExt n2 c2"] by simp
    from finish_commit_ok [OF this N] show ?thesis unfolding eq using False by simp
  qed
qed

lemma commit_ok:
  shows "ok_node E L N w x d n t \<Longrightarrow> \<not> x \<Longrightarrow> \<not> (upper \<and> w) \<Longrightarrow> full E V L (subtries t) \<Longrightarrow> 0 < N \<Longrightarrow>
      commits E L (subtries t) ops (saved_node E N upper d t) (node_commit E N upper d n ops)"
    and "ok_child E L N w x d c y \<Longrightarrow> \<not> x \<Longrightarrow> \<not> (upper \<and> w) \<Longrightarrow> full E V L (child_subtries y) \<Longrightarrow> 0 < N \<Longrightarrow>
      commits E L (child_subtries y) ops (saved_child E N upper d y) (child_commit E N upper d c ops)"
    and "ok_ext E L N w x d e t \<Longrightarrow> \<not> x \<Longrightarrow> \<not> (upper \<and> w) \<Longrightarrow> full E V L (subtries t) \<Longrightarrow> 0 < N \<Longrightarrow>
      commits E L (subtries t) ops (saved_ext E N upper d t) (ext_commit E N upper d e ops)"
proof (induction arbitrary: ops and ops and ops rule: ok_node_ok_child_ok_ext.inducts)
  case (ok_leaf w x d k v)
  show ?case by (simp add: commits_nothing saved_node_def ok_node_ok_child_ok_ext.ok_leaf)
next
  case (ok_branch w x d cs ts v)
  have fu: "full E V L (children_subtries ts)" by (rule full_sub [OF ok_branch(4)]) auto
  have "commits E L (children_subtries ts) ops (\<lambda>M cs. list_all2 (\<lambda>c y. saved_child E N upper (Suc d) y M c) cs ts) (children_commit E N upper (Suc d) cs ops)"
    using ok_branch(1) fu
  proof (induction arbitrary: ops rule: list_all2_induct)
    case Nil
    show ?case by (simp add: commits_nothing)
  next
    case (Cons c cs y ts)
    have fu: "full E V L (child_subtries y)" "full E V L (children_subtries ts)"
      using Cons.prems(1) by (rule full_sub, simp)+
    have "\<And>ops. commits E L (child_subtries y) ops (saved_child E N upper (Suc d) y) (child_commit E N upper (Suc d) c ops)"
      using Cons.hyps(1) fu(1) ok_branch(2,3,5) by blast
    then show ?case unfolding children_commit.simps
    proof (rule commits_bind)
      fix c' ops1
      assume c': "outcome E L (child_subtries y) ops (saved_child E N upper (Suc d) y) (c', ops1)"
      obtain cs' ops2 where cs': "children_commit E N upper (Suc d) cs ops1 = Inr (cs', ops2)"
        "outcome E L (children_subtries ts) ops1 (\<lambda>M cs. list_all2 (\<lambda>c y. saved_child E N upper (Suc d) y M c) cs ts) (cs', ops2)"
        using Cons.IH [OF fu(2), of ops1] by (auto simp: commits_def)
      have "outcome E L (child_subtries y \<union> children_subtries ts) ops
          (\<lambda>M cs. list_all2 (\<lambda>c y. saved_child E N upper (Suc d) y M c) cs (y # ts)) (c' # cs', ops2)"
        by (rule outcome_seq [OF c' cs'(2)]) simp
      then show "commits E L (children_subtries (y # ts)) ops (\<lambda>M cs. list_all2 (\<lambda>c y. saved_child E N upper (Suc d) y M c) cs (y # ts))
          (case (c', ops1) of (c', put_ops') \<Rightarrow> and_then (children_commit E N upper (Suc d) cs put_ops') (\<lambda>(cs', put_ops''). Inr (c' # cs', put_ops'')))"
        using cs'(1) by (simp add: commits_return)
    qed
  qed
  then obtain cs' ops' where cs': "children_commit E N upper (Suc d) cs ops = Inr (cs', ops')"
    and out: "outcome E L (children_subtries ts) ops (\<lambda>M cs. list_all2 (\<lambda>c y. saved_child E N upper (Suc d) y M c) cs ts) (cs', ops')"
    by (auto simp: commits_def)
  have "saved_node E N upper d (PBranch ts v) M (Branch cs' v)" if "list_all2 (\<lambda>c y. saved_child E N upper (Suc d) y M c) cs' ts" for M
    using that by (auto simp: saved_node_def saved_child_def list_all2_conv_all_nth in_set_conv_nth intro!: ok_node_ok_child_ok_ext.ok_branch)
  from outcome_map [OF out, of "saved_node E N upper d (PBranch ts v)" "Branch cs' v", OF this]
  have "outcome E L (subtries (PBranch ts v)) ops (saved_node E N upper d (PBranch ts v)) (Branch cs' v, ops')" by (rule outcome_mono) auto
  from commits_return [OF this] show ?case using cs' by simp
next
  case (ok_extension w x d c t k)
  have "full E V L (child_subtries (Some t))" by (rule full_sub [OF ok_extension.prems(3)]) auto
  then obtain c' ops' where c': "child_commit E N upper (Suc d) c ops = Inr (c', ops')"
    and out: "outcome E L (subtries t) ops (saved_child E N upper (Suc d) (Some t)) (c', ops')"
    using ok_extension.IH(2) [of ops] ok_extension.prems by (auto simp: commits_def)
  have "saved_node E N upper d (PExt k t) M (Extension k c')" if "saved_child E N upper (Suc d) (Some t) M c'" for M
    using that by (auto simp: saved_node_def saved_child_def intro: ok_node_ok_child_ok_ext.ok_extension)
  from outcome_map [OF out, of "saved_node E N upper d (PExt k t)" "Extension k c'", OF this]
  have "outcome E L (subtries (PExt k t)) ops (saved_node E N upper d (PExt k t)) (Extension k c', ops')" by (rule outcome_mono) auto
  from commits_return [OF this] show ?case using c' by simp
next
  case (ok_null w x d)
  show ?case by (simp add: commits_nothing saved_child_def ok_node_ok_child_ok_ext.ok_null)
next
  case (ok_ref h t w x d)
  have "saved_child E N upper d (Some t) M (Ref h)" if "extends M L" for M
    using rep_mono(2) [OF ok_ref.IH that] by (auto simp: saved_child_def durable_ref intro: ok_node_ok_child_ok_ext.ok_ref)
  then show ?case by (simp add: commits_nothing)
next
  case (ok_owned w x d e t)
  obtain e' ops' where e': "ext_commit E N upper d e ops = Inr (e', ops')"
    and out: "outcome E L (subtries t) ops (saved_ext E N upper d t) (e', ops')"
    using ok_owned.IH(2) [of ops] ok_owned.prems by (auto simp: commits_def)
  have "saved_child E N upper d (Some t) M (Owned e')" if "saved_ext E N upper d t M e'" for M
    using that by (auto simp: saved_ext_def saved_child_def intro: ok_node_ok_child_ok_ext.ok_owned)
  from outcome_map [OF out, of "saved_child E N upper d (Some t)" "Owned e'", OF this]
  show ?case using e' by (simp add: commits_return)
next
  case (ok_settled x d n t c w)
  show ?case
  proof (cases "N \<le> d \<and> upper \<or> (nc_commited c = Committed \<or> nc_commited c = Light) \<and> \<not> upper")
    case True
    have "ok_ext E M N False False d (TrieNodeExt n c) t" if "extends M L" for M
      using ok_mono(3) [OF _ that, of E N False False d "TrieNodeExt n c" t] ok_settled by (auto simp: ok_ext_iff)
    moreover have "durable E M t" if "extends M L" "upper" "32 \<le> length (penc E t)" for M
      using True that ok_settled.IH(4) ok_settled.prems(1) durable_mono [of E L t M] by (auto simp: settled_def)
    ultimately have "saved_ext E N upper d t M (TrieNodeExt n c)" if "extends M L" for M
      using that True ok_settled.prems(4) by (auto simp: saved_ext_def)
    then show ?thesis using True by (auto intro!: commits_nothing)
  next
    case False
    show ?thesis by (rule commit_step [of L t ops N upper d n V c]) (use ok_settled False in auto)
  qed
next
  case (ok_unsettled x d n t c)
  have "\<not> (nc_commited c = Committed \<or> nc_commited c = Light)" using ok_unsettled.IH(4) by (auto simp: unsettled_def)
  then show ?case by (intro commit_step [of L t ops N upper d n V c]) (use ok_unsettled in auto)
qed

end

end
