(* ===== verification/RainStore.thy ===== *)
theory RainStore
  imports RainFlush
begin

text \<open>
  The RainBlock trie over its store.  The records of the store are addressed by the hash of
  their value.  Loading a hash gives the node that was encoded, and the writes of a commit
  keep the records that are there, unless two of the encodings at hand collide.  The
  properties: \<open>commit\<close> returns the root hash of the contents and keeps them, and after
  \<open>commit\<close> and \<open>flush_all\<close> a tree opened on the store has the same contents.
\<close>

section \<open>Records addressed by their hash\<close>

definition loads :: "trie_env \<Rightarrow> contents \<Rightarrow> loader" where
  "loads E g = TrieNodeExt_load E plain_kvdb g"

definition addressed :: "trie_env \<Rightarrow> contents \<Rightarrow> bool" where
  "addressed E g \<longleftrightarrow> (\<forall>h b. g 0 (digest_bytes h) = Some b \<longrightarrow> te_hasher E b = h)"

definition records :: "contents \<Rightarrow> bytes set" where
  "records g = {b. \<exists>h. g 0 (digest_bytes h) = Some b}"

definition keeps :: "contents \<Rightarrow> contents \<Rightarrow> bool" where
  "keeps g g' \<longleftrightarrow> (\<forall>h b. g 0 (digest_bytes h) = Some b \<longrightarrow> g' 0 (digest_bytes h) = Some b)"

lemma loads_kvdb: "TrieNodeExt_load E D db = loads E (kv_get D db)"
  by (rule ext) (simp add: TrieNodeExt_load_def loads_def plain_kvdb_def)

lemma loads_cong: "(\<And>h. g' 0 (digest_bytes h) = g 0 (digest_bytes h)) \<Longrightarrow> loads E g' = loads E g"
  by (rule ext) (simp add: TrieNodeExt_load_def loads_def plain_kvdb_def)

lemma digest_bytes_inject [simp]: "digest_bytes h = digest_bytes h' \<longleftrightarrow> h = h'"
  unfolding digest_bytes_def by (rule to_be_bytes_inject) simp

lemma digest_bytes_not_root [simp]: "digest_bytes h \<noteq> ROOT_KEY" "ROOT_KEY \<noteq> digest_bytes h"
proof -
  have "length (digest_bytes h) \<noteq> length ROOT_KEY" by (simp add: digest_bytes_def ROOT_KEY_def)
  then show "digest_bytes h \<noteq> ROOT_KEY" "ROOT_KEY \<noteq> digest_bytes h" by metis+
qed

lemma keeps_extends: "keeps g g' \<Longrightarrow> extends (loads E g') (loads E g)"
  by (auto simp: keeps_def extends_def loads_def TrieNodeExt_load_def plain_kvdb_def split: option.splits)

lemma keeps_refl [simp]: "keeps g g"
  by (simp add: keeps_def)

lemma keeps_trans: "keeps g g' \<Longrightarrow> keeps g' g'' \<Longrightarrow> keeps g g''"
  by (simp add: keeps_def)

lemma delete_records:
  "addressed E g \<Longrightarrow> addressed E (apply_ops (map del_dbop hs) g) \<and> records (apply_ops (map del_dbop hs) g) \<subseteq> records g"
proof (induction hs arbitrary: g)
  case (Cons h hs)
  have "addressed E (apply_op (del_dbop h) g)" "records (apply_op (del_dbop h) g) \<subseteq> records g"
    using Cons.prems by (auto simp: addressed_def records_def del_dbop_def split: if_splits)
  then show ?case using Cons.IH [of "apply_op (del_dbop h) g"] by auto
qed simp

text \<open>Writing nodes: what is in the store stays, and the nodes are in the store.\<close>

lemma put_records:
  assumes "addressed E g" "inj_on (te_hasher E) (records g \<union> penc E ` set ss)"
  shows "addressed E (apply_ops (map put_dbop (map (pput E) ss)) g) \<and>
    records (apply_ops (map put_dbop (map (pput E) ss)) g) \<subseteq> records g \<union> penc E ` set ss \<and>
    keeps g (apply_ops (map put_dbop (map (pput E) ss)) g) \<and>
    (\<forall>s\<in>set ss. apply_ops (map put_dbop (map (pput E) ss)) g 0 (digest_bytes (te_hasher E (penc E s))) = Some (penc E s))"
  using assms
proof (induction ss arbitrary: g)
  case (Cons s ss)
  let ?g = "apply_op (put_dbop (pput E s)) g"
  have a: "addressed E ?g" "records ?g \<subseteq> insert (penc E s) (records g)"
    "?g 0 (digest_bytes (te_hasher E (penc E s))) = Some (penc E s)"
    using Cons.prems(1) by (auto simp: addressed_def records_def put_dbop_def pput_def split: if_splits)
  have "b = penc E s" if "g 0 (digest_bytes (te_hasher E (penc E s))) = Some b" for b
    using Cons.prems that by (intro inj_onD [OF Cons.prems(2)]) (auto simp: addressed_def records_def)
  then have k: "keeps g ?g" by (auto simp: keeps_def put_dbop_def pput_def)
  have "inj_on (te_hasher E) (records ?g \<union> penc E ` set ss)"
    by (rule inj_on_subset [OF Cons.prems(2)]) (use a(2) in auto)
  note ih = Cons.IH [OF a(1) this]
  show ?case using ih a k by (auto simp: keeps_def)
qed simp

text \<open>The records of the store are addressed by their hash, and no two of the
  encodings at hand collide.\<close>

definition clean_store :: "trie_env \<Rightarrow> contents \<Rightarrow> ptrie \<Rightarrow> bool" where
  "clean_store E g t \<longleftrightarrow> addressed E g \<and> inj_on (te_hasher E) (records g \<union> penc E ` subtries t)"

lemma clean_store_step:
  "clean_store E g t \<Longrightarrow> addressed E g' \<Longrightarrow> records g' \<subseteq> records g \<union> penc E ` subtries t \<Longrightarrow> clean_store E g' t"
  unfolding clean_store_def using inj_on_subset [of "te_hasher E" "records g \<union> penc E ` subtries t"] by simp

lemma clean_store_cong:
  "clean_store E g t \<Longrightarrow> (\<And>h. g' 0 (digest_bytes h) = g 0 (digest_bytes h)) \<Longrightarrow> clean_store E g' t"
  by (simp add: clean_store_def addressed_def records_def)

lemma clean_store_delete: "clean_store E g t \<Longrightarrow> clean_store E (apply_ops (map del_dbop hs) g) t"
  by (rule clean_store_step [of E g t]) (use delete_records [of E g hs] in \<open>auto simp: clean_store_def\<close>)

section \<open>Loading nodes\<close>

context trie_rlp
begin

lemma as_loaded_penc: "pwf s \<Longrightarrow> pwf t \<Longrightarrow> penc E s = penc E t \<Longrightarrow> as_loaded E s = as_loaded E t"
  unfolding as_loaded_def using decode_penc [of s] decode_penc [of t] by simp

lemma in_store_loads:
  "pwf t \<Longrightarrow> g 0 (digest_bytes (te_hasher E (penc E t))) = Some (penc E t) \<Longrightarrow> in_store E (loads E g) t"
  by (simp add: in_store_def loads_def TrieNodeExt_load_def plain_kvdb_def TrieNode_new_def decode_penc as_loaded_def)

lemma loads_Inr:
  assumes "loads E g h = Inr e"
  shows "\<exists>b. g 0 (digest_bytes h) = Some b \<and> nc_rlp_encode (ext_cache e) = Some b"
  using assms by (auto simp: loads_def TrieNodeExt_load_def plain_kvdb_def and_then_eq_Inr split: option.splits)

lemma durable_in_store:
  assumes "durable E (loads E g) t" "pwf t"
  shows "in_store E (loads E g) t \<and> rep_ext E (loads E g) (as_loaded E t) t"
proof -
  obtain e where e: "loads E g (te_hasher E (penc E t)) = Inr e" "rep_ext E (loads E g) e t"
    using assms(1) by (auto simp: durable_def rep_child_ref)
  obtain b where "g 0 (digest_bytes (te_hasher E (penc E t))) = Some b" "nc_rlp_encode (ext_cache e) = Some b"
    using loads_Inr [OF e(1)] by blast
  moreover have "b = penc E t" using e(2) calculation(2) by cases (auto simp: cache_ok_def)
  ultimately have "in_store E (loads E g) t" using in_store_loads assms(2) by simp
  then show ?thesis using e by (simp add: in_store_def)
qed

lemma durable_openable:
  assumes "durable E (loads E g) t" "pwf t"
  shows "openable E (loads E g) t"
proof -
  have r: "rep_node E (loads E g) (shallow E t) t"
    using durable_in_store [OF assms] by (auto simp: as_loaded_def elim: rep_ext.cases)
  have c: "durable E (loads E g) u" if "rep_child E (loads E g) (shallow_child E (Some u)) (Some u)" "32 \<le> length (penc E u)" for u
    using that by (simp add: shallow_child_def child_as_read_def durable_def)
  have "durable E (loads E g) u" if u: "u \<in> pchildren t" "32 \<le> length (penc E u)" for u
  proof (cases t)
    case (PBranch ts v)
    then obtain i where i: "i < length ts" "ts ! i = Some u" using u(1) by (auto simp: in_set_conv_nth)
    have "list_all2 (rep_child E (loads E g)) (map (shallow_child E) ts) ts"
      using r unfolding PBranch shallow_branch by cases auto
    then show ?thesis using c [OF _ u(2)] i by (auto simp: list_all2_conv_all_nth)
  next
    case (PExt k s)
    then show ?thesis using r u c [of s] by (auto simp: shallow_child_def elim: rep_node.cases)
  qed (use u in simp)
  then show ?thesis using durable_in_store [OF assms] by (simp add: openable_def)
qed

lemma child_as_read_ok:
  assumes "32 \<le> length (penc E u) \<Longrightarrow> durable E L u" and "length (penc E u) < 32 \<Longrightarrow> ok_node E L N False False d (shallow E u) u"
  shows "ok_child E L N False False d (child_as_read E (penc E u) (shallow E u)) (Some u)"
  using assms by (auto simp: child_as_read_def durable_def cache_ok_def clear_cache_def settled_def intro!: ok_owned ok_ref ok_settled)

lemma ok_shallow:
  "(\<And>u. u \<in> pchildren t \<Longrightarrow> 32 \<le> length (penc E u) \<Longrightarrow> durable E L u) \<Longrightarrow> ok_node E L N False False d (shallow E t) t"
proof (induction t arbitrary: d)
  case (PLeaf k v)
  then show ?case by (simp add: ok_leaf)
next
  case (PBranch ts v)
  have "ok_child E L N False False (Suc d) (shallow_child E x) x" if "x \<in> set ts" for x
  proof (cases x)
    case (Some u)
    have "ok_node E L N False False (Suc d) (shallow E u) u" if "length (penc E u) < 32"
      using PBranch.IH [of x u] \<open>x \<in> set ts\<close> Some small_pchildren [OF that] by fastforce
    then show ?thesis using PBranch.prems [of u] \<open>x \<in> set ts\<close> Some by (simp add: shallow_child_def child_as_read_ok)
  qed (simp add: shallow_child_def ok_null)
  then show ?case unfolding shallow_branch by (intro ok_branch) (simp add: list_all2_conv_all_nth)
next
  case (PExt k s)
  have "ok_node E L N False False (Suc d) (shallow E s) s" if "length (penc E s) < 32"
    using PExt.IH small_pchildren [OF that] by fastforce
  then show ?case using PExt.prems [of s] by (auto intro!: ok_extension child_as_read_ok)
qed

lemma ok_as_loaded:
  assumes "openable E L t" "32 \<le> length (penc E t) \<or> d = 0" "0 < N"
  shows "ok_ext E L N False False d (as_loaded E t) t"
proof -
  have "durable E L t" if "N \<le> d"
    using durableI [of L t] assms that by (auto simp: openable_def)
  moreover have "ok_node E L N False False d (shallow E t) t" using assms(1) by (intro ok_shallow) (auto simp: openable_def)
  ultimately show ?thesis unfolding as_loaded_def using assms(2)
    by (intro ok_settled) (auto simp: cache_ok_def settled_def clear_cache_def)
qed

lemma child_load_ok:
  assumes "ok_child E (loads E (kv_get D db)) N False False d c y" "0 < N" "\<And>u. y = Some u \<Longrightarrow> pwf u"
    and "\<And>u e. y = Some u \<Longrightarrow> ok_ext E (loads E (kv_get D db)) N False False d e u \<Longrightarrow>
      \<exists>e'. load_children E D db N d e = Inr e' \<and> ok_ext E (loads E (kv_get D db)) N False False d e' u"
  shows "\<exists>c'. load_child E D db N d c = Inr c' \<and> ok_child E (loads E (kv_get D db)) N False False d c' y"
proof (cases c)
  case (Ref h)
  then obtain u where u: "y = Some u" "rep_child E (loads E (kv_get D db)) (Ref h) (Some u)" using assms(1) by (auto simp: ok_child_ref)
  then have h: "h = te_hasher E (penc E u)" "durable E (loads E (kv_get D db)) u" "32 \<le> length (penc E u)"
    using durable_ref rep_child_ref by blast+
  have o: "openable E (loads E (kv_get D db)) u" using durable_openable [OF h(2)] assms(3) u(1) by simp
  obtain e' where "load_children E D db N d (as_loaded E u) = Inr e'" "ok_ext E (loads E (kv_get D db)) N False False d e' u"
    using assms(4) [OF u(1) ok_as_loaded [OF o]] h(3) assms(2) by blast
  then show ?thesis using Ref u h(1) o
    by (auto simp: owned_or_load_def loads_kvdb openable_def in_store_def simp del: load_children.simps intro: ok_owned)
next
  case (Owned e)
  then obtain u where u: "y = Some u" "ok_ext E (loads E (kv_get D db)) N False False d e u" using assms(1) by (auto simp: ok_child_owned)
  then show ?thesis using assms(4) [OF u] Owned by (auto simp: owned_or_load_def simp del: load_children.simps intro: ok_owned)
qed (use assms(1) in \<open>simp add: owned_or_load_def\<close>)

lemma load_children_ok:
  assumes "pwf t" "ok_ext E (loads E (kv_get D db)) N False False d e t" "0 < N"
  shows "\<exists>e'. load_children E D db N d e = Inr e' \<and> ok_ext E (loads E (kv_get D db)) N False False d e' t"
  using assms(1,2)
proof (induction t arbitrary: d e)
  case (PLeaf k v)
  then obtain c where "e = TrieNodeExt (Leaf k v) c" by (cases e) (auto simp: ok_ext_iff ok_node_pleaf)
  then show ?case using PLeaf.prems(2) by (auto simp: ok_ext_iff settled_def ensure_def)
next
  case (PBranch ts v)
  let ?L = "loads E (kv_get D db)"
  obtain cs c where e: "e = TrieNodeExt (Branch cs v) c" "list_all2 (ok_child E ?L N False False (Suc d)) cs ts"
    "nc_commited c \<noteq> Working" using PBranch.prems(2) by (cases e) (auto simp: ok_ext_iff ok_node_pbranch settled_def)
  have "\<exists>c'. load_child E D db N (Suc d) c = Inr c' \<and> ok_child E ?L N False False (Suc d) c' y"
    if "ok_child E ?L N False False (Suc d) c y" "y \<in> set ts" for c y
    using child_load_ok [OF that(1) assms(3)] that(2) PBranch.IH PBranch.prems(1) by fastforce
  then have "\<exists>cs'. load_child_list E D db N (Suc d) cs = Inr cs' \<and> list_all2 (ok_child E ?L N False False (Suc d)) cs' ts"
    using e(2)
  proof (induction cs arbitrary: ts)
    case (Cons c cs)
    then obtain y us where ts: "ts = y # us" "ok_child E ?L N False False (Suc d) c y" "list_all2 (ok_child E ?L N False False (Suc d)) cs us"
      by (auto simp: list_all2_Cons1)
    obtain c' where "load_child E D db N (Suc d) c = Inr c'" "ok_child E ?L N False False (Suc d) c' y"
      using Cons.prems(1) [OF ts(2)] ts(1) by auto
    then show ?case using ts Cons.IH [of us] Cons.prems(1) by (auto simp del: load_child.simps)
  qed simp
  then show ?case using e PBranch.prems(2) by (cases "N - 1 \<le> d") (auto simp: ok_ext_iff ok_node_pbranch ensure_def)
next
  case (PExt k s)
  obtain ch c where e: "e = TrieNodeExt (Extension k ch) c" "ok_child E (loads E (kv_get D db)) N False False (Suc d) ch (Some s)"
    "nc_commited c \<noteq> Working" using PExt.prems(2) by (cases e) (auto simp: ok_ext_iff ok_node_pext settled_def)
  have "\<exists>c'. load_child E D db N (Suc d) ch = Inr c' \<and> ok_child E (loads E (kv_get D db)) N False False (Suc d) c' (Some s)"
    using child_load_ok [OF e(2) assms(3)] PExt.IH PExt.prems(1) by fastforce
  then show ?case using e PExt.prems(2)
    by (cases "N - 1 \<le> d") (auto simp: ok_ext_iff ok_node_pext ensure_def simp del: load_child.simps)
qed

text \<open>A store in which every subtrie can be loaded.\<close>

lemma full_exists:
  assumes "clean_store E g t" "pwf t"
  shows "\<exists>V. full E V (loads E g) (subtries t)"
proof -
  note assms = assms(1) [unfolded clean_store_def, THEN conjunct1] assms(1) [unfolded clean_store_def, THEN conjunct2] assms(2)
  define V where "V h = (if \<exists>s\<in>subtries t. te_hasher E (penc E s) = h
     then Inr (as_loaded E (SOME s. s \<in> subtries t \<and> te_hasher E (penc E s) = h)) else loads E g h)" for h
  have V: "V (te_hasher E (penc E s)) = Inr (as_loaded E s)" if "s \<in> subtries t" for s
  proof -
    let ?s = "SOME s'. s' \<in> subtries t \<and> te_hasher E (penc E s') = te_hasher E (penc E s)"
    have "?s \<in> subtries t \<and> te_hasher E (penc E ?s) = te_hasher E (penc E s)" by (rule someI) (use that in simp)
    moreover then have "penc E ?s = penc E s" using that by (intro inj_onD [OF assms(2)]) auto
    ultimately show ?thesis using that as_loaded_penc pwf_subtries [OF assms(3)] by (auto simp: V_def)
  qed
  have "V h = Inr e" if l: "loads E g h = Inr e" for h e
  proof (cases "\<exists>s\<in>subtries t. te_hasher E (penc E s) = h")
    case True
    then obtain s where s: "s \<in> subtries t" "h = te_hasher E (penc E s)" by auto
    obtain b where b: "g 0 (digest_bytes h) = Some b" using loads_Inr [OF l] by blast
    then have "te_hasher E b = te_hasher E (penc E s)" using assms(1) s by (simp add: addressed_def)
    then have "b = penc E s" using b s by (intro inj_onD [OF assms(2)]) (auto simp: records_def)
    then show ?thesis using in_store_loads [of s g] pwf_subtries [OF assms(3) s(1)] V [OF s(1)] b l s(2) by (simp add: in_store_def)
  qed (simp add: V_def l)
  then show ?thesis using V by (intro exI [of _ V]) (auto simp: full_def extends_def in_store_def)
qed

text \<open>Writing what a walk has produced brings its outcome about.\<close>

lemma outcome_written:
  assumes out: "outcome E (loads E g) (subtries t) ops Q (y, ops')" and c: "clean_store E g t" and p: "pwf t"
  shows "\<exists>ss g'. ops' = ops @ map (pput E) ss \<and> g' = apply_ops (map put_dbop (map (pput E) ss)) g \<and> Q (loads E g') y \<and> clean_store E g' t"
proof -
  have a: "addressed E g" "inj_on (te_hasher E) (records g \<union> penc E ` subtries t)" "pwf t" using c p by (auto simp: clean_store_def)
  obtain ss where ss: "ops' = ops @ map (pput E) ss" "set ss \<subseteq> subtries t"
    and Q: "\<And>M. extends M (loads E g) \<Longrightarrow> \<forall>s\<in>set ss. in_store E M s \<Longrightarrow> Q M y" using out by (auto simp: outcome_def)
  have "inj_on (te_hasher E) (records g \<union> penc E ` set ss)" by (rule inj_on_subset [OF a(2)]) (use ss(2) in auto)
  note p = put_records [OF a(1) this]
  have "in_store E (loads E (apply_ops (map put_dbop (map (pput E) ss)) g)) s" if "s \<in> set ss" for s
    using p that ss(2) pwf_subtries [OF a(3)] by (intro in_store_loads) auto
  then have "Q (loads E (apply_ops (map put_dbop (map (pput E) ss)) g)) y" using p keeps_extends by (intro Q) auto
  moreover have "clean_store E (apply_ops (map put_dbop (map (pput E) ss)) g) t"
    by (rule clean_store_step [OF c]) (use p ss(2) in blast)+
  ultimately show ?thesis using ss(1) by blast
qed

end

section \<open>Commit, flush and reopening\<close>

text \<open>The trees a commit is sound for: over the store less the deletions it is about to
  make, every node is settled or still to be written, and every hash the tree refers to
  can be loaded.  The last condition is a real one: nodes are deleted by hash, so a
  subtree that stands at two places of the tree and is changed at one of them is deleted
  for both (\<open>rain_commit_loses_shared_subtree\<close>).\<close>

definition committable :: "trie_env \<Rightarrow> 's kvdb_ops \<Rightarrow> nat \<Rightarrow> 's MerklePatriciaTree \<Rightarrow> ptrie \<Rightarrow> bool" where
  "committable E D N T t \<longleftrightarrow> pwf t \<and> (\<exists>root. mpt_root T = Some root \<and>
     ok_ext E (loads E (apply_ops (map del_dbop (mpt_del_ops T)) (kv_get D (mpt_db T)))) N True True 0 root t)"

text \<open>A tree after a commit.\<close>

definition committed :: "trie_env \<Rightarrow> 's kvdb_ops \<Rightarrow> nat \<Rightarrow> 's MerklePatriciaTree \<Rightarrow> ptrie \<Rightarrow> bool" where
  "committed E D N T t \<longleftrightarrow> pwf t \<and> mpt_del_ops T = [] \<and> clean_store E (kv_get D (mpt_db T)) t \<and>
     kv_get D (mpt_db T) 0 ROOT_KEY = Some (digest_bytes (te_hasher E (penc E t))) \<and>
     (\<exists>root. mpt_root T = Some root \<and> ok_ext E (loads E (kv_get D (mpt_db T))) N False False 0 root t)"

lemma committed_reps: "committed E D N T t \<Longrightarrow> mpt_reps E D T (plookup t)"
  unfolding committed_def mpt_reps_def loads_kvdb using ok_rep(3) by fastforce

lemma node_ops_in_range: "0 < cols \<Longrightarrow> ops_in_range cols (map del_dbop hs)" "0 < cols \<Longrightarrow> ops_in_range cols (map put_dbop kvs)"
  by (auto simp: ops_in_range_def list_all_iff del_dbop_def put_dbop_def)

lemma node_ops_root:
  "apply_ops (map del_dbop hs) g 0 ROOT_KEY = g 0 ROOT_KEY" "apply_ops (map put_dbop kvs) g 0 ROOT_KEY = g 0 ROOT_KEY"
  by (rule apply_ops_other; auto simp: del_dbop_def put_dbop_def)+

locale rain_store = trie_rlp E + kvdb D inv cols
  for E :: trie_env and D :: "'s kvdb_ops" and inv :: "'s \<Rightarrow> bool" and cols :: nat +
  assumes column: "0 < cols"
begin

lemma write_each_get:
  "inv s \<Longrightarrow> ops_in_range cols ops \<Longrightarrow> kv_get D (write_each D ops s) = apply_ops ops (kv_get D s) \<and> inv (write_each D ops s)"
proof (induction ops arbitrary: s)
  case (Cons op ops)
  have "ops_in_range cols [op]" "ops_in_range cols ops" using Cons.prems(2) by (auto simp: ops_in_range_def)
  then show ?case using Cons get_write_buffered [of s "[op]"] inv_write_buffered [of s "[op]"] by (simp add: write_each_def)
qed (simp add: write_each_def)

text \<open>The walks of a commit over the store less the deletions.\<close>

lemma commit_walks:
  assumes "ok_ext E (loads E g) N True True 0 root t" "clean_store E g t" "pwf t" "0 < N"
  shows "\<exists>root1 ops1 root2 ops g'. ext_drain_exiled E root [] = (root1, ops1) \<and> ext_commit E N False 0 root1 ops1 = Inr (root2, ops) \<and>
    g' = apply_ops (map put_dbop ops) g \<and> clean_store E g' t \<and> ok_ext E (loads E g') N False False 0 root2 t"
proof -
  obtain V where V: "full E V (loads E g) (subtries t)" using full_exists [OF assms(2,3)] by blast
  obtain root1 ops1 where r1: "ext_drain_exiled E root [] = (root1, ops1)" by fastforce
  have "outcome E (loads E g) (subtries t) [] (\<lambda>M e. ok_ext E M N True False 0 e t) (root1, ops1)"
    using drain_exiled_ok(3) [OF assms(1) V assms(4), of "[]"] r1 by simp
  from outcome_written [OF this assms(2,3)] obtain ss1 g1 where g1: "ops1 = map (pput E) ss1" "g1 = apply_ops (map put_dbop ops1) g"
    "ok_ext E (loads E g1) N True False 0 root1 t" "clean_store E g1 t" by auto
  obtain V1 where V1: "full E V1 (loads E g1) (subtries t)" using full_exists [OF g1(4) assms(3)] by blast
  obtain root2 ops where r2: "ext_commit E N False 0 root1 ops1 = Inr (root2, ops)"
    and out: "outcome E (loads E g1) (subtries t) ops1 (saved_ext E N False 0 t) (root2, ops)"
    using commit_ok(3) [OF g1(3) _ _ V1 assms(4), of False ops1] by (auto simp: commits_def)
  from outcome_written [OF out g1(4) assms(3)] obtain ss2 g2 where g2: "ops = ops1 @ map (pput E) ss2"
    "g2 = apply_ops (map put_dbop (map (pput E) ss2)) g1" "ok_ext E (loads E g2) N False False 0 root2 t" "clean_store E g2 t"
    by (auto simp: saved_ext_def)
  have "g2 = apply_ops (map put_dbop ops) g" using g1(2) g2(1,2) by simp
  then show ?thesis using r1 r2 g2 by blast
qed

text \<open>What a commit deletes by hash and does not write is gone, whoever still refers to it.\<close>

lemma commit_deletes:
  assumes "inv (mpt_db T)" "mpt_root T = Some root"
    and "ext_drain_exiled E root [] = (root1, ops1)" "ext_commit E N False 0 root1 ops1 = Inr (root2, ops)"
    and "mpt_commit E D N T = Inr (r, T')" "h \<in> set (mpt_del_ops T)" "h \<notin> fst ` set ops"
  shows "kv_get D (mpt_db T') 0 (digest_bytes h) = None"
proof -
  define db1 where "db1 = write_each D (map del_dbop (mpt_del_ops T)) (mpt_db T)"
  define db2 where "db2 = write_each D (map put_dbop ops) db1"
  obtain k root4 where k: "ext_hash E (ext_drain_loaded E root2) = (k, root4)" by fastforce
  let ?r = "[Insert 0 ROOT_KEY (digest_bytes k)]"
  have db1: "kv_get D db1 = apply_ops (map del_dbop (mpt_del_ops T)) (kv_get D (mpt_db T))" "inv db1"
    using write_each_get [OF assms(1) node_ops_in_range(1) [OF column]] by (simp_all add: db1_def)
  have db2: "kv_get D db2 = apply_ops (map put_dbop ops) (kv_get D db1)" "inv db2"
    using write_each_get [OF db1(2) node_ops_in_range(2) [OF column]] by (simp_all add: db2_def)
  have rr: "ops_in_range cols ?r" using column by (simp add: ops_in_range_def)
  have f: "kv_flush D (kv_write_buffered D db2 ?r) = Inr (mpt_db T')"
    using assms(2-5) k by (auto simp: mpt_commit_def Let_def db1_def [symmetric] db2_def [symmetric] and_then_eq_Inr)
  have "kv_get D (mpt_db T') = apply_ops ?r (kv_get D db2)"
    using get_flush [OF inv_write_buffered [OF db2(2) rr] f] get_write_buffered [OF db2(2) rr] by simp
  moreover have "apply_ops (map put_dbop os) g 0 (digest_bytes h) = g 0 (digest_bytes h)" if "h \<notin> fst ` set os" for os g
    using that by (induction os arbitrary: g) (auto simp: put_dbop_def)
  moreover have "apply_ops (map del_dbop hs) g 0 (digest_bytes h) = (if h \<in> set hs then None else g 0 (digest_bytes h))" for hs g
    by (induction hs arbitrary: g) (auto simp: del_dbop_def)
  ultimately show ?thesis using db1(1) db2(1) assms(6,7) by simp
qed

lemma commit_result:
  assumes "inv (mpt_db T)" "0 < N" "committable E D N T t" "clean_store E (kv_get D (mpt_db T)) t"
  shows "(\<exists>db f. inv db \<and> kv_flush D db = Inl f \<and> mpt_commit E D N T = Inl f) \<or>
    (\<exists>T'. mpt_commit E D N T = Inr (te_hasher E (penc E t), T') \<and> committed E D N T' t \<and> inv (mpt_db T'))"
proof -
  define db1 where "db1 = write_each D (map del_dbop (mpt_del_ops T)) (mpt_db T)"
  define g where "g = apply_ops (map del_dbop (mpt_del_ops T)) (kv_get D (mpt_db T))"
  have db1: "kv_get D db1 = g" "inv db1"
    using write_each_get [OF assms(1) node_ops_in_range(1) [OF column]] by (simp_all add: db1_def g_def)
  obtain root where root: "mpt_root T = Some root" "ok_ext E (loads E g) N True True 0 root t" "pwf t"
    using assms(3) by (auto simp: committable_def g_def)
  have "clean_store E g t" unfolding g_def by (rule clean_store_delete [OF assms(4)])
  from commit_walks [OF root(2) this root(3) assms(2)] obtain root1 ops1 root2 ops g'
    where w: "ext_drain_exiled E root [] = (root1, ops1)" "ext_commit E N False 0 root1 ops1 = Inr (root2, ops)"
      "g' = apply_ops (map put_dbop ops) g" "clean_store E g' t" "ok_ext E (loads E g') N False False 0 root2 t" by blast
  define db2 where "db2 = write_each D (map put_dbop ops) db1"
  have db2: "kv_get D db2 = g'" "inv db2"
    using write_each_get [OF db1(2) node_ops_in_range(2) [OF column]] w(3) db1(1) by (simp_all add: db2_def)
  obtain root4 where root4: "ext_hash E (ext_drain_loaded E root2) = (te_hasher E (penc E t), root4)" "ok_ext E (loads E g') N False False 0 root4 t"
    using ext_hash_ok drain_loaded_ok(3) [OF w(5)] by blast
  let ?r = "[Insert 0 ROOT_KEY (digest_bytes (te_hasher E (penc E t)))]"
  have r: "ops_in_range cols ?r" using column by (simp add: ops_in_range_def)
  define db3 where "db3 = kv_write_buffered D db2 ?r"
  have db3: "kv_get D db3 = apply_ops ?r g'" "inv db3"
    using get_write_buffered [OF db2(2) r] inv_write_buffered [OF db2(2) r] db2(1) by (simp_all add: db3_def)
  have eq: "mpt_commit E D N T = and_then (kv_flush D db3) (\<lambda>db4. Inr (te_hasher E (penc E t), T\<lparr>mpt_db := db4, mpt_root := Some root4, mpt_del_ops := []\<rparr>))"
    using root(1) w(1,2) root4(1) by (simp add: mpt_commit_def Let_def db1_def db2_def db3_def)
  show ?thesis
  proof (cases "kv_flush D db3")
    case (Inl f)
    then show ?thesis using eq db3(2) by auto
  next
    case (Inr db4)
    have g4: "kv_get D db4 = apply_ops ?r g'" "inv db4" using get_flush [OF db3(2) Inr] inv_flush [OF db3(2) Inr] db3(1) by simp_all
    have "loads E (kv_get D db4) = loads E g'" "clean_store E (kv_get D db4) t"
      unfolding g4(1) by (rule loads_cong, simp, rule clean_store_cong [OF w(4)], simp)
    then have "committed E D N (T\<lparr>mpt_db := db4, mpt_root := Some root4, mpt_del_ops := []\<rparr>) t"
      using root(3) root4(2) g4(1) by (simp add: committed_def)
    then show ?thesis using eq Inr g4(2) by auto
  qed
qed

lemma flush_result:
  assumes "inv (mpt_db T)" "0 < N" "committed E D N T t"
  shows "(\<exists>db f. inv db \<and> kv_flush D db = Inl f \<and> mpt_flush_all E D N T = Inl f) \<or>
    (\<exists>T'. mpt_flush_all E D N T = Inr T' \<and> committed E D N T' t \<and> openable E (loads E (kv_get D (mpt_db T'))) t \<and> inv (mpt_db T'))"
proof -
  define g where "g = kv_get D (mpt_db T)"
  obtain root where root: "mpt_root T = Some root" "ok_ext E (loads E g) N False False 0 root t" "pwf t" "clean_store E g t"
    "g 0 ROOT_KEY = Some (digest_bytes (te_hasher E (penc E t)))" "mpt_del_ops T = []"
    using assms(3) by (auto simp: committed_def g_def)
  obtain V where V: "full E V (loads E g) (subtries t)" using full_exists [OF root(4,3)] by blast
  obtain root' ops where w: "ext_commit E N True 0 root [] = Inr (root', ops)"
    and out: "outcome E (loads E g) (subtries t) [] (saved_ext E N True 0 t) (root', ops)"
    using commit_ok(3) [OF root(2) _ _ V assms(2), of True "[]"] by (auto simp: commits_def)
  from outcome_written [OF out root(4,3)] obtain g' where g': "g' = apply_ops (map put_dbop ops) g"
    "ok_ext E (loads E g') N False False 0 root' t" "openable E (loads E g') t" "clean_store E g' t"
    by (auto simp: saved_ext_def)
  define db1 where "db1 = write_each D (map put_dbop ops) (mpt_db T)"
  have db1: "kv_get D db1 = g'" "inv db1"
    using write_each_get [OF assms(1) node_ops_in_range(2) [OF column]] g'(1) by (simp_all add: db1_def g_def)
  have eq: "mpt_flush_all E D N T = and_then (kv_flush D db1) (\<lambda>db. Inr (T\<lparr>mpt_db := db, mpt_root := Some root'\<rparr>))"
    using root(1) w by (simp add: mpt_flush_all_def db1_def)
  show ?thesis
  proof (cases "kv_flush D db1")
    case (Inl f)
    then show ?thesis using eq db1(2) by auto
  next
    case (Inr db)
    have "kv_get D db = g'" "inv db" using get_flush [OF db1(2) Inr] inv_flush [OF db1(2) Inr] db1(1) by simp_all
    then show ?thesis using eq Inr g' root node_ops_root(2) [of ops g] by (auto simp: committed_def)
  qed
qed

lemma reopen_result:
  assumes "openable E (loads E (kv_get D db)) t" "kv_get D db 0 ROOT_KEY = Some (digest_bytes (te_hasher E (penc E t)))" "pwf t" "0 < N"
  shows "\<exists>R. mpt_new E D N db = Inr R \<and> mpt_db R = db \<and> mpt_reps E D R (plookup t)"
proof -
  obtain e where e: "load_children E D db N 0 (as_loaded E t) = Inr e" "ok_ext E (loads E (kv_get D db)) N False False 0 e t"
    using load_children_ok [OF assms(3) ok_as_loaded [OF assms(1) _ assms(4)] assms(4), of 0] by auto
  have "digest_from_slice (digest_bytes h) = Inr h" for h
    using from_be_to_be [of 32 h] by (simp add: digest_from_slice_def digest_bytes_def ensure_def)
  moreover have "TrieNodeExt_load E D db (te_hasher E (penc E t)) = Inr (as_loaded E t)"
    using assms(1) by (simp add: loads_kvdb openable_def in_store_def)
  ultimately have "mpt_new E D N db = Inr \<lparr>mpt_db = db, mpt_root = Some e, mpt_del_ops = []\<rparr>"
    using assms(2) e(1) by (simp add: mpt_new_def del: load_children.simps)
  then show ?thesis using ok_rep(3) [OF e(2)] assms(3) by (auto simp: mpt_reps_def loads_kvdb)
qed

end

end
