(* ===== verification/RainFresh.thy ===== *)
theory RainFresh
  imports RainStore
begin

text \<open>
  The first epoch of a RainBlock trie.  A node is fresh when it has not been encoded since it was
  made, and everything below it is loaded and fresh.  Every \<open>put\<close> on a fresh tree leaves a
  fresh tree and asks for no deletion, so the tree can be committed.  With the results on
  commits this gives the life of a store: from an empty store, every history of
  \<open>put\<close>s followed by \<open>commit\<close> and \<open>flush_all\<close> can be read back by opening the store.
\<close>

section \<open>Fresh trees\<close>

definition fresh_cache :: "node_cache \<Rightarrow> bool" where
  "fresh_cache c \<longleftrightarrow> nc_rlp_encode c = None \<and> nc_commited c = Working \<and> \<not> in_loaded_node c"

fun fresh_ext :: "TrieNodeExt \<Rightarrow> bool"
and fresh_node :: "TrieNode \<Rightarrow> bool"
and fresh_child :: "ChildRef \<Rightarrow> bool" where
  "fresh_ext (TrieNodeExt n c) = (fresh_node n \<and> fresh_cache c)"
| "fresh_node (Leaf k v) = True"
| "fresh_node (Branch cs v) = (length cs = 16 \<and> list_all fresh_child cs)"
| "fresh_node (Extension k c) = fresh_child c"
| "fresh_child Null = True"
| "fresh_child (Ref h) = False"
| "fresh_child (Owned e) = fresh_ext e"

definition fresh_stack :: "search_stack \<Rightarrow> bool" where
  "fresh_stack stack \<longleftrightarrow> (\<forall>x\<in>set stack. fresh_ext (fst x))"

lemma fresh_ext_iff: "fresh_ext e \<longleftrightarrow> fresh_node (ext_node e) \<and> fresh_cache (ext_cache e)"
  by (cases e) simp

lemma fresh_basic [simp]:
  "fresh_ext (TrieNodeExt_new n) = fresh_node n" "fresh_child (seal_ref n) = fresh_node n" "fresh_node (new_leaf k v)"
  "fresh_node (new_extention k c) = fresh_child c"
  by (simp_all add: TrieNodeExt_new_def seal_ref_def fresh_cache_def clear_cache_def new_leaf_def new_extention_def)

lemma fresh_update [intro]: "list_all fresh_child cs \<Longrightarrow> fresh_child c \<Longrightarrow> list_all fresh_child (cs[i := c])"
  by (auto simp: list_all_iff dest!: set_update_subset_insert [THEN subsetD])

lemma fresh_nulls [simp]: "list_all fresh_child (replicate n Null)"
  by (simp add: list_all_iff)

lemma fresh_nth: "list_all fresh_child cs \<Longrightarrow> length cs = 16 \<Longrightarrow> fresh_child (cs ! unat (i :: nibble))"
  using unat_nibble [of i] by (simp add: list_all_length)

lemma fresh_set_child: "fresh_node n \<Longrightarrow> fresh_child c \<Longrightarrow> set_child i c n = Inr n' \<Longrightarrow> fresh_node n'"
  by (cases n) (auto split: if_splits)

lemma fresh_update_key: "fresh_node n \<Longrightarrow> update_key f n = Inr n' \<Longrightarrow> fresh_node n'"
  by (cases n) auto

lemma fresh_set_value: "fresh_node n \<Longrightarrow> set_value v n = Inr n' \<Longrightarrow> fresh_node n'"
  by (cases n) auto

lemma fresh_make_mut: "fresh_ext e \<Longrightarrow> make_mut e ds = (ext_node e, ds)"
  by (simp add: make_mut_def fresh_ext_iff fresh_cache_def)

lemma fresh_exile:
  shows "fresh_ext e \<Longrightarrow> fresh_ext (ext_exile N d e)"
    and "fresh_node n \<Longrightarrow> fresh_node (node_exile N d n)"
    and "fresh_child c \<Longrightarrow> fresh_child (child_exile N d c)"
  by (induction N d e and N d n and N d c rule: ext_exile_node_exile_child_exile.induct) (auto simp: fresh_cache_def list_all_iff)

lemma fresh_loaded: "fresh_child c \<Longrightarrow> loaded_mut E D db c = Inr (Some e) \<Longrightarrow> fresh_ext e"
  by (cases c) (auto simp: loaded_mut_def)

lemma fresh_owned_or_load: "fresh_child c \<Longrightarrow> owned_or_load E D db c = Inr (Some (e, b)) \<Longrightarrow> fresh_ext e \<and> \<not> b"
  by (cases c) (auto simp: owned_or_load_def)

lemma fresh_committable:
  shows "rep_node E L n t \<Longrightarrow> fresh_node n \<Longrightarrow> ok_node E L N True True d n t"
    and "rep_child E L c y \<Longrightarrow> fresh_child c \<Longrightarrow> ok_child E L N True True d c y"
    and "rep_ext E L e t \<Longrightarrow> fresh_ext e \<Longrightarrow> ok_ext E L N True True d e t"
proof (induction arbitrary: d and d and d rule: rep_node_rep_child_rep_ext.inducts)
  case (rep_branch cs ts v)
  then show ?case by (auto simp: list_all2_conv_all_nth list_all_length intro!: ok_branch)
next
  case (rep_extI n t c)
  then show ?case by (auto simp: fresh_cache_def unsettled_def intro!: ok_unsettled)
qed (auto intro: ok_leaf ok_extension ok_null ok_owned)

section \<open>The operations keep a tree fresh\<close>

lemma fresh_next:
  assumes "fresh_ext me" "trie_next E D db N depth me ks = Inr (r, ks', me')"
  shows "fresh_ext me' \<and> (\<forall>e p. r = Next e p \<longrightarrow> fresh_ext e)"
proof (cases "ext_node me")
  case (Leaf k v)
  then show ?thesis using assms by (auto simp: trie_next_def split: if_splits)
next
  case (Branch cs v)
  then have cs: "length cs = 16" "list_all fresh_child cs" "fresh_cache (ext_cache me)" using assms(1) by (auto simp: fresh_ext_iff)
  then show ?thesis using assms Branch fresh_owned_or_load [OF fresh_nth]
    by (fastforce simp: trie_next_def and_then_eq_Inr mark_loaded_def split: list.splits option.splits)
next
  case (Extension k c)
  then have "fresh_child c" "fresh_cache (ext_cache me)" using assms(1) by (auto simp: fresh_ext_iff)
  then show ?thesis using assms Extension fresh_owned_or_load [of c E D db]
    by (fastforce simp: trie_next_def and_then_eq_Inr mark_loaded_def split: if_splits option.splits)
qed

lemma fresh_stack_simps [simp]:
  "fresh_stack []" "fresh_stack (x # xs) \<longleftrightarrow> fresh_ext (fst x) \<and> fresh_stack xs"
  "fresh_stack (xs @ ys) \<longleftrightarrow> fresh_stack xs \<and> fresh_stack ys" "fresh_stack (rev xs) = fresh_stack xs"
  by (auto simp: fresh_stack_def)

lemma fresh_search_loop:
  "search_loop E D db N stack node ks depth = Some r \<Longrightarrow> r = Inr res \<Longrightarrow> fresh_stack stack \<Longrightarrow> fresh_ext node \<Longrightarrow> fresh_stack (sr_stack res)"
proof (induction arbitrary: res rule: search_loop.raw_induct [rotated, consumes 1, case_names step])
  case (step f E D db N stack node ks depth r)
  show ?case
  proof (cases "trie_next E D db N depth node ks")
    case (Inl e)
    then show ?thesis using step(2,3,4,5) by simp
  next
    case (Inr a)
    obtain x ks' node' where a: "a = (x, ks', node')" by (cases a)
    have fr: "fresh_ext node'" "\<And>e p. x = Next e p \<Longrightarrow> fresh_ext e"
      using fresh_next [OF step(5), of E D db N depth ks x ks' node'] Inr a by simp_all
    show ?thesis
    proof (cases x)
      case (Next e p)
      then show ?thesis using step(1) [of E D db N "stack @ [(node', Some p)]" e ks' "depth + 1" r res] step(2,3,4,5) Inr a fr by simp
    qed (use step(2,3,4,5) Inr a fr in auto)
  qed
qed

lemma fresh_plug_stack: "fresh_stack stack \<Longrightarrow> plug_stack stack = Some e \<Longrightarrow> fresh_ext e"
proof (induction stack arbitrary: e rule: plug_stack.induct)
  case (3 x pos rest)
  then show ?case
    by (cases "plug_stack rest"; cases "ext_node x") (auto simp: fresh_ext_iff intro!: fresh_update)
qed auto

lemma fresh_reset_pointers:
  "reset_pointers stack ds = Inr (stack', ds') \<Longrightarrow> fresh_stack stack \<Longrightarrow> fresh_stack stack' \<and> ds' = ds \<and> length stack' = length stack"
proof (induction stack arbitrary: stack' ds)
  case (Cons x rest)
  obtain node p where x: "x = (node, p)" by (cases x)
  show ?case
  proof (cases p)
    case None
    then show ?thesis using Cons x by (auto simp: and_then_eq_Inr)
  next
    case (Some i)
    then obtain n' rest' where n': "set_child i Null (ext_node node) = Inr n'"
      "reset_pointers rest ds = Inr (rest', ds')" "stack' = (TrieNodeExt_new n', Some i) # rest'"
      using Cons.prems x by (auto simp: and_then_eq_Inr fresh_make_mut)
    moreover have "fresh_node n'" using Cons.prems(2) x by (intro fresh_set_child [OF _ _ n'(1)]) (auto simp: fresh_ext_iff)
    ultimately show ?thesis using Cons.IH [of ds rest'] Cons.prems(2) by simp
  qed
qed simp

lemma fresh_recover_loop:
  "recover_loop stack l ds = Inr (r, ds') \<Longrightarrow> fresh_stack stack \<Longrightarrow> (\<forall>e. l = Some e \<longrightarrow> fresh_ext e) \<Longrightarrow> ds' = ds \<and> (\<forall>e. r = Some e \<longrightarrow> fresh_ext e)"
proof (induction stack arbitrary: l ds)
  case (Cons x rest)
  obtain node p where x: "x = (node, p)" by (cases x)
  show ?case
  proof (cases p)
    case None
    then show ?thesis using Cons.IH [of "Some node" ds] Cons.prems x by simp
  next
    case (Some i)
    then obtain c n' where c: "l = Some c" "set_child i (Owned c) (ext_node node) = Inr n'"
      "recover_loop rest (Some (TrieNodeExt_new n')) ds = Inr (r, ds')"
      using Cons.prems x by (auto simp: and_then_eq_Inr fresh_make_mut)
    moreover have "fresh_node n'" using c Cons.prems(2,3) x by (intro fresh_set_child [OF _ _ c(2)]) (auto simp: fresh_ext_iff)
    ultimately show ?thesis using Cons.IH [OF c(3)] Cons.prems(2) by simp
  qed
qed simp

lemma fresh_insert_on_branch:
  assumes "insert_on_branch N cs ks val depth ds = Inr (cs', ds')" "list_all fresh_child cs" "length cs = 16"
  shows "list_all fresh_child cs' \<and> length cs' = 16 \<and> ds' = ds"
proof (cases ks)
  case Nil
  then show ?thesis using assms(1) by (simp add: insert_on_branch_def)
next
  case (Cons first rest)
  show ?thesis
  proof (cases "cs ! unat first")
    case Null
    then show ?thesis using assms Cons by (auto simp: insert_on_branch_def)
  next
    case (Ref h)
    then show ?thesis using fresh_nth [OF assms(2,3), of first] by simp
  next
    case (Owned prev)
    then have p: "fresh_ext prev" "fresh_node (ext_node prev)" using fresh_nth [OF assms(2,3), of first] by (simp_all add: fresh_ext_iff)
    then show ?thesis using assms Cons Owned
      by (auto simp: insert_on_branch_def fresh_make_mut intro!: fresh_update fresh_exile split: list.splits TrieNode.splits)
  qed
qed

text \<open>The node made where an extension is split, from the child below the split.\<close>

definition split_node :: "nat \<Rightarrow> nibble list \<Rightarrow> nibble \<Rightarrow> nibble list \<Rightarrow> bytes \<Rightarrow> nat \<Rightarrow> ChildRef \<Rightarrow> TrieNode" where
  "split_node N ip nx ks val depth c =
     (let children = (replicate 16 Null)[unat nx := child_exile N (depth + 2) c];
          b = (case ks of r # rest \<Rightarrow> Branch (children[unat r := seal_ref (new_leaf rest val)]) [] | [] \<Rightarrow> Branch children val)
      in if ip \<noteq> [] then Extension ip (seal_ref b) else b)"

definition split_child :: "nat \<Rightarrow> nat \<Rightarrow> nibble list \<Rightarrow> h256 list \<Rightarrow> TrieNodeExt \<Rightarrow> (ChildRef \<times> h256 list) result" where
  "split_child N depth rest ds e = (case ext_node e of
     Branch _ _ \<Rightarrow> Inr (seal_ref (new_extention rest (child_exile N (depth + 2) (Owned e))), ds)
   | _ \<Rightarrow> (case make_mut e ds of (n, ds') \<Rightarrow> and_then (update_key (add_prefix rest) n) (\<lambda>n. Inr (seal_ref n, ds'))))"

lemma insert_on_extension_split:
  assumes "drop (length (common_prefix ks k)) k = nx # rest"
  shows "insert_on_extension E D db N k c ks val depth ds = and_then
    (if rest \<noteq> [] then and_then (loaded_mut E D db c) (\<lambda>r. and_then (unwrap_option r) (split_child N depth rest ds)) else Inr (c, ds))
    (\<lambda>(c', ds'). Inr (split_node N (common_prefix ks k) nx (drop (length (common_prefix ks k)) ks) val depth c', ds'))"
proof -
  have "(\<lambda>child_node. case ext_node child_node of
      Branch _ _ \<Rightarrow> Inr (seal_ref (new_extention rest (child_exile N (depth + 2) (Owned child_node))), ds)
    | _ \<Rightarrow> (case make_mut child_node ds of (trie_node, del_ops') \<Rightarrow>
        and_then (update_key (add_prefix rest) trie_node) (\<lambda>n. Inr (seal_ref n, del_ops')))) = split_child N depth rest ds"
    by (rule ext) (simp add: split_child_def)
  then show ?thesis using assms
    by (cases "drop (length (common_prefix ks k)) ks") (simp_all add: insert_on_extension_def split_node_def Let_def)
qed

lemma fresh_split_child: "split_child N depth rest ds e = Inr (c, ds') \<Longrightarrow> fresh_ext e \<Longrightarrow> fresh_child c \<and> ds' = ds"
  using fresh_ext_iff [of e] unfolding split_child_def
  by (cases "ext_node e") (auto simp: fresh_make_mut and_then_eq_Inr intro!: fresh_exile)

lemma fresh_split_node: "fresh_child c \<Longrightarrow> fresh_node (split_node N ip nx ks val depth c)"
  by (cases ks) (auto simp: split_node_def Let_def intro!: fresh_update fresh_exile)

lemma fresh_insert_on_extension:
  assumes "insert_on_extension E D db N k c ks val depth ds = Inr (n, ds')" "fresh_child c"
  shows "fresh_node n \<and> ds' = ds"
proof (cases "drop (length (common_prefix ks k)) k")
  case Nil
  then show ?thesis using assms(1) by (simp add: insert_on_extension_def Let_def)
next
  case (Cons nx rest)
  obtain c' where "fresh_child c'" "n = split_node N (common_prefix ks k) nx (drop (length (common_prefix ks k)) ks) val depth c'" "ds' = ds"
    using assms unfolding insert_on_extension_split [OF Cons]
    by (auto simp: and_then_eq_Inr split: if_splits dest: fresh_split_child fresh_loaded)
  then show ?thesis by (simp add: fresh_split_node)
qed

lemma fresh_insert_on_leaf: "fresh_node (insert_on_leaf k v ks val)"
  by (auto simp: insert_on_leaf_def Let_def intro!: fresh_update split: list.splits)

lemma fresh_insert:
  assumes "mpt_insert E D db N n ks val depth ds = Inr (n', ds')" "fresh_node n"
  shows "fresh_node n' \<and> ds' = ds"
  using assms fresh_insert_on_branch fresh_insert_on_extension fresh_insert_on_leaf
  by (cases n) (fastforce simp: mpt_insert_def and_then_eq_Inr)+

lemma fresh_drop_single:
  assumes "drop_single_child_branch E D db i c ds = Inr (n, ds')" "fresh_child c"
  shows "fresh_node n \<and> ds' = ds"
proof -
  obtain e where e: "loaded_mut E D db c = Inr (Some e)" using assms(1) by (auto simp: drop_single_child_branch_def and_then_eq_Inr)
  have f: "fresh_ext e" using fresh_loaded [OF assms(2) e] .
  then have m: "make_mut e ds = (ext_node e, ds)" "fresh_node (ext_node e)" by (simp_all add: fresh_make_mut fresh_ext_iff)
  show ?thesis
  proof (cases "node_key (ext_node e) = None")
    case True
    then show ?thesis using assms(1) e f by (auto simp: drop_single_child_branch_def)
  next
    case False
    then show ?thesis using assms(1) e m fresh_update_key by (auto simp: drop_single_child_branch_def and_then_eq_Inr)
  qed
qed

lemma fresh_push:
  assumes "push_non_branch_to_stack n stack = Inr stack'" "fresh_node n" "fresh_stack stack"
  shows "fresh_stack stack'"
proof (cases "stack = []")
  case True
  then show ?thesis using assms by (auto simp: push_non_branch_to_stack_def)
next
  case False
  then obtain s x where s: "stack = s @ [x]" by (meson rev_exhaust)
  then show ?thesis using assms fresh_update_key
    by (auto simp: push_non_branch_to_stack_def and_then_eq_Inr split: TrieNode.splits)
qed

lemma fresh_only_child: "only_child_mut cs = Some (i, c) \<Longrightarrow> list_all fresh_child cs \<Longrightarrow> length cs = 16 \<Longrightarrow> fresh_child c"
  by (auto simp: only_child_mut_def intro: fresh_nth)

lemma fresh_collapse:
  assumes "and_then (drop_single_child_branch E D db i c ds) (\<lambda>(n, ds2). and_then (push_non_branch_to_stack n stack) (\<lambda>stack'. Inr (stack', ds2))) = Inr (stack', ds')"
    "fresh_child c" "fresh_stack stack"
  shows "fresh_stack stack' \<and> ds' = ds"
proof -
  obtain n ds2 where n: "drop_single_child_branch E D db i c ds = Inr (n, ds2)" "push_non_branch_to_stack n stack = Inr stack'" "ds' = ds2"
    using assms(1) by (auto simp: and_then_eq_Inr)
  then show ?thesis using fresh_drop_single [OF n(1) assms(2)] fresh_push [OF n(2) _ assms(3)] by simp
qed

lemma fresh_remove_branch_value:
  assumes "remove_branch_value E D db cs stack ds = Inr (stack', ds')" "list_all fresh_child cs" "length cs = 16" "fresh_stack stack"
  shows "fresh_stack stack' \<and> ds' = ds"
proof (cases "only_child_mut cs")
  case None
  then show ?thesis using assms by (auto simp: remove_branch_value_def)
next
  case (Some p)
  then obtain i c where p: "only_child_mut cs = Some (i, c)" by (cases p) auto
  then show ?thesis using assms fresh_collapse [of E D db i c ds stack stack' ds'] fresh_only_child [OF p]
    by (simp add: remove_branch_value_def)
qed

lemma fresh_remove_leaf:
  assumes "remove_leaf E D db stack ds = Inr (stack', ds')" "fresh_stack stack"
  shows "fresh_stack stack' \<and> ds' = ds"
proof (cases "stack = []")
  case True
  then show ?thesis using assms by (simp add: remove_leaf_def)
next
  case False
  then obtain s parent p where s: "stack = s @ [(parent, p)]" by (metis rev_exhaust surj_pair)
  then have f: "fresh_ext parent" "fresh_stack s" using assms(2) by auto
  obtain i cs v where b: "p = Some i" "ext_node parent = Branch cs v"
    using assms(1) s f by (cases "ext_node parent") (auto simp: remove_leaf_def fresh_make_mut and_then_eq_Inr)
  let ?cs = "cs[unat i := Null]"
  have cs: "list_all fresh_child ?cs" "length ?cs = 16" using f(1) b(2) by (auto simp: fresh_ext_iff)
  show ?thesis
  proof (cases "v = []")
    case True
    then have "remove_branch_value E D db ?cs s ds = Inr (stack', ds')"
      using assms(1) s f b by (simp add: remove_leaf_def remove_branch_value_def fresh_make_mut Let_def)
    from fresh_remove_branch_value [OF this cs f(2)] show ?thesis .
  next
    case False
    then show ?thesis using assms(1) s f b cs fresh_push
      by (auto simp: remove_leaf_def fresh_make_mut Let_def and_then_eq_Inr split: if_splits)
  qed
qed

lemma fresh_remove:
  assumes "mpt_remove E D db stack ds = Inr (stack', ds')" "fresh_stack stack"
  shows "fresh_stack stack' \<and> ds' = ds"
proof -
  obtain s x where s: "stack = s @ [x]" using assms(1) by (cases stack rule: rev_cases) (auto simp: mpt_remove_def)
  then have f: "fresh_ext (fst x)" "fresh_stack s" using assms(2) by auto
  show ?thesis
  proof (cases "ext_node (fst x)")
    case (Leaf k v)
    then show ?thesis using assms(1) s f fresh_remove_leaf [of E D db s ds stack' ds'] by (simp add: mpt_remove_def fresh_make_mut)
  next
    case (Branch cs v)
    then show ?thesis using assms(1) s f fresh_remove_branch_value [of E D db cs s ds stack' ds']
      by (simp add: mpt_remove_def fresh_make_mut fresh_ext_iff [of "fst x"])
  next
    case (Extension k c)
    then show ?thesis using assms(1) s f by (simp add: mpt_remove_def fresh_make_mut)
  qed
qed

definition fresh_tree :: "'s MerklePatriciaTree \<Rightarrow> bool" where
  "fresh_tree T \<longleftrightarrow> mpt_del_ops T = [] \<and> (\<forall>e. mpt_root T = Some e \<longrightarrow> fresh_ext e)"

lemma fresh_search:
  assumes "mpt_search E D N T key = Some (Inr (res, T'))" "fresh_tree T"
  shows "fresh_stack (sr_stack res) \<and> fresh_tree T'"
proof -
  obtain e r where e: "mpt_root T = Some e" "search_loop E D (mpt_db T) N [] e (bytes_to_nibble_list key) 1 = Some r"
    "r = Inr res" "T' = T\<lparr>mpt_root := plug_stack (sr_stack res)\<rparr>"
    using assms(1) by (auto simp: mpt_search_def and_then_eq_Inr split: option.splits)
  have "fresh_stack (sr_stack res)" using fresh_search_loop [OF e(2,3)] e(1) assms(2) by (simp add: fresh_tree_def)
  then show ?thesis using e(4) assms(2) fresh_plug_stack by (auto simp: fresh_tree_def)
qed

lemma fresh_recover:
  "recover_pointers stack ds = Inr (r, ds') \<Longrightarrow> fresh_stack stack \<Longrightarrow> ds' = ds \<and> (\<forall>e. r = Some e \<longrightarrow> fresh_ext e)"
  unfolding recover_pointers_def by (erule fresh_recover_loop) auto

lemma fresh_put_at:
  assumes "put_at E D N res val T = Inr T'" "fresh_tree T" "fresh_stack (sr_stack res)" "sr_stack res \<noteq> []"
  shows "fresh_tree T'"
proof -
  obtain stack ds where st: "reset_pointers (sr_stack res) (mpt_del_ops T) = Inr (stack, ds)"
    using assms(1) by (auto simp: put_at_def and_then_eq_Inr)
  have f: "fresh_stack stack" "ds = []" "length stack = length (sr_stack res)"
    using fresh_reset_pointers [OF st assms(3)] assms(2) by (auto simp: fresh_tree_def)
  then obtain s x where s: "stack = s @ [x]" using assms(4) by (cases stack rule: rev_cases) auto
  then have x: "fresh_ext (fst x)" "fresh_node (ext_node (fst x))" "fresh_stack s" using f(1) by (auto simp: fresh_ext_iff)
  obtain n' ds2 where n': "(if sr_matched res then and_then (set_value val (ext_node (fst x))) (\<lambda>n'. Inr (n', []))
      else mpt_insert E D (mpt_db T) N (ext_node (fst x)) (sr_remainder res) val (length s) []) = Inr (n', ds2)"
    and r: "and_then (recover_pointers (s @ [(TrieNodeExt_new n', snd x)]) ds2) (\<lambda>(root, ds3). Inr (T\<lparr>mpt_root := root, mpt_del_ops := ds3\<rparr>)) = Inr T'"
    using assms(1) st f(2) s x(1) by (auto simp: put_at_def fresh_make_mut and_then_eq_Inr split: if_splits)
  have "fresh_node n' \<and> ds2 = []"
    using n' x(2) by (auto simp: and_then_eq_Inr split: if_splits dest: fresh_insert intro: fresh_set_value)
  then show ?thesis using r fresh_recover [of "s @ [(TrieNodeExt_new n', snd x)]" ds2] x(3)
    by (auto simp: and_then_eq_Inr fresh_tree_def)
qed

lemma fresh_del:
  assumes "mpt_del E D N T key = Some (Inr T')" "fresh_tree T"
  shows "fresh_tree T'"
proof (cases "mpt_root T = None")
  case True
  then show ?thesis using assms by (simp add: mpt_del_def)
next
  case False
  then obtain res T1 where se: "mpt_search E D N T key = Some (Inr (res, T1))"
    and rest: "(if \<not> sr_matched res then Inr T1
        else and_then (reset_pointers (sr_stack res) (mpt_del_ops T1)) (\<lambda>(stack, del_ops).
             and_then (mpt_remove E D (mpt_db T1) stack del_ops) (\<lambda>(stack', del_ops').
             and_then (recover_pointers stack' del_ops') (\<lambda>(root, del_ops'').
               Inr (T1\<lparr>mpt_root := root, mpt_del_ops := del_ops''\<rparr>))))) = Inr T'"
    using assms(1) by (auto simp: mpt_del_def and_then_eq_Inr)
  have f: "fresh_stack (sr_stack res)" "fresh_tree T1" using fresh_search [OF se assms(2)] by auto
  show ?thesis
  proof (cases "sr_matched res")
    case True
    then obtain stack ds stack' ds' root ds'' where
      a: "reset_pointers (sr_stack res) (mpt_del_ops T1) = Inr (stack, ds)" "mpt_remove E D (mpt_db T1) stack ds = Inr (stack', ds')"
        "recover_pointers stack' ds' = Inr (root, ds'')" "T' = T1\<lparr>mpt_root := root, mpt_del_ops := ds''\<rparr>"
      using rest by (auto simp: and_then_eq_Inr)
    have "fresh_stack stack \<and> ds = []" using fresh_reset_pointers [OF a(1) f(1)] f(2) by (simp add: fresh_tree_def)
    then have "fresh_stack stack' \<and> ds' = []" using fresh_remove [OF a(2)] by simp
    then show ?thesis using fresh_recover [OF a(3)] a(4) by (simp add: fresh_tree_def)
  qed (use rest f in simp)
qed

lemma fresh_search_stack: "mpt_search E D N T key = Some (Inr (res, T')) \<Longrightarrow> mpt_reps E D T m \<Longrightarrow> sr_stack res \<noteq> []"
  using mpt_search_rep [of E D T m _ N key] by (cases "mpt_root T") (fastforce simp: mpt_search_def found_def)+

lemma fresh_put:
  assumes "mpt_put E D N T key val = Some (Inr T')" "fresh_tree T" "mpt_reps E D T m"
  shows "fresh_tree T'"
proof (cases "key = [] \<or> val = [] \<or> mpt_root T = None")
  case True
  then show ?thesis using assms(1,2) fresh_del [of E D N T key T']
    by (cases "key = []"; cases "val = []") (auto simp: mpt_put_def fresh_tree_def [of "_\<lparr>mpt_root := _\<rparr>"] fresh_tree_def [of T])
next
  case False
  then obtain res T1 where se: "mpt_search E D N T key = Some (Inr (res, T1))"
    and rest: "(case matched_node res of
           Some e \<Rightarrow> and_then (unwrap_option (node_value (ext_node e))) (\<lambda>old.
             if old = val then Inr T1 else put_at E D N res val T1)
         | None \<Rightarrow> put_at E D N res val T1) = Inr T'"
    using assms(1) by (auto simp: mpt_put_def and_then_eq_Inr)
  have f: "fresh_stack (sr_stack res)" "fresh_tree T1" "sr_stack res \<noteq> []"
    using fresh_search [OF se assms(2)] fresh_search_stack [OF se assms(3)] by auto
  then show ?thesis using rest fresh_put_at [OF _ f(2,1,3)] by (auto simp: and_then_eq_Inr split: option.splits if_splits)
qed

section \<open>A history of one epoch\<close>

fun put_all :: "trie_env \<Rightarrow> 's kvdb_ops \<Rightarrow> nat \<Rightarrow> (bytes \<times> bytes) list \<Rightarrow> 's MerklePatriciaTree \<Rightarrow> 's MerklePatriciaTree result option" where
  "put_all E D N [] T = Some (Inr T)"
| "put_all E D N ((key, val) # ops) T = (case mpt_put E D N T key val of
     Some (Inr T') \<Rightarrow> put_all E D N ops T' | r \<Rightarrow> r)"

fun map_after :: "(bytes \<times> bytes) list \<Rightarrow> (nibble list \<rightharpoonup> bytes) \<Rightarrow> (nibble list \<rightharpoonup> bytes)" where
  "map_after [] m = m"
| "map_after ((key, val) # ops) m = map_after ops (m(bytes_to_nibble_list key := if val = [] then None else Some val))"

lemma put_all_reps:
  "mpt_reps E D T m \<Longrightarrow> fresh_tree T \<Longrightarrow> \<forall>op\<in>set ops. fst op \<noteq> [] \<Longrightarrow>
   \<exists>T'. put_all E D N ops T = Some (Inr T') \<and> mpt_reps E D T' (map_after ops m) \<and> fresh_tree T' \<and> mpt_db T' = mpt_db T"
proof (induction ops arbitrary: T m)
  case (Cons op ops)
  obtain key val where op: "op = (key, val)" by (cases op)
  obtain T1 where T1: "mpt_put E D N T key val = Some (Inr T1)" "mpt_db T1 = mpt_db T"
    "mpt_reps E D T1 (m(bytes_to_nibble_list key := if val = [] then None else Some val))"
    using mpt_put_rep [OF Cons.prems(1), of key N val] Cons.prems(3) op by auto
  have "fresh_tree T1" using fresh_put [OF T1(1) Cons.prems(2,1)] .
  then show ?case using Cons.IH [OF T1(3)] Cons.prems(3) T1 op by (simp del: fun_upd_apply cong: if_cong)
qed simp

lemma fresh_tree_committable:
  assumes "mpt_reps E D T m" "fresh_tree T" "mpt_root T = Some e"
  shows "\<exists>t. committable E D N T t \<and> m = plookup t"
proof -
  obtain t where t: "rep_ext E (loads E (kv_get D (mpt_db T))) e t" "pwf t" "m = plookup t"
    using assms(1,3) by (auto simp: mpt_reps_def loads_kvdb)
  have "ok_ext E (loads E (kv_get D (mpt_db T))) N True True 0 e t"
    using fresh_committable(3) [OF t(1)] assms(2,3) by (simp add: fresh_tree_def)
  then show ?thesis using t assms(2,3) by (auto simp: committable_def fresh_tree_def)
qed

context rain_store
begin

lemma epoch_empty:
  assumes "inv (mpt_db T)" "mpt_root T = None" "mpt_del_ops T = []" "\<And>s. inv s \<Longrightarrow> \<exists>s'. kv_flush D s = Inr s'"
  shows "\<exists>T2 T3 R. mpt_commit E D N T = Inr (EMPTY_ROOT, T2) \<and> mpt_flush_all E D N T2 = Inr T3 \<and> mpt_new E D N (mpt_db T3) = Inr R \<and>
    mpt_reps E D T2 Map.empty \<and> mpt_reps E D R Map.empty"
proof -
  have r: "ops_in_range cols [Delete 0 ROOT_KEY]" using column by (simp add: ops_in_range_def)
  define db1 where "db1 = kv_write_buffered D (mpt_db T) [Delete 0 ROOT_KEY]"
  have db1: "inv db1" "kv_get D db1 0 ROOT_KEY = None"
    using get_write_buffered [OF assms(1) r] inv_write_buffered [OF assms(1) r] by (simp_all add: db1_def)
  obtain db2 where db2: "kv_flush D db1 = Inr db2" using assms(4) db1(1) by blast
  have i2: "inv db2" "kv_get D db2 0 ROOT_KEY = None" using inv_flush [OF db1(1) db2] get_flush [OF db1(1) db2] db1(2) by simp_all
  obtain db3 where db3: "kv_flush D db2 = Inr db3" using assms(4) i2(1) by blast
  have "kv_get D db3 0 ROOT_KEY = None" using get_flush [OF i2(1) db3] i2(2) by simp
  then show ?thesis using assms(2,3) db2 db3
    by (auto simp: mpt_commit_def mpt_flush_all_def mpt_new_def mpt_reps_def write_each_def db1_def Let_def)
qed

lemma epoch_result:
  assumes "inv (mpt_db T)" "0 < N" "committable E D N T t" "clean_store E (kv_get D (mpt_db T)) t" "\<And>s. inv s \<Longrightarrow> \<exists>s'. kv_flush D s = Inr s'"
  shows "\<exists>T2 T3 R. mpt_commit E D N T = Inr (te_hasher E (penc E t), T2) \<and> mpt_flush_all E D N T2 = Inr T3 \<and> mpt_new E D N (mpt_db T3) = Inr R \<and>
    mpt_reps E D T2 (plookup t) \<and> mpt_reps E D R (plookup t)"
proof -
  have ok: "kv_flush D db \<noteq> Inl f" if "inv db" for db f using assms(5) [OF that] by auto
  obtain T2 where T2: "mpt_commit E D N T = Inr (te_hasher E (penc E t), T2)" "committed E D N T2 t" "inv (mpt_db T2)"
    using commit_result [OF assms(1-4)] ok by blast
  obtain T3 where T3: "mpt_flush_all E D N T2 = Inr T3" "committed E D N T3 t" "openable E (loads E (kv_get D (mpt_db T3))) t"
    using flush_result [OF T2(3) assms(2) T2(2)] ok by blast
  obtain R where "mpt_new E D N (mpt_db T3) = Inr R" "mpt_reps E D R (plookup t)"
    using reopen_result [OF T3(3) _ _ assms(2)] T3(2) by (auto simp: committed_def)
  then show ?thesis using T2 T3 committed_reps [OF T2(2)] by blast
qed

end

lemma committed_committable: "committed E D N T t \<Longrightarrow> committable E D N T t"
  unfolding committed_def committable_def using ok_exile_weaken(3) ok_weaken(3) by fastforce

section \<open>Properties\<close>

interpretation tag_plain: rain_store "tag_env H" plain_kvdb "\<lambda>_. True" "Suc n" for H n
  by unfold_locales simp

text \<open>C20. A commit keeps the contents of a tree whose nodes are in memory, settled or still
  to be written, or are loaded from the store as it is after the deletions the tree has
  scheduled (\<open>committable\<close>): over a store whose records are addressed by their hash and in which no
  two encodings collide, \<open>commit\<close> either returns the error of the store's flush, or it returns the root
  hash of the contents, the new tree stands for the same contents, nothing is left to
  delete, and the new tree can be committed again.  It is not so for a tree that still
  refers to a hash it has scheduled for deletion, which is the subject of
  \<open>rain_commit_loses_shared_subtree\<close>.\<close>

theorem rain_commit_keeps_contents:
  assumes "rain_store E D I cols" and "I (mpt_db T)" and "0 < N" and "committable E D N T t" and "clean_store E (kv_get D (mpt_db T)) t"
  shows "(\<exists>db f. I db \<and> kv_flush D db = Inl f \<and> mpt_commit E D N T = Inl f) \<or>
    (\<exists>T'. mpt_commit E D N T = Inr (te_hasher E (penc E t), T') \<and> mpt_reps E D T' (plookup t) \<and> mpt_del_ops T' = [] \<and>
      committable E D N T' t \<and> clean_store E (kv_get D (mpt_db T')) t)"
  using rain_store.commit_result [OF assms] committed_reps committed_committable by (fastforce simp: committed_def)

lemma get_lost_child:
  assumes "mpt_root T = Some root" "ext_node root = Branch cs v" "bytes_to_nibble_list key = i # rest" "cs ! unat i = Ref h"
    and "kv_get D (mpt_db T) 0 (digest_bytes h) = None"
  shows "mpt_get E D N T key = Some (Inl (Panic ''Hash not found''))"
proof -
  have "key \<noteq> []" using assms(3) by (auto simp: bytes_to_nibble_list_def)
  then show ?thesis using assms
    by (simp add: mpt_get_def mpt_search_def search_loop.simps trie_next_def owned_or_load_def TrieNodeExt_load_def)
qed

text \<open>A commit loses a shared subtree: nodes are deleted by hash, without regard to
  other references.  When a hash is scheduled for deletion and is not among the nodes the
  commit writes, it is gone from the store afterwards, and if a child of the new root still
  is this hash, then reading any key below that child panics.  In the witness the tree before the
  commit stands for its contents and has a value at that key.\<close>

theorem rain_commit_loses_shared_subtree:
  assumes "rain_store E D I cols" and "I (mpt_db T)" and "mpt_root T = Some root"
    and "ext_drain_exiled E root [] = (root1, ops1)" and "ext_commit E N False 0 root1 ops1 = Inr (root2, ops)"
    and "mpt_commit E D N T = Inr (r, T')" and "h \<in> set (mpt_del_ops T)" and "h \<notin> fst ` set ops"
    and "mpt_root T' = Some root'" and "ext_node root' = Branch cs v"
    and "bytes_to_nibble_list key = i # rest" and "cs ! unat i = Ref h"
  shows "kv_get D (mpt_db T') 0 (digest_bytes h) = None \<and> mpt_get E D N T' key = Some (Inl (Panic ''Hash not found''))"
  using rain_store.commit_deletes [OF assms(1-8)] get_lost_child [OF assms(9-12)] by blast

text \<open>C13. The life of a store: on a store that is empty and whose flush succeeds, opening a
  tree, putting any sequence of values (an empty value removes the key), \<open>commit\<close> and
  \<open>flush_all\<close> all succeed, and opening the store again gives a tree with the contents that the
  sequence leaves, unless the encodings of two nodes of these contents collide.\<close>

theorem rain_history_reopens:
  assumes "rain_store E D I cols" and "I db" and "0 < N" and "\<And>key. kv_get D db 0 key = None"
    and "\<And>s. I s \<Longrightarrow> \<exists>s'. kv_flush D s = Inr s'" and "\<forall>op\<in>set ops. fst op \<noteq> []"
    and "inj_on (te_hasher E) (node_encodings E (map_after ops Map.empty))"
  shows "\<exists>T0 T1 h T2 T3 R. mpt_new E D N db = Inr T0 \<and> put_all E D N ops T0 = Some (Inr T1) \<and> mpt_commit E D N T1 = Inr (h, T2) \<and>
    mpt_flush_all E D N T2 = Inr T3 \<and> mpt_new E D N (mpt_db T3) = Inr R \<and>
    mpt_reps E D T2 (map_after ops Map.empty) \<and> mpt_reps E D R (map_after ops Map.empty)"
proof -
  let ?T0 = "\<lparr>mpt_db = db, mpt_root = None, mpt_del_ops = []\<rparr>"
  have T0: "mpt_new E D N db = Inr ?T0" using assms(4) by (simp add: mpt_new_def)
  have "mpt_reps E D ?T0 Map.empty" "fresh_tree ?T0" by (simp_all add: mpt_reps_def fresh_tree_def)
  from put_all_reps [OF this assms(6)] obtain T1 where T1: "put_all E D N ops ?T0 = Some (Inr T1)"
    "mpt_reps E D T1 (map_after ops Map.empty)" "fresh_tree T1" "mpt_db T1 = db" by auto
  show ?thesis
  proof (cases "mpt_root T1")
    case None
    have m: "map_after ops Map.empty = Map.empty" using T1(2) None by (simp add: mpt_reps_def)
    show ?thesis unfolding m
      using rain_store.epoch_empty [OF assms(1) _ None _ assms(5), where N = N] T0 T1(1,3,4) assms(2) by (auto simp: fresh_tree_def)
  next
    case (Some e)
    obtain t where t: "committable E D N T1 t" "map_after ops Map.empty = plookup t"
      using fresh_tree_committable [OF T1(2,3) Some] by blast
    have "penc E ` subtries t \<subseteq> node_encodings E (plookup t)" using t(1) by (auto simp: node_encodings_def committable_def)
    then have "clean_store E (kv_get D (mpt_db T1)) t"
      using assms(4,7) T1(4) t(2) by (auto simp: clean_store_def addressed_def records_def intro: inj_on_subset)
    moreover have "I (mpt_db T1)" using T1(4) assms(2) by simp
    ultimately obtain T2 T3 R where "mpt_commit E D N T1 = Inr (te_hasher E (penc E t), T2)" "mpt_flush_all E D N T2 = Inr T3"
      "mpt_new E D N (mpt_db T3) = Inr R" "mpt_reps E D T2 (plookup t)" "mpt_reps E D R (plookup t)"
      using rain_store.epoch_result [OF assms(1) _ assms(3) t(1)] assms(5) by blast
    then show ?thesis using T0 T1(1) unfolding t(2) by blast
  qed
qed

section \<open>Witnesses\<close>

text \<open>The length as a hash, an unloaded leaf in the store beside a record that is to be deleted, and a
  branch whose second child was just edited.\<close>

definition len_hash :: "bytes \<Rightarrow> h256" where
  "len_hash b = word_of_nat (length b)"

definition kept_leaf :: ptrie where
  "kept_leaf = PLeaf [3] (long_value 7)"

definition edited_trie :: ptrie where
  "edited_trie = PBranch ([Some kept_leaf, Some (PLeaf [5] [9])] @ replicate 14 None) []"

definition edited_root :: TrieNodeExt where
  "edited_root = TrieNodeExt_new (Branch ([Ref 72, Owned (TrieNodeExt_new (Leaf [5] [9]))] @ replicate 14 Null) [])"

definition edited_tree :: "h256 list \<Rightarrow> contents MerklePatriciaTree" where
  "edited_tree ds = \<lparr>mpt_db = (\<lambda>_ _. None)(0 := [digest_bytes 72 \<mapsto> penc (tag_env len_hash) kept_leaf, digest_bytes 3 \<mapsto> [0, 0, 0]]),
     mpt_root = Some edited_root, mpt_del_ops = ds\<rparr>"

lemma edited_lengths:
  "length (penc (tag_env len_hash) kept_leaf) = 72" "length (penc (tag_env len_hash) (PLeaf [5] [9])) = 12"
  "length (penc (tag_env len_hash) edited_trie) = 127"
  by code_simp+

lemma len_hasher: "te_hasher (tag_env len_hash) b = word_of_nat (length b)"
  by (simp add: tag_env_def len_hash_def)

lemma edited_clean: "clean_store (tag_env len_hash) (kv_get plain_kvdb (mpt_db (edited_tree ds))) edited_trie"
proof -
  let ?g = "kv_get plain_kvdb (mpt_db (edited_tree ds))"
  have g: "?g 0 (digest_bytes h) = (if h = 3 then Some [0, 0, 0] else if h = 72 then Some (penc (tag_env len_hash) kept_leaf) else None)" for h
    by (simp add: edited_tree_def plain_kvdb_def)
  have r: "records ?g \<subseteq> {[0, 0, 0], penc (tag_env len_hash) kept_leaf}" by (auto simp: records_def g split: if_splits)
  have t: "subtries edited_trie = {edited_trie, kept_leaf, PLeaf [5] [9]}"
    by (simp add: edited_trie_def kept_leaf_def numeral_eq_Suc insert_commute)
  have "inj_on (te_hasher (tag_env len_hash)) {[0, 0, 0], penc (tag_env len_hash) kept_leaf, penc (tag_env len_hash) edited_trie, penc (tag_env len_hash) (PLeaf [5] [9])}"
    by (simp add: inj_on_def len_hasher edited_lengths del: penc.simps)
  moreover have "records ?g \<union> penc (tag_env len_hash) ` subtries edited_trie \<subseteq>
     {[0, 0, 0], penc (tag_env len_hash) kept_leaf, penc (tag_env len_hash) edited_trie, penc (tag_env len_hash) (PLeaf [5] [9])}"
    using r unfolding t by auto
  ultimately have "inj_on (te_hasher (tag_env len_hash)) (records ?g \<union> penc (tag_env len_hash) ` subtries edited_trie)" by (rule inj_on_subset)
  then show ?thesis using edited_lengths(1) by (simp add: clean_store_def addressed_def g len_hasher del: penc.simps)
qed

lemma edited_pwf: "pwf kept_leaf" "pwf edited_trie"
  by (simp_all add: kept_leaf_def edited_trie_def entries_def)

lemma edited_in_store:
  assumes "72 \<notin> set ds"
  shows "durable (tag_env len_hash) (loads (tag_env len_hash) (apply_ops (map del_dbop ds) (kv_get plain_kvdb (mpt_db (edited_tree ds'))))) kept_leaf"
proof -
  let ?E = "tag_env len_hash" and ?g = "apply_ops (map del_dbop ds) (kv_get plain_kvdb (mpt_db (edited_tree ds')))"
  have "apply_ops (map del_dbop ds) g 0 (digest_bytes 72) = g 0 (digest_bytes 72)" for g
    using assms by (induction ds arbitrary: g) (auto simp: del_dbop_def)
  then have g: "?g 0 (digest_bytes 72) = Some (penc ?E kept_leaf)" by (simp add: edited_tree_def plain_kvdb_def)
  have h: "te_hasher ?E (penc ?E kept_leaf) = 72" by (simp add: len_hasher edited_lengths)
  have "in_store ?E (loads ?E ?g) kept_leaf" using g edited_pwf(1) by (intro tag.in_store_loads) (simp_all add: h)
  then show ?thesis by (rule tag.durableI) (simp_all add: edited_lengths, simp add: kept_leaf_def)
qed

lemma edited_ok:
  assumes "durable (tag_env len_hash) L kept_leaf"
  shows "ok_ext (tag_env len_hash) L 6 True True 0 edited_root edited_trie"
proof -
  have "rep_child (tag_env len_hash) L (Ref 72) (Some kept_leaf)"
    using assms by (simp add: durable_def len_hasher edited_lengths)
  moreover have "ok_ext (tag_env len_hash) L 6 True True d (TrieNodeExt_new (Leaf [5] [9])) (PLeaf [5] [9])" for d
    by (simp add: TrieNodeExt_new_def ok_ext_iff ok_node_pleaf unsettled_def clear_cache_def cache_ok_def)
  ultimately show ?thesis
    by (simp add: edited_root_def TrieNodeExt_new_def [of "Branch _ _"] ok_ext_iff edited_trie_def ok_node_pbranch unsettled_def clear_cache_def cache_ok_def
      ok_ref ok_owned ok_null list_all2_conv_all_nth nth_Cons' del: replicate.simps)
qed

lemma edited_committable: "committable (tag_env len_hash) plain_kvdb 6 (edited_tree [3]) edited_trie"
  using edited_pwf(2) edited_ok [OF edited_in_store, of "[3]" "[3]"] by (auto simp: committable_def edited_tree_def)

theorem rain_commit_keeps_contents_witness:
  "\<exists>T'. mpt_commit (tag_env len_hash) plain_kvdb 6 (edited_tree [3]) = Inr (127, T') \<and>
     mpt_reps (tag_env len_hash) plain_kvdb T' (plookup edited_trie) \<and> mpt_del_ops T' = []"
  using rain_commit_keeps_contents [OF tag_plain.rain_store_axioms _ _ edited_committable edited_clean]
  by (auto simp: plain_kvdb_def len_hasher edited_lengths)

lemma edited_walks: "ext_drain_exiled (tag_env len_hash) edited_root [] = (edited_root, [])"
  "\<exists>e. ext_commit (tag_env len_hash) 6 False 0 edited_root [] = Inr (e, [])"
proof -
  show "ext_drain_exiled (tag_env len_hash) edited_root [] = (edited_root, [])" by code_simp
  have "map_sum id snd (ext_commit (tag_env len_hash) 6 False 0 edited_root []) = Inr []" by code_simp
  then show "\<exists>e. ext_commit (tag_env len_hash) 6 False 0 edited_root [] = Inr (e, [])"
    by (cases "ext_commit (tag_env len_hash) 6 False 0 edited_root []") auto
qed



theorem rain_commit_loses_shared_subtree_witness:
  "\<exists>T'. mpt_reps (tag_env len_hash) plain_kvdb (edited_tree [72]) (plookup edited_trie) \<and> plookup edited_trie [0, 3] = Some (long_value 7) \<and>
     mpt_commit (tag_env len_hash) plain_kvdb 6 (edited_tree [72]) = Inr (127, T') \<and>
     mpt_get (tag_env len_hash) plain_kvdb 6 T' [3] = Some (Inl (Panic ''Hash not found''))"
proof -
  let ?E = "tag_env len_hash"
  obtain e where w: "ext_commit ?E 6 False 0 edited_root [] = Inr (e, [])" using edited_walks(2) by blast
  have "map_sum id fst (mpt_commit ?E plain_kvdb 6 (edited_tree [72])) = Inr 127" by code_simp
  then obtain T' where T': "mpt_commit ?E plain_kvdb 6 (edited_tree [72]) = Inr (127, T')"
    by (cases "mpt_commit ?E plain_kvdb 6 (edited_tree [72])") auto
  have "(case mpt_commit ?E plain_kvdb 6 (edited_tree [72]) of Inr (r, T') \<Rightarrow> (case mpt_root T' of
      Some e \<Rightarrow> (case ext_node e of Branch cs v \<Rightarrow> cs ! 0 | _ \<Rightarrow> Null) | None \<Rightarrow> Null) | Inl f \<Rightarrow> Null) = Ref 72" by code_simp
  then obtain root' cs v where r: "mpt_root T' = Some root'" "ext_node root' = Branch cs v" "cs ! 0 = Ref 72"
    by (auto simp: T' split: option.splits TrieNode.splits)
  have n: "bytes_to_nibble_list [3] = [0, 3]" by code_simp
  have "mpt_get ?E plain_kvdb 6 T' [3] = Some (Inl (Panic ''Hash not found''))"
    using rain_commit_loses_shared_subtree [OF tag_plain.rain_store_axioms _ _ edited_walks(1) w T' _ _ r(1,2) n, where h = 72] r(3)
    by (simp add: edited_tree_def)
  moreover have "mpt_reps ?E plain_kvdb (edited_tree [72]) (plookup edited_trie)"
    using ok_rep(3) [OF edited_ok [OF edited_in_store [of "[]" "[72]"]]] edited_pwf(2)
    by (auto simp: mpt_reps_def loads_kvdb edited_tree_def simp del: plookup.simps)
  moreover have "plookup edited_trie [0, 3] = Some (long_value 7)" by code_simp
  ultimately show ?thesis using T' by blast
qed

lemma one_put: "map_after [([18], [7])] Map.empty = plookup (PLeaf [1, 2] [7])"
  by (rule ext) (simp add: nibbles_34)

lemma one_put_encodings: "node_encodings E (map_after [([18], [7])] Map.empty) = {penc E (PLeaf [1, 2] [7])}"
proof -
  have "t = PLeaf [1, 2] [7]" if "pwf t" "plookup t = plookup (PLeaf [1, 2] [7])" for t
    using trie_canonical [of t "PLeaf [1, 2] [7]"] that by simp
  moreover have "pwf (PLeaf [1, 2] [7])" by simp
  ultimately show ?thesis unfolding one_put node_encodings_def by (force simp del: plookup.simps penc.simps)
qed

theorem rain_history_reopens_witness:
  "\<exists>T0 T1 h T2 T3 R. mpt_new (tag_env low_bytes) plain_kvdb 6 (\<lambda>_ _. None) = Inr T0 \<and>
     put_all (tag_env low_bytes) plain_kvdb 6 [([18], [7])] T0 = Some (Inr T1) \<and>
     mpt_commit (tag_env low_bytes) plain_kvdb 6 T1 = Inr (h, T2) \<and> mpt_flush_all (tag_env low_bytes) plain_kvdb 6 T2 = Inr T3 \<and>
     mpt_new (tag_env low_bytes) plain_kvdb 6 (mpt_db T3) = Inr R \<and> mpt_reps (tag_env low_bytes) plain_kvdb R (plookup (PLeaf [1, 2] [7]))"
proof -
  have "inj_on (te_hasher (tag_env low_bytes)) (node_encodings (tag_env low_bytes) (map_after [([18], [7])] Map.empty))"
    unfolding one_put_encodings by simp
  moreover have "kv_get plain_kvdb (\<lambda>_ _. None) 0 key = None" "\<exists>s'. kv_flush plain_kvdb s = Inr s'" for key s
    by (simp_all add: plain_kvdb_def)
  ultimately show ?thesis
    using rain_history_reopens [OF tag_plain.rain_store_axioms [of low_bytes 0], where db = "\<lambda>_ _. None" and N = 6 and ops = "[([18], [7])]"]
    unfolding one_put by fastforce
qed

end
