(* ===== verification/MemoryDb.thy ===== *)
theory MemoryDb
  imports Prelude "HOL-Library.AList"
begin

unbundle bit_operations_syntax

text \<open>
  The reference-counted in-memory hash database, \<open>memory-db/src/lib.rs\<close> of
  parity-journaldb, at the type the journal databases use it with: keys are
  256-bit hashes, values byte vectors.  The hash function is a parameter.  The
  hash map is an association list with one entry per key; its order stands for
  the unspecified iteration order, and no result depends on it.  Reference
  counts are 32-bit words read as signed.  The lemmas show that the count of a
  key is the number of its insertions minus the number of its removals.
\<close>

type_synonym i32 = "32 word"
type_synonym entries = "(h256 \<times> (bytes \<times> i32)) list"

record MemoryDB =
  md_data :: entries
  hashed_null_node :: h256
  null_node_data :: bytes

definition from_null_node :: "(bytes \<Rightarrow> h256) \<Rightarrow> bytes \<Rightarrow> bytes \<Rightarrow> MemoryDB" where
  "from_null_node H null_key null_data =
     \<lparr>md_data = [], hashed_null_node = H null_key, null_node_data = null_data\<rparr>"

definition MemoryDB_new :: "(bytes \<Rightarrow> h256) \<Rightarrow> bytes \<Rightarrow> MemoryDB" where
  "MemoryDB_new H data = \<lparr>md_data = [], hashed_null_node = H data, null_node_data = data\<rparr>"

definition MemoryDB_default :: "(bytes \<Rightarrow> h256) \<Rightarrow> MemoryDB" where
  "MemoryDB_default H = from_null_node H [0] [0]"

definition remove_and_purge :: "MemoryDB \<Rightarrow> h256 \<Rightarrow> bytes option \<times> MemoryDB" where
  "remove_and_purge m key =
     (if key = hashed_null_node m then (None, m)
      else case map_of (md_data m) key of
        Some (d, rc) \<Rightarrow>
          if rc = 1 then (Some d, m\<lparr>md_data := AList.delete key (md_data m)\<rparr>)
          else (None, m\<lparr>md_data := AList.update key (d, rc - 1) (md_data m)\<rparr>)
      | None \<Rightarrow> (None, m\<lparr>md_data := AList.update key ([], - 1) (md_data m)\<rparr>))"

definition MemoryDB_len :: "MemoryDB \<Rightarrow> nat" where
  "MemoryDB_len m = length (md_data m)"

definition MemoryDB_clear :: "MemoryDB \<Rightarrow> MemoryDB" where
  "MemoryDB_clear m = m\<lparr>md_data := []\<rparr>"

definition purge :: "MemoryDB \<Rightarrow> MemoryDB" where
  "purge m = m\<lparr>md_data := filter (\<lambda>(k, d, rc). rc \<noteq> 0) (md_data m)\<rparr>"

definition drain :: "MemoryDB \<Rightarrow> entries \<times> MemoryDB" where
  "drain m = (md_data m, m\<lparr>md_data := []\<rparr>)"

definition raw :: "MemoryDB \<Rightarrow> h256 \<Rightarrow> (bytes \<times> i32) option" where
  "raw m key = (if key = hashed_null_node m then Some (null_node_data m, 1) else map_of (md_data m) key)"

definition consolidate_entry :: "h256 \<times> (bytes \<times> i32) \<Rightarrow> entries \<Rightarrow> entries" where
  "consolidate_entry e es = (case e of (key, value, rc) \<Rightarrow>
     case map_of es key of
       Some (d, rc0) \<Rightarrow> AList.update key (if rc0 <s 0 then value else d, rc0 + rc) es
     | None \<Rightarrow> AList.update key (value, rc) es)"

definition consolidate :: "MemoryDB \<Rightarrow> MemoryDB \<Rightarrow> MemoryDB" where
  "consolidate m other = m\<lparr>md_data := fold consolidate_entry (fst (drain other)) (md_data m)\<rparr>"

definition MemoryDB_keys :: "MemoryDB \<Rightarrow> (h256 \<times> i32) list" where
  "MemoryDB_keys m = map (\<lambda>(k, d, rc). (k, rc)) (filter (\<lambda>(k, d, rc). rc \<noteq> 0) (md_data m))"

section \<open>PlainDB\<close>

definition PlainDB_get :: "MemoryDB \<Rightarrow> h256 \<Rightarrow> bytes option" where
  "PlainDB_get m key = (case map_of (md_data m) key of
     Some (d, rc) \<Rightarrow> if 0 <s rc then Some d else None | None \<Rightarrow> None)"

definition PlainDB_contains :: "MemoryDB \<Rightarrow> h256 \<Rightarrow> bool" where
  "PlainDB_contains m key = (case map_of (md_data m) key of Some (d, rc) \<Rightarrow> 0 <s rc | None \<Rightarrow> False)"

definition PlainDB_emplace :: "MemoryDB \<Rightarrow> h256 \<Rightarrow> bytes \<Rightarrow> MemoryDB" where
  "PlainDB_emplace m key value = m\<lparr>md_data :=
     (case map_of (md_data m) key of
        Some (d, rc) \<Rightarrow> AList.update key (if rc \<le>s 0 then value else d, rc + 1) (md_data m)
      | None \<Rightarrow> AList.update key (value, 1) (md_data m))\<rparr>"

definition PlainDB_remove :: "MemoryDB \<Rightarrow> h256 \<Rightarrow> MemoryDB" where
  "PlainDB_remove m key = m\<lparr>md_data :=
     (case map_of (md_data m) key of
        Some (d, rc) \<Rightarrow> AList.update key (d, rc - 1) (md_data m)
      | None \<Rightarrow> AList.update key ([], - 1) (md_data m))\<rparr>"

section \<open>HashDB\<close>

definition HashDB_get :: "MemoryDB \<Rightarrow> h256 \<Rightarrow> bytes option" where
  "HashDB_get m key = (if key = hashed_null_node m then Some (null_node_data m) else PlainDB_get m key)"

definition HashDB_contains :: "MemoryDB \<Rightarrow> h256 \<Rightarrow> bool" where
  "HashDB_contains m key = (if key = hashed_null_node m then True else PlainDB_contains m key)"

definition HashDB_emplace :: "MemoryDB \<Rightarrow> h256 \<Rightarrow> bytes \<Rightarrow> MemoryDB" where
  "HashDB_emplace m key value = (if value = null_node_data m then m else PlainDB_emplace m key value)"

definition HashDB_insert :: "(bytes \<Rightarrow> h256) \<Rightarrow> MemoryDB \<Rightarrow> bytes \<Rightarrow> h256 \<times> MemoryDB" where
  "HashDB_insert H m value =
     (if value = null_node_data m then (hashed_null_node m, m)
      else let key = H value in (key, PlainDB_emplace m key value))"

definition HashDB_remove :: "MemoryDB \<Rightarrow> h256 \<Rightarrow> MemoryDB" where
  "HashDB_remove m key = (if key = hashed_null_node m then m else PlainDB_remove m key)"

section \<open>The reference count of a key\<close>

text \<open>A key without an entry has count 0.\<close>

definition refs :: "MemoryDB \<Rightarrow> h256 \<Rightarrow> i32" where
  "refs m key = (case map_of (md_data m) key of Some (d, rc) \<Rightarrow> rc | None \<Rightarrow> 0)"

definition md_ok :: "MemoryDB \<Rightarrow> bool" where
  "md_ok m \<longleftrightarrow> distinct (map fst (md_data m))"

text \<open>Every entry that is counted holds data that hashes to its key.\<close>

definition addressed :: "(bytes \<Rightarrow> h256) \<Rightarrow> MemoryDB \<Rightarrow> bool" where
  "addressed H m \<longleftrightarrow> (\<forall>k d rc. map_of (md_data m) k = Some (d, rc) \<longrightarrow> 0 <s rc \<longrightarrow> H d = k)"

lemma map_of_delete: "map_of (AList.delete k al) k' = (if k' = k then None else map_of al k')"
  by (simp add: delete_conv')

lemma map_of_filter_snd:
  "distinct (map fst al) \<Longrightarrow> map_of (filter (\<lambda>(k, v). P v) al) k =
    (case map_of al k of Some v \<Rightarrow> if P v then Some v else None | None \<Rightarrow> None)"
  by (induction al) (auto simp: image_iff split: option.splits dest: map_of_SomeD)

lemma refs_ops:
  "refs (PlainDB_emplace m key value) k = refs m k + (if k = key then 1 else 0)"
  "refs (PlainDB_remove m key) k = refs m k - (if k = key then 1 else 0)"
  by (auto simp: refs_def PlainDB_emplace_def PlainDB_remove_def update_conv' split: option.splits)

lemma refs_purge: "md_ok m \<Longrightarrow> refs (purge m) k = refs m k"
  using map_of_filter_snd [of "md_data m" "\<lambda>(d, rc). rc \<noteq> 0" k]
  by (auto simp: refs_def purge_def md_ok_def case_prod_unfold split: option.splits)

lemma refs_remove_and_purge:
  "refs (snd (remove_and_purge m key)) k = refs m k - (if k = key \<and> key \<noteq> hashed_null_node m then 1 else 0)"
  by (auto simp: refs_def remove_and_purge_def map_of_delete update_conv' split: option.splits if_splits)

lemma md_ok_ops [simp]:
  "md_ok m \<Longrightarrow> md_ok (PlainDB_emplace m key value)" "md_ok m \<Longrightarrow> md_ok (PlainDB_remove m key)"
  "md_ok m \<Longrightarrow> md_ok (purge m)" "md_ok m \<Longrightarrow> md_ok (snd (remove_and_purge m key))"
  by (auto simp: md_ok_def PlainDB_emplace_def PlainDB_remove_def purge_def remove_and_purge_def distinct_update
      distinct_delete distinct_map_filter split: option.splits if_splits)

section \<open>Histories\<close>

datatype md_op =
    OpInsert bytes
  | OpRemove h256
  | OpRemoveAndPurge h256
  | OpPurge

fun md_step :: "(bytes \<Rightarrow> h256) \<Rightarrow> md_op \<Rightarrow> MemoryDB \<Rightarrow> MemoryDB" where
  "md_step H (OpInsert v) m = snd (HashDB_insert H m v)"
| "md_step H (OpRemove k) m = HashDB_remove m k"
| "md_step H (OpRemoveAndPurge k) m = snd (remove_and_purge m k)"
| "md_step H OpPurge m = purge m"

text \<open>Insertions minus removals of a key; operations on the null node do not count.\<close>

fun delta :: "(bytes \<Rightarrow> h256) \<Rightarrow> bytes \<Rightarrow> h256 \<Rightarrow> md_op \<Rightarrow> int" where
  "delta H null k (OpInsert v) = (if v \<noteq> null \<and> H v = k then 1 else 0)"
| "delta H null k (OpRemove k') = (if k' = k \<and> k \<noteq> H null then - 1 else 0)"
| "delta H null k (OpRemoveAndPurge k') = (if k' = k \<and> k \<noteq> H null then - 1 else 0)"
| "delta H null k OpPurge = 0"

definition balance :: "(bytes \<Rightarrow> h256) \<Rightarrow> bytes \<Rightarrow> md_op list \<Rightarrow> h256 \<Rightarrow> int" where
  "balance H null ops k = sum_list (map (delta H null k) ops)"

definition md_run :: "(bytes \<Rightarrow> h256) \<Rightarrow> md_op list \<Rightarrow> MemoryDB \<Rightarrow> MemoryDB" where
  "md_run H ops m = fold (md_step H) ops m"

lemma balance_snoc: "balance H null (ops @ [x]) k = balance H null ops k + delta H null k x"
  by (simp add: balance_def)

lemma balance_bound: "\<bar>balance H null ops k\<bar> \<le> int (length ops)"
proof (induction ops rule: rev_induct)
  case (snoc x xs)
  have "\<bar>delta H null k x\<bar> \<le> 1" by (cases x) auto
  with snoc show ?case by (simp add: balance_snoc)
qed (simp add: balance_def)

lemma sint_step:
  fixes w :: i32
  assumes "\<bar>sint w\<bar> < 2 ^ 31 - 1" "\<bar>d\<bar> \<le> 1"
  shows "sint (w + word_of_int d) = sint w + d"
proof -
  have "sint (w + word_of_int d) = sint (word_of_int (sint w + d) :: i32)" by simp
  also have "\<dots> = signed_take_bit 31 (sint w + d)" by (simp only: sint_sbintrunc') simp
  also have "\<dots> = sint w + d" using assms by (intro signed_take_bit_int_eq_self) simp_all
  finally show ?thesis .
qed

lemma sint_incr: "\<bar>sint (w :: i32)\<bar> < 2 ^ 31 - 1 \<Longrightarrow> sint (w + 1) = sint w + 1 \<and> sint (w - 1) = sint w - 1"
  using sint_step [of w 1] sint_step [of w "- 1"] by simp

text \<open>The invariant of a history: the counts are the balances, and counted data
  hashes to its key.\<close>

definition md_inv :: "(bytes \<Rightarrow> h256) \<Rightarrow> bytes \<Rightarrow> md_op list \<Rightarrow> MemoryDB \<Rightarrow> bool" where
  "md_inv H null ops m \<longleftrightarrow> md_ok m \<and> addressed H m \<and> null_node_data m = null \<and> hashed_null_node m = H null \<and>
     (\<forall>k. sint (refs m k) = balance H null ops k)"

lemma refs_step:
  assumes "md_ok m" "hashed_null_node m = H (null_node_data m)"
  shows "refs (md_step H x m) k = refs m k + word_of_int (delta H (null_node_data m) k x)"
proof (cases x)
  case (OpInsert v)
  then show ?thesis by (simp add: HashDB_insert_def refs_ops Let_def)
next
  case (OpRemove k')
  then show ?thesis using assms(2) by (simp add: HashDB_remove_def refs_ops)
next
  case (OpRemoveAndPurge k')
  then show ?thesis using assms(2) by (simp add: refs_remove_and_purge)
next
  case OpPurge
  then show ?thesis using assms(1) by (simp add: refs_purge)
qed

lemma step_ok: "md_ok m \<Longrightarrow> md_ok (md_step H x m)"
  by (cases x) (simp_all add: HashDB_insert_def HashDB_remove_def Let_def)

lemma step_null:
  "null_node_data (md_step H x m) = null_node_data m \<and> hashed_null_node (md_step H x m) = hashed_null_node m"
  by (cases x) (simp_all add: HashDB_insert_def HashDB_remove_def PlainDB_emplace_def PlainDB_remove_def purge_def
      remove_and_purge_def Let_def case_prod_unfold split: option.split)

lemma pos_sint: "0 <s (w :: i32) \<longleftrightarrow> 0 < sint w" "w \<le>s 0 \<longleftrightarrow> sint w \<le> 0" "w <s 0 \<longleftrightarrow> sint w < 0"
  by (simp_all add: word_sless_alt word_sle_eq)

lemma step_addressed:
  assumes "md_ok m" "addressed H m" "\<And>k. \<bar>sint (refs m k)\<bar> < 2 ^ 31 - 1"
  shows "addressed H (md_step H x m)"
proof -
  have b: "sint (rc - 1) = sint rc - 1" "sint (rc + 1) = sint rc + 1" if "map_of (md_data m) k = Some (d, rc)" for k d rc
    using assms(3) [of k] that sint_incr [of rc] by (simp_all add: refs_def)
  show ?thesis
  proof (cases x)
    case (OpInsert v)
    then show ?thesis using assms(2) b
      by (auto simp: addressed_def HashDB_insert_def PlainDB_emplace_def Let_def update_conv' pos_sint split: option.splits if_splits)
  next
    case (OpRemove k)
    then show ?thesis using assms(2) b
      by (force simp: addressed_def HashDB_remove_def PlainDB_remove_def update_conv' pos_sint split: option.splits if_splits)
  next
    case (OpRemoveAndPurge k)
    then show ?thesis using assms(2) b
      by (force simp: addressed_def remove_and_purge_def update_conv' map_of_delete pos_sint split: option.splits if_splits)
  next
    case OpPurge
    then show ?thesis using assms(1,2) map_of_filter_snd [of "md_data m" "\<lambda>(d, rc). rc \<noteq> 0"]
      by (auto simp: addressed_def purge_def md_ok_def case_prod_unfold split: option.splits if_splits)
  qed
qed

lemma md_history:
  assumes "length ops < 2 ^ 31 - 1"
  shows "md_inv H null ops (md_run H ops (MemoryDB_new H null))"
  using assms
proof (induction ops rule: rev_induct)
  case Nil
  show ?case by (simp add: md_inv_def md_run_def MemoryDB_new_def md_ok_def addressed_def refs_def balance_def)
next
  case (snoc x xs)
  let ?m = "md_run H xs (MemoryDB_new H null)"
  have ih: "md_inv H null xs ?m" and l: "int (length xs) < 2 ^ 31 - 1" using snoc by simp_all
  have b: "\<bar>sint (refs ?m k)\<bar> < 2 ^ 31 - 1" for k
    using ih balance_bound [of H null xs k] l by (simp add: md_inv_def)
  have "\<bar>delta H null k x\<bar> \<le> 1" for k by (cases x) auto
  then have "sint (refs (md_step H x ?m) k) = balance H null (xs @ [x]) k" for k
    using ih b refs_step [of ?m H x k] sint_step [of "refs ?m k" "delta H null k x"]
    by (simp add: md_inv_def balance_snoc)
  then show ?case
    using ih b step_addressed [where m = ?m and H = H and x = x] step_ok [of ?m H x] step_null [of H x ?m] by (simp add: md_inv_def md_run_def)
qed

section \<open>Properties\<close>

text \<open>C30. The in-memory hash database counts references: after every history of
  \<open>insert\<close>, \<open>remove\<close>, \<open>remove_and_purge\<close> and \<open>purge\<close> of fewer than \<open>2 ^ 31 - 1\<close> operations on an
  empty database, a key other than the null node is contained exactly when it was
  inserted more often than removed, and then reading it gives a value that hashes
  to it; the count \<open>raw\<close> reports is the difference.\<close>

theorem memory_db_counts_references:
  assumes "length ops < 2 ^ 31 - 1" and "k \<noteq> H null"
  shows "(HashDB_contains (md_run H ops (MemoryDB_new H null)) k \<longleftrightarrow> 0 < balance H null ops k) \<and>
    (case raw (md_run H ops (MemoryDB_new H null)) k of
       Some (d, rc) \<Rightarrow> sint rc = balance H null ops k \<and>
         HashDB_get (md_run H ops (MemoryDB_new H null)) k = (if 0 < sint rc then Some d else None) \<and>
         (0 < sint rc \<longrightarrow> H d = k)
     | None \<Rightarrow> balance H null ops k = 0 \<and> HashDB_get (md_run H ops (MemoryDB_new H null)) k = None)"
proof -
  let ?m = "md_run H ops (MemoryDB_new H null)"
  have m: "md_inv H null ops ?m" using assms(1) by (rule md_history)
  then have h: "k \<noteq> hashed_null_node ?m" and b: "sint (refs ?m k) = balance H null ops k" and a: "addressed H ?m"
    using assms(2) by (simp_all add: md_inv_def)
  show ?thesis
  proof (cases "map_of (md_data ?m) k")
    case None
    then show ?thesis using h b by (simp add: raw_def HashDB_contains_def HashDB_get_def PlainDB_contains_def PlainDB_get_def refs_def)
  next
    case (Some e)
    obtain d rc where e: "e = (d, rc)" by (cases e)
    have "0 < sint rc \<longrightarrow> H d = k" using a Some e by (auto simp: addressed_def pos_sint)
    then show ?thesis using h b Some e
      by (simp add: raw_def HashDB_contains_def HashDB_get_def PlainDB_contains_def PlainDB_get_def refs_def pos_sint)
  qed
qed

definition toy_hash :: "bytes \<Rightarrow> h256" where
  "toy_hash bs = word_of_nat (length bs)"

theorem memory_db_counts_references_witness:
  "HashDB_contains (md_run toy_hash [OpInsert [1, 2], OpInsert [1, 2], OpRemove 2] (MemoryDB_new toy_hash [0])) 2"
  using memory_db_counts_references [of "[OpInsert [1, 2], OpInsert [1, 2], OpRemove 2]" 2 toy_hash "[0]"]
  by (simp add: balance_def toy_hash_def)

end
