(* ===== verification/Rlp.thy ===== *)
theory Rlp
  imports Prelude "HOL-Library.Countable"
begin

text \<open>
  The interface of the rlp crate as the journal databases use it.  The crate is
  not part of the repository, so its functions are a parameter: a record of the
  constant for empty data (\<open>NULL_RLP\<close>), the encoder (\<open>RlpStream\<close>, given the tree of appended items) and of the accessors
  of \<open>Rlp\<close>.  The locale states what the code relies on: an accessor reads back
  what was appended at its position, and the encoding of a three-element journal
  key is neither as long as a hash (with or without an index byte) nor as the key of
  the latest era, and determines its elements.
\<close>

datatype rlp_item =
    RNum nat
  | RData bytes
  | RSeq "rlp_item list"

record rlp_ops =
  rlp_null :: bytes
  rlp_encode :: "rlp_item \<Rightarrow> bytes"
  rlp_decode_u64 :: "bytes \<Rightarrow> u64 result"
  rlp_val_u32 :: "bytes \<Rightarrow> nat \<Rightarrow> u32 result"
  rlp_data_at :: "bytes \<Rightarrow> nat \<Rightarrow> bytes result"
  rlp_val_h256 :: "bytes \<Rightarrow> nat \<Rightarrow> h256 result"
  rlp_list_h256 :: "bytes \<Rightarrow> nat \<Rightarrow> h256 list result"
  rlp_items_at :: "bytes \<Rightarrow> nat \<Rightarrow> bytes list result"

definition hash_item :: "h256 \<Rightarrow> rlp_item" where
  "hash_item h = RData (to_be_bytes 32 h)"

locale rlp =
  fixes R :: rlp_ops
  assumes decode_u64: "rlp_decode_u64 R (rlp_encode R (RNum (unat (n :: u64)))) = Inr n"
    and val_u32: "i < length xs \<Longrightarrow> xs ! i = RNum (unat (cnt :: u32)) \<Longrightarrow> rlp_val_u32 R (rlp_encode R (RSeq xs)) i = Inr cnt"
    and data_at: "i < length xs \<Longrightarrow> xs ! i = RData dat \<Longrightarrow> rlp_data_at R (rlp_encode R (RSeq xs)) i = Inr dat"
    and val_h256: "i < length xs \<Longrightarrow> xs ! i = hash_item h \<Longrightarrow> rlp_val_h256 R (rlp_encode R (RSeq xs)) i = Inr h"
    and list_h256: "i < length xs \<Longrightarrow> xs ! i = RSeq (map hash_item hs) \<Longrightarrow>
      rlp_list_h256 R (rlp_encode R (RSeq xs)) i = Inr hs"
    and items_at: "i < length xs \<Longrightarrow> xs ! i = RSeq ys \<Longrightarrow> rlp_items_at R (rlp_encode R (RSeq xs)) i = Inr (map (rlp_encode R) ys)"
    and key_length: "a < 2 ^ 64 \<Longrightarrow> b < 2 ^ 64 \<Longrightarrow>
      length (rlp_encode R (RSeq [RNum a, RNum b, RData (replicate 10 0)])) \<notin> {12, 32, 33, 256}"
    and key_inject: "rlp_encode R (RSeq [RNum a, RNum b, RData p]) = rlp_encode R (RSeq [RNum c, RNum d, RData p]) \<Longrightarrow>
      a = c \<and> b = d"

text \<open>A concrete encoder for which the laws hold: items are numbered, and the
  number is the length of the encoding.\<close>

instance rlp_item :: countable
  by countable_datatype

definition unary_encode :: "rlp_item \<Rightarrow> bytes" where
  "unary_encode x = replicate (1000 + to_nat x) 0"

definition unary_decode :: "bytes \<Rightarrow> rlp_item" where
  "unary_decode bs = from_nat (length bs - 1000)"

fun item_at :: "rlp_item \<Rightarrow> nat \<Rightarrow> rlp_item result" where
  "item_at (RSeq xs) i = (if i < length xs then Inr (xs ! i) else Inl (IoErr ''RlpIsTooShort''))"
| "item_at _ i = Inl (IoErr ''RlpExpectedToBeList'')"

fun item_num :: "rlp_item \<Rightarrow> nat result" where
  "item_num (RNum n) = Inr n"
| "item_num _ = Inl (IoErr ''RlpExpectedToBeData'')"

fun item_data :: "rlp_item \<Rightarrow> bytes result" where
  "item_data (RData d) = Inr d"
| "item_data _ = Inl (IoErr ''RlpExpectedToBeData'')"

fun item_list :: "rlp_item \<Rightarrow> rlp_item list result" where
  "item_list (RSeq xs) = Inr xs"
| "item_list _ = Inl (IoErr ''RlpExpectedToBeList'')"

fun item_hashes :: "rlp_item \<Rightarrow> h256 list result" where
  "item_hashes (RSeq xs) = fold_res (\<lambda>x hs. and_then (item_data x) (\<lambda>d. Inr (hs @ [from_be_bytes d]))) xs []"
| "item_hashes _ = Inl (IoErr ''RlpExpectedToBeList'')"

definition unary_rlp :: rlp_ops where
  "unary_rlp = \<lparr>rlp_null = [128], rlp_encode = unary_encode,
     rlp_decode_u64 = (\<lambda>bs. and_then (item_num (unary_decode bs)) (\<lambda>n. Inr (word_of_nat n))),
     rlp_val_u32 = (\<lambda>bs i. and_then (item_at (unary_decode bs) i) (\<lambda>x. and_then (item_num x) (\<lambda>n. Inr (word_of_nat n)))),
     rlp_data_at = (\<lambda>bs i. and_then (item_at (unary_decode bs) i) item_data),
     rlp_val_h256 = (\<lambda>bs i. and_then (item_at (unary_decode bs) i) (\<lambda>x. and_then (item_data x) (\<lambda>d. Inr (from_be_bytes d)))),
     rlp_list_h256 = (\<lambda>bs i. and_then (item_at (unary_decode bs) i) item_hashes),
     rlp_items_at = (\<lambda>bs i. and_then (item_at (unary_decode bs) i) (\<lambda>x. and_then (item_list x) (\<lambda>ys. Inr (map unary_encode ys))))\<rparr>"

lemma unary_round_trip [simp]: "unary_decode (unary_encode x) = x"
  by (simp add: unary_decode_def unary_encode_def)

lemma item_data_hash: "and_then (item_data (hash_item h)) (\<lambda>d. Inr (from_be_bytes d)) = Inr h"
  by (simp add: hash_item_def from_be_to_be)

lemma item_hashes_map: "item_hashes (RSeq (map hash_item hs)) = Inr hs"
proof -
  have "fold_res (\<lambda>x hs. and_then (item_data x) (\<lambda>d. Inr (hs @ [from_be_bytes d]))) (map hash_item hs) acc = Inr (acc @ hs)" for acc
    by (induction hs arbitrary: acc) (simp_all add: hash_item_def from_be_to_be)
  then show ?thesis by simp
qed

interpretation unary: rlp unary_rlp
proof
  show "a = c \<and> b = d" if "rlp_encode unary_rlp (RSeq [RNum a, RNum b, RData p]) = rlp_encode unary_rlp (RSeq [RNum c, RNum d, RData p])"
    for a b c d p
  proof -
    have "unary_decode (rlp_encode unary_rlp (RSeq [RNum a, RNum b, RData p])) =
        unary_decode (rlp_encode unary_rlp (RSeq [RNum c, RNum d, RData p]))" using that by simp
    then show ?thesis by (simp add: unary_rlp_def)
  qed
qed (simp_all add: unary_rlp_def item_hashes_map item_data_hash
    unary_encode_def [of "RSeq [RNum a, RNum b, RData (replicate 10 0)]" for a b] del: item_hashes.simps)

end
