(* ===== verification/OverlayDb.thy ===== *)
theory OverlayDb
  imports MemoryDb Rlp Kvdb
begin

text \<open>
  The disk-backed hash database with a memory overlay and reference counts on
  disk, \<open>overlaydb.rs\<close>.  A batch (\<open>DBTransaction\<close>) is the list of operations
  put into it; the backing store is read through the key-value interface.  The
  lemmas show that committing adds the counts of the overlay to the counts on
  disk and changes nothing a reader sees, and that it fails exactly when some
  count would become negative.
\<close>

record Payload =
  pl_count :: u32
  pl_value :: bytes

definition Payload_item :: "Payload \<Rightarrow> rlp_item" where
  "Payload_item p = RSeq [RNum (unat (pl_count p)), RData (pl_value p)]"

definition Payload_decode :: "rlp_ops \<Rightarrow> bytes \<Rightarrow> Payload result" where
  "Payload_decode R bs =
     and_then (rlp_val_u32 R bs 0) (\<lambda>c. and_then (rlp_data_at R bs 1) (\<lambda>v. Inr \<lparr>pl_count = c, pl_value = v\<rparr>))"

record OverlayDB =
  od_overlay :: MemoryDB
  od_column :: nat

text \<open>\<open>new_memory_db\<close> of \<open>lib.rs\<close>: the null node is the crate's constant for empty data.\<close>

definition new_memory_db :: "rlp_ops \<Rightarrow> (bytes \<Rightarrow> h256) \<Rightarrow> MemoryDB" where
  "new_memory_db R H = from_null_node H (rlp_null R) (rlp_null R)"

definition OverlayDB_new :: "rlp_ops \<Rightarrow> (bytes \<Rightarrow> h256) \<Rightarrow> nat \<Rightarrow> OverlayDB" where
  "OverlayDB_new R H col = \<lparr>od_overlay = new_memory_db R H, od_column = col\<rparr>"

definition hash_key :: "h256 \<Rightarrow> bytes" where
  "hash_key h = to_be_bytes 32 h"

definition payload :: "rlp_ops \<Rightarrow> 's kvdb_ops \<Rightarrow> 's \<Rightarrow> nat \<Rightarrow> h256 \<Rightarrow> Payload option result" where
  "payload R D s col key =
     (case kv_get D s col (hash_key key) of
        None \<Rightarrow> Inr None
      | Some d \<Rightarrow> (case Payload_decode R d of
          Inr p \<Rightarrow> Inr (Some p) | Inl e \<Rightarrow> Inl (Panic ''decoding db value failed'')))"

definition put_payload_in_batch ::
  "rlp_ops \<Rightarrow> nat \<Rightarrow> DBOp list \<Rightarrow> h256 \<Rightarrow> Payload \<Rightarrow> bool \<times> DBOp list" where
  "put_payload_in_batch R col batch key p =
     (if 0 < pl_count p then (False, batch @ [Insert col (hash_key key) (rlp_encode R (Payload_item p))])
      else (True, batch @ [Delete col (hash_key key)]))"

definition error_negatively_reference_hash :: fault where
  "error_negatively_reference_hash = IoErr ''removed from database more times than it was added''"

text \<open>One iteration of the loop over the drained overlay.  A refusal keeps what
  the batch already holds, so the state is returned beside the result.\<close>

definition commit_entry ::
  "rlp_ops \<Rightarrow> 's kvdb_ops \<Rightarrow> 's \<Rightarrow> nat \<Rightarrow> h256 \<times> (bytes \<times> i32) \<Rightarrow> u32 \<times> DBOp list \<Rightarrow>
   unit result \<times> u32 \<times> DBOp list" where
  "commit_entry R D s col e st = (case e of (key, value, rc) \<Rightarrow> case st of (ret, batch) \<Rightarrow>
     if rc = 0 then (Inr (), ret, batch)
     else case payload R D s col key of
       Inl f \<Rightarrow> (Inl f, ret, batch)
     | Inr (Some x) \<Rightarrow>
         (let total_rc = pl_count x + rc in
          if total_rc <s 0 then (Inl error_negatively_reference_hash, ret, batch)
          else (Inr (), ret + 1, snd (put_payload_in_batch R col batch key \<lparr>pl_count = total_rc, pl_value = pl_value x\<rparr>)))
     | Inr None \<Rightarrow>
         if rc <s 0 then (Inl error_negatively_reference_hash, ret, batch)
         else (Inr (), ret + 1, snd (put_payload_in_batch R col batch key \<lparr>pl_count = rc, pl_value = value\<rparr>)))"

fun commit_entries ::
  "rlp_ops \<Rightarrow> 's kvdb_ops \<Rightarrow> 's \<Rightarrow> nat \<Rightarrow> entries \<Rightarrow> u32 \<times> DBOp list \<Rightarrow> u32 result \<times> DBOp list" where
  "commit_entries R D s col [] (ret, batch) = (Inr ret, batch)"
| "commit_entries R D s col (e # es) (ret, batch) =
     (case commit_entry R D s col e (ret, batch) of
        (Inr u, ret', batch') \<Rightarrow> commit_entries R D s col es (ret', batch')
      | (Inl f, ret', batch') \<Rightarrow> (Inl f, batch'))"

definition commit_to_batch ::
  "rlp_ops \<Rightarrow> 's kvdb_ops \<Rightarrow> 's \<Rightarrow> OverlayDB \<Rightarrow> DBOp list \<Rightarrow> u32 result \<times> DBOp list \<times> OverlayDB" where
  "commit_to_batch R D s db batch =
     (let (es, m) = drain (od_overlay db);
          (r, batch') = commit_entries R D s (od_column db) es (0, batch)
      in (r, batch', db\<lparr>od_overlay := m\<rparr>))"

definition revert :: "OverlayDB \<Rightarrow> OverlayDB" where
  "revert db = db\<lparr>od_overlay := MemoryDB_clear (od_overlay db)\<rparr>"

definition commit_refs :: "OverlayDB \<Rightarrow> h256 \<Rightarrow> i32" where
  "commit_refs db key = (case raw (od_overlay db) key of Some (d, rc) \<Rightarrow> rc | None \<Rightarrow> 0)"

definition OverlayDB_get ::
  "rlp_ops \<Rightarrow> 's kvdb_ops \<Rightarrow> 's \<Rightarrow> OverlayDB \<Rightarrow> h256 \<Rightarrow> bytes option result" where
  "OverlayDB_get R D s db key =
     (let k = raw (od_overlay db) key; memrc = (case k of Some (d, rc) \<Rightarrow> rc | None \<Rightarrow> 0) in
      case k of
        Some (d, rc) \<Rightarrow> if 0 <s rc then Inr (Some d)
          else and_then (payload R D s (od_column db) key) (\<lambda>p. Inr (case p of
            Some x \<Rightarrow> if 0 <s pl_count x + memrc then Some (pl_value x) else None | None \<Rightarrow> None))
      | None \<Rightarrow> and_then (payload R D s (od_column db) key) (\<lambda>p. Inr (case p of
            Some x \<Rightarrow> if 0 <s pl_count x + memrc then Some (pl_value x) else None | None \<Rightarrow> None)))"

definition OverlayDB_contains ::
  "rlp_ops \<Rightarrow> 's kvdb_ops \<Rightarrow> 's \<Rightarrow> OverlayDB \<Rightarrow> h256 \<Rightarrow> bool result" where
  "OverlayDB_contains R D s db key =
     (let k = raw (od_overlay db) key in
      case k of
        Some (d, rc) \<Rightarrow> if 0 <s rc then Inr True
          else and_then (payload R D s (od_column db) key) (\<lambda>p. Inr (case p of
            Some x \<Rightarrow> 0 <s pl_count x + rc | None \<Rightarrow> False))
      | None \<Rightarrow> and_then (payload R D s (od_column db) key) (\<lambda>p. Inr (case p of
            Some x \<Rightarrow> 0 <s pl_count x + 0 | None \<Rightarrow> False)))"

definition OverlayDB_insert :: "(bytes \<Rightarrow> h256) \<Rightarrow> OverlayDB \<Rightarrow> bytes \<Rightarrow> h256 \<times> OverlayDB" where
  "OverlayDB_insert H db value = (case HashDB_insert H (od_overlay db) value of (k, m) \<Rightarrow> (k, db\<lparr>od_overlay := m\<rparr>))"

definition OverlayDB_emplace :: "OverlayDB \<Rightarrow> h256 \<Rightarrow> bytes \<Rightarrow> OverlayDB" where
  "OverlayDB_emplace db key value = db\<lparr>od_overlay := HashDB_emplace (od_overlay db) key value\<rparr>"

definition OverlayDB_remove :: "OverlayDB \<Rightarrow> h256 \<Rightarrow> OverlayDB" where
  "OverlayDB_remove db key = db\<lparr>od_overlay := HashDB_remove (od_overlay db) key\<rparr>"

lemma OverlayDB_get_payload:
  "(\<And>h. payload R D s' (od_column db) h = payload R D s (od_column db) h) \<Longrightarrow>
   OverlayDB_get R D s' db k = OverlayDB_get R D s db k"
  by (auto simp: OverlayDB_get_def Let_def split: option.split)

section \<open>Counts on disk\<close>

text \<open>The contents of the column, as a map from hashes to records.\<close>

definition disk_count :: "rlp_ops \<Rightarrow> 's kvdb_ops \<Rightarrow> 's \<Rightarrow> nat \<Rightarrow> h256 \<Rightarrow> int" where
  "disk_count R D s col k = (case payload R D s col k of Inr (Some x) \<Rightarrow> sint (pl_count x) | _ \<Rightarrow> 0)"

definition disk_ok :: "rlp_ops \<Rightarrow> 's kvdb_ops \<Rightarrow> 's \<Rightarrow> nat \<Rightarrow> bool" where
  "disk_ok R D s col \<longleftrightarrow> (\<forall>k. \<exists>p. payload R D s col k = Inr p \<and> (\<forall>x. p = Some x \<longrightarrow> 0 < sint (pl_count x)))"

definition total :: "rlp_ops \<Rightarrow> 's kvdb_ops \<Rightarrow> 's \<Rightarrow> OverlayDB \<Rightarrow> h256 \<Rightarrow> int" where
  "total R D s db k = disk_count R D s (od_column db) k + sint (refs (od_overlay db) k)"

text \<open>No count overflows, and a value counted in the overlay is the one on disk if there is one.\<close>

definition overlay_ok :: "rlp_ops \<Rightarrow> 's kvdb_ops \<Rightarrow> 's \<Rightarrow> OverlayDB \<Rightarrow> bool" where
  "overlay_ok R D s db \<longleftrightarrow> md_ok (od_overlay db) \<and> disk_ok R D s (od_column db) \<and>
     (\<forall>k. total R D s db k < 2 ^ 31) \<and>
     (\<forall>k d rc x. map_of (md_data (od_overlay db)) k = Some (d, rc) \<longrightarrow> 0 <s rc \<longrightarrow>
        payload R D s (od_column db) k = Inr (Some x) \<longrightarrow> d = pl_value x)"

definition payload_op :: "rlp_ops \<Rightarrow> nat \<Rightarrow> h256 \<Rightarrow> Payload \<Rightarrow> DBOp" where
  "payload_op R col key p =
     (if 0 < pl_count p then Insert col (hash_key key) (rlp_encode R (Payload_item p)) else Delete col (hash_key key))"

text \<open>The record an entry of the overlay leaves.\<close>

definition merged :: "rlp_ops \<Rightarrow> 's kvdb_ops \<Rightarrow> 's \<Rightarrow> nat \<Rightarrow> h256 \<times> (bytes \<times> i32) \<Rightarrow> Payload" where
  "merged R D s col e = (case e of (key, value, rc) \<Rightarrow>
     case payload R D s col key of
       Inr (Some x) \<Rightarrow> \<lparr>pl_count = pl_count x + rc, pl_value = pl_value x\<rparr>
     | _ \<Rightarrow> \<lparr>pl_count = rc, pl_value = value\<rparr>)"

definition live :: "entries \<Rightarrow> entries" where
  "live es = filter (\<lambda>(k, d, rc). rc \<noteq> 0) es"

definition commit_ops :: "rlp_ops \<Rightarrow> 's kvdb_ops \<Rightarrow> 's \<Rightarrow> OverlayDB \<Rightarrow> DBOp list" where
  "commit_ops R D s db = map (\<lambda>e. payload_op R (od_column db) (fst e) (merged R D s (od_column db) e))
     (live (md_data (od_overlay db)))"

lemma hash_key_inject [simp]: "hash_key a = hash_key b \<longleftrightarrow> a = b"
  by (simp add: hash_key_def to_be_bytes_inject)

lemma commit_entry_cases:
  assumes "disk_ok R D s col"
  shows "commit_entry R D s col (key, value, rc) (ret, batch) =
    (if rc = 0 then (Inr (), ret, batch)
     else if pl_count (merged R D s col (key, value, rc)) <s 0 then (Inl error_negatively_reference_hash, ret, batch)
     else (Inr (), ret + 1, batch @ [payload_op R col key (merged R D s col (key, value, rc))]))"
proof -
  obtain p where "payload R D s col key = Inr p" using assms by (auto simp: disk_ok_def)
  then show ?thesis
    by (cases p) (simp_all add: commit_entry_def merged_def Let_def put_payload_in_batch_def payload_op_def)
qed

lemma commit_entries_result:
  assumes "disk_ok R D s col"
  shows "commit_entries R D s col es (ret, batch) =
    (if list_all (\<lambda>e. \<not> pl_count (merged R D s col e) <s 0) (live es)
     then (Inr (ret + word_of_nat (length (live es))), batch @ map (\<lambda>e. payload_op R col (fst e) (merged R D s col e)) (live es))
     else (Inl error_negatively_reference_hash, batch @ map (\<lambda>e. payload_op R col (fst e) (merged R D s col e))
        (takeWhile (\<lambda>e. \<not> pl_count (merged R D s col e) <s 0) (live es))))"
proof (induction es arbitrary: ret batch)
  case (Cons e es)
  obtain key x rc where e: "e = (key, x, rc)" by (cases e)
  show ?case
    using Cons.IH commit_entry_cases [OF assms, of key x rc ret batch] by (simp add: e live_def algebra_simps)
qed (simp add: live_def)

lemma apply_payload_ops:
  "distinct (map fst es) \<Longrightarrow>
   apply_ops (map (\<lambda>e. payload_op R col (fst e) (f e)) es) m col (hash_key k) =
     (case map_of es k of
        Some v \<Rightarrow> if 0 < pl_count (f (k, v)) then Some (rlp_encode R (Payload_item (f (k, v)))) else None
      | None \<Rightarrow> m col (hash_key k))"
proof (induction es arbitrary: m)
  case (Cons e es)
  obtain a v where e: "e = (a, v)" by (cases e)
  have a: "map_of es a = None" using Cons.prems by (simp add: e map_of_eq_None_iff)
  show ?case using Cons.IH Cons.prems a by (auto simp: e payload_op_def split: option.splits)
qed simp

lemma sint_add_ok:
  fixes a b :: i32
  assumes "- (2 ^ 31) \<le> sint a + sint b" "sint a + sint b < 2 ^ 31"
  shows "sint (a + b) = sint a + sint b"
proof -
  have "sint (a + b) = sint (word_of_int (sint a + sint b) :: i32)" by simp
  also have "\<dots> = signed_take_bit 31 (sint a + sint b)" by (simp only: sint_sbintrunc') simp
  also have "\<dots> = sint a + sint b" using assms by (intro signed_take_bit_int_eq_self) simp_all
  finally show ?thesis .
qed

lemma sint_range: "- (2 ^ 31) \<le> sint (w :: i32)" "sint (w :: i32) < 2 ^ 31"
  using sint_ge [of w] sint_lt [of w] by simp_all

lemma word_pos: "0 \<le> sint (w :: i32) \<Longrightarrow> 0 < w \<longleftrightarrow> 0 < sint w"
  by (metis order_le_less signed_0 sint_0 signed_eq_0_iff word_gt_0 less_irrefl)

lemma live_map_of:
  "distinct (map fst es) \<Longrightarrow> map_of (live es) k =
    (case map_of es k of Some (d, rc) \<Rightarrow> if rc \<noteq> 0 then Some (d, rc) else None | None \<Rightarrow> None)"
  using map_of_filter_snd [of es "\<lambda>(d, rc). rc \<noteq> 0" k]
  by (auto simp: live_def case_prod_unfold split: option.splits)

context rlp
begin

lemma payload_round_trip: "Payload_decode R (rlp_encode R (Payload_item p)) = Inr p"
  using val_u32 [of 0 "[RNum (unat (pl_count p)), RData (pl_value p)]" "pl_count p"]
    data_at [of 1 "[RNum (unat (pl_count p)), RData (pl_value p)]" "pl_value p"]
  by (simp add: Payload_decode_def Payload_item_def)

lemma payload_after:
  assumes d: "distinct (map fst es)" and g: "kv_get D s' col (hash_key k) =
      apply_ops (map (\<lambda>e. payload_op R col (fst e) (f e)) es) (kv_get D s) col (hash_key k)"
  shows "payload R D s' col k =
    (case map_of es k of
       Some v \<Rightarrow> Inr (if 0 < pl_count (f (k, v)) then Some (f (k, v)) else None)
     | None \<Rightarrow> payload R D s col k)"
  using apply_payload_ops [OF d, of R col f "kv_get D s" k]
  by (auto simp: payload_def g payload_round_trip split: option.splits)

lemma merged_count:
  assumes ok: "overlay_ok R D s db" and e: "map_of (md_data (od_overlay db)) k = Some (d, rc)"
  shows "sint (pl_count (merged R D s (od_column db) (k, d, rc))) = total R D s db k"
proof -
  obtain p where p: "payload R D s (od_column db) k = Inr p" "\<And>x. p = Some x \<Longrightarrow> 0 < sint (pl_count x)"
    using ok unfolding overlay_ok_def disk_ok_def by blast
  have t: "total R D s db k < 2 ^ 31" using ok by (simp add: overlay_ok_def)
  show ?thesis
  proof (cases p)
    case None
    then show ?thesis using p e by (simp add: merged_def total_def disk_count_def refs_def)
  next
    case (Some x)
    then have "total R D s db k = sint (pl_count x) + sint rc" using p(1) e by (simp add: total_def disk_count_def refs_def)
    then show ?thesis using p Some t sint_range(1) [of rc] by (simp add: merged_def sint_add_ok)
  qed
qed

lemma commit_result:
  assumes ok: "overlay_ok R D s db"
  shows "list_all (\<lambda>e. \<not> pl_count (merged R D s (od_column db) e) <s 0) (live (md_data (od_overlay db))) \<longleftrightarrow>
    (\<forall>k. 0 \<le> total R D s db k)"
proof -
  let ?es = "md_data (od_overlay db)" and ?c = "od_column db"
  have dist: "distinct (map fst ?es)" using ok by (simp add: overlay_ok_def md_ok_def)
  have e: "map_of ?es k = Some (d, rc) \<longleftrightarrow> (k, d, rc) \<in> set ?es" for k d rc using dist by simp
  have z: "0 \<le> total R D s db k" if "map_of ?es k = None \<or> (\<exists>d. map_of ?es k = Some (d, 0))" for k
  proof -
    have "0 \<le> disk_count R D s ?c k"
      using ok unfolding overlay_ok_def disk_ok_def disk_count_def by (metis (mono_tags, lifting) less_imp_le option.case_eq_if option.exhaust_sel order_refl sum.simps(6))
    then show ?thesis using that by (auto simp: total_def refs_def)
  qed
  have "list_all (\<lambda>e. \<not> pl_count (merged R D s ?c e) <s 0) (live ?es) \<longleftrightarrow>
      (\<forall>k d rc. map_of ?es k = Some (d, rc) \<longrightarrow> rc \<noteq> 0 \<longrightarrow> 0 \<le> total R D s db k)"
    using merged_count [OF ok] e by (force simp: list_all_iff live_def pos_sint)
  also have "\<dots> \<longleftrightarrow> (\<forall>k. 0 \<le> total R D s db k)" using z by (metis option.exhaust surj_pair)
  finally show ?thesis .
qed

lemma commit_to_batch_result:
  assumes ok: "overlay_ok R D s db"
  shows "case commit_to_batch R D s db batch of (r, batch', db') \<Rightarrow>
    db' = db\<lparr>od_overlay := snd (drain (od_overlay db))\<rparr> \<and>
    (if \<forall>k. 0 \<le> total R D s db k then (\<exists>n. r = Inr n) \<and> batch' = batch @ commit_ops R D s db
     else r = Inl error_negatively_reference_hash)"
proof -
  have dk: "disk_ok R D s (od_column db)" using ok by (simp add: overlay_ok_def)
  show ?thesis
    using commit_entries_result [OF dk, of "md_data (od_overlay db)" 0 batch] commit_result [OF ok]
    by (auto simp: commit_to_batch_def drain_def commit_ops_def split: if_splits)
qed

lemma after_commit:
  assumes ok: "overlay_ok R D s db" and nn: "\<And>k. 0 \<le> total R D s db k"
    and g: "\<And>k. kv_get D s' (od_column db) (hash_key k) = apply_ops (commit_ops R D s db) (kv_get D s) (od_column db) (hash_key k)"
  shows "payload R D s' (od_column db) k =
    (case map_of (md_data (od_overlay db)) k of
       Some (d, rc) \<Rightarrow> if rc = 0 then payload R D s (od_column db) k
         else Inr (if 0 < total R D s db k then Some (merged R D s (od_column db) (k, d, rc)) else None)
     | None \<Rightarrow> payload R D s (od_column db) k)"
proof -
  let ?es = "md_data (od_overlay db)"
  have dist: "distinct (map fst ?es)" using ok by (simp add: overlay_ok_def md_ok_def)
  then have dl: "distinct (map fst (live ?es))" by (simp add: live_def distinct_map_filter)
  have "0 < pl_count (merged R D s (od_column db) (k, d, rc)) \<longleftrightarrow> 0 < total R D s db k"
    if "map_of ?es k = Some (d, rc)" for d rc
    using merged_count [OF ok that] nn [of k] word_pos by metis
  then show ?thesis
    unfolding payload_after [OF dl g [unfolded commit_ops_def]] live_map_of [OF dist] by (auto split: option.splits)
qed

lemma disk_after:
  assumes ok: "overlay_ok R D s db" and nn: "\<And>k. 0 \<le> total R D s db k"
    and g: "\<And>k. kv_get D s' (od_column db) (hash_key k) = apply_ops (commit_ops R D s db) (kv_get D s) (od_column db) (hash_key k)"
  shows "disk_ok R D s' (od_column db)" and "disk_count R D s' (od_column db) k = total R D s db k"
proof -
  let ?es = "md_data (od_overlay db)"
  note pa = after_commit [OF ok nn g]
  have dk: "disk_ok R D s (od_column db)" using ok by (simp add: overlay_ok_def)
  show "disk_ok R D s' (od_column db)"
    using dk merged_count [OF ok] unfolding disk_ok_def pa by (auto split: option.splits)
  show "disk_count R D s' (od_column db) k = total R D s db k"
  proof (cases "map_of ?es k")
    case None
    then show ?thesis by (simp add: disk_count_def pa total_def refs_def)
  next
    case (Some e)
    obtain d rc where e: "e = (d, rc)" by (cases e)
    show ?thesis
      using Some e merged_count [OF ok, of k d rc] nn [of k] by (cases "rc = 0") (auto simp: disk_count_def pa total_def refs_def)
  qed
qed

lemma read_after:
  assumes ok: "overlay_ok R D s db" and nn: "\<And>k. 0 \<le> total R D s db k"
    and g: "\<And>k. kv_get D s' (od_column db) (hash_key k) = apply_ops (commit_ops R D s db) (kv_get D s) (od_column db) (hash_key k)"
  shows "OverlayDB_get R D s' (db\<lparr>od_overlay := snd (drain (od_overlay db))\<rparr>) k = OverlayDB_get R D s db k"
proof (cases "k = hashed_null_node (od_overlay db)")
  case True
  then show ?thesis by (simp add: OverlayDB_get_def raw_def drain_def pos_sint)
next
  case False
  let ?es = "md_data (od_overlay db)" and ?c = "od_column db"
  note pa = after_commit [OF ok nn g]
  obtain p where p: "payload R D s ?c k = Inr p" "\<And>x. p = Some x \<Longrightarrow> 0 < sint (pl_count x)"
    using ok unfolding overlay_ok_def disk_ok_def by blast
  have l: "OverlayDB_get R D s' (db\<lparr>od_overlay := snd (drain (od_overlay db))\<rparr>) k =
      and_then (payload R D s' ?c k) (\<lambda>p. Inr (case p of Some x \<Rightarrow> if 0 < sint (pl_count x) then Some (pl_value x) else None | None \<Rightarrow> None))"
    using False by (simp add: OverlayDB_get_def raw_def drain_def pos_sint cong: option.case_cong)
  show ?thesis
  proof (cases "map_of ?es k")
    case None
    then show ?thesis unfolding l pa using False p by (simp add: OverlayDB_get_def raw_def pos_sint cong: option.case_cong)
  next
    case (Some e)
    obtain d rc where e: "e = (d, rc)" by (cases e)
    have m: "sint (pl_count (merged R D s ?c (k, d, rc))) = total R D s db k" using merged_count [OF ok] Some e by simp
    have v: "p = Some x \<Longrightarrow> 0 < sint rc \<Longrightarrow> d = pl_value x" for x
      using ok Some e p(1) by (auto simp: overlay_ok_def pos_sint)
    have t: "total R D s db k = (case p of Some x \<Rightarrow> sint (pl_count x) + sint rc | None \<Rightarrow> sint rc)"
      using p(1) Some e by (simp add: total_def disk_count_def refs_def split: option.splits)
    show ?thesis unfolding l pa using False p v m t Some e nn [of k]
      by (cases p) (auto simp: OverlayDB_get_def raw_def pos_sint merged_def)
  qed
qed

end

section \<open>Properties\<close>

text \<open>Committing the overlay is transparent and adds the counts: when no key
  would be counted below zero, \<open>commit_to_batch\<close> succeeds, and after its batch
  is written the count of every key on disk is the former count plus the count of
  the overlay, and every read gives what it gave before the commit; when some key
  would be counted below zero the commit is refused.  In both cases the overlay
  is left empty.\<close>

theorem overlay_commit_adds_counts:
  assumes "rlp R" and "overlay_ok R D s db" and "commit_to_batch R D s db [] = (r, batch, db')"
  shows "md_data (od_overlay db') = [] \<and>
    (if \<forall>k. 0 \<le> total R D s db k
     then (\<exists>n. r = Inr n) \<and> (\<forall>s'. kv_get D s' = apply_ops batch (kv_get D s) \<longrightarrow>
        disk_ok R D s' (od_column db) \<and>
        (\<forall>k. disk_count R D s' (od_column db) k = total R D s db k \<and>
             OverlayDB_get R D s' db' k = OverlayDB_get R D s db k))
     else r = Inl error_negatively_reference_hash)"
proof -
  have db': "db' = db\<lparr>od_overlay := snd (drain (od_overlay db))\<rparr>"
    using assms(3) by (auto simp: commit_to_batch_def Let_def drain_def split: prod.splits)
  note cr = rlp.commit_to_batch_result [OF assms(1,2), of "[]", unfolded assms(3)]
  show ?thesis
  proof (cases "\<forall>k. 0 \<le> total R D s db k")
    case True
    then show ?thesis
      using cr rlp.disk_after [OF assms(1,2)] rlp.read_after [OF assms(1,2)] by (auto simp: db' drain_def)
  next
    case False
    then have "r = Inl error_negatively_reference_hash" using cr by (auto split: if_splits)
    with False show ?thesis by (auto simp: db' drain_def)
  qed
qed

definition demo_overlay :: OverlayDB where
  "demo_overlay = snd (OverlayDB_insert toy_hash (OverlayDB_new unary_rlp toy_hash 0) [1, 2])"

lemma demo_entries: "md_data (od_overlay demo_overlay) = [(2, [1, 2], 1)]"
  by (simp add: demo_overlay_def OverlayDB_insert_def OverlayDB_new_def new_memory_db_def from_null_node_def unary_rlp_def
      HashDB_insert_def PlainDB_emplace_def toy_hash_def)

lemma demo_overlay_ok: "overlay_ok unary_rlp plain_kvdb (\<lambda>_ _. None) demo_overlay"
proof -
  have p: "payload unary_rlp plain_kvdb (\<lambda>_ _. None) c k = Inr None" for c k by (simp add: payload_def plain_kvdb_def)
  show ?thesis by (auto simp: overlay_ok_def md_ok_def demo_entries disk_ok_def p total_def disk_count_def refs_def)
qed

theorem overlay_commit_adds_counts_witness:
  "\<exists>n batch db'. commit_to_batch unary_rlp plain_kvdb (\<lambda>_ _. None) demo_overlay [] = (Inr n, batch, db') \<and>
     disk_count unary_rlp plain_kvdb (apply_ops batch (\<lambda>_ _. None)) (od_column demo_overlay) 2 =
       total unary_rlp plain_kvdb (\<lambda>_ _. None) demo_overlay 2"
proof -
  obtain r batch db' where c: "commit_to_batch unary_rlp plain_kvdb (\<lambda>_ _. None) demo_overlay [] = (r, batch, db')"
    by (metis prod_cases3)
  have "payload unary_rlp plain_kvdb (\<lambda>_ _. None) col k = Inr None" for col k by (simp add: payload_def plain_kvdb_def)
  then have "0 \<le> total unary_rlp plain_kvdb (\<lambda>_ _. None) demo_overlay k" for k
    by (simp add: total_def disk_count_def refs_def demo_entries)
  with overlay_commit_adds_counts [OF unary.rlp_axioms demo_overlay_ok c] c show ?thesis
    by (auto simp: plain_kvdb_def)
qed

end
