(* ===== verification/ArchiveDb.thy ===== *)
theory ArchiveDb
  imports OverlayDb
begin

text \<open>
  The archive journal database, \<open>archivedb.rs\<close>, and the parts of \<open>lib.rs\<close>
  the journal databases share (the era key and the choice of algorithm): a
  memory overlay over the backing store in which nothing is ever removed.  The
  lemmas show that journalling changes nothing a reader sees and that a value
  once on disk stays readable.
\<close>

section \<open>Algorithm\<close>

datatype Algorithm = Archive | EarlyMerge | OverlayRecent | RefCounted

definition Algorithm_from_str :: "string \<Rightarrow> string + Algorithm" where
  "Algorithm_from_str s =
     (if s = ''archive'' then Inr Archive
      else if s = ''light'' then Inr EarlyMerge
      else if s = ''fast'' then Inr OverlayRecent
      else if s = ''basic'' then Inr RefCounted
      else Inl (''Invalid algorithm: '' @ s))"

fun Algorithm_as_str :: "Algorithm \<Rightarrow> string" where
  "Algorithm_as_str Archive = ''archive''"
| "Algorithm_as_str EarlyMerge = ''light''"
| "Algorithm_as_str OverlayRecent = ''fast''"
| "Algorithm_as_str RefCounted = ''basic''"

fun Algorithm_as_internal_name_str :: "Algorithm \<Rightarrow> string" where
  "Algorithm_as_internal_name_str Archive = ''archive''"
| "Algorithm_as_internal_name_str EarlyMerge = ''earlymerge''"
| "Algorithm_as_internal_name_str OverlayRecent = ''overlayrecent''"
| "Algorithm_as_internal_name_str RefCounted = ''refcounted''"

fun is_stable :: "Algorithm \<Rightarrow> bool" where
  "is_stable Archive = True"
| "is_stable OverlayRecent = True"
| "is_stable _ = False"

definition all_types :: "Algorithm list" where
  "all_types = [Archive, EarlyMerge, OverlayRecent, RefCounted]"

lemma algorithm_round_trip: "Algorithm_from_str (Algorithm_as_str a) = Inr a"
  by (cases a) (simp_all add: Algorithm_from_str_def)

section \<open>ArchiveDB\<close>

definition LATEST_ERA_KEY :: bytes where
  "LATEST_ERA_KEY = [108, 97, 115, 116, 0, 0, 0, 0, 0, 0, 0, 0]"

definition read_latest_era :: "rlp_ops \<Rightarrow> 's kvdb_ops \<Rightarrow> 's \<Rightarrow> nat \<Rightarrow> u64 option result" where
  "read_latest_era R D s col =
     (case kv_get D s col LATEST_ERA_KEY of
        None \<Rightarrow> Inr None
      | Some v \<Rightarrow> (case rlp_decode_u64 R v of
          Inr e \<Rightarrow> Inr (Some e) | Inl f \<Rightarrow> Inl (Panic ''decoding db value failed'')))"

record ArchiveDB =
  ar_overlay :: MemoryDB
  ar_latest_era :: "u64 option"
  ar_column :: nat

definition ArchiveDB_new :: "rlp_ops \<Rightarrow> (bytes \<Rightarrow> h256) \<Rightarrow> 's kvdb_ops \<Rightarrow> 's \<Rightarrow> nat \<Rightarrow> ArchiveDB result" where
  "ArchiveDB_new R H D s col = and_then (read_latest_era R D s col) (\<lambda>e.
     Inr \<lparr>ar_overlay = new_memory_db R H, ar_latest_era = e, ar_column = col\<rparr>)"

definition ArchiveDB_payload :: "'s kvdb_ops \<Rightarrow> 's \<Rightarrow> ArchiveDB \<Rightarrow> h256 \<Rightarrow> bytes option" where
  "ArchiveDB_payload D s db key = kv_get D s (ar_column db) (hash_key key)"

definition ArchiveDB_get :: "'s kvdb_ops \<Rightarrow> 's \<Rightarrow> ArchiveDB \<Rightarrow> h256 \<Rightarrow> bytes option" where
  "ArchiveDB_get D s db key =
     (case raw (ar_overlay db) key of
        Some (d, rc) \<Rightarrow> if 0 <s rc then Some d else ArchiveDB_payload D s db key
      | None \<Rightarrow> ArchiveDB_payload D s db key)"

definition ArchiveDB_contains :: "'s kvdb_ops \<Rightarrow> 's \<Rightarrow> ArchiveDB \<Rightarrow> h256 \<Rightarrow> bool" where
  "ArchiveDB_contains D s db key = (ArchiveDB_get D s db key \<noteq> None)"

definition ArchiveDB_insert :: "(bytes \<Rightarrow> h256) \<Rightarrow> ArchiveDB \<Rightarrow> bytes \<Rightarrow> h256 \<times> ArchiveDB" where
  "ArchiveDB_insert H db value = (case HashDB_insert H (ar_overlay db) value of (k, m) \<Rightarrow> (k, db\<lparr>ar_overlay := m\<rparr>))"

definition ArchiveDB_emplace :: "ArchiveDB \<Rightarrow> h256 \<Rightarrow> bytes \<Rightarrow> ArchiveDB" where
  "ArchiveDB_emplace db key value = db\<lparr>ar_overlay := HashDB_emplace (ar_overlay db) key value\<rparr>"

definition ArchiveDB_remove :: "ArchiveDB \<Rightarrow> h256 \<Rightarrow> ArchiveDB" where
  "ArchiveDB_remove db key = db\<lparr>ar_overlay := HashDB_remove (ar_overlay db) key\<rparr>"

definition ArchiveDB_is_empty :: "ArchiveDB \<Rightarrow> bool" where
  "ArchiveDB_is_empty db = (ar_latest_era db = None)"

text \<open>One iteration of the loop of \<open>journal_under\<close>; the counts are \<open>usize\<close>.\<close>

definition journal_entry ::
  "nat \<Rightarrow> h256 \<times> (bytes \<times> i32) \<Rightarrow> nat \<times> nat \<times> DBOp list \<Rightarrow> (nat \<times> nat \<times> DBOp list) result" where
  "journal_entry col e st = (case e of (key, value, rc) \<Rightarrow> case st of (inserts, deletes, batch) \<Rightarrow>
     if 0 <s rc then Inr (inserts + 1, deletes, batch @ [Insert col (hash_key key) value])
     else if rc <s 0 then and_then (ensure (rc = - 1) ''assertion failed: rc == -1'') (\<lambda>_.
            Inr (inserts, deletes + 1, batch))
     else Inr (inserts, deletes, batch))"

definition ArchiveDB_journal_under ::
  "rlp_ops \<Rightarrow> ArchiveDB \<Rightarrow> DBOp list \<Rightarrow> u64 \<Rightarrow> h256 \<Rightarrow> (u32 \<times> DBOp list \<times> ArchiveDB) result" where
  "ArchiveDB_journal_under R db batch now block_id =
     (let (es, m) = drain (ar_overlay db) in
      and_then (fold_res (journal_entry (ar_column db)) es (0, 0, batch)) (\<lambda>(inserts, deletes, batch1).
        if (case ar_latest_era db of None \<Rightarrow> True | Some e \<Rightarrow> e < now)
        then Inr (word_of_nat (inserts + deletes),
                  batch1 @ [Insert (ar_column db) LATEST_ERA_KEY (rlp_encode R (RNum (unat now)))],
                  db\<lparr>ar_overlay := m, ar_latest_era := Some now\<rparr>)
        else Inr (word_of_nat (inserts + deletes), batch1, db\<lparr>ar_overlay := m\<rparr>)))"

definition ArchiveDB_mark_canonical ::
  "ArchiveDB \<Rightarrow> DBOp list \<Rightarrow> u64 \<Rightarrow> h256 \<Rightarrow> (u32 \<times> DBOp list \<times> ArchiveDB) result" where
  "ArchiveDB_mark_canonical db batch end_era canon_id = Inr (0, batch, db)"

definition inject_entry ::
  "'s kvdb_ops \<Rightarrow> 's \<Rightarrow> nat \<Rightarrow> h256 \<times> (bytes \<times> i32) \<Rightarrow> nat \<times> nat \<times> DBOp list \<Rightarrow> (nat \<times> nat \<times> DBOp list) result" where
  "inject_entry D s col e st = (case e of (key, value, rc) \<Rightarrow> case st of (inserts, deletes, batch) \<Rightarrow>
     if 0 <s rc then
       (if kv_get D s col (hash_key key) \<noteq> None then Inl (IoErr ''AlreadyExists'')
        else Inr (inserts + 1, deletes, batch @ [Insert col (hash_key key) value]))
     else if rc <s 0 then and_then (ensure (rc = - 1) ''assertion failed: rc == -1'') (\<lambda>_.
       if kv_get D s col (hash_key key) = None then Inl error_negatively_reference_hash
       else Inr (inserts, deletes + 1, batch @ [Delete col (hash_key key)]))
     else Inr (inserts, deletes, batch))"

text \<open>On a refusal the overlay has been drained; the batch of a refused call is dropped by its callers.\<close>

definition ArchiveDB_inject ::
  "'s kvdb_ops \<Rightarrow> 's \<Rightarrow> ArchiveDB \<Rightarrow> DBOp list \<Rightarrow> (u32 \<times> DBOp list) result \<times> ArchiveDB" where
  "ArchiveDB_inject D s db batch =
     (let (es, m) = drain (ar_overlay db) in
      (and_then (fold_res (inject_entry D s (ar_column db)) es (0, 0, batch)) (\<lambda>(inserts, deletes, batch1).
         Inr (word_of_nat (inserts + deletes), batch1)), db\<lparr>ar_overlay := m\<rparr>))"

definition ArchiveDB_consolidate :: "ArchiveDB \<Rightarrow> MemoryDB \<Rightarrow> ArchiveDB" where
  "ArchiveDB_consolidate db other = db\<lparr>ar_overlay := consolidate (ar_overlay db) other\<rparr>"

text \<open>\<open>keys\<close>: the argument is what \<open>backing.iter(column)\<close> lists.  \<open>H256::from_slice\<close>
  panics on a slice that is not 32 bytes long.\<close>

definition H256_from_slice :: "bytes \<Rightarrow> h256 result" where
  "H256_from_slice bs = (if length bs = 32 then Inr (from_be_bytes bs) else Inl (Panic ''assertion failed: left == right''))"

definition backing_keys :: "(bytes \<times> bytes) list \<Rightarrow> (h256 \<times> i32) list result" where
  "backing_keys it = fold_res (\<lambda>(key, _) ret. and_then (H256_from_slice key) (\<lambda>h. Inr (AList.update h 1 ret))) it []"

definition add_refs :: "h256 \<times> i32 \<Rightarrow> (h256 \<times> i32) list \<Rightarrow> (h256 \<times> i32) list" where
  "add_refs kr ret = (case kr of (key, rc) \<Rightarrow> AList.update key (case map_of ret key of Some n \<Rightarrow> n + rc | None \<Rightarrow> rc) ret)"

definition ArchiveDB_keys :: "(bytes \<times> bytes) list \<Rightarrow> ArchiveDB \<Rightarrow> (h256 \<times> i32) list result" where
  "ArchiveDB_keys it db = and_then (backing_keys it) (\<lambda>ret. Inr (fold add_refs (MemoryDB_keys (ar_overlay db)) ret))"

text \<open>\<open>state\<close>: the argument is \<open>get_by_prefix\<close> of the backing store.\<close>

definition DB_PREFIX_LEN :: nat where
  "DB_PREFIX_LEN = 12"

definition ArchiveDB_state :: "(nat \<Rightarrow> bytes \<Rightarrow> bytes option) \<Rightarrow> ArchiveDB \<Rightarrow> h256 \<Rightarrow> bytes option" where
  "ArchiveDB_state get_by_prefix db key = get_by_prefix (ar_column db) (take DB_PREFIX_LEN (hash_key key))"

lemma backing_keys_panic:
  assumes "key \<in> fst ` set it" "length key \<noteq> 32"
  shows "\<exists>m. backing_keys it = Inl (Panic m)"
proof -
  have "\<exists>m. fold_res (\<lambda>(key, _) ret. and_then (H256_from_slice key) (\<lambda>h. Inr (AList.update h 1 ret))) it acc = Inl (Panic m)" for acc
    using assms by (induction it arbitrary: acc) (auto simp: H256_from_slice_def case_prod_unfold)
  then show ?thesis unfolding backing_keys_def .
qed

section \<open>What journalling writes\<close>

definition counted :: "entries \<Rightarrow> entries" where
  "counted es = filter (\<lambda>(k, d, rc). 0 <s rc) es"

lemma counted_map_of:
  "distinct (map fst es) \<Longrightarrow> map_of (counted es) k =
    (case map_of es k of Some (d, rc) \<Rightarrow> if 0 <s rc then Some (d, rc) else None | None \<Rightarrow> None)"
  using map_of_filter_snd [of es "\<lambda>(d, rc). 0 <s rc" k]
  by (auto simp: counted_def case_prod_unfold split: option.splits)

lemma journal_entries:
  assumes "fold_res (journal_entry col) es (i, d, batch) = Inr (i', d', batch')"
  shows "batch' = batch @ map (\<lambda>e. Insert col (hash_key (fst e)) (fst (snd e))) (counted es)"
  using assms
proof (induction es arbitrary: i d batch)
  case (Cons e es)
  obtain k v rc where e: "e = (k, v, rc)" by (cases e)
  from Cons.prems obtain i1 d1 b1 where 1: "journal_entry col e (i, d, batch) = Inr (i1, d1, b1)"
    and 2: "fold_res (journal_entry col) es (i1, d1, b1) = Inr (i', d', batch')" by (auto simp: and_then_eq_Inr)
  have "b1 = batch @ (if 0 <s rc then [Insert col (hash_key k) v] else [])"
    using 1 by (auto simp: e journal_entry_def and_then_eq_Inr split: if_splits)
  then show ?case using Cons.IH [OF 2] by (simp add: e counted_def)
qed (simp add: counted_def)

lemma era_key_not_hash [simp]: "hash_key k \<noteq> LATEST_ERA_KEY" "LATEST_ERA_KEY \<noteq> hash_key k"
proof -
  have "length (hash_key k) \<noteq> length LATEST_ERA_KEY" by (simp add: hash_key_def LATEST_ERA_KEY_def)
  then show "hash_key k \<noteq> LATEST_ERA_KEY" "LATEST_ERA_KEY \<noteq> hash_key k" by metis+
qed

lemma apply_counted:
  "distinct (map fst es) \<Longrightarrow>
   apply_ops (map (\<lambda>e. Insert col (hash_key (fst e)) (fst (snd e))) es) m col (hash_key k) =
     (case map_of es k of Some (d, rc) \<Rightarrow> Some d | None \<Rightarrow> m col (hash_key k))"
proof (induction es arbitrary: m)
  case (Cons e es)
  obtain a v rc where e: "e = (a, v, rc)" by (cases e)
  have "map_of es a = None" using Cons.prems by (simp add: e map_of_eq_None_iff)
  then show ?case using Cons by (auto simp: e split: option.splits)
qed simp

lemma journal_under_disk:
  assumes ok: "md_ok (ar_overlay db)" and j: "ArchiveDB_journal_under R db [] now b = Inr (n, batch, db')"
    and g: "kv_get D s' = apply_ops batch (kv_get D s)"
  shows "kv_get D s' (ar_column db) (hash_key k) =
      (case map_of (md_data (ar_overlay db)) k of
         Some (d, rc) \<Rightarrow> if 0 <s rc then Some d else kv_get D s (ar_column db) (hash_key k)
       | None \<Rightarrow> kv_get D s (ar_column db) (hash_key k))"
    and "ar_overlay db' = (ar_overlay db)\<lparr>md_data := []\<rparr>" and "ar_column db' = ar_column db"
proof -
  let ?es = "md_data (ar_overlay db)" and ?c = "ar_column db"
  have dist: "distinct (map fst ?es)" using ok by (simp add: md_ok_def)
  then have dc: "distinct (map fst (counted ?es))" by (simp add: counted_def distinct_map_filter)
  from j obtain i d b1 where f: "fold_res (journal_entry ?c) ?es (0, 0, []) = Inr (i, d, b1)"
    and b: "batch = b1 \<or> (\<exists>x. batch = b1 @ [Insert ?c LATEST_ERA_KEY x])"
    and db': "ar_overlay db' = (ar_overlay db)\<lparr>md_data := []\<rparr>" "ar_column db' = ?c"
    by (auto simp: ArchiveDB_journal_under_def drain_def and_then_eq_Inr split: if_splits)
  have "apply_ops batch (kv_get D s) ?c (hash_key k) = apply_ops b1 (kv_get D s) ?c (hash_key k)" using b by auto
  then show "kv_get D s' ?c (hash_key k) = (case map_of ?es k of
      Some (d, rc) \<Rightarrow> if 0 <s rc then Some d else kv_get D s ?c (hash_key k) | None \<Rightarrow> kv_get D s ?c (hash_key k))"
    unfolding g journal_entries [OF f] append_Nil
    by (simp add: apply_counted [OF dc] counted_map_of [OF dist] split: option.splits)
  show "ar_overlay db' = (ar_overlay db)\<lparr>md_data := []\<rparr>" "ar_column db' = ?c" by (fact db')+
qed

section \<open>Histories\<close>

datatype ar_cmd =
    ArInsert bytes
  | ArRemove h256
  | ArJournal u64 h256

text \<open>A command on the reference store; a journal command writes its batch.\<close>

fun ar_step :: "rlp_ops \<Rightarrow> (bytes \<Rightarrow> h256) \<Rightarrow> ar_cmd \<Rightarrow> contents \<times> ArchiveDB \<Rightarrow> (contents \<times> ArchiveDB) result" where
  "ar_step R H (ArInsert v) (s, db) = Inr (s, snd (ArchiveDB_insert H db v))"
| "ar_step R H (ArRemove k) (s, db) = Inr (s, ArchiveDB_remove db k)"
| "ar_step R H (ArJournal now b) (s, db) =
     and_then (ArchiveDB_journal_under R db [] now b) (\<lambda>(n, batch, db'). Inr (apply_ops batch s, db'))"

text \<open>A key on disk whose overlay entry, when counted, holds the same value.\<close>

definition kept_on_disk :: "h256 \<Rightarrow> bytes \<Rightarrow> nat \<Rightarrow> contents \<times> ArchiveDB \<Rightarrow> bool" where
  "kept_on_disk k v n st \<longleftrightarrow> (case st of (s, db) \<Rightarrow>
     md_ok (ar_overlay db) \<and> k \<noteq> hashed_null_node (ar_overlay db) \<and> s (ar_column db) (hash_key k) = Some v \<and>
     (\<forall>d rc. map_of (md_data (ar_overlay db)) k = Some (d, rc) \<longrightarrow> 0 <s rc \<longrightarrow> d = v) \<and>
     \<bar>sint (refs (ar_overlay db) k)\<bar> \<le> int n)"

lemma kept_readable: "kept_on_disk k v n (s, db) \<Longrightarrow> ArchiveDB_get plain_kvdb s db k = Some v"
  by (auto simp: kept_on_disk_def ArchiveDB_get_def raw_def ArchiveDB_payload_def plain_kvdb_def split: option.splits)

lemma emplace_entry:
  assumes "\<bar>sint (refs m k)\<bar> < 2 ^ 31 - 1" "\<forall>d rc. map_of (md_data m) k = Some (d, rc) \<longrightarrow> 0 <s rc \<longrightarrow> d = v"
    and "key = k \<longrightarrow> x = v" and "map_of (md_data (PlainDB_emplace m key x)) k = Some (d, rc)" "0 <s rc"
  shows "d = v"
  using assms sint_incr [of "refs m k"]
  by (auto simp: PlainDB_emplace_def update_conv' refs_def pos_sint split: option.splits if_splits)

lemma remove_entry:
  assumes "\<bar>sint (refs m k)\<bar> < 2 ^ 31 - 1" "\<forall>d rc. map_of (md_data m) k = Some (d, rc) \<longrightarrow> 0 <s rc \<longrightarrow> d = v"
    and "map_of (md_data (PlainDB_remove m key)) k = Some (d, rc)" "0 <s rc"
  shows "d = v"
  using assms sint_incr [of "refs m k"]
  by (auto simp: PlainDB_remove_def update_conv' refs_def pos_sint split: option.splits if_splits)

lemma PlainDB_null [simp]:
  "hashed_null_node (PlainDB_emplace m k x) = hashed_null_node m" "hashed_null_node (PlainDB_remove m k) = hashed_null_node m"
  by (simp_all add: PlainDB_emplace_def PlainDB_remove_def)

lemma ar_step_keeps:
  assumes st: "ar_step R H c (s, db) = Inr (s', db')" and k: "kept_on_disk k v n (s, db)" and n: "n < 2 ^ 31 - 1"
    and coll: "\<And>x. c = ArInsert x \<Longrightarrow> H x = k \<Longrightarrow> x = v"
  shows "kept_on_disk k v (Suc n) (s', db')"
proof -
  let ?m = "ar_overlay db"
  have b: "\<bar>sint (refs ?m k)\<bar> < 2 ^ 31 - 1" and e: "\<forall>d rc. map_of (md_data ?m) k = Some (d, rc) \<longrightarrow> 0 <s rc \<longrightarrow> d = v"
    using k n by (simp_all add: kept_on_disk_def)
  note i = sint_incr [OF b]
  show ?thesis
  proof (cases c)
    case (ArInsert x)
    then have db': "s' = s" "db' = db \<or> db' = db\<lparr>ar_overlay := PlainDB_emplace ?m (H x) x\<rparr>"
      using st by (auto simp: ArchiveDB_insert_def HashDB_insert_def Let_def)
    have "kept_on_disk k v (Suc n) (s, db\<lparr>ar_overlay := PlainDB_emplace ?m (H x) x\<rparr>)"
      using k i emplace_entry [OF b e, of "H x" x] coll [OF ArInsert] by (auto simp: kept_on_disk_def refs_ops)
    then show ?thesis using db' k by (auto simp: kept_on_disk_def)
  next
    case (ArRemove key)
    then have db': "s' = s" "db' = db \<or> db' = db\<lparr>ar_overlay := PlainDB_remove ?m key\<rparr>"
      using st by (auto simp: ArchiveDB_remove_def HashDB_remove_def)
    have "kept_on_disk k v (Suc n) (s, db\<lparr>ar_overlay := PlainDB_remove ?m key\<rparr>)"
      using k i remove_entry [OF b e, of key] by (auto simp: kept_on_disk_def refs_ops)
    then show ?thesis using db' k by (auto simp: kept_on_disk_def)
  next
    case (ArJournal now bl)
    then obtain m batch where j: "ArchiveDB_journal_under R db [] now bl = Inr (m, batch, db')" and s': "s' = apply_ops batch s"
      using st by (auto simp: and_then_eq_Inr)
    have ok: "md_ok ?m" using k by (simp add: kept_on_disk_def)
    have "kv_get plain_kvdb s' = apply_ops batch (kv_get plain_kvdb s)" by (simp add: plain_kvdb_def s')
    note jd = journal_under_disk [OF ok j this]
    have "s' (ar_column db) (hash_key k) = Some v"
      using jd(1) [of k] e k by (auto simp: plain_kvdb_def kept_on_disk_def split: option.splits if_splits)
    then show ?thesis using jd(2,3) k by (simp add: kept_on_disk_def md_ok_def refs_def)
  qed
qed

lemma ar_run_keeps:
  assumes "fold_res (ar_step R H) cs (s, db) = Inr (s', db')" "kept_on_disk k v n (s, db)"
    and "n + length cs < 2 ^ 31 - 1" and "\<And>x. ArInsert x \<in> set cs \<Longrightarrow> H x = k \<Longrightarrow> x = v"
  shows "kept_on_disk k v (n + length cs) (s', db')"
  using assms
proof (induction cs arbitrary: s db n)
  case (Cons c cs)
  from Cons.prems(1) obtain s1 db1 where 1: "ar_step R H c (s, db) = Inr (s1, db1)"
    "fold_res (ar_step R H) cs (s1, db1) = Inr (s', db')" by (auto simp: and_then_eq_Inr)
  have "kept_on_disk k v (Suc n) (s1, db1)"
    using Cons.prems by (intro ar_step_keeps [OF 1(1)]) auto
  from Cons.IH [OF 1(2) this] Cons.prems show ?case by simp
qed simp

section \<open>Properties\<close>

text \<open>Journalling in the archive is transparent: when the batch of a
  \<open>journal_under\<close> that returns is written, every read gives what it gave before,
  removals included, which the archive never carries out; the overlay is empty
  afterwards and the latest era is at least the journalled one.\<close>

theorem archive_journal_transparent:
  assumes "md_ok (ar_overlay db)" and "ArchiveDB_journal_under R db [] now block_id = Inr (n, batch, db')"
    and "kv_get D s' = apply_ops batch (kv_get D s)"
  shows "ArchiveDB_get D s' db' k = ArchiveDB_get D s db k \<and> md_data (ar_overlay db') = [] \<and>
    (case ar_latest_era db' of None \<Rightarrow> False | Some e \<Rightarrow> now \<le> e)"
proof -
  note j = journal_under_disk [OF assms]
  have "case ar_latest_era db' of None \<Rightarrow> False | Some e \<Rightarrow> now \<le> e"
    using assms(2) by (auto simp: ArchiveDB_journal_under_def drain_def and_then_eq_Inr split: if_splits option.splits)
  then show ?thesis using j
    by (auto simp: ArchiveDB_get_def raw_def ArchiveDB_payload_def pos_sint split: option.splits)
qed

text \<open>C31. The archive never forgets: a value that is on disk under its hash stays
  readable under that hash after every history of insertions, removals and journal
  writes that returns, as long as no other value with the same hash is inserted.\<close>

theorem archive_never_forgets:
  assumes "ArchiveDB_new R H plain_kvdb s col = Inr db" and "s col (hash_key k) = Some v" and "k \<noteq> H (rlp_null R)"
    and "fold_res (ar_step R H) cs (s, db) = Inr (s', db')" and "length cs < 2 ^ 31 - 1"
    and "\<And>x. ArInsert x \<in> set cs \<Longrightarrow> H x = k \<Longrightarrow> x = v"
  shows "ArchiveDB_get plain_kvdb s' db' k = Some v"
proof -
  have "kept_on_disk k v 0 (s, db)"
    using assms(1-3) by (auto simp: ArchiveDB_new_def and_then_eq_Inr kept_on_disk_def new_memory_db_def
        from_null_node_def md_ok_def refs_def)
  from ar_run_keeps [OF assms(4) this _ assms(6)] assms(5) show ?thesis by (auto intro: kept_readable)
qed

theorem archive_journal_transparent_witness:
  "\<exists>n batch db'. ArchiveDB_journal_under unary_rlp
       \<lparr>ar_overlay = \<lparr>md_data = [(2, [1, 2], 1), (3, [], - 1)], hashed_null_node = 1, null_node_data = [128]\<rparr>,
        ar_latest_era = None, ar_column = 0\<rparr> [] 5 9 = Inr (n, batch, db') \<and>
     ArchiveDB_get plain_kvdb (apply_ops batch (\<lambda>_ _. None)) db' 2 = Some [1, 2]"
proof -
  let ?db = "\<lparr>ar_overlay = \<lparr>md_data = [(2, [1, 2], 1), (3, [], - 1)], hashed_null_node = 1, null_node_data = [128]\<rparr>,
        ar_latest_era = None, ar_column = 0\<rparr>"
  have "\<exists>n batch db'. ArchiveDB_journal_under unary_rlp ?db [] 5 9 = Inr (n, batch, db')"
    by (simp add: ArchiveDB_journal_under_def drain_def journal_entry_def pos_sint)
  then obtain n batch db' where j: "ArchiveDB_journal_under unary_rlp ?db [] 5 9 = Inr (n, batch, db')" by blast
  have "ArchiveDB_get plain_kvdb (\<lambda>_ _. None) ?db 2 = Some [1, 2]" by (simp add: ArchiveDB_get_def raw_def pos_sint)
  with archive_journal_transparent [OF _ j, of plain_kvdb "apply_ops batch (\<lambda>_ _. None)" "\<lambda>_ _. None" 2] j
  show ?thesis by (auto simp: md_ok_def plain_kvdb_def)
qed

theorem archive_never_forgets_witness:
  "\<exists>db s' db'. ArchiveDB_new unary_rlp toy_hash plain_kvdb ((\<lambda>_ _. None)(0 := [hash_key 2 \<mapsto> [1, 2]])) 0 = Inr db \<and>
     fold_res (ar_step unary_rlp toy_hash) [ArRemove 2, ArJournal 5 9] ((\<lambda>_ _. None)(0 := [hash_key 2 \<mapsto> [1, 2]]), db) = Inr (s', db') \<and>
     ArchiveDB_get plain_kvdb s' db' 2 = Some [1, 2]"
proof -
  let ?s = "(\<lambda>_ _. None)(0 := [hash_key 2 \<mapsto> [1, 2]]) :: contents"
  obtain db where d: "ArchiveDB_new unary_rlp toy_hash plain_kvdb ?s 0 = Inr db"
    and db: "db = \<lparr>ar_overlay = new_memory_db unary_rlp toy_hash, ar_latest_era = None, ar_column = 0\<rparr>"
    by (simp add: ArchiveDB_new_def read_latest_era_def plain_kvdb_def)
  have n: "toy_hash (rlp_null unary_rlp) = 1" by (simp add: unary_rlp_def toy_hash_def)
  have "\<exists>s' db'. fold_res (ar_step unary_rlp toy_hash) [ArRemove 2, ArJournal 5 9] (?s, db) = Inr (s', db')"
    using n by (simp add: db ArchiveDB_remove_def HashDB_remove_def PlainDB_remove_def new_memory_db_def from_null_node_def
        ArchiveDB_journal_under_def drain_def journal_entry_def pos_sint)
  then obtain s' db' where r: "fold_res (ar_step unary_rlp toy_hash) [ArRemove 2, ArJournal 5 9] (?s, db) = Inr (s', db')" by blast
  have "ArchiveDB_get plain_kvdb s' db' 2 = Some [1, 2]"
    by (rule archive_never_forgets [OF d _ _ r]) (simp_all add: n)
  then show ?thesis using d r by blast
qed

end
