(* ===== verification/RefCountedDb.thy ===== *)
theory RefCountedDb
  imports ArchiveDb
begin

text \<open>
  The reference-counted journal database, \<open>refcounteddb.rs\<close>, with the journal
  records of \<open>util.rs\<close>: insertions are counted at once in the forward overlay,
  removals are journalled, and when an era becomes canonical its block's
  removals and the insertions of all competing blocks are taken back.  The
  loops over the journal records of an era end only when an index is free, so
  they are partial functions whose value is \<open>None\<close> when they do not return.
\<close>

definition DatabaseKey_item :: "u64 \<Rightarrow> nat \<Rightarrow> rlp_item" where
  "DatabaseKey_item era index = RSeq [RNum (unat era), RNum index, RData (replicate 10 0)]"

definition journal_key :: "rlp_ops \<Rightarrow> u64 \<Rightarrow> nat \<Rightarrow> bytes" where
  "journal_key R era index = rlp_encode R (DatabaseKey_item era index)"

record journal_record =
  jr_id :: h256
  jr_inserts :: "h256 list"
  jr_deletes :: "h256 list"

definition DatabaseValueRef_item :: "journal_record \<Rightarrow> rlp_item" where
  "DatabaseValueRef_item j =
     RSeq [hash_item (jr_id j), RSeq (map hash_item (jr_inserts j)), RSeq (map hash_item (jr_deletes j))]"

definition view_id :: "rlp_ops \<Rightarrow> bytes \<Rightarrow> h256 result" where
  "view_id R bs = rlp_val_h256 R bs 0"

definition view_inserts :: "rlp_ops \<Rightarrow> bytes \<Rightarrow> h256 list result" where
  "view_inserts R bs = rlp_list_h256 R bs 1"

definition view_deletes :: "rlp_ops \<Rightarrow> bytes \<Rightarrow> h256 list result" where
  "view_deletes R bs = rlp_list_h256 R bs 2"

fun expect_rlp :: "'a result \<Rightarrow> 'a result" where
  "expect_rlp (Inr x) = Inr x"
| "expect_rlp (Inl e) = Inl (Panic ''rlp read from db; qed'')"

record RefCountedDB =
  rc_forward :: OverlayDB
  rc_latest_era :: "u64 option"
  rc_inserts :: "h256 list"
  rc_removes :: "h256 list"
  rc_column :: nat

definition RefCountedDB_new ::
  "rlp_ops \<Rightarrow> (bytes \<Rightarrow> h256) \<Rightarrow> 's kvdb_ops \<Rightarrow> 's \<Rightarrow> nat \<Rightarrow> RefCountedDB result" where
  "RefCountedDB_new R H D s col = and_then (read_latest_era R D s col) (\<lambda>e.
     Inr \<lparr>rc_forward = OverlayDB_new R H col, rc_latest_era = e, rc_inserts = [], rc_removes = [], rc_column = col\<rparr>)"

definition RefCountedDB_get ::
  "rlp_ops \<Rightarrow> 's kvdb_ops \<Rightarrow> 's \<Rightarrow> RefCountedDB \<Rightarrow> h256 \<Rightarrow> bytes option result" where
  "RefCountedDB_get R D s db key = OverlayDB_get R D s (rc_forward db) key"

definition RefCountedDB_contains ::
  "rlp_ops \<Rightarrow> 's kvdb_ops \<Rightarrow> 's \<Rightarrow> RefCountedDB \<Rightarrow> h256 \<Rightarrow> bool result" where
  "RefCountedDB_contains R D s db key = OverlayDB_contains R D s (rc_forward db) key"

definition RefCountedDB_insert :: "(bytes \<Rightarrow> h256) \<Rightarrow> RefCountedDB \<Rightarrow> bytes \<Rightarrow> h256 \<times> RefCountedDB" where
  "RefCountedDB_insert H db value = (case OverlayDB_insert H (rc_forward db) value of (r, f) \<Rightarrow>
     (r, db\<lparr>rc_forward := f, rc_inserts := rc_inserts db @ [r]\<rparr>))"

definition RefCountedDB_emplace :: "RefCountedDB \<Rightarrow> h256 \<Rightarrow> bytes \<Rightarrow> RefCountedDB" where
  "RefCountedDB_emplace db key value =
     db\<lparr>rc_inserts := rc_inserts db @ [key], rc_forward := OverlayDB_emplace (rc_forward db) key value\<rparr>"

definition RefCountedDB_remove :: "RefCountedDB \<Rightarrow> h256 \<Rightarrow> RefCountedDB" where
  "RefCountedDB_remove db key = db\<lparr>rc_removes := rc_removes db @ [key]\<rparr>"

definition RefCountedDB_is_empty :: "RefCountedDB \<Rightarrow> bool" where
  "RefCountedDB_is_empty db = (rc_latest_era db = None)"

text \<open>The loop that looks for the first free index of an era.\<close>

partial_function (option) free_index ::
  "rlp_ops \<Rightarrow> 's kvdb_ops \<Rightarrow> 's \<Rightarrow> nat \<Rightarrow> u64 \<Rightarrow> nat \<Rightarrow> nat option" where
  "free_index R D s col era i =
     (case kv_get D s col (journal_key R era i) of
        None \<Rightarrow> Some i
      | Some v \<Rightarrow> free_index R D s col era (i + 1))"

definition RefCountedDB_journal_under ::
  "rlp_ops \<Rightarrow> 's kvdb_ops \<Rightarrow> 's \<Rightarrow> RefCountedDB \<Rightarrow> DBOp list \<Rightarrow> u64 \<Rightarrow> h256 \<Rightarrow>
   (u32 \<times> DBOp list \<times> RefCountedDB) option" where
  "RefCountedDB_journal_under R D s db batch now block_id =
     Option.bind (free_index R D s (rc_column db) now 0) (\<lambda>i.
       let batch1 = batch @ [Insert (rc_column db) (journal_key R now i) (rlp_encode R (DatabaseValueRef_item
                      \<lparr>jr_id = block_id, jr_inserts = rc_inserts db, jr_deletes = rc_removes db\<rparr>))];
           ops = length (rc_inserts db) + length (rc_removes db);
           db1 = db\<lparr>rc_inserts := [], rc_removes := []\<rparr>
       in if (case rc_latest_era db of None \<Rightarrow> True | Some e \<Rightarrow> e < now)
          then Some (word_of_nat ops, batch1 @ [Insert (rc_column db) LATEST_ERA_KEY (rlp_encode R (RNum (unat now)))],
                     db1\<lparr>rc_latest_era := Some now\<rparr>)
          else Some (word_of_nat ops, batch1, db1))"

text \<open>What one journal record takes back.\<close>

definition to_remove :: "rlp_ops \<Rightarrow> h256 \<Rightarrow> bytes \<Rightarrow> h256 list result" where
  "to_remove R canon_id rlp_data =
     and_then (expect_rlp (view_id R rlp_data)) (\<lambda>our_id.
       expect_rlp (if canon_id = our_id then view_deletes R rlp_data else view_inserts R rlp_data))"

partial_function (option) canon_loop ::
  "rlp_ops \<Rightarrow> 's kvdb_ops \<Rightarrow> 's \<Rightarrow> nat \<Rightarrow> u64 \<Rightarrow> h256 \<Rightarrow> nat \<Rightarrow> OverlayDB \<Rightarrow> DBOp list \<Rightarrow>
   (OverlayDB \<times> DBOp list) result option" where
  "canon_loop R D s col era canon_id i fwd batch =
     (case kv_get D s col (journal_key R era i) of
        None \<Rightarrow> Some (Inr (fwd, batch))
      | Some rlp_data \<Rightarrow>
          (case to_remove R canon_id rlp_data of
             Inl e \<Rightarrow> Some (Inl e)
           | Inr hs \<Rightarrow> canon_loop R D s col era canon_id (i + 1) (fold (\<lambda>h f. OverlayDB_remove f h) hs fwd)
                        (batch @ [Delete col (journal_key R era i)])))"

definition RefCountedDB_mark_canonical ::
  "rlp_ops \<Rightarrow> 's kvdb_ops \<Rightarrow> 's \<Rightarrow> RefCountedDB \<Rightarrow> DBOp list \<Rightarrow> u64 \<Rightarrow> h256 \<Rightarrow>
   (u32 result \<times> DBOp list \<times> RefCountedDB) option" where
  "RefCountedDB_mark_canonical R D s db batch end_era canon_id =
     Option.bind (canon_loop R D s (rc_column db) end_era canon_id 0 (rc_forward db) batch) (\<lambda>r.
       case r of
         Inl e \<Rightarrow> Some (Inl e, batch, db)
       | Inr (fwd, batch1) \<Rightarrow> (case commit_to_batch R D s fwd batch1 of (n, batch2, fwd') \<Rightarrow>
           Some (n, batch2, db\<lparr>rc_forward := fwd'\<rparr>)))"

definition RefCountedDB_inject ::
  "rlp_ops \<Rightarrow> 's kvdb_ops \<Rightarrow> 's \<Rightarrow> RefCountedDB \<Rightarrow> DBOp list \<Rightarrow> u32 result \<times> DBOp list \<times> RefCountedDB" where
  "RefCountedDB_inject R D s db batch =
     (case commit_to_batch R D s (fold (\<lambda>h f. OverlayDB_remove f h) (rc_removes db) (rc_forward db)) batch of
        (n, batch', fwd) \<Rightarrow> (n, batch', db\<lparr>rc_inserts := [], rc_removes := [], rc_forward := fwd\<rparr>))"

text \<open>\<open>0..rc\<close> and \<open>rc..0\<close> are ranges of \<open>i32\<close>, empty when the start is not below the end.\<close>

definition consolidate_one :: "h256 \<times> (bytes \<times> i32) \<Rightarrow> RefCountedDB \<Rightarrow> RefCountedDB" where
  "consolidate_one e db = (case e of (key, value, rc) \<Rightarrow>
     ((\<lambda>d. RefCountedDB_remove d key) ^^ nat (- sint rc)) (((\<lambda>d. RefCountedDB_emplace d key value) ^^ nat (sint rc)) db))"

definition RefCountedDB_consolidate :: "RefCountedDB \<Rightarrow> MemoryDB \<Rightarrow> RefCountedDB" where
  "RefCountedDB_consolidate db other = fold consolidate_one (fst (drain other)) db"

section \<open>The journal of an era\<close>

text \<open>The store holds the records \<open>js\<close> of an era, at the indices from 0, and no more.\<close>

definition era_journal ::
  "rlp_ops \<Rightarrow> 's kvdb_ops \<Rightarrow> 's \<Rightarrow> nat \<Rightarrow> u64 \<Rightarrow> journal_record list \<Rightarrow> bool" where
  "era_journal R D s col era js \<longleftrightarrow> length js < 2 ^ 64 \<and>
     (\<forall>i < length js. kv_get D s col (journal_key R era i) = Some (rlp_encode R (DatabaseValueRef_item (js ! i)))) \<and>
     (\<forall>i. length js \<le> i \<longrightarrow> i < 2 ^ 64 \<longrightarrow> kv_get D s col (journal_key R era i) = None)"

text \<open>The hashes a canonical choice takes back: the removals of the canonical
  block and the insertions of the others.\<close>

definition taken :: "h256 \<Rightarrow> journal_record list \<Rightarrow> h256 list" where
  "taken canon js = concat (map (\<lambda>j. if canon = jr_id j then jr_deletes j else jr_inserts j) js)"

definition removed :: "OverlayDB \<Rightarrow> h256 list \<Rightarrow> h256 \<Rightarrow> int" where
  "removed db hs k = (if k = hashed_null_node (od_overlay db) then 0 else int (count_list hs k))"

definition remove_all :: "h256 list \<Rightarrow> OverlayDB \<Rightarrow> OverlayDB" where
  "remove_all hs db = fold (\<lambda>h f. OverlayDB_remove f h) hs db"

lemma remove_all_fields:
  "(remove_all hs db)\<lparr>od_overlay := m\<rparr> = db\<lparr>od_overlay := m\<rparr>"
  "hashed_null_node (od_overlay (remove_all hs db)) = hashed_null_node (od_overlay db)"
  unfolding remove_all_def
  by (induction hs arbitrary: db)
    (simp_all add: OverlayDB_remove_def HashDB_remove_def PlainDB_remove_def split: option.splits prod.splits)

lemma era_journal_snoc:
  assumes "era_journal R D s col era js" "length js + 1 < 2 ^ 64"
    and "\<And>i. i < 2 ^ 64 \<Longrightarrow> kv_get D s' col (journal_key R era i) =
      (if i = length js then Some (rlp_encode R (DatabaseValueRef_item j)) else kv_get D s col (journal_key R era i))"
  shows "era_journal R D s' col era (js @ [j])"
  using assms by (auto simp: era_journal_def nth_append less_Suc_eq)

lemma free_index_ends:
  assumes "kv_get D s col (journal_key R era n) = None" "i \<le> n"
    and "\<And>j. i \<le> j \<Longrightarrow> j < n \<Longrightarrow> kv_get D s col (journal_key R era j) \<noteq> None"
  shows "free_index R D s col era i = Some n"
  using assms(2,3)
proof (induction "n - i" arbitrary: i)
  case 0
  then show ?case using assms(1) by (simp add: free_index.simps)
next
  case (Suc m)
  then obtain v where "kv_get D s col (journal_key R era i) = Some v" by fastforce
  moreover have "free_index R D s col era (Suc i) = Some n" using Suc by (intro Suc.hyps(1)) auto
  ultimately show ?case by (subst free_index.simps) simp
qed

context rlp
begin

lemma to_remove_record:
  "to_remove R canon (rlp_encode R (DatabaseValueRef_item j)) = Inr (if canon = jr_id j then jr_deletes j else jr_inserts j)"
proof -
  let ?xs = "[hash_item (jr_id j), RSeq (map hash_item (jr_inserts j)), RSeq (map hash_item (jr_deletes j))]"
  have "rlp_val_h256 R (rlp_encode R (RSeq ?xs)) 0 = Inr (jr_id j)" by (rule val_h256) simp_all
  moreover have "rlp_list_h256 R (rlp_encode R (RSeq ?xs)) 1 = Inr (jr_inserts j)" by (rule list_h256) simp_all
  moreover have "rlp_list_h256 R (rlp_encode R (RSeq ?xs)) 2 = Inr (jr_deletes j)" by (rule list_h256) simp_all
  ultimately show ?thesis by (simp add: to_remove_def view_id_def view_inserts_def view_deletes_def DatabaseValueRef_item_def)
qed

lemma canon_loop_ends:
  assumes j: "era_journal R D s col era js" and i: "i \<le> length js"
  shows "canon_loop R D s col era canon i fwd batch =
    Some (Inr (remove_all (taken canon (drop i js)) fwd, batch @ map (\<lambda>i. Delete col (journal_key R era i)) [i..<length js]))"
  using i
proof (induction "length js - i" arbitrary: i fwd batch)
  case 0
  then show ?case using j by (simp add: canon_loop.simps era_journal_def taken_def remove_all_def)
next
  case (Suc m)
  then have i: "i < length js" by simp
  then have g: "kv_get D s col (journal_key R era i) = Some (rlp_encode R (DatabaseValueRef_item (js ! i)))"
    using j by (simp add: era_journal_def)
  have d: "drop i js = js ! i # drop (Suc i) js" using i by (simp add: Cons_nth_drop_Suc)
  let ?hs = "if canon = jr_id (js ! i) then jr_deletes (js ! i) else jr_inserts (js ! i)"
  have "canon_loop R D s col era canon (Suc i) (remove_all ?hs fwd) (batch @ [Delete col (journal_key R era i)]) =
      Some (Inr (remove_all (taken canon (drop (Suc i) js)) (remove_all ?hs fwd),
        (batch @ [Delete col (journal_key R era i)]) @ map (\<lambda>i. Delete col (journal_key R era i)) [Suc i..<length js]))"
    using Suc by (intro Suc.hyps(1)) auto
  moreover have "taken canon (drop i js) = ?hs @ taken canon (drop (Suc i) js)" by (simp add: d taken_def)
  ultimately show ?case
    using i by (subst canon_loop.simps) (simp add: g to_remove_record remove_all_def upt_conv_Cons)
qed

lemma journal_key_not_hash: "i < 2 ^ 64 \<Longrightarrow> journal_key R era i \<noteq> hash_key k"
  using key_length [of "unat era" i] unat_bound [of era]
  by (auto simp: journal_key_def DatabaseKey_item_def hash_key_def dest: arg_cong [where f = length])

end

section \<open>Taking references back\<close>

lemma OverlayDB_remove_simps [simp]:
  "od_column (OverlayDB_remove db h) = od_column db"
  "hashed_null_node (od_overlay (OverlayDB_remove db h)) = hashed_null_node (od_overlay db)"
  "md_ok (od_overlay db) \<Longrightarrow> md_ok (od_overlay (OverlayDB_remove db h))"
  by (simp_all add: OverlayDB_remove_def HashDB_remove_def)

lemma remove_all_simps [simp]:
  "od_column (remove_all hs db) = od_column db"
  "hashed_null_node (od_overlay (remove_all hs db)) = hashed_null_node (od_overlay db)"
  "md_ok (od_overlay db) \<Longrightarrow> md_ok (od_overlay (remove_all hs db))"
  by (induction hs arbitrary: db) (simp_all add: remove_all_def)

lemma removed_Cons: "removed db (h # hs) k = removed db hs k + (if h = k \<and> k \<noteq> hashed_null_node (od_overlay db) then 1 else 0)"
  by (simp add: removed_def)

lemma removed_nonneg [simp]: "0 \<le> removed db hs k"
  by (simp add: removed_def)

text \<open>The counts and the values after removals, none of which underflows.\<close>

definition no_underflow :: "OverlayDB \<Rightarrow> h256 list \<Rightarrow> bool" where
  "no_underflow db hs \<longleftrightarrow> (\<forall>k. - (2 ^ 31) \<le> sint (refs (od_overlay db) k) - removed db hs k)"

lemma remove_refs:
  assumes "no_underflow db (h # hs)"
  shows "sint (refs (od_overlay (OverlayDB_remove db h)) k) =
    sint (refs (od_overlay db) k) - (if h = k \<and> k \<noteq> hashed_null_node (od_overlay db) then 1 else 0)"
proof -
  have r: "refs (od_overlay (OverlayDB_remove db h)) k =
      refs (od_overlay db) k - (if h = k \<and> k \<noteq> hashed_null_node (od_overlay db) then 1 else 0)"
    by (auto simp: OverlayDB_remove_def HashDB_remove_def refs_ops)
  show ?thesis
  proof (cases "h = k \<and> k \<noteq> hashed_null_node (od_overlay db)")
    case True
    have "- (2 ^ 31) \<le> sint (refs (od_overlay db) k) - removed db (h # hs) k" using assms unfolding no_underflow_def by blast
    then have "- (2 ^ 31) \<le> sint (refs (od_overlay db) k) - 1"
      using True removed_nonneg [of db hs k] by (simp add: removed_Cons del: removed_nonneg)
    then have "sint (refs (od_overlay db) k + - 1) = sint (refs (od_overlay db) k) + sint (- 1 :: i32)"
      using sint_range(2) [of "refs (od_overlay db) k"] by (intro sint_add_ok) simp_all
    then show ?thesis unfolding r using True by simp
  qed (auto simp: r)
qed

lemma remove_value:
  assumes "no_underflow db (h # hs)"
    and "map_of (md_data (od_overlay (OverlayDB_remove db h))) k = Some (d, rc)" "0 <s rc"
  shows "\<exists>rc0. map_of (md_data (od_overlay db)) k = Some (d, rc0) \<and> 0 <s rc0"
proof (cases "h = k \<and> k \<noteq> hashed_null_node (od_overlay db)")
  case False
  then have "map_of (md_data (od_overlay (OverlayDB_remove db h))) k = map_of (md_data (od_overlay db)) k"
    by (auto simp: OverlayDB_remove_def HashDB_remove_def PlainDB_remove_def update_conv' split: option.splits)
  then show ?thesis using assms(2,3) by metis
next
  case True
  then have m: "od_overlay (OverlayDB_remove db h) = PlainDB_remove (od_overlay db) k"
    by (simp add: OverlayDB_remove_def HashDB_remove_def)
  obtain rc0 where e: "map_of (md_data (od_overlay db)) k = Some (d, rc0)" "rc = rc0 - 1"
    using assms(2,3) unfolding m by (auto simp: PlainDB_remove_def update_conv' pos_sint split: option.splits)
  have "sint rc = sint rc0 - 1" using remove_refs [OF assms(1), of k] True assms(2) e(1) by (simp add: refs_def)
  then show ?thesis using assms(3) e(1) by (auto simp: pos_sint)
qed

lemma removed_remove: "removed (OverlayDB_remove db h) hs k = removed db hs k"
  by (simp add: removed_def)

lemma no_underflow_tail:
  assumes "no_underflow db (h # hs)"
  shows "no_underflow (OverlayDB_remove db h) hs"
  unfolding no_underflow_def
proof
  fix k
  have "- (2 ^ 31) \<le> sint (refs (od_overlay db) k) - removed db (h # hs) k" using assms unfolding no_underflow_def by blast
  then show "- (2 ^ 31) \<le> sint (refs (od_overlay (OverlayDB_remove db h)) k) - removed (OverlayDB_remove db h) hs k"
    by (simp only: remove_refs [OF assms] removed_remove removed_Cons)
qed

lemma remove_all_refs:
  "no_underflow db hs \<Longrightarrow> sint (refs (od_overlay (remove_all hs db)) k) = sint (refs (od_overlay db) k) - removed db hs k"
proof (induction hs arbitrary: db)
  case (Cons h hs)
  have "remove_all (h # hs) db = remove_all hs (OverlayDB_remove db h)" by (simp add: remove_all_def)
  then show ?case
    using Cons.IH [OF no_underflow_tail [OF Cons.prems]] remove_refs [OF Cons.prems, of k]
    by (simp add: removed_remove removed_Cons)
qed (simp add: remove_all_def removed_def)

lemma remove_all_value:
  "no_underflow db hs \<Longrightarrow> map_of (md_data (od_overlay (remove_all hs db))) k = Some (d, rc) \<Longrightarrow> 0 <s rc \<Longrightarrow>
   \<exists>rc0. map_of (md_data (od_overlay db)) k = Some (d, rc0) \<and> 0 <s rc0"
proof (induction hs arbitrary: db)
  case (Cons h hs)
  have "remove_all (h # hs) db = remove_all hs (OverlayDB_remove db h)" by (simp add: remove_all_def)
  then obtain rc0 where "map_of (md_data (od_overlay (OverlayDB_remove db h))) k = Some (d, rc0)" "0 <s rc0"
    using Cons.IH [OF no_underflow_tail [OF Cons.prems(1)]] Cons.prems(2,3) by auto
  then show ?case by (rule remove_value [OF Cons.prems(1)])
qed (simp add: remove_all_def)

lemma remove_all_ok:
  assumes ok: "overlay_ok R D s db" and fits: "no_underflow db hs"
  shows "overlay_ok R D s (remove_all hs db)" and "total R D s (remove_all hs db) k = total R D s db k - removed db hs k"
proof -
  show t: "total R D s (remove_all hs db) k = total R D s db k - removed db hs k" for k
    using remove_all_refs [OF fits] by (simp add: total_def)
  have "total R D s (remove_all hs db) k < 2 ^ 31" for k
    using ok removed_nonneg [of db hs k] unfolding t overlay_ok_def by (smt (verit))
  moreover have "d = pl_value x" if "map_of (md_data (od_overlay (remove_all hs db))) k = Some (d, rc)" "0 <s rc"
    "payload R D s (od_column db) k = Inr (Some x)" for k d rc x
    using remove_all_value [OF fits that(1,2)] ok that(3) unfolding overlay_ok_def by blast
  ultimately show "overlay_ok R D s (remove_all hs db)" using ok unfolding overlay_ok_def by simp
qed

lemma apply_deletes:
  "apply_ops (map (\<lambda>i. Delete col (f i)) is) m col k = (if k \<in> f ` set is then None else m col k)"
  by (induction "is" arbitrary: m) auto

context rlp
begin

lemma commit_ops_key:
  assumes "i < 2 ^ 64"
  shows "apply_ops (commit_ops R D s db) m (od_column db) (journal_key R era i) = m (od_column db) (journal_key R era i)"
proof (rule apply_ops_other)
  fix op assume "op \<in> set (commit_ops R D s db)"
  then obtain k where "op_key op = hash_key k" by (auto simp: commit_ops_def payload_op_def)
  then show "op_col op \<noteq> od_column db \<or> op_key op \<noteq> journal_key R era i"
    using journal_key_not_hash [OF assms, of era k] by simp
qed

lemma mark_canonical_effect:
  assumes ok: "overlay_ok R D s (rc_forward db)" and col: "rc_column db = od_column (rc_forward db)"
    and js: "era_journal R D s (rc_column db) era js"
    and fits: "no_underflow (rc_forward db) (taken canon js)"
    and nn: "\<And>k. removed (rc_forward db) (taken canon js) k \<le> total R D s (rc_forward db) k"
  shows "\<exists>n batch fwd. RefCountedDB_mark_canonical R D s db [] era canon = Some (Inr n, batch, db\<lparr>rc_forward := fwd\<rparr>) \<and>
    fwd = (rc_forward db)\<lparr>od_overlay := od_overlay fwd\<rparr> \<and> md_data (od_overlay fwd) = [] \<and>
    hashed_null_node (od_overlay fwd) = hashed_null_node (od_overlay (rc_forward db)) \<and>
    (\<forall>s'. kv_get D s' = apply_ops batch (kv_get D s) \<longrightarrow>
       (\<forall>k. disk_count R D s' (rc_column db) k = total R D s (rc_forward db) k - removed (rc_forward db) (taken canon js) k) \<and>
       (\<forall>i < length js. kv_get D s' (rc_column db) (journal_key R era i) = None))"
proof -
  let ?c = "rc_column db" and ?f = "remove_all (taken canon js) (rc_forward db)"
  let ?dels = "map (\<lambda>i. Delete ?c (journal_key R era i)) [0..<length js]"
  note f = remove_all_ok [OF ok fits]
  have f0: "0 \<le> total R D s ?f k" for k using nn [of k] by (simp add: f(2))
  have cf: "od_column ?f = ?c" using col by simp
  have l: "canon_loop R D s ?c era canon 0 (rc_forward db) [] = Some (Inr (?f, ?dels))"
    using canon_loop_ends [OF js, of 0] by simp
  obtain n fwd' where c: "commit_to_batch R D s ?f ?dels = (Inr n, ?dels @ commit_ops R D s ?f, fwd')"
    and d: "fwd' = ?f\<lparr>od_overlay := snd (drain (od_overlay ?f))\<rparr>"
    using commit_to_batch_result [OF f(1), of ?dels] f0 by (auto split: prod.splits)
  have e: "fwd' = (rc_forward db)\<lparr>od_overlay := od_overlay fwd'\<rparr>" "md_data (od_overlay fwd') = []"
    "hashed_null_node (od_overlay fwd') = hashed_null_node (od_overlay (rc_forward db))"
    using remove_all_fields [where hs = "taken canon js" and db = "rc_forward db"] by (simp_all add: d drain_def)
  have m: "RefCountedDB_mark_canonical R D s db [] era canon =
      Some (Inr n, ?dels @ commit_ops R D s ?f, db\<lparr>rc_forward := fwd'\<rparr>)"
    by (simp add: RefCountedDB_mark_canonical_def l c)
  have len: "length js < 2 ^ 64" using js by (simp add: era_journal_def)
  show ?thesis
  proof (intro exI conjI allI impI, rule m, rule e(1), rule e(2), rule e(3))
    fix s' assume g: "kv_get D s' = apply_ops (?dels @ commit_ops R D s ?f) (kv_get D s)"
    have "hash_key k \<noteq> journal_key R era i" if "i < length js" for i k
      using journal_key_not_hash [of i era k] that len by (metis less_trans)
    then have "apply_ops ?dels (kv_get D s) ?c (hash_key k) = kv_get D s ?c (hash_key k)" for k
      by (auto simp: apply_deletes)
    then have h: "kv_get D s' (od_column ?f) (hash_key k) = apply_ops (commit_ops R D s ?f) (kv_get D s) (od_column ?f) (hash_key k)" for k
      unfolding g apply_ops_append cf by (intro apply_ops_at)
    show "disk_count R D s' ?c k = total R D s (rc_forward db) k - removed (rc_forward db) (taken canon js) k" for k
      using disk_after(2) [OF f(1) f0 h, of k] by (simp only: f(2) cf)
    show "kv_get D s' ?c (journal_key R era i) = None" if "i < length js" for i
    proof -
      have "i < 2 ^ 64" using that len by (rule less_trans)
      then have "kv_get D s' ?c (journal_key R era i) = apply_ops ?dels (kv_get D s) ?c (journal_key R era i)"
        using commit_ops_key [of i D s ?f "apply_ops ?dels (kv_get D s)" era] by (simp only: g apply_ops_append cf)
      then show ?thesis using that by (simp add: apply_deletes)
    qed
  qed
qed

end

section \<open>Properties\<close>

definition canon_records :: "h256 \<Rightarrow> journal_record list \<Rightarrow> journal_record list" where
  "canon_records canon js = filter (\<lambda>j. canon = jr_id j) js"

definition all_inserts :: "journal_record list \<Rightarrow> h256 list" where
  "all_inserts js = concat (map jr_inserts js)"

definition all_deletes :: "journal_record list \<Rightarrow> h256 list" where
  "all_deletes js = concat (map jr_deletes js)"

lemma taken_balance:
  "int (count_list (all_inserts js) k) - int (count_list (taken canon js) k) =
   int (count_list (all_inserts (canon_records canon js)) k) - int (count_list (all_deletes (canon_records canon js)) k)"
  by (induction js) (auto simp: taken_def canon_records_def all_inserts_def all_deletes_def)

text \<open>Where the references are between two eras: on disk and in the forward overlay together
  are those of the canonical blocks so far (\<open>base\<close>) and the insertions of all blocks of the
  eras that are still undecided, in whichever of the two they are.\<close>

definition rc_balanced ::
  "rlp_ops \<Rightarrow> 's kvdb_ops \<Rightarrow> 's \<Rightarrow> RefCountedDB \<Rightarrow> (h256 \<Rightarrow> int) \<Rightarrow> (h256 \<Rightarrow> nat) \<Rightarrow> bool" where
  "rc_balanced R D s db base undecided \<longleftrightarrow>
     refs (od_overlay (rc_forward db)) (hashed_null_node (od_overlay (rc_forward db))) = 0 \<and>
     (\<forall>k. k \<noteq> hashed_null_node (od_overlay (rc_forward db)) \<longrightarrow>
        disk_count R D s (rc_column db) k + sint (refs (od_overlay (rc_forward db)) k) = base k + int (undecided k))"

text \<open>C25. Only the canonical block of an era counts: let the journal of an era hold
  the records of any number of competing blocks, and let the disk and the forward
  overlay together hold the references of the canonical history, the insertions of
  these blocks and those of any blocks journalled for later eras.  If the canonical
  block removes no reference that is not there, \<open>mark_canonical\<close> returns and empties
  the forward overlay, and after its batch is written the count of every key on disk
  is that of the canonical history, plus the insertions minus the removals of the
  records of the canonical block, plus the insertions of the later eras, which the
  batch writes as well; what the other blocks of the era inserted is gone, and so is
  the era's journal.  The references are then balanced again for the later eras.\<close>

theorem refcounted_only_canonical_counts:
  assumes "rlp R" and "overlay_ok R D s (rc_forward db)" and "rc_column db = od_column (rc_forward db)"
    and "era_journal R D s (rc_column db) era js"
    and "rc_balanced R D s db base (\<lambda>k. count_list (all_inserts js) k + later k)"
    and "\<And>k. k \<noteq> hashed_null_node (od_overlay (rc_forward db)) \<Longrightarrow> int (count_list (all_deletes (canon_records canon js)) k) \<le>
      base k + int (count_list (all_inserts (canon_records canon js)) k) + int (later k)"
  shows "\<exists>n batch db'. RefCountedDB_mark_canonical R D s db [] era canon = Some (Inr n, batch, db') \<and> md_data (od_overlay (rc_forward db')) = [] \<and>
    (\<forall>s'. kv_get D s' = apply_ops batch (kv_get D s) \<longrightarrow>
       (\<forall>k. k \<noteq> hashed_null_node (od_overlay (rc_forward db)) \<longrightarrow>
          disk_count R D s' (rc_column db) k = base k +
            int (count_list (all_inserts (canon_records canon js)) k) -
            int (count_list (all_deletes (canon_records canon js)) k) + int (later k)) \<and>
       rc_balanced R D s' db' (\<lambda>k. base k + int (count_list (all_inserts (canon_records canon js)) k) -
            int (count_list (all_deletes (canon_records canon js)) k)) later \<and>
       (\<forall>i < length js. kv_get D s' (rc_column db) (journal_key R era i) = None))"
proof -
  let ?f = "rc_forward db" and ?null = "hashed_null_node (od_overlay (rc_forward db))"
  let ?ins = "\<lambda>k. int (count_list (all_inserts (canon_records canon js)) k)"
  let ?del = "\<lambda>k. int (count_list (all_deletes (canon_records canon js)) k)"
  let ?after = "\<lambda>k. base k + ?ins k - ?del k"
  have d0: "0 \<le> disk_count R D s (rc_column db) k \<and> disk_count R D s (rc_column db) k < 2 ^ 31" for k
  proof -
    obtain p where p: "payload R D s (rc_column db) k = Inr p" "\<And>x. p = Some x \<Longrightarrow> 0 < sint (pl_count x)"
      using assms(2,3) unfolding overlay_ok_def disk_ok_def by metis
    then show ?thesis by (cases p) (simp_all add: disk_count_def sint_range(2) [simplified] less_imp_le)
  qed
  have t: "total R D s ?f k - removed ?f (taken canon js) k =
      (if k = ?null then disk_count R D s (rc_column db) k else ?after k + int (later k))" for k
    using taken_balance [of js k canon] assms(5) by (simp add: rc_balanced_def total_def assms(3) [symmetric] removed_def)
  have nn: "removed ?f (taken canon js) k \<le> total R D s ?f k" for k
    using t [of k] assms(6) [of k] d0 [of k] by (simp split: if_splits)
  have u: "no_underflow ?f (taken canon js)"
    unfolding no_underflow_def
  proof
    show "- (2 ^ 31) \<le> sint (refs (od_overlay ?f) k) - removed ?f (taken canon js) k" for k
      using nn [of k] d0 [of k] by (simp add: total_def assms(3) [symmetric])
  qed
  from rlp.mark_canonical_effect [OF assms(1-4) u nn] obtain n batch fwd where
    m: "RefCountedDB_mark_canonical R D s db [] era canon = Some (Inr n, batch, db\<lparr>rc_forward := fwd\<rparr>)" and
    f: "md_data (od_overlay fwd) = []" "hashed_null_node (od_overlay fwd) = ?null" and
    e: "\<And>s'. kv_get D s' = apply_ops batch (kv_get D s) \<Longrightarrow>
       (\<forall>k. disk_count R D s' (rc_column db) k = total R D s ?f k - removed ?f (taken canon js) k) \<and>
       (\<forall>i < length js. kv_get D s' (rc_column db) (journal_key R era i) = None)" by blast
  have "rc_balanced R D s' (db\<lparr>rc_forward := fwd\<rparr>) ?after later" if "kv_get D s' = apply_ops batch (kv_get D s)" for s'
    using e [OF that] t f by (simp add: rc_balanced_def refs_def)
  then show ?thesis
    using e t f(1) by (intro exI [of _ n] exI [of _ batch] exI [of _ "db\<lparr>rc_forward := fwd\<rparr>"] conjI allI impI m) simp_all
qed

text \<open>Journalling appends: in an era with \<open>n\<close> records, \<open>journal_under\<close> returns,
  and after its batch is written the era has the \<open>n\<close> records and behind them the
  block's own, with the insertions and removals made since the last call, which
  are cleared; the references on disk and what is read stay as they are.\<close>

theorem refcounted_journal_appends:
  assumes "rlp R" and "era_journal R D s (rc_column db) now js" and "length js + 1 < 2 ^ 64"
    and "rc_column db = od_column (rc_forward db)"
  shows "\<exists>n batch db'. RefCountedDB_journal_under R D s db [] now block_id = Some (n, batch, db') \<and>
    rc_inserts db' = [] \<and> rc_removes db' = [] \<and> rc_forward db' = rc_forward db \<and>
    (\<forall>s'. kv_get D s' = apply_ops batch (kv_get D s) \<longrightarrow>
       era_journal R D s' (rc_column db) now
         (js @ [\<lparr>jr_id = block_id, jr_inserts = rc_inserts db, jr_deletes = rc_removes db\<rparr>]) \<and>
       (\<forall>k. RefCountedDB_get R D s' db' k = RefCountedDB_get R D s db k))"
proof -
  let ?c = "rc_column db"
  let ?r = "\<lparr>jr_id = block_id, jr_inserts = rc_inserts db, jr_deletes = rc_removes db\<rparr>"
  let ?put = "Insert ?c (journal_key R now (length js)) (rlp_encode R (DatabaseValueRef_item ?r))"
  have fi: "free_index R D s ?c now 0 = Some (length js)"
    using assms(2) by (intro free_index_ends) (auto simp: era_journal_def)
  define new_era where "new_era \<longleftrightarrow> (case rc_latest_era db of None \<Rightarrow> True | Some e \<Rightarrow> e < now)"
  obtain n batch db' where j: "RefCountedDB_journal_under R D s db [] now block_id = Some (n, batch, db')"
    and b: "batch = [?put] \<or> (\<exists>x. batch = [?put, Insert ?c LATEST_ERA_KEY x])"
    and db': "rc_inserts db' = []" "rc_removes db' = []" "rc_forward db' = rc_forward db"
    by (cases new_era) (simp_all add: RefCountedDB_journal_under_def Let_def fi new_era_def)
  have inj: "journal_key R now i = journal_key R now k \<longleftrightarrow> i = k" for i k
    using rlp.key_inject [OF assms(1)] by (auto simp: journal_key_def DatabaseKey_item_def)
  have era: "LATEST_ERA_KEY \<noteq> journal_key R now i" if "i < 2 ^ 64" for i
    using rlp.key_length [OF assms(1), of "unat now" i] that unat_bound [of now]
    by (auto simp: journal_key_def DatabaseKey_item_def LATEST_ERA_KEY_def dest: arg_cong [where f = length])
  have "era_journal R D s' ?c now (js @ [?r]) \<and> (\<forall>k. RefCountedDB_get R D s' db' k = RefCountedDB_get R D s db k)"
    if g: "kv_get D s' = apply_ops batch (kv_get D s)" for s'
  proof
    have k: "kv_get D s' ?c (journal_key R now i) = (if i = length js then Some (rlp_encode R (DatabaseValueRef_item ?r))
        else kv_get D s ?c (journal_key R now i))" if "i < 2 ^ 64" for i
      using b era [OF that] by (auto simp: g inj)
    show "era_journal R D s' ?c now (js @ [?r])"
      by (rule era_journal_snoc [OF assms(2,3) k])
    have "hash_key h \<noteq> journal_key R now (length js)" for h
      using rlp.journal_key_not_hash [OF assms(1), of "length js" now h] assms(3) by simp
    then have "payload R D s' ?c h = payload R D s ?c h" for h
      using b by (auto simp: payload_def g)
    then have "OverlayDB_get R D s' (rc_forward db) k = OverlayDB_get R D s (rc_forward db) k" for k
      unfolding assms(4) by (rule OverlayDB_get_payload)
    then show "\<forall>k. RefCountedDB_get R D s' db' k = RefCountedDB_get R D s db k"
      unfolding RefCountedDB_get_def db' by blast
  qed
  then show ?thesis using j db' by auto
qed

text \<open>A database with one insertion, and the store after it was journalled.\<close>

definition demo_rc :: RefCountedDB where
  "demo_rc = \<lparr>rc_forward = demo_overlay, rc_latest_era = None, rc_inserts = [2], rc_removes = [], rc_column = 0\<rparr>"

definition demo_record :: journal_record where
  "demo_record = \<lparr>jr_id = 9, jr_inserts = [2], jr_deletes = []\<rparr>"

definition demo_store :: contents where
  "demo_store = (\<lambda>_ _. None)(0 := [journal_key unary_rlp 5 0 \<mapsto> rlp_encode unary_rlp (DatabaseValueRef_item demo_record)])"

lemma demo_column: "od_column demo_overlay = 0" "hashed_null_node (od_overlay demo_overlay) = 1"
  by (simp_all add: demo_overlay_def OverlayDB_insert_def OverlayDB_new_def new_memory_db_def from_null_node_def
      HashDB_insert_def PlainDB_emplace_def toy_hash_def unary_rlp_def)

lemma demo_journal:
  "era_journal unary_rlp plain_kvdb (\<lambda>_ _. None) 0 5 []" "era_journal unary_rlp plain_kvdb demo_store 0 5 [demo_record]"
proof -
  have "journal_key unary_rlp 5 i = journal_key unary_rlp 5 k \<longleftrightarrow> i = k" for i k
    using unary.key_inject by (auto simp: journal_key_def DatabaseKey_item_def)
  then show "era_journal unary_rlp plain_kvdb (\<lambda>_ _. None) 0 5 []" "era_journal unary_rlp plain_kvdb demo_store 0 5 [demo_record]"
    by (auto simp: era_journal_def plain_kvdb_def demo_store_def)
qed

lemma demo_payload: "payload unary_rlp plain_kvdb demo_store 0 k = Inr None"
  using unary.journal_key_not_hash [of 0 5 k] by (auto simp: payload_def plain_kvdb_def demo_store_def)

lemma demo_store_ok: "overlay_ok unary_rlp plain_kvdb demo_store demo_overlay"
  by (auto simp: overlay_ok_def md_ok_def demo_entries demo_column disk_ok_def demo_payload total_def disk_count_def refs_def)

text \<open>Two insertions of the key, one by the canonical block and one by a block of a later era.\<close>

definition demo_twice :: RefCountedDB where
  "demo_twice = \<lparr>rc_forward = snd (OverlayDB_insert toy_hash demo_overlay [1, 2]), rc_latest_era = None, rc_inserts = [], rc_removes = [], rc_column = 0\<rparr>"

lemma demo_twice_fields:
  "od_column (rc_forward demo_twice) = 0" "hashed_null_node (od_overlay (rc_forward demo_twice)) = 1"
  "md_data (od_overlay (rc_forward demo_twice)) = [(2, [1, 2], 2)]" "rc_column demo_twice = 0"
  by (simp_all add: demo_twice_def demo_overlay_def OverlayDB_insert_def OverlayDB_new_def new_memory_db_def from_null_node_def
      HashDB_insert_def PlainDB_emplace_def toy_hash_def unary_rlp_def)

theorem refcounted_only_canonical_counts_witness:
  "\<exists>n batch db'. RefCountedDB_mark_canonical unary_rlp plain_kvdb demo_store demo_twice [] 5 9 = Some (Inr n, batch, db') \<and>
     disk_count unary_rlp plain_kvdb (apply_ops batch demo_store) 0 2 = 2"
proof -
  let ?later = "\<lambda>k. if k = 2 then 1 else 0 :: nat"
  have c: "disk_count unary_rlp plain_kvdb demo_store 0 k = 0" for k by (simp add: disk_count_def demo_payload)
  have ok: "overlay_ok unary_rlp plain_kvdb demo_store (rc_forward demo_twice)"
    by (auto simp: overlay_ok_def md_ok_def demo_twice_fields disk_ok_def demo_payload total_def c refs_def)
  have bal: "rc_balanced unary_rlp plain_kvdb demo_store demo_twice (\<lambda>_. 0) (\<lambda>k. count_list (all_inserts [demo_record]) k + ?later k)"
    by (simp add: rc_balanced_def demo_twice_fields c refs_def all_inserts_def demo_record_def)
  have del: "int (count_list (all_deletes (canon_records 9 [demo_record])) k) = 0" for k
    by (simp add: all_deletes_def canon_records_def demo_record_def)
  obtain n batch db' where
    m: "RefCountedDB_mark_canonical unary_rlp plain_kvdb demo_store demo_twice [] 5 9 = Some (Inr n, batch, db')" and
    e: "\<forall>s'. kv_get plain_kvdb s' = apply_ops batch (kv_get plain_kvdb demo_store) \<longrightarrow>
       (\<forall>k. k \<noteq> 1 \<longrightarrow> disk_count unary_rlp plain_kvdb s' 0 k =
          0 + int (count_list (all_inserts (canon_records 9 [demo_record])) k) - 0 + int (?later k))"
    using refcounted_only_canonical_counts [where era = 5 and canon = 9, OF unary.rlp_axioms ok _ _ bal] demo_journal(2)
    unfolding demo_twice_fields del by fastforce
  have "disk_count unary_rlp plain_kvdb (apply_ops batch demo_store) 0 2 = 2"
    using e [rule_format, of "apply_ops batch demo_store" 2]
    by (simp add: plain_kvdb_def all_inserts_def canon_records_def demo_record_def)
  then show ?thesis using m by blast
qed

theorem refcounted_journal_appends_witness:
  "\<exists>n batch db'. RefCountedDB_journal_under unary_rlp plain_kvdb (\<lambda>_ _. None) demo_rc [] 5 9 = Some (n, batch, db') \<and>
     rc_inserts db' = [] \<and> rc_forward db' = demo_overlay"
  using refcounted_journal_appends [OF unary.rlp_axioms, of plain_kvdb "\<lambda>_ _. None" demo_rc 5 "[]" 9]
  by (auto simp: demo_rc_def demo_journal demo_column)

end
