(* ===== verification/EarlyMergeDb.thy ===== *)
theory EarlyMergeDb
  imports RefCountedDb
begin

text \<open>
  The early-merge journal database, \<open>earlymergedb.rs\<close>.  Insertions go to the
  backing store at once; the journal remembers which keys of the store are only
  there because of recent blocks.  For every key in the journal, \<open>refs\<close> counts its
  insertions (\<open>queue_refs\<close>) and says whether the key also belongs to the archive
  (\<open>in_archive\<close>, kept on disk as a mark beside the key).  When an era
  becomes canonical, the insertions of competing blocks are reverted and the removals of
  the canonical block are enacted.  The hash map is a map; its iteration order is never
  used.  The loops over the records of an era are partial functions.
\<close>

record RefInfo =
  queue_refs :: nat
  in_archive :: bool

type_synonym ref_map = "h256 \<rightharpoonup> RefInfo"

datatype RemoveFrom = FromQueue | FromArchive

record EarlyMergeDB =
  em_overlay :: MemoryDB
  em_refs :: "ref_map option"
  em_latest_era :: "u64 option"
  em_column :: nat

definition morph_key :: "h256 \<Rightarrow> byte \<Rightarrow> bytes" where
  "morph_key key index = hash_key key @ [index]"

definition set_already_in :: "DBOp list \<Rightarrow> nat \<Rightarrow> h256 \<Rightarrow> DBOp list" where
  "set_already_in batch col key = batch @ [Insert col (morph_key key 0) [1]]"

definition reset_already_in :: "DBOp list \<Rightarrow> nat \<Rightarrow> h256 \<Rightarrow> DBOp list" where
  "reset_already_in batch col key = batch @ [Delete col (morph_key key 0)]"

definition is_already_in :: "'s kvdb_ops \<Rightarrow> 's \<Rightarrow> nat \<Rightarrow> h256 \<Rightarrow> bool" where
  "is_already_in D s col key = (kv_get D s col (morph_key key 0) \<noteq> None)"

definition insert_key :: "'s kvdb_ops \<Rightarrow> 's \<Rightarrow> nat \<Rightarrow> h256 \<times> bytes \<Rightarrow> ref_map \<times> DBOp list \<Rightarrow> (ref_map \<times> DBOp list) result" where
  "insert_key D s col kv st = (case kv of (h, d) \<Rightarrow> case st of (rmap, batch) \<Rightarrow>
     (case rmap h of
        Some info \<Rightarrow> Inr (rmap(h \<mapsto> info\<lparr>queue_refs := queue_refs info + 1\<rparr>), batch)
      | None \<Rightarrow>
          (let ia = (kv_get D s col (hash_key h) \<noteq> None) in
           and_then
             (if ia then Inr (set_already_in batch col h)
              else and_then (ensure (\<not> is_already_in D s col h) ''assertion failed: !Self::is_already_in(backing, col, h)'')
                     (\<lambda>_. Inr (batch @ [Insert col (hash_key h) d])))
             (\<lambda>batch'. Inr (rmap(h \<mapsto> \<lparr>queue_refs = 1, in_archive = ia\<rparr>), batch')))))"

definition insert_keys :: "'s kvdb_ops \<Rightarrow> 's \<Rightarrow> nat \<Rightarrow> (h256 \<times> bytes) list \<Rightarrow> ref_map \<times> DBOp list \<Rightarrow> (ref_map \<times> DBOp list) result" where
  "insert_keys D s col inserts st = fold_res (insert_key D s col) inserts st"

definition replay_key :: "'s kvdb_ops \<Rightarrow> 's \<Rightarrow> nat \<Rightarrow> h256 \<Rightarrow> ref_map \<Rightarrow> ref_map" where
  "replay_key D s col h rmap = (case rmap h of
     Some info \<Rightarrow> rmap(h \<mapsto> info\<lparr>queue_refs := queue_refs info + 1\<rparr>)
   | None \<Rightarrow> rmap(h \<mapsto> \<lparr>queue_refs = 1, in_archive = is_already_in D s col h\<rparr>))"

definition replay_keys :: "'s kvdb_ops \<Rightarrow> 's \<Rightarrow> nat \<Rightarrow> h256 list \<Rightarrow> ref_map \<Rightarrow> ref_map" where
  "replay_keys D s col inserts rmap = fold (replay_key D s col) inserts rmap"

definition remove_key :: "nat \<Rightarrow> RemoveFrom \<Rightarrow> h256 \<Rightarrow> ref_map \<times> DBOp list \<Rightarrow> (ref_map \<times> DBOp list) result" where
  "remove_key col from h st = (case st of (rmap, batch) \<Rightarrow>
     (case rmap h of
        Some info \<Rightarrow>
          if in_archive info \<and> from = FromArchive then
            Inr (rmap(h \<mapsto> info\<lparr>in_archive := False\<rparr>), reset_already_in batch col h)
          else if queue_refs info > 1 then Inr (rmap(h \<mapsto> info\<lparr>queue_refs := queue_refs info - 1\<rparr>), batch)
          else if queue_refs info = 1 \<and> in_archive info then Inr (rmap(h := None), reset_already_in batch col h)
          else if queue_refs info = 1 then Inr (rmap(h := None), batch @ [Delete col (hash_key h)])
          else Inl (Panic ''Invalid value in refs'')
      | None \<Rightarrow> Inr (rmap, batch @ [Delete col (hash_key h)])))"

definition remove_keys :: "nat \<Rightarrow> RemoveFrom \<Rightarrow> h256 list \<Rightarrow> ref_map \<times> DBOp list \<Rightarrow> (ref_map \<times> DBOp list) result" where
  "remove_keys col from deletes st = fold_res (remove_key col from) deletes st"

definition EarlyMergeDB_payload :: "'s kvdb_ops \<Rightarrow> 's \<Rightarrow> EarlyMergeDB \<Rightarrow> h256 \<Rightarrow> bytes option" where
  "EarlyMergeDB_payload D s db key = kv_get D s (em_column db) (hash_key key)"

text \<open>The loops of \<open>read_refs\<close>: over the records of an era, and over the eras downwards.\<close>

partial_function (option) read_refs_era ::
  "rlp_ops \<Rightarrow> 's kvdb_ops \<Rightarrow> 's \<Rightarrow> nat \<Rightarrow> u64 \<Rightarrow> nat \<Rightarrow> ref_map \<Rightarrow> (nat \<times> ref_map) result option" where
  "read_refs_era R D s col era index rmap =
     (case kv_get D s col (journal_key R era index) of
        None \<Rightarrow> Some (Inr (index, rmap))
      | Some rlp_data \<Rightarrow> (case expect_rlp (view_inserts R rlp_data) of
          Inl f \<Rightarrow> Some (Inl f)
        | Inr inserts \<Rightarrow> read_refs_era R D s col era (index + 1) (replay_keys D s col inserts rmap)))"

partial_function (option) read_refs_loop ::
  "rlp_ops \<Rightarrow> 's kvdb_ops \<Rightarrow> 's \<Rightarrow> nat \<Rightarrow> u64 \<Rightarrow> ref_map \<Rightarrow> ref_map result option" where
  "read_refs_loop R D s col era rmap =
     Option.bind (read_refs_era R D s col era 0 rmap) (\<lambda>r. case r of
        Inl f \<Rightarrow> Some (Inl f)
      | Inr (index, rmap') \<Rightarrow> if index = 0 \<or> era = 0 then Some (Inr rmap') else read_refs_loop R D s col (era - 1) rmap')"

definition read_refs ::
  "rlp_ops \<Rightarrow> 's kvdb_ops \<Rightarrow> 's \<Rightarrow> nat \<Rightarrow> (u64 option \<times> ref_map) result option" where
  "read_refs R D s col = (case read_latest_era R D s col of
     Inl f \<Rightarrow> Some (Inl f)
   | Inr None \<Rightarrow> Some (Inr (None, Map.empty))
   | Inr (Some era) \<Rightarrow> map_option (\<lambda>r. and_then r (\<lambda>rmap. Inr (Some era, rmap))) (read_refs_loop R D s col era Map.empty))"

definition EarlyMergeDB_new ::
  "rlp_ops \<Rightarrow> (bytes \<Rightarrow> h256) \<Rightarrow> 's kvdb_ops \<Rightarrow> 's \<Rightarrow> nat \<Rightarrow> EarlyMergeDB result option" where
  "EarlyMergeDB_new R H D s col = map_option (\<lambda>r. and_then r (\<lambda>(latest_era, rmap).
     Inr \<lparr>em_overlay = new_memory_db R H, em_refs = Some rmap, em_latest_era = latest_era, em_column = col\<rparr>)) (read_refs R D s col)"

definition EarlyMergeDB_get :: "'s kvdb_ops \<Rightarrow> 's \<Rightarrow> EarlyMergeDB \<Rightarrow> h256 \<Rightarrow> bytes option" where
  "EarlyMergeDB_get D s db key = (case raw (em_overlay db) key of
     Some (d, rc) \<Rightarrow> if 0 <s rc then Some d else EarlyMergeDB_payload D s db key
   | None \<Rightarrow> EarlyMergeDB_payload D s db key)"

definition EarlyMergeDB_contains :: "'s kvdb_ops \<Rightarrow> 's \<Rightarrow> EarlyMergeDB \<Rightarrow> h256 \<Rightarrow> bool" where
  "EarlyMergeDB_contains D s db key = (EarlyMergeDB_get D s db key \<noteq> None)"

definition EarlyMergeDB_insert :: "(bytes \<Rightarrow> h256) \<Rightarrow> EarlyMergeDB \<Rightarrow> bytes \<Rightarrow> h256 \<times> EarlyMergeDB" where
  "EarlyMergeDB_insert H db value = (case HashDB_insert H (em_overlay db) value of (k, m) \<Rightarrow> (k, db\<lparr>em_overlay := m\<rparr>))"

definition EarlyMergeDB_emplace :: "EarlyMergeDB \<Rightarrow> h256 \<Rightarrow> bytes \<Rightarrow> EarlyMergeDB" where
  "EarlyMergeDB_emplace db key value = db\<lparr>em_overlay := HashDB_emplace (em_overlay db) key value\<rparr>"

definition EarlyMergeDB_remove :: "EarlyMergeDB \<Rightarrow> h256 \<Rightarrow> EarlyMergeDB" where
  "EarlyMergeDB_remove db key = db\<lparr>em_overlay := HashDB_remove (em_overlay db) key\<rparr>"

definition EarlyMergeDB_is_empty :: "'s kvdb_ops \<Rightarrow> 's \<Rightarrow> EarlyMergeDB \<Rightarrow> bool" where
  "EarlyMergeDB_is_empty D s db = (kv_get D s (em_column db) LATEST_ERA_KEY = None)"

text \<open>The keys removed and the entries inserted since the last call, from the drained overlay.\<close>

definition drained_removes :: "entries \<Rightarrow> h256 list" where
  "drained_removes drained = map fst (filter (\<lambda>(k, v, c). c <s 0) drained)"

definition drained_insert :: "h256 \<times> (bytes \<times> i32) \<Rightarrow> (h256 \<times> bytes) list \<Rightarrow> (h256 \<times> bytes) list result" where
  "drained_insert e inserts = (case e of (k, v, r) \<Rightarrow>
     if 0 <s r then and_then (ensure (r = 1) ''assertion failed: r == 1'') (\<lambda>_. Inr (inserts @ [(k, v)]))
     else and_then (ensure (- 1 \<le>s r) ''assertion failed: r >= -1'') (\<lambda>_. Inr inserts))"

definition EarlyMergeDB_journal_under ::
  "rlp_ops \<Rightarrow> 's kvdb_ops \<Rightarrow> 's \<Rightarrow> EarlyMergeDB \<Rightarrow> DBOp list \<Rightarrow> u64 \<Rightarrow> h256 \<Rightarrow>
   (u32 \<times> DBOp list \<times> EarlyMergeDB) result option" where
  "EarlyMergeDB_journal_under R D s db batch now block_id = (case em_refs db of
     None \<Rightarrow> Some (Inr (0, batch, db))
   | Some rmap \<Rightarrow> map_option (\<lambda>index.
       (let (drained, m) = drain (em_overlay db); removes = drained_removes drained in
        and_then (fold_res drained_insert drained []) (\<lambda>inserts.
        and_then (insert_keys D s (em_column db) inserts (rmap, batch)) (\<lambda>(rmap', batch1).
          let ins = map fst inserts;
              batch2 = batch1 @ [Insert (em_column db) (journal_key R now index)
                (rlp_encode R (DatabaseValueRef_item \<lparr>jr_id = block_id, jr_inserts = ins, jr_deletes = removes\<rparr>))];
              db' = db\<lparr>em_overlay := m, em_refs := Some rmap'\<rparr>;
              n = word_of_nat (length ins + length removes)
          in if (case em_latest_era db of None \<Rightarrow> True | Some e \<Rightarrow> e < now)
             then Inr (n, batch2 @ [Insert (em_column db) LATEST_ERA_KEY (rlp_encode R (RNum (unat now)))], db'\<lparr>em_latest_era := Some now\<rparr>)
             else Inr (n, batch2, db')))))
       (free_index R D s (em_column db) now 0))"

text \<open>The canonical block keeps an insertion: the key moves to the archive.\<close>

definition finalise_key :: "nat \<Rightarrow> h256 \<Rightarrow> ref_map \<times> DBOp list \<Rightarrow> ref_map \<times> DBOp list" where
  "finalise_key col k st = (case st of (rmap, batch) \<Rightarrow>
     (case rmap k of
        None \<Rightarrow> (rmap, batch)
      | Some info \<Rightarrow>
          if in_archive info then (rmap, batch)
          else if queue_refs info = 1 then (rmap(k := None), batch)
          else (rmap(k \<mapsto> \<lparr>queue_refs = queue_refs info - 1, in_archive = True\<rparr>), set_already_in batch col k)))"

definition apply_record :: "rlp_ops \<Rightarrow> nat \<Rightarrow> h256 \<Rightarrow> bytes \<Rightarrow> ref_map \<times> DBOp list \<Rightarrow> (ref_map \<times> DBOp list) result" where
  "apply_record R col canon_id rlp_data st =
     and_then (expect_rlp (view_inserts R rlp_data)) (\<lambda>inserts.
     and_then (expect_rlp (view_id R rlp_data)) (\<lambda>our_id.
       if canon_id = our_id then
         and_then (expect_rlp (view_deletes R rlp_data)) (\<lambda>deletes.
         and_then (remove_keys col FromArchive deletes st) (\<lambda>st'. Inr (fold (finalise_key col) inserts st')))
       else remove_keys col FromQueue inserts st))"

partial_function (option) em_canon_loop ::
  "rlp_ops \<Rightarrow> 's kvdb_ops \<Rightarrow> 's \<Rightarrow> nat \<Rightarrow> u64 \<Rightarrow> h256 \<Rightarrow> nat \<Rightarrow> ref_map \<Rightarrow> DBOp list \<Rightarrow> (ref_map \<times> DBOp list) result option" where
  "em_canon_loop R D s col era canon_id index rmap batch =
     (case kv_get D s col (journal_key R era index) of
        None \<Rightarrow> Some (Inr (rmap, batch))
      | Some rlp_data \<Rightarrow> (case apply_record R col canon_id rlp_data (rmap, batch) of
          Inl f \<Rightarrow> Some (Inl f)
        | Inr (rmap', batch') \<Rightarrow>
            em_canon_loop R D s col era canon_id (index + 1) rmap' (batch' @ [Delete col (journal_key R era index)])))"

definition EarlyMergeDB_mark_canonical ::
  "rlp_ops \<Rightarrow> 's kvdb_ops \<Rightarrow> 's \<Rightarrow> EarlyMergeDB \<Rightarrow> DBOp list \<Rightarrow> u64 \<Rightarrow> h256 \<Rightarrow> (u32 \<times> DBOp list \<times> EarlyMergeDB) result option" where
  "EarlyMergeDB_mark_canonical R D s db batch end_era canon_id = (case em_refs db of
     None \<Rightarrow> Some (Inl (Panic ''called Option::unwrap() on a None value''))
   | Some rmap \<Rightarrow> map_option (\<lambda>r. and_then r (\<lambda>(rmap', batch'). Inr (0, batch', db\<lparr>em_refs := Some rmap'\<rparr>)))
       (em_canon_loop R D s (em_column db) end_era canon_id 0 rmap batch))"

definition em_inject_entry ::
  "'s kvdb_ops \<Rightarrow> 's \<Rightarrow> nat \<Rightarrow> h256 \<times> (bytes \<times> i32) \<Rightarrow> u32 \<times> DBOp list \<Rightarrow> (u32 \<times> DBOp list) result" where
  "em_inject_entry D s col e st = (case e of (key, value, rc) \<Rightarrow> case st of (ops, batch) \<Rightarrow>
     if rc = 0 then Inr (ops, batch)
     else if rc = 1 then
       (if kv_get D s col (hash_key key) \<noteq> None then Inl (IoErr ''AlreadyExists'')
        else Inr (ops + 1, batch @ [Insert col (hash_key key) value]))
     else if rc = - 1 then
       (if kv_get D s col (hash_key key) = None then Inl error_negatively_reference_hash
        else Inr (ops + 1, batch @ [Delete col (hash_key key)]))
     else Inl (Panic ''Attempted to inject invalid state.''))"

definition EarlyMergeDB_inject ::
  "'s kvdb_ops \<Rightarrow> 's \<Rightarrow> EarlyMergeDB \<Rightarrow> DBOp list \<Rightarrow> (u32 \<times> DBOp list) result \<times> EarlyMergeDB" where
  "EarlyMergeDB_inject D s db batch = (let (es, m) = drain (em_overlay db) in
     (fold_res (em_inject_entry D s (em_column db)) es (0, batch), db\<lparr>em_overlay := m\<rparr>))"

definition EarlyMergeDB_consolidate :: "EarlyMergeDB \<Rightarrow> MemoryDB \<Rightarrow> EarlyMergeDB" where
  "EarlyMergeDB_consolidate db other = db\<lparr>em_overlay := consolidate (em_overlay db) other\<rparr>"

definition EarlyMergeDB_keys :: "(bytes \<times> bytes) list \<Rightarrow> EarlyMergeDB \<Rightarrow> (h256 \<times> i32) list result" where
  "EarlyMergeDB_keys it db = and_then (backing_keys it) (\<lambda>ret. Inr (fold add_refs (MemoryDB_keys (em_overlay db)) ret))"

definition EarlyMergeDB_state :: "(nat \<Rightarrow> bytes \<Rightarrow> bytes option) \<Rightarrow> EarlyMergeDB \<Rightarrow> h256 \<Rightarrow> bytes option" where
  "EarlyMergeDB_state get_by_prefix db key = get_by_prefix (em_column db) (take DB_PREFIX_LEN (hash_key key))"

end
