(* ===== verification/OverlayRecentDb.thy ===== *)
theory OverlayRecentDb
  imports EarlyMergeDb
begin

text \<open>
  The overlay-recent journal database, \<open>overlayrecentdb.rs\<close>.  The values inserted by
  recent blocks are kept in memory, in a history overlay that counts the insertions of every key
  and is addressed by the first 12 bytes of the key, and on disk in the journal records.  When
  an era becomes canonical, the insertions of the canonical block are written under their
  keys and the era leaves the overlay.  Reads go through the transaction overlay, the
  history overlay, the values on their way to the store, a cache, and the store.  The journal
  in memory is an association list with one entry per era.  The shared cells behind locks are fields of the record; a read returns the record with its cache filled.
\<close>

record JournalEntry =
  je_id :: h256
  je_insertions :: "h256 list"
  je_deletions :: "h256 list"

record JournalOverlay =
  jo_backing_overlay :: MemoryDB
  jo_pending_overlay :: "h256 \<rightharpoonup> bytes"
  jo_journal :: "(u64 \<times> JournalEntry list) list"
  jo_latest_era :: "u64 option"
  jo_earliest_era :: "u64 option"
  jo_cumulative_size :: nat

record OverlayRecentDB =
  or_transaction_overlay :: MemoryDB
  or_journal_overlay :: JournalOverlay
  or_read_cache :: "h256 \<rightharpoonup> bytes option"
  or_column :: nat

section \<open>Journal records\<close>

record DatabaseValue =
  dv_id :: h256
  dv_inserts :: "(h256 \<times> bytes) list"
  dv_deletes :: "h256 list"

definition insert_item :: "h256 \<times> bytes \<Rightarrow> rlp_item" where
  "insert_item kv = RSeq [hash_item (fst kv), RData (snd kv)]"

definition DatabaseValue_item :: "DatabaseValue \<Rightarrow> rlp_item" where
  "DatabaseValue_item v = RSeq [hash_item (dv_id v), RSeq (map insert_item (dv_inserts v)), RSeq (map hash_item (dv_deletes v))]"

definition insert_decode :: "rlp_ops \<Rightarrow> bytes \<Rightarrow> (h256 \<times> bytes) list \<Rightarrow> (h256 \<times> bytes) list result" where
  "insert_decode R r acc = and_then (rlp_val_h256 R r 0) (\<lambda>k. and_then (rlp_data_at R r 1) (\<lambda>v. Inr (acc @ [(k, v)])))"

definition DatabaseValue_decode :: "rlp_ops \<Rightarrow> bytes \<Rightarrow> DatabaseValue result" where
  "DatabaseValue_decode R bs =
     and_then (rlp_val_h256 R bs 0) (\<lambda>block_id.
     and_then (rlp_items_at R bs 1) (\<lambda>items.
     and_then (fold_res (insert_decode R) items []) (\<lambda>inserts.
     and_then (rlp_list_h256 R bs 2) (\<lambda>deletes.
       Inr \<lparr>dv_id = block_id, dv_inserts = inserts, dv_deletes = deletes\<rparr>))))"

definition to_short_key :: "h256 \<Rightarrow> h256" where
  "to_short_key key = from_be_bytes (take DB_PREFIX_LEN (hash_key key) @ replicate (32 - DB_PREFIX_LEN) 0)"

section \<open>Opening\<close>

text \<open>One insertion into the history overlay.\<close>

definition history_insert :: "h256 \<times> bytes \<Rightarrow> MemoryDB \<times> nat \<Rightarrow> MemoryDB \<times> nat" where
  "history_insert kv st = (case kv of (k, v) \<Rightarrow> case st of (overlay, cumulative_size) \<Rightarrow>
     let short_key = to_short_key k in
     (HashDB_emplace overlay short_key v,
      if HashDB_contains overlay short_key then cumulative_size else cumulative_size + length v))"

definition push_entry :: "u64 \<Rightarrow> JournalEntry \<Rightarrow> (u64 \<times> JournalEntry list) list \<Rightarrow> (u64 \<times> JournalEntry list) list" where
  "push_entry era e journal = AList.update era ((case map_of journal era of Some es \<Rightarrow> es | None \<Rightarrow> []) @ [e]) journal"

definition read_record :: "u64 \<Rightarrow> DatabaseValue \<Rightarrow> JournalOverlay \<Rightarrow> JournalOverlay" where
  "read_record era value jo = (case fold history_insert (dv_inserts value) (jo_backing_overlay jo, jo_cumulative_size jo) of (overlay, cumulative_size) \<Rightarrow>
     jo\<lparr>jo_backing_overlay := overlay, jo_cumulative_size := cumulative_size, jo_earliest_era := Some era,
        jo_journal := push_entry era \<lparr>je_id = dv_id value, je_insertions = map fst (dv_inserts value), je_deletions = dv_deletes value\<rparr> (jo_journal jo)\<rparr>)"

partial_function (option) read_overlay_era ::
  "rlp_ops \<Rightarrow> 's kvdb_ops \<Rightarrow> 's \<Rightarrow> nat \<Rightarrow> u64 \<Rightarrow> nat \<Rightarrow> JournalOverlay \<Rightarrow> (nat \<times> JournalOverlay) result option" where
  "read_overlay_era R D s col era index jo =
     (case kv_get D s col (journal_key R era index) of
        None \<Rightarrow> Some (Inr (index, jo))
      | Some rlp_data \<Rightarrow> (case DatabaseValue_decode R rlp_data of
          Inl f \<Rightarrow> Some (Inl (Panic ''read_overlay: Error decoding DatabaseValue''))
        | Inr value \<Rightarrow> read_overlay_era R D s col era (index + 1) (read_record era value jo)))"

partial_function (option) read_overlay_loop ::
  "rlp_ops \<Rightarrow> 's kvdb_ops \<Rightarrow> 's \<Rightarrow> nat \<Rightarrow> u64 \<Rightarrow> JournalOverlay \<Rightarrow> JournalOverlay result option" where
  "read_overlay_loop R D s col era jo =
     Option.bind (read_overlay_era R D s col era 0 jo) (\<lambda>r. case r of
        Inl f \<Rightarrow> Some (Inl f)
      | Inr (index, jo') \<Rightarrow> if index = 0 \<or> era = 0 then Some (Inr jo') else read_overlay_loop R D s col (era - 1) jo')"

definition empty_overlay :: "rlp_ops \<Rightarrow> (bytes \<Rightarrow> h256) \<Rightarrow> JournalOverlay" where
  "empty_overlay R H = \<lparr>jo_backing_overlay = new_memory_db R H, jo_pending_overlay = Map.empty, jo_journal = [],
     jo_latest_era = None, jo_earliest_era = None, jo_cumulative_size = 0\<rparr>"

definition read_overlay ::
  "rlp_ops \<Rightarrow> (bytes \<Rightarrow> h256) \<Rightarrow> 's kvdb_ops \<Rightarrow> 's \<Rightarrow> nat \<Rightarrow> JournalOverlay result option" where
  "read_overlay R H D s col = (case read_latest_era R D s col of
     Inl f \<Rightarrow> Some (Inl f)
   | Inr None \<Rightarrow> Some (Inr (empty_overlay R H))
   | Inr (Some era) \<Rightarrow> read_overlay_loop R D s col era ((empty_overlay R H)\<lparr>jo_latest_era := Some era\<rparr>))"

definition OverlayRecentDB_new ::
  "rlp_ops \<Rightarrow> (bytes \<Rightarrow> h256) \<Rightarrow> 's kvdb_ops \<Rightarrow> 's \<Rightarrow> nat \<Rightarrow> OverlayRecentDB result option" where
  "OverlayRecentDB_new R H D s col = map_option (\<lambda>r. and_then r (\<lambda>jo.
     Inr \<lparr>or_transaction_overlay = new_memory_db R H, or_journal_overlay = jo, or_read_cache = Map.empty, or_column = col\<rparr>))
     (read_overlay R H D s col)"

section \<open>Reading and changing\<close>

definition OverlayRecentDB_payload :: "'s kvdb_ops \<Rightarrow> 's \<Rightarrow> OverlayRecentDB \<Rightarrow> h256 \<Rightarrow> bytes option" where
  "OverlayRecentDB_payload D s db key = kv_get D s (or_column db) (hash_key key)"

text \<open>The history overlay and the values on their way to the store.\<close>

definition recent :: "JournalOverlay \<Rightarrow> h256 \<Rightarrow> bytes option" where
  "recent jo key = (case HashDB_get (jo_backing_overlay jo) (to_short_key key) of
     Some v \<Rightarrow> Some v | None \<Rightarrow> jo_pending_overlay jo (to_short_key key))"

definition OverlayRecentDB_get :: "'s kvdb_ops \<Rightarrow> 's \<Rightarrow> OverlayRecentDB \<Rightarrow> h256 \<Rightarrow> bytes option \<times> OverlayRecentDB" where
  "OverlayRecentDB_get D s db key =
     (let committed =
        (case recent (or_journal_overlay db) key of
           Some v \<Rightarrow> (Some v, db)
         | None \<Rightarrow> (case or_read_cache db key of
             Some v \<Rightarrow> (v, db)
           | None \<Rightarrow> (let v = OverlayRecentDB_payload D s db key in (v, db\<lparr>or_read_cache := (or_read_cache db)(key \<mapsto> v)\<rparr>))))
      in case raw (or_transaction_overlay db) key of
        Some (d, rc) \<Rightarrow> if 0 <s rc then (Some d, db) else committed
      | None \<Rightarrow> committed)"

definition OverlayRecentDB_contains :: "'s kvdb_ops \<Rightarrow> 's \<Rightarrow> OverlayRecentDB \<Rightarrow> h256 \<Rightarrow> bool \<times> OverlayRecentDB" where
  "OverlayRecentDB_contains D s db key = (case OverlayRecentDB_get D s db key of (v, db') \<Rightarrow> (v \<noteq> None, db'))"

definition OverlayRecentDB_insert :: "(bytes \<Rightarrow> h256) \<Rightarrow> OverlayRecentDB \<Rightarrow> bytes \<Rightarrow> h256 \<times> OverlayRecentDB" where
  "OverlayRecentDB_insert H db value = (case HashDB_insert H (or_transaction_overlay db) value of (k, m) \<Rightarrow> (k, db\<lparr>or_transaction_overlay := m\<rparr>))"

definition OverlayRecentDB_emplace :: "OverlayRecentDB \<Rightarrow> h256 \<Rightarrow> bytes \<Rightarrow> OverlayRecentDB" where
  "OverlayRecentDB_emplace db key value = db\<lparr>or_transaction_overlay := HashDB_emplace (or_transaction_overlay db) key value\<rparr>"

definition OverlayRecentDB_remove :: "OverlayRecentDB \<Rightarrow> h256 \<Rightarrow> OverlayRecentDB" where
  "OverlayRecentDB_remove db key = db\<lparr>or_transaction_overlay := HashDB_remove (or_transaction_overlay db) key\<rparr>"

definition OverlayRecentDB_keys :: "(bytes \<times> bytes) list \<Rightarrow> OverlayRecentDB \<Rightarrow> (h256 \<times> i32) list result" where
  "OverlayRecentDB_keys it db = and_then (backing_keys it) (\<lambda>ret. Inr (fold add_refs (MemoryDB_keys (or_transaction_overlay db)) ret))"

definition OverlayRecentDB_is_empty :: "'s kvdb_ops \<Rightarrow> 's \<Rightarrow> OverlayRecentDB \<Rightarrow> bool" where
  "OverlayRecentDB_is_empty D s db = (kv_get D s (or_column db) LATEST_ERA_KEY = None)"

definition OverlayRecentDB_state :: "(nat \<Rightarrow> bytes \<Rightarrow> bytes option) \<Rightarrow> OverlayRecentDB \<Rightarrow> h256 \<Rightarrow> bytes option" where
  "OverlayRecentDB_state get_by_prefix db key = (case recent (or_journal_overlay db) key of
     Some v \<Rightarrow> Some v | None \<Rightarrow> get_by_prefix (or_column db) (take DB_PREFIX_LEN (hash_key (to_short_key key))))"

section \<open>Journalling\<close>

definition tx_inserts :: "entries \<Rightarrow> (h256 \<times> bytes) list" where
  "tx_inserts tx = map (\<lambda>(k, v, c). (k, v)) (filter (\<lambda>(k, v, c). 0 <s c) tx)"

definition OverlayRecentDB_journal_under ::
  "rlp_ops \<Rightarrow> OverlayRecentDB \<Rightarrow> DBOp list \<Rightarrow> u64 \<Rightarrow> h256 \<Rightarrow> u32 \<times> DBOp list \<times> OverlayRecentDB" where
  "OverlayRecentDB_journal_under R db batch now block_id =
     (let jo = (or_journal_overlay db)\<lparr>jo_pending_overlay := Map.empty\<rparr>;
          (tx, m) = drain (or_transaction_overlay db);
          insertions = tx_inserts tx;
          inserted_keys = map fst insertions;
          removed_keys = drained_removes tx;
          ops = length inserted_keys + length removed_keys;
          encoded_value = rlp_encode R (DatabaseValue_item \<lparr>dv_id = block_id, dv_inserts = insertions, dv_deletes = removed_keys\<rparr>);
          (overlay, csize) = fold history_insert insertions (jo_backing_overlay jo, jo_cumulative_size jo);
          index = (case map_of (jo_journal jo) now of Some j \<Rightarrow> length j | None \<Rightarrow> 0);
          batch1 = batch @ [Insert (or_column db) (journal_key R now index) encoded_value];
          new_latest = (case jo_latest_era jo of None \<Rightarrow> True | Some e \<Rightarrow> e < now);
          batch2 = (if new_latest then batch1 @ [Insert (or_column db) LATEST_ERA_KEY (rlp_encode R (RNum (unat now)))] else batch1);
          jo' = jo\<lparr>jo_backing_overlay := overlay, jo_cumulative_size := csize,
                   jo_latest_era := (if new_latest then Some now else jo_latest_era jo),
                   jo_earliest_era := (if (case jo_earliest_era jo of None \<Rightarrow> True | Some e \<Rightarrow> now < e) then Some now else jo_earliest_era jo),
                   jo_journal := push_entry now \<lparr>je_id = block_id, je_insertions = inserted_keys, je_deletions = removed_keys\<rparr> (jo_journal jo)\<rparr>
      in (word_of_nat ops, batch2, db\<lparr>or_transaction_overlay := m, or_journal_overlay := jo'\<rparr>))"

text \<open>The first loop of \<open>mark_canonical\<close>, over the records of the era.\<close>

record canon_acc =
  ca_insertions :: "(h256 \<times> bytes) list"
  ca_deletions :: "h256 list"
  ca_overlay_deletions :: "h256 list"
  ca_index :: nat
  ca_batch :: "DBOp list"

definition canon_values :: "MemoryDB \<Rightarrow> h256 list \<Rightarrow> (h256 \<times> bytes) list" where
  "canon_values overlay hs = List.map_filter (\<lambda>h. case raw overlay (to_short_key h) of
     Some (d, rc) \<Rightarrow> if 0 <s rc then Some (h, d) else None | None \<Rightarrow> None) hs"

definition canon_record ::
  "rlp_ops \<Rightarrow> nat \<Rightarrow> MemoryDB \<Rightarrow> u64 \<Rightarrow> h256 \<Rightarrow> JournalEntry \<Rightarrow> canon_acc \<Rightarrow> canon_acc" where
  "canon_record R col overlay end_era canon_id journal ca =
     (let ca1 = ca\<lparr>ca_batch := ca_batch ca @ [Delete col (journal_key R end_era (ca_index ca))]\<rparr>;
          ca2 = (if canon_id = je_id journal
                 then ca1\<lparr>ca_insertions := ca_insertions ca1 @ canon_values overlay (je_insertions journal), ca_deletions := je_deletions journal\<rparr>
                 else ca1)
      in ca2\<lparr>ca_overlay_deletions := ca_overlay_deletions ca2 @ je_insertions journal, ca_index := ca_index ca2 + 1\<rparr>)"

text \<open>The later loops: the insertions are written, the era leaves the history overlay, and the
  removals are enacted for keys that are not in it.\<close>

definition put_canon :: "nat \<Rightarrow> h256 \<times> bytes \<Rightarrow> DBOp list \<times> (h256 \<rightharpoonup> bytes) \<Rightarrow> DBOp list \<times> (h256 \<rightharpoonup> bytes)" where
  "put_canon col kv st = (case kv of (k, v) \<Rightarrow> case st of (batch, pending) \<Rightarrow>
     (batch @ [Insert col (hash_key k) v], pending(to_short_key k \<mapsto> v)))"

definition leave_overlay :: "h256 \<Rightarrow> MemoryDB \<times> nat \<Rightarrow> (MemoryDB \<times> nat) result" where
  "leave_overlay k st = (case st of (overlay, csize) \<Rightarrow>
     case remove_and_purge overlay (to_short_key k) of
       (Some val, overlay') \<Rightarrow> and_then (ensure (length val \<le> csize) ''attempt to subtract with overflow'') (\<lambda>_. Inr (overlay', csize - length val))
     | (None, overlay') \<Rightarrow> Inr (overlay', csize))"

definition delete_canon :: "nat \<Rightarrow> MemoryDB \<Rightarrow> h256 \<Rightarrow> DBOp list \<Rightarrow> DBOp list" where
  "delete_canon col overlay k batch = (if HashDB_contains overlay (to_short_key k) then batch else batch @ [Delete col (hash_key k)])"

definition mark_era ::
  "rlp_ops \<Rightarrow> nat \<Rightarrow> u64 \<Rightarrow> h256 \<Rightarrow> JournalEntry list \<Rightarrow> JournalOverlay \<Rightarrow> DBOp list \<Rightarrow> (nat \<times> DBOp list \<times> JournalOverlay) result" where
  "mark_era R col end_era canon_id records jo batch =
     (let ca = fold (canon_record R col (jo_backing_overlay jo) end_era canon_id) records
                 \<lparr>ca_insertions = [], ca_deletions = [], ca_overlay_deletions = [], ca_index = 0, ca_batch = batch\<rparr>;
          ops = length (ca_insertions ca) + length (ca_deletions ca);
          (batch1, pending) = fold (put_canon col) (ca_insertions ca) (ca_batch ca, jo_pending_overlay jo)
      in and_then (fold_res leave_overlay (ca_overlay_deletions ca) (jo_backing_overlay jo, jo_cumulative_size jo)) (\<lambda>(overlay, csize).
           Inr (ops, fold (delete_canon col overlay) (ca_deletions ca) batch1,
                jo\<lparr>jo_pending_overlay := pending, jo_backing_overlay := overlay, jo_cumulative_size := csize\<rparr>)))"

text \<open>The addition \<open>end_era + 1\<close> wraps around at the largest era.\<close>

definition OverlayRecentDB_mark_canonical ::
  "rlp_ops \<Rightarrow> OverlayRecentDB \<Rightarrow> DBOp list \<Rightarrow> u64 \<Rightarrow> h256 \<Rightarrow> (u32 \<times> DBOp list \<times> OverlayRecentDB) result" where
  "OverlayRecentDB_mark_canonical R db batch end_era canon_id =
     (let jo = or_journal_overlay db in
      and_then (case map_of (jo_journal jo) end_era of
          Some records \<Rightarrow> mark_era R (or_column db) end_era canon_id records jo batch
        | None \<Rightarrow> Inr (0, batch, jo)) (\<lambda>(ops, batch', jo1).
        let jo2 = jo1\<lparr>jo_journal := AList.delete end_era (jo_journal jo1)\<rparr>;
            jo3 = (if jo_journal jo2 \<noteq> [] then jo2\<lparr>jo_earliest_era := Some (end_era + 1)\<rparr> else jo2)
        in Inr (word_of_nat ops, batch', db\<lparr>or_journal_overlay := jo3, or_read_cache := Map.empty\<rparr>)))"

definition OverlayRecentDB_flush :: "OverlayRecentDB \<Rightarrow> OverlayRecentDB" where
  "OverlayRecentDB_flush db = db\<lparr>or_journal_overlay := (or_journal_overlay db)\<lparr>jo_pending_overlay := Map.empty\<rparr>\<rparr>"

text \<open>In a release build the check that a removed key exists is off.\<close>

definition or_inject_entry ::
  "bool \<Rightarrow> 's kvdb_ops \<Rightarrow> 's \<Rightarrow> nat \<Rightarrow> h256 \<times> (bytes \<times> i32) \<Rightarrow> u32 \<times> DBOp list \<Rightarrow> (u32 \<times> DBOp list) result" where
  "or_inject_entry debug_assertions D s col e st = (case e of (key, value, rc) \<Rightarrow> case st of (ops, batch) \<Rightarrow>
     if rc = 0 then Inr (ops, batch)
     else if 0 <s rc then Inr (ops + 1, batch @ [Insert col (hash_key key) value])
     else if rc = - 1 then
       (if debug_assertions \<and> kv_get D s col (hash_key key) = None then Inl error_negatively_reference_hash
        else Inr (ops + 1, batch @ [Delete col (hash_key key)]))
     else Inl (Panic ''Attempted to inject invalid state''))"

definition OverlayRecentDB_inject ::
  "bool \<Rightarrow> 's kvdb_ops \<Rightarrow> 's \<Rightarrow> OverlayRecentDB \<Rightarrow> DBOp list \<Rightarrow> (u32 \<times> DBOp list) result \<times> OverlayRecentDB" where
  "OverlayRecentDB_inject debug_assertions D s db batch = (let (es, m) = drain (or_transaction_overlay db) in
     (fold_res (or_inject_entry debug_assertions D s (or_column db)) es (0, batch), db\<lparr>or_transaction_overlay := m\<rparr>))"

definition OverlayRecentDB_consolidate :: "OverlayRecentDB \<Rightarrow> MemoryDB \<Rightarrow> OverlayRecentDB" where
  "OverlayRecentDB_consolidate db other = db\<lparr>or_transaction_overlay := consolidate (or_transaction_overlay db) other\<rparr>"

end
