(* ===== verification/EarlyMergeProofs.thy ===== *)
theory EarlyMergeProofs
  imports EarlyMergeDb
begin

text \<open>
  What the early-merge database implements: an archive, the set of keys that the canonical
  chain has, and a queue, the records of the recent blocks.  A key is in the store when it
  is in the archive or inserted by a block of the queue.  \<open>journal_under\<close> appends to the
  queue and leaves the archive alone; \<open>mark_canonical\<close> applies the canonical block to the archive
  and forgets the others; a database opened on the store finds the counts again.
\<close>

section \<open>The state\<close>

definition em_at :: "ref_map \<Rightarrow> (bytes \<Rightarrow> bytes option) \<Rightarrow> bool \<Rightarrow> nat \<Rightarrow> h256 \<Rightarrow> bool" where
  "em_at r g a n h \<longleftrightarrow>
     r h = (if n = 0 then None else Some \<lparr>queue_refs = n, in_archive = a\<rparr>) \<and>
     (g (hash_key h) \<noteq> None \<longleftrightarrow> a \<or> 0 < n) \<and>
     (g (morph_key h 0) \<noteq> None \<longleftrightarrow> 0 < n \<and> a)"

definition em_state :: "ref_map \<Rightarrow> (bytes \<Rightarrow> bytes option) \<Rightarrow> h256 set \<Rightarrow> (h256 \<Rightarrow> nat) \<Rightarrow> bool" where
  "em_state r g A n \<longleftrightarrow> (\<forall>h. em_at r g (h \<in> A) (n h) h)"

lemma em_state_update:
  assumes "em_state r g A n" "em_at r' g' (h \<in> A') (n' h) h"
    and "\<And>k. k \<noteq> h \<Longrightarrow> r' k = r k" "\<And>k. k \<noteq> h \<Longrightarrow> g' (hash_key k) = g (hash_key k) \<and> g' (morph_key k 0) = g (morph_key k 0)"
    and "\<And>k. k \<noteq> h \<Longrightarrow> n' k = n k \<and> (k \<in> A' \<longleftrightarrow> k \<in> A)"
  shows "em_state r' g' A' n'"
  unfolding em_state_def
proof
  fix k
  show "em_at r' g' (k \<in> A') (n' k) k"
    using assms(2) assms(3-5) [of k] assms(1) by (cases "k = h") (simp_all add: em_state_def em_at_def)
qed

text \<open>The operations that concern the keys of a set.\<close>

definition about :: "nat \<Rightarrow> h256 set \<Rightarrow> DBOp list \<Rightarrow> bool" where
  "about col K ops \<longleftrightarrow> (\<forall>op\<in>set ops. op_col op = col \<and> (\<exists>h\<in>K. op_key op = hash_key h \<or> op_key op = morph_key h 0))"

lemma length_keys [simp]: "length (hash_key h) = 32" "length (morph_key h i) = 33"
  by (simp_all add: hash_key_def morph_key_def)

lemma morph_key_inject [simp]: "morph_key h i = morph_key k j \<longleftrightarrow> h = k \<and> i = j"
  by (simp add: morph_key_def)

lemma keys_differ [simp]: "hash_key h \<noteq> morph_key k i" "morph_key k i \<noteq> hash_key h"
    "morph_key k i \<noteq> LATEST_ERA_KEY" "LATEST_ERA_KEY \<noteq> morph_key k i"
proof -
  have "length (hash_key h) \<noteq> length (morph_key k i)" "length (morph_key k i) \<noteq> length LATEST_ERA_KEY"
    by (simp_all add: LATEST_ERA_KEY_def)
  then show "hash_key h \<noteq> morph_key k i" "morph_key k i \<noteq> hash_key h"
    "morph_key k i \<noteq> LATEST_ERA_KEY" "LATEST_ERA_KEY \<noteq> morph_key k i" by metis+
qed

lemma about_simps [simp]: "about col K []" "about col K (xs @ ys) \<longleftrightarrow> about col K xs \<and> about col K ys"
    "about col K [op] \<longleftrightarrow> op_col op = col \<and> (\<exists>h\<in>K. op_key op = hash_key h \<or> op_key op = morph_key h 0)"
  by (auto simp: about_def)

lemma about_mono: "about col K ops \<Longrightarrow> K \<subseteq> K' \<Longrightarrow> about col K' ops"
  by (fastforce simp: about_def)

lemma about_other: "about col K ops \<Longrightarrow> h \<notin> K \<Longrightarrow> apply_ops ops m c (hash_key h) = m c (hash_key h) \<and> apply_ops ops m c (morph_key h 0) = m c (morph_key h 0)"
  by (intro conjI apply_ops_other) (auto simp: about_def)

section \<open>Steps\<close>

lemma insert_key_state:
  assumes st: "em_state r (apply_ops ops (kv_get D s) col) A n" and ab: "about col K ops" "h \<notin> K"
  shows "\<exists>r' ops'. insert_key D s col (h, d) (r, ops) = Inr (r', ops @ ops') \<and> about col {h} ops' \<and>
    em_state r' (apply_ops (ops @ ops') (kv_get D s) col) A (n(h := Suc (n h)))"
proof (cases "n h = 0")
  case True
  have at: "em_at r (apply_ops ops (kv_get D s) col) (h \<in> A) 0 h" using st True by (metis em_state_def)
  have g: "kv_get D s col (hash_key h) \<noteq> None \<longleftrightarrow> h \<in> A" "kv_get D s col (morph_key h 0) = None" "r h = None"
    using at about_other [OF ab, of "kv_get D s" col] by (simp_all add: em_at_def)
  let ?ops = "if h \<in> A then [Insert col (morph_key h 0) [1]] else [Insert col (hash_key h) d]"
  have "insert_key D s col (h, d) (r, ops) = Inr (r(h \<mapsto> \<lparr>queue_refs = 1, in_archive = (h \<in> A)\<rparr>), ops @ ?ops)"
    using g by (simp add: insert_key_def Let_def set_already_in_def is_already_in_def ensure_def)
  moreover have "em_state (r(h \<mapsto> \<lparr>queue_refs = 1, in_archive = (h \<in> A)\<rparr>)) (apply_ops (ops @ ?ops) (kv_get D s) col) A (n(h := Suc (n h)))"
    by (rule em_state_update [OF st, where h = h]) (use at True in \<open>auto simp: em_at_def\<close>)
  ultimately show ?thesis by (intro exI conjI) auto
next
  case False
  have at: "em_at r (apply_ops ops (kv_get D s) col) (h \<in> A) (n h) h" using st by (simp add: em_state_def)
  then have "insert_key D s col (h, d) (r, ops) = Inr (r(h \<mapsto> \<lparr>queue_refs = Suc (n h), in_archive = (h \<in> A)\<rparr>), ops @ [])"
    using False by (simp add: insert_key_def em_at_def)
  moreover have "em_state (r(h \<mapsto> \<lparr>queue_refs = Suc (n h), in_archive = (h \<in> A)\<rparr>)) (apply_ops (ops @ []) (kv_get D s) col) A (n(h := Suc (n h)))"
    by (rule em_state_update [OF st, where h = h]) (use at False in \<open>auto simp: em_at_def\<close>)
  ultimately show ?thesis by (intro exI conjI) auto
qed

lemma insert_keys_state:
  "em_state r (apply_ops ops (kv_get D s) col) A n \<Longrightarrow> about col K ops \<Longrightarrow> fst ` set ins \<inter> K = {} \<Longrightarrow> distinct (map fst ins) \<Longrightarrow>
   \<exists>r' ops'. insert_keys D s col ins (r, ops) = Inr (r', ops @ ops') \<and> about col (fst ` set ins) ops' \<and>
     em_state r' (apply_ops (ops @ ops') (kv_get D s) col) A (\<lambda>h. n h + count_list (map fst ins) h)"
proof (induction ins arbitrary: r ops n K)
  case Nil
  then show ?case by (intro exI [of _ r] exI [of _ "[]"]) (simp add: insert_keys_def)
next
  case (Cons kv ins)
  obtain h d where kv: "kv = (h, d)" by (cases kv)
  obtain r1 ops1 where 1: "insert_key D s col (h, d) (r, ops) = Inr (r1, ops @ ops1)" "about col {h} ops1"
    "em_state r1 (apply_ops (ops @ ops1) (kv_get D s) col) A (n(h := Suc (n h)))"
    using insert_key_state [OF Cons.prems(1,2), of h d] Cons.prems(3) kv by auto
  have "about col (insert h K) (ops @ ops1)" using Cons.prems(2) 1(2) by (auto elim: about_mono)
  from Cons.IH [OF 1(3) this] Cons.prems(3,4) kv obtain r2 ops2 where 2: "insert_keys D s col ins (r1, ops @ ops1) = Inr (r2, (ops @ ops1) @ ops2)"
    "about col (fst ` set ins) ops2"
    "em_state r2 (apply_ops ((ops @ ops1) @ ops2) (kv_get D s) col) A (\<lambda>k. (n(h := Suc (n h))) k + count_list (map fst ins) k)" by auto
  have "(\<lambda>k. (n(h := Suc (n h))) k + count_list (map fst ins) k) = (\<lambda>k. n k + count_list (map fst (kv # ins)) k)"
    using kv by auto
  then show ?case using 1 2 kv
    by (intro exI [of _ r2] exI [of _ "ops1 @ ops2"]) (auto simp: insert_keys_def elim: about_mono)
qed

section \<open>Taking a record out of the queue\<close>

text \<open>The operations of \<open>mark_canonical\<close> write no value: they delete keys and write marks.\<close>

definition reverting :: "nat \<Rightarrow> DBOp list \<Rightarrow> bool" where
  "reverting col ops \<longleftrightarrow> (\<forall>op\<in>set ops. op_col op = col \<and> (\<exists>h. op = Delete col (hash_key h) \<or> op_key op = morph_key h 0))"

lemma reverting_simps [simp]: "reverting col []" "reverting col (xs @ ys) \<longleftrightarrow> reverting col xs \<and> reverting col ys"
    "reverting col (op # ops) \<longleftrightarrow> (op_col op = col \<and> (\<exists>h. op = Delete col (hash_key h) \<or> op_key op = morph_key h 0)) \<and> reverting col ops"
  by (auto simp: reverting_def)

lemma remove_queue_state:
  assumes st: "em_state r (apply_ops ops m col) A n" and n: "0 < n h"
  shows "\<exists>r' ops'. remove_key col FromQueue h (r, ops) = Inr (r', ops @ ops') \<and> reverting col ops' \<and>
    em_state r' (apply_ops (ops @ ops') m col) A (n(h := n h - 1))"
proof -
  have at: "em_at r (apply_ops ops m col) (h \<in> A) (n h) h" using st by (simp add: em_state_def)
  let ?r = "if n h = 1 then r(h := None) else r(h \<mapsto> \<lparr>queue_refs = n h - 1, in_archive = (h \<in> A)\<rparr>)"
  let ?ops = "if 1 < n h then [] else if h \<in> A then [Delete col (morph_key h 0)] else [Delete col (hash_key h)]"
  have "remove_key col FromQueue h (r, ops) = Inr (?r, ops @ ?ops)"
    using at n by (auto simp: remove_key_def em_at_def reset_already_in_def)
  moreover have "em_state ?r (apply_ops (ops @ ?ops) m col) A (n(h := n h - 1))"
    by (rule em_state_update [OF st, where h = h]) (use at n in \<open>auto simp: em_at_def\<close>)
  ultimately show ?thesis by (intro exI conjI) auto
qed

lemma remove_archive_state:
  assumes st: "em_state r (apply_ops ops m col) A n" and h: "h \<in> A"
  shows "\<exists>r' ops'. remove_key col FromArchive h (r, ops) = Inr (r', ops @ ops') \<and> reverting col ops' \<and>
    em_state r' (apply_ops (ops @ ops') m col) (A - {h}) n"
proof -
  have at: "em_at r (apply_ops ops m col) True (n h) h" using st h by (metis em_state_def)
  let ?r = "if n h = 0 then r else r(h \<mapsto> \<lparr>queue_refs = n h, in_archive = False\<rparr>)"
  let ?ops = "if n h = 0 then [Delete col (hash_key h)] else [Delete col (morph_key h 0)]"
  have "remove_key col FromArchive h (r, ops) = Inr (?r, ops @ ?ops)"
    using at by (auto simp: remove_key_def em_at_def reset_already_in_def)
  moreover have "em_state ?r (apply_ops (ops @ ?ops) m col) (A - {h}) n"
    by (rule em_state_update [OF st, where h = h]) (use at in \<open>auto simp: em_at_def\<close>)
  ultimately show ?thesis by (intro exI conjI) auto
qed

lemma finalise_state:
  assumes st: "em_state r (apply_ops ops m col) A n" and h: "h \<notin> A" "0 < n h"
  shows "\<exists>r' ops'. finalise_key col h (r, ops) = (r', ops @ ops') \<and> reverting col ops' \<and>
    em_state r' (apply_ops (ops @ ops') m col) (insert h A) (n(h := n h - 1))"
proof -
  have at: "em_at r (apply_ops ops m col) False (n h) h" using st h by (metis em_state_def)
  let ?r = "if n h = 1 then r(h := None) else r(h \<mapsto> \<lparr>queue_refs = n h - 1, in_archive = True\<rparr>)"
  let ?ops = "if n h = 1 then [] else [Insert col (morph_key h 0) [1]]"
  have "finalise_key col h (r, ops) = (?r, ops @ ?ops)"
    using at h(2) by (auto simp: finalise_key_def em_at_def set_already_in_def)
  moreover have "em_state ?r (apply_ops (ops @ ?ops) m col) (insert h A) (n(h := n h - 1))"
    by (rule em_state_update [OF st, where h = h]) (use at h(2) in \<open>auto simp: em_at_def\<close>)
  ultimately show ?thesis by (intro exI conjI) auto
qed

lemma remove_queue_keys:
  "em_state r (apply_ops ops m col) A n \<Longrightarrow> (\<And>h. count_list hs h \<le> n h) \<Longrightarrow>
   \<exists>r' ops'. remove_keys col FromQueue hs (r, ops) = Inr (r', ops @ ops') \<and> reverting col ops' \<and>
     em_state r' (apply_ops (ops @ ops') m col) A (\<lambda>h. n h - count_list hs h)"
proof (induction hs arbitrary: r ops n)
  case Nil
  then show ?case by (intro exI [of _ r] exI [of _ "[]"]) (simp add: remove_keys_def)
next
  case (Cons h hs)
  have "0 < n h" using Cons.prems(2) [of h] by simp
  from remove_queue_state [OF Cons.prems(1) this] obtain r1 ops1 where 1: "remove_key col FromQueue h (r, ops) = Inr (r1, ops @ ops1)"
    "reverting col ops1" "em_state r1 (apply_ops (ops @ ops1) m col) A (n(h := n h - 1))" by blast
  have "count_list hs k \<le> (n(h := n h - 1)) k" for k using Cons.prems(2) [of k] by auto
  from Cons.IH [OF 1(3) this] obtain r2 ops2 where 2: "remove_keys col FromQueue hs (r1, ops @ ops1) = Inr (r2, (ops @ ops1) @ ops2)"
    "reverting col ops2" "em_state r2 (apply_ops ((ops @ ops1) @ ops2) m col) A (\<lambda>k. (n(h := n h - 1)) k - count_list hs k)" by blast
  have "(\<lambda>k. (n(h := n h - 1)) k - count_list hs k) = (\<lambda>k. n k - count_list (h # hs) k)" by auto
  then show ?case using 1 2 by (intro exI [of _ r2] exI [of _ "ops1 @ ops2"]) (simp add: remove_keys_def)
qed

lemma remove_archive_keys:
  "em_state r (apply_ops ops m col) A n \<Longrightarrow> set hs \<subseteq> A \<Longrightarrow> distinct hs \<Longrightarrow>
   \<exists>r' ops'. remove_keys col FromArchive hs (r, ops) = Inr (r', ops @ ops') \<and> reverting col ops' \<and>
     em_state r' (apply_ops (ops @ ops') m col) (A - set hs) n"
proof (induction hs arbitrary: r ops A)
  case Nil
  then show ?case by (intro exI [of _ r] exI [of _ "[]"]) (simp add: remove_keys_def)
next
  case (Cons h hs)
  from remove_archive_state [OF Cons.prems(1), of h] Cons.prems(2) obtain r1 ops1 where
    1: "remove_key col FromArchive h (r, ops) = Inr (r1, ops @ ops1)"
    "reverting col ops1" "em_state r1 (apply_ops (ops @ ops1) m col) (A - {h}) n" by auto
  from Cons.IH [OF 1(3)] Cons.prems(2,3) obtain r2 ops2 where 2: "remove_keys col FromArchive hs (r1, ops @ ops1) = Inr (r2, (ops @ ops1) @ ops2)"
    "reverting col ops2" "em_state r2 (apply_ops ((ops @ ops1) @ ops2) m col) (A - {h} - set hs) n" by auto
  have "A - {h} - set hs = A - set (h # hs)" by auto
  then show ?case using 1 2 by (intro exI [of _ r2] exI [of _ "ops1 @ ops2"]) (simp add: remove_keys_def)
qed

lemma finalise_keys:
  "em_state r (apply_ops ops m col) A n \<Longrightarrow> set hs \<inter> A = {} \<Longrightarrow> distinct hs \<Longrightarrow> (\<And>h. h \<in> set hs \<Longrightarrow> 0 < n h) \<Longrightarrow>
   \<exists>r' ops'. fold (finalise_key col) hs (r, ops) = (r', ops @ ops') \<and> reverting col ops' \<and>
     em_state r' (apply_ops (ops @ ops') m col) (A \<union> set hs) (\<lambda>h. n h - count_list hs h)"
proof (induction hs arbitrary: r ops A n)
  case Nil
  then show ?case by (intro exI [of _ r] exI [of _ "[]"]) simp
next
  case (Cons h hs)
  from finalise_state [OF Cons.prems(1), of h] Cons.prems(2,4) obtain r1 ops1 where
    1: "finalise_key col h (r, ops) = (r1, ops @ ops1)"
    "reverting col ops1" "em_state r1 (apply_ops (ops @ ops1) m col) (insert h A) (n(h := n h - 1))" by auto
  have "0 < (n(h := n h - 1)) k" if "k \<in> set hs" for k using that Cons.prems(3,4) by auto
  from Cons.IH [OF 1(3) _ _ this] Cons.prems(2,3) obtain r2 ops2 where 2: "fold (finalise_key col) hs (r1, ops @ ops1) = (r2, (ops @ ops1) @ ops2)"
    "reverting col ops2" "em_state r2 (apply_ops ((ops @ ops1) @ ops2) m col) (insert h A \<union> set hs) (\<lambda>k. (n(h := n h - 1)) k - count_list hs k)"
    by (auto simp del: fun_upd_apply)
  have "(\<lambda>k. (n(h := n h - 1)) k - count_list hs k) = (\<lambda>k. n k - count_list (h # hs) k)" "insert h A \<union> set hs = A \<union> set (h # hs)" by auto
  then show ?case using 1 2 by (intro exI [of _ r2] exI [of _ "ops1 @ ops2"]) simp
qed

section \<open>The canonical choice\<close>

text \<open>The archive after the records of an era, and the blocks that fit: the canonical
  block removes keys of the archive and inserts keys that are not there.\<close>

definition archive_step :: "h256 \<Rightarrow> journal_record \<Rightarrow> h256 set \<Rightarrow> h256 set" where
  "archive_step canon j A = (if canon = jr_id j then (A - set (jr_deletes j)) \<union> set (jr_inserts j) else A)"

definition archive_after :: "h256 \<Rightarrow> journal_record list \<Rightarrow> h256 set \<Rightarrow> h256 set" where
  "archive_after canon js A = fold (archive_step canon) js A"

fun fits :: "h256 \<Rightarrow> journal_record list \<Rightarrow> h256 set \<Rightarrow> bool" where
  "fits canon [] A = True"
| "fits canon (j # js) A =
     ((canon = jr_id j \<longrightarrow> set (jr_deletes j) \<subseteq> A \<and> set (jr_inserts j) \<inter> A = {} \<and> distinct (jr_deletes j) \<and> distinct (jr_inserts j)) \<and>
      fits canon js (archive_step canon j A))"

definition record_ops :: "rlp_ops \<Rightarrow> nat \<Rightarrow> u64 \<Rightarrow> DBOp list \<Rightarrow> bool" where
  "record_ops R col era ops \<longleftrightarrow> (\<forall>op\<in>set ops. reverting col [op] \<or> (\<exists>i < 2 ^ 64. op = Delete col (journal_key R era i)))"

lemma record_ops_simps [simp]: "record_ops R col era []" "record_ops R col era (xs @ ys) \<longleftrightarrow> record_ops R col era xs \<and> record_ops R col era ys"
  by (auto simp: record_ops_def)

context rlp
begin

lemma view_record:
  "view_id R (rlp_encode R (DatabaseValueRef_item j)) = Inr (jr_id j)"
  "view_inserts R (rlp_encode R (DatabaseValueRef_item j)) = Inr (jr_inserts j)"
  "view_deletes R (rlp_encode R (DatabaseValueRef_item j)) = Inr (jr_deletes j)"
  unfolding view_id_def view_inserts_def view_deletes_def DatabaseValueRef_item_def
  by (rule val_h256, simp, simp, rule list_h256, simp, simp, rule list_h256, simp, simp)

lemma apply_record_state:
  assumes st: "em_state r (apply_ops ops m col) A n" and n: "\<And>h. count_list (jr_inserts j) h \<le> n h" and f: "fits canon [j] A"
  shows "\<exists>r' ops'. apply_record R col canon (rlp_encode R (DatabaseValueRef_item j)) (r, ops) = Inr (r', ops @ ops') \<and> reverting col ops' \<and>
    em_state r' (apply_ops (ops @ ops') m col) (archive_step canon j A) (\<lambda>h. n h - count_list (jr_inserts j) h)"
proof (cases "canon = jr_id j")
  case False
  then show ?thesis using remove_queue_keys [OF st n] by (simp add: apply_record_def view_record archive_step_def)
next
  case True
  have f: "set (jr_deletes j) \<subseteq> A" "set (jr_inserts j) \<inter> A = {}" "distinct (jr_deletes j)" "distinct (jr_inserts j)"
    using f True by auto
  obtain r1 ops1 where 1: "remove_keys col FromArchive (jr_deletes j) (r, ops) = Inr (r1, ops @ ops1)" "reverting col ops1"
    "em_state r1 (apply_ops (ops @ ops1) m col) (A - set (jr_deletes j)) n" using remove_archive_keys [OF st f(1,3)] by blast
  have "0 < n h" if "h \<in> set (jr_inserts j)" for h
    using that n [of h] count_list_0_iff [of "jr_inserts j" h] by linarith
  from finalise_keys [OF 1(3) _ f(4) this] f(2) obtain r2 ops2 where 2: "fold (finalise_key col) (jr_inserts j) (r1, ops @ ops1) = (r2, (ops @ ops1) @ ops2)"
    "reverting col ops2" "em_state r2 (apply_ops ((ops @ ops1) @ ops2) m col) (A - set (jr_deletes j) \<union> set (jr_inserts j)) (\<lambda>h. n h - count_list (jr_inserts j) h)"
    by blast
  show ?thesis using True 1 2
    by (intro exI [of _ r2] exI [of _ "ops1 @ ops2"]) (simp add: apply_record_def view_record archive_step_def)
qed

lemma journal_key_not_morph: "i < 2 ^ 64 \<Longrightarrow> journal_key R era i \<noteq> morph_key k 0"
  using key_length [of "unat era" i] unat_bound [of era]
  by (auto simp: journal_key_def DatabaseKey_item_def dest: arg_cong [where f = length])

text \<open>Deleting a journal record does not concern the keys.\<close>

lemma em_state_journal:
  assumes "i < 2 ^ 64"
  shows "em_state r (apply_ops (ops @ [Delete col (journal_key R era i)]) m col) A n = em_state r (apply_ops ops m col) A n"
    "em_state r (apply_ops (ops @ [Insert col (journal_key R era i) v]) m col) A n = em_state r (apply_ops ops m col) A n"
  using journal_key_not_hash [OF assms, of era] journal_key_not_morph [OF assms, of era]
  by (simp_all add: em_state_def em_at_def eq_commute [of _ "journal_key R era i"])

lemma reverting_record_ops: "reverting col ops \<Longrightarrow> record_ops R col era ops"
  by (auto simp: record_ops_def reverting_def)

lemma em_canon_loop_ends:
  assumes j: "era_journal R D s col era js"
  shows "em_state r (apply_ops ops (kv_get D s) col) A n \<Longrightarrow> i \<le> length js \<Longrightarrow> fits canon (drop i js) A \<Longrightarrow>
    (\<And>h. count_list (all_inserts (drop i js)) h \<le> n h) \<Longrightarrow>
    \<exists>r' ops'. em_canon_loop R D s col era canon i r ops = Some (Inr (r', ops @ ops')) \<and> record_ops R col era ops' \<and>
      (\<forall>k. i \<le> k \<longrightarrow> k < length js \<longrightarrow> Delete col (journal_key R era k) \<in> set ops') \<and>
      em_state r' (apply_ops (ops @ ops') (kv_get D s) col) (archive_after canon (drop i js) A) (\<lambda>h. n h - count_list (all_inserts (drop i js)) h)"
proof (induction "length js - i" arbitrary: i r ops A n)
  case 0
  then have i: "i = length js" by simp
  then have "kv_get D s col (journal_key R era i) = None" using j by (simp add: era_journal_def)
  then show ?case using 0 i
    by (intro exI [of _ r] exI [of _ "[]"]) (simp add: em_canon_loop.simps archive_after_def all_inserts_def)
next
  case (Suc m)
  then have i: "i < length js" by simp
  have i64: "i < 2 ^ 64" using i j by (simp add: era_journal_def)
  have g: "kv_get D s col (journal_key R era i) = Some (rlp_encode R (DatabaseValueRef_item (js ! i)))"
    using j i by (simp add: era_journal_def)
  have d: "drop i js = js ! i # drop (Suc i) js" using i by (simp add: Cons_nth_drop_Suc)
  have ai: "all_inserts (drop i js) = jr_inserts (js ! i) @ all_inserts (drop (Suc i) js)" by (simp add: d all_inserts_def)
  have c: "count_list (jr_inserts (js ! i)) h \<le> n h" for h using Suc.prems(4) [of h] by (simp add: ai)
  have f: "fits canon [js ! i] A" "fits canon (drop (Suc i) js) (archive_step canon (js ! i) A)" using Suc.prems(3) by (auto simp: d)
  from apply_record_state [OF Suc.prems(1) c f(1)] obtain r1 ops1 where
    1: "apply_record R col canon (rlp_encode R (DatabaseValueRef_item (js ! i))) (r, ops) = Inr (r1, ops @ ops1)" "reverting col ops1"
    "em_state r1 (apply_ops (ops @ ops1) (kv_get D s) col) (archive_step canon (js ! i) A) (\<lambda>h. n h - count_list (jr_inserts (js ! i)) h)"
    by blast
  let ?ops = "(ops @ ops1) @ [Delete col (journal_key R era i)]"
  have st: "em_state r1 (apply_ops ?ops (kv_get D s) col) (archive_step canon (js ! i) A) (\<lambda>h. n h - count_list (jr_inserts (js ! i)) h)"
    using 1(3) by (simp only: em_state_journal(1) [OF i64])
  have "m = length js - Suc i" "Suc i \<le> length js" using Suc.hyps(2) i by simp_all
  moreover have "count_list (all_inserts (drop (Suc i) js)) h \<le> n h - count_list (jr_inserts (js ! i)) h" for h
    using Suc.prems(4) [of h] by (simp add: ai)
  ultimately obtain r2 ops2 where 2: "em_canon_loop R D s col era canon (Suc i) r1 ?ops = Some (Inr (r2, ?ops @ ops2))" "record_ops R col era ops2"
    "\<forall>k. Suc i \<le> k \<longrightarrow> k < length js \<longrightarrow> Delete col (journal_key R era k) \<in> set ops2"
    "em_state r2 (apply_ops (?ops @ ops2) (kv_get D s) col) (archive_after canon (drop (Suc i) js) (archive_step canon (js ! i) A))
      (\<lambda>h. n h - count_list (jr_inserts (js ! i)) h - count_list (all_inserts (drop (Suc i) js)) h)"
    using Suc.hyps(1) [OF _ st _ f(2)] by blast
  have "record_ops R col era (ops1 @ Delete col (journal_key R era i) # ops2)"
    using reverting_record_ops [OF 1(2)] 2(2) i64 by (auto simp: record_ops_def)
  moreover have "Delete col (journal_key R era k) \<in> set (ops1 @ Delete col (journal_key R era i) # ops2)" if "i \<le> k" "k < length js" for k
    using 2(3) that by (cases "k = i") auto
  moreover have "archive_after canon (drop (Suc i) js) (archive_step canon (js ! i) A) = archive_after canon (drop i js) A"
    by (simp add: d archive_after_def)
  ultimately show ?case using 1(1) 2(1,4) g
    by (intro exI [of _ r2] exI [of _ "ops1 @ Delete col (journal_key R era i) # ops2"])
      (simp add: em_canon_loop.simps [of R D s col era canon i] ai diff_diff_left)
qed

lemma record_ops_value:
  "record_ops R col era ops \<Longrightarrow> apply_ops ops m col (hash_key h) = None \<or> apply_ops ops m col (hash_key h) = m col (hash_key h)"
proof (induction ops arbitrary: m)
  case (Cons op ops)
  have ih: "apply_ops ops (apply_op op m) col (hash_key h) = None \<or> apply_ops ops (apply_op op m) col (hash_key h) = apply_op op m col (hash_key h)"
    by (rule Cons.IH) (use Cons.prems in \<open>simp add: record_ops_def\<close>)
  have "apply_op op m col (hash_key h) = None \<or> apply_op op m col (hash_key h) = m col (hash_key h)"
    using Cons.prems by (cases op) (auto simp: record_ops_def)
  then show ?case using ih by auto
qed simp

lemma deleted_stays_deleted:
  assumes "record_ops R col era ops" "Delete col (journal_key R era i) \<in> set ops" "i < 2 ^ 64"
  shows "apply_ops ops m col (journal_key R era i) = None"
  using assms(1,2)
proof (induction ops rule: rev_induct)
  case (snoc op ops)
  show ?case
  proof (cases "op_key op = journal_key R era i")
    case True
    then have "op = Delete col (journal_key R era i)"
      using snoc.prems(1) journal_key_not_morph [OF assms(3), of era] by (cases op) (auto simp: record_ops_def)
    then show ?thesis by simp
  next
    case False
    then have "apply_ops (ops @ [op]) m col (journal_key R era i) = apply_ops ops m col (journal_key R era i)" by (cases op) auto
    moreover have "Delete col (journal_key R era i) \<in> set ops" using snoc.prems(2) False by auto
    ultimately show ?thesis using snoc.IH snoc.prems(1) by simp
  qed
qed simp

end

section \<open>Journalling\<close>

definition em_inv :: "'s kvdb_ops \<Rightarrow> 's \<Rightarrow> EarlyMergeDB \<Rightarrow> h256 set \<Rightarrow> journal_record list \<Rightarrow> bool" where
  "em_inv D s db A J \<longleftrightarrow> (\<exists>r. em_refs db = Some r \<and> em_state r (kv_get D s (em_column db)) A (count_list (all_inserts J)))"

text \<open>The overlay between two calls: every key is inserted or removed once, net.\<close>

definition net_once :: "MemoryDB \<Rightarrow> bool" where
  "net_once m \<longleftrightarrow> md_ok m \<and> (\<forall>(k, d, rc) \<in> set (md_data m). rc = - 1 \<or> rc = 0 \<or> rc = 1)"

definition block_record :: "h256 \<Rightarrow> MemoryDB \<Rightarrow> journal_record" where
  "block_record block_id m =
     \<lparr>jr_id = block_id, jr_inserts = map fst (counted (md_data m)), jr_deletes = drained_removes (md_data m)\<rparr>"

lemma drained_inserts:
  "\<forall>(k, d, rc) \<in> set es. rc = - 1 \<or> rc = 0 \<or> rc = 1 \<Longrightarrow>
   fold_res drained_insert es acc = Inr (acc @ map (\<lambda>(k, d, rc). (k, d)) (counted es))"
proof (induction es arbitrary: acc)
  case (Cons e es)
  obtain k d rc where e: "e = (k, d, rc)" by (cases e)
  then have "rc = - 1 \<or> rc = 0 \<or> rc = 1" using Cons.prems by simp
  then show ?case using Cons e by (auto simp: drained_insert_def counted_def ensure_def pos_sint)
qed (simp add: counted_def)

lemma em_state_era: "em_state r (apply_ops (ops @ [Insert col LATEST_ERA_KEY v]) m col) A n = em_state r (apply_ops ops m col) A n"
  by (simp add: em_state_def em_at_def)

lemma era_op_other: "apply_ops (ops @ [Insert col LATEST_ERA_KEY v]) m col k = (if k = LATEST_ERA_KEY then Some v else apply_ops ops m col k)"
  by simp

context rlp
begin

lemma journal_key_not_era: "i < 2 ^ 64 \<Longrightarrow> journal_key R era i \<noteq> LATEST_ERA_KEY"
  using key_length [of "unat era" i] unat_bound [of era]
  by (auto simp: journal_key_def DatabaseKey_item_def LATEST_ERA_KEY_def dest: arg_cong [where f = length])

lemma journal_key_inject: "journal_key R era i = journal_key R era' k \<longleftrightarrow> era = era' \<and> i = k"
  using key_inject [of "unat era" i "replicate 10 0" "unat era'" k] by (auto simp: journal_key_def DatabaseKey_item_def unsigned_word_eqI)

lemma em_journal_effect:
  assumes inv: "em_inv D s db A J" and net: "net_once (em_overlay db)"
    and js: "era_journal R D s (em_column db) now js" and len: "length js + 1 < 2 ^ 64"
  shows "\<exists>n batch db'. EarlyMergeDB_journal_under R D s db [] now block_id = Some (Inr (n, batch, db')) \<and>
    em_overlay db' = (em_overlay db)\<lparr>md_data := []\<rparr> \<and> em_column db' = em_column db \<and>
    (\<forall>s'. kv_get D s' = apply_ops batch (kv_get D s) \<longrightarrow>
       em_inv D s' db' A (J @ [block_record block_id (em_overlay db)]) \<and>
       era_journal R D s' (em_column db) now (js @ [block_record block_id (em_overlay db)]))"
proof -
  let ?c = "em_column db" and ?es = "md_data (em_overlay db)" and ?j = "block_record block_id (em_overlay db)"
  define ins where "ins = map (\<lambda>(k, d, rc). (k, d)) (counted ?es)"
  have ins: "map fst ins = jr_inserts ?j" by (simp add: ins_def block_record_def case_prod_unfold comp_def)
  have dis: "distinct (map fst ins)" unfolding ins using net by (simp add: block_record_def net_once_def md_ok_def counted_def distinct_map_filter)
  obtain r where r: "em_refs db = Some r" "em_state r (apply_ops [] (kv_get D s) ?c) A (count_list (all_inserts J))"
    using inv by (auto simp: em_inv_def)
  from insert_keys_state [OF r(2), of "{}", OF _ _ dis] obtain r' ops where ik: "insert_keys D s ?c ins (r, []) = Inr (r', ops)"
    "about ?c (fst ` set ins) ops" "em_state r' (apply_ops ops (kv_get D s) ?c) A (\<lambda>h. count_list (all_inserts J) h + count_list (map fst ins) h)"
    by auto
  have i64: "length js < 2 ^ 64" using len by simp
  have fi: "free_index R D s ?c now 0 = Some (length js)" using js by (intro free_index_ends) (auto simp: era_journal_def)
  have di: "fold_res drained_insert ?es [] = Inr ins" using drained_inserts [of ?es "[]"] net by (simp add: net_once_def ins_def)
  let ?b = "ops @ [Insert ?c (journal_key R now (length js)) (rlp_encode R (DatabaseValueRef_item ?j))]"
  define b where "b = (if (case em_latest_era db of None \<Rightarrow> True | Some e \<Rightarrow> e < now)
      then ?b @ [Insert ?c LATEST_ERA_KEY (rlp_encode R (RNum (unat now)))] else ?b)"
  obtain n db' where j: "EarlyMergeDB_journal_under R D s db [] now block_id = Some (Inr (n, b, db'))"
    and db': "em_overlay db' = (em_overlay db)\<lparr>md_data := []\<rparr>" "em_column db' = ?c" "em_refs db' = Some r'"
    by (cases "case em_latest_era db of None \<Rightarrow> True | Some e \<Rightarrow> e < now")
      (simp_all add: EarlyMergeDB_journal_under_def Let_def fi r(1) drain_def di ik(1) b_def ins, simp_all add: block_record_def)
  have cnt: "(\<lambda>h. count_list (all_inserts J) h + count_list (map fst ins) h) = count_list (all_inserts (J @ [?j]))"
    by (rule ext) (simp only: ins, simp add: all_inserts_def)
  have st: "em_state r' (apply_ops b (kv_get D s) ?c) A (count_list (all_inserts (J @ [?j])))"
    using ik(3) unfolding b_def cnt by (simp only: em_state_journal(2) [OF i64] em_state_era split: if_split) simp
  have kk: "apply_ops b (kv_get D s) ?c (journal_key R now i) =
      (if i = length js then Some (rlp_encode R (DatabaseValueRef_item ?j)) else kv_get D s ?c (journal_key R now i))" if "i < 2 ^ 64" for i
  proof -
    have "apply_ops ops (kv_get D s) ?c (journal_key R now i) = kv_get D s ?c (journal_key R now i)"
      using ik(2) journal_key_not_hash [OF that, of now] journal_key_not_morph [OF that, of now]
      by (intro apply_ops_other) (metis about_def)
    then show ?thesis using journal_key_not_era [OF that, of now] journal_key_inject by (auto simp: b_def)
  qed
  have "em_inv D s' db' A (J @ [?j]) \<and> era_journal R D s' ?c now (js @ [?j])" if g: "kv_get D s' = apply_ops b (kv_get D s)" for s'
    using st kk era_journal_snoc [OF js len, of s' ?j] db' by (simp add: em_inv_def g)
  then show ?thesis using j db' by blast
qed

end

section \<open>Opening the store\<close>

lemma replay_count:
  assumes "\<And>h. r h = (if c h = 0 then None else Some \<lparr>queue_refs = c h, in_archive = is_already_in D s col h\<rparr>)"
  shows "replay_keys D s col hs r h =
    (if c h + count_list hs h = 0 then None else Some \<lparr>queue_refs = c h + count_list hs h, in_archive = is_already_in D s col h\<rparr>)"
  using assms
proof (induction hs arbitrary: r c)
  case (Cons k hs)
  have "replay_key D s col k r h = (if (c(k := Suc (c k))) h = 0 then None
      else Some \<lparr>queue_refs = (c(k := Suc (c k))) h, in_archive = is_already_in D s col h\<rparr>)" for h
    using Cons.prems [of h] Cons.prems [of k] by (cases "c k = 0") (auto simp: replay_key_def)
  from Cons.IH [OF this] show ?case by (simp add: replay_keys_def)
qed (simp add: replay_keys_def)

lemma replay_append: "replay_keys D s col ys (replay_keys D s col xs r) = replay_keys D s col (xs @ ys) r"
  by (simp add: replay_keys_def)

text \<open>The records of the eras from \<open>lo\<close> to \<open>hi\<close>, the latest first.\<close>

definition queue_of :: "(nat \<Rightarrow> journal_record list) \<Rightarrow> nat \<Rightarrow> nat \<Rightarrow> journal_record list" where
  "queue_of js lo hi = concat (map js (rev [lo..<Suc hi]))"

definition eras_on_disk :: "rlp_ops \<Rightarrow> 's kvdb_ops \<Rightarrow> 's \<Rightarrow> nat \<Rightarrow> (nat \<Rightarrow> journal_record list) \<Rightarrow> nat \<Rightarrow> nat \<Rightarrow> bool" where
  "eras_on_disk R D s col js lo hi \<longleftrightarrow> lo \<le> hi \<and> hi < 2 ^ 64 \<and>
     (\<forall>e. lo \<le> e \<longrightarrow> e \<le> hi \<longrightarrow> js e \<noteq> [] \<and> era_journal R D s col (word_of_nat e) (js e)) \<and>
     (0 < lo \<longrightarrow> era_journal R D s col (word_of_nat (lo - 1)) []) \<and>
     kv_get D s col LATEST_ERA_KEY = Some (rlp_encode R (RNum hi))"

context rlp
begin

lemma read_refs_era_ends:
  assumes j: "era_journal R D s col era js"
  shows "i \<le> length js \<Longrightarrow> read_refs_era R D s col era i r = Some (Inr (length js, replay_keys D s col (all_inserts (drop i js)) r))"
proof (induction "length js - i" arbitrary: i r)
  case 0
  then have "i = length js" by simp
  moreover then have "kv_get D s col (journal_key R era i) = None" using j by (simp add: era_journal_def)
  ultimately show ?case by (simp add: read_refs_era.simps all_inserts_def replay_keys_def)
next
  case (Suc m)
  then have i: "i < length js" by simp
  have g: "kv_get D s col (journal_key R era i) = Some (rlp_encode R (DatabaseValueRef_item (js ! i)))" using j i by (simp add: era_journal_def)
  have d: "all_inserts (drop i js) = jr_inserts (js ! i) @ all_inserts (drop (Suc i) js)"
    using i by (simp add: all_inserts_def Cons_nth_drop_Suc [symmetric])
  have "read_refs_era R D s col era (Suc i) (replay_keys D s col (jr_inserts (js ! i)) r) =
      Some (Inr (length js, replay_keys D s col (all_inserts (drop (Suc i) js)) (replay_keys D s col (jr_inserts (js ! i)) r)))"
    using Suc by (intro Suc.hyps(1)) auto
  then show ?case by (subst read_refs_era.simps) (simp add: g view_record d replay_append)
qed

lemma read_refs_loop_ends:
  assumes lo: "0 < lo \<Longrightarrow> era_journal R D s col (word_of_nat (lo - 1)) []"
  shows "lo \<le> hi \<Longrightarrow> hi < 2 ^ 64 \<Longrightarrow> (\<And>e. lo \<le> e \<Longrightarrow> e \<le> hi \<Longrightarrow> js e \<noteq> [] \<and> era_journal R D s col (word_of_nat e) (js e)) \<Longrightarrow>
    read_refs_loop R D s col (word_of_nat hi) r = Some (Inr (replay_keys D s col (all_inserts (queue_of js lo hi)) r))"
proof (induction hi arbitrary: r)
  case 0
  then have "read_refs_era R D s col 0 0 r = Some (Inr (length (js 0), replay_keys D s col (all_inserts (js 0)) r))"
    using read_refs_era_ends [of D s col 0 "js 0" 0 r] by simp
  then show ?case using 0 by (subst read_refs_loop.simps) (simp add: queue_of_def)
next
  case (Suc hi)
  have w: "(word_of_nat (Suc hi) :: u64) \<noteq> 0"
    using word_of_nat_inject [of "Suc hi" 0, where 'a = 64] Suc.prems(2) by simp
  have w1: "(word_of_nat (Suc hi) :: u64) - 1 = word_of_nat hi" by simp
  have e: "js (Suc hi) \<noteq> []" "era_journal R D s col (word_of_nat (Suc hi)) (js (Suc hi))" using Suc.prems(1,3) by blast+
  let ?r = "replay_keys D s col (all_inserts (js (Suc hi))) r"
  have era: "read_refs_loop R D s col (word_of_nat (Suc hi)) r = read_refs_loop R D s col (word_of_nat hi) ?r"
    using read_refs_era_ends [OF e(2), of 0 r] e(1) w w1 by (subst read_refs_loop.simps) (simp del: of_nat_Suc)
  show ?case
  proof (cases "lo = Suc hi")
    case True
    have "read_refs_era R D s col (word_of_nat hi) 0 ?r = Some (Inr (0, ?r))"
      using read_refs_era_ends [of D s col "word_of_nat hi" "[]" 0 ?r] lo True by (simp add: all_inserts_def replay_keys_def)
    then have "read_refs_loop R D s col (word_of_nat hi) ?r = Some (Inr ?r)" by (subst read_refs_loop.simps) simp
    then show ?thesis using era True by (simp add: queue_of_def)
  next
    case False
    then have "lo \<le> hi" using Suc.prems(1) by simp
    moreover then have "queue_of js lo (Suc hi) = js (Suc hi) @ queue_of js lo hi" by (simp add: queue_of_def)
    ultimately show ?thesis unfolding era using Suc.IH [of ?r] Suc.prems(2,3) by (simp add: all_inserts_def replay_append)
  qed
qed

end

section \<open>Properties\<close>

lemma counted_member:
  "md_ok m \<Longrightarrow> k \<in> fst ` set (counted (md_data m)) \<longleftrightarrow> (\<exists>d rc. map_of (md_data m) k = Some (d, rc) \<and> 0 <s rc)"
  unfolding md_ok_def set_map [symmetric] using counted_map_of [of "md_data m" k] map_of_eq_None_iff [of "counted (md_data m)" k]
  by (cases "map_of (md_data m) k") (auto split: if_splits)

text \<open>Journalling a block: from a state that implements the archive \<open>A\<close> and the queue \<open>J\<close>,
  with an overlay that inserts or removes every key at most once, \<open>journal_under\<close> returns
  without failing an assertion and drains the overlay; after its batch is written the state
  implements the same archive and the queue with the block appended, the block is the last
  record of its era, and the same keys are contained as before.\<close>

theorem early_merge_journal_appends:
  assumes "rlp R" and "em_inv D s db A J" and "net_once (em_overlay db)"
    and "era_journal R D s (em_column db) now js" and "length js + 1 < 2 ^ 64"
  shows "\<exists>n batch db'. EarlyMergeDB_journal_under R D s db [] now block_id = Some (Inr (n, batch, db')) \<and> md_data (em_overlay db') = [] \<and>
    (\<forall>s'. kv_get D s' = apply_ops batch (kv_get D s) \<longrightarrow>
       em_inv D s' db' A (J @ [block_record block_id (em_overlay db)]) \<and>
       era_journal R D s' (em_column db) now (js @ [block_record block_id (em_overlay db)]) \<and>
       (\<forall>k. EarlyMergeDB_contains D s' db' k = EarlyMergeDB_contains D s db k))"
proof -
  let ?j = "block_record block_id (em_overlay db)"
  obtain n batch db' where j: "EarlyMergeDB_journal_under R D s db [] now block_id = Some (Inr (n, batch, db'))"
    and db': "em_overlay db' = (em_overlay db)\<lparr>md_data := []\<rparr>" "em_column db' = em_column db"
    and e: "\<And>s'. kv_get D s' = apply_ops batch (kv_get D s) \<Longrightarrow> em_inv D s' db' A (J @ [?j]) \<and> era_journal R D s' (em_column db) now (js @ [?j])"
    using rlp.em_journal_effect [OF assms, of block_id] by auto
  have "EarlyMergeDB_contains D s' db' k = EarlyMergeDB_contains D s db k" if g: "kv_get D s' = apply_ops batch (kv_get D s)" for s' k
  proof -
    have p: "kv_get D s (em_column db) (hash_key k) \<noteq> None \<longleftrightarrow> k \<in> A \<or> 0 < count_list (all_inserts J) k"
      using assms(2) by (auto simp: em_inv_def em_state_def em_at_def)
    have "kv_get D s' (em_column db) (hash_key k) \<noteq> None \<longleftrightarrow> k \<in> A \<or> 0 < count_list (all_inserts (J @ [?j])) k"
      using e [OF g] db'(2) by (auto simp: em_inv_def em_state_def em_at_def)
    also have "\<dots> \<longleftrightarrow> kv_get D s (em_column db) (hash_key k) \<noteq> None \<or> k \<in> fst ` set (counted (md_data (em_overlay db)))"
      using count_list_0_iff [of "map fst (counted (md_data (em_overlay db)))" k] unfolding p
      by (auto simp: all_inserts_def block_record_def)
    also have "\<dots> \<longleftrightarrow> kv_get D s (em_column db) (hash_key k) \<noteq> None \<or> (\<exists>d rc. map_of (md_data (em_overlay db)) k = Some (d, rc) \<and> 0 <s rc)"
      using counted_member [of "em_overlay db" k] assms(3) by (simp add: net_once_def)
    finally show ?thesis
      by (auto simp: EarlyMergeDB_contains_def EarlyMergeDB_get_def EarlyMergeDB_payload_def raw_def db' pos_sint split: option.splits if_splits)
  qed
  then show ?thesis using j db'(1) e by auto
qed

text \<open>C26. A canonical choice: let an era hold the records of competing blocks, of which the canonical
  one removes keys of the archive and inserts keys that are not there.  Then
  \<open>mark_canonical\<close> returns and does not panic, and after its batch is written the state
  implements the archive with the canonical block applied and the queue without the era;
  every key that is still in the archive or the queue has the value it had, every other
  key is gone from the store, and so is the journal of the era.\<close>

theorem early_merge_canonical_refines:
  assumes "rlp R" and "em_inv D s db A (js @ J)" and "era_journal R D s (em_column db) era js" and "fits canon js A"
  shows "\<exists>batch db'. EarlyMergeDB_mark_canonical R D s db [] era canon = Some (Inr (0, batch, db')) \<and>
    (\<forall>s'. kv_get D s' = apply_ops batch (kv_get D s) \<longrightarrow>
       em_inv D s' db' (archive_after canon js A) J \<and>
       (\<forall>k. kv_get D s' (em_column db) (hash_key k) =
          (if k \<in> archive_after canon js A \<or> k \<in> set (all_inserts J) then kv_get D s (em_column db) (hash_key k) else None)) \<and>
       (\<forall>i < length js. kv_get D s' (em_column db) (journal_key R era i) = None))"
proof -
  let ?c = "em_column db" and ?A = "archive_after canon js A"
  obtain r where r: "em_refs db = Some r" "em_state r (apply_ops [] (kv_get D s) ?c) A (count_list (all_inserts (js @ J)))"
    using assms(2) by (auto simp: em_inv_def)
  have c: "count_list (all_inserts (drop 0 js)) h \<le> count_list (all_inserts (js @ J)) h" for h by (simp add: all_inserts_def)
  from rlp.em_canon_loop_ends [OF assms(1,3) r(2) _ _ c, of canon] assms(4) obtain r' ops where
    l: "em_canon_loop R D s ?c era canon 0 r [] = Some (Inr (r', ops))" "record_ops R ?c era ops"
      "\<forall>k < length js. Delete ?c (journal_key R era k) \<in> set ops"
      "em_state r' (apply_ops ops (kv_get D s) ?c) ?A (\<lambda>h. count_list (all_inserts (js @ J)) h - count_list (all_inserts js) h)" by auto
  have n: "(\<lambda>h. count_list (all_inserts (js @ J)) h - count_list (all_inserts js) h) = count_list (all_inserts J)"
    by (rule ext) (simp add: all_inserts_def)
  have m: "EarlyMergeDB_mark_canonical R D s db [] era canon = Some (Inr (0, ops, db\<lparr>em_refs := Some r'\<rparr>))"
    by (simp add: EarlyMergeDB_mark_canonical_def r(1) l(1))
  have st: "em_state r' (apply_ops ops (kv_get D s) ?c) ?A (count_list (all_inserts J))" using l(4) by (simp only: n)
  have "kv_get D s' ?c (hash_key k) = (if k \<in> ?A \<or> k \<in> set (all_inserts J) then kv_get D s ?c (hash_key k) else None)"
    if g: "kv_get D s' = apply_ops ops (kv_get D s)" for s' k
  proof -
    have "kv_get D s' ?c (hash_key k) \<noteq> None \<longleftrightarrow> k \<in> ?A \<or> 0 < count_list (all_inserts J) k"
      using st by (auto simp: g em_state_def em_at_def)
    then show ?thesis
      using rlp.record_ops_value [OF assms(1) l(2), of "kv_get D s" k] count_list_0_iff [of "all_inserts J" k] by (auto simp: g)
  qed
  moreover have "kv_get D s' ?c (journal_key R era i) = None" if "kv_get D s' = apply_ops ops (kv_get D s)" "i < length js" for s' i
    using rlp.deleted_stays_deleted [OF assms(1) l(2), of i] l(3) that assms(3) by (simp add: era_journal_def)
  moreover have "em_inv D s' (db\<lparr>em_refs := Some r'\<rparr>) ?A J" if "kv_get D s' = apply_ops ops (kv_get D s)" for s'
    using st that by (simp add: em_inv_def)
  ultimately show ?thesis using m by (intro exI [of _ ops] exI [of _ "db\<lparr>em_refs := Some r'\<rparr>"]) auto
qed

text \<open>C29. Opening the store finds the counts again: if the store implements an archive and the
  queue of the eras from \<open>lo\<close> to the latest era, none of them empty, then
  \<open>new\<close> returns and its reference counts are those in memory.\<close>

theorem early_merge_reopens:
  assumes "rlp R" and "em_inv D s db A (queue_of js lo hi)" and "eras_on_disk R D s (em_column db) js lo hi"
  shows "\<exists>db'. EarlyMergeDB_new R H D s (em_column db) = Some (Inr db') \<and> em_refs db' = em_refs db \<and>
    em_latest_era db' = Some (word_of_nat hi) \<and> em_inv D s db' A (queue_of js lo hi)"
proof -
  let ?c = "em_column db" and ?hs = "all_inserts (queue_of js lo hi)"
  have hi: "hi < 2 ^ 64" "unat (word_of_nat hi :: u64) = hi" using assms(3) by (auto simp: eras_on_disk_def unat_of_nat)
  have le: "read_latest_era R D s ?c = Inr (Some (word_of_nat hi))"
    using assms(3) rlp.decode_u64 [OF assms(1), of "word_of_nat hi"] hi(2) by (simp add: read_latest_era_def eras_on_disk_def)
  let ?r = "replay_keys D s ?c ?hs Map.empty"
  have loop: "read_refs_loop R D s ?c (word_of_nat hi) Map.empty = Some (Inr ?r)"
    by (rule rlp.read_refs_loop_ends [OF assms(1)]) (use assms(3) in \<open>auto simp: eras_on_disk_def\<close>)
  obtain r where r: "em_refs db = Some r" "em_state r (kv_get D s ?c) A (count_list ?hs)" using assms(2) by (auto simp: em_inv_def)
  have "?r h = r h" for h
    using replay_count [of Map.empty "\<lambda>_. 0" D s ?c ?hs h] r(2) by (auto simp: em_state_def em_at_def is_already_in_def)
  then have "?r = r" by (rule ext)
  then show ?thesis using le loop r by (auto simp: EarlyMergeDB_new_def read_refs_def em_inv_def)
qed

section \<open>Witnesses\<close>

text \<open>An empty store with one insertion in the overlay, and a store with one block journalled.\<close>

definition em_fresh :: EarlyMergeDB where
  "em_fresh = \<lparr>em_overlay = od_overlay demo_overlay, em_refs = Some Map.empty, em_latest_era = None, em_column = 0\<rparr>"

definition em_queued :: EarlyMergeDB where
  "em_queued = \<lparr>em_overlay = new_memory_db unary_rlp toy_hash, em_refs = Some [2 \<mapsto> \<lparr>queue_refs = 1, in_archive = False\<rparr>],
     em_latest_era = Some 5, em_column = 0\<rparr>"

definition em_store :: contents where
  "em_store = (\<lambda>_ _. None)(0 := [LATEST_ERA_KEY \<mapsto> rlp_encode unary_rlp (RNum 5),
     journal_key unary_rlp 5 0 \<mapsto> rlp_encode unary_rlp (DatabaseValueRef_item demo_record), hash_key 2 \<mapsto> [1, 2]])"

lemma em_fresh_inv: "em_inv plain_kvdb (\<lambda>_ _. None) em_fresh {} []" "net_once (em_overlay em_fresh)"
  by (simp_all add: em_inv_def em_fresh_def em_state_def em_at_def all_inserts_def plain_kvdb_def net_once_def md_ok_def demo_entries)

lemma em_store_get: "kv_get plain_kvdb em_store 0 (hash_key h) = (if h = 2 then Some [1, 2] else None)"
    "kv_get plain_kvdb em_store 0 (morph_key h 0) = None" "kv_get plain_kvdb em_store 0 LATEST_ERA_KEY = Some (rlp_encode unary_rlp (RNum 5))"
    "i < 2 ^ 64 \<Longrightarrow> kv_get plain_kvdb em_store 0 (journal_key unary_rlp e i) =
      (if e = 5 \<and> i = 0 then Some (rlp_encode unary_rlp (DatabaseValueRef_item demo_record)) else None)"
  using unary.journal_key_not_hash unary.journal_key_not_morph [of 0 5] unary.journal_key_not_era
  by (auto simp: plain_kvdb_def em_store_def unary.journal_key_inject eq_commute [of _ "journal_key unary_rlp 5 0"] eq_commute [of LATEST_ERA_KEY])

lemma em_queued_inv: "em_inv plain_kvdb em_store em_queued {} [demo_record]"
  using em_store_get by (auto simp: em_inv_def em_queued_def em_state_def em_at_def all_inserts_def demo_record_def)

lemma em_store_journal: "era_journal unary_rlp plain_kvdb em_store 0 5 [demo_record]" "e \<noteq> 5 \<Longrightarrow> era_journal unary_rlp plain_kvdb em_store 0 e []"
  by (auto simp: era_journal_def em_store_get)

theorem early_merge_journal_appends_witness:
  "\<exists>n batch db'. EarlyMergeDB_journal_under unary_rlp plain_kvdb (\<lambda>_ _. None) em_fresh [] 5 9 = Some (Inr (n, batch, db')) \<and>
     EarlyMergeDB_contains plain_kvdb (apply_ops batch (\<lambda>_ _. None)) db' 2"
proof -
  have c: "EarlyMergeDB_contains plain_kvdb (\<lambda>_ _. None) em_fresh 2"
    by (simp add: EarlyMergeDB_contains_def EarlyMergeDB_get_def em_fresh_def raw_def demo_entries demo_column pos_sint)
  obtain n batch db' where "EarlyMergeDB_journal_under unary_rlp plain_kvdb (\<lambda>_ _. None) em_fresh [] 5 9 = Some (Inr (n, batch, db'))"
    "\<forall>s'. kv_get plain_kvdb s' = apply_ops batch (kv_get plain_kvdb (\<lambda>_ _. None)) \<longrightarrow>
      (\<forall>k. EarlyMergeDB_contains plain_kvdb s' db' k = EarlyMergeDB_contains plain_kvdb (\<lambda>_ _. None) em_fresh k)"
    using early_merge_journal_appends [OF unary.rlp_axioms em_fresh_inv, of 5 "[]" 9] demo_journal(1) by (auto simp: em_fresh_def)
  then show ?thesis using c by (auto simp: plain_kvdb_def)
qed

theorem early_merge_canonical_refines_witness:
  "\<exists>batch db'. EarlyMergeDB_mark_canonical unary_rlp plain_kvdb em_store em_queued [] 5 9 = Some (Inr (0, batch, db')) \<and>
     kv_get plain_kvdb (apply_ops batch em_store) 0 (hash_key 2) = Some [1, 2] \<and> kv_get plain_kvdb (apply_ops batch em_store) 0 (journal_key unary_rlp 5 0) = None"
proof -
  have a: "archive_after 9 [demo_record] {} = {2}" "fits 9 [demo_record] {}"
    by (simp_all add: archive_after_def archive_step_def demo_record_def)
  have c: "em_column em_queued = 0" by (simp add: em_queued_def)
  obtain batch db' where "EarlyMergeDB_mark_canonical unary_rlp plain_kvdb em_store em_queued [] 5 9 = Some (Inr (0, batch, db'))"
    "\<And>s'. kv_get plain_kvdb s' = apply_ops batch (kv_get plain_kvdb em_store) \<Longrightarrow>
      kv_get plain_kvdb s' 0 (hash_key 2) = kv_get plain_kvdb em_store 0 (hash_key 2) \<and> kv_get plain_kvdb s' 0 (journal_key unary_rlp 5 0) = None"
    using early_merge_canonical_refines [OF unary.rlp_axioms, of plain_kvdb em_store em_queued "{}" "[demo_record]" "[]" 5 9, unfolded a(1) c]
      em_queued_inv em_store_journal(1) a(2) by fastforce
  then show ?thesis using em_store_get(1) [of 2] by (fastforce simp: plain_kvdb_def)
qed

theorem early_merge_reopens_witness:
  "\<exists>db'. EarlyMergeDB_new unary_rlp toy_hash plain_kvdb em_store 0 = Some (Inr db') \<and> em_refs db' = Some [2 \<mapsto> \<lparr>queue_refs = 1, in_archive = False\<rparr>]"
proof -
  have q: "queue_of (\<lambda>_. [demo_record]) 5 5 = [demo_record]" by (simp add: queue_of_def)
  have "eras_on_disk unary_rlp plain_kvdb em_store 0 (\<lambda>_. [demo_record]) 5 5"
  proof -
    have "e = 5" if "5 \<le> e" "e \<le> 5" for e :: nat using that by simp
    then show ?thesis using em_store_journal em_store_get(3) by (auto simp: eras_on_disk_def)
  qed
  then show ?thesis
    using early_merge_reopens [OF unary.rlp_axioms, of plain_kvdb em_store em_queued "{}" "\<lambda>_. [demo_record]" 5 5 toy_hash] em_queued_inv
    by (auto simp: q em_queued_def)
qed

end
