(* ===== verification/OverlayRecentProofs.thy ===== *)
theory OverlayRecentProofs
  imports OverlayRecentDb EarlyMergeProofs
begin

text \<open>
  What the overlay-recent database implements.  The values are content-addressed: a key has one
  value, \<open>val k\<close>, and the first 12 bytes tell the keys in play (the set \<open>K\<close>) apart.  The history overlay
  counts, for every key, its insertions by the blocks of the journal, and the store holds the
  keys of the archive.  A key can be read when it is in the transaction overlay, in the history
  or in the archive.  \<open>journal_under\<close> changes nothing that is read; \<open>mark_canonical\<close>
  adds the insertions of the canonical block to the archive and drops its removals, except for
  keys that the history still needs.
\<close>

section \<open>The history overlay\<close>

definition keys_ok :: "h256 \<Rightarrow> bytes \<Rightarrow> (h256 \<Rightarrow> bytes) \<Rightarrow> h256 set \<Rightarrow> bool" where
  "keys_ok nk nd val K \<longleftrightarrow> inj_on to_short_key K \<and> (\<forall>k\<in>K. to_short_key k \<noteq> nk \<and> k \<noteq> nk \<and> val k \<noteq> nd)"

definition data_size :: "entries \<Rightarrow> nat" where
  "data_size es = sum_list (map (\<lambda>(k, d, rc). length d) es)"

definition hist_ok :: "(h256 \<Rightarrow> bytes) \<Rightarrow> h256 set \<Rightarrow> (h256 \<Rightarrow> nat) \<Rightarrow> MemoryDB \<Rightarrow> nat \<Rightarrow> bool" where
  "hist_ok val K n m c \<longleftrightarrow> md_ok m \<and> keys_ok (hashed_null_node m) (null_node_data m) val K \<and> c = data_size (md_data m) \<and>
     (\<forall>k\<in>K. n k < 2 ^ 31 \<and> map_of (md_data m) (to_short_key k) = (if n k = 0 then None else Some (val k, word_of_nat (n k))))"

lemma data_size_update:
  "data_size (AList.update k (d, rc) es) + (case map_of es k of Some (d0, _) \<Rightarrow> length d0 | None \<Rightarrow> 0) = data_size es + length d"
  by (induction es) (auto simp: data_size_def split: option.splits)

lemma data_size_delete:
  "distinct (map fst es) \<Longrightarrow> map_of es k = Some (d, rc) \<Longrightarrow> data_size (AList.delete k es) + length d = data_size es"
proof (induction es)
  case (Cons e es)
  have "k \<notin> fst ` set es \<Longrightarrow> AList.delete k es = es" by (simp add: delete_id)
  then show ?case using Cons by (cases e) (auto simp: data_size_def split: if_splits)
qed simp

lemma count_positive: "0 < n \<Longrightarrow> n < 2 ^ 31 \<Longrightarrow> 0 <s (word_of_nat n :: i32)"
proof -
  assume n: "0 < n" "n < 2 ^ 31"
  have "sint (word_of_nat n :: i32) = signed_take_bit 31 (int n)" by (simp add: signed_of_nat)
  also have "\<dots> = int n" using n by (intro signed_take_bit_int_eq_self) simp_all
  finally show ?thesis using n by (simp add: pos_sint)
qed

lemma hist_key:
  assumes "hist_ok val K n m c" "k \<in> K"
  shows "HashDB_contains m (to_short_key k) \<longleftrightarrow> 0 < n k" "HashDB_get m (to_short_key k) = (if 0 < n k then Some (val k) else None)"
    "raw m (to_short_key k) = (if n k = 0 then None else Some (val k, word_of_nat (n k)))"
proof -
  have "to_short_key k \<noteq> hashed_null_node m" "n k < 2 ^ 31" using assms by (auto simp: hist_ok_def keys_ok_def)
  then show "HashDB_contains m (to_short_key k) \<longleftrightarrow> 0 < n k" "HashDB_get m (to_short_key k) = (if 0 < n k then Some (val k) else None)"
    "raw m (to_short_key k) = (if n k = 0 then None else Some (val k, word_of_nat (n k)))"
    using assms count_positive [of "n k"]
    by (auto simp: hist_ok_def HashDB_contains_def PlainDB_contains_def HashDB_get_def PlainDB_get_def raw_def)
qed

lemma history_insert_ok:
  assumes h: "hist_ok val K n m c" and k: "k \<in> K" "n k + 1 < 2 ^ 31"
  shows "case history_insert (k, val k) (m, c) of (m', c') \<Rightarrow> hist_ok val K (n(k := Suc (n k))) m' c' \<and>
    hashed_null_node m' = hashed_null_node m \<and> null_node_data m' = null_node_data m"
proof -
  let ?m = "PlainDB_emplace m (to_short_key k) (val k)"
  have v: "val k \<noteq> null_node_data m" "\<And>j. j \<in> K \<Longrightarrow> to_short_key j = to_short_key k \<longleftrightarrow> j = k"
    using h k(1) by (auto simp: hist_ok_def keys_ok_def inj_on_def)
  have e: "map_of (md_data m) (to_short_key k) = (if n k = 0 then None else Some (val k, word_of_nat (n k)))"
    using h k(1) by (simp add: hist_ok_def)
  have m: "md_data ?m = AList.update (to_short_key k) (val k, word_of_nat (Suc (n k))) (md_data m)"
    using e k(2) by (auto simp: PlainDB_emplace_def add.commute)
  have "data_size (md_data ?m) = (if n k = 0 then c + length (val k) else c)"
    using data_size_update [of "to_short_key k" "val k" "word_of_nat (Suc (n k))" "md_data m"] e h unfolding m by (auto simp: hist_ok_def)
  moreover have "map_of (md_data ?m) (to_short_key j) = (if (n(k := Suc (n k))) j = 0 then None else Some (val j, word_of_nat ((n(k := Suc (n k))) j)))" if "j \<in> K" for j
    using h v(2) [OF that] that unfolding m by (auto simp: hist_ok_def update_conv')
  moreover have "hashed_null_node ?m = hashed_null_node m" "null_node_data ?m = null_node_data m" by (simp_all add: PlainDB_emplace_def)
  ultimately show ?thesis using h k v(1) hist_key(1) [OF h k(1)]
    by (simp add: history_insert_def Let_def HashDB_emplace_def hist_ok_def)
qed

lemma leave_overlay_ok:
  assumes h: "hist_ok val K n m c" and k: "k \<in> K" "0 < n k"
  shows "\<exists>m' c'. leave_overlay k (m, c) = Inr (m', c') \<and> hist_ok val K (n(k := n k - 1)) m' c' \<and>
    hashed_null_node m' = hashed_null_node m \<and> null_node_data m' = null_node_data m"
proof -
  have s: "\<And>j. j \<in> K \<Longrightarrow> to_short_key j = to_short_key k \<longleftrightarrow> j = k" "to_short_key k \<noteq> hashed_null_node m" "n k < 2 ^ 31"
    using h k(1) by (auto simp: hist_ok_def keys_ok_def inj_on_def)
  have e: "map_of (md_data m) (to_short_key k) = Some (val k, word_of_nat (n k))" "md_ok m" "c = data_size (md_data m)"
    using h k by (auto simp: hist_ok_def)
  show ?thesis
  proof (cases "n k = 1")
    case True
    let ?m = "m\<lparr>md_data := AList.delete (to_short_key k) (md_data m)\<rparr>"
    have d: "data_size (md_data ?m) + length (val k) = c" using data_size_delete [OF _ e(1)] e(2,3) by (simp add: md_ok_def)
    have "leave_overlay k (m, c) = Inr (?m, c - length (val k))"
      using s(2) e(1) d True by (auto simp: leave_overlay_def remove_and_purge_def ensure_def)
    moreover have "hist_ok val K (n(k := n k - 1)) ?m (c - length (val k))"
      using h s(1) d True by (auto simp: hist_ok_def map_of_delete md_ok_def distinct_delete)
    ultimately show ?thesis by auto
  next
    case False
    let ?m = "m\<lparr>md_data := AList.update (to_short_key k) (val k, word_of_nat (n k) - 1) (md_data m)\<rparr>"
    have w: "(word_of_nat (n k) :: i32) \<noteq> 1" using word_of_nat_inject [of "n k" 1, where 'a = 32] s(3) False by simp
    have w1: "(word_of_nat (n k) :: i32) - 1 = word_of_nat (n k - 1)" using k(2) by (simp add: of_nat_diff)
    have "data_size (md_data ?m) = c"
      using data_size_update [of "to_short_key k" "val k" "word_of_nat (n k) - 1" "md_data m"] e(1,3) by simp
    moreover have "leave_overlay k (m, c) = Inr (?m, c)"
      using s(2) e(1) w by (simp add: leave_overlay_def remove_and_purge_def)
    moreover have "map_of (md_data ?m) (to_short_key j) = (if (n(k := n k - 1)) j = 0 then None else Some (val j, word_of_nat ((n(k := n k - 1)) j)))" if "j \<in> K" for j
      using h s(1) [OF that] that w1 False k(2) by (auto simp: hist_ok_def update_conv')
    ultimately show ?thesis using h by (auto simp: hist_ok_def md_ok_def distinct_update)
  qed
qed

section \<open>The journal in memory\<close>

definition entry_inserts :: "JournalEntry list \<Rightarrow> h256 list" where
  "entry_inserts es = concat (map je_insertions es)"

definition journal_count :: "(u64 \<times> JournalEntry list) list \<Rightarrow> h256 \<Rightarrow> nat" where
  "journal_count j k = sum_list (map (\<lambda>(era, es). count_list (entry_inserts es) k) j)"

lemma journal_count_push: "journal_count (push_entry era e j) k = journal_count j k + count_list (je_insertions e) k"
proof -
  have "journal_count (AList.update era ((case map_of j era of Some es \<Rightarrow> es | None \<Rightarrow> []) @ [e]) j) k =
      journal_count j k + count_list (je_insertions e) k"
    by (induction j) (auto simp: journal_count_def entry_inserts_def split: option.splits)
  then show ?thesis by (simp add: push_entry_def)
qed

lemma journal_count_delete:
  "distinct (map fst j) \<Longrightarrow> journal_count j k =
   journal_count (AList.delete era j) k + (case map_of j era of Some es \<Rightarrow> count_list (entry_inserts es) k | None \<Rightarrow> 0)"
proof (induction j)
  case (Cons p j)
  obtain e es where p: "p = (e, es)" by (cases p)
  show ?case
  proof (cases "e = era")
    case True
    then have "AList.delete era j = j" using Cons.prems p by (intro delete_id) simp
    then show ?thesis using True p by (simp add: journal_count_def)
  next
    case False
    then show ?thesis using Cons p by (simp add: journal_count_def)
  qed
qed (simp add: journal_count_def)

lemma push_entry_inserts:
  assumes "map_of (push_entry now e j) era = Some es" "set (je_insertions e) \<subseteq> K"
    "\<And>era es. map_of j era = Some es \<Longrightarrow> set (entry_inserts es) \<subseteq> K"
  shows "set (entry_inserts es) \<subseteq> K"
proof (cases "era = now")
  case True
  then have "es = (case map_of j now of Some es \<Rightarrow> es | None \<Rightarrow> []) @ [e]" using assms(1) by (simp add: push_entry_def update_conv')
  then show ?thesis using assms(2) assms(3) [of now] by (cases "map_of j now") (simp_all add: entry_inserts_def)
next
  case False
  then show ?thesis using assms(1) assms(3) [of era es] by (simp add: push_entry_def update_conv')
qed

text \<open>The state: the history overlay counts the insertions of the journal, the store holds the
  archive, and what is on its way or cached agrees with the store.\<close>

definition or_inv :: "(h256 \<Rightarrow> bytes) \<Rightarrow> h256 set \<Rightarrow> 's kvdb_ops \<Rightarrow> 's \<Rightarrow> OverlayRecentDB \<Rightarrow> h256 set \<Rightarrow> bool" where
  "or_inv val K D s db A \<longleftrightarrow>
     (let jo = or_journal_overlay db; m = jo_backing_overlay jo in
      hist_ok val K (journal_count (jo_journal jo)) m (jo_cumulative_size jo) \<and> distinct (map fst (jo_journal jo)) \<and>
      (\<forall>era es. map_of (jo_journal jo) era = Some es \<longrightarrow> set (entry_inserts es) \<subseteq> K) \<and>
      hashed_null_node (or_transaction_overlay db) = hashed_null_node m \<and>
      (\<forall>k\<in>K. kv_get D s (or_column db) (hash_key k) = (if k \<in> A then Some (val k) else None)) \<and>
      (\<forall>k\<in>K. \<forall>v. jo_pending_overlay jo (to_short_key k) = Some v \<longrightarrow> v = val k \<and> k \<in> A) \<and>
      (\<forall>k v. or_read_cache db k = Some v \<longrightarrow> v = kv_get D s (or_column db) (hash_key k)))"

text \<open>The transaction overlay holds the values of its keys.\<close>

definition tx_ok :: "(h256 \<Rightarrow> bytes) \<Rightarrow> h256 set \<Rightarrow> MemoryDB \<Rightarrow> bool" where
  "tx_ok val K m \<longleftrightarrow> md_ok m \<and> (\<forall>(k, d, rc) \<in> set (md_data m). 0 <s rc \<longrightarrow> k \<in> K \<and> d = val k)"

definition in_tx :: "MemoryDB \<Rightarrow> h256 \<Rightarrow> bool" where
  "in_tx m k \<longleftrightarrow> (\<exists>d rc. map_of (md_data m) k = Some (d, rc) \<and> 0 <s rc)"

lemma get_reads:
  assumes "or_inv val K D s db A" "tx_ok val K (or_transaction_overlay db)" "k \<in> K"
  shows "fst (OverlayRecentDB_get D s db k) =
    (if in_tx (or_transaction_overlay db) k \<or> 0 < journal_count (jo_journal (or_journal_overlay db)) k \<or> k \<in> A then Some (val k) else None)"
proof -
  let ?jo = "or_journal_overlay db" and ?tx = "or_transaction_overlay db"
  have h: "hist_ok val K (journal_count (jo_journal ?jo)) (jo_backing_overlay ?jo) (jo_cumulative_size ?jo)"
    and null: "k \<noteq> hashed_null_node ?tx"
    and p: "\<And>v. jo_pending_overlay ?jo (to_short_key k) = Some v \<Longrightarrow> v = val k \<and> k \<in> A"
    and d: "kv_get D s (or_column db) (hash_key k) = (if k \<in> A then Some (val k) else None)"
    and c: "\<And>v. or_read_cache db k = Some v \<Longrightarrow> v = kv_get D s (or_column db) (hash_key k)"
    using assms(1,3) by (auto simp: or_inv_def Let_def hist_ok_def keys_ok_def)
  have tx: "d = val k" if "map_of (md_data ?tx) k = Some (d, rc)" "0 <s rc" for d rc
    using assms(2) that map_of_SomeD [OF that(1)] by (auto simp: tx_ok_def)
  have "recent ?jo k = (if 0 < journal_count (jo_journal ?jo) k then Some (val k) else jo_pending_overlay ?jo (to_short_key k))"
    using hist_key(2) [OF h assms(3)] by (simp add: recent_def)
  then show ?thesis using null p d c tx
    by (auto simp: OverlayRecentDB_get_def Let_def raw_def in_tx_def OverlayRecentDB_payload_def split: option.splits if_splits)
qed

section \<open>Journalling\<close>

lemma history_inserts_ok:
  "hist_ok val K n m c \<Longrightarrow> (\<And>k v. (k, v) \<in> set ins \<Longrightarrow> k \<in> K \<and> v = val k) \<Longrightarrow> (\<And>k. k \<in> K \<Longrightarrow> n k + count_list (map fst ins) k < 2 ^ 31) \<Longrightarrow>
   case fold history_insert ins (m, c) of (m', c') \<Rightarrow> hist_ok val K (\<lambda>k. n k + count_list (map fst ins) k) m' c' \<and>
     hashed_null_node m' = hashed_null_node m \<and> null_node_data m' = null_node_data m"
proof (induction ins arbitrary: n m c)
  case (Cons e ins)
  obtain k v where e: "e = (k, v)" by (cases e)
  have k: "k \<in> K" "v = val k" using Cons.prems(2) [of k v] e by simp_all
  have n: "n k + 1 < 2 ^ 31" using Cons.prems(3) [OF k(1)] e by simp
  obtain m1 c1 where 1: "history_insert (k, val k) (m, c) = (m1, c1)" by fastforce
  have h: "hist_ok val K (n(k := Suc (n k))) m1 c1" "hashed_null_node m1 = hashed_null_node m" "null_node_data m1 = null_node_data m"
    using history_insert_ok [OF Cons.prems(1) k(1) n] 1 by simp_all
  have v: "j \<in> K \<and> w = val j" if "(j, w) \<in> set ins" for j w using Cons.prems(2) [of j w] that by simp
  have b: "(n(k := Suc (n k))) j + count_list (map fst ins) j < 2 ^ 31" if "j \<in> K" for j using Cons.prems(3) [OF that] e by auto
  have "case fold history_insert ins (m1, c1) of (m', c') \<Rightarrow> hist_ok val K (\<lambda>j. (n(k := Suc (n k))) j + count_list (map fst ins) j) m' c' \<and>
     hashed_null_node m' = hashed_null_node m1 \<and> null_node_data m' = null_node_data m1" by (rule Cons.IH [OF h(1) v b])
  moreover have "(\<lambda>j. (n(k := Suc (n k))) j + count_list (map fst ins) j) = (\<lambda>j. n j + count_list (map fst (e # ins)) j)" using e by auto
  ultimately show ?case using e k(2) 1 h by simp
qed simp

lemma count_list_distinct: "distinct xs \<Longrightarrow> count_list xs k \<le> 1"
  by (induction xs) (auto simp: count_list_0_iff)

lemma tx_inserts_ok:
  assumes "tx_ok val K m"
  shows "distinct (map fst (tx_inserts (md_data m)))" "(k, v) \<in> set (tx_inserts (md_data m)) \<Longrightarrow> k \<in> K \<and> v = val k"
    "k \<in> fst ` set (tx_inserts (md_data m)) \<longleftrightarrow> in_tx m k"
proof -
  have f: "map fst (tx_inserts (md_data m)) = map fst (counted (md_data m))"
    by (simp add: tx_inserts_def counted_def case_prod_unfold comp_def)
  show "distinct (map fst (tx_inserts (md_data m)))" using assms unfolding f by (simp add: tx_ok_def md_ok_def counted_def distinct_map_filter)
  show "k \<in> fst ` set (tx_inserts (md_data m)) \<longleftrightarrow> in_tx m k"
    using counted_member [of m k] assms arg_cong [OF f, of set] by (simp add: tx_ok_def in_tx_def)
  show "(k, v) \<in> set (tx_inserts (md_data m)) \<Longrightarrow> k \<in> K \<and> v = val k" using assms by (auto simp: tx_ok_def tx_inserts_def)
qed

definition journal_index :: "OverlayRecentDB \<Rightarrow> u64 \<Rightarrow> nat" where
  "journal_index db era = (case map_of (jo_journal (or_journal_overlay db)) era of Some j \<Rightarrow> length j | None \<Rightarrow> 0)"

context rlp
begin

lemma journal_under_effect:
  assumes inv: "or_inv val K D s db A" and tx: "tx_ok val K (or_transaction_overlay db)"
    and fit: "\<And>k. k \<in> K \<Longrightarrow> journal_count (jo_journal (or_journal_overlay db)) k + 1 < 2 ^ 31" and idx: "journal_index db now < 2 ^ 64"
    and j: "OverlayRecentDB_journal_under R db [] now block_id = (n, batch, db')" and g: "kv_get D s' = apply_ops batch (kv_get D s)"
  shows "or_inv val K D s' db' A" "md_data (or_transaction_overlay db') = []" "jo_pending_overlay (or_journal_overlay db') = Map.empty"
    "journal_count (jo_journal (or_journal_overlay db')) k =
      journal_count (jo_journal (or_journal_overlay db)) k + count_list (map fst (tx_inserts (md_data (or_transaction_overlay db)))) k"
    "kv_get D s' (or_column db) (hash_key k) = kv_get D s (or_column db) (hash_key k)" "tx_ok val K (or_transaction_overlay db')"
proof -
  let ?jo = "or_journal_overlay db" and ?tx = "md_data (or_transaction_overlay db)" and ?c = "or_column db"
  let ?ins = "tx_inserts ?tx"
  obtain m' c' where f: "fold history_insert ?ins (jo_backing_overlay ?jo, jo_cumulative_size ?jo) = (m', c')" by fastforce
  let ?e = "\<lparr>je_id = block_id, je_insertions = map fst ?ins, je_deletions = drained_removes ?tx\<rparr>"
  have db': "or_transaction_overlay db' = (or_transaction_overlay db)\<lparr>md_data := []\<rparr>" "or_column db' = ?c" "or_read_cache db' = or_read_cache db"
    "jo_pending_overlay (or_journal_overlay db') = Map.empty" "jo_journal (or_journal_overlay db') = push_entry now ?e (jo_journal ?jo)"
    "jo_backing_overlay (or_journal_overlay db') = m'" "jo_cumulative_size (or_journal_overlay db') = c'"
    using j f by (auto simp: OverlayRecentDB_journal_under_def Let_def drain_def)
  have b: "batch = [Insert ?c (journal_key R now (journal_index db now)) x] \<or>
      batch = [Insert ?c (journal_key R now (journal_index db now)) x, Insert ?c LATEST_ERA_KEY y]"
    if "x = rlp_encode R (DatabaseValue_item \<lparr>dv_id = block_id, dv_inserts = ?ins, dv_deletes = drained_removes ?tx\<rparr>)" "y = rlp_encode R (RNum (unat now))" for x y
    using j f that by (auto simp: OverlayRecentDB_journal_under_def Let_def drain_def journal_index_def split: if_splits)
  have h: "hist_ok val K (journal_count (jo_journal ?jo)) (jo_backing_overlay ?jo) (jo_cumulative_size ?jo)"
    using inv by (simp add: or_inv_def Let_def)
  have "journal_count (jo_journal ?jo) k + count_list (map fst ?ins) k < 2 ^ 31" if "k \<in> K" for k
    using fit [OF that] count_list_distinct [OF tx_inserts_ok(1) [OF tx], of k] by simp
  from history_inserts_ok [OF h tx_inserts_ok(2) [OF tx] this] have h': "hist_ok val K (\<lambda>k. journal_count (jo_journal ?jo) k + count_list (map fst ?ins) k) m' c'"
    and nulls: "hashed_null_node m' = hashed_null_node (jo_backing_overlay ?jo)" by (simp_all add: f)
  have cnt: "journal_count (push_entry now ?e (jo_journal ?jo)) k = journal_count (jo_journal ?jo) k + count_list (map fst ?ins) k" for k
    by (simp add: journal_count_push)
  have disk: "kv_get D s' ?c (hash_key k) = kv_get D s ?c (hash_key k)" for k
    using b [OF refl refl] journal_key_not_hash [OF idx, of now k] by (auto simp: g)
  have insK: "set (map fst ?ins) \<subseteq> K" using tx_inserts_ok(2) [OF tx] by auto
  have oldK: "\<And>era es. map_of (jo_journal ?jo) era = Some es \<Longrightarrow> set (entry_inserts es) \<subseteq> K"
    using inv by (simp add: or_inv_def Let_def)
  have "set (entry_inserts es) \<subseteq> K" if es: "map_of (push_entry now ?e (jo_journal ?jo)) era = Some es" for era es
    by (rule push_entry_inserts [OF es]) (use insK oldK in simp_all)
  moreover have "distinct (map fst (push_entry now ?e (jo_journal ?jo)))" using inv by (simp add: or_inv_def Let_def push_entry_def distinct_update)
  moreover have "hist_ok val K (journal_count (push_entry now ?e (jo_journal ?jo))) m' c'" using h' unfolding cnt [abs_def] .
  ultimately show "or_inv val K D s' db' A"
    using inv disk nulls db' unfolding or_inv_def Let_def by auto
  show "journal_count (jo_journal (or_journal_overlay db')) k = journal_count (jo_journal ?jo) k + count_list (map fst ?ins) k"
    by (simp only: db' cnt)
  show "md_data (or_transaction_overlay db') = []" "jo_pending_overlay (or_journal_overlay db') = Map.empty" using db' by simp_all
  show "kv_get D s' ?c (hash_key k) = kv_get D s ?c (hash_key k)" by (rule disk)
  show "tx_ok val K (or_transaction_overlay db')" using db' by (simp add: tx_ok_def md_ok_def)
qed

end

section \<open>The canonical choice\<close>

definition canon_inserts :: "h256 \<Rightarrow> JournalEntry list \<Rightarrow> h256 list" where
  "canon_inserts canon es = concat (map je_insertions (filter (\<lambda>e. canon = je_id e) es))"

definition canon_removes :: "h256 \<Rightarrow> JournalEntry list \<Rightarrow> h256 list" where
  "canon_removes canon es = fold (\<lambda>e ds. if canon = je_id e then je_deletions e else ds) es []"

lemma canon_values_ok:
  assumes "hist_ok val K n m c" "\<And>h. h \<in> set hs \<Longrightarrow> h \<in> K \<and> 0 < n h"
  shows "canon_values m hs = map (\<lambda>h. (h, val h)) hs"
  using assms(2)
proof (induction hs)
  case (Cons h hs)
  have "raw m (to_short_key h) = Some (val h, word_of_nat (n h))" "n h < 2 ^ 31"
    using hist_key(3) [OF assms(1), of h] Cons.prems [of h] assms(1) by (auto simp: hist_ok_def)
  then show ?case using Cons count_positive [of "n h"] by (simp add: canon_values_def map_filter_simps)
qed (simp add: canon_values_def map_filter_simps)

lemma canon_records_ok:
  assumes "hist_ok val K n m c" "\<And>h. h \<in> set (entry_inserts es) \<Longrightarrow> h \<in> K \<and> 0 < n h"
  shows "fold (canon_record R col m era canon) es \<lparr>ca_insertions = i0, ca_deletions = d0, ca_overlay_deletions = o0, ca_index = x, ca_batch = b\<rparr> =
    \<lparr>ca_insertions = i0 @ map (\<lambda>h. (h, val h)) (canon_inserts canon es),
     ca_deletions = fold (\<lambda>e ds. if canon = je_id e then je_deletions e else ds) es d0,
     ca_overlay_deletions = o0 @ entry_inserts es, ca_index = x + length es,
     ca_batch = b @ map (\<lambda>i. Delete col (journal_key R era i)) [x..<x + length es]\<rparr>"
  using assms(2)
proof (induction es arbitrary: i0 d0 o0 x b)
  case (Cons e es)
  have "canon_values m (je_insertions e) = map (\<lambda>h. (h, val h)) (je_insertions e)"
    by (rule canon_values_ok [OF assms(1)]) (use Cons.prems in \<open>simp add: entry_inserts_def\<close>)
  moreover have "[x..<x + length (e # es)] = x # [Suc x..<Suc x + length es]" by (subst upt_conv_Cons) simp_all
  moreover have "\<And>h. h \<in> set (entry_inserts es) \<Longrightarrow> h \<in> K \<and> 0 < n h" using Cons.prems by (simp add: entry_inserts_def)
  ultimately show ?case using Cons.IH
    by (cases "canon = je_id e") (simp_all add: canon_record_def Let_def canon_inserts_def entry_inserts_def)
qed (simp_all add: canon_inserts_def entry_inserts_def)

lemma leave_overlays_ok:
  "hist_ok val K n m c \<Longrightarrow> set hs \<subseteq> K \<Longrightarrow> (\<And>h. count_list hs h \<le> n h) \<Longrightarrow>
   \<exists>m' c'. fold_res leave_overlay hs (m, c) = Inr (m', c') \<and> hist_ok val K (\<lambda>h. n h - count_list hs h) m' c' \<and>
     hashed_null_node m' = hashed_null_node m \<and> null_node_data m' = null_node_data m"
proof (induction hs arbitrary: n m c)
  case (Cons h hs)
  have "0 < n h" "h \<in> K" using Cons.prems(2) Cons.prems(3) [of h] by simp_all
  from leave_overlay_ok [OF Cons.prems(1) this(2,1)] obtain m1 c1 where 1: "leave_overlay h (m, c) = Inr (m1, c1)"
    "hist_ok val K (n(h := n h - 1)) m1 c1" "hashed_null_node m1 = hashed_null_node m" "null_node_data m1 = null_node_data m" by blast
  have "count_list hs k \<le> (n(h := n h - 1)) k" for k using Cons.prems(3) [of k] by auto
  from Cons.IH [OF 1(2) _ this] Cons.prems(2) obtain m2 c2 where 2: "fold_res leave_overlay hs (m1, c1) = Inr (m2, c2)"
    "hist_ok val K (\<lambda>k. (n(h := n h - 1)) k - count_list hs k) m2 c2" "hashed_null_node m2 = hashed_null_node m1" "null_node_data m2 = null_node_data m1"
    by (auto simp del: fun_upd_apply)
  have "(\<lambda>k. (n(h := n h - 1)) k - count_list hs k) = (\<lambda>k. n k - count_list (h # hs) k)" by auto
  then show ?case using 1 2 by simp
qed simp

lemma put_canon_ok:
  "fold (put_canon col) (map (\<lambda>h. (h, val h)) hs) (b, p) =
    (b @ map (\<lambda>h. Insert col (hash_key h) (val h)) hs, fold (\<lambda>h p. p(to_short_key h \<mapsto> val h)) hs p)"
  by (induction hs arbitrary: b p) (simp_all add: put_canon_def)

lemma pending_origin:
  "fold (\<lambda>h p. p(to_short_key h \<mapsto> val h)) hs p x = Some v \<Longrightarrow> p x = Some v \<or> (\<exists>h \<in> set hs. x = to_short_key h \<and> v = val h)"
  by (induction hs arbitrary: p) (fastforce split: if_splits)+

lemma delete_canon_ok:
  "fold (delete_canon col m) ds b = b @ map (\<lambda>k. Delete col (hash_key k)) (filter (\<lambda>k. \<not> HashDB_contains m (to_short_key k)) ds)"
  by (induction ds arbitrary: b) (simp_all add: delete_canon_def)

lemma apply_canon_inserts:
  "apply_ops (map (\<lambda>h. Insert col (hash_key h) (val h)) hs) m col (hash_key k) = (if k \<in> set hs then Some (val k) else m col (hash_key k))"
  by (induction hs arbitrary: m) auto

lemma canon_inserts_subset: "set (canon_inserts canon es) \<subseteq> set (entry_inserts es)"
  by (auto simp: canon_inserts_def entry_inserts_def)

text \<open>The archive after a canonical choice: the insertions of the block, without the removals that
  no later block inserts again.\<close>

definition or_archive_after :: "h256 \<Rightarrow> JournalEntry list \<Rightarrow> (h256 \<Rightarrow> nat) \<Rightarrow> h256 set \<Rightarrow> h256 set" where
  "or_archive_after canon es n A = (A \<union> set (canon_inserts canon es)) - {k \<in> set (canon_removes canon es). n k = 0}"

context rlp
begin

lemma journal_keys_other:
  assumes "N < 2 ^ 64"
  shows "apply_ops (map (\<lambda>i. Delete col (journal_key R era i)) [0..<N]) m col (hash_key k) = m col (hash_key k)"
proof (rule apply_ops_other)
  fix op assume "op \<in> set (map (\<lambda>i. Delete col (journal_key R era i)) [0..<N])"
  then obtain i where "i < N" "op = Delete col (journal_key R era i)" by auto
  then show "op_col op \<noteq> col \<or> op_key op \<noteq> hash_key k" using journal_key_not_hash [of i era k] assms by simp
qed

lemma mark_canonical_effect_or:
  assumes o: "or_inv val K D s db A" and es: "map_of (jo_journal (or_journal_overlay db)) era = Some es" "length es < 2 ^ 64"
    and p: "jo_pending_overlay (or_journal_overlay db) = Map.empty"
    and c: "set (canon_removes canon es) \<subseteq> K" "set (canon_inserts canon es) \<inter> set (canon_removes canon es) = {}"
  defines "j \<equiv> AList.delete era (jo_journal (or_journal_overlay db))"
  defines "A' \<equiv> or_archive_after canon es (journal_count j) A"
  shows "\<exists>n batch db'. OverlayRecentDB_mark_canonical R db b era canon = Inr (n, b @ batch, db') \<and> jo_journal (or_journal_overlay db') = j \<and>
    or_transaction_overlay db' = or_transaction_overlay db \<and> or_column db' = or_column db \<and>
    jo_latest_era (or_journal_overlay db') = jo_latest_era (or_journal_overlay db) \<and>
    (\<forall>op \<in> set batch. (\<exists>k. op_key op = hash_key k) \<or> (\<exists>i < length es. op_key op = journal_key R era i)) \<and>
    (\<forall>s'. kv_get D s' = apply_ops batch (kv_get D s) \<longrightarrow> or_inv val K D s' db' A' \<and>
       (\<forall>i < length es. kv_get D s' (or_column db) (journal_key R era i) = None))"
proof -
  let ?jo = "or_journal_overlay db" and ?c = "or_column db"
  let ?n = "journal_count (jo_journal ?jo)" and ?ins = "canon_inserts canon es" and ?del = "canon_removes canon es"
  have h: "hist_ok val K ?n (jo_backing_overlay ?jo) (jo_cumulative_size ?jo)" and dist: "distinct (map fst (jo_journal ?jo))"
    and K: "\<And>era es. map_of (jo_journal ?jo) era = Some es \<Longrightarrow> set (entry_inserts es) \<subseteq> K"
    and disk: "\<And>k. k \<in> K \<Longrightarrow> kv_get D s ?c (hash_key k) = (if k \<in> A then Some (val k) else None)"
    and tx: "hashed_null_node (or_transaction_overlay db) = hashed_null_node (jo_backing_overlay ?jo)"
    using o by (simp_all add: or_inv_def Let_def)
  have cnt: "?n k = journal_count j k + count_list (entry_inserts es) k" for k
    using journal_count_delete [OF dist, of k era] es(1) by (simp add: j_def)
  have le: "\<And>k. count_list (entry_inserts es) k \<le> ?n k" using cnt by simp
  obtain m' c' where l: "fold_res leave_overlay (entry_inserts es) (jo_backing_overlay ?jo, jo_cumulative_size ?jo) = Inr (m', c')"
    "hist_ok val K (\<lambda>k. ?n k - count_list (entry_inserts es) k) m' c'" "hashed_null_node m' = hashed_null_node (jo_backing_overlay ?jo)"
    using leave_overlays_ok [OF h K [OF es(1)] le] by blast
  have h': "hist_ok val K (journal_count j) m' c'" using l(2) by (simp add: cnt)
  have in_n: "x \<in> K \<and> 0 < ?n x" if "x \<in> set (entry_inserts es)" for x
    using K [OF es(1)] le [of x] that count_list_0_iff [of "entry_inserts es" x] by (metis gr0I le_zero_eq subsetD)
  let ?batch = "map (\<lambda>i. Delete ?c (journal_key R era i)) [0..<length es] @ map (\<lambda>h. Insert ?c (hash_key h) (val h)) ?ins @
      map (\<lambda>k. Delete ?c (hash_key k)) (filter (\<lambda>k. \<not> HashDB_contains m' (to_short_key k)) ?del)"
  let ?pend = "fold (\<lambda>h p. p(to_short_key h \<mapsto> val h)) ?ins Map.empty"
  let ?jo1 = "?jo\<lparr>jo_pending_overlay := ?pend, jo_backing_overlay := m', jo_cumulative_size := c', jo_journal := j\<rparr>"
  let ?db = "db\<lparr>or_journal_overlay := if j \<noteq> [] then ?jo1\<lparr>jo_earliest_era := Some (era + 1)\<rparr> else ?jo1, or_read_cache := Map.empty\<rparr>"
  have m: "OverlayRecentDB_mark_canonical R db b era canon = Inr (word_of_nat (length ?ins + length ?del), b @ ?batch, ?db)"
    using canon_records_ok [where es = es and R = R and col = ?c and era = era and canon = canon and ?i0.0 = "[]" and ?d0.0 = "[]" and ?o0.0 = "[]" and x = 0 and b = b, OF h in_n] l(1) es(1) p
    by (simp add: OverlayRecentDB_mark_canonical_def mark_era_def Let_def put_canon_ok delete_canon_ok canon_removes_def j_def)
  have gone: "HashDB_contains m' (to_short_key k) \<longleftrightarrow> 0 < journal_count j k" if "k \<in> K" for k using hist_key(1) [OF h' that] .
  have get: "apply_ops ?batch (kv_get D s) ?c (hash_key k) = (if k \<in> A' then Some (val k) else None)" if k: "k \<in> K" for k
    using journal_keys_other [OF es(2), of ?c era "kv_get D s" k] c(2) disk [OF k] gone [OF k]
    by (auto simp: apply_deletes apply_canon_inserts A'_def or_archive_after_def image_iff)
  have pend: "v = val k \<and> k \<in> A'" if k: "k \<in> K" "?pend (to_short_key k) = Some v" for k v
  proof -
    obtain x where x: "x \<in> set ?ins" "to_short_key k = to_short_key x" "v = val x" using pending_origin [OF k(2)] by auto
    then have "x \<in> K" using in_n canon_inserts_subset by blast
    then have "x = k" using x(2) k(1) h by (auto simp: hist_ok_def keys_ok_def inj_on_def)
    then show ?thesis using x c(2) by (auto simp: A'_def or_archive_after_def)
  qed
  have "or_inv val K D s' ?db A'" if g: "kv_get D s' = apply_ops ?batch (kv_get D s)" for s'
  proof -
    have jK: "\<And>era es. map_of j era = Some es \<Longrightarrow> set (entry_inserts es) \<subseteq> K"
      using K by (simp add: j_def map_of_delete split: if_splits)
    have "distinct (map fst j)" using dist by (simp add: j_def distinct_delete)
    then show ?thesis using h' jK tx l(3) get pend unfolding or_inv_def Let_def g by auto
  qed
  moreover have "apply_ops ?batch (kv_get D s) ?c (journal_key R era i) = None" if "i < length es" for i
  proof -
    have nh: "hash_key x \<noteq> journal_key R era i" for x using journal_key_not_hash [of i era x] that es(2) by (metis less_trans)
    have "apply_ops (drop (length es) ?batch) m ?c (journal_key R era i) = m ?c (journal_key R era i)" for m
      using nh by (intro apply_ops_other) auto
    then show ?thesis using that by (auto simp: apply_deletes)
  qed
  moreover have "\<forall>op \<in> set ?batch. (\<exists>k. op_key op = hash_key k) \<or> (\<exists>i < length es. op_key op = journal_key R era i)" by auto
  ultimately show ?thesis using m by (intro exI [of _ "word_of_nat (length ?ins + length ?del)"] exI [of _ ?batch] exI [of _ ?db]) auto
qed

end

section \<open>The properties\<close>

text \<open>Journalling changes nothing that is read: after \<open>journal_under\<close> and the write of
  its batch, every key has the answer it had when the changes were in the transaction
  overlay, which is now empty; the insertions moved to the history overlay, and
  the state implements the same archive.\<close>

theorem overlay_recent_journal_transparent:
  assumes "rlp R" and "or_inv val K D s db A" and "tx_ok val K (or_transaction_overlay db)"
    and "\<forall>k\<in>K. journal_count (jo_journal (or_journal_overlay db)) k + 1 < 2 ^ 31" and "journal_index db now < 2 ^ 64"
    and "OverlayRecentDB_journal_under R db [] now block_id = (n, batch, db')" and "kv_get D s' = apply_ops batch (kv_get D s)"
  shows "or_inv val K D s' db' A \<and> md_data (or_transaction_overlay db') = [] \<and>
    (\<forall>k\<in>K. fst (OverlayRecentDB_get D s' db' k) = fst (OverlayRecentDB_get D s db k))"
proof -
  have fit: "\<And>k. k \<in> K \<Longrightarrow> journal_count (jo_journal (or_journal_overlay db)) k + 1 < 2 ^ 31" using assms(4) by blast
  note e = rlp.journal_under_effect [OF assms(1-3) fit assms(5-7)]
  have nx: "\<not> in_tx (or_transaction_overlay db') k" for k by (simp add: in_tx_def e(2))
  have "fst (OverlayRecentDB_get D s' db' k) = fst (OverlayRecentDB_get D s db k)" if k: "k \<in> K" for k
  proof -
    let ?x = "map fst (tx_inserts (md_data (or_transaction_overlay db)))"
    have x: "0 < count_list ?x k \<longleftrightarrow> in_tx (or_transaction_overlay db) k"
      using tx_inserts_ok(3) [OF assms(3), of k] count_list_0_iff [of ?x k] by auto
    have "fst (OverlayRecentDB_get D s' db' k) =
        (if in_tx (or_transaction_overlay db') k \<or> 0 < journal_count (jo_journal (or_journal_overlay db')) k \<or> k \<in> A then Some (val k) else None)"
      by (rule get_reads [OF e(1) e(6) k])
    then show ?thesis using x nx [of k] by (simp add: get_reads [OF assms(2,3) k] e(4)) 
  qed
  then show ?thesis using e(1,2) by blast
qed

text \<open>C27. A canonical choice: let an era hold the records of competing blocks, the canonical one of which does
  not remove what it inserts.  Then \<open>mark_canonical\<close> does not fail (the size
  of the overlay never underflows), and after its batch is written the state implements the archive
  with the insertions of the canonical block, without its removals except those that a block of
  another era inserts, and the journal without the era, in memory and on disk.\<close>

theorem overlay_recent_canonical_refines:
  assumes "rlp R" and "or_inv val K D s db A" and "map_of (jo_journal (or_journal_overlay db)) era = Some es" and "length es < 2 ^ 64"
    and "jo_pending_overlay (or_journal_overlay db) = Map.empty"
    and "set (canon_removes canon es) \<subseteq> K" and "set (canon_inserts canon es) \<inter> set (canon_removes canon es) = {}"
  shows "\<exists>n batch db'. OverlayRecentDB_mark_canonical R db [] era canon = Inr (n, batch, db') \<and>
    jo_journal (or_journal_overlay db') = AList.delete era (jo_journal (or_journal_overlay db)) \<and> or_column db' = or_column db \<and>
    (\<forall>s'. kv_get D s' = apply_ops batch (kv_get D s) \<longrightarrow>
       or_inv val K D s' db' (or_archive_after canon es (journal_count (AList.delete era (jo_journal (or_journal_overlay db)))) A) \<and>
       (\<forall>i < length es. kv_get D s' (or_column db) (journal_key R era i) = None))"
  using rlp.mark_canonical_effect_or [OF assms, of "[]"] by (simp only: append_Nil) blast

end
