(* ===== verification/OverlayRecentRestart.thy ===== *)
theory OverlayRecentRestart
  imports OverlayRecentProofs
begin

text \<open>
  Opening an overlay-recent database: \<open>read_overlay\<close> goes from the latest era backwards until
  an era has no record, and builds the history overlay and the journal again from the
  records on disk.  The last section shows that \<open>inject\<close> leaves the read cache stale.
\<close>

section \<open>Journal records\<close>

text \<open>The record that \<open>journal_under\<close> writes for an entry of the journal.\<close>

definition dv_of :: "(h256 \<Rightarrow> bytes) \<Rightarrow> JournalEntry \<Rightarrow> DatabaseValue" where
  "dv_of val e = \<lparr>dv_id = je_id e, dv_inserts = map (\<lambda>k. (k, val k)) (je_insertions e), dv_deletes = je_deletions e\<rparr>"

definition or_era_journal :: "rlp_ops \<Rightarrow> 's kvdb_ops \<Rightarrow> 's \<Rightarrow> nat \<Rightarrow> (h256 \<Rightarrow> bytes) \<Rightarrow> u64 \<Rightarrow> JournalEntry list \<Rightarrow> bool" where
  "or_era_journal R D s col val era es \<longleftrightarrow> kv_get D s col (journal_key R era (length es)) = None \<and>
     (\<forall>i < length es. kv_get D s col (journal_key R era i) = Some (rlp_encode R (DatabaseValue_item (dv_of val (es ! i)))))"

context rlp
begin

lemma insert_decode_items: "fold_res (insert_decode R) (map (rlp_encode R) (map insert_item kvs)) acc = Inr (acc @ kvs)"
proof (induction kvs arbitrary: acc)
  case (Cons kv kvs)
  obtain k v where kv: "kv = (k, v)" by (cases kv)
  have "insert_decode R (rlp_encode R (insert_item kv)) acc = Inr (acc @ [kv])"
    using val_h256 [of 0 "[hash_item k, RData v]" k] data_at [of 1 "[hash_item k, RData v]" v] by (simp add: insert_decode_def insert_item_def kv)
  then show ?case using Cons by simp
qed simp

lemma DatabaseValue_decode_item: "DatabaseValue_decode R (rlp_encode R (DatabaseValue_item v)) = Inr v"
proof -
  let ?xs = "[hash_item (dv_id v), RSeq (map insert_item (dv_inserts v)), RSeq (map hash_item (dv_deletes v))]"
  have "rlp_val_h256 R (rlp_encode R (RSeq ?xs)) 0 = Inr (dv_id v)" by (rule val_h256) simp_all
  moreover have "rlp_items_at R (rlp_encode R (RSeq ?xs)) 1 = Inr (map (rlp_encode R) (map insert_item (dv_inserts v)))" by (rule items_at) simp_all
  moreover have "rlp_list_h256 R (rlp_encode R (RSeq ?xs)) 2 = Inr (dv_deletes v)" by (rule list_h256) simp_all
  ultimately show ?thesis using insert_decode_items [of "dv_inserts v" "[]"] by (simp add: DatabaseValue_decode_def DatabaseValue_item_def)
qed

end

section \<open>The loops\<close>

definition read_era :: "(h256 \<Rightarrow> bytes) \<Rightarrow> u64 \<Rightarrow> JournalEntry list \<Rightarrow> JournalOverlay \<Rightarrow> JournalOverlay" where
  "read_era val era es jo = fold (\<lambda>e. read_record era (dv_of val e)) es jo"

definition read_eras :: "(h256 \<Rightarrow> bytes) \<Rightarrow> (nat \<Rightarrow> JournalEntry list) \<Rightarrow> nat \<Rightarrow> nat \<Rightarrow> JournalOverlay \<Rightarrow> JournalOverlay" where
  "read_eras val js lo hi jo = fold (\<lambda>e. read_era val (word_of_nat e) (js e)) (rev [lo..<Suc hi]) jo"

context rlp
begin

lemma read_overlay_era_ends:
  assumes j: "or_era_journal R D s col val era es"
  shows "i \<le> length es \<Longrightarrow> read_overlay_era R D s col era i jo = Some (Inr (length es, read_era val era (drop i es) jo))"
proof (induction "length es - i" arbitrary: i jo)
  case 0
  then have "i = length es" by simp
  moreover then have "kv_get D s col (journal_key R era i) = None" using j by (simp add: or_era_journal_def)
  ultimately show ?case by (simp add: read_overlay_era.simps read_era_def)
next
  case (Suc m)
  then have i: "i < length es" by simp
  have g: "kv_get D s col (journal_key R era i) = Some (rlp_encode R (DatabaseValue_item (dv_of val (es ! i))))" using j i by (simp add: or_era_journal_def)
  have d: "drop i es = es ! i # drop (Suc i) es" using i by (simp add: Cons_nth_drop_Suc)
  have "read_overlay_era R D s col era (Suc i) (read_record era (dv_of val (es ! i)) jo) =
      Some (Inr (length es, read_era val era (drop (Suc i) es) (read_record era (dv_of val (es ! i)) jo)))"
    using Suc by (intro Suc.hyps(1)) auto
  then show ?case by (subst read_overlay_era.simps) (simp add: g DatabaseValue_decode_item d read_era_def)
qed

lemma read_overlay_loop_ends:
  assumes lo: "0 < lo \<Longrightarrow> or_era_journal R D s col val (word_of_nat (lo - 1)) []"
  shows "lo \<le> hi \<Longrightarrow> hi < 2 ^ 64 \<Longrightarrow> (\<And>e. lo \<le> e \<Longrightarrow> e \<le> hi \<Longrightarrow> js e \<noteq> [] \<and> or_era_journal R D s col val (word_of_nat e) (js e)) \<Longrightarrow>
    read_overlay_loop R D s col (word_of_nat hi) jo = Some (Inr (read_eras val js lo hi jo))"
proof (induction hi arbitrary: jo)
  case 0
  then have "read_overlay_era R D s col 0 0 jo = Some (Inr (length (js 0), read_era val 0 (js 0) jo))"
    using read_overlay_era_ends [of D s col val 0 "js 0" 0 jo] by simp
  then show ?case using 0 by (subst read_overlay_loop.simps) (simp add: read_eras_def)
next
  case (Suc hi)
  have w: "(word_of_nat (Suc hi) :: u64) \<noteq> 0"
    using word_of_nat_inject [of "Suc hi" 0, where 'a = 64] Suc.prems(2) by simp
  have w1: "(word_of_nat (Suc hi) :: u64) - 1 = word_of_nat hi" by simp
  have e: "js (Suc hi) \<noteq> []" "or_era_journal R D s col val (word_of_nat (Suc hi)) (js (Suc hi))" using Suc.prems(1,3) by blast+
  let ?r = "read_era val (word_of_nat (Suc hi)) (js (Suc hi)) jo"
  have era: "read_overlay_loop R D s col (word_of_nat (Suc hi)) jo = read_overlay_loop R D s col (word_of_nat hi) ?r"
    using read_overlay_era_ends [OF e(2), of 0 jo] e(1) w w1 by (subst read_overlay_loop.simps) (simp del: of_nat_Suc)
  show ?case
  proof (cases "lo = Suc hi")
    case True
    have "read_overlay_era R D s col (word_of_nat hi) 0 ?r = Some (Inr (0, ?r))"
      using read_overlay_era_ends [of D s col val "word_of_nat hi" "[]" 0 ?r] lo True by (simp add: read_era_def del: of_nat_Suc)
    then have "read_overlay_loop R D s col (word_of_nat hi) ?r = Some (Inr ?r)" by (subst read_overlay_loop.simps) simp
    then show ?thesis using era True by (simp add: read_eras_def del: of_nat_Suc)
  next
    case False
    then have l: "lo \<le> hi" using Suc.prems(1) by simp
    have "read_eras val js lo (Suc hi) jo = read_eras val js lo hi ?r" using l by (simp add: read_eras_def del: of_nat_Suc)
    then show ?thesis unfolding era using Suc.IH [of ?r] Suc.prems(2,3) l by (simp del: of_nat_Suc)
  qed
qed

end

section \<open>What the loops rebuild\<close>

definition read_ok :: "(h256 \<Rightarrow> bytes) \<Rightarrow> h256 set \<Rightarrow> (u64 \<times> JournalEntry list) list \<Rightarrow> h256 \<Rightarrow> JournalOverlay \<Rightarrow> bool" where
  "read_ok val K j nk jo \<longleftrightarrow> jo_journal jo = j \<and> jo_pending_overlay jo = Map.empty \<and> hashed_null_node (jo_backing_overlay jo) = nk \<and>
     hist_ok val K (journal_count j) (jo_backing_overlay jo) (jo_cumulative_size jo)"

lemma read_record_ok:
  assumes r: "read_ok val K j nk jo" and e: "set (je_insertions e) \<subseteq> K"
    and b: "\<And>k. k \<in> K \<Longrightarrow> journal_count j k + count_list (je_insertions e) k < 2 ^ 31"
  shows "read_ok val K (push_entry era e j) nk (read_record era (dv_of val e) jo)"
proof -
  let ?ins = "map (\<lambda>k. (k, val k)) (je_insertions e)"
  have h: "hist_ok val K (journal_count j) (jo_backing_overlay jo) (jo_cumulative_size jo)" using r by (simp add: read_ok_def)
  have f: "map fst ?ins = je_insertions e" by (simp add: comp_def)
  obtain m' c' where mc: "fold history_insert ?ins (jo_backing_overlay jo, jo_cumulative_size jo) = (m', c')" by fastforce
  have "case fold history_insert ?ins (jo_backing_overlay jo, jo_cumulative_size jo) of (m', c') \<Rightarrow>
      hist_ok val K (\<lambda>k. journal_count j k + count_list (map fst ?ins) k) m' c' \<and>
      hashed_null_node m' = hashed_null_node (jo_backing_overlay jo) \<and> null_node_data m' = null_node_data (jo_backing_overlay jo)"
    by (rule history_inserts_ok [OF h]) (use e b in \<open>auto simp only: f set_map\<close>)
  then have "hist_ok val K (\<lambda>k. journal_count j k + count_list (je_insertions e) k) m' c'" "hashed_null_node m' = nk"
    using r by (simp_all add: mc f comp_def read_ok_def)
  then show ?thesis using r mc
    by (cases e) (simp add: read_ok_def read_record_def dv_of_def comp_def journal_count_push [abs_def])
qed

lemma update_last: "k \<notin> fst ` set xs \<Longrightarrow> AList.update k v (xs @ [(k, w)]) = xs @ [(k, v)]"
  by (induction xs) auto

lemma update_fresh: "k \<notin> fst ` set xs \<Longrightarrow> AList.update k v xs = xs @ [(k, v)]"
  by (induction xs) auto

lemma journal_count_snoc: "journal_count (j @ [(era, es)]) k = journal_count j k + count_list (entry_inserts es) k"
  by (simp add: journal_count_def)

lemma push_last: "era \<notin> fst ` set j \<Longrightarrow> push_entry era e (j @ [(era, es)]) = j @ [(era, es @ [e])]"
  using map_of_eq_None_iff [of j era] by (simp add: push_entry_def update_last map_add_def)

lemma push_fresh: "era \<notin> fst ` set j \<Longrightarrow> push_entry era e j = j @ [(era, [e])]"
  by (simp add: push_entry_def update_fresh map_of_eq_None_iff [THEN iffD2])

lemma read_era_rest:
  "read_ok val K (j @ [(era, fs)]) nk jo \<Longrightarrow> era \<notin> fst ` set j \<Longrightarrow> set (entry_inserts es) \<subseteq> K \<Longrightarrow>
   (\<And>k. k \<in> K \<Longrightarrow> journal_count (j @ [(era, fs @ es)]) k < 2 ^ 31) \<Longrightarrow>
   read_ok val K (j @ [(era, fs @ es)]) nk (read_era val era es jo)"
proof (induction es arbitrary: fs jo)
  case (Cons e es)
  have "read_ok val K (push_entry era e (j @ [(era, fs)])) nk (read_record era (dv_of val e) jo)"
    by (rule read_record_ok [OF Cons.prems(1)]) (use Cons.prems(3,4) in \<open>fastforce simp: entry_inserts_def journal_count_snoc\<close>)+
  then have "read_ok val K (j @ [(era, fs @ [e])]) nk (read_record era (dv_of val e) jo)" by (simp add: push_last Cons.prems(2))
  from Cons.IH [OF this Cons.prems(2)] Cons.prems(3,4) show ?case by (simp add: entry_inserts_def read_era_def)
qed (simp add: read_era_def)

lemma read_era_ok:
  assumes "read_ok val K j nk jo" "era \<notin> fst ` set j" "es \<noteq> []" "set (entry_inserts es) \<subseteq> K"
    and b: "\<And>k. k \<in> K \<Longrightarrow> journal_count (j @ [(era, es)]) k < 2 ^ 31"
  shows "read_ok val K (j @ [(era, es)]) nk (read_era val era es jo)"
proof -
  obtain e fs where es: "es = e # fs" using assms(3) by (cases es) auto
  have "read_ok val K (push_entry era e j) nk (read_record era (dv_of val e) jo)"
    by (rule read_record_ok [OF assms(1)]) (use assms(4) b in \<open>fastforce simp: es entry_inserts_def journal_count_snoc\<close>)+
  then have "read_ok val K (j @ [(era, [e])]) nk (read_record era (dv_of val e) jo)" by (simp add: push_fresh assms(2))
  from read_era_rest [OF this assms(2), of fs] assms(4) b show ?thesis by (simp add: es entry_inserts_def read_era_def)
qed

text \<open>The journal of the eras from \<open>lo\<close> to \<open>hi\<close>, the latest first.\<close>

definition journal_of :: "(nat \<Rightarrow> JournalEntry list) \<Rightarrow> nat \<Rightarrow> nat \<Rightarrow> (u64 \<times> JournalEntry list) list" where
  "journal_of js lo hi = map (\<lambda>e. (word_of_nat e, js e)) (rev [lo..<Suc hi])"

lemma read_eras_ok:
  assumes "read_ok val K [] nk jo" "hi < 2 ^ 64"
    and "\<And>k. k \<in> K \<Longrightarrow> journal_count (journal_of js lo hi) k < 2 ^ 31"
    and "\<And>e. lo \<le> e \<Longrightarrow> e \<le> hi \<Longrightarrow> js e \<noteq> [] \<and> set (entry_inserts (js e)) \<subseteq> K"
  shows "read_ok val K (journal_of js lo hi) nk (read_eras val js lo hi jo)"
proof -
  have all: "read_ok val K (map (\<lambda>e. (word_of_nat e, js e)) xs) nk (fold (\<lambda>e. read_era val (word_of_nat e) (js e)) xs jo)"
    if "distinct xs" "set xs \<subseteq> {lo..hi}" "\<And>k. k \<in> K \<Longrightarrow> journal_count (map (\<lambda>e. (word_of_nat e, js e)) xs) k < 2 ^ 31" for xs
    using that
  proof (induction xs rule: rev_induct)
    case (snoc e xs)
    have b: "journal_count (map (\<lambda>e. (word_of_nat e, js e)) xs) k < 2 ^ 31" if "k \<in> K" for k
      using snoc.prems(3) [OF that] by (simp add: journal_count_snoc)
    have e: "js e \<noteq> []" "set (entry_inserts (js e)) \<subseteq> K" "e < 2 ^ 64" using snoc.prems(2) assms(2) assms(4) [of e] by auto
    have "(word_of_nat e :: u64) \<noteq> word_of_nat x" if "x \<in> set xs" for x
    proof -
      have "x < 2 ^ 64" "x \<noteq> e" using snoc.prems(1,2) that assms(2) by auto
      then show ?thesis using word_of_nat_inject [of e x, where 'a = 64] e(3) by auto
    qed
    then have n: "(word_of_nat e :: u64) \<notin> fst ` set (map (\<lambda>e. (word_of_nat e, js e)) xs)" unfolding set_map image_image fst_conv by blast
    have ih: "read_ok val K (map (\<lambda>e. (word_of_nat e, js e)) xs) nk (fold (\<lambda>e. read_era val (word_of_nat e) (js e)) xs jo)"
      by (rule snoc.IH) (use snoc.prems b in auto)
    show ?case using read_era_ok [OF ih n e(1,2)] snoc.prems(3) by simp
  qed (simp add: assms(1))
  show ?thesis unfolding journal_of_def read_eras_def
    by (rule all) (use assms(3) in \<open>auto simp: journal_of_def simp del: upt_Suc\<close>)
qed

lemma journal_count_map:
  assumes "distinct (map fst j)" "distinct (map fst j')" "map_of j = map_of j'"
  shows "journal_count j = journal_count j'"
proof -
  have "set j = set j'" using set_map_of_compr [OF assms(1)] set_map_of_compr [OF assms(2)] assms(3) by simp
  moreover have "distinct j" "distinct j'" using assms(1,2) by (simp_all add: distinct_map)
  ultimately show ?thesis by (intro ext) (simp add: journal_count_def sum_list_distinct_conv_sum_set)
qed

section \<open>The property\<close>

definition or_eras_on_disk ::
  "rlp_ops \<Rightarrow> 's kvdb_ops \<Rightarrow> 's \<Rightarrow> nat \<Rightarrow> (h256 \<Rightarrow> bytes) \<Rightarrow> (nat \<Rightarrow> JournalEntry list) \<Rightarrow> nat \<Rightarrow> nat \<Rightarrow> bool" where
  "or_eras_on_disk R D s col val js lo hi \<longleftrightarrow> lo \<le> hi \<and> hi < 2 ^ 64 \<and>
     (\<forall>e. lo \<le> e \<longrightarrow> e \<le> hi \<longrightarrow> js e \<noteq> [] \<and> or_era_journal R D s col val (word_of_nat e) (js e)) \<and>
     (0 < lo \<longrightarrow> or_era_journal R D s col val (word_of_nat (lo - 1)) []) \<and>
     kv_get D s col LATEST_ERA_KEY = Some (rlp_encode R (RNum hi))"

lemma journal_of_distinct:
  assumes "hi < 2 ^ 64"
  shows "distinct (map fst (journal_of js lo hi))"
proof -
  have "(word_of_nat x :: u64) = word_of_nat y \<longleftrightarrow> x = y" if "x \<le> hi" "y \<le> hi" for x y
    using word_of_nat_inject [of x y, where 'a = 64] that assms by auto
  then show ?thesis by (auto simp: journal_of_def comp_def distinct_map inj_on_def)
qed

lemma read_eras_latest: "jo_latest_era (read_eras val js lo hi jo) = jo_latest_era jo"
proof -
  have "jo_latest_era (read_era val era es jo) = jo_latest_era jo" for era es jo
    unfolding read_era_def by (induction es arbitrary: jo) (simp_all add: read_record_def split: prod.splits)
  then have "jo_latest_era (fold (\<lambda>e. read_era val (word_of_nat e) (js e)) xs jo) = jo_latest_era jo" for xs
    by (induction xs arbitrary: jo) simp_all
  then show ?thesis by (simp add: read_eras_def)
qed

text \<open>C28. Opening the store finds everything again: if the journal in memory has the records on disk of the eras
  from \<open>lo\<close> to the latest era, none of them empty, and no change is pending, then
  \<open>new\<close> returns, the journal it rebuilds has the same records for every era, and every key
  is read as before.\<close>

theorem overlay_recent_reopens:
  assumes "rlp R" and "or_inv val K D s db A" and "md_data (or_transaction_overlay db) = []"
    and "keys_ok (H (rlp_null R)) (rlp_null R) val K"
    and "or_eras_on_disk R D s (or_column db) val js lo hi" and "map_of (jo_journal (or_journal_overlay db)) = map_of (journal_of js lo hi)"
  shows "\<exists>db'. OverlayRecentDB_new R H D s (or_column db) = Some (Inr db') \<and> or_inv val K D s db' A \<and>
    map_of (jo_journal (or_journal_overlay db')) = map_of (jo_journal (or_journal_overlay db)) \<and>
    jo_latest_era (or_journal_overlay db') = Some (word_of_nat hi) \<and>
    (\<forall>k\<in>K. fst (OverlayRecentDB_get D s db' k) = fst (OverlayRecentDB_get D s db k))"
proof -
  let ?c = "or_column db" and ?j = "journal_of js lo hi"
  have hi: "lo \<le> hi" "hi < 2 ^ 64" "unat (word_of_nat hi :: u64) = hi" using assms(5) by (auto simp: or_eras_on_disk_def unat_of_nat)
  have le: "read_latest_era R D s ?c = Inr (Some (word_of_nat hi))"
    using assms(5) rlp.decode_u64 [OF assms(1), of "word_of_nat hi"] hi(3) by (simp add: read_latest_era_def or_eras_on_disk_def)
  let ?start = "(empty_overlay R H)\<lparr>jo_latest_era := Some (word_of_nat hi)\<rparr>"
  let ?jo = "read_eras val js lo hi ?start"
  let ?db = "\<lparr>or_transaction_overlay = new_memory_db R H, or_journal_overlay = ?jo, or_read_cache = Map.empty, or_column = ?c\<rparr>"
  have "read_overlay_loop R D s ?c (word_of_nat hi) ?start = Some (Inr ?jo)"
    by (rule rlp.read_overlay_loop_ends [OF assms(1)]) (use assms(5) in \<open>auto simp: or_eras_on_disk_def\<close>)
  then have new: "OverlayRecentDB_new R H D s ?c = Some (Inr ?db)" using le by (simp add: OverlayRecentDB_new_def read_overlay_def)
  have h: "hist_ok val K (journal_count (jo_journal (or_journal_overlay db))) (jo_backing_overlay (or_journal_overlay db)) (jo_cumulative_size (or_journal_overlay db))"
    and d: "distinct (map fst (jo_journal (or_journal_overlay db)))"
    and K: "\<And>era es. map_of (jo_journal (or_journal_overlay db)) era = Some es \<Longrightarrow> set (entry_inserts es) \<subseteq> K"
    using assms(2) by (simp_all add: or_inv_def Let_def)
  have cnt: "journal_count (jo_journal (or_journal_overlay db)) = journal_count ?j"
    by (rule journal_count_map [OF d journal_of_distinct [OF hi(2)] assms(6)])
  have js: "js e \<noteq> [] \<and> set (entry_inserts (js e)) \<subseteq> K" if "lo \<le> e" "e \<le> hi" for e
  proof -
    have "(word_of_nat e, js e) \<in> set ?j" using that unfolding journal_of_def set_map by (intro imageI) auto
    then have "map_of ?j (word_of_nat e) = Some (js e)" by (rule map_of_is_SomeI [OF journal_of_distinct [OF hi(2)]])
    then show ?thesis using K [of "word_of_nat e" "js e"] that assms(5,6) by (simp add: or_eras_on_disk_def)
  qed
  have "read_ok val K [] (H (rlp_null R)) ?start"
    using assms(4) by (simp add: read_ok_def empty_overlay_def hist_ok_def journal_count_def data_size_def new_memory_db_def from_null_node_def md_ok_def)
  moreover have "journal_count ?j k < 2 ^ 31" if "k \<in> K" for k using h that by (simp add: hist_ok_def cnt)
  ultimately have r: "read_ok val K ?j (H (rlp_null R)) ?jo" using hi(2) js by (intro read_eras_ok)
  have tx: "hashed_null_node (new_memory_db R H) = H (rlp_null R)" by (simp add: new_memory_db_def from_null_node_def)
  have jK: "\<And>era es. map_of ?j era = Some es \<Longrightarrow> set (entry_inserts es) \<subseteq> K" using K by (simp add: assms(6))
  have db': "or_inv val K D s ?db A" using r jK tx assms(2) journal_of_distinct [OF hi(2), of js lo] by (auto simp: or_inv_def Let_def read_ok_def)
  have jj: "jo_journal ?jo = ?j" using r by (simp add: read_ok_def)
  have t: "tx_ok val K (new_memory_db R H)" "tx_ok val K (or_transaction_overlay db)" "\<not> in_tx (new_memory_db R H) k" "\<not> in_tx (or_transaction_overlay db) k" for k
    using assms(3) by (simp_all add: tx_ok_def md_ok_def in_tx_def new_memory_db_def from_null_node_def)
  have "fst (OverlayRecentDB_get D s ?db k) = fst (OverlayRecentDB_get D s db k)" if "k \<in> K" for k
    using get_reads [OF db' _ that] get_reads [OF assms(2) t(2) that] t by (simp add: jj cnt)
  then show ?thesis using new db' jj assms(6) by (auto simp: read_eras_latest)
qed

section \<open>Witnesses\<close>

text \<open>An empty store with one insertion in the transaction overlay, and a store with one block journalled.\<close>

definition or_entry :: JournalEntry where
  "or_entry = \<lparr>je_id = 9, je_insertions = [2], je_deletions = []\<rparr>"

definition or_fresh :: OverlayRecentDB where
  "or_fresh = \<lparr>or_transaction_overlay = od_overlay demo_overlay, or_journal_overlay = empty_overlay unary_rlp toy_hash,
     or_read_cache = Map.empty, or_column = 0\<rparr>"

definition or_queued :: OverlayRecentDB where
  "or_queued = \<lparr>or_transaction_overlay = new_memory_db unary_rlp toy_hash,
     or_journal_overlay = \<lparr>jo_backing_overlay = (new_memory_db unary_rlp toy_hash)\<lparr>md_data := [(0, [1, 2], 1)]\<rparr>,
       jo_pending_overlay = Map.empty, jo_journal = [(5, [or_entry])], jo_latest_era = Some 5, jo_earliest_era = Some 5, jo_cumulative_size = 2\<rparr>,
     or_read_cache = Map.empty, or_column = 0\<rparr>"

definition or_store :: contents where
  "or_store = (\<lambda>_ _. None)(0 := [LATEST_ERA_KEY \<mapsto> rlp_encode unary_rlp (RNum 5),
     journal_key unary_rlp 5 0 \<mapsto> rlp_encode unary_rlp (DatabaseValue_item (dv_of (\<lambda>_. [1, 2]) or_entry))])"

lemma short_two: "to_short_key 2 = 0"
  by code_simp

lemma or_keys_ok: "keys_ok (toy_hash (rlp_null unary_rlp)) (rlp_null unary_rlp) (\<lambda>_. [1, 2]) {2}"
  by (simp add: keys_ok_def short_two toy_hash_def unary_rlp_def)

lemma or_demo_nulls: "hashed_null_node (new_memory_db unary_rlp toy_hash) = toy_hash (rlp_null unary_rlp)"
    "null_node_data (new_memory_db unary_rlp toy_hash) = rlp_null unary_rlp" "md_data (new_memory_db unary_rlp toy_hash) = []"
    "toy_hash (rlp_null unary_rlp) = 1"
  by (simp_all add: new_memory_db_def from_null_node_def toy_hash_def unary_rlp_def)

lemma or_store_get: "kv_get plain_kvdb or_store 0 (hash_key h) = None"
    "kv_get plain_kvdb or_store 0 LATEST_ERA_KEY = Some (rlp_encode unary_rlp (RNum 5))"
    "i < 2 ^ 64 \<Longrightarrow> kv_get plain_kvdb or_store 0 (journal_key unary_rlp e i) =
      (if e = 5 \<and> i = 0 then Some (rlp_encode unary_rlp (DatabaseValue_item (dv_of (\<lambda>_. [1, 2]) or_entry))) else None)"
  using unary.journal_key_not_hash [of 0 5 h] unary.journal_key_not_era
  by (auto simp: plain_kvdb_def or_store_def unary.journal_key_inject eq_commute [of _ "journal_key unary_rlp 5 0"] eq_commute [of LATEST_ERA_KEY])

lemma or_fresh_inv: "or_inv (\<lambda>_. [1, 2]) {2} plain_kvdb (\<lambda>_ _. None) or_fresh {}" "tx_ok (\<lambda>_. [1, 2]) {2} (or_transaction_overlay or_fresh)"
  using or_keys_ok
  by (simp_all add: or_inv_def or_fresh_def Let_def empty_overlay_def hist_ok_def journal_count_def data_size_def or_demo_nulls md_ok_def
      demo_column plain_kvdb_def tx_ok_def demo_entries)

lemma or_queued_inv: "or_inv (\<lambda>_. [1, 2]) {2} plain_kvdb or_store or_queued {}"
  using or_keys_ok or_store_get(1)
  by (auto simp: or_inv_def or_queued_def Let_def hist_ok_def journal_count_def data_size_def or_demo_nulls md_ok_def
      short_two or_entry_def entry_inserts_def)

text \<open>The insertion of the empty store is read before and after it is journalled.\<close>

theorem overlay_recent_journal_transparent_witness:
  "\<exists>n batch db'. OverlayRecentDB_journal_under unary_rlp or_fresh [] 5 9 = (n, batch, db') \<and>
     fst (OverlayRecentDB_get plain_kvdb (apply_ops batch (\<lambda>_ _. None)) db' 2) = Some [1, 2] \<and> md_data (or_transaction_overlay db') = []"
proof -
  obtain n batch db' where j: "OverlayRecentDB_journal_under unary_rlp or_fresh [] 5 9 = (n, batch, db')" by (metis prod_cases3)
  have r: "fst (OverlayRecentDB_get plain_kvdb (\<lambda>_ _. None) or_fresh 2) = Some [1, 2]"
    by (simp add: OverlayRecentDB_get_def or_fresh_def raw_def demo_entries demo_column pos_sint)
  have "kv_get plain_kvdb (apply_ops batch (\<lambda>_ _. None)) = apply_ops batch (kv_get plain_kvdb (\<lambda>_ _. None))" by (simp add: plain_kvdb_def)
  from overlay_recent_journal_transparent [OF unary.rlp_axioms or_fresh_inv _ _ j this]
  show ?thesis using j r by (simp add: or_fresh_def empty_overlay_def journal_count_def journal_index_def)
qed

theorem overlay_recent_canonical_refines_witness:
  "\<exists>n batch db'. OverlayRecentDB_mark_canonical unary_rlp or_queued [] 5 9 = Inr (n, batch, db') \<and>
     kv_get plain_kvdb (apply_ops batch or_store) 0 (hash_key 2) = Some [1, 2] \<and>
     kv_get plain_kvdb (apply_ops batch or_store) 0 (journal_key unary_rlp 5 0) = None"
proof -
  have c: "or_column or_queued = 0" "jo_journal (or_journal_overlay or_queued) = [(5, [or_entry])]"
    "canon_removes 9 [or_entry] = []" "canon_inserts 9 [or_entry] = [2]" "jo_pending_overlay (or_journal_overlay or_queued) = Map.empty"
    by (simp_all add: or_queued_def canon_removes_def canon_inserts_def or_entry_def)
  obtain n batch db' where m: "OverlayRecentDB_mark_canonical unary_rlp or_queued [] 5 9 = Inr (n, batch, db')"
    and c': "or_column db' = 0" and e: "\<And>s'. kv_get plain_kvdb s' = apply_ops batch (kv_get plain_kvdb or_store) \<Longrightarrow>
      or_inv (\<lambda>_. [1, 2]) {2} plain_kvdb s' db' {2} \<and> kv_get plain_kvdb s' 0 (journal_key unary_rlp 5 0) = None"
    using overlay_recent_canonical_refines [OF unary.rlp_axioms or_queued_inv, of 5 "[or_entry]" 9]
    by (auto simp: c or_archive_after_def)
  from c' show ?thesis using m e [of "apply_ops batch or_store"] by (simp add: plain_kvdb_def or_inv_def Let_def)
qed

theorem overlay_recent_reopens_witness:
  "\<exists>db'. OverlayRecentDB_new unary_rlp toy_hash plain_kvdb or_store 0 = Some (Inr db') \<and>
     fst (OverlayRecentDB_get plain_kvdb or_store db' 2) = Some [1, 2]"
proof -
  have c: "or_column or_queued = 0" "md_data (or_transaction_overlay or_queued) = []" by (simp_all add: or_queued_def or_demo_nulls)
  have "e = 5" if "5 \<le> e" "e \<le> 5" for e :: nat using that by simp
  then have d: "or_eras_on_disk unary_rlp plain_kvdb or_store 0 (\<lambda>_. [1, 2]) (\<lambda>_. [or_entry]) 5 5"
    using or_store_get by (auto simp: or_eras_on_disk_def or_era_journal_def)
  have j: "map_of (jo_journal (or_journal_overlay or_queued)) = map_of (journal_of (\<lambda>_. [or_entry]) 5 5)"
    by (simp add: or_queued_def journal_of_def)
  have r: "fst (OverlayRecentDB_get plain_kvdb or_store or_queued 2) = Some [1, 2]"
    by (simp add: OverlayRecentDB_get_def or_queued_def raw_def or_demo_nulls recent_def short_two HashDB_get_def PlainDB_get_def pos_sint)
  show ?thesis
    using overlay_recent_reopens [where H = toy_hash and js = "\<lambda>_. [or_entry]" and lo = 5 and hi = 5, OF unary.rlp_axioms or_queued_inv c(2) or_keys_ok] d j r by (auto simp: c(1))
qed

section \<open>The read cache and inject\<close>

text \<open>The edits of a transaction: they touch the transaction overlay only.\<close>

datatype or_edit = EditInsert bytes | EditEmplace h256 bytes | EditRemove h256

fun or_edit_step :: "(bytes \<Rightarrow> h256) \<Rightarrow> or_edit \<Rightarrow> OverlayRecentDB \<Rightarrow> OverlayRecentDB" where
  "or_edit_step H (EditInsert v) db = snd (OverlayRecentDB_insert H db v)"
| "or_edit_step H (EditEmplace k v) db = OverlayRecentDB_emplace db k v"
| "or_edit_step H (EditRemove k) db = OverlayRecentDB_remove db k"

lemma or_edit_step_keeps:
  "or_journal_overlay (or_edit_step H e db) = or_journal_overlay db" "or_read_cache (or_edit_step H e db) = or_read_cache db"
  "or_column (or_edit_step H e db) = or_column db"
  "hashed_null_node (or_transaction_overlay (or_edit_step H e db)) = hashed_null_node (or_transaction_overlay db)"
  "md_ok (or_transaction_overlay db) \<Longrightarrow> md_ok (or_transaction_overlay (or_edit_step H e db))"
  by (cases e; simp add: OverlayRecentDB_insert_def OverlayRecentDB_emplace_def OverlayRecentDB_remove_def HashDB_insert_def
      HashDB_emplace_def HashDB_remove_def PlainDB_emplace_def PlainDB_remove_def md_ok_def distinct_update Let_def split: option.split)+

lemma or_edits_keep:
  "or_journal_overlay (fold (or_edit_step H) es db) = or_journal_overlay db" "or_read_cache (fold (or_edit_step H) es db) = or_read_cache db"
  "or_column (fold (or_edit_step H) es db) = or_column db"
  "hashed_null_node (or_transaction_overlay (fold (or_edit_step H) es db)) = hashed_null_node (or_transaction_overlay db)"
  "md_ok (or_transaction_overlay db) \<Longrightarrow> md_ok (or_transaction_overlay (fold (or_edit_step H) es db))"
  by (induction es arbitrary: db) (simp_all add: or_edit_step_keeps)

lemma or_inject_other:
  "fold_res (or_inject_entry dbg D s col) es (n, batch) = Inr (n', batch') \<Longrightarrow> k \<notin> fst ` set es \<Longrightarrow>
   apply_ops batch' m col (hash_key k) = apply_ops batch m col (hash_key k)"
proof (induction es arbitrary: n batch)
  case (Cons e es)
  obtain k' v' rc where e: "e = (k', v', rc)" by (metis prod_cases3)
  obtain n1 b1 where 1: "or_inject_entry dbg D s col e (n, batch) = Inr (n1, b1)" "fold_res (or_inject_entry dbg D s col) es (n1, b1) = Inr (n', batch')"
    using Cons.prems(1) by (auto simp: and_then_eq_Inr)
  have "apply_ops b1 m col (hash_key k) = apply_ops batch m col (hash_key k)"
    using 1(1) Cons.prems(2) by (auto simp: or_inject_entry_def e error_negatively_reference_hash_def split: if_splits)
  then show ?case using Cons.IH [OF 1(2)] Cons.prems(2) by simp
qed simp

lemma or_inject_puts:
  "fold_res (or_inject_entry dbg D s col) es (n, batch) = Inr (n', batch') \<Longrightarrow> distinct (map fst es) \<Longrightarrow>
   map_of es k = Some (v, rc) \<Longrightarrow> 0 <s rc \<Longrightarrow> apply_ops batch' m col (hash_key k) = Some v"
proof (induction es arbitrary: n batch)
  case (Cons e es)
  obtain n1 b1 where 1: "or_inject_entry dbg D s col e (n, batch) = Inr (n1, b1)" "fold_res (or_inject_entry dbg D s col) es (n1, b1) = Inr (n', batch')"
    using Cons.prems(1) by (auto simp: and_then_eq_Inr)
  show ?case
  proof (cases "fst e = k")
    case True
    then have e: "e = (k, v, rc)" using Cons.prems(3) by (cases e) simp
    have "b1 = batch @ [Insert col (hash_key k) v]" using 1(1) Cons.prems(4) by (auto simp: or_inject_entry_def e split: if_splits)
    then show ?thesis using or_inject_other [OF 1(2), of k m] Cons.prems(2) True by (simp add: image_iff)
  next
    case False
    then show ?thesis using Cons.IH [OF 1(2)] Cons.prems by (cases e) simp
  qed
qed simp

text \<open>A key that was read as absent is absent from the transaction overlay and from the recent values, and the cache says so.\<close>

lemma read_absent:
  assumes "OverlayRecentDB_get D s db k = (None, db1)"
  shows "db1 = db\<lparr>or_read_cache := (or_read_cache db)(k \<mapsto> None)\<rparr>" "k \<noteq> hashed_null_node (or_transaction_overlay db)"
    "recent (or_journal_overlay db) k = None"
proof -
  have r: "recent (or_journal_overlay db) k = None"
    using assms by (auto simp: OverlayRecentDB_get_def Let_def split: option.splits if_splits prod.splits)
  then show "recent (or_journal_overlay db) k = None" .
  show "k \<noteq> hashed_null_node (or_transaction_overlay db)"
    using assms by (auto simp: OverlayRecentDB_get_def raw_def pos_sint Let_def)
  show "db1 = db\<lparr>or_read_cache := (or_read_cache db)(k \<mapsto> None)\<rparr>"
  proof (cases "or_read_cache db k")
    case None
    then show ?thesis using assms r by (auto simp: OverlayRecentDB_get_def Let_def split: option.splits if_splits prod.splits)
  next
    case (Some c)
    then have "c = None \<and> db1 = db" using assms r by (auto simp: OverlayRecentDB_get_def Let_def split: option.splits if_splits prod.splits)
    then show ?thesis using Some by (simp add: fun_upd_idem)
  qed
qed

text \<open>C37. \<open>inject\<close> writes to the store and does not touch the read cache.  A key that a handle has looked up and not found,
  that is then inserted (among any other edits) and injected, is in the store with its value; a handle with an
  empty cache reads it there; but this handle still answers that it is absent.\<close>

theorem inject_leaves_stale_cache:
  assumes "OverlayRecentDB_get D s db k = (None, db1)"
    and "md_ok (or_transaction_overlay db)"
    and "db2 = fold (or_edit_step H) edits db1"
    and "raw (or_transaction_overlay db2) k = Some (v, rc)" and "0 <s rc"
    and "OverlayRecentDB_inject dbg D s db2 batch = (Inr (n, batch'), db3)"
    and "kv_get D s' = apply_ops batch' (kv_get D s)"
  shows "kv_get D s' (or_column db) (hash_key k) = Some v \<and>
    fst (OverlayRecentDB_get D s' (db3\<lparr>or_read_cache := Map.empty\<rparr>) k) = Some v \<and>
    OverlayRecentDB_get D s' db3 k = (None, db3)"
proof -
  note a = read_absent [OF assms(1)]
  let ?m = "or_transaction_overlay db2"
  have keep: "or_journal_overlay db2 = or_journal_overlay db" "or_read_cache db2 = (or_read_cache db)(k \<mapsto> None)" "or_column db2 = or_column db"
    "hashed_null_node ?m = hashed_null_node (or_transaction_overlay db)" "md_ok ?m"
    using assms(2) by (simp_all add: assms(3) or_edits_keep a(1))
  have i: "fold_res (or_inject_entry dbg D s (or_column db)) (md_data ?m) (0, batch) = Inr (n, batch')"
    "db3 = db2\<lparr>or_transaction_overlay := ?m\<lparr>md_data := []\<rparr>\<rparr>"
    using assms(6) by (auto simp: OverlayRecentDB_inject_def drain_def keep(3))
  have "map_of (md_data ?m) k = Some (v, rc)" using assms(4) a(2) keep(4) by (simp add: raw_def)
  then have "kv_get D s' (or_column db) (hash_key k) = Some v"
    using or_inject_puts [OF i(1), of k v rc] assms(5,7) keep(5) by (simp add: md_ok_def)
  then show ?thesis using a keep
    by (simp add: i(2) OverlayRecentDB_get_def raw_def OverlayRecentDB_payload_def Let_def)
qed

theorem inject_leaves_stale_cache_witness:
  "let (v, db1) = OverlayRecentDB_get plain_kvdb (\<lambda>_ _. None) (or_fresh\<lparr>or_transaction_overlay := new_memory_db unary_rlp toy_hash\<rparr>) 2;
       (k, db2) = OverlayRecentDB_insert toy_hash db1 [1, 2];
       (r, db3) = OverlayRecentDB_inject True plain_kvdb (\<lambda>_ _. None) db2 []
   in k = 2 \<and> r = Inr (1, [Insert 0 (hash_key 2) [1, 2]]) \<and>
      fst (OverlayRecentDB_get plain_kvdb (apply_ops [Insert 0 (hash_key 2) [1, 2]] (\<lambda>_ _. None)) db3 2) = None"
proof -
  let ?db = "or_fresh\<lparr>or_transaction_overlay := new_memory_db unary_rlp toy_hash\<rparr>"
  note defs = Let_def OverlayRecentDB_get_def or_fresh_def raw_def recent_def short_two empty_overlay_def HashDB_get_def PlainDB_get_def
      OverlayRecentDB_payload_def plain_kvdb_def OverlayRecentDB_insert_def HashDB_insert_def PlainDB_emplace_def toy_hash_def
      OverlayRecentDB_inject_def drain_def or_inject_entry_def pos_sint new_memory_db_def from_null_node_def unary_rlp_def
  let ?db1 = "?db\<lparr>or_read_cache := [2 \<mapsto> None]\<rparr>"
  let ?db2 = "snd (OverlayRecentDB_insert toy_hash ?db1 [1, 2])"
  have g: "OverlayRecentDB_get plain_kvdb (\<lambda>_ _. None) ?db 2 = (None, ?db1)" by (simp add: defs)
  have k: "fst (OverlayRecentDB_insert toy_hash ?db1 [1, 2]) = 2" by (simp add: defs)
  have w: "raw (or_transaction_overlay ?db2) 2 = Some ([1, 2], 1)" by (simp add: defs)
  obtain db3 where j: "OverlayRecentDB_inject True plain_kvdb (\<lambda>_ _. None) ?db2 [] = (Inr (1, [Insert 0 (hash_key 2) [1, 2]]), db3)"
    by (simp add: defs)
  have "OverlayRecentDB_get plain_kvdb (apply_ops [Insert 0 (hash_key 2) [1, 2]] (\<lambda>_ _. None)) db3 2 = (None, db3)"
    using inject_leaves_stale_cache [OF g _ _ w _ j, of toy_hash "[EditInsert [1, 2]]" "apply_ops [Insert 0 (hash_key 2) [1, 2]] (\<lambda>_ _. None)"]
    by (simp add: md_ok_def new_memory_db_def from_null_node_def plain_kvdb_def pos_sint)
  then show ?thesis using g k j by (cases "OverlayRecentDB_insert toy_hash ?db1 [1, 2]") (simp add: Let_def)
qed

end
