(* ===== verification/JournalDb.thy ===== *)
theory JournalDb
  imports OverlayRecentDb
begin

text \<open>
  The choice of a journal database, \<open>parity-journaldb/src/lib.rs\<close>: the strategies, their names and the
  constructor, and the operations of the trait \<open>JournalDB\<close> (\<open>traits.rs\<close>) that only report the state.
\<close>

datatype Algorithm = Archive | EarlyMerge | OverlayRecent | RefCounted

definition Algorithm_from_str :: "string \<Rightarrow> string + Algorithm" where
  "Algorithm_from_str s = (if s = ''archive'' then Inr Archive else if s = ''light'' then Inr EarlyMerge
     else if s = ''fast'' then Inr OverlayRecent else if s = ''basic'' then Inr RefCounted else Inl (''Invalid algorithm: '' @ s))"

definition Algorithm_as_str :: "Algorithm \<Rightarrow> string" where
  "Algorithm_as_str a = (case a of Archive \<Rightarrow> ''archive'' | EarlyMerge \<Rightarrow> ''light'' | OverlayRecent \<Rightarrow> ''fast'' | RefCounted \<Rightarrow> ''basic'')"

definition as_internal_name_str :: "Algorithm \<Rightarrow> string" where
  "as_internal_name_str a = (case a of Archive \<Rightarrow> ''archive'' | EarlyMerge \<Rightarrow> ''earlymerge'' | OverlayRecent \<Rightarrow> ''overlayrecent'' | RefCounted \<Rightarrow> ''refcounted'')"

definition is_stable :: "Algorithm \<Rightarrow> bool" where
  "is_stable a = (case a of Archive \<Rightarrow> True | OverlayRecent \<Rightarrow> True | _ \<Rightarrow> False)"

definition all_types :: "Algorithm list" where
  "all_types = [Archive, EarlyMerge, OverlayRecent, RefCounted]"

datatype JournalDB = JArchive ArchiveDB | JEarlyMerge EarlyMergeDB | JOverlayRecent OverlayRecentDB | JRefCounted RefCountedDB

definition JournalDB_new ::
  "rlp_ops \<Rightarrow> (bytes \<Rightarrow> h256) \<Rightarrow> 's kvdb_ops \<Rightarrow> 's \<Rightarrow> Algorithm \<Rightarrow> nat \<Rightarrow> JournalDB result option" where
  "JournalDB_new R H D backing algorithm col = (case algorithm of
     Archive \<Rightarrow> Some (and_then (ArchiveDB_new R H D backing col) (\<lambda>db. Inr (JArchive db)))
   | EarlyMerge \<Rightarrow> map_option (\<lambda>r. and_then r (\<lambda>db. Inr (JEarlyMerge db))) (EarlyMergeDB_new R H D backing col)
   | OverlayRecent \<Rightarrow> map_option (\<lambda>r. and_then r (\<lambda>db. Inr (JOverlayRecent db))) (OverlayRecentDB_new R H D backing col)
   | RefCounted \<Rightarrow> Some (and_then (RefCountedDB_new R H D backing col) (\<lambda>db. Inr (JRefCounted db))))"

text \<open>The default of the trait is no size, no earliest era and a pruned database.\<close>

definition latest_era :: "JournalDB \<Rightarrow> u64 option" where
  "latest_era j = (case j of JArchive db \<Rightarrow> ar_latest_era db | JEarlyMerge db \<Rightarrow> em_latest_era db
     | JOverlayRecent db \<Rightarrow> jo_latest_era (or_journal_overlay db) | JRefCounted db \<Rightarrow> rc_latest_era db)"

definition earliest_era :: "JournalDB \<Rightarrow> u64 option" where
  "earliest_era j = (case j of JOverlayRecent db \<Rightarrow> jo_earliest_era (or_journal_overlay db) | _ \<Rightarrow> None)"

definition journal_size :: "JournalDB \<Rightarrow> nat" where
  "journal_size j = (case j of JOverlayRecent db \<Rightarrow> jo_cumulative_size (or_journal_overlay db) | _ \<Rightarrow> 0)"

definition is_pruned :: "JournalDB \<Rightarrow> bool" where
  "is_pruned j = (case j of JArchive db \<Rightarrow> False | _ \<Rightarrow> True)"

text \<open>The sizes of the overlay-recent database, of its values on their way from a finite map of the keys.\<close>

definition overlay_recent_sizes :: "OverlayRecentDB \<Rightarrow> (string \<rightharpoonup> nat) \<Rightarrow> (string \<rightharpoonup> nat)" where
  "overlay_recent_sizes db sizes = sizes(
     ''db_overlay_recent_transactions_size'' \<mapsto> MemoryDB_len (or_transaction_overlay db),
     ''db_overlay_recent_backing_size'' \<mapsto> MemoryDB_len (jo_backing_overlay (or_journal_overlay db)),
     ''db_overlay_recent_pending_size'' \<mapsto> card (dom (jo_pending_overlay (or_journal_overlay db))),
     ''db_overlay_recent_journal_size'' \<mapsto> length (jo_journal (or_journal_overlay db)))"

lemma algorithm_names: "Algorithm_from_str (Algorithm_as_str a) = Inr a" "a \<in> set all_types"
  by (cases a; simp add: Algorithm_from_str_def Algorithm_as_str_def all_types_def)+

end
