(* ===== verification/AuthTrait.thy ===== *)
theory AuthTrait
  imports Kvdb
begin

text \<open>
  The interface of an authenticated storage, the trait \<open>AuthDB\<close> of
  \<open>authdb-trait/src/lib.rs\<close>, as a record of operations, its contract as two locales, and the
  plain key-value store as a storage (\<open>impl AuthDB for Arc<dyn KeyValueDB>\<close>).  An
  operation may panic and, for storages with unbounded loops, may not return.
\<close>

section \<open>Operations\<close>

type_synonym 'a outcome = "'a result option"

fun then_do :: "'a outcome \<Rightarrow> ('a \<Rightarrow> 'b outcome) \<Rightarrow> 'b outcome" where
  "then_do None f = None"
| "then_do (Some (Inl e)) f = Some (Inl e)"
| "then_do (Some (Inr x)) f = f x"

lemma then_do_eq_Inr: "then_do r f = Some (Inr y) \<longleftrightarrow> (\<exists>x. r = Some (Inr x) \<and> f x = Some (Inr y))"
  by (cases "(r, f)" rule: then_do.cases) auto

lemma then_do_bind: "then_do r f = Option.bind r (\<lambda>x. case x of Inl e \<Rightarrow> Some (Inl e) | Inr y \<Rightarrow> f y)"
  by (cases "(r, f)" rule: then_do.cases) auto

lemma then_do_mono [partial_function_mono]:
  assumes "mono_option B" "\<And>y. mono_option (C y)"
  shows "mono_option (\<lambda>f. then_do (B f) (\<lambda>y. C y f))"
proof -
  have "mono_option (\<lambda>f. case x of Inl e \<Rightarrow> Some (Inl e) | Inr y \<Rightarrow> C y f)" for x
    using assms(2) by (cases x) (simp_all add: monotone_def option.leq_refl)
  then show ?thesis unfolding then_do_bind by (intro bind_mono assms(1))
qed

record 's AuthDB =
  ad_get :: "'s \<Rightarrow> bytes \<Rightarrow> (bytes option \<times> 's) outcome"
  ad_set :: "'s \<Rightarrow> bytes \<Rightarrow> bytes \<Rightarrow> 's outcome"
  ad_commit :: "'s \<Rightarrow> nat \<Rightarrow> 's outcome"
  ad_flush_all :: "'s \<Rightarrow> 's outcome"

text \<open>The plain store: \<open>flush_all\<close> is the default of the trait.\<close>

definition raw_get :: "'s kvdb_ops \<Rightarrow> 's \<Rightarrow> bytes \<Rightarrow> (bytes option \<times> 's) outcome" where
  "raw_get D s key = Some (Inr (kv_get D s 0 key, s))"

definition raw_set :: "'s kvdb_ops \<Rightarrow> 's \<Rightarrow> bytes \<Rightarrow> bytes \<Rightarrow> 's outcome" where
  "raw_set D s key value = Some (Inr (kv_write_buffered D s [Insert 0 key value]))"

definition raw_commit :: "'s kvdb_ops \<Rightarrow> 's \<Rightarrow> nat \<Rightarrow> 's outcome" where
  "raw_commit D s index = Some (unwrap_result (kv_flush D s))"

definition default_flush_all :: "'s \<Rightarrow> 's outcome" where
  "default_flush_all s = Some (Inr s)"

definition raw_authdb :: "'s kvdb_ops \<Rightarrow> 's AuthDB" where
  "raw_authdb D = \<lparr>ad_get = raw_get D, ad_set = raw_set D, ad_commit = raw_commit D, ad_flush_all = default_flush_all\<rparr>"

section \<open>The contract\<close>

text \<open>
  A storage stands for the map \<open>m\<close> of the last commit and the map \<open>w\<close> of the writes since.  A
  stored key that was not written since is answered with its value; a key that was written since
  may be answered with the old or the new value, since storages differ in whether a write can
  be read before the commit; a key that is in neither map has no value, or the empty one.
\<close>

type_synonym content = "bytes \<Rightarrow> bytes option"

definition answers :: "content \<Rightarrow> content \<Rightarrow> bytes \<Rightarrow> bytes option \<Rightarrow> bool" where
  "answers m w k r \<longleftrightarrow> (case w k of Some v \<Rightarrow> r = m k \<or> r = Some v
     | None \<Rightarrow> (case m k of Some v \<Rightarrow> r = Some v | None \<Rightarrow> r = None \<or> r = Some []))"

lemma answers_present: "answers m w k r \<Longrightarrow> m k \<noteq> None \<Longrightarrow> r \<noteq> None"
  by (auto simp: answers_def split: option.splits)

locale auth_epoch =
  fixes A :: "'s AuthDB" and rel :: "'s \<Rightarrow> content \<Rightarrow> content \<Rightarrow> bool"
    and key_ok :: "bytes \<Rightarrow> bool" and value_ok :: "bytes \<Rightarrow> bool"
  assumes get_answers: "rel s m w \<Longrightarrow> key_ok k \<Longrightarrow> \<exists>r s'. ad_get A s k = Some (Inr (r, s')) \<and> rel s' m w \<and> answers m w k r"
    and set_writes: "rel s m w \<Longrightarrow> key_ok k \<Longrightarrow> value_ok v \<Longrightarrow> \<exists>s'. ad_set A s k v = Some (Inr s') \<and> rel s' m (w(k \<mapsto> v))"

text \<open>A commit moves the writes into the map, if it succeeds.\<close>

locale authdb = auth_epoch +
  assumes commit_returns: "rel s m w \<Longrightarrow> \<exists>r. ad_commit A s i = Some r"
    and commit_moves: "rel s m w \<Longrightarrow> ad_commit A s i = Some (Inr s') \<Longrightarrow> rel s' (m ++ w) Map.empty"
    and flush_returns: "rel s m Map.empty \<Longrightarrow> \<exists>r. ad_flush_all A s = Some r"
    and flush_keeps: "rel s m Map.empty \<Longrightarrow> ad_flush_all A s = Some (Inr s') \<Longrightarrow> rel s' m Map.empty"

text \<open>A storage whose commits succeed.\<close>

locale authdb_total = authdb +
  assumes commit_succeeds: "rel s m w \<Longrightarrow> \<exists>s'. ad_commit A s i = Some (Inr s')"
    and flush_succeeds: "rel s m Map.empty \<Longrightarrow> \<exists>s'. ad_flush_all A s = Some (Inr s')"

text \<open>The plain store provides the contract over every key-value store with a column.\<close>

definition raw_rel :: "'s kvdb_ops \<Rightarrow> ('s \<Rightarrow> bool) \<Rightarrow> 's \<Rightarrow> content \<Rightarrow> content \<Rightarrow> bool" where
  "raw_rel D I s m w \<longleftrightarrow> I s \<and> kv_get D s 0 = m ++ w"

lemma raw_provides_authdb:
  assumes "kvdb D I cols" "0 < cols"
  shows "authdb (raw_authdb D) (raw_rel D I) (\<lambda>_. True) (\<lambda>_. True)"
proof
  fix s m w k v i s'
  assume r: "raw_rel D I s m w"
  then show "\<exists>r s'. ad_get (raw_authdb D) s k = Some (Inr (r, s')) \<and> raw_rel D I s' m w \<and> answers m w k r"
    by (auto simp: raw_authdb_def raw_get_def raw_rel_def answers_def map_add_def split: option.splits)
  have rng: "ops_in_range cols [Insert 0 k v]" using assms(2) by (simp add: ops_in_range_def)
  have "I s" using r by (simp add: raw_rel_def)
  then have "kv_get D (kv_write_buffered D s [Insert 0 k v]) = apply_ops [Insert 0 k v] (kv_get D s)" "I (kv_write_buffered D s [Insert 0 k v])"
    using kvdb.get_write_buffered [OF assms(1) _ rng] kvdb.inv_write_buffered [OF assms(1) _ rng] by auto
  then show "\<exists>s'. ad_set (raw_authdb D) s k v = Some (Inr s') \<and> raw_rel D I s' m (w(k \<mapsto> v))"
    using r by (simp add: raw_authdb_def raw_set_def raw_rel_def)
  show "\<exists>r. ad_commit (raw_authdb D) s i = Some r" by (simp add: raw_authdb_def raw_commit_def)
  show "raw_rel D I s' (m ++ w) Map.empty" if c: "ad_commit (raw_authdb D) s i = Some (Inr s')"
  proof -
    have "kv_flush D s = Inr s'" using c by (simp add: raw_authdb_def raw_commit_def)
    then show ?thesis using kvdb.get_flush [OF assms(1) \<open>I s\<close>] kvdb.inv_flush [OF assms(1) \<open>I s\<close>] r by (simp add: raw_rel_def)
  qed
qed (auto simp: raw_authdb_def default_flush_all_def)

interpretation raw_plain: authdb_total "raw_authdb plain_kvdb" "raw_rel plain_kvdb (\<lambda>_. True)" "\<lambda>_. True" "\<lambda>_. True"
  by (intro authdb_total.intro raw_provides_authdb [OF plain.kvdb_axioms [of 1]] authdb_total_axioms.intro)
    (simp_all add: raw_authdb_def raw_commit_def default_flush_all_def plain_kvdb_def)

end
