(* ===== verification/BenchOptions.thy ===== *)
theory BenchOptions
  imports Prelude
begin

text \<open>
  The command line options of the benchmark, \<open>asb-options/src/lib.rs\<close>: the record of options, the
  parsers for the algorithm, the backend and numbers with a unit, and the directories of
  saved warm-ups.  A string is the list of its bytes in UTF-8.
\<close>

datatype AuthAlgo = RAW | AMT nat | LVMT | MPT | LMPTS | RAIN

datatype Backend = RocksDB | InMemoryDB | MDBX

record Options =
  opt_algorithm :: AuthAlgo
  opt_backend :: Backend
  opt_total_keys :: nat
  opt_seed :: u64
  opt_cache_size :: u64
  opt_max_time :: "nat option"
  opt_max_epoch :: "nat option"
  opt_report_epoch :: nat
  opt_profile_epoch :: nat
  opt_epoch_size :: nat
  opt_report_dir :: "string option"
  opt_db_dir :: string
  opt_trace_dir :: string
  opt_real_trace :: bool
  opt_no_stat :: bool
  opt_stat_mem :: bool
  opt_no_warmup :: bool
  opt_print_root :: bool
  opt_warmup_to :: "string option"
  opt_warmup_from :: "string option"
  opt_shards :: "nat option"

section \<open>Numbers\<close>

text \<open>\<open>usize\<close> has 64 bits.  The standard library's parser: an optional plus sign and digits, with a
  check of overflow.\<close>

definition to_digit :: "char \<Rightarrow> nat option" where
  "to_digit c = (if 48 \<le> (of_char c :: nat) \<and> (of_char c :: nat) \<le> 57 then Some (of_char c - 48) else None)"

fun parse_digits :: "nat \<Rightarrow> string \<Rightarrow> string + nat" where
  "parse_digits acc [] = Inr acc"
| "parse_digits acc (c # cs) = (case to_digit c of
     None \<Rightarrow> Inl ''invalid digit found in string''
   | Some d \<Rightarrow> if acc * 10 + d < 2 ^ 64 then parse_digits (acc * 10 + d) cs else Inl ''number too large to fit in target type'')"

definition parse_usize :: "string \<Rightarrow> string + nat" where
  "parse_usize s = (case s of
     [] \<Rightarrow> Inl ''cannot parse integer from empty string''
   | c # cs \<Rightarrow> if c = CHR ''+'' \<and> cs \<noteq> [] then parse_digits 0 cs else parse_digits 0 s)"

text \<open>The product is computed without a check in a release build and wraps around.\<close>

definition num_base :: "char \<Rightarrow> nat" where
  "num_base c = (if c = CHR ''k'' \<or> c = CHR ''K'' then 1000
     else if c = CHR ''m'' \<or> c = CHR ''M'' then 1000000
     else if c = CHR ''g'' \<or> c = CHR ''G'' then 1000000000 else 1)"

definition parse_num :: "string \<Rightarrow> string + nat" where
  "parse_num s = (if s = [] then Inl ''empty input''
     else let base = num_base (last s); num = (if 1 < base then butlast s else s)
     in case parse_usize num of Inl e \<Rightarrow> Inl e | Inr n \<Rightarrow> Inr (base * n mod 2 ^ 64))"

section \<open>Algorithm and backend\<close>

text \<open>Slicing a string between the bytes of a character panics.\<close>

definition is_char_boundary :: "string \<Rightarrow> nat \<Rightarrow> bool" where
  "is_char_boundary s i \<longleftrightarrow> i = 0 \<or> i = length s \<or> i < length s \<and> \<not> (128 \<le> (of_char (s ! i) :: nat) \<and> (of_char (s ! i) :: nat) < 192)"

definition parse_algo :: "string \<Rightarrow> (string + AuthAlgo) result" where
  "parse_algo s =
     (if 4 \<le> length s \<and> \<not> is_char_boundary s 4 then Inl (Panic ''byte index 4 is not a char boundary'')
      else if 4 \<le> length s \<and> take 4 s = ''amt'' then Inr (case parse_usize (drop 4 s) of Inl e \<Rightarrow> Inl e | Inr depth \<Rightarrow> Inr (AMT depth))
      else if s = ''raw'' then Inr (Inr RAW)
      else if s = ''lvmt'' then Inr (Inr LVMT)
      else if s = ''mpt'' then Inr (Inr MPT)
      else if s = ''lmpts'' then Inr (Inr LMPTS)
      else if s = ''rain'' then Inr (Inr RAIN)
      else Inr (Inl ''Unrecognized algorithm''))"

definition parse_backend :: "string \<Rightarrow> string + Backend" where
  "parse_backend s = (if s = ''rocksdb'' then Inr RocksDB else if s = ''memory'' then Inr InMemoryDB
     else if s = ''mdbx'' then Inr MDBX else Inl ''Unrecognized backend'')"

definition num_cols :: "Options \<Rightarrow> nat" where
  "num_cols opts = (case opt_algorithm opts of LVMT \<Rightarrow> 3 | _ \<Rightarrow> 1)"

section \<open>Names of saved warm-ups\<close>

fun decimal :: "nat \<Rightarrow> string" where
  "decimal n = (if n < 10 then [char_of (48 + n)] else decimal (n div 10) @ [char_of (48 + n mod 10)])"

text \<open>The formats \<open>{:e}\<close> of an integer, which drops its trailing zeros, and \<open>{:?}\<close> of an
  algorithm.\<close>

fun strip_zeros :: "nat \<Rightarrow> nat \<times> nat" where
  "strip_zeros n = (if n mod 10 = 0 \<and> 10 \<le> n then (case strip_zeros (n div 10) of (m, e) \<Rightarrow> (m, Suc e)) else (n, 0))"

definition lower_exp :: "nat \<Rightarrow> string" where
  "lower_exp n = (case strip_zeros n of (m, e) \<Rightarrow> case decimal m of
     [] \<Rightarrow> []
   | d # ds \<Rightarrow> (if ds = [] then [d] else d # CHR ''.'' # ds) @ ''e'' @ decimal (e + length ds))"

definition debug_algo :: "AuthAlgo \<Rightarrow> string" where
  "debug_algo a = (case a of RAW \<Rightarrow> ''RAW'' | AMT n \<Rightarrow> ''AMT('' @ decimal n @ '')'' | LVMT \<Rightarrow> ''LVMT'' | MPT \<Rightarrow> ''MPT''
     | LMPTS \<Rightarrow> ''LMPTS'' | RAIN \<Rightarrow> ''RAIN'')"

definition warmup_dir :: "Options \<Rightarrow> string \<Rightarrow> string" where
  "warmup_dir opts input =
     (let task_code = (if \<not> opt_real_trace opts then lower_exp (opt_total_keys opts) else ''real'') in
      if opt_algorithm opts \<noteq> LVMT \<or> opt_shards opts = None
      then input @ ''/'' @ debug_algo (opt_algorithm opts) @ ''_'' @ task_code @ ''/''
      else input @ ''/LVMT'' @ decimal (the (opt_shards opts)) @ ''_'' @ task_code @ ''/'')"

definition settings :: "Options \<Rightarrow> string" where
  "settings opts = debug_algo (opt_algorithm opts) @ '','' @ lower_exp (opt_total_keys opts)"

definition warmup_to :: "Options \<Rightarrow> string option" where
  "warmup_to opts = map_option (warmup_dir opts) (opt_warmup_to opts)"

definition warmup_from :: "Options \<Rightarrow> string option" where
  "warmup_from opts = map_option (warmup_dir opts) (opt_warmup_from opts)"

section \<open>Facts\<close>

lemma to_digit_char: "d < 10 \<Longrightarrow> to_digit (char_of (48 + d)) = Some d"
  by (simp add: to_digit_def)

declare decimal.simps [simp del]

lemma decimal_nonempty [simp]: "decimal n \<noteq> []"
  by (subst decimal.simps) simp

lemma parse_digits_append:
  "parse_digits acc (xs @ ys) = (case parse_digits acc xs of Inl e \<Rightarrow> Inl e | Inr n \<Rightarrow> parse_digits n ys)"
  by (induction xs arbitrary: acc) (auto split: option.splits)

lemma parse_decimal: "n < 2 ^ 64 \<Longrightarrow> parse_digits 0 (decimal n) = Inr n"
proof (induction n rule: decimal.induct)
  case (1 n)
  show ?case
  proof (cases "n < 10")
    case True
    then show ?thesis using 1 by (simp add: decimal.simps [of n] to_digit_char)
  next
    case False
    have "parse_digits 0 (decimal (n div 10)) = Inr (n div 10)" using False 1 by simp
    then show ?thesis using False 1 by (simp add: decimal.simps [of n] parse_digits_append to_digit_char)
  qed
qed

lemma decimal_digits: "c \<in> set (decimal n) \<Longrightarrow> \<exists>d :: nat. d < 10 \<and> c = char_of (48 + d)"
proof (induction n rule: decimal.induct)
  case (1 n)
  show ?case
  proof (cases "n < 10")
    case True
    then have "c = char_of (48 + n)" using 1(2) by (simp add: decimal.simps [of n])
    then show ?thesis using True by blast
  next
    case False
    then have "c \<in> set (decimal (n div 10)) \<or> c = char_of (48 + n mod 10)" using 1(2) by (auto simp: decimal.simps [of n])
    then show ?thesis using False 1(1) by (metis mod_less_divisor zero_less_numeral)
  qed
qed

lemma digit_not: "(d :: nat) < 10 \<Longrightarrow> char_of (48 + d) \<notin> {CHR ''+'', CHR ''k'', CHR ''K'', CHR ''m'', CHR ''M'', CHR ''g'', CHR ''G''}"
proof
  assume d: "d < 10" and c: "char_of (48 + d) \<in> {CHR ''+'', CHR ''k'', CHR ''K'', CHR ''m'', CHR ''M'', CHR ''g'', CHR ''G''}"
  have "c \<in> {CHR ''+'', CHR ''k'', CHR ''K'', CHR ''m'', CHR ''M'', CHR ''g'', CHR ''G''} \<Longrightarrow> (of_char c :: nat) \<in> {43, 107, 75, 109, 77, 103, 71}" for c
    by auto
  from this [OF c] d show False by auto
qed

lemma parse_usize_decimal: "n < 2 ^ 64 \<Longrightarrow> parse_usize (decimal n) = Inr n"
proof -
  assume n: "n < 2 ^ 64"
  obtain c cs where d: "decimal n = c # cs" by (cases "decimal n") simp_all
  have "c \<noteq> CHR ''+''" using decimal_digits [of c n] d digit_not by auto
  then show ?thesis using parse_decimal [OF n] d by (simp add: parse_usize_def)
qed

section \<open>Properties\<close>

text \<open>C40. Numbers on the command line: the decimal digits of a number that fits are read as the
  number, and with a unit \<open>k\<close>, \<open>m\<close> or \<open>g\<close> as its product with the unit, which wraps around when
  it does not fit into 64 bits.\<close>

theorem parse_num_reads_units:
  assumes "n < 2 ^ 64"
  shows "parse_num (decimal n) = Inr n \<and>
    (\<forall>c. parse_num (decimal n @ [c]) = (if 1 < num_base c then Inr (num_base c * n mod 2 ^ 64) else parse_usize (decimal n @ [c])))"
proof -
  obtain d :: nat where d: "d < 10" "last (decimal n) = char_of (48 + d)" using decimal_digits [OF last_in_set [OF decimal_nonempty]] by blast
  have "num_base (last (decimal n)) = 1" using digit_not [OF d(1)] by (simp add: num_base_def d(2))
  then have 1: "parse_num (decimal n) = Inr n" using assms by (simp add: parse_num_def parse_usize_decimal)
  have bound: "k < 2 ^ 64" if "parse_usize s = Inr k" for s k
  proof -
    have "parse_digits acc cs = Inr k \<Longrightarrow> acc < 2 ^ 64 \<Longrightarrow> k < 2 ^ 64" for acc cs
      by (induction acc cs rule: parse_digits.induct) (auto split: option.splits if_splits)
    moreover obtain cs where "parse_digits 0 cs = Inr k" using \<open>parse_usize s = Inr k\<close>
      unfolding parse_usize_def by (cases s) (auto simp del: parse_digits.simps split: if_splits)
    ultimately show ?thesis by fastforce
  qed
  have "num_base c \<noteq> 0" for c by (simp add: num_base_def)
  then have one: "\<not> 1 < num_base c \<Longrightarrow> num_base c = 1" for c by (metis One_nat_def less_one linorder_neqE_nat)
  have "parse_num (decimal n @ [c]) = (if 1 < num_base c then Inr (num_base c * n mod 2 ^ 64) else parse_usize (decimal n @ [c]))" for c
    using assms bound [of "decimal n @ [c]"] one [of c] by (cases "1 < num_base c") (auto simp: parse_num_def parse_usize_decimal split: sum.splits)
  then show ?thesis using 1 by blast
qed

theorem parse_num_reads_units_witness:
  "parse_num ''250k'' = Inr 250000 \<and> parse_num ''20000000000g'' = Inr (20000000000000000000 mod 2 ^ 64)"
proof -
  have "char_of (50 :: nat) = CHR ''2''" "char_of (53 :: nat) = CHR ''5''" "char_of (48 :: nat) = CHR ''0''" by code_simp+
  then have d: "decimal 250 = ''250''" "decimal 20000000000 = ''20000000000''" by (simp_all add: decimal.simps)
  have k: "num_base CHR ''k'' = 1000" "num_base CHR ''g'' = 1000000000" by (simp_all add: num_base_def)
  have n: "(250 :: nat) < 2 ^ 64" "(20000000000 :: nat) < 2 ^ 64" by simp_all
  show ?thesis
    using parse_num_reads_units [OF n(1), THEN conjunct2, THEN spec, of "CHR ''k''"]
      parse_num_reads_units [OF n(2), THEN conjunct2, THEN spec, of "CHR ''g''"] by (simp add: d k)
qed

text \<open>The single multipoint tree cannot be selected: \<open>parse_algo\<close> compares the first four
  bytes of its argument with a name of three bytes, so that no argument gives \<open>AMT\<close>; the
  other algorithms are reached by their names.\<close>

theorem parse_algo_never_amt:
  "parse_algo s \<noteq> Inr (Inr (AMT depth)) \<and>
   map parse_algo [''raw'', ''lvmt'', ''mpt'', ''lmpts'', ''rain''] = map (\<lambda>a. Inr (Inr a)) [RAW, LVMT, MPT, LMPTS, RAIN]"
proof -
  have "4 \<le> length s \<Longrightarrow> take 4 s \<noteq> ''amt''" by (auto dest!: arg_cong [where f = length])
  moreover have "map parse_algo [''raw'', ''lvmt'', ''mpt'', ''lmpts'', ''rain''] = map (\<lambda>a. Inr (Inr a)) [RAW, LVMT, MPT, LMPTS, RAIN]"
    by (simp add: parse_algo_def is_char_boundary_def)
  moreover have "parse_algo s \<noteq> Inr (Inr (AMT depth))" if "4 \<le> length s \<Longrightarrow> take 4 s \<noteq> ''amt''"
    using that unfolding parse_algo_def by (cases "4 \<le> length s") simp_all
  ultimately show ?thesis by blast
qed

end
