(* ===== verification/MptDb.thy ===== *)
theory MptDb
  imports OverlayRecentRestart JournalDb AuthTrait BenchOptions
begin

text \<open>
  The Merkle Patricia trie storage, \<open>asb-authdb/src/mpt.rs\<close>.  The trie itself is the trie-db crate: an operation on
  it is a parameter that gives, for the view of the hash database and the root, the sequence of its
  operations on the hash database and its result.  The adapter keeps the root, runs these operations
  on an overlay-recent journal database, and at a commit journals the epoch, makes it canonical at
  once (\<open>journal_epoch\<close> is 0), and writes both in one batch.
\<close>

section \<open>Trie operations\<close>

datatype HashOp = HGet h256 | HInsert bytes | HEmplace h256 bytes | HRemove h256

record trie_ops =
  tr_get :: "(h256 \<Rightarrow> bytes option) \<Rightarrow> h256 \<Rightarrow> bytes \<Rightarrow> (HashOp list \<times> bytes option) result"
  tr_insert :: "(h256 \<Rightarrow> bytes option) \<Rightarrow> h256 \<Rightarrow> bytes \<Rightarrow> bytes \<Rightarrow> (HashOp list \<times> h256) result"
  tr_null_root :: h256

fun run_hash_op :: "(bytes \<Rightarrow> h256) \<Rightarrow> 's kvdb_ops \<Rightarrow> 's \<Rightarrow> HashOp \<Rightarrow> OverlayRecentDB \<Rightarrow> OverlayRecentDB" where
  "run_hash_op H D s (HGet k) db = snd (OverlayRecentDB_get D s db k)"
| "run_hash_op H D s (HInsert v) db = snd (OverlayRecentDB_insert H db v)"
| "run_hash_op H D s (HEmplace k v) db = OverlayRecentDB_emplace db k v"
| "run_hash_op H D s (HRemove k) db = OverlayRecentDB_remove db k"

section \<open>The storage\<close>

record 's MptDB =
  mp_backing :: 's
  mp_db :: OverlayRecentDB
  mp_root :: h256
  mp_epoch :: nat
  mp_print_root_period :: "nat option"
  mp_journal_epoch :: nat

definition root_key :: bytes where
  "root_key = replicate 256 0"

definition epoch_hash :: "(bytes \<Rightarrow> h256) \<Rightarrow> nat \<Rightarrow> h256" where
  "epoch_hash H epoch = H (to_le_bytes 8 (word_of_nat epoch :: u64))"

definition MptDB_new ::
  "trie_ops \<Rightarrow> rlp_ops \<Rightarrow> (bytes \<Rightarrow> h256) \<Rightarrow> 's kvdb_ops \<Rightarrow> Options \<Rightarrow> 's \<Rightarrow> 's MptDB outcome" where
  "MptDB_new T R H D opts backend =
     then_do (OverlayRecentDB_new R H D backend 0) (\<lambda>db.
     then_do (raw_get D backend root_key) (\<lambda>(stored, _).
     then_do (Some (case stored of Some value \<Rightarrow> H256_from_slice value | None \<Rightarrow> Inr (tr_null_root T))) (\<lambda>root.
       Some (Inr \<lparr>mp_backing = backend, mp_db = db, mp_root = root, mp_epoch = 0,
         mp_print_root_period = (if opt_print_root opts then Some (opt_report_epoch opts) else None), mp_journal_epoch = 0\<rparr>))))"

definition hash_view :: "'s kvdb_ops \<Rightarrow> 's MptDB \<Rightarrow> h256 \<Rightarrow> bytes option" where
  "hash_view D t k = fst (OverlayRecentDB_get D (mp_backing t) (mp_db t) k)"

definition MptDB_get :: "trie_ops \<Rightarrow> (bytes \<Rightarrow> h256) \<Rightarrow> 's kvdb_ops \<Rightarrow> 's MptDB \<Rightarrow> bytes \<Rightarrow> (bytes option \<times> 's MptDB) result" where
  "MptDB_get T H D t key = and_then (tr_get T (hash_view D t) (mp_root t) key) (\<lambda>(ops, v).
     Inr (v, t\<lparr>mp_db := fold (run_hash_op H D (mp_backing t)) ops (mp_db t)\<rparr>))"

definition MptDB_set :: "trie_ops \<Rightarrow> (bytes \<Rightarrow> h256) \<Rightarrow> 's kvdb_ops \<Rightarrow> 's MptDB \<Rightarrow> bytes \<Rightarrow> bytes \<Rightarrow> 's MptDB result" where
  "MptDB_set T H D t key value = and_then (tr_insert T (hash_view D t) (mp_root t) key value) (\<lambda>(ops, root).
     Inr (t\<lparr>mp_db := fold (run_hash_op H D (mp_backing t)) ops (mp_db t), mp_root := root\<rparr>))"

text \<open>\<open>write\<close> of the backing store is an argument: a batch goes to the store at once.  Printing the root
  computes a remainder, which fails for a period of 0.\<close>

definition MptDB_commit ::
  "rlp_ops \<Rightarrow> (bytes \<Rightarrow> h256) \<Rightarrow> ('s \<Rightarrow> DBOp list \<Rightarrow> 's result) \<Rightarrow> 's MptDB \<Rightarrow> nat \<Rightarrow> 's MptDB result" where
  "MptDB_commit R H W t index =
     (case OverlayRecentDB_journal_under R (mp_db t) [] (word_of_nat index) (epoch_hash H index) of (_, batch, db) \<Rightarrow>
      and_then (if mp_journal_epoch t \<le> index
          then and_then (OverlayRecentDB_mark_canonical R db batch (word_of_nat (index - mp_journal_epoch t)) (epoch_hash H (index - mp_journal_epoch t)))
                 (\<lambda>(_, batch', db'). Inr (batch', db'))
          else Inr (batch, db)) (\<lambda>(batch', db').
      and_then (W (mp_backing t) batch') (\<lambda>backing.
      and_then (ensure (mp_print_root_period t \<noteq> Some 0) ''attempt to calculate the remainder with a divisor of zero'') (\<lambda>_.
        Inr (t\<lparr>mp_epoch := index, mp_backing := backing, mp_db := OverlayRecentDB_flush db'\<rparr>)))))"

text \<open>The epochs that are still journalled, oldest first; the subtraction is one of machine words.\<close>

definition flush_epoch ::
  "rlp_ops \<Rightarrow> (bytes \<Rightarrow> h256) \<Rightarrow> nat \<Rightarrow> nat \<Rightarrow> DBOp list \<times> OverlayRecentDB \<Rightarrow> (DBOp list \<times> OverlayRecentDB) result" where
  "flush_epoch R H epoch i st = (case st of (batch, db) \<Rightarrow>
     let index = word_of_nat epoch - word_of_nat i :: u64 in
     and_then (OverlayRecentDB_mark_canonical R db batch index (epoch_hash H (unat index))) (\<lambda>(_, batch', db'). Inr (batch', db')))"

definition MptDB_flush_all ::
  "rlp_ops \<Rightarrow> (bytes \<Rightarrow> h256) \<Rightarrow> (h256 \<Rightarrow> bytes) \<Rightarrow> ('s \<Rightarrow> DBOp list \<Rightarrow> 's result) \<Rightarrow> 's MptDB \<Rightarrow> 's MptDB result" where
  "MptDB_flush_all R H to_keyed_vec W t =
     and_then (fold_res (flush_epoch R H (mp_epoch t)) (rev [0..<mp_journal_epoch t]) ([], mp_db t)) (\<lambda>(batch, db).
     and_then (W (mp_backing t) (batch @ [Insert 0 root_key (to_keyed_vec (mp_root t))])) (\<lambda>backing.
       Inr (t\<lparr>mp_backing := backing, mp_db := OverlayRecentDB_flush db\<rparr>)))"

section \<open>The state\<close>

text \<open>The latest era in memory is the one on disk, and its journal has been deleted.\<close>

definition latest_ok :: "rlp_ops \<Rightarrow> (bytes \<Rightarrow> bytes option) \<Rightarrow> OverlayRecentDB \<Rightarrow> bool" where
  "latest_ok R c db \<longleftrightarrow> (case jo_latest_era (or_journal_overlay db) of
     None \<Rightarrow> c LATEST_ERA_KEY = None
   | Some e \<Rightarrow> c LATEST_ERA_KEY = Some (rlp_encode R (RNum (unat e))) \<and> c (journal_key R e 0) = None)"

definition mpt_inv :: "rlp_ops \<Rightarrow> (h256 \<Rightarrow> bytes) \<Rightarrow> h256 set \<Rightarrow> 's kvdb_ops \<Rightarrow> 's MptDB \<Rightarrow> h256 set \<Rightarrow> bool" where
  "mpt_inv R val K D t A \<longleftrightarrow> or_inv val K D (mp_backing t) (mp_db t) A \<and> tx_ok val K (or_transaction_overlay (mp_db t)) \<and>
     set (drained_removes (md_data (or_transaction_overlay (mp_db t)))) \<subseteq> K \<and>
     jo_journal (or_journal_overlay (mp_db t)) = [] \<and> jo_pending_overlay (or_journal_overlay (mp_db t)) = Map.empty \<and>
     or_column (mp_db t) = 0 \<and> mp_journal_epoch t = 0 \<and> mp_print_root_period t \<noteq> Some 0 \<and>
     latest_ok R (kv_get D (mp_backing t) 0) (mp_db t)"

text \<open>The keys of the archive after the epoch.\<close>

definition epoch_archive :: "MemoryDB \<Rightarrow> h256 set \<Rightarrow> h256 set" where
  "epoch_archive tx A = (A \<union> {k. in_tx tx k}) - set (drained_removes (md_data tx))"

lemma or_inv_contents: "or_inv val K plain_kvdb (kv_get D s) db A \<longleftrightarrow> or_inv val K D s db A"
  by (simp add: or_inv_def plain_kvdb_def)

lemma or_inv_flush: "or_inv val K D s db A \<Longrightarrow> or_inv val K D s (OverlayRecentDB_flush db) A"
  by (auto simp: or_inv_def OverlayRecentDB_flush_def Let_def)

lemma drained_removes_distinct:
  "md_ok m \<Longrightarrow> k \<in> set (drained_removes (md_data m)) \<Longrightarrow> \<not> in_tx m k"
proof
  assume m: "md_ok m" "k \<in> set (drained_removes (md_data m))" "in_tx m k"
  then obtain d rc where "(k, d, rc) \<in> set (md_data m)" "rc <s 0" by (auto simp: drained_removes_def)
  then have "map_of (md_data m) k = Some (d, rc)" using m(1) by (simp add: md_ok_def map_of_is_SomeI)
  then show False using m(3) \<open>rc <s 0\<close> by (auto simp: in_tx_def)
qed

end
