(* ===== verification/MptProofs.thy ===== *)
theory MptProofs
  imports MptDb
begin

text \<open>
  The Merkle Patricia trie storage over the overlay-recent database: a commit moves the changes of the
  epoch into the archive and leaves no journal, and after \<open>flush_all\<close> the store can be opened again
  with the same root and the same reads.
\<close>

section \<open>Journalling the epoch\<close>

lemma journal_under_fields:
  assumes j: "OverlayRecentDB_journal_under R db [] now block_id = (n, batch, db')" and e: "jo_journal (or_journal_overlay db) = []"
  defines "new \<equiv> (case jo_latest_era (or_journal_overlay db) of None \<Rightarrow> True | Some e \<Rightarrow> e < now)"
  shows "jo_journal (or_journal_overlay db') = [(now, [\<lparr>je_id = block_id, je_insertions = map fst (tx_inserts (md_data (or_transaction_overlay db))),
      je_deletions = drained_removes (md_data (or_transaction_overlay db))\<rparr>])]"
    "or_column db' = or_column db" "jo_latest_era (or_journal_overlay db') = (if new then Some now else jo_latest_era (or_journal_overlay db))"
    "\<exists>x. batch = Insert (or_column db) (journal_key R now 0) x # (if new then [Insert (or_column db) LATEST_ERA_KEY (rlp_encode R (RNum (unat now)))] else [])"
  using j e unfolding new_def
  by (auto simp: OverlayRecentDB_journal_under_def Let_def drain_def push_entry_def split: prod.splits)

context rlp
begin

lemma commit_latest:
  assumes l: "latest_ok R (c 0) db"
    and b1: "b1 = Insert 0 (journal_key R now 0) x # (if new then [Insert 0 LATEST_ERA_KEY (rlp_encode R (RNum (unat now)))] else [])"
    and new: "new = (case jo_latest_era (or_journal_overlay db) of None \<Rightarrow> True | Some e \<Rightarrow> e < now)"
    and b2: "\<And>op. op \<in> set b2 \<Longrightarrow> (\<exists>k. op_key op = hash_key k) \<or> op_key op = journal_key R now 0"
    and gone: "apply_ops b2 (apply_ops b1 c) 0 (journal_key R now 0) = None"
    and db': "jo_latest_era (or_journal_overlay db') = (if new then Some now else jo_latest_era (or_journal_overlay db))"
  shows "latest_ok R (apply_ops b2 (apply_ops b1 c) 0) db'"
proof -
  have jl: "journal_key R e 0 \<noteq> LATEST_ERA_KEY" for e by (rule journal_key_not_era) simp
  have jh: "journal_key R e 0 \<noteq> hash_key k" for e k by (rule journal_key_not_hash) simp
  have b2l: "apply_ops b2 m 0 LATEST_ERA_KEY = m 0 LATEST_ERA_KEY" for m
    using b2 jl by (intro apply_ops_other) (metis era_key_not_hash(2))
  have b2j: "apply_ops b2 m 0 (journal_key R e 0) = m 0 (journal_key R e 0)" if "e \<noteq> now" for m e
    using b2 jh that journal_key_inject by (intro apply_ops_other) metis
  show ?thesis
  proof (cases new)
    case True
    then show ?thesis using jl [of now] gone by (simp add: latest_ok_def db' b2l) (simp add: b1)
  next
    case False
    then obtain e where e: "jo_latest_era (or_journal_overlay db) = Some e" using new by (auto split: option.splits)
    have c: "c 0 LATEST_ERA_KEY = Some (rlp_encode R (RNum (unat e)))" "c 0 (journal_key R e 0) = None" using l e by (simp_all add: latest_ok_def)
    have "apply_ops b2 (apply_ops b1 c) 0 (journal_key R e 0) = None"
    proof (cases "e = now")
      case False
      then show ?thesis using c(2) \<open>\<not> new\<close> by (simp add: b2j b1 journal_key_inject)
    qed (use gone in simp)
    moreover have "apply_ops b1 c 0 LATEST_ERA_KEY = c 0 LATEST_ERA_KEY" using \<open>\<not> new\<close> jl [of now] by (simp add: b1)
    ultimately show ?thesis using False c(1) by (simp add: latest_ok_def db' e b2l)
  qed
qed

lemma commit_effect_mpt:
  assumes inv: "mpt_inv R val K D t A" and W: "\<And>s ops. \<exists>s'. W s ops = Inr s' \<and> kv_get D s' = apply_ops ops (kv_get D s)"
  shows "\<exists>t'. MptDB_commit R H W t index = Inr t' \<and> mpt_inv R val K D t' (epoch_archive (or_transaction_overlay (mp_db t)) A) \<and>
    md_data (or_transaction_overlay (mp_db t')) = [] \<and> mp_root t' = mp_root t"
proof -
  let ?db = "mp_db t" and ?now = "word_of_nat index :: u64" and ?bid = "epoch_hash H index" and ?c = "kv_get D (mp_backing t)"
  let ?tx = "or_transaction_overlay ?db"
  have i: "or_inv val K plain_kvdb ?c ?db A" "tx_ok val K ?tx" "set (drained_removes (md_data ?tx)) \<subseteq> K"
    "jo_journal (or_journal_overlay ?db) = []" "or_column ?db = 0" "mp_journal_epoch t = 0" "mp_print_root_period t \<noteq> Some 0" "latest_ok R (?c 0) ?db"
    using inv by (simp_all add: mpt_inv_def or_inv_contents)
  obtain n b1 db1 where j: "OverlayRecentDB_journal_under R ?db [] ?now ?bid = (n, b1, db1)" by (metis prod_cases3)
  note f = journal_under_fields [OF j i(4), unfolded i(5)]
  let ?e = "\<lparr>je_id = ?bid, je_insertions = map fst (tx_inserts (md_data ?tx)), je_deletions = drained_removes (md_data ?tx)\<rparr>"
  have fit: "\<And>k. k \<in> K \<Longrightarrow> journal_count (jo_journal (or_journal_overlay ?db)) k + 1 < 2 ^ 31" "journal_index ?db ?now < 2 ^ 64"
    by (simp_all add: i(4) journal_count_def journal_index_def)
  let ?c1 = "apply_ops b1 ?c"
  have g1: "kv_get plain_kvdb ?c1 = apply_ops b1 (kv_get plain_kvdb ?c)" by (simp add: plain_kvdb_def)
  note ju = journal_under_effect [OF i(1,2) fit j g1]
  have es: "map_of (jo_journal (or_journal_overlay db1)) ?now = Some [?e]" by (simp add: f(1))
  have ci: "canon_inserts ?bid [?e] = map fst (tx_inserts (md_data ?tx))" "canon_removes ?bid [?e] = drained_removes (md_data ?tx)"
    by (simp_all add: canon_inserts_def canon_removes_def)
  have disj: "set (canon_inserts ?bid [?e]) \<inter> set (canon_removes ?bid [?e]) = {}"
    using drained_removes_distinct [of ?tx] tx_inserts_ok(3) [OF i(2)] i(2) by (auto simp: ci tx_ok_def)
  have del: "AList.delete ?now (jo_journal (or_journal_overlay db1)) = []" by (simp add: f(1))
  have arch: "or_archive_after ?bid [?e] (journal_count []) A = epoch_archive ?tx A"
    using tx_inserts_ok(3) [OF i(2)] by (auto simp: or_archive_after_def ci epoch_archive_def journal_count_def)
  have sub: "set (canon_removes ?bid [?e]) \<subseteq> K" using i(3) by (simp add: ci)
  obtain n2 b2 db2 where m: "OverlayRecentDB_mark_canonical R db1 b1 ?now ?bid = Inr (n2, b1 @ b2, db2)" "jo_journal (or_journal_overlay db2) = []"
    "or_transaction_overlay db2 = or_transaction_overlay db1" "or_column db2 = or_column db1"
    "jo_latest_era (or_journal_overlay db2) = jo_latest_era (or_journal_overlay db1)"
    "\<And>op. op \<in> set b2 \<Longrightarrow> (\<exists>k. op_key op = hash_key k) \<or> op_key op = journal_key R ?now 0"
    "\<And>s'. kv_get plain_kvdb s' = apply_ops b2 (kv_get plain_kvdb ?c1) \<Longrightarrow> or_inv val K plain_kvdb s' db2 (epoch_archive ?tx A) \<and>
       kv_get plain_kvdb s' 0 (journal_key R ?now 0) = None"
    using mark_canonical_effect_or [OF ju(1) es _ ju(3) sub disj, of b1] by (auto simp: del arch f(2))
  have eff: "or_inv val K plain_kvdb (apply_ops b2 ?c1) db2 (epoch_archive ?tx A)" "apply_ops b2 ?c1 0 (journal_key R ?now 0) = None"
    using m(7) [of "apply_ops b2 ?c1"] by (simp_all add: plain_kvdb_def)
  obtain s' where s': "W (mp_backing t) (b1 @ b2) = Inr s'" "kv_get D s' = apply_ops b2 ?c1" using W [of "mp_backing t" "b1 @ b2"] by auto
  let ?t = "t\<lparr>mp_epoch := index, mp_backing := s', mp_db := OverlayRecentDB_flush db2\<rparr>"
  have com: "MptDB_commit R H W t index = Inr ?t" using j m(1) s'(1) i(6,7) by (simp add: MptDB_commit_def ensure_def)
  obtain x where x: "b1 = Insert 0 (journal_key R ?now 0) x # (if case jo_latest_era (or_journal_overlay ?db) of None \<Rightarrow> True | Some e \<Rightarrow> e < ?now
      then [Insert 0 LATEST_ERA_KEY (rlp_encode R (RNum (unat ?now)))] else [])" using f(4) by blast
  have "latest_ok R (apply_ops b2 ?c1 0) db2" by (rule commit_latest [OF i(8) x refl m(6) eff(2)]) (simp_all add: m(5) f(3))
  moreover have "or_inv val K D s' db2 (epoch_archive ?tx A)" using eff(1) or_inv_contents [of val K D s'] by (simp add: s'(2))
  moreover have "or_transaction_overlay db2 = or_transaction_overlay db1" by (rule m(3))
  ultimately have "mpt_inv R val K D ?t (epoch_archive ?tx A)"
    using m(2,4) f(2) ju(2,6) i(6,7) or_inv_flush
    by (simp add: mpt_inv_def s'(2) latest_ok_def OverlayRecentDB_flush_def drained_removes_def or_inv_def Let_def)
  then show ?thesis using com ju(2) m(3) by (auto simp: OverlayRecentDB_flush_def)
qed

lemma journal_key_not_root: "journal_key R e 0 \<noteq> root_key"
  using key_length [of "unat e" 0] unat_bound [of e]
  by (auto simp: journal_key_def DatabaseKey_item_def root_key_def dest: arg_cong [where f = length])

end

section \<open>Opening again\<close>

lemma root_key_other [simp]: "hash_key k \<noteq> root_key" "LATEST_ERA_KEY \<noteq> root_key"
proof -
  have "length (hash_key k) \<noteq> length root_key" "length LATEST_ERA_KEY \<noteq> length root_key"
    by (simp_all add: hash_key_def root_key_def LATEST_ERA_KEY_def)
  then show "hash_key k \<noteq> root_key" "LATEST_ERA_KEY \<noteq> root_key" by metis+
qed

lemma open_without_journal:
  assumes "rlp R" "latest_ok R (kv_get D s 0) db"
  shows "OverlayRecentDB_new R H D s 0 = Some (Inr \<lparr>or_transaction_overlay = new_memory_db R H,
    or_journal_overlay = (empty_overlay R H)\<lparr>jo_latest_era := jo_latest_era (or_journal_overlay db)\<rparr>, or_read_cache = Map.empty, or_column = 0\<rparr>)"
proof (cases "jo_latest_era (or_journal_overlay db)")
  case None
  then show ?thesis using assms(2)
    by (simp add: OverlayRecentDB_new_def read_overlay_def read_latest_era_def latest_ok_def empty_overlay_def)
next
  case (Some e)
  have l: "kv_get D s 0 LATEST_ERA_KEY = Some (rlp_encode R (RNum (unat e)))" "kv_get D s 0 (journal_key R e 0) = None"
    using assms(2) Some by (simp_all add: latest_ok_def)
  have "read_latest_era R D s 0 = Inr (Some e)" using rlp.decode_u64 [OF assms(1), of e] l(1) by (simp add: read_latest_era_def)
  moreover have "read_overlay_loop R D s 0 e jo = Some (Inr jo)" for jo
    by (subst read_overlay_loop.simps) (simp add: read_overlay_era.simps l(2))
  ultimately show ?thesis using Some by (simp add: OverlayRecentDB_new_def read_overlay_def)
qed

lemma fresh_or_inv:
  assumes "keys_ok (H (rlp_null R)) (rlp_null R) val K" and "\<forall>k\<in>K. kv_get D s 0 (hash_key k) = (if k \<in> A then Some (val k) else None)"
  shows "or_inv val K D s \<lparr>or_transaction_overlay = new_memory_db R H, or_journal_overlay = (empty_overlay R H)\<lparr>jo_latest_era := e\<rparr>,
    or_read_cache = Map.empty, or_column = 0\<rparr> A"
  using assms by (simp add: or_inv_def Let_def empty_overlay_def hist_ok_def journal_count_def data_size_def new_memory_db_def from_null_node_def md_ok_def)

lemma hash_view_reads:
  assumes "mpt_inv R val K D t A" "md_data (or_transaction_overlay (mp_db t)) = []" "k \<in> K"
  shows "hash_view D t k = (if k \<in> A then Some (val k) else None)"
proof -
  have i: "or_inv val K D (mp_backing t) (mp_db t) A" "tx_ok val K (or_transaction_overlay (mp_db t))" "jo_journal (or_journal_overlay (mp_db t)) = []"
    using assms(1) by (simp_all add: mpt_inv_def)
  have "hash_view D t k = (if in_tx (or_transaction_overlay (mp_db t)) k \<or> 0 < journal_count (jo_journal (or_journal_overlay (mp_db t))) k \<or> k \<in> A
      then Some (val k) else None)" unfolding hash_view_def by (rule get_reads [OF i(1,2) assms(3)])
  then show ?thesis by (simp add: i(3) journal_count_def in_tx_def assms(2))
qed

section \<open>The properties\<close>

text \<open>C16. A commit of the Merkle Patricia trie storage: over a store whose writes succeed, it journals the epoch
  and makes it canonical in one batch, does not fail, and leaves the changes of the epoch in the
  archive, an empty transaction overlay and no journal; exactly the keys of the archive are read, with their values.\<close>

theorem mpt_commit_archives:
  assumes "rlp R" and "mpt_inv R val K D t A" and "\<And>s ops. \<exists>s'. W s ops = Inr s' \<and> kv_get D s' = apply_ops ops (kv_get D s)"
  shows "\<exists>t'. MptDB_commit R H W t index = Inr t' \<and> mpt_inv R val K D t' (epoch_archive (or_transaction_overlay (mp_db t)) A) \<and>
    mp_root t' = mp_root t \<and> md_data (or_transaction_overlay (mp_db t')) = [] \<and>
    (\<forall>k\<in>K. hash_view D t' k = (if k \<in> epoch_archive (or_transaction_overlay (mp_db t)) A then Some (val k) else None))"
proof -
  obtain t' where t': "MptDB_commit R H W t index = Inr t'" "mpt_inv R val K D t' (epoch_archive (or_transaction_overlay (mp_db t)) A)"
    "md_data (or_transaction_overlay (mp_db t')) = []" "mp_root t' = mp_root t"
    using rlp.commit_effect_mpt [OF assms] by blast
  then show ?thesis using hash_view_reads [OF t'(2,3)] by blast
qed

text \<open>C17. Closing and opening: after a commit, \<open>flush_all\<close> writes the root under its own key, and opening the
  store finds this root, an empty journal and every key of the archive.\<close>

theorem mpt_reopens:
  assumes "rlp R" and "mpt_inv R val K D t A" and "md_data (or_transaction_overlay (mp_db t)) = []"
    and "\<And>s ops. \<exists>s'. W s ops = Inr s' \<and> kv_get D s' = apply_ops ops (kv_get D s)"
    and "keys_ok (H (rlp_null R)) (rlp_null R) val K" and "\<forall>h. to_keyed_vec h = hash_key h" and "0 < opt_report_epoch opts"
  shows "\<exists>t' t''. MptDB_flush_all R H to_keyed_vec W t = Inr t' \<and> MptDB_new T R H D opts (mp_backing t') = Some (Inr t'') \<and>
    mp_root t'' = mp_root t \<and> mpt_inv R val K D t'' A \<and> (\<forall>k\<in>K. hash_view D t'' k = hash_view D t k)"
proof -
  let ?op = "Insert 0 root_key (hash_key (mp_root t))"
  obtain s' where s': "W (mp_backing t) [?op] = Inr s'" "kv_get D s' = apply_ops [?op] (kv_get D (mp_backing t))" using assms(4) by blast
  have i: "or_inv val K D (mp_backing t) (mp_db t) A" "or_column (mp_db t) = 0" "mp_journal_epoch t = 0"
    "latest_ok R (kv_get D (mp_backing t) 0) (mp_db t)" using assms(2) by (simp_all add: mpt_inv_def)
  let ?t' = "t\<lparr>mp_backing := s', mp_db := OverlayRecentDB_flush (mp_db t)\<rparr>"
  have fl: "MptDB_flush_all R H to_keyed_vec W t = Inr ?t'" using s'(1) i(3) assms(6) by (simp add: MptDB_flush_all_def)
  have l: "latest_ok R (kv_get D s' 0) (mp_db t)"
    using i(4) rlp.journal_key_not_root [OF assms(1)] by (simp add: latest_ok_def s'(2) split: option.splits)
  let ?db = "\<lparr>or_transaction_overlay = new_memory_db R H,
    or_journal_overlay = (empty_overlay R H)\<lparr>jo_latest_era := jo_latest_era (or_journal_overlay (mp_db t))\<rparr>, or_read_cache = Map.empty, or_column = 0\<rparr>"
  let ?p = "if opt_print_root opts then Some (opt_report_epoch opts) else None"
  let ?t'' = "\<lparr>mp_backing = s', mp_db = ?db, mp_root = mp_root t, mp_epoch = 0, mp_print_root_period = ?p, mp_journal_epoch = 0\<rparr>"
  have r: "H256_from_slice (hash_key (mp_root t)) = Inr (mp_root t)"
    by (simp add: H256_from_slice_def hash_key_def from_be_to_be)
  have new: "MptDB_new T R H D opts s' = Some (Inr ?t'')"
    using open_without_journal [OF assms(1) l, of H] r by (simp add: MptDB_new_def raw_get_def s'(2))
  have disk: "\<forall>k\<in>K. kv_get D s' 0 (hash_key k) = (if k \<in> A then Some (val k) else None)"
    using i(1,2) by (simp add: or_inv_def Let_def s'(2))
  have inv: "mpt_inv R val K D ?t'' A"
    using fresh_or_inv [where H = H and R = R and D = D and s = s' and A = A and e = "jo_latest_era (or_journal_overlay (mp_db t))", OF assms(5) disk] l assms(7)
    by (simp add: mpt_inv_def latest_ok_def empty_overlay_def new_memory_db_def from_null_node_def tx_ok_def md_ok_def drained_removes_def)
  have e: "md_data (or_transaction_overlay (mp_db ?t'')) = []" by (simp add: new_memory_db_def from_null_node_def)
  have "hash_view D ?t'' k = hash_view D t k" if "k \<in> K" for k
    using hash_view_reads [OF inv e that] hash_view_reads [OF assms(2,3) that] by simp
  then show ?thesis using fl new inv by (intro exI [of _ ?t'] exI [of _ ?t'']) simp
qed

section \<open>Witnesses\<close>

text \<open>An empty store, an insertion in the overlay, and the same after a commit.\<close>

definition plain_write :: "contents \<Rightarrow> DBOp list \<Rightarrow> contents result" where
  "plain_write s ops = Inr (apply_ops ops s)"

definition demo_mpt :: "contents MptDB" where
  "demo_mpt = \<lparr>mp_backing = (\<lambda>_ _. None), mp_db = or_fresh, mp_root = 7, mp_epoch = 0, mp_print_root_period = None, mp_journal_epoch = 0\<rparr>"

lemma plain_write_ok: "\<exists>s'. plain_write s ops = Inr s' \<and> kv_get plain_kvdb s' = apply_ops ops (kv_get plain_kvdb s)"
  by (simp add: plain_write_def plain_kvdb_def)

lemma demo_mpt_inv: "mpt_inv unary_rlp (\<lambda>_. [1, 2]) {2} plain_kvdb demo_mpt {}"
  using or_fresh_inv
  by (simp add: mpt_inv_def demo_mpt_def latest_ok_def or_fresh_def empty_overlay_def plain_kvdb_def drained_removes_def demo_entries)

lemma demo_archive: "epoch_archive (or_transaction_overlay (mp_db demo_mpt)) {} = {2}"
  by (auto simp: epoch_archive_def demo_mpt_def or_fresh_def in_tx_def demo_entries drained_removes_def pos_sint)

theorem mpt_commit_archives_witness:
  "\<exists>t'. MptDB_commit unary_rlp toy_hash plain_write demo_mpt 4 = Inr t' \<and> hash_view plain_kvdb t' 2 = Some [1, 2]"
  using mpt_commit_archives [OF unary.rlp_axioms demo_mpt_inv plain_write_ok, of toy_hash 4] by (auto simp: demo_archive)

definition closed_mpt :: "contents MptDB" where
  "closed_mpt = \<lparr>mp_backing = (\<lambda>_ _. None)(0 := [hash_key 2 \<mapsto> [1, 2]]), mp_db = or_fresh\<lparr>or_transaction_overlay := new_memory_db unary_rlp toy_hash\<rparr>,
     mp_root = 7, mp_epoch = 0, mp_print_root_period = None, mp_journal_epoch = 0\<rparr>"

definition demo_mpt_options :: Options where
  "demo_mpt_options = \<lparr>opt_algorithm = MPT, opt_backend = InMemoryDB, opt_total_keys = 3, opt_seed = 64, opt_cache_size = 1500, opt_max_time = None, opt_max_epoch = None,
     opt_report_epoch = 2, opt_profile_epoch = 100, opt_epoch_size = 2, opt_report_dir = None, opt_db_dir = [], opt_trace_dir = [],
     opt_real_trace = False, opt_no_stat = False, opt_stat_mem = False, opt_no_warmup = False, opt_print_root = True,
     opt_warmup_to = None, opt_warmup_from = None, opt_shards = None\<rparr>"

lemma closed_mpt_inv: "mpt_inv unary_rlp (\<lambda>_. [1, 2]) {2} plain_kvdb closed_mpt {2}"
  using or_keys_ok
  by (simp add: mpt_inv_def closed_mpt_def latest_ok_def or_fresh_def empty_overlay_def plain_kvdb_def drained_removes_def or_inv_def Let_def
      hist_ok_def journal_count_def data_size_def or_demo_nulls md_ok_def tx_ok_def eq_commute [of LATEST_ERA_KEY])

definition demo_trie :: trie_ops where
  "demo_trie = \<lparr>tr_get = (\<lambda>view root key. Inr ([HGet root], view root)), tr_insert = (\<lambda>view root key value. Inr ([HInsert value], root)), tr_null_root = 0\<rparr>"

theorem mpt_reopens_witness:
  "\<exists>t' t''. MptDB_flush_all unary_rlp toy_hash hash_key plain_write closed_mpt = Inr t' \<and>
     MptDB_new demo_trie unary_rlp toy_hash plain_kvdb demo_mpt_options (mp_backing t') = Some (Inr t'') \<and> mp_root t'' = 7 \<and> hash_view plain_kvdb t'' 2 = Some [1, 2]"
proof -
  have e: "md_data (or_transaction_overlay (mp_db closed_mpt)) = []" by (simp add: closed_mpt_def or_demo_nulls)
  have h: "hash_view plain_kvdb closed_mpt 2 = Some [1, 2]" using hash_view_reads [OF closed_mpt_inv e, of 2] by simp
  have o: "0 < opt_report_epoch demo_mpt_options" by (simp add: demo_mpt_options_def)
  have r: "mp_root closed_mpt = 7" by (simp add: closed_mpt_def)
  show ?thesis
    using mpt_reopens [where W = plain_write and H = toy_hash and to_keyed_vec = hash_key and opts = demo_mpt_options and T = demo_trie,
        OF unary.rlp_axioms closed_mpt_inv e plain_write_ok or_keys_ok _ o] by (auto simp: h r)
qed

end
