(* ===== verification/BenchTasks.thy ===== *)
theory BenchTasks
  imports BenchOptions
begin

text \<open>
  The workloads of the benchmark, \<open>asb-tasks\<close>: random reads each followed by a write of the same key
  (\<open>read_then_write.rs\<close>), and a recorded trace (\<open>real_trace.rs\<close>).  A workload is an
  iterator over epochs, given by its state and the function \<open>next\<close>.  The random generator
  of the rand crate and the decoder of the postcard crate are arguments.  Both kinds of tasks
  are produced by a thread and passed over a channel; the sequence that arrives is modelled, and
  the panic of the consumer when nothing arrives within a second is not.
\<close>

datatype Event = Read bytes | Write bytes bytes

type_synonym Events = "Event list"

type_synonym 'i next_event = "'i \<Rightarrow> (Events option \<times> 'i) result"

section \<open>Random reads and writes\<close>

record 'g rng_ops =
  rg_seed :: "u64 \<Rightarrow> 'g"
  rg_range :: "'g \<Rightarrow> nat \<Rightarrow> nat \<times> 'g"
  rg_bytes :: "'g \<Rightarrow> bytes \<times> 'g"
  rg_shuffle :: "nat list \<Rightarrow> 'g \<Rightarrow> nat list \<times> 'g"

record ReadThenWrite =
  rtw_total_keys :: nat
  rtw_batch_size :: nat
  rtw_seed :: u64

definition ReadThenWrite_new :: "Options \<Rightarrow> ReadThenWrite" where
  "ReadThenWrite_new opts = \<lparr>rtw_total_keys = opt_total_keys opts, rtw_batch_size = opt_epoch_size opts, rtw_seed = opt_seed opts\<rparr>"

definition task_hash :: "(bytes \<Rightarrow> h256) \<Rightarrow> bytes \<Rightarrow> bytes" where
  "task_hash keccak input = to_be_bytes 32 (keccak input)"

definition index_key :: "(bytes \<Rightarrow> h256) \<Rightarrow> nat \<Rightarrow> bytes" where
  "index_key keccak i = task_hash keccak (to_be_bytes 8 (word_of_nat i :: u64))"

text \<open>The loop over the events of an epoch; drawing from an empty range panics.\<close>

primrec rtw_events :: "'g rng_ops \<Rightarrow> (bytes \<Rightarrow> h256) \<Rightarrow> nat \<Rightarrow> nat \<Rightarrow> 'g \<Rightarrow> (Events \<times> 'g) result" where
  "rtw_events G keccak total_keys 0 random = Inr ([], random)"
| "rtw_events G keccak total_keys (Suc n) random =
     (if total_keys = 0 then Inl (Panic ''gen_range called with low >= high'')
      else let (integer, random1) = rg_range G random total_keys; key = index_key keccak integer; (value, random2) = rg_bytes G random1
      in and_then (rtw_events G keccak total_keys n random2) (\<lambda>(es, random3). Inr (Read key # Write key value # es, random3)))"

definition generator_start :: "'g rng_ops \<Rightarrow> ReadThenWrite \<Rightarrow> 'g" where
  "generator_start G params = rg_seed G (rtw_seed params + 1)"

definition generator_next :: "'g rng_ops \<Rightarrow> (bytes \<Rightarrow> h256) \<Rightarrow> ReadThenWrite \<Rightarrow> 'g next_event" where
  "generator_next G keccak params random = and_then (rtw_events G keccak (rtw_total_keys params) (rtw_batch_size params) random) (\<lambda>(es, random'). Inr (Some es, random'))"

text \<open>The warm-up writes every key once, in batches taken from the end of a shuffled list.\<close>

record 'g WarmupIter =
  wi_random :: 'g
  wi_keys :: "nat list"

primrec pop_keys :: "nat \<Rightarrow> nat list \<Rightarrow> nat list \<times> nat list" where
  "pop_keys 0 keys = ([], keys)"
| "pop_keys (Suc n) keys = (if keys = [] then ([], []) else case pop_keys n (butlast keys) of (ts, rest) \<Rightarrow> (last keys # ts, rest))"

primrec warmup_events :: "'g rng_ops \<Rightarrow> (bytes \<Rightarrow> h256) \<Rightarrow> nat list \<Rightarrow> 'g \<Rightarrow> Events \<times> 'g" where
  "warmup_events G keccak [] random = ([], random)"
| "warmup_events G keccak (k # ks) random = (let (value, random1) = rg_bytes G random; (es, random2) = warmup_events G keccak ks random1
     in (Write (index_key keccak k) value # es, random2))"

definition warmup_next :: "'g rng_ops \<Rightarrow> (bytes \<Rightarrow> h256) \<Rightarrow> ReadThenWrite \<Rightarrow> 'g WarmupIter next_event" where
  "warmup_next G keccak params it = (case pop_keys (rtw_batch_size params) (wi_keys it) of (task_keys, keys) \<Rightarrow>
     if task_keys = [] then Inr (None, it\<lparr>wi_keys := keys\<rparr>)
     else case warmup_events G keccak task_keys (wi_random it) of (es, random) \<Rightarrow> Inr (Some es, \<lparr>wi_random = random, wi_keys = keys\<rparr>))"

definition ReadThenWrite_warmup :: "'g rng_ops \<Rightarrow> ReadThenWrite \<Rightarrow> 'g WarmupIter" where
  "ReadThenWrite_warmup G params = (case rg_shuffle G [0..<rtw_total_keys params] (rg_seed G (rtw_seed params + 1)) of (keys, random) \<Rightarrow>
     \<lparr>wi_random = random, wi_keys = keys\<rparr>)"

section \<open>Recorded traces\<close>

datatype ExperimentTask = ETRead bytes | ETWrite bytes bytes

definition task_event :: "ExperimentTask \<Rightarrow> Event" where
  "task_event io = (case io of ETRead key \<Rightarrow> Read key | ETWrite key value \<Rightarrow> Write key value)"

text \<open>The producer thread reads file after file; when one does not decode it panics, and the channel closes.\<close>

primrec load_groups :: "(bytes \<Rightarrow> ExperimentTask list list result) \<Rightarrow> bytes list \<Rightarrow> Events list list" where
  "load_groups from_bytes [] = []"
| "load_groups from_bytes (f # fs) = (case from_bytes f of Inl e \<Rightarrow> [] | Inr block_group \<Rightarrow> map (map task_event) block_group # load_groups from_bytes fs)"

record TaskProducer =
  tp_receiver :: "Events list list"
  tp_group_size :: nat
  tp_events :: "Events list"

definition TaskProducer_new :: "(bytes \<Rightarrow> ExperimentTask list list result) \<Rightarrow> bytes list \<Rightarrow> nat \<Rightarrow> TaskProducer" where
  "TaskProducer_new from_bytes files group_size = \<lparr>tp_receiver = load_groups from_bytes files, tp_group_size = group_size, tp_events = []\<rparr>"

definition pop_events :: "TaskProducer next_event" where
  "pop_events tp = (if tp_events tp = [] then Inl (Panic ''called Option::unwrap() on a None value'')
     else Inr (Some (last (tp_events tp)), tp\<lparr>tp_events := butlast (tp_events tp)\<rparr>))"

definition pick_next :: "TaskProducer next_event" where
  "pick_next tp = (if tp_events tp = [] then (case tp_receiver tp of
       [] \<Rightarrow> Inr (None, tp)
     | events # rest \<Rightarrow> pop_events (tp\<lparr>tp_events := events, tp_receiver := rest\<rparr>))
     else pop_events tp)"

primrec pick_group :: "nat \<Rightarrow> Events \<Rightarrow> TaskProducer \<Rightarrow> (Events \<times> TaskProducer) result" where
  "pick_group 0 grouped_events tp = Inr (grouped_events, tp)"
| "pick_group (Suc n) grouped_events tp = and_then (pick_next tp) (\<lambda>(r, tp'). pick_group n (grouped_events @ (case r of Some events \<Rightarrow> events | None \<Rightarrow> [])) tp')"

definition TaskProducer_next :: "TaskProducer next_event" where
  "TaskProducer_next tp = (if tp_group_size tp = 1 then pick_next tp
     else and_then (pick_group (tp_group_size tp) [] tp) (\<lambda>(grouped_events, tp'). Inr (if grouped_events = [] then None else Some grouped_events, tp')))"

record RealTrace =
  rt_files :: "bytes list"
  rt_init_tasks :: "(bytes \<times> bytes) list option"
  rt_group_size :: nat

definition RealTrace_new :: "Options \<Rightarrow> bytes list \<Rightarrow> (bytes \<times> bytes) list result \<Rightarrow> bool \<Rightarrow> RealTrace result" where
  "RealTrace_new opt files init load_warmup =
     and_then (if load_warmup then and_then init (\<lambda>ts. Inr (Some ts)) else Inr None) (\<lambda>init_tasks.
       Inr \<lparr>rt_files = files, rt_init_tasks = init_tasks,
            rt_group_size = (if opt_algorithm opt = RAIN \<or> opt_algorithm opt = MPT then 50 else 1)\<rparr>)"

fun chunks :: "nat \<Rightarrow> 'a list \<Rightarrow> 'a list list" where
  "chunks n xs = (if n = 0 \<or> xs = [] then [] else take n xs # chunks n (drop n xs))"

definition RealTrace_warmup :: "RealTrace \<Rightarrow> Events list result" where
  "RealTrace_warmup rt = and_then (unwrap_option (rt_init_tasks rt)) (\<lambda>ts. Inr (map (map (\<lambda>(key, value). Write key value)) (chunks 1000 ts)))"

definition RealTrace_tasks :: "(bytes \<Rightarrow> ExperimentTask list list result) \<Rightarrow> RealTrace \<Rightarrow> TaskProducer" where
  "RealTrace_tasks from_bytes rt = TaskProducer_new from_bytes (rt_files rt) (rt_group_size rt)"

text \<open>Iterating over a list.\<close>

definition list_next :: "Events list next_event" where
  "list_next xs = (case xs of [] \<Rightarrow> Inr (None, []) | x # rest \<Rightarrow> Inr (Some x, rest))"

section \<open>What an iterator yields\<close>

inductive yields :: "'i next_event \<Rightarrow> 'i \<Rightarrow> Events list \<Rightarrow> 'i \<Rightarrow> bool" for nxt where
  yields_none: "yields nxt it [] it"
| yields_some: "nxt it = Inr (Some x, it1) \<Longrightarrow> yields nxt it1 xs it2 \<Longrightarrow> yields nxt it (x # xs) it2"

inductive_simps yields_Nil: "yields nxt it [] it'"
inductive_simps yields_Cons: "yields nxt it (x # xs) it'"

definition finished :: "'i next_event \<Rightarrow> 'i \<Rightarrow> bool" where
  "finished nxt it \<longleftrightarrow> (\<exists>it'. nxt it = Inr (None, it'))"

lemma yields_append: "yields nxt it xs it1 \<Longrightarrow> yields nxt it1 ys it2 \<Longrightarrow> yields nxt it (xs @ ys) it2"
  by (induction rule: yields.induct) (auto intro: yields.intros)

lemma list_yields: "yields list_next xs xs []"
  by (induction xs) (auto simp: list_next_def intro: yields.intros)

text \<open>The laws of the random generator: a draw from a range is in the range, random
  arrays have 32 bytes, and shuffling permutes.\<close>

locale rng =
  fixes G :: "'g rng_ops"
  assumes range_bound: "0 < n \<Longrightarrow> fst (rg_range G g n) < n"
    and bytes_length: "length (fst (rg_bytes G g)) = 32"
    and shuffle_set: "set (fst (rg_shuffle G xs g)) = set xs"

definition counting_rng :: "nat rng_ops" where
  "counting_rng = \<lparr>rg_seed = unat, rg_range = (\<lambda>g n. (g mod n, Suc g)), rg_bytes = (\<lambda>g. (replicate 32 (word_of_nat g), Suc g)),
     rg_shuffle = (\<lambda>xs g. (rotate g xs, Suc g))\<rparr>"

interpretation counting: rng counting_rng
  by unfold_locales (simp_all add: counting_rng_def)

text \<open>The keys an event list reads, the writes it makes.\<close>

primrec event_read :: "Event \<Rightarrow> bytes list" where
  "event_read (Read k) = [k]"
| "event_read (Write k v) = []"

primrec event_write :: "Event \<Rightarrow> (bytes \<times> bytes) list" where
  "event_write (Read k) = []"
| "event_write (Write k v) = [(k, v)]"

definition reads_of :: "Events \<Rightarrow> bytes list" where
  "reads_of es = concat (map event_read es)"

definition writes_of :: "Events \<Rightarrow> (bytes \<times> bytes) list" where
  "writes_of es = concat (map event_write es)"

lemma reads_of_simps [simp]: "reads_of [] = []" "reads_of (Read k # es) = k # reads_of es" "reads_of (Write k v # es) = reads_of es"
    "reads_of (xs @ ys) = reads_of xs @ reads_of ys"
  by (simp_all add: reads_of_def)

lemma writes_of_simps [simp]: "writes_of [] = []" "writes_of (Read k # es) = writes_of es" "writes_of (Write k v # es) = (k, v) # writes_of es"
    "writes_of (xs @ ys) = writes_of xs @ writes_of ys"
  by (simp_all add: writes_of_def)

lemma pop_keys_spec: "pop_keys n ks = (take n (rev ks), rev (drop n (rev ks)))"
proof (induction n arbitrary: ks)
  case (Suc n)
  show ?case
  proof (cases ks rule: rev_cases)
    case (snoc ys y)
    then show ?thesis by (simp add: Suc)
  qed simp
qed simp

lemma index_key_length [simp]: "length (index_key keccak i) = 32"
  by (simp add: index_key_def task_hash_def)

context rng
begin

lemma rtw_events_ok:
  assumes "0 < N"
  shows "\<exists>es g'. rtw_events G keccak N n g = Inr (es, g') \<and> length (reads_of es) = n \<and> length (writes_of es) = n \<and>
    set (reads_of es) \<subseteq> index_key keccak ` {..<N} \<and> fst ` set (writes_of es) = set (reads_of es) \<and>
    (\<forall>(k, v) \<in> set (writes_of es). length k = 32 \<and> length v = 32)"
proof (induction n arbitrary: g)
  case (Suc n)
  obtain i g1 where i: "rg_range G g N = (i, g1)" by fastforce
  obtain v g2 where v: "rg_bytes G g1 = (v, g2)" by fastforce
  have "i < N" "length v = 32" using range_bound [OF assms, of g] bytes_length [of g1] by (simp_all add: i v)
  moreover obtain es g3 where "rtw_events G keccak N n g2 = Inr (es, g3)" "length (reads_of es) = n" "length (writes_of es) = n"
    "set (reads_of es) \<subseteq> index_key keccak ` {..<N}" "fst ` set (writes_of es) = set (reads_of es)"
    "\<forall>(k, v) \<in> set (writes_of es). length k = 32 \<and> length v = 32" using Suc by blast
  ultimately show ?case using assms by (simp add: i v Let_def)
qed simp

lemma warmup_events_ok:
  "case warmup_events G keccak ks g of (es, g') \<Rightarrow> reads_of es = [] \<and> map fst (writes_of es) = map (index_key keccak) ks \<and>
     (\<forall>(k, v) \<in> set (writes_of es). length k = 32 \<and> length v = 32)"
proof (induction ks arbitrary: g)
  case (Cons k ks)
  obtain v g1 where v: "rg_bytes G g = (v, g1)" by fastforce
  have "length v = 32" using bytes_length [of g] by (simp add: v)
  then show ?case using Cons [of g1] by (auto simp: v split: prod.splits)
qed simp

lemma warmup_yields:
  assumes "0 < rtw_batch_size p"
  shows "\<exists>xs it'. yields (warmup_next G keccak p) it xs it' \<and> finished (warmup_next G keccak p) it' \<and>
    reads_of (concat xs) = [] \<and> map fst (writes_of (concat xs)) = map (index_key keccak) (rev (wi_keys it)) \<and>
    (\<forall>(k, v) \<in> set (writes_of (concat xs)). length k = 32 \<and> length v = 32)"
proof (induction "length (wi_keys it)" arbitrary: it rule: less_induct)
  case less
  let ?n = "rtw_batch_size p"
  show ?case
  proof (cases "wi_keys it = []")
    case True
    then have "finished (warmup_next G keccak p) it" by (simp add: finished_def warmup_next_def pop_keys_spec)
    then show ?thesis using True by (intro exI [of _ "[]"] exI [of _ it]) (auto intro: yields.intros)
  next
    case False
    obtain es g where e: "warmup_events G keccak (take ?n (rev (wi_keys it))) (wi_random it) = (es, g)" by fastforce
    let ?it = "\<lparr>wi_random = g, wi_keys = rev (drop ?n (rev (wi_keys it)))\<rparr>"
    have nx: "warmup_next G keccak p it = Inr (Some es, ?it)" using False assms e by (simp add: warmup_next_def pop_keys_spec)
    have "length (wi_keys ?it) < length (wi_keys it)" using False assms by (cases "wi_keys it") auto
    from less [OF this] obtain xs it' where xs: "yields (warmup_next G keccak p) ?it xs it'" "finished (warmup_next G keccak p) it'"
      "reads_of (concat xs) = []" "map fst (writes_of (concat xs)) = map (index_key keccak) (drop ?n (rev (wi_keys it)))"
      "\<forall>(k, v) \<in> set (writes_of (concat xs)). length k = 32 \<and> length v = 32" by auto
    have es: "reads_of es = []" "map fst (writes_of es) = map (index_key keccak) (take ?n (rev (wi_keys it)))"
      "\<forall>(k, v) \<in> set (writes_of es). length k = 32 \<and> length v = 32"
      using warmup_events_ok [of keccak "take ?n (rev (wi_keys it))" "wi_random it"] by (simp_all add: e)
    have "map fst (writes_of (concat (es # xs))) = map (index_key keccak) (rev (wi_keys it))"
      using es(2) xs(4) by (simp del: map_map) (metis append_take_drop_id map_append)
    then show ?thesis using yields_some [OF nx xs(1)] xs es by (intro exI [of _ "es # xs"] exI [of _ it']) auto
  qed
qed

lemma generator_yields:
  assumes "0 < rtw_total_keys p"
  shows "\<exists>xs it'. yields (generator_next G keccak p) g xs it' \<and> length xs = n \<and>
    (\<forall>es \<in> set xs. length (reads_of es) = rtw_batch_size p \<and> length (writes_of es) = rtw_batch_size p \<and>
       set (reads_of es) \<subseteq> index_key keccak ` {..<rtw_total_keys p} \<and> (\<forall>(k, v) \<in> set (writes_of es). length k = 32 \<and> length v = 32))"
proof (induction n arbitrary: g)
  case 0
  then show ?case by (intro exI [of _ "[]"] exI [of _ g]) (auto intro: yields.intros)
next
  case (Suc n)
  obtain es g1 where e: "rtw_events G keccak (rtw_total_keys p) (rtw_batch_size p) g = Inr (es, g1)"
    "length (reads_of es) = rtw_batch_size p" "length (writes_of es) = rtw_batch_size p"
    "set (reads_of es) \<subseteq> index_key keccak ` {..<rtw_total_keys p}" "\<forall>(k, v) \<in> set (writes_of es). length k = 32 \<and> length v = 32"
    using rtw_events_ok [OF assms] by blast
  have nx: "generator_next G keccak p g = Inr (Some es, g1)" by (simp add: generator_next_def e)
  obtain xs it' where "yields (generator_next G keccak p) g1 xs it'" "length xs = n"
    "\<forall>es \<in> set xs. length (reads_of es) = rtw_batch_size p \<and> length (writes_of es) = rtw_batch_size p \<and>
       set (reads_of es) \<subseteq> index_key keccak ` {..<rtw_total_keys p} \<and> (\<forall>(k, v) \<in> set (writes_of es). length k = 32 \<and> length v = 32)"
    using Suc by blast
  then show ?case using yields_some [where nxt = "generator_next G keccak p", OF nx] e by (intro exI [of _ "es # xs"] exI [of _ it']) auto
qed

end

section \<open>The order of a trace\<close>

lemma trace_yields:
  assumes "\<forall>g \<in> set rs. g \<noteq> []" "tp_group_size tp = 1" "tp_receiver tp = rs"
  shows "\<exists>tp'. yields TaskProducer_next tp (rev (tp_events tp) @ concat (map rev rs)) tp' \<and> finished TaskProducer_next tp'"
  using assms
proof (induction "length (tp_events tp) + length (concat rs)" arbitrary: tp rs rule: less_induct)
  case less
  show ?case
  proof (cases "tp_events tp" rule: rev_cases)
    case Nil
    show ?thesis
    proof (cases rs)
      case Nil
      then have "finished TaskProducer_next tp" using less.prems \<open>tp_events tp = []\<close> by (simp add: finished_def TaskProducer_next_def pick_next_def)
      then show ?thesis using Nil \<open>tp_events tp = []\<close> by (auto intro: yields.intros)
    next
      case (Cons es rest)
      obtain ys y where es: "es = ys @ [y]" using less.prems(1) Cons by (metis list.set_intros(1) rev_exhaust)
      let ?tp = "tp\<lparr>tp_events := ys, tp_receiver := rest\<rparr>"
      have nx: "TaskProducer_next tp = Inr (Some y, ?tp)"
        using less.prems \<open>tp_events tp = []\<close> Cons es by (simp add: TaskProducer_next_def pick_next_def pop_events_def)
      have "length (tp_events ?tp) + length (concat rest) < length (tp_events tp) + length (concat rs)"
        using es Cons \<open>tp_events tp = []\<close> by simp
      from less.hyps [OF this] less.prems Cons obtain tp' where
        "yields TaskProducer_next ?tp (rev ys @ concat (map rev rest)) tp'" "finished TaskProducer_next tp'" by auto
      from yields_some [where nxt = TaskProducer_next, OF nx this(1)] this(2) show ?thesis
        using Cons \<open>tp_events tp = []\<close> es by auto
    qed
  next
    case (snoc ys y)
    let ?tp = "tp\<lparr>tp_events := ys\<rparr>"
    have nx: "TaskProducer_next tp = Inr (Some y, ?tp)" using less.prems(2) snoc by (simp add: TaskProducer_next_def pick_next_def pop_events_def)
    have "length (tp_events ?tp) + length (concat rs) < length (tp_events tp) + length (concat rs)" using snoc by simp
    from less.hyps [OF this] less.prems obtain tp' where
      "yields TaskProducer_next ?tp (rev ys @ concat (map rev rs)) tp'" "finished TaskProducer_next tp'" by auto
    from yields_some [where nxt = TaskProducer_next, OF nx this(1)] this(2) show ?thesis using snoc by auto
  qed
qed

text \<open>C38. A recorded trace is replayed file after file, and within a file from the last block to the first, when
  no file is empty and epochs are not grouped.\<close>

theorem trace_replays_files_backwards:
  assumes "\<forall>g \<in> set (load_groups from_bytes files). g \<noteq> []"
  shows "\<exists>tp'. yields TaskProducer_next (TaskProducer_new from_bytes files 1) (concat (map rev (load_groups from_bytes files))) tp' \<and>
    finished TaskProducer_next tp'"
  using trace_yields [OF assms, of "TaskProducer_new from_bytes files 1"] by (simp add: TaskProducer_new_def)

text \<open>One file with two blocks.\<close>

theorem trace_replays_files_backwards_witness:
  "\<exists>tp'. yields TaskProducer_next (TaskProducer_new (\<lambda>_. Inr [[ETRead [1]], [ETWrite [1] [2]]]) [[]] 1) [[Write [1] [2]], [Read [1]]] tp'"
  using trace_replays_files_backwards [of "\<lambda>_. Inr [[ETRead [1]], [ETWrite [1] [2]]]" "[[]]"] by (auto simp: task_event_def)

end
