(* ===== verification/BenchRun.thy ===== *)
theory BenchRun
  imports AuthTrait BenchTasks
begin

text \<open>
  The driver of the benchmark, \<open>benchmarks/src/run.rs\<close>, over the interface of a storage, and the counters
  of the reporter, \<open>asb-profile/src/counter.rs\<close>.  Time is an argument: \<open>elapsed\<close> gives the
  seconds since the start at the check of every epoch.  What is printed is kept as a list of
  reports with their counts; times, memory, profiles and the text of the lines are not modelled.
  Copying the warm-up is an argument that tells which attempts succeed.
\<close>

section \<open>The reporter\<close>

record report =
  rp_epoch :: nat
  rp_read_count :: nat
  rp_write_count :: nat
  rp_empty_reads :: nat

record Reporter =
  total_read_count :: nat
  total_write_count :: nat
  round_start_read_count :: nat
  round_start_write_count :: nat
  empty_reads :: nat
  printed :: "report list"

definition Reporter_new :: Reporter where
  "Reporter_new = \<lparr>total_read_count = 0, total_write_count = 0, round_start_read_count = 0, round_start_write_count = 0, empty_reads = 0, printed = []\<rparr>"

definition notify_empty_read :: "Reporter \<Rightarrow> Reporter" where
  "notify_empty_read rep = rep\<lparr>empty_reads := empty_reads rep + 1\<rparr>"

definition remainder :: "nat \<Rightarrow> nat \<Rightarrow> nat result" where
  "remainder a b = (if b = 0 then Inl (Panic ''attempt to calculate the remainder with a divisor of zero'') else Inr (a mod b))"

definition notify_epoch :: "Options \<Rightarrow> nat \<Rightarrow> nat \<Rightarrow> nat \<Rightarrow> Reporter \<Rightarrow> Reporter result" where
  "notify_epoch opts epoch read_count write_count rep =
     (let rep1 = rep\<lparr>total_read_count := total_read_count rep + read_count, total_write_count := total_write_count rep + write_count\<rparr> in
      and_then (remainder (epoch + 1) (opt_report_epoch opts)) (\<lambda>r.
        if r \<noteq> 0 then Inr rep1
        else Inr (rep1\<lparr>printed := printed rep1 @ [\<lparr>rp_epoch = epoch + 1, rp_read_count = total_read_count rep1 - round_start_read_count rep1,
                      rp_write_count = total_write_count rep1 - round_start_write_count rep1, rp_empty_reads = empty_reads rep1\<rparr>],
                    empty_reads := 0, round_start_read_count := total_read_count rep1, round_start_write_count := total_write_count rep1\<rparr>)))"

section \<open>Warming up\<close>

fun warmup_writes :: "'s AuthDB \<Rightarrow> Events \<Rightarrow> 's \<Rightarrow> 's outcome" where
  "warmup_writes A [] db = Some (Inr db)"
| "warmup_writes A (Write key value # events) db = then_do (ad_set A db key value) (warmup_writes A events)"
| "warmup_writes A (Read key # events) db = warmup_writes A events db"

partial_function (option) warmup_loop ::
  "'s AuthDB \<Rightarrow> 'i next_event \<Rightarrow> Options \<Rightarrow> nat \<Rightarrow> 'i \<Rightarrow> 's \<Rightarrow> 's outcome" where
  "warmup_loop A nxt opts epoch it db = (case nxt it of
     Inl f \<Rightarrow> Some (Inl f)
   | Inr (r, it') \<Rightarrow> (case r of
       None \<Rightarrow> Some (Inr db)
     | Some events \<Rightarrow> then_do (warmup_writes A events db) (\<lambda>db1. then_do (ad_commit A db1 epoch) (\<lambda>db2.
         then_do (Some (remainder (epoch + 1) (opt_report_epoch opts))) (\<lambda>_. warmup_loop A nxt opts (epoch + 1) it' db2)))))"

definition warmup :: "'s AuthDB \<Rightarrow> 'i next_event \<Rightarrow> Options \<Rightarrow> 'i \<Rightarrow> 's \<Rightarrow> 's outcome" where
  "warmup A nxt opts tasks db = then_do (warmup_loop A nxt opts 0 tasks db) (ad_flush_all A)"

section \<open>Running\<close>

text \<open>One event: the storage, the counts of the epoch and the reporter.\<close>

fun run_event :: "'s AuthDB \<Rightarrow> Event \<Rightarrow> 's \<times> nat \<times> nat \<times> Reporter \<Rightarrow> ('s \<times> nat \<times> nat \<times> Reporter) outcome" where
  "run_event A (Read key) (db, read_count, write_count, rep) = then_do (ad_get A db key) (\<lambda>(ans, db').
     Some (Inr (db', read_count + 1, write_count, if ans = None then notify_empty_read rep else rep)))"
| "run_event A (Write key value) (db, read_count, write_count, rep) = then_do (ad_set A db key value) (\<lambda>db'.
     Some (Inr (db', read_count, write_count + 1, rep)))"

fun run_events :: "'s AuthDB \<Rightarrow> Events \<Rightarrow> 's \<times> nat \<times> nat \<times> Reporter \<Rightarrow> ('s \<times> nat \<times> nat \<times> Reporter) outcome" where
  "run_events A [] st = Some (Inr st)"
| "run_events A (event # events) st = then_do (run_event A event st) (run_events A events)"

definition run_epoch :: "'s AuthDB \<Rightarrow> Options \<Rightarrow> nat \<Rightarrow> Events \<Rightarrow> 's \<Rightarrow> Reporter \<Rightarrow> ('s \<times> Reporter) outcome" where
  "run_epoch A opts epoch events db rep =
     then_do (Some (remainder (epoch + 1) (opt_profile_epoch opts))) (\<lambda>_.
     then_do (run_events A events (db, 0, 0, rep)) (\<lambda>(db1, read_count, write_count, rep1).
     then_do (ad_commit A db1 epoch) (\<lambda>db2.
     then_do (Some (notify_epoch opts epoch read_count write_count rep1)) (\<lambda>rep2. Some (Inr (db2, rep2))))))"

definition out_of_time :: "Options \<Rightarrow> (nat \<Rightarrow> nat) \<Rightarrow> nat \<Rightarrow> bool" where
  "out_of_time opts elapsed epoch \<longleftrightarrow>
     (case opt_max_time opts of Some t \<Rightarrow> t | None \<Rightarrow> 2 ^ 64 - 1) \<le> elapsed epoch \<or>
     (case opt_max_epoch opts of Some e \<Rightarrow> e | None \<Rightarrow> 2 ^ 64 - 1) \<le> epoch + 1"

partial_function (option) run_loop ::
  "'s AuthDB \<Rightarrow> 'i next_event \<Rightarrow> Options \<Rightarrow> (nat \<Rightarrow> nat) \<Rightarrow> nat \<Rightarrow> 'i \<Rightarrow> 's \<Rightarrow> Reporter \<Rightarrow> ('s \<times> Reporter) outcome" where
  "run_loop A nxt opts elapsed epoch it db rep = (case nxt it of
     Inl f \<Rightarrow> Some (Inl f)
   | Inr (r, it') \<Rightarrow> (case r of
       None \<Rightarrow> Some (Inr (db, rep))
     | Some events \<Rightarrow> if out_of_time opts elapsed epoch then Some (Inr (db, rep))
         else then_do (run_epoch A opts epoch events db rep) (\<lambda>(db', rep'). run_loop A nxt opts elapsed (epoch + 1) it' db' rep')))"

text \<open>Copying the warm-up is tried ten times.\<close>

definition copy_warmup :: "(nat \<Rightarrow> bool) \<Rightarrow> unit result" where
  "copy_warmup copied = (if \<exists>i < 10. copied i then Inr () else Inl (Panic ''Retry limit exceeds!''))"

definition run_tasks ::
  "'s AuthDB \<Rightarrow> 'w next_event \<Rightarrow> 'w \<Rightarrow> 'i next_event \<Rightarrow> 'i \<Rightarrow> Options \<Rightarrow> (nat \<Rightarrow> nat) \<Rightarrow> (nat \<Rightarrow> bool) \<Rightarrow> 's \<Rightarrow> ('s \<times> Reporter) outcome" where
  "run_tasks A wnext witer tnext titer opts elapsed copied db =
     then_do (if opt_warmup_from opts = None \<and> \<not> opt_no_warmup opts then warmup A wnext opts witer db else Some (Inr db)) (\<lambda>db1.
       if opt_warmup_from opts = None \<and> \<not> opt_no_warmup opts \<and> warmup_to opts \<noteq> None
       then then_do (Some (copy_warmup copied)) (\<lambda>_. Some (Inr (db1, Reporter_new)))
       else run_loop A tnext opts elapsed 0 titer db1 Reporter_new)"

end
