(* ===== verification/BenchProofs.thy ===== *)
theory BenchProofs
  imports BenchRun
begin

text \<open>
  What the driver does with a storage that keeps the contract: a warm-up stores what its tasks write,
  a run keeps the map of all writes, counts the events, and reports an empty read only
  for a key that is not stored.  Together with the workload of random reads and writes: a
  benchmark that warms up its keys has no empty reads.
\<close>

section \<open>Writes and counts\<close>

definition written :: "Events \<Rightarrow> content" where
  "written es = map_of (rev (writes_of es))"

lemma written_simps [simp]: "written [] = Map.empty" "written (Read k # es) = written es"
    "w(k \<mapsto> v) ++ written es = w ++ written (Write k v # es)" "(w ++ written xs) ++ written ys = w ++ written (xs @ ys)"
proof -
  show "w(k \<mapsto> v) ++ written es = w ++ written (Write k v # es)"
    by (rule ext) (auto simp: written_def map_add_def split: option.splits)
qed (simp_all add: written_def)

lemma dom_written: "dom (written es) = fst ` set (writes_of es)"
  by (simp add: written_def dom_map_of_conv_image_fst)

text \<open>All empty reads, reported or not, and the invariant that the reports add up.\<close>

definition all_empty_reads :: "Reporter \<Rightarrow> nat" where
  "all_empty_reads rep = sum_list (map rp_empty_reads (printed rep)) + empty_reads rep"

definition rep_ok :: "Reporter \<Rightarrow> bool" where
  "rep_ok rep \<longleftrightarrow> sum_list (map rp_read_count (printed rep)) = round_start_read_count rep \<and> round_start_read_count rep \<le> total_read_count rep \<and>
     sum_list (map rp_write_count (printed rep)) = round_start_write_count rep \<and> round_start_write_count rep \<le> total_write_count rep"

lemma notify_epoch_ok:
  assumes "0 < opt_report_epoch opts" "rep_ok rep"
  shows "\<exists>rep'. notify_epoch opts epoch rc wc rep = Inr rep' \<and> rep_ok rep' \<and> all_empty_reads rep' = all_empty_reads rep \<and>
    total_read_count rep' = total_read_count rep + rc \<and> total_write_count rep' = total_write_count rep + wc"
  using assms by (auto simp: notify_epoch_def Let_def remainder_def rep_ok_def all_empty_reads_def)

definition events_ok :: "(bytes \<Rightarrow> bool) \<Rightarrow> (bytes \<Rightarrow> bool) \<Rightarrow> Events \<Rightarrow> bool" where
  "events_ok key_ok value_ok es \<longleftrightarrow> (\<forall>k \<in> set (reads_of es). key_ok k) \<and> (\<forall>(k, v) \<in> set (writes_of es). key_ok k \<and> value_ok v)"

lemma events_ok_simps [simp]: "events_ok p q []" "events_ok p q (Read k # es) \<longleftrightarrow> p k \<and> events_ok p q es"
    "events_ok p q (Write k v # es) \<longleftrightarrow> p k \<and> q v \<and> events_ok p q es" "events_ok p q (xs @ ys) \<longleftrightarrow> events_ok p q xs \<and> events_ok p q ys"
  by (auto simp: events_ok_def)

section \<open>Events of an epoch\<close>

context auth_epoch
begin

lemma warmup_writes_ok:
  "rel db m w \<Longrightarrow> events_ok key_ok value_ok es \<Longrightarrow> \<exists>db'. warmup_writes A es db = Some (Inr db') \<and> rel db' m (w ++ written es)"
proof (induction es arbitrary: db w)
  case (Cons e es)
  show ?case
  proof (cases e)
    case (Write k v)
    then obtain db1 where "ad_set A db k v = Some (Inr db1)" "rel db1 m (w(k \<mapsto> v))" using set_writes Cons.prems by fastforce
    then show ?thesis using Cons.IH [of db1 "w(k \<mapsto> v)"] Cons.prems(2) Write by (simp del: fun_upd_apply)
  qed (use Cons in simp)
qed simp

lemma run_events_ok:
  "rel db m w \<Longrightarrow> events_ok key_ok value_ok es \<Longrightarrow>
   \<exists>db' e. run_events A es (db, rc, wc, rep) =
       Some (Inr (db', rc + length (reads_of es), wc + length (writes_of es), rep\<lparr>empty_reads := empty_reads rep + e\<rparr>)) \<and>
     rel db' m (w ++ written es) \<and> (set (reads_of es) \<subseteq> dom m \<longrightarrow> e = 0)"
proof (induction es arbitrary: db w rc wc rep)
  case (Cons ev es)
  show ?case
  proof (cases ev)
    case (Read k)
    then obtain r db1 where g: "ad_get A db k = Some (Inr (r, db1))" "rel db1 m w" "answers m w k r" using get_answers Cons.prems by fastforce
    let ?rep = "if r = None then notify_empty_read rep else rep"
    have es: "events_ok key_ok value_ok es" using Cons.prems(2) Read by simp
    obtain db' e where i: "run_events A es (db1, rc + 1, wc, ?rep) =
        Some (Inr (db', rc + 1 + length (reads_of es), wc + length (writes_of es), ?rep\<lparr>empty_reads := empty_reads ?rep + e\<rparr>))"
      "rel db' m (w ++ written es)" "set (reads_of es) \<subseteq> dom m \<longrightarrow> e = 0" using Cons.IH [OF g(2) es] by blast
    have "?rep\<lparr>empty_reads := empty_reads ?rep + e\<rparr> = rep\<lparr>empty_reads := empty_reads rep + (if r = None then Suc e else e)\<rparr>"
      by (simp add: notify_empty_read_def)
    moreover have "set (reads_of (ev # es)) \<subseteq> dom m \<longrightarrow> (if r = None then Suc e else e) = 0"
      using i(3) answers_present [OF g(3)] Read by auto
    ultimately show ?thesis using i(1,2) g(1) Read by (intro exI [of _ db'] exI [of _ "if r = None then Suc e else e"]) simp
  next
    case (Write k v)
    then obtain db1 where s: "ad_set A db k v = Some (Inr db1)" "rel db1 m (w(k \<mapsto> v))" using set_writes Cons.prems by fastforce
    have es: "events_ok key_ok value_ok es" using Cons.prems(2) Write by simp
    obtain db' e where "run_events A es (db1, rc, wc + 1, rep) =
        Some (Inr (db', rc + length (reads_of es), wc + 1 + length (writes_of es), rep\<lparr>empty_reads := empty_reads rep + e\<rparr>))"
      "rel db' m (w(k \<mapsto> v) ++ written es)" "set (reads_of es) \<subseteq> dom m \<longrightarrow> e = 0" using Cons.IH [OF s(2) es] by blast
    then show ?thesis using s(1) Write by (intro exI [of _ db'] exI [of _ e]) (simp del: fun_upd_apply)
  qed
qed (auto intro!: exI [of _ 0])

end

section \<open>Warming up a storage whose commits may fail\<close>

context authdb
begin

text \<open>A warm-up returns, and if no commit failed, the storage holds what was written.\<close>

lemma warmup_loop_returns:
  assumes "yields nxt it xs it'" "finished nxt it'" "rel db m Map.empty" "events_ok key_ok value_ok (concat xs)"
  shows "\<exists>r. warmup_loop A nxt opts epoch it db = Some r \<and> (\<forall>db'. r = Inr db' \<longrightarrow> rel db' (m ++ written (concat xs)) Map.empty)"
  using assms
proof (induction arbitrary: epoch db m rule: yields.induct)
  case (yields_none it)
  then show ?case by (subst warmup_loop.simps) (auto simp: finished_def)
next
  case (yields_some it x it1 xs it2)
  obtain db1 where 1: "warmup_writes A x db = Some (Inr db1)" "rel db1 m (Map.empty ++ written x)"
    using warmup_writes_ok [OF yields_some.prems(2), of x] yields_some.prems(3) by auto
  obtain r where r: "ad_commit A db1 epoch = Some r" using commit_returns [OF 1(2)] by auto
  have eq: "warmup_loop A nxt opts epoch it db = then_do (Some r) (\<lambda>db2.
      then_do (Some (remainder (epoch + 1) (opt_report_epoch opts))) (\<lambda>_. warmup_loop A nxt opts (epoch + 1) it1 db2))"
    by (subst warmup_loop.simps) (simp add: yields_some.hyps(1) 1(1) r)
  show ?case
  proof (cases "\<exists>db2 i. r = Inr db2 \<and> remainder (epoch + 1) (opt_report_epoch opts) = Inr i")
    case True
    then obtain db2 i where 2: "r = Inr db2" "remainder (epoch + 1) (opt_report_epoch opts) = Inr i" by blast
    have "rel db2 (m ++ written x) Map.empty" using commit_moves [OF 1(2)] r 2(1) by auto
    then obtain r' where "warmup_loop A nxt opts (epoch + 1) it1 db2 = Some r'"
      "\<forall>db'. r' = Inr db' \<longrightarrow> rel db' (m ++ written x ++ written (concat xs)) Map.empty"
      using yields_some.IH [OF yields_some.prems(1), of db2 "m ++ written x" "epoch + 1"] yields_some.prems(3) by auto
    then show ?thesis unfolding eq using 2(2) by (simp add: 2(1))
  next
    case False
    then show ?thesis unfolding eq by (cases r; cases "remainder (epoch + 1) (opt_report_epoch opts)") auto
  qed
qed

lemma warmup_returns:
  assumes "yields nxt it xs it'" "finished nxt it'" "rel db m Map.empty" "events_ok key_ok value_ok (concat xs)"
  shows "\<exists>r. warmup A nxt opts it db = Some r \<and> (\<forall>db'. r = Inr db' \<longrightarrow> rel db' (m ++ written (concat xs)) Map.empty)"
proof -
  obtain r where r: "warmup_loop A nxt opts 0 it db = Some r" "\<And>db'. r = Inr db' \<Longrightarrow> rel db' (m ++ written (concat xs)) Map.empty"
    using warmup_loop_returns [OF assms] by blast
  show ?thesis
  proof (cases r)
    case (Inr db1)
    then show ?thesis using r flush_returns [OF r(2)] flush_keeps [OF r(2)] by (auto simp: warmup_def)
  qed (simp add: warmup_def r(1))
qed

end

section \<open>Warming up and running\<close>

context authdb_total
begin

lemma commit_ok: "rel s m w \<Longrightarrow> \<exists>s'. ad_commit A s i = Some (Inr s') \<and> rel s' (m ++ w) Map.empty"
  using commit_succeeds commit_moves by blast

lemma warmup_loop_ok:
  assumes "yields nxt it xs it'" "finished nxt it'" "rel db m Map.empty" "events_ok key_ok value_ok (concat xs)" "0 < opt_report_epoch opts"
  shows "\<exists>db'. warmup_loop A nxt opts epoch it db = Some (Inr db') \<and> rel db' (m ++ written (concat xs)) Map.empty"
  using assms
proof (induction arbitrary: epoch db m rule: yields.induct)
  case (yields_none it)
  then show ?case by (subst warmup_loop.simps) (auto simp: finished_def)
next
  case (yields_some it x it1 xs it2)
  obtain db1 where 1: "warmup_writes A x db = Some (Inr db1)" "rel db1 m (Map.empty ++ written x)"
    using warmup_writes_ok [OF yields_some.prems(2), of x] yields_some.prems(3) by auto
  obtain db2 where 2: "ad_commit A db1 epoch = Some (Inr db2)" "rel db2 (m ++ written x) Map.empty" using commit_ok [OF 1(2)] by auto
  obtain db' where "warmup_loop A nxt opts (epoch + 1) it1 db2 = Some (Inr db')" "rel db' (m ++ written x ++ written (concat xs)) Map.empty"
    using yields_some.IH [OF yields_some.prems(1) 2(2), of "epoch + 1"] yields_some.prems(3,4) by auto
  then show ?case using 1(1) 2(1) yields_some.hyps(1) yields_some.prems(4)
    by (subst warmup_loop.simps) (simp add: remainder_def)
qed

lemma warmup_ok:
  assumes "yields nxt it xs it'" "finished nxt it'" "rel db m Map.empty" "events_ok key_ok value_ok (concat xs)" "0 < opt_report_epoch opts"
  shows "\<exists>db'. warmup A nxt opts it db = Some (Inr db') \<and> rel db' (m ++ written (concat xs)) Map.empty"
  using warmup_loop_ok [OF assms, of 0] flush_succeeds flush_keeps unfolding warmup_def by fastforce

lemma run_epoch_ok:
  assumes "rel db m Map.empty" "events_ok key_ok value_ok es" "0 < opt_report_epoch opts" "0 < opt_profile_epoch opts" "rep_ok rep"
  shows "\<exists>db' rep'. run_epoch A opts epoch es db rep = Some (Inr (db', rep')) \<and> rel db' (m ++ written es) Map.empty \<and> rep_ok rep' \<and>
    total_read_count rep' = total_read_count rep + length (reads_of es) \<and> total_write_count rep' = total_write_count rep + length (writes_of es) \<and>
    (set (reads_of es) \<subseteq> dom m \<longrightarrow> all_empty_reads rep' = all_empty_reads rep)"
proof -
  obtain db1 e where 1: "run_events A es (db, 0, 0, rep) =
      Some (Inr (db1, 0 + length (reads_of es), 0 + length (writes_of es), rep\<lparr>empty_reads := empty_reads rep + e\<rparr>))"
    "rel db1 m (Map.empty ++ written es)" "set (reads_of es) \<subseteq> dom m \<longrightarrow> e = 0" using run_events_ok [OF assms(1,2)] by blast
  obtain db2 where 2: "ad_commit A db1 epoch = Some (Inr db2)" "rel db2 (m ++ written es) Map.empty" using commit_ok [OF 1(2)] by auto
  have "rep_ok (rep\<lparr>empty_reads := empty_reads rep + e\<rparr>)" using assms(5) by (simp add: rep_ok_def)
  from notify_epoch_ok [OF assms(3) this] obtain rep' where
    3: "notify_epoch opts epoch (length (reads_of es)) (length (writes_of es)) (rep\<lparr>empty_reads := empty_reads rep + e\<rparr>) = Inr rep'"
    "rep_ok rep'" "all_empty_reads rep' = all_empty_reads rep + e" "total_read_count rep' = total_read_count rep + length (reads_of es)"
    "total_write_count rep' = total_write_count rep + length (writes_of es)" by (force simp: all_empty_reads_def)
  then show ?thesis using 1 2 assms(4) by (intro exI [of _ db2] exI [of _ rep']) (simp add: run_epoch_def remainder_def)
qed

lemma run_loop_ok:
  assumes "yields nxt it xs it'" "finished nxt it' \<or> (\<exists>es it2. nxt it' = Inr (Some es, it2)) \<and> out_of_time opts elapsed (epoch + length xs)"
    "\<forall>i < length xs. \<not> out_of_time opts elapsed (epoch + i)" "rel db m Map.empty" "events_ok key_ok value_ok (concat xs)"
    "0 < opt_report_epoch opts" "0 < opt_profile_epoch opts" "rep_ok rep"
  shows "\<exists>db' rep'. run_loop A nxt opts elapsed epoch it db rep = Some (Inr (db', rep')) \<and> rel db' (m ++ written (concat xs)) Map.empty \<and> rep_ok rep' \<and>
    total_read_count rep' = total_read_count rep + length (reads_of (concat xs)) \<and>
    total_write_count rep' = total_write_count rep + length (writes_of (concat xs)) \<and>
    (set (reads_of (concat xs)) \<subseteq> dom m \<longrightarrow> all_empty_reads rep' = all_empty_reads rep)"
  using assms
proof (induction arbitrary: epoch db m rep rule: yields.induct)
  case (yields_none it)
  then show ?case by (subst run_loop.simps) (auto simp: finished_def)
next
  case (yields_some it x it1 xs it2)
  have "rep_ok rep" "events_ok key_ok value_ok x" using yields_some.prems by simp_all
  then obtain db1 rep1 where 1: "run_epoch A opts epoch x db rep = Some (Inr (db1, rep1))" "rel db1 (m ++ written x) Map.empty" "rep_ok rep1"
    "total_read_count rep1 = total_read_count rep + length (reads_of x)" "total_write_count rep1 = total_write_count rep + length (writes_of x)"
    "set (reads_of x) \<subseteq> dom m \<longrightarrow> all_empty_reads rep1 = all_empty_reads rep"
    using run_epoch_ok [OF yields_some.prems(3)] yields_some.prems(5,6) by blast
  have t: "\<not> out_of_time opts elapsed epoch" using yields_some.prems(2) by (metis add_0_right length_Cons zero_less_Suc)
  have later: "\<forall>i < length xs. \<not> out_of_time opts elapsed (epoch + 1 + i)" using yields_some.prems(2) by auto
  obtain db' rep' where 2: "run_loop A nxt opts elapsed (epoch + 1) it1 db1 rep1 = Some (Inr (db', rep'))"
    "rel db' (m ++ written x ++ written (concat xs)) Map.empty" "rep_ok rep'"
    "total_read_count rep' = total_read_count rep1 + length (reads_of (concat xs))"
    "total_write_count rep' = total_write_count rep1 + length (writes_of (concat xs))"
    "set (reads_of (concat xs)) \<subseteq> dom (m ++ written x) \<longrightarrow> all_empty_reads rep' = all_empty_reads rep1"
    using yields_some.IH [of "epoch + 1" db1 "m ++ written x" rep1] later 1(2,3) yields_some.prems(1,4,5,6) by auto
  have "set (reads_of (concat (x # xs))) \<subseteq> dom m \<longrightarrow> all_empty_reads rep' = all_empty_reads rep" using 1(6) 2(6) by auto
  then show ?case using 1 2 t yields_some.hyps(1)
    by (subst run_loop.simps) (simp add: add.assoc)
qed

end

section \<open>The property\<close>

lemma writes_concat: "set (writes_of (concat xs)) = (\<Union>es \<in> set xs. set (writes_of es))"
  by (induction xs) auto

lemma reads_concat: "set (reads_of (concat xs)) = (\<Union>es \<in> set xs. set (reads_of es))"
  by (induction xs) auto

lemma count_concat:
  "(\<forall>es \<in> set xs. length (reads_of es) = n \<and> length (writes_of es) = n) \<Longrightarrow>
   length (reads_of (concat xs)) = length xs * n \<and> length (writes_of (concat xs)) = length xs * n"
  by (induction xs) auto

text \<open>C14. A benchmark of random reads and writes: over a storage that keeps the contract and whose
  commits succeed, with a workload that warms up its keys, the driver returns after
  \<open>max_epoch - 1\<close> epochs without an empty read; it has counted one read and one write per
  event, its reports add up to these counts, and the storage holds the writes of the warm-up
  overwritten by those of the run: the events of the warm-up are all that its generator
  yields, and those of the run the first \<open>max_epoch - 1\<close> epochs of the generator of the workload.\<close>

theorem benchmark_finds_its_keys:
  assumes "authdb_total A rel key_ok value_ok" and "rng G" and "rel db m Map.empty"
    and "\<forall>bs. length bs = 32 \<longrightarrow> key_ok bs \<and> value_ok bs"
    and "opt_warmup_from opts = None" and "opt_warmup_to opts = None" and "\<not> opt_no_warmup opts"
    and "opt_max_epoch opts = Some e" and "opt_max_time opts = None" and "\<forall>i. elapsed i < 2 ^ 64 - 1"
    and "0 < opt_total_keys opts" and "0 < opt_epoch_size opts" and "0 < opt_report_epoch opts" and "0 < opt_profile_epoch opts"
    and "p = ReadThenWrite_new opts"
  shows "\<exists>db' rep ws wi ts ti. yields (warmup_next G keccak p) (ReadThenWrite_warmup G p) ws wi \<and> finished (warmup_next G keccak p) wi \<and>
    yields (generator_next G keccak p) (generator_start G p) ts ti \<and> length ts = e - 1 \<and>
    run_tasks A (warmup_next G keccak p) (ReadThenWrite_warmup G p) (generator_next G keccak p) (generator_start G p)
      opts elapsed copied db = Some (Inr (db', rep)) \<and>
    all_empty_reads rep = 0 \<and> rep_ok rep \<and>
    total_read_count rep = (e - 1) * opt_epoch_size opts \<and> total_write_count rep = (e - 1) * opt_epoch_size opts \<and>
    rel db' (m ++ written (concat ws) ++ written (concat ts)) Map.empty \<and> dom (written (concat ws)) = index_key keccak ` {..<opt_total_keys opts}"
proof -
  have p: "rtw_total_keys p = opt_total_keys opts" "rtw_batch_size p = opt_epoch_size opts" using assms(15) by (simp_all add: ReadThenWrite_new_def)
  have pos: "0 < rtw_batch_size p" "0 < rtw_total_keys p" using p assms(11,12) by simp_all
  let ?wn = "warmup_next G keccak p" and ?tn = "generator_next G keccak p"
  let ?wi = "ReadThenWrite_warmup G p"
  obtain ws wi' where w: "yields ?wn ?wi ws wi'" "finished ?wn wi'" "reads_of (concat ws) = []"
    "map fst (writes_of (concat ws)) = map (index_key keccak) (rev (wi_keys ?wi))"
    "\<forall>(k, v) \<in> set (writes_of (concat ws)). length k = 32 \<and> length v = 32"
    using rng.warmup_yields [OF assms(2) pos(1), of keccak ?wi] by auto
  have keys: "set (wi_keys ?wi) = {..<opt_total_keys opts}"
    using rng.shuffle_set [OF assms(2), of "[0..<rtw_total_keys p]" "rg_seed G (rtw_seed p + 1)"]
    by (auto simp: ReadThenWrite_warmup_def p split: prod.splits)
  have dw: "dom (written (concat ws)) = index_key keccak ` {..<opt_total_keys opts}"
    using arg_cong [OF w(4), of set] by (simp add: dom_written keys)
  have "events_ok key_ok value_ok (concat ws)" using w(3,5) assms(4) by (auto simp: events_ok_def)
  from authdb_total.warmup_ok [OF assms(1) w(1,2) assms(3) this assms(13)] obtain db1 where
    1: "warmup A ?wn opts ?wi db = Some (Inr db1)" "rel db1 (m ++ written (concat ws)) Map.empty" by auto
  obtain ts ti where t: "yields ?tn (generator_start G p) ts ti" "length ts = e - 1"
    "\<And>es. es \<in> set ts \<Longrightarrow> length (reads_of es) = rtw_batch_size p \<and> length (writes_of es) = rtw_batch_size p \<and>
       set (reads_of es) \<subseteq> index_key keccak ` {..<rtw_total_keys p} \<and> (\<forall>(k, v) \<in> set (writes_of es). length k = 32 \<and> length v = 32)"
    using rng.generator_yields [OF assms(2) pos(2), of keccak "generator_start G p" "e - 1"] by blast
  have more: "\<exists>es it. ?tn ti = Inr (Some es, it)"
    using rng.rtw_events_ok [OF assms(2) pos(2), of keccak "rtw_batch_size p" ti] by (auto simp: generator_next_def)
  have stop: "out_of_time opts elapsed i \<longleftrightarrow> e \<le> i + 1" for i
    using assms(8,9,10) by (simp add: out_of_time_def not_le [symmetric])
  have reads: "set (reads_of (concat ts)) \<subseteq> index_key keccak ` {..<opt_total_keys opts}"
    using t(3) p by (fastforce simp: reads_concat)
  have ok: "events_ok key_ok value_ok (concat ts)"
  proof -
    have "key_ok k" if "k \<in> set (reads_of (concat ts))" for k using reads that assms(4) by auto
    moreover have "key_ok k \<and> value_ok v" if "(k, v) \<in> set (writes_of (concat ts))" for k v
      using that t(3) assms(4) by (fastforce simp: writes_concat)
    ultimately show ?thesis by (auto simp: events_ok_def)
  qed
  have cnt: "length (reads_of (concat ts)) = length ts * opt_epoch_size opts" "length (writes_of (concat ts)) = length ts * opt_epoch_size opts"
    using count_concat [of ts "opt_epoch_size opts"] t(3) p by simp_all
  obtain db' rep where 2: "run_loop A ?tn opts elapsed 0 (generator_start G p) db1 Reporter_new = Some (Inr (db', rep))"
    "rel db' (m ++ written (concat ws) ++ written (concat ts)) Map.empty" "rep_ok rep"
    "total_read_count rep = length ts * opt_epoch_size opts" "total_write_count rep = length ts * opt_epoch_size opts"
    "set (reads_of (concat ts)) \<subseteq> dom (m ++ written (concat ws)) \<longrightarrow> all_empty_reads rep = 0"
  proof -
    have z: "rep_ok Reporter_new" "total_read_count Reporter_new = 0" "total_write_count Reporter_new = 0" "all_empty_reads Reporter_new = 0"
      by (simp_all add: rep_ok_def Reporter_new_def all_empty_reads_def)
    have fin: "finished ?tn ti \<or> (\<exists>es it. ?tn ti = Inr (Some es, it)) \<and> out_of_time opts elapsed (0 + length ts)" using more t(2) stop by auto
    have go: "\<forall>i < length ts. \<not> out_of_time opts elapsed (0 + i)" using t(2) by (auto simp: stop)
    obtain db' rep where "run_loop A ?tn opts elapsed 0 (generator_start G p) db1 Reporter_new = Some (Inr (db', rep))"
      "rel db' (m ++ written (concat ws) ++ written (concat ts)) Map.empty" "rep_ok rep"
      "total_read_count rep = total_read_count Reporter_new + length (reads_of (concat ts))"
      "total_write_count rep = total_write_count Reporter_new + length (writes_of (concat ts))"
      "set (reads_of (concat ts)) \<subseteq> dom (m ++ written (concat ws)) \<longrightarrow> all_empty_reads rep = all_empty_reads Reporter_new"
      using authdb_total.run_loop_ok [OF assms(1) t(1) fin go 1(2) ok assms(13,14) z(1)] by (elim exE conjE) (rule that; assumption)
    then show thesis using that [of db' rep] by (simp add: z cnt)
  qed
  have "set (reads_of (concat ts)) \<subseteq> dom (m ++ written (concat ws))" using reads dw by auto
  then show ?thesis using 1(1) 2 dw assms(5,6,7) t(1,2) w(1,2)
    by (intro exI [of _ db'] exI [of _ rep] exI [of _ ws] exI [of _ wi'] exI [of _ ts] exI [of _ ti]) (simp add: run_tasks_def warmup_to_def)
qed

definition demo_options :: Options where
  "demo_options = \<lparr>opt_algorithm = RAW, opt_backend = InMemoryDB, opt_total_keys = 3, opt_seed = 64, opt_cache_size = 1500, opt_max_time = None, opt_max_epoch = Some 3,
     opt_report_epoch = 2, opt_profile_epoch = 100, opt_epoch_size = 2, opt_report_dir = None, opt_db_dir = [], opt_trace_dir = [],
     opt_real_trace = False, opt_no_stat = False, opt_stat_mem = False, opt_no_warmup = False, opt_print_root = False,
     opt_warmup_to = None, opt_warmup_from = None, opt_shards = None\<rparr>"

text \<open>The plain store with three keys and three epochs asked for: two epochs of two events are run.\<close>

theorem benchmark_finds_its_keys_witness:
  "\<exists>db' rep. run_tasks (raw_authdb plain_kvdb) (warmup_next counting_rng (\<lambda>_. 0) (ReadThenWrite_new demo_options))
      (ReadThenWrite_warmup counting_rng (ReadThenWrite_new demo_options)) (generator_next counting_rng (\<lambda>_. 0) (ReadThenWrite_new demo_options))
      (generator_start counting_rng (ReadThenWrite_new demo_options)) demo_options (\<lambda>_. 0) (\<lambda>_. True) (\<lambda>_ _. None) = Some (Inr (db', rep)) \<and>
    all_empty_reads rep = 0 \<and> total_read_count rep = 4"
proof -
  have r: "raw_rel plain_kvdb (\<lambda>_. True) (\<lambda>_ _. None) Map.empty Map.empty" by (simp add: raw_rel_def plain_kvdb_def)
  show ?thesis
    using benchmark_finds_its_keys [where A = "raw_authdb plain_kvdb" and rel = "raw_rel plain_kvdb (\<lambda>_. True)" and key_ok = "\<lambda>_. True" and value_ok = "\<lambda>_. True"
        and G = counting_rng and db = "\<lambda>_ _. None" and m = Map.empty and opts = demo_options and e = 3 and elapsed = "\<lambda>_. 0"
        and p = "ReadThenWrite_new demo_options" and keccak = "\<lambda>_. 0" and copied = "\<lambda>_. True"]
      raw_plain.authdb_total_axioms counting.rng_axioms r
    by (auto simp: demo_options_def)
qed

end
