(* ===== verification/SingleAmt.thy ===== *)
theory SingleAmt
  imports LvmtProofs AuthTrait BenchOptions
begin

unbundle bit_operations_syntax

text \<open>
  The storage on one multipoint tree, \<open>single_amt/mod.rs\<close> and its adapter \<open>asb-authdb/src/amt.rs\<close>: a
  tree of depth \<open>N\<close> whose leaves keep a value with its hash, indexed by the first bits of the key.
  The depths that are compiled in are 20 to 28.  The lemmas show that a commit can be opened again, and that
  every read and write panics, since the index copies \<open>(N + 7) / 8\<close> bytes into an array of eight.
\<close>

section \<open>Leaves and the configuration\<close>

record SingleNode =
  sn_data :: bytes
  sn_hash :: h256

definition SingleNode_default :: SingleNode where
  "SingleNode_default = \<lparr>sn_data = [], sn_hash = 0\<rparr>"

definition read_SingleNode :: "SerdeType \<Rightarrow> SingleNode reader" where
  "read_SingleNode ty bs = and_then (read_bytes ty bs) (\<lambda>(d, r). and_then (read_h256 ty r) (\<lambda>(h, r'). Inr (\<lparr>sn_data = d, sn_hash = h\<rparr>, r')))"

definition write_SingleNode :: "SerdeType \<Rightarrow> SingleNode writer" where
  "write_SingleNode ty n = write_bytes ty (sn_data n) @ write_h256 ty (sn_hash n)"

interpretation single_node_codec: codec write_SingleNode read_SingleNode "\<lambda>n. length (sn_data n) < 2 ^ 64"
  by unfold_locales (simp add: write_SingleNode_def read_SingleNode_def codec_simps)

text \<open>The bytes of the hash as four little-endian words, the last one cut to 30 bits.\<close>

definition SingleNode_as_fr_int :: "SingleNode \<Rightarrow> FrInt result" where
  "SingleNode_as_fr_int n = Inr (from_le_bytes (to_be_bytes 32 (sn_hash n)) AND 2 ^ 222 - 1)"

definition write_unit_name :: "SerdeType \<Rightarrow> unit writer" where
  "write_unit_name ty nm = []"

definition single_config :: "nat \<Rightarrow> 'g curve_bytes \<Rightarrow> FrInt \<Rightarrow> FrInt \<Rightarrow> (unit, SingleNode, 'g) AMTConfig" where
  "single_config N B R M = \<lparr>DEPTHS = N, name_write = write_unit_name,
     data_ty = \<lparr>v_read = read_SingleNode, v_write = write_SingleNode, v_default = SingleNode_default, l_position = FlattenArray_position\<rparr>,
     as_fr_int = SingleNode_as_fr_int, curve = B, fr_R = R, fr_modulus = M\<rparr>"

section \<open>AmtDB\<close>

record ('s, 'g, 'h) AmtDB =
  sa_world :: "'s world"
  sa_pp :: "('g, 'h) AMTParams"
  sa_root :: 'g
  sa_amt :: "(unit, SingleNode, 'g) AMTree"

definition AmtDB_new ::
  "'s kvdb_ops \<Rightarrow> (unit, SingleNode, 'g::ab_group_add) AMTConfig \<Rightarrow> 's world \<Rightarrow> ('g, 'h) AMTParams \<Rightarrow> (nat \<times> nat) option \<Rightarrow>
   ('s, 'g, 'h) AmtDB result" where
  "AmtDB_new D C w pp shard =
     and_then (case DBColumn_get D (store w) 0 ROOT_KEY of None \<Rightarrow> Inr 0 | Some x \<Rightarrow> unwrap_result (from_bytes_local (read_G1 (curve C)) x)) (\<lambda>root.
     and_then (case shard of None \<Rightarrow> Inr None
               | Some (depth, index) \<Rightarrow> and_then (NodeIndex_new (DEPTHS C) depth index) (\<lambda>n. Inr (Some n))) (\<lambda>shard_root.
       Inr \<lparr>sa_world = w, sa_pp = pp, sa_root = root, sa_amt = set_commitment (AMTree_new C () 0 shard_root) root\<rparr>))"

definition AmtDB_index :: "nat \<Rightarrow> bytes \<Rightarrow> nat result" where
  "AmtDB_index N key =
     (let bytes = (N + 7) div 8 in
      and_then (ensure (bytes \<le> length key) ''assertion failed: key.len() >= bytes'') (\<lambda>_.
      and_then (ensure (bytes = 8) ''source slice length does not match destination slice length'') (\<lambda>_.
        Inr (unat ((from_le_bytes (take bytes key) :: u64) AND 2 ^ N - 1)))))"

definition AmtDB_get ::
  "'s kvdb_ops \<Rightarrow> (unit, SingleNode, 'g) AMTConfig \<Rightarrow> ('s, 'g, 'h) AmtDB \<Rightarrow> bytes \<Rightarrow> (bytes option \<times> ('s, 'g, 'h) AmtDB) result" where
  "AmtDB_get D C s key =
     and_then (AmtDB_index (DEPTHS C) key) (\<lambda>index.
     and_then (AMTree_get D C (sa_world s) (sa_amt s) index) (\<lambda>(node, t).
       Inr (if sn_hash node = 0 then None else Some (sn_data node), s\<lparr>sa_amt := t\<rparr>)))"

text \<open>The new node is assigned through the guard, which is dropped at the end of the statement.\<close>

definition AmtDB_set ::
  "(bytes \<Rightarrow> h256) \<Rightarrow> 's kvdb_ops \<Rightarrow> (unit, SingleNode, 'g::ab_group_add) AMTConfig \<Rightarrow> ('s, 'g, 'h) AmtDB \<Rightarrow> bytes \<Rightarrow> bytes \<Rightarrow>
   ('s, 'g, 'h) AmtDB result" where
  "AmtDB_set keccak D C s key value =
     (let new_node = \<lparr>sn_data = value, sn_hash = keccak value\<rparr> in
      and_then (AmtDB_index (DEPTHS C) key) (\<lambda>index.
      and_then (write_versions D C (sa_world s) (sa_amt s) index) (\<lambda>(g, t).
      and_then (guard_drop D C (sa_world s) (sa_pp s) t (g\<lparr>guard_value := new_node\<rparr>)) (\<lambda>(t', pp).
        Inr (s\<lparr>sa_amt := t', sa_pp := pp\<rparr>)))))"

definition AmtDB_commit ::
  "'s kvdb_ops \<Rightarrow> (unit, SingleNode, 'g::ab_group_add) AMTConfig \<Rightarrow> ('s, 'g, 'h) AmtDB \<Rightarrow> ('g \<times> ('s, 'g, 'h) AmtDB) result" where
  "AmtDB_commit D C s =
     and_then (AMTree_flush D C (sa_world s) (sa_amt s)) (\<lambda>(root, w, t).
     and_then (unwrap_result (kv_flush D (kv_write_buffered D (store w) [Insert 0 ROOT_KEY (to_bytes_local (write_G1 (curve C)) root)]))) (\<lambda>st.
       Inr (root, s\<lparr>sa_world := w\<lparr>store := st\<rparr>, sa_root := root, sa_amt := t\<rparr>)))"

section \<open>The adapter\<close>

record ('s, 'g, 'h) SingleAmt =
  sm_amt :: "('s, 'g, 'h) AmtDB"
  sm_print_root_period :: "nat option"

text \<open>The number of shards, a power of two, gives the depth of the shard's root.\<close>

definition shard_info :: "Options \<Rightarrow> (nat \<times> nat) option" where
  "shard_info opts = map_option (\<lambda>size. (trailing_zeros (word_of_nat size), 0)) (opt_shards opts)"

definition SingleAmt_new ::
  "'s kvdb_ops \<Rightarrow> (unit, SingleNode, 'g::ab_group_add) AMTConfig \<Rightarrow> 's world \<Rightarrow> ('g, 'h) AMTParams \<Rightarrow> Options \<Rightarrow> ('s, 'g, 'h) SingleAmt result" where
  "SingleAmt_new D C backend pp opts =
     (and_then (AmtDB_new D C backend pp (shard_info opts)) (\<lambda>amt.
        Inr \<lparr>sm_amt = amt, sm_print_root_period = (if opt_print_root opts then Some (opt_report_epoch opts) else None)\<rparr>))"

definition SingleAmt_get ::
  "'s kvdb_ops \<Rightarrow> (unit, SingleNode, 'g) AMTConfig \<Rightarrow> ('s, 'g, 'h) SingleAmt \<Rightarrow> bytes \<Rightarrow> (bytes option \<times> ('s, 'g, 'h) SingleAmt) outcome" where
  "SingleAmt_get D C s key = Some (and_then (AmtDB_get D C (sm_amt s) key) (\<lambda>(v, amt). Inr (v, s\<lparr>sm_amt := amt\<rparr>)))"

definition SingleAmt_set ::
  "(bytes \<Rightarrow> h256) \<Rightarrow> 's kvdb_ops \<Rightarrow> (unit, SingleNode, 'g::ab_group_add) AMTConfig \<Rightarrow> ('s, 'g, 'h) SingleAmt \<Rightarrow> bytes \<Rightarrow> bytes \<Rightarrow>
   ('s, 'g, 'h) SingleAmt outcome" where
  "SingleAmt_set keccak D C s key value = Some (and_then (AmtDB_set keccak D C (sm_amt s) key value) (\<lambda>amt. Inr (s\<lparr>sm_amt := amt\<rparr>)))"

definition SingleAmt_commit ::
  "'s kvdb_ops \<Rightarrow> (unit, SingleNode, 'g::ab_group_add) AMTConfig \<Rightarrow> ('s, 'g, 'h) SingleAmt \<Rightarrow> nat \<Rightarrow> ('s, 'g, 'h) SingleAmt outcome" where
  "SingleAmt_commit D C s index = Some (and_then (AmtDB_commit D C (sm_amt s)) (\<lambda>(root, amt).
     and_then (ensure (sm_print_root_period s \<noteq> Some 0) ''attempt to calculate the remainder with a divisor of zero'') (\<lambda>_.
       Inr (s\<lparr>sm_amt := amt\<rparr>))))"

definition SingleAmt_flush_all ::
  "'s kvdb_ops \<Rightarrow> (unit, SingleNode, 'g::ab_group_add) AMTConfig \<Rightarrow> ('s, 'g, 'h) SingleAmt \<Rightarrow> ('s, 'g, 'h) SingleAmt outcome" where
  "SingleAmt_flush_all D C s = Some (and_then (AmtDB_commit D C (sm_amt s)) (\<lambda>(root, amt). Inr (s\<lparr>sm_amt := amt\<rparr>)))"

definition amt_authdb ::
  "(bytes \<Rightarrow> h256) \<Rightarrow> 's kvdb_ops \<Rightarrow> (unit, SingleNode, 'g::ab_group_add) AMTConfig \<Rightarrow> ('s, 'g, 'h) SingleAmt AuthDB" where
  "amt_authdb keccak D C = \<lparr>ad_get = SingleAmt_get D C, ad_set = SingleAmt_set keccak D C, ad_commit = SingleAmt_commit D C, ad_flush_all = SingleAmt_flush_all D C\<rparr>"

section \<open>Every read and write panics\<close>

lemma AmtDB_index_panics: "N \<le> 56 \<Longrightarrow> \<exists>m. AmtDB_index N key = Inl (Panic m)"
  by (auto simp: AmtDB_index_def Let_def ensure_def)

text \<open>Only a depth of more than 56 bits gives an index, which is in range.\<close>

lemma AmtDB_index_reads:
  assumes "56 < N" "N < 64" "8 \<le> length key"
  shows "AmtDB_index N key = Inr (nat_le (take 8 key) mod 2 ^ N)"
proof -
  have "(N + 7) div 8 = 8" using assms(1,2) by linarith
  moreover have "unat ((from_le_bytes (take 8 key) :: u64) AND 2 ^ N - 1) = nat_le (take 8 key) mod 2 ^ N"
  proof -
    have "nat_le (take 8 key) < 2 ^ 64" using nat_le_bound [of "take 8 key"] assms(3) by simp
    then have u: "unat (from_le_bytes (take 8 key) :: u64) = nat_le (take 8 key)" by (simp add: from_le_bytes_def unat_of_nat)
    have "(w :: u64) AND 2 ^ N - 1 = take_bit N w" for w by (simp add: take_bit_eq_mask mask_eq_exp_minus_1)
    then show ?thesis by (simp add: unsigned_take_bit_eq u take_bit_nat_def)
  qed
  ultimately show ?thesis using assms(3) by (simp add: AmtDB_index_def)
qed

section \<open>The properties\<close>

text \<open>C36. The single-tree storage cannot be used: with a depth of at most 56, and only 20 to 28 can be
  selected, every \<open>get\<close> and every \<open>set\<close> panics, whatever the state and the key.\<close>

theorem single_amt_always_panics:
  assumes "DEPTHS C \<le> 56"
  shows "\<exists>m m'. ad_get (amt_authdb keccak D C) s key = Some (Inl (Panic m)) \<and> ad_set (amt_authdb keccak D C) s key value = Some (Inl (Panic m'))"
  using AmtDB_index_panics [OF assms, of key]
  by (auto simp: amt_authdb_def SingleAmt_get_def SingleAmt_set_def AmtDB_get_def AmtDB_set_def)

text \<open>A commit of the tree can be opened: over a store whose flush succeeds, a commit of a tree with a commitment
  returns it, and opening the store again gives a tree with this commitment.\<close>

theorem single_amt_reopens:
  assumes "kvdb D I cols" and "0 < cols" and "\<And>s. I s \<Longrightarrow> \<exists>s'. kv_flush D s = Inr s'" and "curve_codec (curve C)"
    and "I (store (sa_world s))" and "tree_col 0 (sa_amt s)" and "AMTree_commitment (sa_amt s) = Inr c"
  shows "\<exists>s' s''. AmtDB_commit D C s = Inr (c, s') \<and> AmtDB_new D C (sa_world s') pp None = Inr s'' \<and>
    sa_root s'' = c \<and> AMTree_commitment (sa_amt s'') = Inr c"
proof -
  have tc: "tree_commitment (sa_amt s) = Some c" using assms(7) by (cases "tree_commitment (sa_amt s)") (simp_all add: AMTree_commitment_def)
  obtain w t where f: "AMTree_flush D C (sa_world s) (sa_amt s) = Inr (c, w, t)"
  proof -
    obtain w1 a1 where 1: "flush_cache D (data_ty C) (sa_world s\<lparr>PUT_MODE := 0\<rparr>) (tree_data (sa_amt s)) = (w1, a1)" by (rule prod.exhaust)
    obtain w2 a2 where 2: "flush_cache D (node_ty C) (w1\<lparr>PUT_MODE := 1\<rparr>) (inner_nodes (sa_amt s)) = (w2, a2)" by (rule prod.exhaust)
    obtain w3 a3 where "flush_cache D (root_ty C) (w2\<lparr>PUT_MODE := 2\<rparr>) (subtree_roots (sa_amt s)) = (w3, a3)" by (rule prod.exhaust)
    then show thesis using that 1 2 by (simp add: AMTree_flush_def tc)
  qed
  have "kvdb.other_cols D I 0 (kv_get D (store (sa_world s))) (sa_world s)" using assms(5) by (simp add: kvdb.other_cols_def [OF assms(1)])
  then have w: "I (store w)"
    using kvdb.AMTree_flush_other_cols [OF assms(1) f _ assms(6,2), of "kv_get D (store (sa_world s))"]
    by (simp add: kvdb.other_cols_def [OF assms(1)])
  let ?ops = "[Insert 0 VersionTree.ROOT_KEY (to_bytes_local (write_G1 (curve C)) c)]"
  let ?st = "kv_write_buffered D (store w) ?ops"
  have rng: "ops_in_range cols ?ops" using assms(2) by (simp add: ops_in_range_def)
  have st: "I ?st" using kvdb.inv_write_buffered [OF assms(1) w rng] .
  then obtain st' where st': "kv_flush D ?st = Inr st'" using assms(3) by blast
  let ?s' = "s\<lparr>sa_world := w\<lparr>store := st'\<rparr>, sa_root := c, sa_amt := t\<rparr>"
  have com: "AmtDB_commit D C s = Inr (c, ?s')" by (simp add: AmtDB_commit_def f st')
  have "kv_get D st' 0 VersionTree.ROOT_KEY = Some (to_bytes_local (write_G1 (curve C)) c)"
    using kvdb.get_flush [OF assms(1) st st'] kvdb.get_write_buffered [OF assms(1) w rng] by simp
  moreover have "from_bytes_local (read_G1 (curve C)) (to_bytes_local (write_G1 (curve C)) c) = Inr c"
    using curve_codec.proj_round_trip [OF assms(4), of c "[]"]
    by (simp add: from_bytes_local_def from_bytes_def to_bytes_local_def write_G1_def read_G1_def)
  ultimately have new: "AmtDB_new D C (sa_world ?s') pp None =
      Inr \<lparr>sa_world = w\<lparr>store := st'\<rparr>, sa_pp = pp, sa_root = c, sa_amt = set_commitment (AMTree_new C () 0 None) c\<rparr>"
    by (simp add: AmtDB_new_def DBColumn_get_def unwrap_result_def)
  show ?thesis by (rule exI [of _ ?s'], rule exI, intro conjI, rule com, rule new)
    (simp_all add: set_commitment_def AMTree_new_def AMTree_commitment_def Let_def)
qed

text \<open>A tree of depth 20 over the one-byte group, on an empty store.\<close>

definition demo_amt_config :: "(unit, SingleNode, u8) AMTConfig" where
  "demo_amt_config = single_config 20 byte_curve 1 256"

definition demo_amt :: "(contents, u8, u8) AmtDB" where
  "demo_amt = \<lparr>sa_world = empty_world, sa_pp = byte_params, sa_root = 0, sa_amt = set_commitment (AMTree_new demo_amt_config () 0 None) 7\<rparr>"

theorem single_amt_always_panics_witness:
  "\<exists>m m'. ad_get (amt_authdb weak_hash plain_kvdb demo_amt_config) \<lparr>sm_amt = demo_amt, sm_print_root_period = None\<rparr> [1, 2, 3, 4, 5, 6, 7, 8] = Some (Inl (Panic m)) \<and>
     ad_set (amt_authdb weak_hash plain_kvdb demo_amt_config) \<lparr>sm_amt = demo_amt, sm_print_root_period = None\<rparr> [1, 2, 3, 4, 5, 6, 7, 8] [9] = Some (Inl (Panic m'))"
proof -
  have "DEPTHS demo_amt_config \<le> 56" by (simp add: demo_amt_config_def single_config_def)
  then show ?thesis by (rule single_amt_always_panics)
qed

theorem single_amt_reopens_witness:
  "\<exists>s' s''. AmtDB_commit plain_kvdb demo_amt_config demo_amt = Inr (7, s') \<and>
     AmtDB_new plain_kvdb demo_amt_config (sa_world s') byte_params None = Inr s'' \<and> sa_root s'' = 7"
proof -
  have "tree_col 0 (sa_amt demo_amt)" "AMTree_commitment (sa_amt demo_amt) = Inr 7" "curve_codec (curve demo_amt_config)"
    using byte_curve_codec.curve_codec_axioms
    by (simp_all add: demo_amt_def set_commitment_def AMTree_new_def tree_col_def DBAccess_new_def Let_def AMTree_commitment_def demo_amt_config_def single_config_def)
  then show ?thesis
    using single_amt_reopens [OF plain.kvdb_axioms [of 1], of demo_amt_config demo_amt 7 byte_params] by (auto simp: plain_kvdb_def)
qed

end
