(* ===== verification/AuthAdapters.thy ===== *)
theory AuthAdapters
  imports SingleAmt RainRoot
begin

text \<open>
  The storages behind the interface, \<open>asb-authdb/src\<close>: the LVMT database and the RainBlock trie as
  \<open>AuthDB\<close>, and the choice of a storage from the options.  The LVMT database keeps the
  whole contract, the RainBlock trie the part of it within an epoch; what a commit of the trie
  keeps is the subject of RainCommit and RainFresh.
\<close>

section \<open>Opening\<close>

datatype Storage = RawStorage | LvmtStorage | MptStorage | LmptsStorage | AmtStorage nat | RainStorage

text \<open>The depth of a single tree is one of the instances compiled in; LMPTs need a feature.\<close>

definition open_storage :: "bool \<Rightarrow> Options \<Rightarrow> Storage result" where
  "open_storage lmpts_feature opts = (case opt_algorithm opts of
     RAW \<Rightarrow> Inr RawStorage
   | LVMT \<Rightarrow> Inr LvmtStorage
   | MPT \<Rightarrow> Inr MptStorage
   | LMPTS \<Rightarrow> if lmpts_feature then Inr LmptsStorage else Inl (Panic ''LMPTs can only work with feature asb-backend!'')
   | AMT x \<Rightarrow> if x \<in> set [20, 21, 22, 23, 24, 25, 26, 27, 28] then Inr (AmtStorage x) else Inl (Panic ''Unsupport index'')
   | RAIN \<Rightarrow> Inr RainStorage)"

section \<open>LVMT\<close>

record ('s, 'g, 'h) Lvmt =
  lv_world :: "'s world"
  lv_pp :: "('g, 'h) AMTParams"
  lv_amt :: "'g LvmtDB"
  lv_print_root_period :: "nat option"

definition Lvmt_new ::
  "'s kvdb_ops \<Rightarrow> 'g::ab_group_add Config \<Rightarrow> 's world \<Rightarrow> ('g, 'h) AMTParams \<Rightarrow> Options \<Rightarrow> ('s, 'g, 'h) Lvmt result" where
  "Lvmt_new D C backend pp opts =
     (and_then (LvmtDB_new D C backend True (shard_info opts)) (\<lambda>amt. Inr \<lparr>lv_world = backend, lv_pp = pp, lv_amt = amt,
        lv_print_root_period = (if opt_print_root opts then Some (opt_report_epoch opts) else None)\<rparr>))"

definition Lvmt_get :: "'s kvdb_ops \<Rightarrow> ('s, 'g, 'h) Lvmt \<Rightarrow> bytes \<Rightarrow> (bytes option \<times> ('s, 'g, 'h) Lvmt) outcome" where
  "Lvmt_get D s key = Some (and_then (unwrap_result (LvmtDB_get D (lv_world s) (lv_amt s) key)) (\<lambda>(v, amt). Inr (v, s\<lparr>lv_amt := amt\<rparr>)))"

definition Lvmt_set :: "('s, 'g, 'h) Lvmt \<Rightarrow> bytes \<Rightarrow> bytes \<Rightarrow> ('s, 'g, 'h) Lvmt outcome" where
  "Lvmt_set s key value = Some (Inr (s\<lparr>lv_amt := LvmtDB_set (lv_amt s) key value\<rparr>))"

definition Lvmt_commit ::
  "(bytes \<Rightarrow> h256) \<Rightarrow> 's kvdb_ops \<Rightarrow> 'g::ab_group_add Config \<Rightarrow> ('s, 'g, 'h) Lvmt \<Rightarrow> nat \<Rightarrow> ('s, 'g, 'h) Lvmt outcome" where
  "Lvmt_commit keccak D C s index = Some (and_then (unwrap_result (LvmtDB_commit keccak D C (lv_world s) (lv_pp s) (lv_amt s)))
     (\<lambda>(roots, w, pp, amt).
      and_then (ensure (lv_print_root_period s \<noteq> Some 0) ''attempt to calculate the remainder with a divisor of zero'') (\<lambda>_.
        Inr (s\<lparr>lv_world := w, lv_pp := pp, lv_amt := amt\<rparr>))))"

definition Lvmt_flush_all :: "'s kvdb_ops \<Rightarrow> 'g::ab_group_add Config \<Rightarrow> ('s, 'g, 'h) Lvmt \<Rightarrow> ('s, 'g, 'h) Lvmt outcome" where
  "Lvmt_flush_all D C s = Some (and_then (LvmtDB_flush_root D C (lv_world s) (lv_amt s)) (\<lambda>(w, amt). Inr (s\<lparr>lv_world := w, lv_amt := amt\<rparr>)))"

definition lvmt_authdb :: "(bytes \<Rightarrow> h256) \<Rightarrow> 's kvdb_ops \<Rightarrow> 'g::ab_group_add Config \<Rightarrow> ('s, 'g, 'h) Lvmt AuthDB" where
  "lvmt_authdb keccak D C = \<lparr>ad_get = Lvmt_get D, ad_set = Lvmt_set, ad_commit = Lvmt_commit keccak D C, ad_flush_all = Lvmt_flush_all D C\<rparr>"

text \<open>The state of the LVMT database: every stored record decodes, the cache agrees with the store, the map is what is
  stored, and the writes are the uncommitted pairs.\<close>

definition lvmt_rel :: "'s kvdb_ops \<Rightarrow> ('s \<Rightarrow> bool) \<Rightarrow> ('s, 'g, 'h) Lvmt \<Rightarrow> content \<Rightarrow> content \<Rightarrow> bool" where
  "lvmt_rel D I s m w \<longleftrightarrow> I (store (lv_world s)) \<and> vt_ok (version_tree (lv_amt s)) \<and> vt_col (version_tree (lv_amt s)) = COL_VER_TREE \<and>
     list_all (\<lambda>(k, x). length x < 2 ^ 64) (uncommitted_key_values (lv_amt s)) \<and> w = map_of (rev (uncommitted_key_values (lv_amt s))) \<and>
     (\<forall>k. \<exists>v. stored_value D (lv_world s) k = Inr v \<and> m k = map_option val_value v) \<and>
     (\<forall>k v d. map_of (db_cache (lv_amt s)) k = Some (v, d) \<longrightarrow> stored_value D (lv_world s) k = Inr v)"

lemma lvmt_get_ok:
  assumes "lvmt_rel D I s m w"
  shows "\<exists>s'. Lvmt_get D s k = Some (Inr (m k, s')) \<and> lvmt_rel D I s' m w"
proof -
  obtain v where v: "stored_value D (lv_world s) k = Inr v" "m k = map_option val_value v" using assms unfolding lvmt_rel_def by blast
  show ?thesis
  proof (cases "map_of (db_cache (lv_amt s)) k")
    case None
    then show ?thesis using assms v by (auto simp: Lvmt_get_def LvmtDB_get_def lvmt_rel_def unwrap_result_def)
  next
    case (Some p)
    then obtain v' d where p: "map_of (db_cache (lv_amt s)) k = Some (v', d)" by (cases p) simp
    then have "v' = v" using assms v by (auto simp: lvmt_rel_def)
    then show ?thesis using assms v(2) p by (auto simp: Lvmt_get_def LvmtDB_get_def unwrap_result_def)
  qed
qed

lemma lvmt_commit_ok:
  assumes "kvdb D I cols" "NUM_COLS \<le> cols" and r: "lvmt_rel D I s m w" and c: "Lvmt_commit keccak D C s i = Some (Inr s')"
  shows "lvmt_rel D I s' (m ++ w) Map.empty"
proof -
  let ?kvs = "uncommitted_key_values (lv_amt s)" and ?w = "lv_world s"
  obtain ar mr w' pp' db' where com: "LvmtDB_commit keccak D C ?w (lv_pp s) (lv_amt s) = Inr ((ar, mr), w', pp', db')"
    and s': "s' = s\<lparr>lv_world := w', lv_pp := pp', lv_amt := db'\<rparr>"
    using c by (auto simp: Lvmt_commit_def and_then_eq_Inr)
  have pre: "I (store ?w)" "vt_ok (version_tree (lv_amt s))" "vt_col (version_tree (lv_amt s)) = COL_VER_TREE" using r by (simp_all add: lvmt_rel_def)
  from kvdb.commit_effect [OF assms(1) com pre(1) assms(2) pre(2,3)]
  obtain epoch vs where rec: "records_for D ?w (lv_amt s) epoch 0 ?kvs vs"
    and g: "\<And>key. kv_get D (store w') COL_KEY_NEW key =
       (case last_record ?kvs vs key of Some v \<Rightarrow> Some (to_bytes_local write_Value v) | None \<Rightarrow> kv_get D (store ?w) COL_KEY_NEW key)"
    and post: "I (store w')" "db_cache db' = []" "uncommitted_key_values db' = []" "vt_ok (version_tree db')" "vt_col (version_tree db') = COL_VER_TREE"
    by metis
  have "\<exists>v. stored_value D w' k = Inr v \<and> (m ++ w) k = map_option val_value v" for k
  proof (cases "last_record ?kvs vs k")
    case None
    then have "stored_value D w' k = stored_value D ?w k" by (simp add: stored_value_def DBColumn_get_def g)
    moreover have "w k = None" using last_record_value [OF rec, of k] None r by (simp add: lvmt_rel_def)
    ultimately show ?thesis using r by (auto simp: lvmt_rel_def map_add_def)
  next
    case (Some v)
    then have wk: "w k = Some (val_value v)" using last_record_value [OF rec, of k] r by (simp add: lvmt_rel_def)
    then have "(k, val_value v) \<in> set ?kvs" using r by (auto simp: lvmt_rel_def dest: map_of_SomeD)
    then have "length (val_value v) < 2 ^ 64" using r by (auto simp: lvmt_rel_def list_all_iff)
    then have "stored_value D w' k = Inr (Some v)" by (simp add: stored_value_def DBColumn_get_def g Some value_codec.from_to_bytes_local)
    then show ?thesis using wk by simp
  qed
  then show ?thesis using post by (simp add: lvmt_rel_def s')
qed

lemma lvmt_flush_ok:
  assumes "kvdb D I cols" "NUM_COLS \<le> cols" and r: "lvmt_rel D I s m Map.empty" and f: "Lvmt_flush_all D C s = Some (Inr s')"
  shows "lvmt_rel D I s' m Map.empty"
proof -
  let ?w = "lv_world s" and ?vt = "version_tree (lv_amt s)"
  obtain w1 vt st where fl: "VersionTree_flush_all D C ?w ?vt = Inr (w1, vt)" "kv_flush D (store w1) = Inr st"
    and s': "s' = s\<lparr>lv_world := w1\<lparr>store := st\<rparr>, lv_amt := (lv_amt s)\<lparr>version_tree := vt\<rparr>\<rparr>"
    using f by (auto simp: Lvmt_flush_all_def LvmtDB_flush_root_def and_then_eq_Inr)
  have vt: "forest_col COL_VER_TREE (forest ?vt)" "vt_col ?vt = COL_VER_TREE" "I (store ?w)" "COL_VER_TREE < cols"
    using r assms(2) by (auto simp: lvmt_rel_def vt_ok_def NUM_COLS_def COL_VER_TREE_def)
  obtain vt1 c w2 where t: "get_tree_mut D C ?w ?vt TreeName_root = Inr vt1"
    "on_tree vt1 TreeName_root (\<lambda>t. and_then (AMTree_flush D C ?w t) (\<lambda>(c, w', t'). Inr ((c, w'), t'))) = Inr ((c, w2), vt)"
    "w1 = w2\<lparr>store := DBColumn_write_buffered D (store w2) COL_VER_TREE [Insert 0 VersionTree.ROOT_KEY (to_bytes_local (write_G1 (curve C)) c)]\<rparr>"
    using fl(1) vt(2) by (auto simp: VersionTree_flush_all_def and_then_eq_Inr)
  have vt1: "forest_col COL_VER_TREE (forest vt1)" "vt_col vt1 = COL_VER_TREE" using get_tree_mut_col [OF t(1)] vt(1,2) by simp_all
  have o: "kvdb.other_cols D I COL_VER_TREE (kv_get D (store ?w)) ?w" using vt(3) by (simp add: kvdb.other_cols_def [OF assms(1)])
  have fo: "kvdb.other_cols D I COL_VER_TREE (kv_get D (store ?w)) w' \<and> tree_col COL_VER_TREE t'"
    if "AMTree_flush D C ?w t = Inr (g, w', t')" "tree_col COL_VER_TREE t" for t g w' t'
    using kvdb.AMTree_flush_other_cols [OF assms(1) that(1) o that(2) vt(4)] .
  have "forest_col COL_VER_TREE (forest vt) \<and> vt_col vt = vt_col vt1 \<and> shard_node vt = shard_node vt1"
    by (rule on_tree_col [OF t(2) vt1(1)]) (use fo in \<open>auto simp: and_then_eq_Inr\<close>)
  then have vt': "vt_ok vt" "vt_col vt = COL_VER_TREE" using vt1(2) by (simp_all add: vt_ok_def)
  have "kvdb.other_cols D I COL_VER_TREE (kv_get D (store ?w)) w2"
  proof -
    obtain i t' where i: "find_tree (forest vt1) (name_path TreeName_root) = Inr i" "AMTree_flush D C ?w (twi_tree i) = Inr (c, w2, t')"
      using t(2) by (auto simp: on_tree_def and_then_eq_Inr)
    show ?thesis using fo [OF i(2) find_tree_col [OF i(1) vt1(1)]] by simp
  qed
  then have "kvdb.other_cols D I COL_VER_TREE (kv_get D (store ?w)) w1" unfolding t(3) by (rule kvdb.write_other_cols [OF assms(1) _ vt(4)])
  then have w1: "I (store w1)" "kv_get D (store w1) COL_KEY_NEW = kv_get D (store ?w) COL_KEY_NEW" by (simp_all add: kvdb.other_cols_def [OF assms(1)])
  have st: "I st" "kv_get D st = kv_get D (store w1)" using kvdb.inv_flush [OF assms(1) w1(1) fl(2)] kvdb.get_flush [OF assms(1) w1(1) fl(2)] by simp_all
  have "stored_value D (w1\<lparr>store := st\<rparr>) k = stored_value D ?w k" for k by (simp add: stored_value_def DBColumn_get_def st w1)
  then show ?thesis using r st(1) vt' by (simp add: lvmt_rel_def s')
qed

lemma lvmt_provides_authdb:
  assumes "kvdb D I cols" "NUM_COLS \<le> cols"
  shows "authdb (lvmt_authdb keccak D C) (lvmt_rel D I) (\<lambda>_. True) (\<lambda>v. length v < 2 ^ 64)"
proof (unfold_locales, goal_cases)
  case (1 s m w k)
  then show ?case using lvmt_get_ok [OF 1(1), of k] by (auto simp: lvmt_authdb_def answers_def split: option.splits)
next
  case (2 s m w k v)
  then show ?case by (auto simp: lvmt_authdb_def Lvmt_set_def LvmtDB_set_def lvmt_rel_def)
next
  case (4 s m w i s')
  then show ?case using lvmt_commit_ok [OF assms, of s m w keccak C i s'] by (simp add: lvmt_authdb_def)
next
  case (6 s m s')
  then show ?case using lvmt_flush_ok [OF assms, of s m C s'] by (simp add: lvmt_authdb_def)
qed (auto simp: lvmt_authdb_def Lvmt_commit_def Lvmt_flush_all_def)

interpretation lvmt_plain: authdb "lvmt_authdb keccak plain_kvdb C" "lvmt_rel plain_kvdb (\<lambda>_. True)" "\<lambda>_. True" "\<lambda>v. length v < 2 ^ 64" for keccak C
  by (rule lvmt_provides_authdb [OF plain.kvdb_axioms [of NUM_COLS]]) simp

section \<open>RainBlock\<close>

definition rain_authdb :: "trie_env \<Rightarrow> 's kvdb_ops \<Rightarrow> 's RainMpt AuthDB" where
  "rain_authdb E D = \<lparr>ad_get = RainMpt_get E D, ad_set = RainMpt_set E D, ad_commit = (\<lambda>t i. Some (unwrap_result (RainMpt_commit E D t i))),
     ad_flush_all = (\<lambda>t. Some (unwrap_result (RainMpt_flush_all E D t)))\<rparr>"

text \<open>Writes are read at once, so that the map and the writes together are the contents of the trie.\<close>

definition rain_rel :: "trie_env \<Rightarrow> 's kvdb_ops \<Rightarrow> 's RainMpt \<Rightarrow> content \<Rightarrow> content \<Rightarrow> bool" where
  "rain_rel E D t m w \<longleftrightarrow> (\<exists>M. mpt_reps E D t M \<and> (\<forall>k. k \<noteq> [] \<longrightarrow> M (bytes_to_nibble_list k) = (m ++ w) k))"

interpretation rain: auth_epoch "rain_authdb E D" "rain_rel E D" "\<lambda>k. k \<noteq> []" "\<lambda>v. v \<noteq> []" for E D
proof (unfold_locales, goal_cases)
  case (1 s m w k)
  then obtain M where M: "mpt_reps E D s M" "\<forall>k. k \<noteq> [] \<longrightarrow> M (bytes_to_nibble_list k) = (m ++ w) k" by (auto simp: rain_rel_def)
  obtain r t where r: "mpt_get E D CACHED_LEVEL s k = Some (Inr (r, t))" "mpt_reps E D t M"
    "r = M (bytes_to_nibble_list k) \<or> r = Some [] \<and> M (bytes_to_nibble_list k) = None"
    using mpt_get_rep [OF M(1) 1(2), of CACHED_LEVEL] by blast
  have "M (bytes_to_nibble_list k) = (m ++ w) k" using M(2) 1(2) by blast
  then have "answers m w k r" using r(3) by (cases "w k"; cases "m k") (auto simp: answers_def map_add_def)
  moreover have "rain_rel E D t m w" using r(2) M(2) unfolding rain_rel_def by blast
  ultimately show ?case using r(1) by (simp add: rain_authdb_def RainMpt_get_def)
next
  case (2 s m w k v)
  then obtain M where M: "mpt_reps E D s M" "\<forall>k. k \<noteq> [] \<longrightarrow> M (bytes_to_nibble_list k) = (m ++ w) k" by (auto simp: rain_rel_def)
  obtain t where t: "mpt_put E D CACHED_LEVEL s k v = Some (Inr t)" "mpt_reps E D t (M(bytes_to_nibble_list k := Some v))"
    using mpt_put_rep [OF M(1) 2(2), of CACHED_LEVEL v] 2(3) by auto
  have "\<forall>j. j \<noteq> [] \<longrightarrow> (M(bytes_to_nibble_list k := Some v)) (bytes_to_nibble_list j) = (m ++ w(k \<mapsto> v)) j"
    using M(2) by (simp add: map_add_def)
  then show ?case using t by (auto simp: rain_authdb_def RainMpt_set_def rain_rel_def simp del: fun_upd_apply)
qed

end
