(* ===== verification/LvmtBench.thy ===== *)
theory LvmtBench
  imports BenchProofs AuthAdapters
begin

text \<open>
  The LVMT storage under the driver: a warm-up of any number of epochs over any store that keeps the
  laws of the interface.
\<close>

text \<open>C15. Many epochs of LVMT: warming up the storage with any list of epochs, from any state that stands for a map,
  comes to an end.  Under the condition that it ends without the failure of a commit or of the flush, every key is then read
  as the last value written to it in all the epochs, and a key that was not written as before; the witness is a run of two
  epochs that ends so.\<close>

theorem lvmt_epochs_read_back:
  assumes "kvdb D I cols" and "NUM_COLS \<le> cols" and "lvmt_rel D I s m Map.empty"
    and "\<forall>(k, v) \<in> set (writes_of (concat epochs)). length v < 2 ^ 64"
  shows "\<exists>r. warmup (lvmt_authdb keccak D C) list_next opts epochs s = Some r \<and>
    (\<forall>s' k. r = Inr s' \<longrightarrow> (\<exists>s''. Lvmt_get D s' k = Some (Inr ((m ++ written (concat epochs)) k, s''))))"
proof -
  have ok: "events_ok (\<lambda>_. True) (\<lambda>v. length v < 2 ^ 64) (concat epochs)" using assms(4) by (auto simp: events_ok_def)
  have fin: "finished list_next []" by (simp add: finished_def list_next_def)
  obtain r where "warmup (lvmt_authdb keccak D C) list_next opts epochs s = Some r"
    "\<forall>s'. r = Inr s' \<longrightarrow> lvmt_rel D I s' (m ++ written (concat epochs)) Map.empty"
    using authdb.warmup_returns [OF lvmt_provides_authdb [OF assms(1,2)] list_yields fin assms(3) ok] by blast
  then show ?thesis using lvmt_get_ok by blast
qed

text \<open>Two epochs that write the same key, on an empty store.\<close>

definition demo_lvmt :: "(contents, u8, u8) Lvmt" where
  "demo_lvmt = \<lparr>lv_world = empty_world, lv_pp = one_params, lv_amt = one_db [], lv_print_root_period = None\<rparr>"

text \<open>The states of a light node between two commits of this key: its slot is in the leaf of the root tree.\<close>

definition run_db :: "bool \<Rightarrow> (nat \<times> (Node \<times> bool)) list \<Rightarrow> bool \<Rightarrow> u64 \<Rightarrow> (Key \<times> bytes) list \<Rightarrow> u8 LvmtDB" where
  "run_db m c d n kvs = \<lparr>version_tree = \<lparr>forest = [[([], \<lparr>twi_tree = one_tree c d, mark_in_parent = m, children_marks = []\<rparr>)]],
     vt_col = COL_VER_TREE, shard_node = None\<rparr>, db_cache = [], uncommitted_key_values = kvs,
     dirty_guard = False, only_merkle_root = False, INC_KEY_COUNT = n, INC_KEY_LEVEL_SUM = n\<rparr>"

lemma run_db_one: "one_db kvs = run_db True [] False 0 kvs"
  by (simp add: one_db_def run_db_def one_vt_def)

lemma run_vt_get: "get_tree_mut plain_kvdb one_config w (version_tree (run_db m c d n kvs)) (TreeName []) = Inr (one_vt (one_tree c d))"
  by (cases m) (simp_all add: run_db_def one_vt_def get_tree_mut_def Let_def ensure_tree_def find_tree_def put_tree_def)

lemma run_vt_commit:
  "VersionTree_commit plain_kvdb one_config e p w pp (one_vt (one_tree c d)) =
     Inr (0, recorder_new, w, pp, version_tree (run_db False c d n kvs))"
  by (simp add: VersionTree_commit_def one_vt_def find_tree_def TreeName_root_def AMTree_commitment_def Let_def one_tree_def
      put_tree_def run_db_def)

lemma run_inc:
  assumes "version v < MAX_VERSION_NUMBER" "level v = 0" "slot_index v = 0"
  shows "inc_key_ver plain_kvdb one_config w [7, 1] (Some v) one_params (version_tree (run_db m c d n kvs)) =
    Inr (v\<lparr>version := version v + 1\<rparr>, one_params, one_vt (one_tree c True))"
proof -
  have "shard_node (version_tree (run_db m c d n kvs)) = None" by (simp add: run_db_def)
  moreover have "AMTree_update plain_kvdb one_config w one_params (one_tree c d) 7 (fr_int_pow_2 40) = Inr (one_tree c True, one_params)"
  proof -
    have "fr_int_pow_2 40 \<noteq> 0" by code_simp
    then show ?thesis by (simp add: AMTree_update_def one_config_fields one_pow one_tree_def Let_def)
  qed
  ultimately show ?thesis
    using assms by (simp add: inc_key_ver_def one_config_fields one_key run_vt_get one_vt_on in_proof_shard_def)
qed

text \<open>What a commit leaves when the version of the key is known.\<close>

lemma run_commit:
  assumes ver: "cached_version plain_kvdb w (run_db m c d n [([7, 1], x)]) [7, 1] = Inr old"
    and inc: "inc_key_ver plain_kvdb one_config w [7, 1] old one_params (version_tree (run_db m c d n [([7, 1], x)])) =
       Inr (v, one_params, one_vt (one_tree c' True))" "level v = 0"
    and ep: "current_epoch plain_kvdb w = Inr e" and x: "length x < 2 ^ 64"
  obtains mroot w' where "LvmtDB_commit weak_hash plain_kvdb one_config w one_params (run_db m c d n [([7, 1], x)]) =
      Inr ((0, mroot), w', one_params, run_db False c' True (n + 1) [])"
    "stored_value plain_kvdb w' [7, 1] = Inr (Some \<lparr>val_value = x, val_version = v, val_position = \<lparr>ep_epoch = e, ep_position = 0\<rparr>\<rparr>)"
    "current_epoch plain_kvdb w' = Inr (e + 1)"
proof -
  let ?db = "run_db m c d n [([7, 1], x)]" and ?v = "\<lparr>val_value = x, val_version = v, val_position = \<lparr>ep_epoch = e, ep_position = 0\<rparr>\<rparr>"
  let ?h = "kv_hash weak_hash [7, 1] ?v"
  let ?w2 = "w\<lparr>store := DBColumn_write_buffered plain_kvdb (store w) COL_KEY_NEW [Insert 0 [7, 1] (to_bytes_local write_Value ?v)]\<rparr>"
  have db: "uncommitted_key_values ?db = [([7, 1], x)]" "INC_KEY_COUNT ?db = n" "INC_KEY_LEVEL_SUM ?db = n"
    "only_merkle_root ?db = False" by (simp_all add: run_db_def)
  have ck: "commit_key weak_hash plain_kvdb one_config w ?db e ([7, 1], x)
     \<lparr>ps_pp = one_params, ps_tree = version_tree ?db, ps_hashes = [], ps_ops = [], ps_count = n, ps_levels = n\<rparr> =
     Inr \<lparr>ps_pp = one_params, ps_tree = one_vt (one_tree c' True), ps_hashes = [?h],
       ps_ops = [Insert 0 [7, 1] (to_bytes_local write_Value ?v)], ps_count = n + 1, ps_levels = n + 1\<rparr>"
    using ver inc by (simp add: commit_key_def Let_def kv_hash_def)
  have vt: "version_tree (run_db m1 c1 d1 n1 k1) = version_tree (run_db m1 c1 d1 n2 k2)" for m1 c1 d1 n1 n2 k1 k2 by (simp add: run_db_def)
  have db1: "?db\<lparr>version_tree := version_tree (run_db False c' True n1 []), uncommitted_key_values := [], INC_KEY_COUNT := n1,
     INC_KEY_LEVEL_SUM := n1\<rparr> = run_db False c' True n1 []" for n1 by (simp add: run_db_def)
  have ch: "commit_hashes weak_hash plain_kvdb one_config w one_params ?db e = Inr (0, [?h], ?w2, one_params, run_db False c' True (n + 1) [])"
    using db1 [of "n + 1"]
    by (simp add: commit_hashes_def db ck Let_def run_vt_commit [of _ _ _ _ _ _ "n + 1" "[]"]) (simp add: recorder_new_def)
  obtain r w3 where md: "merkle_dump weak_hash plain_kvdb ?w2 COL_MERKLE e [?h] False = (r, w3)" by fastforce
  define w' where "w' = w3\<lparr>store := DBColumn_write_buffered plain_kvdb (store w3) COL_MERKLE [Insert 0 EPOCH_NUMBER_KEY (to_bytes_local write_u64 (e + 1))]\<rparr>"
  have fl: "kv_flush plain_kvdb y = Inr y" for y by (simp add: plain_kvdb_def)
  have clean: "run_db False c' True k []\<lparr>dirty_guard := False, db_cache := []\<rparr> = run_db False c' True k []" for k by (simp add: run_db_def)
  have com: "LvmtDB_commit weak_hash plain_kvdb one_config w one_params ?db = Inr ((0, r), w', one_params, run_db False c' True (n + 1) [])"
    by (simp add: LvmtDB_commit_def ep ch db(4) md Let_def fl w'_def clean)
  have "kv_get plain_kvdb (store w3) COL_KEY_NEW = kv_get plain_kvdb (store ?w2) COL_KEY_NEW"
    using plain.merkle_dump_other_cols [OF md, of 3] by (simp add: COL_MERKLE_def COL_KEY_NEW_def)
  then have "kv_get plain_kvdb (store w') COL_KEY_NEW [7, 1] = Some (to_bytes_local write_Value ?v)"
    by (simp add: w'_def plain_kvdb_def DBColumn_write_buffered_def COL_MERKLE_def COL_KEY_NEW_def)
  then have sv: "stored_value plain_kvdb w' [7, 1] = Inr (Some ?v)"
    using x by (simp add: stored_value_def DBColumn_get_def value_codec.from_to_bytes_local)
  have "kv_get plain_kvdb (store w') COL_MERKLE EPOCH_NUMBER_KEY = Some (to_bytes_local write_u64 (e + 1))"
    by (simp add: w'_def plain_kvdb_def DBColumn_write_buffered_def)
  then have "current_epoch plain_kvdb w' = Inr (e + 1)"
    by (simp add: current_epoch_def DBColumn_get_def u64_codec.from_to_bytes_local)
  with com sv show thesis by (rule that)
qed

lemma run_flush:
  "\<exists>w' db. LvmtDB_flush_root plain_kvdb one_config w (run_db m c d n kvs) = Inr (w', db)"
proof -
  have "tree_commitment (one_tree c d) = Some 0" for c d by (simp add: one_tree_def)
  moreover have "kv_flush plain_kvdb y = Inr y" for y by (simp add: plain_kvdb_def)
  ultimately show ?thesis
    by (simp add: LvmtDB_flush_root_def VersionTree_flush_all_def run_vt_get TreeName_root_def one_vt_on AMTree_flush_def Let_def split_def)
qed

theorem lvmt_epochs_read_back_witness:
  "\<exists>s' s''. warmup (lvmt_authdb weak_hash plain_kvdb one_config) list_next demo_options [[Write [7, 1] [42]], [Write [7, 1] [43]]] demo_lvmt =
       Some (Inr s') \<and> Lvmt_get plain_kvdb s' [7, 1] = Some (Inr (Some [43], s''))"
proof -
  let ?A = "lvmt_authdb weak_hash plain_kvdb one_config"
  have v: "stored_value plain_kvdb empty_world k = Inr None" for k
    by (simp add: stored_value_def DBColumn_get_def plain_kvdb_def empty_world_def)
  have "lvmt_rel plain_kvdb (\<lambda>_. True) demo_lvmt Map.empty Map.empty"
    using one_db_ok v by (simp add: lvmt_rel_def demo_lvmt_def one_db_def)
  from lvmt_epochs_read_back [OF plain.kvdb_axioms [of NUM_COLS] _ this, of "[[Write [7, 1] [42]], [Write [7, 1] [43]]]" weak_hash one_config demo_options]
  have read: "\<exists>s''. Lvmt_get plain_kvdb s' [7, 1] = Some (Inr (Some [43], s''))"
    if "warmup ?A list_next demo_options [[Write [7, 1] [42]], [Write [7, 1] [43]]] demo_lvmt = Some (Inr s')" for s'
    using that by (auto simp: written_def dest!: spec [where x = "[7, 1]"])
  have u: "run_db m c d n []\<lparr>uncommitted_key_values := kvs\<rparr> = run_db m c d n kvs" "uncommitted_key_values (run_db m c d n kvs) = kvs"
    "map_of (db_cache (run_db m c d n kvs)) k = None" for m c d n kvs k by (simp_all add: run_db_def)
  obtain mr1 w1 where 1: "LvmtDB_commit weak_hash plain_kvdb one_config empty_world one_params (run_db True [] False 0 [([7, 1], [42])]) =
      Inr ((0, mr1), w1, one_params, run_db False [(7, one_node [0], True)] True 1 [])"
    and s1: "stored_value plain_kvdb w1 [7, 1] = Inr (Some \<lparr>val_value = [42], val_version = \<lparr>version = 1, level = 0, slot_index = 0\<rparr>,
       val_position = \<lparr>ep_epoch = 0, ep_position = 0\<rparr>\<rparr>)" "current_epoch plain_kvdb w1 = Inr 1"
  proof (rule run_commit [of empty_world True "[]" False 0 "[42]" None])
    show "cached_version plain_kvdb empty_world (run_db True [] False 0 [([7, 1], [42])]) [7, 1] = Inr None"
      by (simp add: cached_version_def v u)
    show "inc_key_ver plain_kvdb one_config empty_world [7, 1] None one_params (version_tree (run_db True [] False 0 [([7, 1], [42])])) =
       Inr (\<lparr>version = 1, level = 0, slot_index = 0\<rparr>, one_params, one_vt (one_tree [(7, one_node [0], True)] True))"
      using one_inc by (simp add: run_db_def one_vt_def)
  qed (auto simp: one_epoch)
  obtain mr2 w2 where 2: "LvmtDB_commit weak_hash plain_kvdb one_config w1 one_params (run_db False [(7, one_node [0], True)] True 1 [([7, 1], [43])]) =
      Inr ((0, mr2), w2, one_params, run_db False [(7, one_node [0], True)] True 2 [])"
  proof (rule run_commit [of w1 False "[(7, one_node [0], True)]" True 1 "[43]" "Some \<lparr>version = 1, level = 0, slot_index = 0\<rparr>", OF _ run_inc])
    show "cached_version plain_kvdb w1 (run_db False [(7, one_node [0], True)] True 1 [([7, 1], [43])]) [7, 1] =
        Inr (Some \<lparr>version = 1, level = 0, slot_index = 0\<rparr>)" by (simp add: cached_version_def s1 u)
  qed (auto simp: s1 MAX_VERSION_NUMBER_def)
  obtain w3 db3 where 3: "LvmtDB_flush_root plain_kvdb one_config w2 (run_db False [(7, one_node [0], True)] True 2 []) = Inr (w3, db3)"
    using run_flush by blast
  have "\<exists>s'. warmup ?A list_next demo_options [[Write [7, 1] [42]], [Write [7, 1] [43]]] demo_lvmt = Some (Inr s')"
    using 1 2 3
    by (simp add: warmup_def warmup_loop.simps list_next_def lvmt_authdb_def Lvmt_set_def LvmtDB_set_def demo_lvmt_def run_db_one u
        Lvmt_commit_def Lvmt_flush_all_def demo_options_def remainder_def ensure_def)
  then show ?thesis using read by blast
qed

end
