(* ===== verification/DbStats.thy ===== *)
theory DbStats
  imports Kvdb
begin

text \<open>
  The counters of the RocksDB wrapper, \<open>cfx-kvdb-rocksdb/src/stats.rs\<close>:
  the atomic running counters with their overall totals, and the access
  recorder \<open>MyStat\<close>.  The atomics wrap, so counters are 64-bit words;
  instants and durations are supplied by the caller.
\<close>

record RawDbStats =
  reads :: u64
  writes :: u64
  bytes_written :: u64
  bytes_read :: u64
  transactions :: u64
  cache_hit_count :: u64

definition RawDbStats_default :: RawDbStats where
  "RawDbStats_default = \<lparr>reads = 0, writes = 0, bytes_written = 0, bytes_read = 0,
     transactions = 0, cache_hit_count = 0\<rparr>"

definition combine :: "RawDbStats \<Rightarrow> RawDbStats \<Rightarrow> RawDbStats" where
  "combine s other = \<lparr>reads = reads s + reads other,
     writes = writes s + writes other,
     bytes_written = bytes_written s + bytes_written other,
     bytes_read = bytes_read s + bytes_written other,
     transactions = transactions s + transactions other,
     cache_hit_count = cache_hit_count s + cache_hit_count other\<rparr>"

record OverallDbStats =
  stats :: RawDbStats
  last_taken :: nat
  started :: nat

definition OverallDbStats_new :: "nat \<Rightarrow> OverallDbStats" where
  "OverallDbStats_new now = \<lparr>stats = RawDbStats_default, last_taken = now, started = now\<rparr>"

text \<open>The six atomics of \<open>RunningDbStats\<close> are kept together as one \<open>RawDbStats\<close>.\<close>

record RunningDbStats =
  current :: RawDbStats
  overall_lock :: OverallDbStats

record TakenDbStats =
  raw :: RawDbStats
  taken_started :: nat

definition RunningDbStats_new :: "nat \<Rightarrow> RunningDbStats" where
  "RunningDbStats_new now = \<lparr>current = RawDbStats_default, overall_lock = OverallDbStats_new now\<rparr>"

definition tally_reads :: "u64 \<Rightarrow> RunningDbStats \<Rightarrow> RunningDbStats" where
  "tally_reads v r = r\<lparr>current := (current r)\<lparr>reads := reads (current r) + v\<rparr>\<rparr>"
definition tally_bytes_read :: "u64 \<Rightarrow> RunningDbStats \<Rightarrow> RunningDbStats" where
  "tally_bytes_read v r = r\<lparr>current := (current r)\<lparr>bytes_read := bytes_read (current r) + v\<rparr>\<rparr>"
definition tally_writes :: "u64 \<Rightarrow> RunningDbStats \<Rightarrow> RunningDbStats" where
  "tally_writes v r = r\<lparr>current := (current r)\<lparr>writes := writes (current r) + v\<rparr>\<rparr>"
definition tally_bytes_written :: "u64 \<Rightarrow> RunningDbStats \<Rightarrow> RunningDbStats" where
  "tally_bytes_written v r =
     r\<lparr>current := (current r)\<lparr>bytes_written := bytes_written (current r) + v\<rparr>\<rparr>"
definition tally_transactions :: "u64 \<Rightarrow> RunningDbStats \<Rightarrow> RunningDbStats" where
  "tally_transactions v r =
     r\<lparr>current := (current r)\<lparr>transactions := transactions (current r) + v\<rparr>\<rparr>"
definition tally_cache_hit_count :: "u64 \<Rightarrow> RunningDbStats \<Rightarrow> RunningDbStats" where
  "tally_cache_hit_count v r =
     r\<lparr>current := (current r)\<lparr>cache_hit_count := cache_hit_count (current r) + v\<rparr>\<rparr>"

definition take_current :: "RunningDbStats \<Rightarrow> RawDbStats \<times> RunningDbStats" where
  "take_current r = (current r, r\<lparr>current := RawDbStats_default\<rparr>)"

definition peek_current :: "RunningDbStats \<Rightarrow> RawDbStats" where
  "peek_current r = current r"

definition since_previous :: "nat \<Rightarrow> RunningDbStats \<Rightarrow> TakenDbStats \<times> RunningDbStats" where
  "since_previous now r = (let (cur, r') = take_current r; ov = overall_lock r' in
     (\<lparr>raw = cur, taken_started = last_taken ov\<rparr>,
      r'\<lparr>overall_lock := ov\<lparr>stats := combine (stats ov) cur, last_taken := now\<rparr>\<rparr>))"

definition overall :: "RunningDbStats \<Rightarrow> TakenDbStats" where
  "overall r = \<lparr>raw = combine (stats (overall_lock r)) (peek_current r),
                taken_started = started (overall_lock r)\<rparr>"

section \<open>MyStat\<close>

record MyStat =
  ops :: u64
  enabled :: bool
  last_seen :: "(bytes \<times> u64) list"
  read_size :: "u64 list"
  read_time :: "u64 list"
  unread_time :: "u64 list"
  write_time :: "u64 list"
  write_size :: "u64 list"
  seen_stat :: "u64 list"

definition MyStat_new :: "bool \<Rightarrow> MyStat" where
  "MyStat_new en = \<lparr>ops = 0, enabled = en, last_seen = [], read_size = [], read_time = [],
     unread_time = [], write_time = [], write_size = [], seen_stat = []\<rparr>"

definition record_read :: "bytes \<Rightarrow> bytes option \<Rightarrow> nat \<Rightarrow> u32 \<Rightarrow> MyStat \<Rightarrow> MyStat" where
  "record_read key value nanos col m =
     (if \<not> enabled m then m
      else let n = ops m + 1;
               key' = key @ to_be_bytes 4 col;
               since = (case map_of (last_seen m) key' of None \<Rightarrow> - 1 | Some x \<Rightarrow> n - x);
               m1 = m\<lparr>ops := n, last_seen := (key', n) # last_seen m,
                      seen_stat := seen_stat m @ [since]\<rparr>
           in case value of
                None \<Rightarrow> m1\<lparr>unread_time := unread_time m1 @ [word_of_nat nanos]\<rparr>
              | Some v \<Rightarrow> m1\<lparr>read_time := read_time m1 @ [word_of_nat nanos],
                             read_size := read_size m1 @ [word_of_nat (length v)]\<rparr>)"

fun record_write_op :: "DBOp \<Rightarrow> MyStat \<Rightarrow> MyStat" where
  "record_write_op t m =
     (let n = ops m + 1;
          m1 = m\<lparr>ops := n, last_seen := (op_key t, n) # last_seen m\<rparr>
      in case t of
           Insert c k v \<Rightarrow> m1\<lparr>write_size := write_size m1 @ [word_of_nat (length v)]\<rparr>
         | Delete c k \<Rightarrow> m1\<lparr>write_size := write_size m1 @ [0]\<rparr>)"

definition record_write :: "DBOp list \<Rightarrow> nat \<Rightarrow> MyStat \<Rightarrow> MyStat" where
  "record_write tx nanos m =
     (if \<not> enabled m then m
      else if length tx = 0 then m
      else let avg_op = word_of_nat (nanos div length tx);
               m1 = m\<lparr>write_time := write_time m @ replicate (length tx) avg_op\<rparr>
           in fold record_write_op tx m1)"

section \<open>What the totals count\<close>

text \<open>The history of a store's counters as a sequence of events.\<close>

datatype stat_event =
    Reads u64
  | BytesRead u64
  | Writes u64
  | BytesWritten u64
  | Transactions u64
  | CacheHits u64
  | SincePrevious nat

fun stat_step :: "stat_event \<Rightarrow> RunningDbStats \<Rightarrow> RunningDbStats" where
  "stat_step (Reads v) = tally_reads v"
| "stat_step (BytesRead v) = tally_bytes_read v"
| "stat_step (Writes v) = tally_writes v"
| "stat_step (BytesWritten v) = tally_bytes_written v"
| "stat_step (Transactions v) = tally_transactions v"
| "stat_step (CacheHits v) = tally_cache_hit_count v"
| "stat_step (SincePrevious now) = snd \<circ> since_previous now"

text \<open>The totals as the interface documents them: each counter is the sum of
  what was tallied on it.\<close>

fun count_event :: "stat_event \<Rightarrow> RawDbStats \<Rightarrow> RawDbStats" where
  "count_event (Reads v) t = t\<lparr>reads := reads t + v\<rparr>"
| "count_event (BytesRead v) t = t\<lparr>bytes_read := bytes_read t + v\<rparr>"
| "count_event (Writes v) t = t\<lparr>writes := writes t + v\<rparr>"
| "count_event (BytesWritten v) t = t\<lparr>bytes_written := bytes_written t + v\<rparr>"
| "count_event (Transactions v) t = t\<lparr>transactions := transactions t + v\<rparr>"
| "count_event (CacheHits v) t = t\<lparr>cache_hit_count := cache_hit_count t + v\<rparr>"
| "count_event (SincePrevious now) t = t"

lemmas tally_defs = tally_reads_def tally_bytes_read_def tally_writes_def tally_bytes_written_def
  tally_transactions_def tally_cache_hit_count_def since_previous_def take_current_def
  peek_current_def overall_def combine_def

definition sums_to :: "RunningDbStats \<Rightarrow> RawDbStats \<Rightarrow> bool" where
  "sums_to r t \<longleftrightarrow> (let s = stats (overall_lock r); c = current r in
     reads t = reads s + reads c \<and> writes t = writes s + writes c \<and>
     bytes_written t = bytes_written s + bytes_written c \<and>
     bytes_read s = bytes_written s \<and>
     transactions t = transactions s + transactions c \<and>
     cache_hit_count t = cache_hit_count s + cache_hit_count c)"

lemma sums_to_step: "sums_to r t \<Longrightarrow> sums_to (stat_step e r) (count_event e t)"
  by (cases e) (simp_all add: sums_to_def Let_def tally_defs RawDbStats_default_def add.assoc)

lemma sums_to_run: "sums_to r t \<Longrightarrow> sums_to (fold stat_step es r) (fold count_event es t)"
  by (induction es arbitrary: r t) (auto intro: sums_to_step)

lemma sums_to_overall: "sums_to r t \<Longrightarrow> raw (overall r) = t\<lparr>bytes_read := bytes_written t\<rparr>"
  by (cases t) (simp add: sums_to_def Let_def tally_defs)

lemma sums_to_new: "sums_to (RunningDbStats_new now) RawDbStats_default"
  by (simp add: sums_to_def RunningDbStats_new_def OverallDbStats_new_def RawDbStats_default_def)

text \<open>For every history of tallies and interval reports on fresh counters,
  the overall totals are the sums of what was tallied on each counter, except
  that \<open>bytes_read\<close> reports the number of bytes written: the bytes read are
  lost, because \<open>combine\<close> adds the wrong field.\<close>

theorem overall_totals:
  "raw (overall (fold stat_step es (RunningDbStats_new now))) =
   (fold count_event es RawDbStats_default)
     \<lparr>bytes_read := bytes_written (fold count_event es RawDbStats_default)\<rparr>"
  by (intro sums_to_overall sums_to_run sums_to_new)

end
