(* ===== verification/CfxRocksdb.thy ===== *)
theory CfxRocksdb
  imports Kvdb DbStats "HOL-Library.AList"
begin

text \<open>
  The RocksDB wrapper \<open>cfx-kvdb-rocksdb/src/lib.rs\<close>: buffered writes go to
  an overlay, a flush swaps the overlay with the flushing buffer, writes the
  batch and clears the buffer; reads look in the overlay, the flushing buffer
  and the engine, in this order.  The engine itself (RocksDB) is a parameter.
  A \<open>HashMap\<close> is an association list with distinct keys, a column out of
  range is the index panic of the source, and \<open>None\<close> in \<open>db\<close> is a closed
  database.  The marker file of \<open>check_for_corruption\<close> and the administration are in
  theory CfxAdmin.
\<close>

datatype KeyState =
    KInsert bytes
  | KDelete

type_synonym col_buffer = "(bytes \<times> KeyState) list"

record 'r rocks_ops =
  rocks_get :: "'r \<Rightarrow> nat \<Rightarrow> bytes \<Rightarrow> bytes option result"
  rocks_write :: "'r \<Rightarrow> DBOp list \<Rightarrow> 'r result"

record 'r Database =
  db :: "('r \<times> nat) option"
  overlay :: "col_buffer list"
  flushing :: "col_buffer list"
  flushing_lock :: bool
  running :: RunningDbStats
  my_stat :: MyStat

definition index_panic :: fault where
  "index_panic = Panic ''index out of bounds''"

definition Database_open :: "'r \<Rightarrow> nat \<Rightarrow> bool \<Rightarrow> nat \<Rightarrow> 'r Database result" where
  "Database_open r columns enable_statistics now =
     (if columns = 0 then Inl (IoErr ''columns number cannot be 0'')
      else Inr \<lparr>db = Some (r, columns), overlay = replicate (columns + 1) [],
                flushing = replicate (columns + 1) [], flushing_lock = False,
                running = RunningDbStats_new now, my_stat = MyStat_new enable_statistics\<rparr>)"

fun key_state :: "DBOp \<Rightarrow> KeyState" where
  "key_state (Insert c k v) = KInsert v"
| "key_state (Delete c k) = KDelete"

fun buffer_op :: "DBOp \<Rightarrow> col_buffer list \<Rightarrow> col_buffer list result" where
  "buffer_op op ov =
     (if op_col op < length ov
      then Inr (ov[op_col op := AList.update (op_key op) (key_state op) (ov ! op_col op)])
      else Inl index_panic)"

definition Database_write_buffered :: "'r Database \<Rightarrow> DBOp list \<Rightarrow> 'r Database result" where
  "Database_write_buffered d tr =
     and_then (fold_res buffer_op tr (overlay d)) (\<lambda>ov. Inr (d\<lparr>overlay := ov\<rparr>))"

text \<open>The batch built from the flushing buffers; \<open>get_cf\<close> panics on the
  extra buffer beyond the engine's columns.\<close>

fun state_op :: "nat \<Rightarrow> bytes \<times> KeyState \<Rightarrow> DBOp" where
  "state_op c (k, KInsert v) = Insert c k v"
| "state_op c (k, KDelete) = Delete c k"

fun batch_of :: "nat \<Rightarrow> nat \<Rightarrow> col_buffer list \<Rightarrow> DBOp list result" where
  "batch_of n c [] = Inr []"
| "batch_of n c (column # rest) =
     (if column \<noteq> [] \<and> n \<le> c then Inl index_panic
      else and_then (batch_of n (Suc c) rest) (\<lambda>ops. Inr (map (state_op c) column @ ops)))"

fun op_bytes :: "DBOp \<Rightarrow> nat" where
  "op_bytes (Insert c k v) = length k + length v"
| "op_bytes (Delete c k) = length k"

definition write_flushing_with_lock ::
  "'r rocks_ops \<Rightarrow> 'r Database \<Rightarrow> unit result \<times> 'r Database" where
  "write_flushing_with_lock E d =
     (case db d of
        None \<Rightarrow> (Inl (IoErr ''Database is closed''), d)
      | Some (r, n) \<Rightarrow>
          let d1 = d\<lparr>overlay := flushing d, flushing := overlay d\<rparr> in
          case batch_of n 0 (flushing d1) of
            Inl e \<Rightarrow> (Inl e, d1)
          | Inr batch \<Rightarrow>
              let d2 = d1\<lparr>running := tally_transactions 1
                    (tally_bytes_written (word_of_nat (sum_list (map op_bytes batch)))
                      (tally_writes (word_of_nat (length batch)) (running d1)))\<rparr> in
              case rocks_write E r batch of
                Inl e \<Rightarrow> (Inl e, d2)
              | Inr r' \<Rightarrow> (Inr (), d2\<lparr>db := Some (r', n), flushing := map (\<lambda>_. []) (flushing d2)\<rparr>))"

definition is_panic :: "'a result \<Rightarrow> bool" where
  "is_panic x = (case x of Inl (Panic _) \<Rightarrow> True | _ \<Rightarrow> False)"

definition Database_flush :: "'r rocks_ops \<Rightarrow> 'r Database \<Rightarrow> unit result \<times> 'r Database" where
  "Database_flush E d =
     (if flushing_lock d
      then (Inl (IoErr ''Database write failure. Running low on memory perhaps?''), d)
      else let (res, d1) = write_flushing_with_lock E (d\<lparr>flushing_lock := True\<rparr>)
           in (res, if is_panic res then d1 else d1\<lparr>flushing_lock := False\<rparr>))"

text \<open>\<open>write\<close>: every operation first drops the buffered entry of its key, so
  a panic or an engine error leaves those drops behind.\<close>

fun unbuffer_op :: "nat \<Rightarrow> DBOp \<Rightarrow> col_buffer list \<Rightarrow> col_buffer list result" where
  "unbuffer_op n op ov =
     (if op_col op < length ov \<and> op_col op < n
      then Inr (ov[op_col op := AList.delete (op_key op) (ov ! op_col op)])
      else Inl index_panic)"

definition Database_write ::
  "'r rocks_ops \<Rightarrow> 'r Database \<Rightarrow> DBOp list \<Rightarrow> (unit result \<times> 'r Database) result" where
  "Database_write E d tr =
     (case db d of
        None \<Rightarrow> Inr (Inl (IoErr ''Database is closed''), d)
      | Some (r, n) \<Rightarrow>
          and_then (fold_res (unbuffer_op n) tr (overlay d)) (\<lambda>ov.
            let d1 = d\<lparr>overlay := ov,
                  running := tally_bytes_written (word_of_nat (sum_list (map op_bytes tr)))
                    (tally_transactions 1 (tally_writes (word_of_nat (length tr)) (running d)))\<rparr> in
            case rocks_write E r tr of
              Inl e \<Rightarrow> Inr (Inl e, d1)
            | Inr r' \<Rightarrow> Inr (Inr (), d1\<lparr>db := Some (r', n)\<rparr>)))"

text \<open>The lookup of \<open>get\<close>, and \<open>get\<close> with its tallies.\<close>

definition state_value :: "KeyState \<Rightarrow> bytes option" where
  "state_value st = (case st of KInsert v \<Rightarrow> Some v | KDelete \<Rightarrow> None)"

definition lookup_buffers ::
  "'r rocks_ops \<Rightarrow> 'r \<Rightarrow> nat \<Rightarrow> 'r Database \<Rightarrow> nat \<Rightarrow> bytes \<Rightarrow> bytes option result" where
  "lookup_buffers E r n d col key =
     (if length (overlay d) \<le> col then Inl index_panic
      else case map_of (overlay d ! col) key of
        Some st \<Rightarrow> Inr (state_value st)
      | None \<Rightarrow>
          if length (flushing d) \<le> col then Inl index_panic
          else case map_of (flushing d ! col) key of
            Some st \<Rightarrow> Inr (state_value st)
          | None \<Rightarrow> if n \<le> col then Inl index_panic else rocks_get E r col key)"

definition Database_get ::
  "'r rocks_ops \<Rightarrow> 'r Database \<Rightarrow> nat \<Rightarrow> bytes \<Rightarrow> bytes option result \<times> 'r Database" where
  "Database_get E d col key =
     (case db d of
        None \<Rightarrow> (Inr None, d)
      | Some (r, n) \<Rightarrow>
          let d1 = d\<lparr>running := tally_reads 1 (running d)\<rparr> in
          case lookup_buffers E r n d col key of
            Inl e \<Rightarrow> (Inl e, if length (overlay d) \<le> col then d else d1)
          | Inr v \<Rightarrow>
              (Inr v, d1\<lparr>running := tally_bytes_read
                 (word_of_nat (length key + (case v of None \<Rightarrow> 0 | Some x \<Rightarrow> length x))) (running d1)\<rparr>))"

definition Database_close :: "'r Database \<Rightarrow> 'r Database" where
  "Database_close d = d\<lparr>db := None, overlay := [], flushing := []\<rparr>"

definition num_columns :: "'r Database \<Rightarrow> nat" where
  "num_columns d = (case db d of None \<Rightarrow> 0 | Some (r, n) \<Rightarrow> n)"

text \<open>The trait methods add the access recorder; \<open>nanos\<close> is the measured time.\<close>

definition KeyValueDB_get ::
  "'r rocks_ops \<Rightarrow> 'r Database \<Rightarrow> nat \<Rightarrow> bytes \<Rightarrow> nat \<Rightarrow> bytes option result \<times> 'r Database" where
  "KeyValueDB_get E d col key nanos =
     (case Database_get E d col key of
        (Inl e, d1) \<Rightarrow> (Inl e, d1)
      | (Inr v, d1) \<Rightarrow>
          (Inr v, d1\<lparr>my_stat := record_read key v nanos (word_of_nat col) (my_stat d1)\<rparr>))"

definition KeyValueDB_write_buffered ::
  "'r Database \<Rightarrow> DBOp list \<Rightarrow> nat \<Rightarrow> 'r Database result" where
  "KeyValueDB_write_buffered d tr nanos =
     and_then (Database_write_buffered d tr)
       (\<lambda>d1. Inr (d1\<lparr>my_stat := record_write tr nanos (my_stat d1)\<rparr>))"

definition KeyValueDB_write ::
  "'r rocks_ops \<Rightarrow> 'r Database \<Rightarrow> DBOp list \<Rightarrow> nat \<Rightarrow> (unit result \<times> 'r Database) result" where
  "KeyValueDB_write E d tr nanos =
     and_then (Database_write E d tr) (\<lambda>(res, d1). case res of
         Inl e \<Rightarrow> Inr (Inl e, d1)
       | Inr _ \<Rightarrow> Inr (Inr (), d1\<lparr>my_stat := record_write tr nanos (my_stat d1)\<rparr>))"

section \<open>The store a client observes\<close>

definition observed :: "'r rocks_ops \<Rightarrow> 'r Database \<Rightarrow> contents" where
  "observed E d c k = (case fst (Database_get E d c k) of Inr v \<Rightarrow> v | Inl _ \<Rightarrow> None)"

definition rocks_view :: "'r rocks_ops \<Rightarrow> 'r \<Rightarrow> contents" where
  "rocks_view E r c k = (case rocks_get E r c k of Inr v \<Rightarrow> v | Inl _ \<Rightarrow> None)"

text \<open>The invariant of an open database with \<open>n\<close> columns: both buffers have
  \<open>n + 1\<close> maps, the extra one empty, and the keys of a map are distinct.\<close>

definition buffers_ok :: "nat \<Rightarrow> col_buffer list \<Rightarrow> bool" where
  "buffers_ok n bs \<longleftrightarrow> length bs = n + 1 \<and> bs ! n = [] \<and> list_all (\<lambda>b. distinct (map fst b)) bs"

definition Database_ok :: "nat \<Rightarrow> 'r Database \<Rightarrow> bool" where
  "Database_ok n d \<longleftrightarrow> num_columns d = n \<and> db d \<noteq> None \<and> buffers_ok n (overlay d) \<and> buffers_ok n (flushing d)"

definition no_flushing :: "'r Database \<Rightarrow> bool" where
  "no_flushing d \<longleftrightarrow> list_all (\<lambda>b. b = []) (flushing d)"

text \<open>A buffer seen as an overriding of what lies below it.\<close>

definition over :: "col_buffer list \<Rightarrow> contents \<Rightarrow> contents" where
  "over bs m c k = (case map_of (bs ! c) k of Some st \<Rightarrow> state_value st | None \<Rightarrow> m c k)"

lemma observed_ok:
  assumes "Database_ok n d" "db d = Some (r, n)"
  shows "observed E d c k =
    (if c < n then over (overlay d) (over (flushing d) (rocks_view E r)) c k else None)"
proof -
  note defs = observed_def Database_get_def lookup_buffers_def Database_ok_def buffers_ok_def
    over_def rocks_view_def Let_def
  consider "c < n" | "c = n" | "n < c" by linarith
  then show ?thesis
    using assms by cases (auto simp: defs split: option.splits sum.splits)
qed

lemma buffer_op_ok:
  assumes "buffers_ok n ov" "op_col op < n"
  obtains ov' where "buffer_op op ov = Inr ov'" "buffers_ok n ov'" "over ov' m = apply_op op (over ov m)"
proof
  let ?ov' = "ov[op_col op := AList.update (op_key op) (key_state op) (ov ! op_col op)]"
  show "buffer_op op ov = Inr ?ov'" using assms by (simp add: buffers_ok_def)
  show "buffers_ok n ?ov'" using assms
    by (auto simp: buffers_ok_def list_all_length nth_list_update distinct_update)
  show "over ?ov' m = apply_op op (over ov m)"
    using assms by (intro ext, cases op)
      (auto simp: over_def buffers_ok_def nth_list_update update_conv' state_value_def)
qed

lemma buffer_ops_ok:
  assumes "buffers_ok n ov" "ops_in_range n tr"
  shows "\<exists>ov'. fold_res buffer_op tr ov = Inr ov' \<and> buffers_ok n ov' \<and>
    (\<forall>m. over ov' m = apply_ops tr (over ov m))"
  using assms
proof (induction tr arbitrary: ov)
  case (Cons op tr)
  have r: "ops_in_range n tr" "op_col op < n" using Cons.prems by (auto simp: ops_in_range_def)
  from Cons.prems(1) r(2) obtain ov1 where 1: "buffer_op op ov = Inr ov1" "buffers_ok n ov1"
    by (rule buffer_op_ok)
  have 2: "over ov1 m = apply_op op (over ov m)" for m
    using buffer_op_ok [OF Cons.prems(1) r(2)] 1(1) by (metis sum.inject(2))
  from Cons.IH [OF 1(2) r(1)] show ?case
    using 1(1) 2 by auto
qed simp

lemma write_buffered_ok:
  assumes ok: "Database_ok n d" and rng: "ops_in_range n tr"
  obtains d' where "Database_write_buffered d tr = Inr d'" "Database_ok n d'"
    "db d' = db d" "flushing d' = flushing d"
    "observed E d' = apply_ops tr (observed E d)"
proof -
  from ok obtain r where r: "db d = Some (r, n)"
    by (auto simp: Database_ok_def num_columns_def split: option.splits)
  from ok rng obtain ov where ov: "fold_res buffer_op tr (overlay d) = Inr ov" "buffers_ok n ov"
      "\<And>m. over ov m = apply_ops tr (over (overlay d) m)"
    using buffer_ops_ok [of n "overlay d" tr] by (auto simp: Database_ok_def)
  let ?d = "d\<lparr>overlay := ov\<rparr>"
  have ok': "Database_ok n ?d" using ok ov by (simp add: Database_ok_def num_columns_def)
  have "observed E ?d c k = apply_ops tr (observed E d) c k" for c k
  proof (cases "c < n")
    case True
    have "over (overlay d) (over (flushing d) (rocks_view E r)) c = observed E d c"
      using True by (intro ext) (simp add: observed_ok [OF ok r])
    then have "apply_ops tr (over (overlay d) (over (flushing d) (rocks_view E r))) c =
               apply_ops tr (observed E d) c"
      by (rule apply_ops_cong)
    then show ?thesis using True by (simp add: observed_ok [OF ok', of r] r ov(3))
  next
    case False
    then have "apply_ops tr (observed E d) c k = observed E d c k"
      using rng by (intro apply_ops_other) (auto simp: ops_in_range_def list_all_iff)
    then show ?thesis using False by (simp add: observed_ok [OF ok', of r] observed_ok [OF ok r] r)
  qed
  then have "observed E ?d = apply_ops tr (observed E d)" by (intro ext)
  then show thesis using that [of ?d] ok' ov(1) by (simp add: Database_write_buffered_def)
qed

section \<open>Direct writes\<close>

lemma unbuffer_op_ok:
  assumes "buffers_ok n ov" "op_col op < n"
  obtains ov' where "unbuffer_op n op ov = Inr ov'" "buffers_ok n ov'"
    "\<And>m. over ov' (apply_op op m) = apply_op op (over ov m)"
proof
  let ?ov' = "ov[op_col op := AList.delete (op_key op) (ov ! op_col op)]"
  show "unbuffer_op n op ov = Inr ?ov'" using assms by (simp add: buffers_ok_def)
  show "buffers_ok n ?ov'" using assms
    by (auto simp: buffers_ok_def list_all_length nth_list_update distinct_delete)
  show "over ?ov' (apply_op op m) = apply_op op (over ov m)" for m
    using assms by (intro ext, cases op) (auto simp: over_def buffers_ok_def nth_list_update delete_conv' split: option.splits)
qed

lemma unbuffer_ops_ok:
  assumes "buffers_ok n ov" "ops_in_range n tr"
  shows "\<exists>ov'. fold_res (unbuffer_op n) tr ov = Inr ov' \<and> buffers_ok n ov' \<and>
    (\<forall>m. over ov' (apply_ops tr m) = apply_ops tr (over ov m))"
  using assms
proof (induction tr arbitrary: ov)
  case (Cons op tr)
  have r: "ops_in_range n tr" "op_col op < n" using Cons.prems by (auto simp: ops_in_range_def)
  obtain ov1 where 1: "unbuffer_op n op ov = Inr ov1" "buffers_ok n ov1"
    "\<forall>m. over ov1 (apply_op op m) = apply_op op (over ov m)"
    using unbuffer_op_ok [OF Cons.prems(1) r(2)] by metis
  from Cons.IH [OF 1(2) r(1)] show ?case using 1(1,3) by auto
qed simp

section \<open>The batch of a flush\<close>

lemma apply_column:
  assumes "distinct (map fst b)"
  shows "apply_ops (map (state_op c) b) m c' k =
    (if c' = c then (case map_of b k of Some st \<Rightarrow> state_value st | None \<Rightarrow> m c k) else m c' k)"
  using assms
proof (induction b arbitrary: m)
  case (Cons x b)
  obtain k0 st where x: "x = (k0, st)" by (cases x)
  have "map_of b k0 = None" using Cons.prems x by (simp add: map_of_eq_None_iff)
  then show ?case using Cons x by (cases st) (auto simp: state_value_def split: option.splits)
qed simp

lemma batch_of_ok:
  assumes "list_all (\<lambda>b. distinct (map fst b)) bs" "\<And>i. i < length bs \<Longrightarrow> n \<le> c0 + i \<Longrightarrow> bs ! i = []"
  shows "\<exists>batch. batch_of n c0 bs = Inr batch \<and> (\<forall>m c k. apply_ops batch m c k =
     (if c0 \<le> c \<and> c - c0 < length bs
      then (case map_of (bs ! (c - c0)) k of Some st \<Rightarrow> state_value st | None \<Rightarrow> m c k) else m c k))"
  using assms
proof (induction bs arbitrary: c0)
  case (Cons b bs)
  have "bs ! i = []" if "i < length bs" "n \<le> Suc c0 + i" for i
    using Cons.prems(2) [of "Suc i"] that by simp
  then obtain rest where rest: "batch_of n (Suc c0) bs = Inr rest" and
    app: "\<And>m c k. apply_ops rest m c k =
     (if Suc c0 \<le> c \<and> c - Suc c0 < length bs
      then (case map_of (bs ! (c - Suc c0)) k of Some st \<Rightarrow> state_value st | None \<Rightarrow> m c k) else m c k)"
    using Cons.IH [of "Suc c0"] Cons.prems(1) by auto
  have "n \<le> c0 \<Longrightarrow> b = []" using Cons.prems(2) [of 0] by simp
  moreover have "distinct (map fst b)" using Cons.prems(1) by simp
  ultimately show ?case using rest
    by (auto simp: app apply_column nth_Cons' Suc_diff_le split: option.splits)
qed simp


text \<open>The engine's documented behaviour: a batch that is accepted is applied.\<close>

locale rocks =
  fixes E :: "'r rocks_ops"
  assumes rocks_write_ok: "rocks_write E r b = Inr r' \<Longrightarrow> rocks_view E r' = apply_ops b (rocks_view E r)"
begin

lemma flush_cases:
  assumes ok: "Database_ok n d" and r: "db d = Some (r, n)" and lock: "\<not> flushing_lock d"
  obtains batch where "batch_of n 0 (overlay d) = Inr batch"
    "\<forall>m c k. c < n \<longrightarrow> apply_ops batch m c k = over (overlay d) m c k"
proof -
  have "\<exists>batch. batch_of n 0 (overlay d) = Inr batch \<and> (\<forall>m c k. apply_ops batch m c k =
     (if 0 \<le> c \<and> c - 0 < length (overlay d)
      then (case map_of (overlay d ! (c - 0)) k of Some st \<Rightarrow> state_value st | None \<Rightarrow> m c k) else m c k))"
  proof (rule batch_of_ok)
    show "list_all (\<lambda>b. distinct (map fst b)) (overlay d)"
      using ok by (simp add: Database_ok_def buffers_ok_def)
    show "overlay d ! i = []" if "i < length (overlay d)" "n \<le> 0 + i" for i
      using that ok by (simp add: Database_ok_def buffers_ok_def less_Suc_eq)
  qed
  then obtain batch where "batch_of n 0 (overlay d) = Inr batch"
      "\<forall>m c k. c < n \<longrightarrow> apply_ops batch m c k = over (overlay d) m c k"
    using ok by (auto simp: over_def Database_ok_def buffers_ok_def)
  then show thesis by (rule that)
qed

lemma flush_success:
  assumes ok: "Database_ok n d" and r: "db d = Some (r, n)" and lock: "\<not> flushing_lock d"
    and empty: "no_flushing d" and f: "Database_flush E d = (Inr (), d')"
  shows "Database_ok n d'" "no_flushing d'" "\<not> flushing_lock d'"
    "observed E d' = observed E d"
    "\<exists>r'. db d' = Some (r', n) \<and> (\<forall>c<n. rocks_view E r' c = observed E d c)"
proof -
  from ok r lock obtain batch where b: "batch_of n 0 (overlay d) = Inr batch"
    "\<forall>m c k. c < n \<longrightarrow> apply_ops batch m c k = over (overlay d) m c k" by (rule flush_cases)
  from f r lock b(1) obtain r' where w: "rocks_write E r batch = Inr r'"
    and d': "db d' = Some (r', n)" "overlay d' = flushing d" "flushing d' = map (\<lambda>_. []) (overlay d)"
      "flushing_lock d' = False"
    by (auto simp: Database_flush_def write_flushing_with_lock_def Let_def is_panic_def split: sum.splits)
  show ok': "Database_ok n d'"
    using ok d' by (auto simp: Database_ok_def buffers_ok_def num_columns_def list_all_length)
  show "no_flushing d'" using d' by (simp add: no_flushing_def list_all_iff)
  show "\<not> flushing_lock d'" using d' by simp
  have fl: "map_of (flushing d ! c) = Map.empty" if "c < n" for c
    using that empty ok by (simp add: no_flushing_def list_all_length Database_ok_def buffers_ok_def)
  have view: "rocks_view E r' c k = observed E d c k" if "c < n" for c k
    using that fl [OF that] by (simp add: rocks_write_ok [OF w] b(2) observed_ok [OF ok r])
      (simp add: over_def split: option.splits)
  show "observed E d' = observed E d"
  proof (intro ext)
    fix c k
    show "observed E d' c k = observed E d c k"
    proof (cases "c < n")
      case True
      then have "map_of (flushing d' ! c) = Map.empty"
        using d' ok by (simp add: Database_ok_def buffers_ok_def)
      then show ?thesis
        using fl [OF True] view [OF True, of k] True
        by (simp add: observed_ok [OF ok' d'(1)]) (simp add: over_def d'(2))
    qed (simp add: observed_ok [OF ok' d'(1)] observed_ok [OF ok r])
  qed
  show "\<exists>r'. db d' = Some (r', n) \<and> (\<forall>c<n. rocks_view E r' c = observed E d c)"
    using d'(1) view by blast
qed

lemma flush_failure:
  assumes ok: "Database_ok n d" and r: "db d = Some (r, n)" and lock: "\<not> flushing_lock d"
    and empty: "no_flushing d" and f: "Database_flush E d = (Inl e, d')"
  shows "Database_ok n d'" "db d' = db d" "overlay d' = flushing d" "flushing d' = overlay d"
    "observed E d' = observed E d"
proof -
  from ok r lock obtain batch where b: "batch_of n 0 (overlay d) = Inr batch" by (rule flush_cases)
  with f r lock show d': "db d' = db d" "overlay d' = flushing d" "flushing d' = overlay d"
    by (auto simp: Database_flush_def write_flushing_with_lock_def Let_def is_panic_def split: sum.splits if_splits)
  then show ok': "Database_ok n d'" using ok by (auto simp: Database_ok_def num_columns_def)
  have fl: "map_of (flushing d ! c) = Map.empty" if "c < n" for c
    using that empty ok by (simp add: no_flushing_def list_all_length Database_ok_def buffers_ok_def)
  show "observed E d' = observed E d"
  proof (intro ext)
    fix c k
    show "observed E d' c k = observed E d c k"
      using fl [of c] by (simp add: observed_ok [OF ok', of r] observed_ok [OF ok r] d' r)
        (simp add: over_def split: option.splits)
  qed
qed

end

section \<open>The wrapper provides the kvdb interface\<close>

definition cfx_kvdb :: "'r rocks_ops \<Rightarrow> nat \<Rightarrow> 'r Database kvdb_ops" where
  "cfx_kvdb E nanos = \<lparr>kv_get = (\<lambda>d c k. case fst (KeyValueDB_get E d c k nanos) of Inr v \<Rightarrow> v | Inl _ \<Rightarrow> None),
     kv_write_buffered = (\<lambda>d tr. case KeyValueDB_write_buffered d tr nanos of Inr d' \<Rightarrow> d' | Inl _ \<Rightarrow> d),
     kv_flush = (\<lambda>d. and_then (fst (Database_flush E d)) (\<lambda>_. Inr (snd (Database_flush E d))))\<rparr>"

lemma KeyValueDB_get_fst: "fst (KeyValueDB_get E d c k nanos) = fst (Database_get E d c k)"
  by (auto simp: KeyValueDB_get_def split: prod.splits sum.splits)

lemma kv_get_cfx: "kv_get (cfx_kvdb E nanos) d = observed E d"
  by (intro ext) (simp add: cfx_kvdb_def observed_def KeyValueDB_get_fst)

lemma my_stat_irrelevant [simp]:
  "observed E (d\<lparr>my_stat := s\<rparr>) = observed E d" "Database_ok n (d\<lparr>my_stat := s\<rparr>) = Database_ok n d"
  by (auto simp: fun_eq_iff observed_def Database_get_def lookup_buffers_def Let_def Database_ok_def
      num_columns_def split: option.splits sum.splits)

section \<open>Histories of commands\<close>

datatype cmd =
    CWriteBuffered "DBOp list"
  | CWrite "DBOp list"
  | CFlush
  | CGet nat bytes

fun run_cmd :: "'r rocks_ops \<Rightarrow> cmd \<Rightarrow> 'r Database \<Rightarrow> 'r Database result" where
  "run_cmd E (CWriteBuffered tr) d = Database_write_buffered d tr"
| "run_cmd E (CWrite tr) d = and_then (Database_write E d tr) (\<lambda>(res, d'). and_then res (\<lambda>_. Inr d'))"
| "run_cmd E CFlush d = and_then (fst (Database_flush E d)) (\<lambda>_. Inr (snd (Database_flush E d)))"
| "run_cmd E (CGet c k) d = and_then (fst (Database_get E d c k)) (\<lambda>_. Inr (snd (Database_get E d c k)))"

fun cmd_ops :: "cmd \<Rightarrow> DBOp list" where
  "cmd_ops (CWriteBuffered tr) = tr"
| "cmd_ops (CWrite tr) = tr"
| "cmd_ops _ = []"

definition reliable :: "'r rocks_ops \<Rightarrow> bool" where
  "reliable E \<longleftrightarrow> (\<forall>r b. \<exists>r'. rocks_write E r b = Inr r') \<and> (\<forall>r c k. \<exists>v. rocks_get E r c k = Inr v)"

fun read_in_range :: "nat \<Rightarrow> cmd \<Rightarrow> bool" where
  "read_in_range n (CGet c k) = (c < n)"
| "read_in_range n _ = True"

lemma get_keeps:
  "fst (Database_get E d c k) = Inr v \<Longrightarrow>
   \<exists>s. snd (Database_get E d c k) = d\<lparr>running := s\<rparr>"
  by (cases d) (auto simp: Database_get_def Let_def split: option.splits sum.splits)

lemma running_irrelevant [simp]:
  "observed E (d\<lparr>running := s\<rparr>) = observed E d" "Database_ok n (d\<lparr>running := s\<rparr>) = Database_ok n d"
  "no_flushing (d\<lparr>running := s\<rparr>) = no_flushing d"
  by (auto simp: fun_eq_iff observed_def Database_get_def lookup_buffers_def Let_def Database_ok_def
      num_columns_def no_flushing_def split: option.splits sum.splits)

lemma over_no_flushing: "no_flushing d \<Longrightarrow> length (flushing d) = Suc n \<Longrightarrow> c < n \<Longrightarrow> over (flushing d) m c k = m c k"
  by (simp add: no_flushing_def list_all_length over_def)

definition quiet :: "nat \<Rightarrow> 'r Database \<Rightarrow> bool" where
  "quiet n d \<longleftrightarrow> Database_ok n d \<and> no_flushing d \<and> \<not> flushing_lock d"

lemma quiet_open: "Database_open r n en now = Inr d \<Longrightarrow> quiet n d"
  by (auto simp: Database_open_def quiet_def Database_ok_def buffers_ok_def num_columns_def
      no_flushing_def list_all_iff nth_append simp del: replicate.simps split: if_splits)

context rocks
begin

lemma direct_write_ok:
  assumes q: "quiet n d" and rng: "ops_in_range n tr" and w: "Database_write E d tr = Inr (Inr (), d')"
  shows "quiet n d' \<and> observed E d' = apply_ops tr (observed E d)"
proof -
  from q obtain r where r: "db d = Some (r, n)" and ok: "Database_ok n d"
    by (auto simp: quiet_def Database_ok_def num_columns_def split: option.splits)
  from ok rng obtain ov where ov: "fold_res (unbuffer_op n) tr (overlay d) = Inr ov" "buffers_ok n ov"
      "\<And>m. over ov (apply_ops tr m) = apply_ops tr (over (overlay d) m)"
    using unbuffer_ops_ok [of n "overlay d" tr] by (auto simp: Database_ok_def)
  from w r ov(1) obtain r' where r': "rocks_write E r tr = Inr r'"
    and d': "db d' = Some (r', n)" "overlay d' = ov" "flushing d' = flushing d" "flushing_lock d' = flushing_lock d"
    by (auto simp: Database_write_def Let_def split: sum.splits)
  have ok': "Database_ok n d'" using ok ov(2) d' by (simp add: Database_ok_def num_columns_def)
  have len: "length (flushing d) = Suc n" using ok by (simp add: Database_ok_def buffers_ok_def)
  have nf: "no_flushing d" using q by (simp add: quiet_def)
  note fl = over_no_flushing [OF nf len]
  have "observed E d' c k = apply_ops tr (observed E d) c k" for c k
  proof (cases "c < n")
    case True
    have e: "over (overlay d) (rocks_view E r) c = observed E d c"
      using True by (intro ext) (simp add: observed_ok [OF ok r], simp add: over_def fl [unfolded over_def] split: option.splits)
    have "observed E d' c k = over ov (apply_ops tr (rocks_view E r)) c k"
      using True by (simp add: observed_ok [OF ok' d'(1)] d' rocks_write_ok [OF r'])
        (simp add: over_def fl [unfolded over_def] split: option.splits)
    also have "\<dots> = apply_ops tr (over (overlay d) (rocks_view E r)) c k" by (simp add: ov(3))
    also have "\<dots> = apply_ops tr (observed E d) c k"
      using apply_ops_cong [of "over (overlay d) (rocks_view E r)" c "observed E d" tr] e by simp
    finally show ?thesis .
  next
    case False
    then have "apply_ops tr (observed E d) c k = observed E d c k"
      using rng by (intro apply_ops_other) (auto simp: ops_in_range_def list_all_iff)
    then show ?thesis using False by (simp add: observed_ok [OF ok' d'(1)] observed_ok [OF ok r])
  qed
  then have "observed E d' = apply_ops tr (observed E d)" by (intro ext)
  then show ?thesis using ok' q d' by (simp add: quiet_def no_flushing_def)
qed

lemma run_cmd_quiet:
  assumes q: "quiet n d" and rng: "ops_in_range n (cmd_ops cm)" and run: "run_cmd E cm d = Inr d'"
  shows "quiet n d' \<and> observed E d' = apply_ops (cmd_ops cm) (observed E d)"
proof (cases cm)
  case (CWriteBuffered tr)
  from q rng CWriteBuffered obtain d1 where d1: "Database_write_buffered d tr = Inr d1" "Database_ok n d1"
      "flushing d1 = flushing d" "observed E d1 = apply_ops tr (observed E d)"
    using write_buffered_ok [of n d tr E] unfolding quiet_def by auto
  moreover have "flushing_lock d1 = flushing_lock d"
    using d1(1) by (auto simp: Database_write_buffered_def and_then_eq_Inr)
  ultimately show ?thesis using q run CWriteBuffered by (auto simp: quiet_def no_flushing_def)
next
  case (CWrite tr)
  then have "Database_write E d tr = Inr (Inr (), d')" using run by (auto simp: and_then_eq_Inr)
  then show ?thesis using direct_write_ok [OF q] rng CWrite by simp
next
  case CFlush
  from q obtain r where r: "db d = Some (r, n)"
    by (auto simp: quiet_def Database_ok_def num_columns_def split: option.splits)
  have f: "Database_flush E d = (Inr (), d')"
    using run CFlush by (auto simp: and_then_eq_Inr prod_eq_iff)
  from q flush_success [OF _ r _ _ f] show ?thesis using CFlush by (auto simp: quiet_def)
next
  case (CGet c k)
  then show ?thesis using run q by (auto simp: and_then_eq_Inr quiet_def dest!: get_keeps)
qed

lemma run_cmds_quiet:
  assumes "quiet n d" "ops_in_range n (concat (map cmd_ops cs))" "fold_res (run_cmd E) cs d = Inr d'"
  shows "quiet n d' \<and> observed E d' = apply_ops (concat (map cmd_ops cs)) (observed E d)"
  using assms
proof (induction cs arbitrary: d)
  case (Cons cm cs)
  from Cons.prems(3) obtain d1 where d1: "run_cmd E cm d = Inr d1" "fold_res (run_cmd E) cs d1 = Inr d'"
    by (auto simp: and_then_eq_Inr)
  have "ops_in_range n (cmd_ops cm)" "ops_in_range n (concat (map cmd_ops cs))"
    using Cons.prems(2) by (auto simp: ops_in_range_def)
  then show ?case
    using run_cmd_quiet [OF Cons.prems(1) _ d1(1)] Cons.IH [OF _ _ d1(2)] by auto
qed simp

lemma run_cmd_total:
  assumes q: "quiet n d" and rng: "ops_in_range n (cmd_ops cm)"
    and col: "read_in_range n cm" and rel: "reliable E"
  shows "\<exists>d'. run_cmd E cm d = Inr d'"
proof (cases cm)
  case (CWriteBuffered tr)
  then show ?thesis using q rng write_buffered_ok [of n d tr E] unfolding quiet_def by auto
next
  case (CWrite tr)
  from q obtain r where r: "db d = Some (r, n)" "Database_ok n d"
    by (auto simp: quiet_def Database_ok_def num_columns_def split: option.splits)
  then obtain ov where "fold_res (unbuffer_op n) tr (overlay d) = Inr ov"
    using unbuffer_ops_ok [of n "overlay d" tr] rng CWrite by (auto simp: Database_ok_def)
  moreover obtain r' where "rocks_write E r tr = Inr r'" using rel unfolding reliable_def by blast
  ultimately show ?thesis using r CWrite by (simp add: Database_write_def Let_def)
next
  case CFlush
  from q obtain r where r: "db d = Some (r, n)"
    by (auto simp: quiet_def Database_ok_def num_columns_def split: option.splits)
  from q have "Database_ok n d" "\<not> flushing_lock d" by (simp_all add: quiet_def)
  from this(1) r this(2) obtain batch where "batch_of n 0 (overlay d) = Inr batch" by (rule flush_cases)
  moreover obtain r' where "rocks_write E r batch = Inr r'" using rel unfolding reliable_def by blast
  ultimately show ?thesis using q r CFlush
    by (auto simp: Database_flush_def write_flushing_with_lock_def Let_def quiet_def is_panic_def)
next
  case (CGet c k)
  from q obtain r where r: "db d = Some (r, n)"
    by (auto simp: quiet_def Database_ok_def num_columns_def split: option.splits)
  obtain v where "rocks_get E r c k = Inr v" using rel unfolding reliable_def by blast
  then have "\<exists>v. lookup_buffers E r n d c k = Inr v"
    using q col CGet by (auto simp: lookup_buffers_def quiet_def Database_ok_def buffers_ok_def split: option.splits)
  then show ?thesis using CGet r by (auto simp: Database_get_def Let_def)
qed

lemma run_cmds_total:
  assumes "quiet n d" "ops_in_range n (concat (map cmd_ops cs))"
    "list_all (read_in_range n) cs" "reliable E"
  shows "\<exists>d'. fold_res (run_cmd E) cs d = Inr d'"
  using assms(1-3)
proof (induction cs arbitrary: d)
  case (Cons cm cs)
  have rng: "ops_in_range n (cmd_ops cm)" "ops_in_range n (concat (map cmd_ops cs))"
    using Cons.prems(2) by (auto simp: ops_in_range_def)
  obtain d1 where d1: "run_cmd E cm d = Inr d1"
    using run_cmd_total [OF Cons.prems(1) rng(1) _ assms(4)] Cons.prems(3) by auto
  have "quiet n d1" using run_cmd_quiet [OF Cons.prems(1) rng(1) d1] by blast
  then obtain d' where "fold_res (run_cmd E) cs d1 = Inr d'"
    using Cons.IH [OF _ rng(2)] Cons.prems(3) by auto
  with d1 show ?case by simp
qed simp

lemma stale_after_failed_flush:
  assumes q: "quiet n d" and c: "c < n" and st: "map_of (overlay d ! c) k = Some st"
    and f1: "Database_flush E d = (Inl (IoErr e), d1)"
    and w: "Database_write_buffered d1 [Insert c k v] = Inr d2"
    and f2: "Database_flush E d2 = (Inr (), d3)"
  shows "observed E d2 c k = Some v \<and> observed E d3 c k = state_value st"
proof -
  from q obtain r where r: "db d = Some (r, n)"
    by (auto simp: quiet_def Database_ok_def num_columns_def split: option.splits)
  note F = flush_failure [OF _ r _ _ f1]
  have ok1: "Database_ok n d1" and d1: "db d1 = Some (r, n)" "flushing d1 = overlay d" "overlay d1 = flushing d"
    using q F r unfolding quiet_def by auto
  have "ops_in_range n [Insert c k v]" using c by (simp add: ops_in_range_def)
  with ok1 obtain d' where d': "Database_write_buffered d1 [Insert c k v] = Inr d'" "Database_ok n d'"
      "db d' = db d1" "flushing d' = flushing d1" "observed E d' = apply_ops [Insert c k v] (observed E d1)"
    by (rule write_buffered_ok)
  then have ok2: "Database_ok n d2" and d2: "db d2 = Some (r, n)" "flushing d2 = overlay d"
    and o2: "observed E d2 c k = Some v" using d1 w by simp_all
  have lock: "\<not> flushing_lock d2" using f2 by (auto simp: Database_flush_def)
  from ok2 d2(1) lock obtain batch where b: "batch_of n 0 (overlay d2) = Inr batch" by (rule flush_cases)
  from f2 lock b d2 obtain r' where d3: "db d3 = Some (r', n)" "overlay d3 = overlay d"
     "flushing d3 = map (\<lambda>_. []) (overlay d2)"
    by (auto simp: Database_flush_def write_flushing_with_lock_def Let_def is_panic_def split: sum.splits)
  have ok3: "Database_ok n d3" using d3 ok2 q
    by (auto simp: quiet_def Database_ok_def buffers_ok_def num_columns_def list_all_length)
  show ?thesis using o2 st c by (simp add: observed_ok [OF ok3 d3(1)] d3 over_def)
qed

lemma direct_write_after_failed_flush:
  assumes q: "quiet n d" and c: "c < n" and st: "map_of (overlay d ! c) k = Some st"
    and f1: "Database_flush E d = (Inl (IoErr e), d1)"
    and w: "Database_write E d1 [Insert c k v] = Inr (Inr (), d4)"
  shows "(\<exists>r m. db d4 = Some (r, m) \<and> rocks_view E r c k = Some v) \<and> observed E d4 c k = state_value st"
proof -
  from q obtain r where r: "db d = Some (r, n)" and okd: "Database_ok n d"
    by (auto simp: quiet_def Database_ok_def num_columns_def split: option.splits)
  note F = flush_failure [OF _ r _ _ f1]
  have ok1: "Database_ok n d1" and d1: "db d1 = Some (r, n)" "flushing d1 = overlay d" "overlay d1 = flushing d"
    using q F r unfolding quiet_def by auto
  have fl: "flushing d ! c = []" "length (flushing d) = Suc n"
    using q c by (simp_all add: quiet_def no_flushing_def list_all_length Database_ok_def buffers_ok_def)
  from w d1 c fl obtain r' where r': "rocks_write E r [Insert c k v] = Inr r'"
    and d4: "db d4 = Some (r', n)" "overlay d4 = (flushing d)[c := []]" "flushing d4 = overlay d"
    by (auto simp: Database_write_def Let_def and_then_eq_Inr split: sum.splits)
  have "rocks_view E r' c k = Some v" using rocks_write_ok [OF r'] by simp
  moreover have "observed E d4 c k = state_value st"
    using c st fl okd by (simp add: observed_def Database_get_def lookup_buffers_def d4 Let_def Database_ok_def buffers_ok_def)
  ultimately show ?thesis using d4(1) by blast
qed

end

text \<open>The wrapper over an engine that applies accepted batches provides the
  interface, in every state no failed flush has left anything behind in.\<close>

lemma quiet_my_stat [simp]: "quiet n (d\<lparr>my_stat := s\<rparr>) = quiet n d"
  by (simp add: quiet_def no_flushing_def)

sublocale rocks \<subseteq> cfx: kvdb "cfx_kvdb E nanos" "quiet n" n for nanos n
proof
  fix s :: "'r Database" and ops :: "DBOp list"
  assume q: "quiet n s" and rng: "ops_in_range n ops"
  have ok: "Database_ok n s" using q by (simp add: quiet_def)
  from ok rng obtain d' where d': "Database_write_buffered s ops = Inr d'"
      "observed E d' = apply_ops ops (observed E s)"
    by (rule write_buffered_ok)
  have "quiet n d'" using run_cmd_quiet [OF q, of "CWriteBuffered ops" d'] rng d'(1) by simp
  moreover have w: "kv_write_buffered (cfx_kvdb E nanos) s ops = d'\<lparr>my_stat := record_write ops nanos (my_stat d')\<rparr>"
    using d' by (simp add: cfx_kvdb_def KeyValueDB_write_buffered_def)
  ultimately show "quiet n (kv_write_buffered (cfx_kvdb E nanos) s ops)" by simp
  show "kv_get (cfx_kvdb E nanos) (kv_write_buffered (cfx_kvdb E nanos) s ops) =
        apply_ops ops (kv_get (cfx_kvdb E nanos) s)"
    by (simp add: kv_get_cfx w d')
next
  fix s s' :: "'r Database"
  assume q: "quiet n s" and f: "kv_flush (cfx_kvdb E nanos) s = Inr s'"
  then have "run_cmd E CFlush s = Inr s'" by (simp add: cfx_kvdb_def)
  from run_cmd_quiet [OF q _ this] have "quiet n s'" "observed E s' = observed E s" by (simp_all add: ops_in_range_def)
  then show "quiet n s'" "kv_get (cfx_kvdb E nanos) s' = kv_get (cfx_kvdb E nanos) s" by (simp_all add: kv_get_cfx)
qed

section \<open>Engines that evaluate\<close>

text \<open>An engine that applies every batch, and one that refuses batches of more
  than \<open>limit\<close> operations.\<close>

definition limited_engine :: "nat \<Rightarrow> contents rocks_ops" where
  "limited_engine limit = \<lparr>rocks_get = (\<lambda>r c k. Inr (r c k)),
     rocks_write = (\<lambda>r b. if length b \<le> limit then Inr (apply_ops b r) else Inl (IoErr ''batch too large''))\<rparr>"

definition map_engine :: "contents rocks_ops" where
  "map_engine = \<lparr>rocks_get = (\<lambda>r c k. Inr (r c k)), rocks_write = (\<lambda>r b. Inr (apply_ops b r))\<rparr>"

lemma engine_views [simp]: "rocks_view (limited_engine limit) r = r" "rocks_view map_engine r = r"
  by (simp_all add: limited_engine_def map_engine_def rocks_view_def fun_eq_iff)

interpretation limited: rocks "limited_engine limit" for limit
proof
  fix r r' :: contents and b
  assume "rocks_write (limited_engine limit) r b = Inr r'"
  then show "rocks_view (limited_engine limit) r' = apply_ops b (rocks_view (limited_engine limit) r)"
    by simp (auto simp: limited_engine_def split: if_splits)
qed

interpretation map_eng: rocks map_engine
proof
  fix r r' :: contents and b
  assume "rocks_write map_engine r b = Inr r'"
  then show "rocks_view map_engine r' = apply_ops b (rocks_view map_engine r)"
    by simp (auto simp: map_engine_def)
qed

text \<open>C10. On an open database over a reliable engine, every history of buffered
  writes, direct writes, flushes and reads, in columns of the database, completes,
  and what the store then returns for any column and key is the result of applying
  all the writes of both kinds in order: the overlay, the flushing buffer and the
  engine together behave as one map.\<close>

theorem cfx_history_refines_map:
  assumes "rocks E" and "Database_open r n en now = Inr d"
    and "ops_in_range n (concat (map cmd_ops cs))" and "list_all (read_in_range n) cs"
    and "reliable E"
  shows "\<exists>d'. fold_res (run_cmd E) cs d = Inr d' \<and>
              observed E d' = apply_ops (concat (map cmd_ops cs)) (observed E d)"
proof -
  have q: "quiet n d" using assms(2) by (rule quiet_open)
  obtain d' where "fold_res (run_cmd E) cs d = Inr d'"
    using rocks.run_cmds_total [OF assms(1) q assms(3-5)] by blast
  then show ?thesis using rocks.run_cmds_quiet [OF assms(1) q assms(3)] by blast
qed

theorem cfx_history_refines_map_witness:
  "\<exists>d d'. Database_open (\<lambda>_ _. None) 2 False 0 = Inr d \<and>
     fold_res (run_cmd map_engine)
       [CWriteBuffered [Insert 1 [7] [1]], CFlush, CWriteBuffered [Delete 1 [7]], CWrite [Insert 1 [7] [3]], CGet 1 [7]] d = Inr d' \<and>
     observed map_engine d' = apply_ops [Insert 1 [7] [1], Delete 1 [7], Insert 1 [7] [3]] (observed map_engine d)"
proof -
  obtain d :: "contents Database" where d: "Database_open (\<lambda>_ _. None) 2 False 0 = Inr d"
    by (simp add: Database_open_def)
  have "\<exists>d'. fold_res (run_cmd map_engine)
       [CWriteBuffered [Insert 1 [7] [1]], CFlush, CWriteBuffered [Delete 1 [7]], CWrite [Insert 1 [7] [3]], CGet 1 [7]] d = Inr d' \<and>
     observed map_engine d' = apply_ops (concat (map cmd_ops [CWriteBuffered [Insert 1 [7] [1]], CFlush,
       CWriteBuffered [Delete 1 [7]], CWrite [Insert 1 [7] [3]], CGet 1 [7]])) (observed map_engine d)"
    by (rule cfx_history_refines_map [OF map_eng.rocks_axioms d])
      (auto simp: ops_in_range_def map_engine_def reliable_def)
  with d show ?thesis by auto
qed

text \<open>C33. A flush that the engine refuses loses nothing by itself, but the
  entries it leaves in the flushing buffer hide later writes of their keys.  A
  direct write that the engine accepts is hidden at once, because a write clears
  only the overlay.  A buffered write is read until the next flush that succeeds:
  the flush swaps the old entries back into the overlay, so the store then returns
  the old value, not the one just written.\<close>

theorem cfx_stale_read_after_failed_flush:
  assumes "rocks E" and "quiet n d" and "c < n" and "map_of (overlay d ! c) k = Some st"
    and "Database_flush E d = (Inl (IoErr e), d1)"
    and "Database_write_buffered d1 [Insert c k v] = Inr d2"
    and "Database_flush E d2 = (Inr (), d3)"
    and "Database_write E d1 [Insert c k v] = Inr (Inr (), d4)"
  shows "observed E d2 c k = Some v \<and> observed E d3 c k = state_value st \<and>
    (\<exists>r m. db d4 = Some (r, m) \<and> rocks_view E r c k = Some v) \<and> observed E d4 c k = state_value st"
  using rocks.stale_after_failed_flush [OF assms(1-7)] rocks.direct_write_after_failed_flush [OF assms(1-5,8)] by blast

definition stale_db :: "contents Database" where
  "stale_db = \<lparr>db = Some (\<lambda>_ _. None, 1), overlay = [[([7], KInsert [1]), ([8], KInsert [1])], []],
     flushing = [[], []], flushing_lock = False, running = RunningDbStats_new 0, my_stat = MyStat_new False\<rparr>"

theorem cfx_stale_read_witness:
  "\<exists>d1 d2 d3 d4. Database_flush (limited_engine 1) stale_db = (Inl (IoErr ''batch too large''), d1) \<and>
     Database_write_buffered d1 [Insert 0 [7] [2]] = Inr d2 \<and>
     Database_flush (limited_engine 1) d2 = (Inr (), d3) \<and>
     Database_write (limited_engine 1) d1 [Insert 0 [7] [2]] = Inr (Inr (), d4) \<and>
     observed (limited_engine 1) d2 0 [7] = Some [2] \<and> observed (limited_engine 1) d3 0 [7] = Some [1] \<and>
     observed (limited_engine 1) d4 0 [7] = Some [1]"
proof -
  define d1 where "d1 = snd (Database_flush (limited_engine 1) stale_db)"
  have f1: "Database_flush (limited_engine 1) stale_db = (Inl (IoErr ''batch too large''), d1)"
    unfolding d1_def
    by (simp add: Database_flush_def write_flushing_with_lock_def limited_engine_def stale_db_def is_panic_def)
  have d1: "overlay d1 = [[], []]" "flushing_lock d1 = False" "db d1 = db stale_db"
    unfolding d1_def
    by (simp_all add: Database_flush_def write_flushing_with_lock_def limited_engine_def stale_db_def is_panic_def)
  define d2 where "d2 = d1\<lparr>overlay := [[([7], KInsert [2])], []]\<rparr>"
  have w: "Database_write_buffered d1 [Insert 0 [7] [2]] = Inr d2"
    by (simp add: Database_write_buffered_def d1 d2_def)
  define d3 where "d3 = snd (Database_flush (limited_engine 1) d2)"
  have f2: "Database_flush (limited_engine 1) d2 = (Inr (), d3)"
    by (simp add: d3_def Database_flush_def write_flushing_with_lock_def limited_engine_def d2_def d1
        stale_db_def is_panic_def)
  have "quiet 1 stale_db"
    by (simp add: quiet_def Database_ok_def buffers_ok_def num_columns_def no_flushing_def stale_db_def)
  moreover obtain d4 where w2: "Database_write (limited_engine 1) d1 [Insert 0 [7] [2]] = Inr (Inr (), d4)"
    by (simp add: Database_write_def limited_engine_def d1 stale_db_def Let_def)
  moreover have "map_of (overlay stale_db ! 0) [7] = Some (KInsert [1])" by (simp add: stale_db_def)
  ultimately have "observed (limited_engine 1) d2 0 [7] = Some [2] \<and> observed (limited_engine 1) d3 0 [7] = state_value (KInsert [1]) \<and>
      observed (limited_engine 1) d4 0 [7] = state_value (KInsert [1])"
    using cfx_stale_read_after_failed_flush [OF limited.rocks_axioms _ _ _ f1 w f2 w2, of 1 "KInsert [1]"] by simp
  with f1 w f2 w2 show ?thesis by (auto simp: state_value_def)
qed

end
