(* ===== verification/CfxAdmin.thy ===== *)
theory CfxAdmin
  imports CfxRocksdb BenchOptions
begin

text \<open>
  The administration of the RocksDB wrapper, the rest of \<open>cfx-kvdb-rocksdb/src/lib.rs\<close> and \<open>stats.rs\<close>: opening with
  repair, restoring from a copy, adding and dropping columns, the configuration, the statistics of the engine
  and the methods of the trait that are not implemented.  The engine and the directory it lives in are
  parameters.
\<close>

section \<open>Configuration\<close>

record CompactionProfile =
  initial_file_size :: u64
  block_size :: u64
  write_rate_limit :: "u64 option"

definition KB :: u64 where "KB = 1024"
definition MB :: u64 where "MB = 1024 * KB"
definition DB_DEFAULT_MEMORY_BUDGET_MB :: u64 where "DB_DEFAULT_MEMORY_BUDGET_MB = 128"

definition profile_ssd :: CompactionProfile where
  "profile_ssd = \<lparr>initial_file_size = 64 * MB, block_size = 16 * KB, write_rate_limit = None\<rparr>"

definition profile_hdd :: CompactionProfile where
  "profile_hdd = \<lparr>initial_file_size = 256 * MB, block_size = 64 * KB, write_rate_limit = Some (16 * MB)\<rparr>"

text \<open>The first byte of the rotational flag of the drive, when the drive was found and its file read.\<close>

definition profile_auto :: "byte option \<Rightarrow> CompactionProfile" where
  "profile_auto flag = (if flag = Some 48 then profile_ssd else if flag = Some 49 then profile_hdd else profile_ssd)"

record DatabaseConfig =
  max_open_files :: nat
  cfg_memory_budget :: "u64 option"
  compaction :: CompactionProfile
  columns :: u32
  disable_wal :: bool
  enable_statistics :: bool

definition DatabaseConfig_default :: DatabaseConfig where
  "DatabaseConfig_default = \<lparr>max_open_files = 512, cfg_memory_budget = None, compaction = profile_ssd, columns = 1,
     disable_wal = False, enable_statistics = True\<rparr>"

definition with_columns :: "u32 \<Rightarrow> DatabaseConfig" where
  "with_columns n = DatabaseConfig_default\<lparr>columns := n\<rparr>"

definition memory_budget_mb :: "DatabaseConfig \<Rightarrow> u64" where
  "memory_budget_mb c = (case cfg_memory_budget c of Some m \<Rightarrow> m | None \<Rightarrow> DB_DEFAULT_MEMORY_BUDGET_MB)"

definition memory_budget :: "DatabaseConfig \<Rightarrow> u64" where
  "memory_budget c = memory_budget_mb c * MB"

definition memory_budget_per_col :: "DatabaseConfig \<Rightarrow> u64 result" where
  "memory_budget_per_col c = (if columns c = 0 then Inl (Panic ''attempt to divide by zero'')
     else Inr (memory_budget c div ucast (columns c)))"

section \<open>Opening\<close>

record ('p, 'r) rocks_dir =
  rd_open :: "'p \<Rightarrow> string list \<Rightarrow> (string + 'r) \<times> 'p"
  rd_repair :: "'p \<Rightarrow> (string + unit) \<times> 'p"
  rd_marked :: "'p \<Rightarrow> bool"
  rd_mark :: "'p \<Rightarrow> 'p"
  rd_unmark :: "'p \<Rightarrow> (string + unit) \<times> 'p"
  rd_swap :: "'p \<Rightarrow> string \<Rightarrow> (string + unit) \<times> 'p"
  rd_swap_nonatomic :: "'p \<Rightarrow> string \<Rightarrow> (string + unit) \<times> 'p"
  rd_remove_dir :: "'p \<Rightarrow> string \<Rightarrow> 'p"
  rd_has_cf :: "'r \<Rightarrow> string \<Rightarrow> bool"
  rd_create_cf :: "'r \<Rightarrow> string \<Rightarrow> string + 'r"
  rd_drop_cf :: "'r \<Rightarrow> string \<Rightarrow> string + 'r"

definition col_name :: "nat \<Rightarrow> string" where
  "col_name c = ''col'' @ decimal c"

definition is_corrupted :: "string \<Rightarrow> bool" where
  "is_corrupted err \<longleftrightarrow> take 11 err = ''Corruption:'' \<or>
     take 54 err = ''Invalid argument: You have to open all column families''"

text \<open>An error of the engine that tells of corruption leaves the marker file behind.\<close>

definition check_for_corruption :: "('p, 'r) rocks_dir \<Rightarrow> 'p \<Rightarrow> (string + 'a) \<Rightarrow> 'a result \<times> 'p" where
  "check_for_corruption F p res = (case res of
     Inr x \<Rightarrow> (Inr x, p)
   | Inl s \<Rightarrow> (Inl (IoErr s), if is_corrupted s then rd_mark F p else p))"

definition opened_handles :: "('p, 'r) rocks_dir \<Rightarrow> string list \<Rightarrow> 'r \<Rightarrow> 'r result" where
  "opened_handles F names r = (if list_all (rd_has_cf F r) names then Inr r
     else Inl (Panic ''rocksdb opens a cf_handle for each cfname; qed''))"

definition create_cf :: "('p, 'r) rocks_dir \<Rightarrow> string \<Rightarrow> 'r \<Rightarrow> 'r result" where
  "create_cf F name r = (case rd_create_cf F r name of Inl s \<Rightarrow> Inl (IoErr s) | Inr r' \<Rightarrow> Inr r')"

definition repair_marked :: "('p, 'r) rocks_dir \<Rightarrow> 'p \<Rightarrow> unit result \<times> 'p" where
  "repair_marked F p = (if rd_marked F p
     then case rd_repair F p of
         (Inl s, p1) \<Rightarrow> (Inl (IoErr s), p1)
       | (Inr _, p1) \<Rightarrow> (case rd_unmark F p1 of (Inl s, p2) \<Rightarrow> (Inl (IoErr s), p2) | (Inr _, p2) \<Rightarrow> (Inr (), p2))
     else (Inr (), p))"

definition open_engine :: "('p, 'r) rocks_dir \<Rightarrow> 'p \<Rightarrow> nat \<Rightarrow> 'r result \<times> 'p" where
  "open_engine F p n = (case repair_marked F p of
     (Inl e, p1) \<Rightarrow> (Inl e, p1)
   | (Inr _, p1) \<Rightarrow>
       if n = 0 then (Inl (IoErr ''columns number cannot be 0''), p1)
       else let names = map col_name [0..<n] in
         case rd_open F p1 names of
           (Inr r, p2) \<Rightarrow> (opened_handles F names r, p2)
         | (Inl _, p2) \<Rightarrow> (case rd_open F p2 [] of
             (Inr r, p3) \<Rightarrow> (fold_res (create_cf F) names r, p3)
           | (Inl s, p3) \<Rightarrow>
               if is_corrupted s
               then case rd_repair F p3 of
                   (Inl e, p4) \<Rightarrow> (Inl (IoErr e), p4)
                 | (Inr _, p4) \<Rightarrow> (case rd_open F p4 names of
                     (Inl e, p5) \<Rightarrow> (Inl (IoErr e), p5)
                   | (Inr r, p5) \<Rightarrow> (opened_handles F names r, p5))
               else (Inl (IoErr s), p3)))"

definition Database_open_dir :: "('p, 'r) rocks_dir \<Rightarrow> 'p \<Rightarrow> DatabaseConfig \<Rightarrow> nat \<Rightarrow> 'r Database result \<times> 'p" where
  "Database_open_dir F p config now = (case open_engine F p (unat (columns config)) of
     (Inl e, p1) \<Rightarrow> (Inl e, p1)
   | (Inr r, p1) \<Rightarrow> (Database_open r (unat (columns config)) (enable_statistics config) now, p1))"

definition Database_open_default :: "('p, 'r) rocks_dir \<Rightarrow> 'p \<Rightarrow> nat \<Rightarrow> 'r Database result \<times> 'p" where
  "Database_open_default F p now = Database_open_dir F p DatabaseConfig_default now"

section \<open>Restoring\<close>

text \<open>The handles of the new database move into the old one; its statistics, its recorder and its
  flushing lock stay.\<close>

definition Database_restore ::
  "('p, 'r) rocks_dir \<Rightarrow> 'p \<Rightarrow> DatabaseConfig \<Rightarrow> string \<Rightarrow> nat \<Rightarrow> 'r Database \<Rightarrow> unit result \<times> 'p \<times> 'r Database" where
  "Database_restore F p config new_db now d =
     (let closed = Database_close d;
       swapped = (case rd_swap F p new_db of
           (Inr _, p1) \<Rightarrow> (True, rd_remove_dir F p1 new_db)
         | (Inl _, p1) \<Rightarrow> (case rd_swap_nonatomic F p1 new_db of
             (Inr _, p2) \<Rightarrow> (True, rd_remove_dir F p2 new_db)
           | (Inl _, p2) \<Rightarrow> (False, p2)))
      in if \<not> fst swapped then (Inl (IoErr ''DB restoration failed: could not swap DB directories''), snd swapped, closed)
      else case Database_open_dir F (snd swapped) config now of
          (Inl e, p3) \<Rightarrow> (Inl e, p3, closed)
        | (Inr new, p3) \<Rightarrow> (Inr (), p3, closed\<lparr>db := db new, overlay := overlay new, flushing := flushing new\<rparr>))"

section \<open>Columns\<close>

text \<open>The name is taken off before the engine is asked.\<close>

definition drop_column :: "('p, 'r) rocks_dir \<Rightarrow> 'r Database \<Rightarrow> unit result \<times> 'r Database" where
  "drop_column F d = (case db d of
     None \<Rightarrow> (Inr (), d)
   | Some (r, 0) \<Rightarrow> (Inr (), d)
   | Some (r, Suc n) \<Rightarrow> (case rd_drop_cf F r (col_name n) of
       Inl s \<Rightarrow> (Inl (IoErr s), d\<lparr>db := Some (r, n)\<rparr>)
     | Inr r' \<Rightarrow> (Inr (), d\<lparr>db := Some (r', n)\<rparr>)))"

definition add_column :: "('p, 'r) rocks_dir \<Rightarrow> 'r Database \<Rightarrow> unit result \<times> 'r Database" where
  "add_column F d = (case db d of
     None \<Rightarrow> (Inr (), d)
   | Some (r, n) \<Rightarrow> (case create_cf F (col_name n) r of
       Inl e \<Rightarrow> (Inl e, d) | Inr r' \<Rightarrow> (Inr (), d\<lparr>db := Some (r', n + 1)\<rparr>)))"

text \<open>Methods of the trait that are not implemented.\<close>

definition KeyValueDB_get_by_prefix :: "'r Database \<Rightarrow> nat \<Rightarrow> bytes \<Rightarrow> bytes option result" where
  "KeyValueDB_get_by_prefix d col pre = Inl (Panic ''not implemented'')"

definition KeyValueDB_iter :: "'r Database \<Rightarrow> nat \<Rightarrow> (bytes \<times> bytes) list result" where
  "KeyValueDB_iter d col = Inl (Panic ''not implemented'')"

definition KeyValueDB_iter_from_prefix :: "'r Database \<Rightarrow> nat \<Rightarrow> bytes \<Rightarrow> (bytes \<times> bytes) list result" where
  "KeyValueDB_iter_from_prefix d col pre = Inl (Panic ''not implemented'')"

text \<open>Dropping the value: the result of the flush is ignored.\<close>

definition Database_drop :: "'r rocks_ops \<Rightarrow> 'r Database \<Rightarrow> 'r Database" where
  "Database_drop E d = snd (Database_flush E d)"

section \<open>Statistics of the engine\<close>

text \<open>A row of the engine's statistics is a key and, behind the first space, its values.  The parser of floating
  point numbers is a parameter; a row in another format panics.\<close>

record 'f time_value =
  tv_p50 :: 'f
  tv_p95 :: 'f
  tv_p99 :: 'f
  tv_p100 :: 'f
  tv_sum :: nat

record 'f stats_value =
  sv_count :: nat
  sv_times :: "'f time_value option"

definition row_proof :: fault where
  "row_proof = Panic ''rocksdb statistics format is valid and hasn't changed''"

definition expect_row :: "(string + 'a) \<Rightarrow> 'a result" where
  "expect_row x = (case x of Inl e \<Rightarrow> Inl row_proof | Inr y \<Rightarrow> Inr y)"

function trim_start_matches :: "string \<Rightarrow> string \<Rightarrow> string" where
  "trim_start_matches pat s =
     (if pat \<noteq> [] \<and> take (length pat) s = pat then trim_start_matches pat (drop (length pat) s) else s)"
  by pat_completeness auto
termination by (relation "measure (\<lambda>(pat, s). length s)") (auto intro!: diff_less)

declare trim_start_matches.simps [simp del]

text \<open>What follows the last separator, or all of it: the loop keeps the last match.\<close>

fun last_part :: "string \<Rightarrow> string \<Rightarrow> string \<Rightarrow> string" where
  "last_part sep found [] = found"
| "last_part sep found (c # cs) =
     (if take (length sep) (c # cs) = sep then last_part sep (drop (length sep) (c # cs)) cs else last_part sep found cs)"

definition is_space :: "char \<Rightarrow> bool" where
  "is_space c \<longleftrightarrow> c = CHR '' '' \<or> (9 \<le> (of_char c :: nat) \<and> (of_char c :: nat) \<le> 13)"

lemma shorter_rest [termination_simp]: "length (dropWhile P cs) < Suc (length cs)"
  by (simp add: length_dropWhile_le le_imp_less_Suc)

fun split_whitespace :: "string \<Rightarrow> string list" where
  "split_whitespace [] = []"
| "split_whitespace (c # cs) = (if is_space c then split_whitespace cs
     else (c # takeWhile (\<lambda>c. \<not> is_space c) cs) # split_whitespace (dropWhile (\<lambda>c. \<not> is_space c) cs))"

definition row_field :: "string list \<Rightarrow> nat \<Rightarrow> string result" where
  "row_field parts i = (if i < length parts then Inr (parts ! i) else Inl row_proof)"

definition parse_stats_row :: "(string \<Rightarrow> string + 'f) \<Rightarrow> string \<Rightarrow> (string \<times> 'f stats_value) result" where
  "parse_stats_row parse_f64 line =
     (let key = trim_start_matches ''rocksdb.'' (takeWhile (\<lambda>c. c \<noteq> CHR '' '') line) in
      case dropWhile (\<lambda>c. c \<noteq> CHR '' '') line of
        [] \<Rightarrow> Inl row_proof
      | _ # values \<Rightarrow>
          if take 5 values = ''COUNT''
          then and_then (expect_row (parse_usize (last_part '' : '' values values))) (\<lambda>n. Inr (key, \<lparr>sv_count = n, sv_times = None\<rparr>))
          else let parts = filter (\<lambda>s. s \<noteq> '':'') (split_whitespace values);
            float = (\<lambda>i. and_then (row_field parts i) (\<lambda>s. expect_row (parse_f64 s)));
            int = (\<lambda>i. and_then (row_field parts i) (\<lambda>s. expect_row (parse_usize s))) in
            and_then (float 1) (\<lambda>p50. and_then (float 3) (\<lambda>p95. and_then (float 5) (\<lambda>p99. and_then (float 7) (\<lambda>p100.
            and_then (int 11) (\<lambda>total. and_then (int 9) (\<lambda>n.
              Inr (key, \<lparr>sv_count = n, sv_times = Some \<lparr>tv_p50 = p50, tv_p95 = p95, tv_p99 = p99, tv_p100 = p100, tv_sum = total\<rparr>\<rparr>))))))))"

fun text_lines :: "string \<Rightarrow> string \<Rightarrow> string list" where
  "text_lines acc [] = (if acc = [] then [] else [acc])"
| "text_lines acc (c # cs) = (if c = CHR 0x0A
     then (if acc \<noteq> [] \<and> last acc = CHR 0x0D then butlast acc else acc) # text_lines [] cs
     else text_lines (acc @ [c]) cs)"

definition parse_rocksdb_stats :: "(string \<Rightarrow> string + 'f) \<Rightarrow> string \<Rightarrow> (string \<times> 'f stats_value) list result" where
  "parse_rocksdb_stats parse_f64 text = map_res (parse_stats_row parse_f64) (text_lines [] text)"

text \<open>Collecting into a map keeps the last row of a key.\<close>

definition get_statistics ::
  "(string \<Rightarrow> string + 'f) \<Rightarrow> string option \<Rightarrow> (string \<times> 'f stats_value) list result" where
  "get_statistics parse_f64 statistics = (case statistics of
     Some text \<Rightarrow> and_then (parse_rocksdb_stats parse_f64 text) (\<lambda>rows. Inr (rev rows)) | None \<Rightarrow> Inr [])"

datatype IoStatsKind = Overall | SincePrevious

record IoStats =
  io_transactions :: u64
  io_reads :: u64
  io_cache_reads :: u64
  io_writes :: u64
  io_bytes_read :: u64
  io_bytes_written :: u64
  io_started :: nat
  io_span :: nat

definition Database_io_stats ::
  "(string \<Rightarrow> string + 'f) \<Rightarrow> string option \<Rightarrow> IoStatsKind \<Rightarrow> nat \<Rightarrow> 'r Database \<Rightarrow> (IoStats \<times> 'r Database) result" where
  "Database_io_stats parse_f64 statistics kind now d =
     and_then (get_statistics parse_f64 statistics) (\<lambda>rows.
       let hits = word_of_nat (case map_of rows ''memtable.hit'' of Some v \<Rightarrow> sv_count v | None \<Rightarrow> 0);
         old = cache_hit_count (raw (overall (running d)));
         run = tally_cache_hit_count (hits - old) (running d);
         (taken, run') = (case kind of Overall \<Rightarrow> (overall run, run) | SincePrevious \<Rightarrow> since_previous now run) in
       Inr (\<lparr>io_transactions = transactions (raw taken), io_reads = reads (raw taken), io_cache_reads = cache_hit_count (raw taken),
              io_writes = writes (raw taken), io_bytes_read = bytes_read (raw taken), io_bytes_written = bytes_written (raw taken),
              io_started = taken_started taken, io_span = now - taken_started taken\<rparr>, d\<lparr>running := run'\<rparr>))"

lemma stats_row_examples:
  "parse_stats_row Inr ''rocksdb.memtable.hit COUNT : 17'' = Inr (''memtable.hit'', \<lparr>sv_count = 17, sv_times = None\<rparr>)"
  "parse_stats_row Inr ''rocksdb.db.get P50 : 1.5 P95 : 2.5 P99 : 3.5 P100 : 4.5 COUNT : 6 SUM : 21'' =
     Inr (''db.get'', \<lparr>sv_count = 6, sv_times = Some \<lparr>tv_p50 = ''1.5'', tv_p95 = ''2.5'', tv_p99 = ''3.5'', tv_p100 = ''4.5'', tv_sum = 21\<rparr>\<rparr>)"
  "parse_stats_row Inr ''rocksdb.memtable.hit'' = (Inl row_proof :: (string \<times> string stats_value) result)"
  by (simp_all add: parse_stats_row_def Let_def trim_start_matches.simps expect_row_def parse_usize_def to_digit_def
      is_space_def row_field_def)

section \<open>Columns and buffers\<close>

text \<open>A database has one buffer more than columns when it is opened, so one column can be added: it takes buffered
  writes, which are read back.  A second added column is counted, but has no buffer: buffering a write for it or reading it panics.\<close>

theorem second_added_column_panics:
  assumes "Database_open r n en now = Inr d" and "add_column F d = (Inr (), d1)" and "add_column F d1 = (Inr (), d2)"
  shows "(\<exists>d'. Database_write_buffered d1 [Insert n k v] = Inr d' \<and> fst (Database_get E d' n k) = Inr (Some v)) \<and>
    num_columns d2 = n + 2 \<and>
    Database_write_buffered d2 [Insert (n + 1) k v] = Inl index_panic \<and>
    fst (Database_get E d2 (n + 1) k) = Inl index_panic"
proof -
  have d: "\<exists>r'. db d1 = Some (r', n + 1)" "overlay d1 = replicate (n + 1) []" "\<exists>r'. db d2 = Some (r', n + 2)" "overlay d2 = replicate (n + 1) []"
    using assms by (auto simp: Database_open_def add_column_def split: if_splits sum.splits)
  let ?d' = "d1\<lparr>overlay := (overlay d1)[n := AList.update k (KInsert v) []]\<rparr>"
  have w: "Database_write_buffered d1 [Insert n k v] = Inr ?d'"
    using d(2) by (simp add: Database_write_buffered_def nth_append del: replicate.simps)
  have "fst (Database_get E ?d' n k) = Inr (Some v)"
    using d(1,2) by (auto simp: Database_get_def lookup_buffers_def state_value_def Let_def simp del: replicate.simps)
  then show ?thesis
    using w d by (auto simp: num_columns_def Database_write_buffered_def Database_get_def lookup_buffers_def Let_def)
qed

text \<open>C34. Dropping a column leaves its buffered writes behind, and they block the database: the next flush panics at the
  missing column while it holds the flushing mark, and since the mark is never taken back, that flush and every later one write
  nothing, whatever the engine would do.\<close>

theorem dropped_column_blocks_flushes:
  assumes "quiet (Suc n) d" and "overlay d ! n \<noteq> []" and "drop_column F d = (res, d1)"
  shows "\<exists>d2. Database_flush E d1 = (Inl index_panic, d2) \<and> db d2 = db d1 \<and>
    Database_flush E d2 = (Inl (IoErr ''Database write failure. Running low on memory perhaps?''), d2)"
proof -
  obtain r where r: "db d1 = Some (r, n)" "overlay d1 = overlay d" "flushing d1 = flushing d" "\<not> flushing_lock d1"
    using assms(1,3) by (auto simp: quiet_def Database_ok_def num_columns_def drop_column_def split: option.splits nat.splits sum.splits)
  have len: "n < length (overlay d)" using assms(1) by (simp add: quiet_def Database_ok_def buffers_ok_def)
  have "batch_of n c bs = Inl index_panic" if "c \<le> n" "n - c < length bs" "bs ! (n - c) \<noteq> []" for c bs
    using that
  proof (induction bs arbitrary: c)
    case (Cons b bs)
    then show ?case
      by (cases "c = n") (auto simp: Suc_diff_Suc nth_Cons' Suc_diff_le)
  qed simp
  from this [of 0 "overlay d"] have "batch_of n 0 (overlay d) = Inl index_panic" using len assms(2) by simp
  then show ?thesis using r
    by (auto simp: Database_flush_def write_flushing_with_lock_def Let_def is_panic_def index_panic_def)
qed

text \<open>A directory that always opens empty.\<close>

definition plain_dir :: "(unit, contents) rocks_dir" where
  "plain_dir = \<lparr>rd_open = (\<lambda>p names. (Inr (\<lambda>_ _. None), p)), rd_repair = (\<lambda>p. (Inr (), p)), rd_marked = (\<lambda>_. False), rd_mark = (\<lambda>p. p),
     rd_unmark = (\<lambda>p. (Inr (), p)), rd_swap = (\<lambda>p _. (Inr (), p)), rd_swap_nonatomic = (\<lambda>p _. (Inr (), p)), rd_remove_dir = (\<lambda>p _. p),
     rd_has_cf = (\<lambda>_ _. True), rd_create_cf = (\<lambda>r _. Inr r), rd_drop_cf = (\<lambda>r _. Inr r)\<rparr>"

definition pending_database :: "contents Database" where
  "pending_database = \<lparr>db = Some (\<lambda>_ _. None, 2), overlay = [[], [([1], KInsert [2])], []], flushing = [[], [], []], flushing_lock = False,
     running = RunningDbStats_new 0, my_stat = MyStat_new False\<rparr>"

theorem dropped_column_blocks_flushes_witness:
  "\<exists>d2. Database_flush map_engine (snd (drop_column plain_dir pending_database)) = (Inl index_panic, d2) \<and>
     fst (Database_flush map_engine d2) = Inl (IoErr ''Database write failure. Running low on memory perhaps?'')"
proof -
  have "quiet (Suc 1) pending_database" "overlay pending_database ! 1 \<noteq> []"
    by (simp_all add: quiet_def Database_ok_def num_columns_def buffers_ok_def no_flushing_def pending_database_def numeral_2_eq_2)
  from dropped_column_blocks_flushes [OF this prod.collapse [symmetric]] show ?thesis by fastforce
qed

text \<open>Restoring from a copy replaces the database or closes it.  When it succeeds, the database has the columns of its
  configuration and a client reads exactly what the new engine holds, so every write that was buffered is gone; when it
  fails, the database stays closed: a read finds nothing, which is not an error, a buffered write panics and a write
  is refused.\<close>

theorem restore_replaces_or_closes:
  "case Database_restore F p config new_db now d of (res, p', d') \<Rightarrow> (case res of
     Inr _ \<Rightarrow> (\<exists>r. db d' = Some (r, unat (columns config)) \<and> Database_ok (unat (columns config)) d' \<and> no_flushing d' \<and>
       observed E d' c k = (if c < unat (columns config) then rocks_view E r c k else None))
   | Inl _ \<Rightarrow> fst (Database_get E d' c k) = Inr None \<and>
       Database_write_buffered d' [Insert c k v] = Inl index_panic \<and>
       Database_write E d' [Insert c k v] = Inr (Inl (IoErr ''Database is closed''), d'))"
proof -
  obtain res p' d' where r: "Database_restore F p config new_db now d = (res, p', d')" by (metis prod_cases3)
  show ?thesis
  proof (cases res)
    case (Inl e)
    then have "d' = Database_close d"
      using r by (auto simp: Database_restore_def Let_def split: if_splits prod.splits sum.splits)
    then show ?thesis using r Inl
      by (simp add: Database_close_def Database_get_def Database_write_buffered_def Database_write_def)
  next
    case (Inr u)
    then obtain q q' new where new: "Database_open_dir F q config now = (Inr new, q')"
        "d' = (Database_close d)\<lparr>db := db new, overlay := overlay new, flushing := flushing new\<rparr>"
      using r by (auto simp: Database_restore_def Let_def split: if_splits prod.splits sum.splits)
    then obtain r' where o: "Database_open r' (unat (columns config)) (enable_statistics config) now = Inr new"
      by (auto simp: Database_open_dir_def split: prod.splits sum.splits)
    from quiet_open [OF o] have q: "Database_ok (unat (columns config)) d'" "no_flushing d'"
      using new(2) by (simp_all add: quiet_def Database_ok_def num_columns_def no_flushing_def)
    have "db d' = Some (r', unat (columns config))" "overlay d' = replicate (unat (columns config) + 1) []"
        "flushing d' = replicate (unat (columns config) + 1) []"
      using o new(2) by (auto simp: Database_open_def split: if_splits)
    then show ?thesis using r Inr q observed_ok [OF q(1)] by (simp add: over_def del: replicate.simps)
  qed
qed

lemma is_panic_Inl: "is_panic (Inl e) \<longleftrightarrow> (\<exists>m. e = Panic m)"
  by (cases e) (simp_all add: is_panic_def)

lemma is_panic_Inr: "\<not> is_panic (Inr v)"
  by (simp add: is_panic_def)

lemma unbuffer_keeps_shape:
  "buffers_ok n ov \<Longrightarrow> ops_in_range n tr \<Longrightarrow> \<exists>ov'. fold_res (unbuffer_op n) tr ov = Inr ov' \<and> buffers_ok n ov'"
proof (induction tr arbitrary: ov)
  case (Cons op tr)
  let ?ov = "ov[op_col op := AList.delete (op_key op) (ov ! op_col op)]"
  have r: "op_col op < n" "ops_in_range n tr" using Cons.prems(2) by (simp_all add: ops_in_range_def)
  have "buffers_ok n ?ov" using Cons.prems(1) r(1)
    by (auto simp: buffers_ok_def list_all_length nth_list_update distinct_delete)
  then show ?case using Cons.IH [of ?ov] r Cons.prems(1) by (simp add: buffers_ok_def)
qed simp

text \<open>C11. Every operation keeps the shape of an open database: both buffers have one map per column and the extra one,
  which stays empty, and no key twice.  On such a database, over an engine that answers every call with a value or an
  error and does not panic itself, no buffered write, direct write or flush of operations in range panics, and no read
  of a column in range does.\<close>

theorem cfx_operations_keep_shape:
  assumes "Database_ok n d" and "ops_in_range n tr" and "\<forall>r b. \<not> is_panic (rocks_write E r b)"
    and "\<forall>r c k. \<not> is_panic (rocks_get E r c k)"
  shows "(\<exists>d'. Database_write_buffered d tr = Inr d' \<and> Database_ok n d') \<and>
    (\<exists>res d'. Database_write E d tr = Inr (res, d') \<and> \<not> is_panic res \<and> Database_ok n d') \<and>
    (\<exists>res d'. Database_flush E d = (res, d') \<and> \<not> is_panic res \<and> Database_ok n d') \<and>
    Database_ok n (snd (Database_get E d c k)) \<and> (c < n \<longrightarrow> \<not> is_panic (fst (Database_get E d c k)))"
proof -
  obtain r where r: "db d = Some (r, n)" using assms(1) by (auto simp: Database_ok_def num_columns_def split: option.splits)
  have "\<exists>d'. Database_write_buffered d tr = Inr d' \<and> Database_ok n d'"
    using write_buffered_ok [OF assms(1,2), of E] by blast
  moreover have "\<exists>ov. fold_res (unbuffer_op n) tr (overlay d) = Inr ov \<and> buffers_ok n ov"
    using assms(1,2) unbuffer_keeps_shape by (simp add: Database_ok_def)
  then obtain ov where ov: "fold_res (unbuffer_op n) tr (overlay d) = Inr ov" "buffers_ok n ov" by blast
  have np: "\<not> is_panic (Inl e :: unit result)" if "rocks_write E r b = Inl e" for b e
    using assms(3) [rule_format, of r b] that by (simp add: is_panic_Inl)
  have "\<exists>res d'. Database_write E d tr = Inr (res, d') \<and> \<not> is_panic res \<and> Database_ok n d'"
  proof (cases "rocks_write E r tr")
    case (Inl e)
    then have "\<exists>d'. Database_write E d tr = Inr (Inl e, d') \<and> Database_ok n d'"
      using assms(1) r ov by (simp add: Database_write_def Database_ok_def num_columns_def Let_def)
    then show ?thesis using np [OF Inl] by blast
  next
    case (Inr r')
    then have "\<exists>d'. Database_write E d tr = Inr (Inr (), d') \<and> Database_ok n d'"
      using assms(1) r ov by (simp add: Database_write_def Database_ok_def num_columns_def Let_def)
    then show ?thesis by (auto simp: is_panic_def)
  qed
  moreover have "\<exists>batch. batch_of n 0 (overlay d) = Inr batch"
    using batch_of_ok [of "overlay d" n 0] assms(1) by (auto simp: Database_ok_def buffers_ok_def less_Suc_eq)
  then obtain batch where batch: "batch_of n 0 (overlay d) = Inr batch" by blast
  have clear: "buffers_ok n (map (\<lambda>_. []) (overlay d))" using assms(1) by (auto simp: Database_ok_def buffers_ok_def list_all_iff)
  have "\<exists>res d'. Database_flush E d = (res, d') \<and> \<not> is_panic res \<and> Database_ok n d'"
  proof (cases "flushing_lock d")
    case True
    then show ?thesis using assms(1) by (simp add: Database_flush_def is_panic_def)
  next
    case False
    show ?thesis
    proof (cases "rocks_write E r batch")
      case (Inl e)
      then have "\<exists>d'. Database_flush E d = (Inl e, d') \<and> Database_ok n d'"
        using assms(1) r batch False np [OF Inl]
        by (simp add: Database_flush_def write_flushing_with_lock_def Database_ok_def num_columns_def Let_def)
      then show ?thesis using np [OF Inl] by blast
    next
      case (Inr r')
      then have "\<exists>d'. Database_flush E d = (Inr (), d') \<and> Database_ok n d'"
        using assms(1) r batch False clear
        by (simp add: Database_flush_def write_flushing_with_lock_def Database_ok_def num_columns_def Let_def is_panic_def)
      then show ?thesis by (auto simp: is_panic_def)
    qed
  qed
  moreover have "Database_ok n (snd (Database_get E d c k))"
    using assms(1) r by (auto simp: Database_get_def Let_def Database_ok_def num_columns_def split: sum.splits)
  moreover have "\<not> is_panic (fst (Database_get E d c k))" if "c < n"
  proof -
    have "\<not> is_panic (lookup_buffers E r n d c k)"
      using assms(1,4) that by (simp add: lookup_buffers_def Database_ok_def buffers_ok_def is_panic_Inr split: option.split)
    then show ?thesis using r by (cases "lookup_buffers E r n d c k") (simp_all add: Database_get_def Let_def is_panic_Inr is_panic_Inl)
  qed
  ultimately show ?thesis by blast
qed

definition shape_database :: "contents Database" where
  "shape_database = \<lparr>db = Some (\<lambda>_ _. None, 1), overlay = [[([1], KInsert [2])], []], flushing = [[], []], flushing_lock = False,
     running = RunningDbStats_new 0, my_stat = MyStat_new False\<rparr>"

theorem cfx_operations_keep_shape_witness:
  "(\<exists>res d'. Database_flush (limited_engine 0) shape_database = (res, d') \<and> \<not> is_panic res \<and> Database_ok 1 d') \<and>
   \<not> is_panic (fst (Database_get (limited_engine 0) shape_database 0 [9]))"
proof -
  have e: "\<forall>r b. \<not> is_panic (rocks_write (limited_engine 0) r b)" "\<forall>r c k. \<not> is_panic (rocks_get (limited_engine 0) r c k)"
    by (simp_all add: limited_engine_def is_panic_def)
  have "Database_ok 1 shape_database" "ops_in_range 1 []"
    by (simp_all add: shape_database_def Database_ok_def num_columns_def buffers_ok_def ops_in_range_def)
  from cfx_operations_keep_shape [OF this e, of 0 "[9]"] show ?thesis by simp
qed

end
