(* ===== verification/Backends.thy ===== *)
theory Backends
  imports CfxAdmin "HOL-Library.List_Lexorder" "HOL-Library.Sublist" "HOL-Library.RBT"
begin

text \<open>
  The backends of \<open>asb-backend/src\<close>: MDBX, the RocksDB of parity, the database with counters, and the choice between
  them.  The libraries are parameters: libmdbx by the calls on transactions and cursors, a table named by its
  string, and kvdb 0.7 by its operations.  MDBX and parity keep buffered writes out of sight
  until a flush (locale \<open>deferred_store\<close>), unlike the wrapper of theory CfxRocksdb.
  An \<open>Arc<Database>\<close> is the database itself.  A panic ends the use of a database, so its state is then left out.
\<close>

section \<open>A store that shows writes at a flush\<close>

locale deferred_store =
  fixes view :: "'s \<Rightarrow> contents"
    and buffer :: "'s \<Rightarrow> DBOp list \<Rightarrow> 's"
    and flush :: "'s \<Rightarrow> 's result"
    and pending :: "'s \<Rightarrow> DBOp list"
    and cols :: nat
    and inv :: "'s \<Rightarrow> bool"
  assumes view_buffer: "view (buffer s b) = view s"
    and pending_buffer: "pending (buffer s b) = pending s @ b"
    and inv_buffer: "inv s \<Longrightarrow> inv (buffer s b)"
    and view_flush: "inv s \<Longrightarrow> flush s = Inr s' \<Longrightarrow> c < cols \<Longrightarrow> view s' c = apply_ops (pending s) (view s) c"
    and pending_flush: "inv s \<Longrightarrow> flush s = Inr s' \<Longrightarrow> pending s' = []"
    and inv_flush: "inv s \<Longrightarrow> flush s = Inr s' \<Longrightarrow> inv s'"
begin

definition buffer_all :: "DBOp list list \<Rightarrow> 's \<Rightarrow> 's" where
  "buffer_all bs s = fold (\<lambda>b s. buffer s b) bs s"

lemma buffer_all: "view (buffer_all bs s) = view s \<and> pending (buffer_all bs s) = pending s @ concat bs \<and> (inv s \<longrightarrow> inv (buffer_all bs s))"
  by (induction bs arbitrary: s) (simp_all add: buffer_all_def view_buffer pending_buffer inv_buffer)

lemma flush_shows_all:
  assumes "inv s" and "flush (buffer_all bs s) = Inr s'" and "c < cols"
  shows "view s' c = apply_ops (pending s @ concat bs) (view s) c \<and> pending s' = []"
  using buffer_all [of bs s] assms view_flush [of "buffer_all bs s" s' c] pending_flush [of "buffer_all bs s" s'] by simp

end

section \<open>MDBX\<close>

record ('e, 'c) mdbx_ops =
  mx_create_db :: "'e \<Rightarrow> string \<Rightarrow> 'e result"
  mx_cursor :: "'e \<Rightarrow> string \<Rightarrow> 'c result"
  mx_set_key :: "'e \<Rightarrow> 'c \<Rightarrow> bytes \<Rightarrow> (bytes \<times> bytes) option result \<times> 'c"
  mx_set_range :: "'e \<Rightarrow> 'c \<Rightarrow> bytes \<Rightarrow> (bytes \<times> bytes) option result \<times> 'c"
  mx_first :: "'e \<Rightarrow> 'c \<Rightarrow> (bytes \<times> bytes) option result \<times> 'c"
  mx_next :: "'e \<Rightarrow> 'c \<Rightarrow> (bytes \<times> bytes) option result \<times> 'c"
  mx_current :: "'e \<Rightarrow> 'c \<Rightarrow> (bytes \<times> bytes) option result"
  mx_put :: "'e \<Rightarrow> 'c \<Rightarrow> bytes \<Rightarrow> bytes \<Rightarrow> ('e \<times> 'c) result"
  mx_del :: "'e \<Rightarrow> 'c \<Rightarrow> ('e \<times> 'c) result"
  mx_commit :: "'e \<Rightarrow> unit result \<times> 'e"
  mx_begin :: "'e \<Rightarrow> 'e result"

record 'e MdbxDatabase =
  mdbx_txn :: 'e
  mdbx_buffer :: "DBOp list list"
  mdbx_cols :: nat

definition mdbx_build :: "('e, 'c) mdbx_ops \<Rightarrow> 'e \<Rightarrow> 'e result" where
  "mdbx_build X env = unwrap_result (mx_begin X env)"

definition make_backend :: "Options \<Rightarrow> 'e \<Rightarrow> 'e MdbxDatabase" where
  "make_backend opts e = \<lparr>mdbx_txn = e, mdbx_buffer = [], mdbx_cols = num_cols opts\<rparr>"

definition open_database :: "('e, 'c) mdbx_ops \<Rightarrow> Options \<Rightarrow> 'e result \<Rightarrow> 'e MdbxDatabase result" where
  "open_database X opts env = and_then (unwrap_result env) (\<lambda>env. and_then (mdbx_build X env) (\<lambda>e. Inr (make_backend opts e)))"

text \<open>The result of the commit is not looked at; the next transaction starts on what the environment then holds.\<close>

definition mdbx_commit :: "('e, 'c) mdbx_ops \<Rightarrow> 'e \<Rightarrow> 'e result" where
  "mdbx_commit X e = mdbx_build X (snd (mx_commit X e))"

definition table_name :: "nat \<Rightarrow> string" where
  "table_name col = ''table'' @ decimal col"

definition open_cursor :: "('e, 'c) mdbx_ops \<Rightarrow> nat \<Rightarrow> 'e \<Rightarrow> ('e \<times> 'c) result" where
  "open_cursor X col e = and_then (unwrap_result (mx_create_db X e (table_name col))) (\<lambda>e1.
     and_then (unwrap_result (mx_cursor X e1 (table_name col))) (\<lambda>c. Inr (e1, c)))"

definition is_prefix :: "bytes \<Rightarrow> bytes \<Rightarrow> bool" where
  "is_prefix p full \<longleftrightarrow> \<not> length full < length p \<and> take (length p) full = p"

definition mdbx_get :: "('e, 'c) mdbx_ops \<Rightarrow> 'e MdbxDatabase \<Rightarrow> nat \<Rightarrow> bytes \<Rightarrow> (bytes option result \<times> 'e MdbxDatabase) result" where
  "mdbx_get X d col key = and_then (open_cursor X col (mdbx_txn d)) (\<lambda>(e, c).
     Inr (and_then (fst (mx_set_key X e c key)) (\<lambda>out. Inr (map_option snd out)), d\<lparr>mdbx_txn := e\<rparr>))"

definition mdbx_get_by_prefix :: "('e, 'c) mdbx_ops \<Rightarrow> 'e MdbxDatabase \<Rightarrow> nat \<Rightarrow> bytes \<Rightarrow> (bytes option \<times> 'e MdbxDatabase) result" where
  "mdbx_get_by_prefix X d col pre = and_then (open_cursor X col (mdbx_txn d)) (\<lambda>(e, c).
     and_then (unwrap_result (fst (mx_set_range X e c pre))) (\<lambda>out.
       Inr (case out of Some (k, v) \<Rightarrow> if is_prefix pre k then Some v else None | None \<Rightarrow> None, d\<lparr>mdbx_txn := e\<rparr>)))"

definition mdbx_write_buffered :: "'e MdbxDatabase \<Rightarrow> DBOp list \<Rightarrow> 'e MdbxDatabase" where
  "mdbx_write_buffered d tr = d\<lparr>mdbx_buffer := mdbx_buffer d @ [tr]\<rparr>"

fun open_cursors :: "('e, 'c) mdbx_ops \<Rightarrow> nat list \<Rightarrow> 'e \<Rightarrow> ('e \<times> 'c list) result" where
  "open_cursors X [] e = Inr (e, [])"
| "open_cursors X (col # rest) e = and_then (open_cursor X col e) (\<lambda>(e1, c).
     and_then (open_cursors X rest e1) (\<lambda>(e2, cs). Inr (e2, c # cs)))"

fun flush_op :: "('e, 'c) mdbx_ops \<Rightarrow> DBOp \<Rightarrow> 'e \<times> 'c list \<Rightarrow> ('e \<times> 'c list) result" where
  "flush_op X (Insert col key val) (e, cs) =
     (if length cs \<le> col then Inl index_panic
      else and_then (unwrap_result (mx_put X e (cs ! col) key val)) (\<lambda>(e1, c1). Inr (e1, cs[col := c1])))"
| "flush_op X (Delete col key) (e, cs) =
     (if length cs \<le> col then Inl index_panic
      else case mx_set_key X e (cs ! col) key of (found, c1) \<Rightarrow>
        and_then (unwrap_result found) (\<lambda>found.
          if found \<noteq> None then and_then (unwrap_result (mx_del X e c1)) (\<lambda>(e1, c2). Inr (e1, cs[col := c2]))
          else Inr (e, cs[col := c1])))"

definition mdbx_flush :: "('e, 'c) mdbx_ops \<Rightarrow> 'e MdbxDatabase \<Rightarrow> 'e MdbxDatabase result" where
  "mdbx_flush X d = and_then (open_cursors X [0..<mdbx_cols d] (mdbx_txn d)) (\<lambda>(e, cs).
     and_then (fold_res (flush_op X) (concat (mdbx_buffer d)) (e, cs)) (\<lambda>(e1, _).
     and_then (mdbx_commit X e1) (\<lambda>e2. Inr (d\<lparr>mdbx_txn := e2, mdbx_buffer := []\<rparr>))))"

text \<open>Iterators: a cursor and the prefix; \<open>next\<close> compares the prefix with the value.\<close>

definition mdbx_iter :: "('e, 'c) mdbx_ops \<Rightarrow> 'e MdbxDatabase \<Rightarrow> nat \<Rightarrow> ('e MdbxDatabase \<times> 'c \<times> bytes) result" where
  "mdbx_iter X d col = and_then (open_cursor X col (mdbx_txn d)) (\<lambda>(e, c). case mx_first X e c of (r, c1) \<Rightarrow>
     and_then (unwrap_result r) (\<lambda>_. Inr (d\<lparr>mdbx_txn := e\<rparr>, c1, [])))"

definition mdbx_iter_from_prefix ::
  "('e, 'c) mdbx_ops \<Rightarrow> 'e MdbxDatabase \<Rightarrow> nat \<Rightarrow> bytes \<Rightarrow> ('e MdbxDatabase \<times> 'c \<times> bytes) result" where
  "mdbx_iter_from_prefix X d col pre = and_then (open_cursor X col (mdbx_txn d)) (\<lambda>(e, c). case mx_set_key X e c pre of (r, c1) \<Rightarrow>
     and_then (unwrap_result r) (\<lambda>_. Inr (d\<lparr>mdbx_txn := e\<rparr>, c1, pre)))"

definition mdbx_next :: "('e, 'c) mdbx_ops \<Rightarrow> 'e \<Rightarrow> bytes \<Rightarrow> 'c \<Rightarrow> ((bytes \<times> bytes) option \<times> 'c) result" where
  "mdbx_next X e pre c = and_then (unwrap_result (mx_current X e c)) (\<lambda>cur. case cur of
     None \<Rightarrow> Inr (None, c)
   | Some (k, v) \<Rightarrow> if \<not> is_prefix pre v then Inr (None, c)
       else case mx_next X e c of (r, c1) \<Rightarrow> and_then (unwrap_result r) (\<lambda>_. Inr (Some (k, v), c1)))"

text \<open>What a client gets that takes the first \<open>n\<close> items: \<open>take(n).collect()\<close>, fewer when the iterator ends.\<close>

fun mdbx_collect :: "('e, 'c) mdbx_ops \<Rightarrow> 'e \<Rightarrow> bytes \<Rightarrow> nat \<Rightarrow> 'c \<Rightarrow> (bytes \<times> bytes) list result" where
  "mdbx_collect X e pre 0 c = Inr []"
| "mdbx_collect X e pre (Suc n) c = and_then (mdbx_next X e pre c) (\<lambda>(r, c1). case r of
     None \<Rightarrow> Inr [] | Some kv \<Rightarrow> and_then (mdbx_collect X e pre n c1) (\<lambda>kvs. Inr (kv # kvs)))"

definition mdbx_restore :: "'e MdbxDatabase \<Rightarrow> string \<Rightarrow> 'e MdbxDatabase result" where
  "mdbx_restore d new_db = Inl (Panic ''not implemented'')"

section \<open>The laws of MDBX\<close>

text \<open>A table is a list of entries in the order of their keys, a cursor stands at a position of it.  Only
  successful calls are described, and only where the documentation of MDBX fixes them: what a cursor does once it has been
  moved past the last entry, and what \<open>get_current\<close> answers there, is left open.  A commit is relied on in its own
  hypothesis.\<close>

locale mdbx =
  fixes X :: "('e, 'c) mdbx_ops"
    and entries :: "'e \<Rightarrow> string \<Rightarrow> (bytes \<times> bytes) list"
    and table_of :: "'c \<Rightarrow> string"
    and pos :: "'c \<Rightarrow> nat"
  assumes sorted_entries: "sorted (map fst (entries e t)) \<and> distinct (map fst (entries e t))"
    and create_db: "mx_create_db X e t = Inr e1 \<Longrightarrow> entries e1 = entries e"
    and cursor: "mx_cursor X e t = Inr c \<Longrightarrow> table_of c = t"
    and set_key: "mx_set_key X e c k = (Inr r, c1) \<Longrightarrow> table_of c1 = table_of c \<and>
        r = map_option (Pair k) (map_of (entries e (table_of c)) k) \<and>
        (r = None \<or> pos c1 < length (entries e (table_of c)) \<and> r = Some (entries e (table_of c) ! pos c1))"
    and set_range: "mx_set_range X e c k = (Inr r, c1) \<Longrightarrow> r = find (\<lambda>(k', _). k \<le> k') (entries e (table_of c))"
    and first: "mx_first X e c = (Inr r, c1) \<Longrightarrow> entries e (table_of c) \<noteq> [] \<Longrightarrow> table_of c1 = table_of c \<and> pos c1 = 0"
    and next_pos: "mx_next X e c = (Inr r, c1) \<Longrightarrow> Suc (pos c) < length (entries e (table_of c)) \<Longrightarrow>
        table_of c1 = table_of c \<and> pos c1 = Suc (pos c)"
    and current: "mx_current X e c = Inr r \<Longrightarrow> pos c < length (entries e (table_of c)) \<Longrightarrow>
        r = Some (entries e (table_of c) ! pos c)"
    and put: "mx_put X e c k v = Inr (e1, c1) \<Longrightarrow> table_of c1 = table_of c \<and>
        map_of (entries e1 t) = (if t = table_of c then (map_of (entries e t))(k \<mapsto> v) else map_of (entries e t))"
    and del: "mx_del X e c = Inr (e1, c1) \<Longrightarrow> pos c < length (entries e (table_of c)) \<Longrightarrow> table_of c1 = table_of c \<and>
        map_of (entries e1 t) = (if t = table_of c
          then (map_of (entries e t))(fst (entries e (table_of c) ! pos c) := None) else map_of (entries e t))"
    and commit: "mx_commit X e = (Inr (), e1) \<Longrightarrow> entries e1 = entries e"
    and begins: "mx_begin X e = Inr e1 \<Longrightarrow> entries e1 = entries e"

definition mdbx_view :: "('e \<Rightarrow> string \<Rightarrow> (bytes \<times> bytes) list) \<Rightarrow> 'e MdbxDatabase \<Rightarrow> contents" where
  "mdbx_view entries d c k = map_of (entries (mdbx_txn d) (table_name c)) k"

definition commits :: "('e, 'c) mdbx_ops \<Rightarrow> bool" where
  "commits X \<longleftrightarrow> (\<forall>e. fst (mx_commit X e) = Inr ())"

lemma table_name_inject: "a < 2 ^ 64 \<Longrightarrow> b < 2 ^ 64 \<Longrightarrow> table_name a = table_name b \<longleftrightarrow> a = b"
  by (metis parse_decimal same_append_eq sum.inject(2) table_name_def)

definition cursors_ok :: "('c \<Rightarrow> string) \<Rightarrow> nat \<Rightarrow> 'c list \<Rightarrow> bool" where
  "cursors_ok table_of n cs \<longleftrightarrow> length cs = n \<and> (\<forall>i < n. table_of (cs ! i) = table_name i)"

definition table_view :: "('e \<Rightarrow> string \<Rightarrow> (bytes \<times> bytes) list) \<Rightarrow> 'e \<Rightarrow> contents" where
  "table_view entries e c = map_of (entries e (table_name c))"

lemma cursors_ok_update: "cursors_ok table_of n cs \<Longrightarrow> table_of c = table_of (cs ! i) \<Longrightarrow> cursors_ok table_of n (cs[i := c])"
  by (cases "i < length cs") (auto simp: cursors_ok_def nth_list_update)

context mdbx
begin

lemma open_cursor_ok: "open_cursor X col e = Inr (e1, c) \<Longrightarrow> entries e1 = entries e \<and> table_of c = table_name col"
  by (auto simp: open_cursor_def and_then_eq_Inr dest!: create_db cursor)

lemma open_cursors_ok:
  "open_cursors X cols e = Inr (e1, cs) \<Longrightarrow> entries e1 = entries e \<and> map table_of cs = map table_name cols"
proof (induction cols arbitrary: e e1 cs)
  case (Cons col cols)
  then show ?case by (fastforce simp: and_then_eq_Inr dest!: open_cursor_ok)
qed simp

lemma open_all_ok: "open_cursors X [0..<n] e = Inr (e1, cs) \<Longrightarrow> entries e1 = entries e \<and> cursors_ok table_of n cs"
proof -
  assume a: "open_cursors X [0..<n] e = Inr (e1, cs)"
  from open_cursors_ok [OF a] have m: "entries e1 = entries e" "map table_of cs = map table_name [0..<n]" by simp_all
  have l: "length cs = n" using arg_cong [OF m(2), of length] by simp
  have "table_of (cs ! i) = table_name i" if "i < n" for i
    using arg_cong [OF m(2), of "\<lambda>xs. xs ! i"] that l by simp
  then show ?thesis using m(1) l by (simp add: cursors_ok_def)
qed

lemma flush_op_ok:
  assumes "flush_op X op (e, cs) = Inr (e1, cs1)" and "cursors_ok table_of n cs" and "n \<le> 2 ^ 32" and "c < n"
  shows "cursors_ok table_of n cs1 \<and> table_view entries e1 c = apply_op op (table_view entries e) c"
proof (cases op)
  case (Insert col key val)
  then obtain c1 where p: "mx_put X e (cs ! col) key val = Inr (e1, c1)" "cs1 = cs[col := c1]" "col < n"
    using assms(1,2) by (auto simp: and_then_eq_Inr cursors_ok_def split: if_splits)
  have t: "table_of (cs ! col) = table_name col" using assms(2) p(3) by (simp add: cursors_ok_def)
  have "table_name c = table_name col \<longleftrightarrow> c = col" using table_name_inject [of c col] assms(3,4) p(3) by simp
  then show ?thesis
    using put [OF p(1), of "table_name c"] t p(2) cursors_ok_update [OF assms(2)] Insert by (auto simp: table_view_def)
next
  case (Delete col key)
  then have col: "col < n" using assms(1,2) by (auto simp: cursors_ok_def split: if_splits)
  have t: "table_of (cs ! col) = table_name col" using assms(2) col by (simp add: cursors_ok_def)
  have same: "table_name c = table_name col \<longleftrightarrow> c = col" using table_name_inject [of c col] assms(3,4) col by simp
  obtain r c1 where f: "mx_set_key X e (cs ! col) key = (Inr r, c1)"
    using assms(1) Delete by (auto simp: and_then_eq_Inr split: if_splits prod.splits)
  note k = set_key [OF f]
  show ?thesis
  proof (cases r)
    case None
    then have "cs1 = cs[col := c1]" "e1 = e" using assms(1) Delete f by (auto split: if_splits)
    moreover have "table_view entries e col key = None" using k None t by (simp add: table_view_def)
    then have "(table_view entries e col)(key := None) = table_view entries e col" by (rule fun_upd_idem)
    ultimately show ?thesis using k cursors_ok_update [OF assms(2)] Delete by simp
  next
    case (Some kv)
    then obtain c2 where d: "mx_del X e c1 = Inr (e1, c2)" "cs1 = cs[col := c2]"
      using assms(1) Delete f by (auto simp: and_then_eq_Inr split: if_splits)
    have q: "pos c1 < length (entries e (table_of c1))" "entries e (table_of c1) ! pos c1 = kv" using k Some by auto
    moreover have "fst kv = key" using k Some by (metis fst_conv map_option_eq_Some)
    ultimately have q: "pos c1 < length (entries e (table_of c1))" "entries e (table_of c1) ! pos c1 = kv" "fst kv = key" by blast+
    show ?thesis using del [OF d(1) q(1), of "table_name c"] q k t same d(2) cursors_ok_update [OF assms(2)] Delete
      by (auto simp: table_view_def)
  qed
qed

lemma flush_ops_ok:
  "fold_res (flush_op X) tr (e, cs) = Inr (e1, cs1) \<Longrightarrow> cursors_ok table_of n cs \<Longrightarrow> n \<le> 2 ^ 32 \<Longrightarrow> c < n \<Longrightarrow>
   table_view entries e1 c = apply_ops tr (table_view entries e) c"
proof (induction tr arbitrary: e cs)
  case (Cons op tr)
  obtain e2 cs2 where s: "flush_op X op (e, cs) = Inr (e2, cs2)" "fold_res (flush_op X) tr (e2, cs2) = Inr (e1, cs1)"
    using Cons.prems(1) by (auto simp: and_then_eq_Inr)
  from flush_op_ok [OF s(1) Cons.prems(2-4)] Cons.IH [OF s(2) _ Cons.prems(3,4)]
  have "table_view entries e1 c = apply_ops tr (table_view entries e2) c" "table_view entries e2 c = apply_op op (table_view entries e) c"
    by simp_all
  then show ?case using apply_ops_cong [of "table_view entries e2" c "apply_op op (table_view entries e)"] by simp
qed simp

lemma mdbx_flush_ok:
  assumes "mdbx_flush X d = Inr d1" and "commits X" and "mdbx_cols d \<le> 2 ^ 32" and "c < mdbx_cols d"
  shows "table_view entries (mdbx_txn d1) c = apply_ops (concat (mdbx_buffer d)) (table_view entries (mdbx_txn d)) c \<and>
    mdbx_buffer d1 = [] \<and> mdbx_cols d1 = mdbx_cols d"
proof -
  obtain e cs e1 cs1 e2 where f: "open_cursors X [0..<mdbx_cols d] (mdbx_txn d) = Inr (e, cs)"
      "fold_res (flush_op X) (concat (mdbx_buffer d)) (e, cs) = Inr (e1, cs1)" "mdbx_commit X e1 = Inr e2"
      "d1 = d\<lparr>mdbx_txn := e2, mdbx_buffer := []\<rparr>"
    using assms(1) by (auto simp: mdbx_flush_def and_then_eq_Inr)
  have "fst (mx_commit X e1) = Inr ()" using assms(2) by (simp add: commits_def)
  then have "entries (snd (mx_commit X e1)) = entries e1" using commit by (metis prod.collapse)
  then have c: "entries e2 = entries e1" using f(3) begins by (auto simp: mdbx_commit_def mdbx_build_def)
  from open_all_ok [OF f(1)] have o: "entries e = entries (mdbx_txn d)" "cursors_ok table_of (mdbx_cols d) cs" by simp_all
  from flush_ops_ok [OF f(2) o(2) assms(3,4)] show ?thesis using f(4) c o(1) by (simp add: table_view_def [abs_def])
qed

lemma mdbx_get_ok: "mdbx_get X d col key = Inr (Inr r, d1) \<Longrightarrow> r = table_view entries (mdbx_txn d) col key"
proof -
  assume a: "mdbx_get X d col key = Inr (Inr r, d1)"
  then obtain e c out c1 where f: "open_cursor X col (mdbx_txn d) = Inr (e, c)" "mx_set_key X e c key = (Inr out, c1)" "r = map_option snd out"
    by (auto simp: mdbx_get_def and_then_eq_Inr prod_eq_iff)
  then show ?thesis using open_cursor_ok [OF f(1)] set_key [OF f(2)] by (auto simp: table_view_def option.map_comp comp_def)
qed

text \<open>MDBX is a deferred store.\<close>

lemma mdbx_deferred:
  assumes "commits X"
  shows "deferred_store (\<lambda>d. table_view entries (mdbx_txn d)) mdbx_write_buffered (mdbx_flush X) (\<lambda>d. concat (mdbx_buffer d)) n
    (\<lambda>d. mdbx_cols d = n \<and> n \<le> 2 ^ 32)"
proof
  fix s s' c
  show "table_view entries (mdbx_txn s') c = apply_ops (concat (mdbx_buffer s)) (table_view entries (mdbx_txn s)) c"
    if "mdbx_cols s = n \<and> n \<le> 2 ^ 32" "mdbx_flush X s = Inr s'" "c < n" using mdbx_flush_ok [OF that(2) assms] that by simp
  show "concat (mdbx_buffer s') = []" "mdbx_cols s' = n \<and> n \<le> 2 ^ 32"
    if "mdbx_cols s = n \<and> n \<le> 2 ^ 32" "mdbx_flush X s = Inr s'"
    using that by (auto simp: mdbx_flush_def and_then_eq_Inr)
qed (simp_all add: mdbx_write_buffered_def)

lemma collect_ok:
  "mdbx_collect X e pre n c = Inr kvs \<Longrightarrow> pos c + n \<le> length (entries e (table_of c)) \<Longrightarrow>
   kvs = takeWhile (\<lambda>(k, v). is_prefix pre v) (take n (drop (pos c) (entries e (table_of c))))"
proof (induction n arbitrary: c kvs)
  case (Suc n)
  let ?es = "entries e (table_of c)"
  have p: "pos c < length ?es" using Suc.prems(2) by simp
  obtain k v where kv: "?es ! pos c = (k, v)" by fastforce
  have here: "drop (pos c) ?es = (k, v) # drop (Suc (pos c)) ?es" using Cons_nth_drop_Suc [OF p] kv by simp
  obtain cur where cur: "mx_current X e c = Inr cur" using Suc.prems(1) by (auto simp: mdbx_next_def and_then_eq_Inr)
  have cur: "mx_current X e c = Inr (Some (k, v))" using cur current [OF cur p] kv by simp
  show ?case
  proof (cases "is_prefix pre v")
    case False
    then show ?thesis using Suc.prems(1) cur by (simp add: mdbx_next_def here)
  next
    case True
    obtain r c1 kvs1 where nx: "mx_next X e c = (Inr r, c1)" and rest: "mdbx_collect X e pre n c1 = Inr kvs1" "kvs = (k, v) # kvs1"
      using Suc.prems(1) True cur by (auto simp: mdbx_next_def and_then_eq_Inr split: prod.splits)
    have "kvs1 = takeWhile (\<lambda>(k, v). is_prefix pre v) (take n (drop (Suc (pos c)) ?es))"
    proof (cases n)
      case 0 then show ?thesis using rest(1) by simp
    next
      case (Suc m)
      then show ?thesis using next_pos [OF nx] Suc.IH [OF rest(1)] Suc.prems(2) by simp
    qed
    then show ?thesis using True rest(2) by (simp add: here)
  qed
qed simp

lemma entries_from:
  assumes "i < length (entries e t)" and "fst (entries e t ! i) = key"
  shows "drop i (entries e t) = filter (\<lambda>(k, v). key \<le> k) (entries e t)"
proof -
  let ?es = "entries e t"
  have mono: "fst (?es ! a) \<le> fst (?es ! b)" if "a \<le> b" "b < length ?es" for a b
    using sorted_nth_mono [of "map fst ?es" a b] sorted_entries [of e t] that by simp
  have neq: "fst (?es ! a) \<noteq> fst (?es ! b)" if "a < b" "b < length ?es" for a b
    using sorted_entries [of e t] that nth_eq_iff_index_eq [of "map fst ?es" a b] by simp
  have low: "filter (\<lambda>(k, v). key \<le> k) (take i ?es) = []"
  proof (rule filter_False, rule ballI)
    fix x assume "x \<in> set (take i ?es)"
    then obtain a where "a < i" "x = ?es ! a" using assms(1) by (auto simp: in_set_conv_nth)
    then show "\<not> (case x of (k, v) \<Rightarrow> key \<le> k)"
      using mono [of a i] neq [of a i] assms by (auto simp: case_prod_beta)
  qed
  have "filter (\<lambda>(k, v). key \<le> k) (drop i ?es) = drop i ?es"
  proof (rule filter_True, rule ballI)
    fix x assume "x \<in> set (drop i ?es)"
    then obtain b where "i \<le> b" "b < length ?es" "x = ?es ! b" using assms(1)
      by (auto simp: in_set_conv_nth) (metis add.commute le_add1 less_diff_conv)
    then show "case x of (k, v) \<Rightarrow> key \<le> k" using mono [of i b] assms(2) by (simp add: case_prod_beta)
  qed
  then have "filter (\<lambda>(k, v). key \<le> k) (take i ?es @ drop i ?es) = drop i ?es" using low by (simp only: filter_append) simp
  then show ?thesis by simp
qed

end

lemma is_prefix_simps [simp]:
  "is_prefix [] b" "\<not> is_prefix (x # p) []" "is_prefix (x # p) (y # b) \<longleftrightarrow> x = y \<and> is_prefix p b"
  by (auto simp: is_prefix_def)

lemma prefix_le: "is_prefix p k \<Longrightarrow> p \<le> k"
proof (induction p arbitrary: k)
  case (Cons x p)
  then show ?case by (cases k) simp_all
qed simp

lemma prefix_between: "is_prefix p b \<Longrightarrow> p \<le> a \<Longrightarrow> a \<le> b \<Longrightarrow> is_prefix p a"
proof (induction p arbitrary: a b)
  case (Cons x p)
  obtain y b' where b: "b = y # b'" "x = y" "is_prefix p b'" using Cons.prems(1) by (cases b) simp_all
  obtain z a' where a: "a = z # a'" using Cons.prems(2) by (cases a) simp_all
  have "z = x" "p \<le> a'" "a' \<le> b'" using Cons.prems(2,3) a b by auto
  then show ?case using Cons.IH [OF b(3)] a by simp
qed simp

text \<open>The lookup by prefix finds the first key with the prefix, since no other key lies between.\<close>

lemma find_by_prefix:
  "sorted (map fst es) \<Longrightarrow>
   (case find (\<lambda>(k, _). p \<le> k) es of Some (k, v) \<Rightarrow> if is_prefix p k then Some v else None | None \<Rightarrow> None) =
   map_option snd (find (\<lambda>(k, _). is_prefix p k) es)"
proof (induction es)
  case (Cons e es)
  obtain k v where e: "e = (k, v)" by (cases e)
  show ?case
  proof (cases "p \<le> k \<and> \<not> is_prefix p k")
    case True
    have "\<not> is_prefix p (fst x)" if "x \<in> set es" for x
      using that True Cons.prems e prefix_between [of p "fst x" k] by auto
    then have "find (\<lambda>(k, _). is_prefix p k) es = None" by (force simp: find_None_iff)
    then show ?thesis using True e by simp
  next
    case False
    then show ?thesis using Cons e prefix_le [of p k] by (cases "is_prefix p k") simp_all
  qed
qed simp

end
