(* ===== verification/BackendStores.thy ===== *)
theory BackendStores
  imports Backends
begin

text \<open>
  The other backends and the choice between them: the wrapper of the RocksDB of parity and the database with counters
  of \<open>asb-backend/src\<close>; then a concrete MDBX, tables as red-black trees, and what a client
  sees of the backends.
\<close>

section \<open>The RocksDB of parity\<close>

record 's kvdb07_ops =
  k7_get :: "'s \<Rightarrow> nat \<Rightarrow> bytes \<Rightarrow> bytes option result"
  k7_get_by_prefix :: "'s \<Rightarrow> nat \<Rightarrow> bytes \<Rightarrow> bytes option"
  k7_write :: "'s \<Rightarrow> DBOp list \<Rightarrow> unit result \<times> 's"
  k7_iter :: "'s \<Rightarrow> nat \<Rightarrow> (bytes \<times> bytes) list"
  k7_iter_with_prefix :: "'s \<Rightarrow> nat \<Rightarrow> bytes \<Rightarrow> (bytes \<times> bytes) list"
  k7_restore :: "'s \<Rightarrow> string \<Rightarrow> unit result \<times> 's"

record 's WrappedDataBase =
  wr_db :: 's
  buffered_transactions :: "DBOp list"

definition wrapped_from :: "'s \<Rightarrow> 's WrappedDataBase" where
  "wrapped_from s = \<lparr>wr_db = s, buffered_transactions = []\<rparr>"

definition parity_open :: "'s result \<Rightarrow> 's WrappedDataBase result" where
  "parity_open opened = and_then (unwrap_result opened) (\<lambda>s. Inr (wrapped_from s))"

definition wrapped_get :: "'s kvdb07_ops \<Rightarrow> 's WrappedDataBase \<Rightarrow> nat \<Rightarrow> bytes \<Rightarrow> bytes option result" where
  "wrapped_get K w col key = k7_get K (wr_db w) col key"

definition wrapped_get_by_prefix :: "'s kvdb07_ops \<Rightarrow> 's WrappedDataBase \<Rightarrow> nat \<Rightarrow> bytes \<Rightarrow> bytes option" where
  "wrapped_get_by_prefix K w col pre = k7_get_by_prefix K (wr_db w) col pre"

fun to_07 :: "DBOp \<Rightarrow> DBOp" where
  "to_07 (Insert col key val) = Insert col key val"
| "to_07 (Delete col key) = Delete col key"

definition wrapped_write_buffered :: "'s WrappedDataBase \<Rightarrow> DBOp list \<Rightarrow> 's WrappedDataBase" where
  "wrapped_write_buffered w tr = w\<lparr>buffered_transactions := buffered_transactions w @ map to_07 tr\<rparr>"

text \<open>The buffer is taken before the batch is written.\<close>

definition wrapped_flush :: "'s kvdb07_ops \<Rightarrow> 's WrappedDataBase \<Rightarrow> unit result \<times> 's WrappedDataBase" where
  "wrapped_flush K w = (case k7_write K (wr_db w) (buffered_transactions w) of
     (res, s) \<Rightarrow> (res, \<lparr>wr_db = s, buffered_transactions = []\<rparr>))"

definition wrapped_iter :: "'s kvdb07_ops \<Rightarrow> 's WrappedDataBase \<Rightarrow> nat \<Rightarrow> (bytes \<times> bytes) list" where
  "wrapped_iter K w col = k7_iter K (wr_db w) col"

definition wrapped_iter_from_prefix :: "'s kvdb07_ops \<Rightarrow> 's WrappedDataBase \<Rightarrow> nat \<Rightarrow> bytes \<Rightarrow> (bytes \<times> bytes) list" where
  "wrapped_iter_from_prefix K w col pre = k7_iter_with_prefix K (wr_db w) col pre"

definition wrapped_restore :: "'s kvdb07_ops \<Rightarrow> 's WrappedDataBase \<Rightarrow> string \<Rightarrow> unit result \<times> 's WrappedDataBase" where
  "wrapped_restore K w new_db = (case k7_restore K (wr_db w) new_db of (res, s) \<Rightarrow> (res, w\<lparr>wr_db := s\<rparr>))"

text \<open>What is relied on: a batch that is accepted is applied, a batch that is refused changes nothing.\<close>

definition k7_view :: "'s kvdb07_ops \<Rightarrow> 's \<Rightarrow> contents" where
  "k7_view K s c k = (case k7_get K s c k of Inr v \<Rightarrow> v | Inl e \<Rightarrow> None)"

locale kvdb07 =
  fixes K :: "'s kvdb07_ops"
  assumes written: "k7_write K s b = (Inr (), s1) \<Longrightarrow> k7_view K s1 = apply_ops b (k7_view K s)"
    and refused: "k7_write K s b = (Inl e, s1) \<Longrightarrow> k7_view K s1 = k7_view K s"

lemma to_07_id [simp]: "map to_07 tr = tr"
proof -
  have "to_07 op = op" for op by (cases op) simp_all
  then show ?thesis by (simp add: map_idI)
qed

lemma wrapped_deferred:
  assumes "kvdb07 K"
  shows "deferred_store (\<lambda>w. k7_view K (wr_db w)) wrapped_write_buffered
    (\<lambda>w. and_then (fst (wrapped_flush K w)) (\<lambda>_. Inr (snd (wrapped_flush K w)))) buffered_transactions n (\<lambda>_. True)"
  using kvdb07.written [OF assms]
  by unfold_locales (auto simp: wrapped_write_buffered_def wrapped_flush_def and_then_eq_Inr split: prod.splits)

section \<open>The database with counters\<close>

record 'r DatabaseWithMetrics =
  dm_db :: "'r Database"
  dm_reads :: u64
  dm_writes :: u64
  dm_bytes_read :: u64
  dm_bytes_written :: u64

definition DatabaseWithMetrics_new :: "'r Database \<Rightarrow> 'r DatabaseWithMetrics" where
  "DatabaseWithMetrics_new d = \<lparr>dm_db = d, dm_reads = 0, dm_writes = 0, dm_bytes_read = 0, dm_bytes_written = 0\<rparr>"

definition dm_get :: "'r rocks_ops \<Rightarrow> 'r DatabaseWithMetrics \<Rightarrow> nat \<Rightarrow> bytes \<Rightarrow> (bytes option result \<times> 'r DatabaseWithMetrics) result" where
  "dm_get E m col key = (case Database_get E (dm_db m) col key of (res, d) \<Rightarrow>
     case res of
       Inl (Panic msg) \<Rightarrow> Inl (Panic msg)
     | _ \<Rightarrow> Inr (res, m\<lparr>dm_db := d, dm_reads := dm_reads m + 1,
         dm_bytes_read := dm_bytes_read m + word_of_nat (case res of Inr (Some x) \<Rightarrow> length x | _ \<Rightarrow> 0)\<rparr>))"

definition dm_get_by_prefix :: "'r DatabaseWithMetrics \<Rightarrow> nat \<Rightarrow> bytes \<Rightarrow> (bytes option \<times> 'r DatabaseWithMetrics) result" where
  "dm_get_by_prefix m col pre = and_then (KeyValueDB_get_by_prefix (dm_db m) col pre) (\<lambda>res.
     Inr (res, m\<lparr>dm_reads := dm_reads m + 1,
       dm_bytes_read := dm_bytes_read m + word_of_nat (case res of Some x \<Rightarrow> length x | None \<Rightarrow> 0)\<rparr>))"

fun value_bytes :: "DBOp \<Rightarrow> nat" where
  "value_bytes (Insert col key val) = length val"
| "value_bytes (Delete col key) = 0"

definition dm_count :: "DBOp list \<Rightarrow> 'r DatabaseWithMetrics \<Rightarrow> 'r DatabaseWithMetrics" where
  "dm_count tr m = m\<lparr>dm_writes := dm_writes m + word_of_nat (length tr),
     dm_bytes_written := dm_bytes_written m + word_of_nat (sum_list (map value_bytes tr))\<rparr>"

definition dm_write_buffered :: "'r DatabaseWithMetrics \<Rightarrow> DBOp list \<Rightarrow> 'r DatabaseWithMetrics result" where
  "dm_write_buffered m tr = (let m1 = dm_count tr m in
     and_then (Database_write_buffered (dm_db m1) tr) (\<lambda>d. Inr (m1\<lparr>dm_db := d\<rparr>)))"

definition dm_write :: "'r rocks_ops \<Rightarrow> 'r DatabaseWithMetrics \<Rightarrow> DBOp list \<Rightarrow> (unit result \<times> 'r DatabaseWithMetrics) result" where
  "dm_write E m tr = (let m1 = dm_count tr m in
     and_then (Database_write E (dm_db m1) tr) (\<lambda>(res, d). Inr (res, m1\<lparr>dm_db := d\<rparr>)))"

definition dm_flush :: "'r rocks_ops \<Rightarrow> 'r DatabaseWithMetrics \<Rightarrow> unit result \<times> 'r DatabaseWithMetrics" where
  "dm_flush E m = (case Database_flush E (dm_db m) of (res, d) \<Rightarrow> (res, m\<lparr>dm_db := d\<rparr>))"

definition dm_iter :: "'r DatabaseWithMetrics \<Rightarrow> nat \<Rightarrow> (bytes \<times> bytes) list result" where
  "dm_iter m col = KeyValueDB_iter (dm_db m) col"

definition dm_iter_from_prefix :: "'r DatabaseWithMetrics \<Rightarrow> nat \<Rightarrow> bytes \<Rightarrow> (bytes \<times> bytes) list result" where
  "dm_iter_from_prefix m col pre = KeyValueDB_iter_from_prefix (dm_db m) col pre"

definition dm_restore :: "('p, 'r) rocks_dir \<Rightarrow> 'p \<Rightarrow> DatabaseConfig \<Rightarrow> string \<Rightarrow> nat \<Rightarrow> 'r DatabaseWithMetrics \<Rightarrow>
    unit result \<times> 'p \<times> 'r DatabaseWithMetrics" where
  "dm_restore F p config new_db now m = (case Database_restore F p config new_db now (dm_db m) of
     (res, p1, d) \<Rightarrow> (res, p1, m\<lparr>dm_db := d\<rparr>))"

definition dm_metrics :: "'r DatabaseWithMetrics \<Rightarrow> (string \<times> u64) list" where
  "dm_metrics m = [(''kvdb_reads'', dm_reads m), (''kvdb_writes'', dm_writes m), (''kvdb_bytes_read'', dm_bytes_read m),
     (''kvdb_bytes_written'', dm_bytes_written m)]"

text \<open>The counters do not touch the database.\<close>

lemma dm_write_buffered_db: "and_then (dm_write_buffered m tr) (\<lambda>m1. Inr (dm_db m1)) = Database_write_buffered (dm_db m) tr"
  by (cases "Database_write_buffered (dm_db m) tr") (simp_all add: dm_write_buffered_def dm_count_def Let_def)

section \<open>The choice\<close>

text \<open>Without the feature \<open>parity-backend\<close>; an LMPTs build does not set the statistics.\<close>

definition cfx_config :: "bool \<Rightarrow> byte option \<Rightarrow> Options \<Rightarrow> DatabaseConfig" where
  "cfx_config lmpts flag opts =
     (let config = (with_columns (word_of_nat (num_cols opts)))\<lparr>cfg_memory_budget := Some (opt_cache_size opts),
        compaction := profile_auto flag, disable_wal := False\<rparr>
      in if lmpts then config else config\<lparr>enable_statistics := \<not> opt_no_stat opts\<rparr>)"

definition cfx_open :: "bool \<Rightarrow> byte option \<Rightarrow> ('p, 'r) rocks_dir \<Rightarrow> 'p \<Rightarrow> Options \<Rightarrow> nat \<Rightarrow> 'r Database result \<times> 'p" where
  "cfx_open lmpts flag F p opts now = (case Database_open_dir F p (cfx_config lmpts flag opts) now of
     (res, p1) \<Rightarrow> (unwrap_result res, p1))"

datatype ('r, 'e, 's) store =
    CfxStore "'r Database"
  | ParityStore "'s WrappedDataBase"
  | MemoryStore contents
  | MdbxStore "'e MdbxDatabase"

definition backend :: "bool \<Rightarrow> 'r Database result \<Rightarrow> 's result \<Rightarrow> 'e MdbxDatabase result \<Rightarrow> Options \<Rightarrow> ('r, 'e, 's) store result" where
  "backend parity cfx par mdb opts = (case opt_backend opts of
     RocksDB \<Rightarrow> if parity then and_then (parity_open par) (\<lambda>w. Inr (ParityStore w)) else and_then cfx (\<lambda>d. Inr (CfxStore d))
   | InMemoryDB \<Rightarrow> Inr (MemoryStore (\<lambda>_ _. None))
   | MDBX \<Rightarrow> and_then mdb (\<lambda>m. Inr (MdbxStore m)))"

section \<open>A concrete MDBX\<close>

type_synonym mem_tables = "string \<Rightarrow> (bytes, bytes) rbt"

definition key_pos :: "'k \<Rightarrow> ('k \<times> 'v) list \<Rightarrow> nat" where
  "key_pos k es = length (takeWhile (\<lambda>(k', _). k' \<noteq> k) es)"

lemma key_pos_nth: "map_of es k = Some v \<Longrightarrow> key_pos k es < length es \<and> es ! key_pos k es = (k, v)"
  by (induction es) (auto simp: key_pos_def split: if_splits)

definition mem_mdbx :: "(mem_tables, string \<times> nat) mdbx_ops" where
  "mem_mdbx = \<lparr>mx_create_db = (\<lambda>e t. Inr e), mx_cursor = (\<lambda>e t. Inr (t, 0)),
     mx_set_key = (\<lambda>e (t, i) k. (Inr (map_option (Pair k) (RBT.lookup (e t) k)), (t, key_pos k (RBT.entries (e t))))),
     mx_set_range = (\<lambda>e (t, i) k. (Inr (find (\<lambda>(k', _). k \<le> k') (RBT.entries (e t))), (t, i))),
     mx_first = (\<lambda>e (t, i). (Inr None, (t, 0))),
     mx_next = (\<lambda>e (t, i). (Inr None, (t, Suc i))),
     mx_current = (\<lambda>e (t, i). Inr (if i < length (RBT.entries (e t)) then Some (RBT.entries (e t) ! i) else None)),
     mx_put = (\<lambda>e (t, i) k v. Inr (e(t := RBT.insert k v (e t)), (t, i))),
     mx_del = (\<lambda>e (t, i). Inr (e(t := RBT.delete (fst (RBT.entries (e t) ! i)) (e t)), (t, i))),
     mx_commit = (\<lambda>e. (Inr (), e)), mx_begin = Inr\<rparr>"

interpretation mem: mdbx mem_mdbx "\<lambda>e t. RBT.entries (e t)" fst snd
proof
  fix e e1 :: mem_tables and c c1 :: "string \<times> nat" and k v t r
  show "sorted (map fst (RBT.entries (e t))) \<and> distinct (map fst (RBT.entries (e t)))"
    by (simp add: RBT.sorted_entries RBT.distinct_entries)
  show "fst c1 = fst c \<and> r = map_option (Pair k) (map_of (RBT.entries (e (fst c))) k) \<and>
      (r = None \<or> snd c1 < length (RBT.entries (e (fst c))) \<and> r = Some (RBT.entries (e (fst c)) ! snd c1))"
    if "mx_set_key mem_mdbx e c k = (Inr r, c1)"
    using that key_pos_nth [of "RBT.entries (e (fst c))" k]
    by (cases "RBT.lookup (e (fst c)) k") (auto simp: mem_mdbx_def map_of_entries case_prod_beta)
qed (auto simp: mem_mdbx_def map_of_entries case_prod_beta)

lemma mem_commits: "commits mem_mdbx"
  by (simp add: commits_def mem_mdbx_def)

interpretation mem_store: deferred_store "\<lambda>d. table_view (\<lambda>e t. RBT.entries (e t)) (mdbx_txn d)" mdbx_write_buffered
    "mdbx_flush mem_mdbx" "\<lambda>d. concat (mdbx_buffer d)" n "\<lambda>d. mdbx_cols d = n \<and> n \<le> 2 ^ 32" for n
  by (rule mem.mdbx_deferred [OF mem_commits])

definition plain07 :: "contents kvdb07_ops" where
  "plain07 = \<lparr>k7_get = (\<lambda>s c k. Inr (s c k)), k7_get_by_prefix = (\<lambda>_ _ _. None), k7_write = (\<lambda>s b. (Inr (), apply_ops b s)),
     k7_iter = (\<lambda>_ _. []), k7_iter_with_prefix = (\<lambda>_ _ _. []), k7_restore = (\<lambda>s _. (Inr (), s))\<rparr>"

interpretation plain07: kvdb07 plain07
  by unfold_locales (simp_all add: plain07_def k7_view_def [abs_def])

interpretation plain07_store: deferred_store "\<lambda>w. k7_view plain07 (wr_db w)" wrapped_write_buffered
    "\<lambda>w. and_then (fst (wrapped_flush plain07 w)) (\<lambda>_. Inr (snd (wrapped_flush plain07 w)))" buffered_transactions n "\<lambda>_. True" for n
  by (rule wrapped_deferred [OF plain07.kvdb07_axioms])

section \<open>What a client sees\<close>

text \<open>C12. MDBX shows buffered writes at a flush and not before.  After any batches, a read still gives what the transaction held;
  after a flush whose commit succeeds it gives what all the batches, in their order, make of it.  (The
  contract of the RocksDB wrapper is the other way: there a read sees a buffered write at once.)\<close>

theorem mdbx_shows_writes_at_flush:
  assumes "mdbx X entries table_of pos" and "commits X" and "mdbx_cols d \<le> 2 ^ 32" and "c < mdbx_cols d"
    and "d' = fold (\<lambda>tr d. mdbx_write_buffered d tr) trs d"
    and "mdbx_get X d' c k = Inr (Inr before, d1)" and "mdbx_flush X d' = Inr d2" and "mdbx_get X d2 c k = Inr (Inr after, d3)"
  shows "before = table_view entries (mdbx_txn d) c k \<and>
    after = apply_ops (concat (mdbx_buffer d @ trs)) (table_view entries (mdbx_txn d)) c k"
proof -
  note D = mdbx.mdbx_deferred [OF assms(1,2), of "mdbx_cols d"]
  have d': "d' = deferred_store.buffer_all mdbx_write_buffered trs d"
    using deferred_store.buffer_all_def [OF D] assms(5) by simp
  have "table_view entries (mdbx_txn d') = table_view entries (mdbx_txn d)"
    using deferred_store.buffer_all [OF D, of trs d] d' by simp
  moreover have "table_view entries (mdbx_txn d2) c = apply_ops (concat (mdbx_buffer d) @ concat trs) (table_view entries (mdbx_txn d)) c"
    using deferred_store.flush_shows_all [OF D, of d trs d2 c] assms(3,4,7) d' by simp
  ultimately show ?thesis using mdbx.mdbx_get_ok [OF assms(1,6)] mdbx.mdbx_get_ok [OF assms(1,8)] by simp
qed

lemma mem_get: "mdbx_get mem_mdbx d c k = Inr (Inr (RBT.lookup (mdbx_txn d (table_name c)) k), d)"
  by (simp add: mdbx_get_def open_cursor_def mem_mdbx_def option.map_comp comp_def option.map_ident)

theorem mdbx_shows_writes_at_flush_witness:
  "\<exists>d1 d2 d3. mdbx_get mem_mdbx (mdbx_write_buffered \<lparr>mdbx_txn = (\<lambda>_. RBT.empty), mdbx_buffer = [], mdbx_cols = 1\<rparr> [Insert 0 [1] [2]]) 0 [1] = Inr (Inr None, d1) \<and>
     mdbx_flush mem_mdbx (mdbx_write_buffered \<lparr>mdbx_txn = (\<lambda>_. RBT.empty), mdbx_buffer = [], mdbx_cols = 1\<rparr> [Insert 0 [1] [2]]) = Inr d2 \<and>
     mdbx_get mem_mdbx d2 0 [1] = Inr (Inr (Some [2]), d3)"
proof -
  let ?d = "\<lparr>mdbx_txn = (\<lambda>_. RBT.empty), mdbx_buffer = [], mdbx_cols = 1\<rparr> :: mem_tables MdbxDatabase"
  have f: "\<exists>d2. mdbx_flush mem_mdbx (mdbx_write_buffered ?d [Insert 0 [1] [2]]) = Inr d2"
    by (simp add: mdbx_flush_def mdbx_write_buffered_def open_cursor_def mem_mdbx_def mdbx_commit_def mdbx_build_def)
  then obtain d2 where d2: "mdbx_flush mem_mdbx (mdbx_write_buffered ?d [Insert 0 [1] [2]]) = Inr d2" by blast
  from mdbx_shows_writes_at_flush [OF mem.mdbx_axioms mem_commits, of ?d 0 _ "[[Insert 0 [1] [2]]]", OF _ _ refl mem_get _ mem_get, of d2] d2
  have "RBT.lookup (mdbx_txn (mdbx_write_buffered ?d [Insert 0 [1] [2]]) (table_name 0)) [1] = None \<and>
      RBT.lookup (mdbx_txn d2 (table_name 0)) [1] = Some [2]"
    by (simp add: table_view_def map_of_entries)
  then show ?thesis using d2 by (simp add: mem_get)
qed

lemma mdbx_iter_cases:
  "mdbx_iter X d col = Inr (d1, c1, p1) \<Longrightarrow>
   \<exists>c r. open_cursor X col (mdbx_txn d) = Inr (mdbx_txn d1, c) \<and> mx_first X (mdbx_txn d1) c = (Inr r, c1) \<and> p1 = []"
  by (fastforce simp: mdbx_iter_def and_then_eq_Inr case_prod_eq_Inr)

lemma mdbx_iter_from_prefix_cases:
  "mdbx_iter_from_prefix X d col pre = Inr (d1, c1, p1) \<Longrightarrow>
   \<exists>c r. open_cursor X col (mdbx_txn d) = Inr (mdbx_txn d1, c) \<and> mx_set_key X (mdbx_txn d1) c pre = (Inr r, c1) \<and> p1 = pre"
  by (fastforce simp: mdbx_iter_from_prefix_def and_then_eq_Inr case_prod_eq_Inr)

text \<open>C35. Reading a table of MDBX.  The first items of the iterator over a table are its entries in the order of their
  keys, as many as are taken, up to all of them.  The lookup by prefix gives the value of the first key with the prefix.  The
  iterator from a prefix, though, compares the prefix with the values: started on a key that is there, its items are the
  entries from that key on as long as their values have the prefix, whatever their keys are; an entry whose value has
  not the prefix ends it.  (How the iterators end after the last entry of a table is not part of this: it rests on what MDBX
  answers for a cursor that was moved past it, which its documentation does not say.)\<close>

theorem mdbx_reads_tables:
  assumes "mdbx X entries table_of pos" and "es = entries (mdbx_txn d) (table_name col)" and "n \<le> length es"
    and "mdbx_iter X d col = Inr (d1, c1, p1)" and "mdbx_collect X (mdbx_txn d1) p1 n c1 = Inr kvs"
    and "mdbx_get_by_prefix X d col pre = Inr (found, d2)"
    and "map_of es pre \<noteq> None" and "mdbx_iter_from_prefix X d col pre = Inr (d3, c3, p3)"
    and "rest = filter (\<lambda>(k, v). pre \<le> k) es" and "m \<le> length rest"
    and "mdbx_collect X (mdbx_txn d3) p3 m c3 = Inr from_prefix"
  shows "kvs = take n es \<and> found = map_option snd (find (\<lambda>(k, v). is_prefix pre k) es) \<and>
    from_prefix = takeWhile (\<lambda>(k, v). is_prefix pre v) (take m rest)"
proof -
  note oc = mdbx.open_cursor_ok [OF assms(1)]
  obtain c r where 1: "open_cursor X col (mdbx_txn d) = Inr (mdbx_txn d1, c)" "mx_first X (mdbx_txn d1) c = (Inr r, c1)" "p1 = []"
    using mdbx_iter_cases [OF assms(4)] by blast
  have "kvs = take n es"
  proof (cases "es = []")
    case True then show ?thesis using assms(3,5) by simp
  next
    case False
    then have "table_of c1 = table_name col" "pos c1 = 0" "entries (mdbx_txn d1) (table_name col) = es"
      using mdbx.first [OF assms(1) 1(2)] oc [OF 1(1)] assms(2) by auto
    then show ?thesis using mdbx.collect_ok [OF assms(1,5)] 1(3) assms(3) by (simp add: takeWhile_eq_all_conv)
  qed
  moreover obtain c' r' where 3: "open_cursor X col (mdbx_txn d) = Inr (mdbx_txn d3, c')" "mx_set_key X (mdbx_txn d3) c' pre = (Inr r', c3)" "p3 = pre"
    using mdbx_iter_from_prefix_cases [OF assms(8)] by blast
  have k: "pos c3 < length es" "fst (es ! pos c3) = pre" "table_of c3 = table_name col" "entries (mdbx_txn d3) = entries (mdbx_txn d)"
    using mdbx.set_key [OF assms(1) 3(2)] oc [OF 3(1)] assms(2,7) by (auto dest: sym [of "(pre, _)"])
  then have d: "drop (pos c3) es = rest"
    using mdbx.entries_from [OF assms(1), of "pos c3" "mdbx_txn d" "table_name col" pre] assms(2,9) by simp
  have "pos c3 + m \<le> length es" using assms(10) k(1) by (simp flip: d)
  then have "from_prefix = takeWhile (\<lambda>(k, v). is_prefix pre v) (take m rest)"
    using mdbx.collect_ok [OF assms(1,11)] k 3(3) assms(2) d by simp
  moreover obtain e c'' out c4 where 2: "open_cursor X col (mdbx_txn d) = Inr (e, c'')" "mx_set_range X e c'' pre = (Inr out, c4)"
      "found = (case out of Some (k, v) \<Rightarrow> if is_prefix pre k then Some v else None | None \<Rightarrow> None)"
    using assms(6) by (auto simp: mdbx_get_by_prefix_def and_then_eq_Inr prod_eq_iff)
  have "found = map_option snd (find (\<lambda>(k, v). is_prefix pre k) es)"
    using 2(3) mdbx.set_range [OF assms(1) 2(2)] oc [OF 2(1)] assms(2) find_by_prefix [of es pre] mdbx.sorted_entries [OF assms(1), of "mdbx_txn d" "table_name col"] by simp
  ultimately show ?thesis by blast
qed

text \<open>A table of two entries: the key \<open>[1]\<close> with the value \<open>[1, 7]\<close>, which starts with the key, and the key \<open>[1, 2]\<close> with
  the value \<open>[9]\<close>, which does not.  The iterator from the prefix \<open>[1]\<close> gives the first entry alone, although both
  keys have the prefix.\<close>

definition two_entries :: "(bytes, bytes) RBT.rbt" where
  "two_entries = RBT.insert [1, 2] [9] (RBT.insert [1] [1, 7] RBT.empty)"

lemma entries_of_two: "RBT.entries two_entries = [([1], [1, 7]), ([1, 2], [9])]"
  by (simp add: two_entries_def RBT.entries_def insert.rep_eq empty.rep_eq rbt_insert_def rbt_insert_with_key_def)

theorem mdbx_reads_tables_witness:
  "\<exists>d1 c1 p1 d3 c3 p3. mdbx_iter mem_mdbx \<lparr>mdbx_txn = (\<lambda>_. two_entries), mdbx_buffer = [], mdbx_cols = 1\<rparr> 0 = Inr (d1, c1, p1) \<and>
     mdbx_collect mem_mdbx (mdbx_txn d1) p1 2 c1 = Inr [([1], [1, 7]), ([1, 2], [9])] \<and>
     mdbx_iter_from_prefix mem_mdbx \<lparr>mdbx_txn = (\<lambda>_. two_entries), mdbx_buffer = [], mdbx_cols = 1\<rparr> 0 [1] = Inr (d3, c3, p3) \<and>
     mdbx_collect mem_mdbx (mdbx_txn d3) p3 2 c3 = Inr [([1], [1, 7])]"
proof -
  let ?d = "\<lparr>mdbx_txn = (\<lambda>_. two_entries), mdbx_buffer = [], mdbx_cols = 1\<rparr> :: mem_tables MdbxDatabase"
  note defs = open_cursor_def mem_mdbx_def entries_of_two key_pos_def mdbx_next_def is_prefix_def numeral_2_eq_2
  have i: "mdbx_iter mem_mdbx ?d 0 = Inr (?d, (table_name 0, 0), [])" by (simp add: mdbx_iter_def defs)
  have f: "mdbx_iter_from_prefix mem_mdbx ?d 0 [1] = Inr (?d, (table_name 0, 0), [1])" by (simp add: mdbx_iter_from_prefix_def defs)
  have g: "\<exists>found d2. mdbx_get_by_prefix mem_mdbx ?d 0 [1] = Inr (found, d2)" by (simp add: mdbx_get_by_prefix_def defs)
  have c: "\<exists>kvs. mdbx_collect mem_mdbx (mdbx_txn ?d) [] 2 (table_name 0, 0) = Inr kvs"
    "\<exists>kvs. mdbx_collect mem_mdbx (mdbx_txn ?d) [1] 2 (table_name 0, 0) = Inr kvs" by (simp_all add: defs)
  have l: "filter (\<lambda>(k, v). [1] \<le> k) (RBT.entries two_entries) = RBT.entries two_entries" by (simp add: entries_of_two)
  from g c obtain found d2 kvs from_prefix where r: "mdbx_get_by_prefix mem_mdbx ?d 0 [1] = Inr (found, d2)"
    "mdbx_collect mem_mdbx (mdbx_txn ?d) [] 2 (table_name 0, 0) = Inr kvs"
    "mdbx_collect mem_mdbx (mdbx_txn ?d) [1] 2 (table_name 0, 0) = Inr from_prefix" by blast
  have "kvs = [([1], [1, 7]), ([1, 2], [9])] \<and> from_prefix = [([1], [1, 7])]"
    using mdbx_reads_tables [OF mem.mdbx_axioms refl _ i r(2,1) _ f refl _ r(3)] l by (simp add: entries_of_two is_prefix_def)
  then show ?thesis using i f r by blast
qed

text \<open>The wrapper of the RocksDB of parity forgets what it could not write: it takes its buffer before the batch is
  written, so when the engine refuses the batch, a read finds none of the buffered writes, the buffer is empty, and flushing
  again writes nothing.  (The wrapper of theory CfxRocksdb keeps them.)\<close>

theorem parity_refused_flush_loses_writes:
  assumes "kvdb07 K" and "wrapped_flush K w = (Inl e, w1)"
  shows "k7_view K (wr_db w1) = k7_view K (wr_db w) \<and> buffered_transactions w1 = [] \<and>
    (case wrapped_flush K w1 of (res, w2) \<Rightarrow> k7_view K (wr_db w2) = k7_view K (wr_db w))"
proof -
  obtain s where s: "k7_write K (wr_db w) (buffered_transactions w) = (Inl e, s)" "w1 = \<lparr>wr_db = s, buffered_transactions = []\<rparr>"
    using assms(2) by (auto simp: wrapped_flush_def split: prod.splits)
  obtain res s2 where s2: "k7_write K s [] = (res, s2)" by fastforce
  have "k7_view K s2 = k7_view K s"
    using kvdb07.written [OF assms(1)] kvdb07.refused [OF assms(1)] s2 by (cases res) fastforce+
  then show ?thesis using kvdb07.refused [OF assms(1) s(1)] s s2 by (simp add: wrapped_flush_def)
qed

text \<open>An engine that refuses batches.\<close>

definition full07 :: "contents kvdb07_ops" where
  "full07 = plain07\<lparr>k7_write := (\<lambda>s b. (Inl (IoErr ''No space left on device''), s))\<rparr>"

interpretation full07: kvdb07 full07
  by unfold_locales (simp_all add: full07_def)

theorem parity_refused_flush_loses_writes_witness:
  "buffered_transactions (snd (wrapped_flush full07 (wrapped_write_buffered (wrapped_from (\<lambda>_ _. None)) [Insert 0 [1] [2]]))) = []"
proof -
  let ?w = "wrapped_write_buffered (wrapped_from (\<lambda>_ _. None)) [Insert 0 [1] [2]]"
  have "\<exists>w1. wrapped_flush full07 ?w = (Inl (IoErr ''No space left on device''), w1)"
    by (simp add: wrapped_flush_def full07_def)
  then show ?thesis using parity_refused_flush_loses_writes [OF full07.kvdb07_axioms] by fastforce
qed

end
