(* ===== verification/BenchMain.thy ===== *)
theory BenchMain
  imports LvmtBench BackendStores
begin

text \<open>
  The start of the benchmark, \<open>benchmarks/src/main.rs\<close>, and the choice of a workload in \<open>asb-tasks/src/lib.rs\<close>: the
  checks of the options, the directories, and the order in which workload, backend and storage are made.  The file
  system is a parameter, and so is the run itself, which theory BenchRun models for one storage.
\<close>

record 'p dir_ops =
  do_remove_all :: "'p \<Rightarrow> string \<Rightarrow> 'p"
  do_create_all :: "'p \<Rightarrow> string \<Rightarrow> unit result \<times> 'p"
  do_copy :: "'p \<Rightarrow> string \<Rightarrow> string \<Rightarrow> unit result \<times> 'p"

definition main_checks :: "Options \<Rightarrow> unit result" where
  "main_checks opts =
     (if opt_stat_mem opts \<and> \<not> opt_no_stat opts then Inl (Panic ''Stat will introduce memory cost'')
      else if opt_algorithm opts = LMPTS \<and> opt_backend opts \<noteq> RocksDB then Inl (Panic ''LMPTs can not change backend'')
      else Inr ())"

text \<open>A step of the preparation, with \<open>unwrap\<close>.\<close>

definition dir_step :: "unit result \<times> 'p \<Rightarrow> ('p \<Rightarrow> 'p result) \<Rightarrow> 'p result" where
  "dir_step x f = (case x of (res, p) \<Rightarrow> and_then (unwrap_result res) (\<lambda>_. f p))"

definition prepare_dirs :: "'p dir_ops \<Rightarrow> Options \<Rightarrow> 'p \<Rightarrow> 'p result" where
  "prepare_dirs F opts p =
     dir_step (do_create_all F (do_remove_all F p (opt_db_dir opts)) (opt_db_dir opts)) (\<lambda>p1.
       and_then (case warmup_from opts of
           Some saved_dir \<Rightarrow> dir_step (do_copy F p1 saved_dir (opt_db_dir opts)) Inr
         | None \<Rightarrow> Inr p1) (\<lambda>p2.
         case opt_report_dir opts of Some dir \<Rightarrow> dir_step (do_create_all F p2 dir) Inr | None \<Rightarrow> Inr p2))"

datatype workload = TraceLoad RealTrace | RandomLoad ReadThenWrite

definition make_tasks :: "(Options \<Rightarrow> bool \<Rightarrow> RealTrace result) \<Rightarrow> Options \<Rightarrow> workload result" where
  "make_tasks load_trace opts = (if opt_real_trace opts
     then and_then (load_trace opts (opt_warmup_from opts = None)) (\<lambda>t. Inr (TraceLoad t))
     else Inr (RandomLoad (ReadThenWrite_new opts)))"

definition bench_main ::
  "'p dir_ops \<Rightarrow> (Options \<Rightarrow> bool \<Rightarrow> RealTrace result) \<Rightarrow> ('p \<Rightarrow> ('r, 'e, 's) store result) \<Rightarrow> bool \<Rightarrow>
   (workload \<Rightarrow> Storage \<Rightarrow> ('r, 'e, 's) store \<Rightarrow> 'out outcome) \<Rightarrow> Options \<Rightarrow> 'p \<Rightarrow> 'out outcome" where
  "bench_main F load_trace open_store lmpts_feature run opts p =
     then_do (Some (main_checks opts)) (\<lambda>_.
     then_do (Some (prepare_dirs F opts p)) (\<lambda>p1.
     then_do (Some (make_tasks load_trace opts)) (\<lambda>tasks.
     then_do (Some (open_store p1)) (\<lambda>store.
     then_do (Some (open_storage lmpts_feature opts)) (\<lambda>storage. run tasks storage store)))))"

section \<open>What reaches the run\<close>

definition store_fits :: "Backend \<Rightarrow> ('r, 'e, 's) store \<Rightarrow> bool" where
  "store_fits b st = (case st of
     CfxStore d \<Rightarrow> b = RocksDB | ParityStore w \<Rightarrow> b = RocksDB | MemoryStore m \<Rightarrow> b = InMemoryDB | MdbxStore m \<Rightarrow> b = MDBX)"

text \<open>A run that returns was started with options that go together: memory is measured only without statistics, LMPTs run on
  RocksDB with their feature, a single tree has one of the depths that are compiled in, and the store is of the
  kind that was chosen.\<close>

theorem bench_main_starts_consistently:
  assumes "bench_main F load_trace (\<lambda>p1. backend parity (cfx p1) (par p1) (mdb p1) opts) lmpts_feature run opts p = Some (Inr out)"
  shows "\<exists>tasks storage st. run tasks storage st = Some (Inr out) \<and> store_fits (opt_backend opts) st \<and>
    (opt_stat_mem opts \<longrightarrow> opt_no_stat opts) \<and>
    (storage = LmptsStorage \<longrightarrow> opt_backend opts = RocksDB \<and> lmpts_feature) \<and>
    (\<forall>n. storage = AmtStorage n \<longrightarrow> 20 \<le> n \<and> n \<le> 28) \<and>
    (case tasks of TraceLoad t \<Rightarrow> opt_real_trace opts | RandomLoad r \<Rightarrow> \<not> opt_real_trace opts \<and> r = ReadThenWrite_new opts)"
proof -
  obtain p1 tasks st storage where m: "main_checks opts = Inr ()" "make_tasks load_trace opts = Inr tasks"
      "backend parity (cfx p1) (par p1) (mdb p1) opts = Inr st" "open_storage lmpts_feature opts = Inr storage" "run tasks storage st = Some (Inr out)"
    using assms by (auto simp: bench_main_def then_do_eq_Inr)
  have "store_fits (opt_backend opts) st"
    using m(3) by (auto simp: backend_def store_fits_def and_then_eq_Inr split: Backend.splits if_splits)
  moreover have "opt_stat_mem opts \<longrightarrow> opt_no_stat opts" using m(1) by (auto simp: main_checks_def split: if_splits)
  moreover have "storage = LmptsStorage \<longrightarrow> opt_backend opts = RocksDB \<and> lmpts_feature"
    using m(1,4) by (auto simp: main_checks_def open_storage_def split: if_splits AuthAlgo.splits)
  moreover have "\<forall>n. storage = AmtStorage n \<longrightarrow> 20 \<le> n \<and> n \<le> 28"
    using m(4) by (auto simp: open_storage_def split: if_splits AuthAlgo.splits)
  moreover have "case tasks of TraceLoad t \<Rightarrow> opt_real_trace opts | RandomLoad r \<Rightarrow> \<not> opt_real_trace opts \<and> r = ReadThenWrite_new opts"
    using m(2) by (auto simp: make_tasks_def and_then_eq_Inr split: if_splits)
  ultimately show ?thesis using m(5) by blast
qed

end
