(* ===== verification/ParamsGen.thy ===== *)
theory ParamsGen
  imports AmtProofs
begin

text \<open>
  Making the public parameters: the powers of a secret, \<open>crypto/power_tau.rs\<close>, and the tables that
  \<open>crypto/prove_params.rs\<close> computes from them, stores and warms up.  The scalars are a field.  The curve
  groups, the evaluation domains with their Fourier transforms and \<open>k_adicity\<close> come from the arkworks crates and are a
  record of functions; reading a file is an argument that gives the deserialized value.
\<close>

section \<open>The library\<close>

record 'f domain =
  dm_size :: nat
  dm_size_inv :: 'f
  dm_gen :: 'f
  dm_gen_inv :: 'f

record ('f, 'g, 'h) ark_ops =
  ak_adicity :: "nat \<Rightarrow> nat \<Rightarrow> nat"
  ak_domain :: "nat \<Rightarrow> 'f domain option"
  ak_fft1 :: "'f domain \<Rightarrow> 'g list \<Rightarrow> 'g list"
  ak_ifft1 :: "'f domain \<Rightarrow> 'g list \<Rightarrow> 'g list"
  ak_fft2 :: "'f domain \<Rightarrow> 'h list \<Rightarrow> 'h list"
  ak_mul1 :: "'g \<Rightarrow> 'f \<Rightarrow> 'g"
  ak_mul2 :: "'h \<Rightarrow> 'f \<Rightarrow> 'h"
  ak_gen1 :: 'g
  ak_gen2 :: 'h

section \<open>Powers of tau\<close>

record ('g, 'h) PowerTau =
  pt_g1 :: "'g list"
  pt_g2 :: "'h list"

text \<open>The chunks, the threads and the normal forms of points do not show in the result.\<close>

definition power_tau :: "('v \<Rightarrow> 'f::field \<Rightarrow> 'v) \<Rightarrow> 'v \<Rightarrow> 'f \<Rightarrow> nat \<Rightarrow> 'v list" where
  "power_tau mul gen tau n = map (\<lambda>idx. mul gen (tau ^ idx)) [0..<n]"

definition setup_inner :: "('f::field, 'g, 'h) ark_ops \<Rightarrow> 'f \<Rightarrow> 'f option \<Rightarrow> nat \<Rightarrow> ('g, 'h) PowerTau" where
  "setup_inner K random_tau tau depth =
     (let t = (case tau of Some t \<Rightarrow> t | None \<Rightarrow> random_tau) in
      \<lparr>pt_g1 = power_tau (ak_mul1 K) (ak_gen1 K) t (2 ^ depth), pt_g2 = power_tau (ak_mul2 K) (ak_gen2 K) t (2 ^ depth)\<rparr>)"

definition PowerTau_setup :: "('f::field, 'g, 'h) ark_ops \<Rightarrow> 'f \<Rightarrow> nat \<Rightarrow> ('g, 'h) PowerTau" where
  "PowerTau_setup K random_tau depth = setup_inner K random_tau None depth"

text \<open>The depth asked for is compared with the number of points, so that the points are always cut.\<close>

definition from_dir_inner :: "('f, 'g, 'h) ark_ops \<Rightarrow> ('g, 'h) PowerTau result \<Rightarrow> nat \<Rightarrow> ('g, 'h) PowerTau result" where
  "from_dir_inner K file expected_depth = and_then file (\<lambda>pp.
     let g1_len = length (pt_g1 pp); g2_len = length (pt_g2 pp); depth = ak_adicity K 2 g1_len in
     if g1_len \<noteq> g2_len then Inl (IoErr ''InconsistentLength'')
     else if expected_depth > depth then Inl (IoErr ''InconsistentLength'')
     else if expected_depth < g2_len then
       and_then (ensure (2 ^ expected_depth \<le> g1_len) ''range end index out of range for slice'') (\<lambda>_.
         Inr \<lparr>pt_g1 = take (2 ^ expected_depth) (pt_g1 pp), pt_g2 = take (2 ^ expected_depth) (pt_g2 pp)\<rparr>)
     else Inr pp)"

definition PowerTau_from_dir :: "('f, 'g, 'h) ark_ops \<Rightarrow> ('g, 'h) PowerTau result \<Rightarrow> nat \<Rightarrow> ('g, 'h) PowerTau result" where
  "PowerTau_from_dir K file expected_depth = (case from_dir_inner K file expected_depth of
     Inr pp \<Rightarrow> Inr pp
   | Inl (Panic m) \<Rightarrow> Inl (Panic m)
   | Inl (IoErr m) \<Rightarrow> Inl (Panic ''Fail to load public parameters''))"

definition from_dir_or_new ::
  "('f::field, 'g, 'h) ark_ops \<Rightarrow> 'f \<Rightarrow> ('g, 'h) PowerTau result \<Rightarrow> nat \<Rightarrow> ('g, 'h) PowerTau result" where
  "from_dir_or_new K random_tau file expected_depth = (case from_dir_inner K file expected_depth of
     Inr pp \<Rightarrow> Inr pp
   | Inl (Panic m) \<Rightarrow> Inl (Panic m)
   | Inl (IoErr m) \<Rightarrow> Inr (PowerTau_setup K random_tau expected_depth))"

section \<open>The tables\<close>

definition gen_commitments :: "('f, 'g, 'h) ark_ops \<Rightarrow> 'g list \<Rightarrow> 'f domain \<Rightarrow> 'g list" where
  "gen_commitments K g1pp fft_domain = ak_ifft1 K fft_domain g1pp"

text \<open>The assertions of both generators; they keep every index in range.\<close>

definition gen_asserts :: "('f, 'g, 'h) ark_ops \<Rightarrow> nat \<Rightarrow> nat \<Rightarrow> unit result" where
  "gen_asserts K n depth =
     (let max_depth = ak_adicity K 2 n in
      and_then (ensure (n \<le> 2 ^ 32) ''assertion failed: len() <= 1 << 32'') (\<lambda>_.
      and_then (ensure (2 ^ max_depth = n) ''assertion failed: 1 << max_depth == length'') (\<lambda>_.
      and_then (ensure (depth \<le> max_depth) ''assertion failed: max_depth >= depth'') (\<lambda>_.
        ensure (1 \<le> depth) ''assertion failed: depth >= 1''))))"

definition gen_quotients :: "('f, 'g::zero, 'h) ark_ops \<Rightarrow> 'g list \<Rightarrow> 'f domain \<Rightarrow> nat \<Rightarrow> 'g list result" where
  "gen_quotients K g1pp fft_domain depth =
     and_then (gen_asserts K (length g1pp) depth) (\<lambda>_.
       let max_coeff = 2 ^ (ak_adicity K 2 (length g1pp) - depth);
           coeff = fold (\<lambda>i cs. cs[i := g1pp ! (max_coeff - i)]) [1..<max_coeff + 1] (replicate (length g1pp) 0)
       in Inr (map (\<lambda>val. ak_mul1 K val (dm_size_inv fft_domain)) (ak_fft1 K fft_domain coeff)))"

definition gen_verify :: "('f, 'g, 'h::zero) ark_ops \<Rightarrow> 'h list \<Rightarrow> nat \<Rightarrow> 'h list result" where
  "gen_verify K g2pp depth =
     and_then (gen_asserts K (length g2pp) depth) (\<lambda>_.
       let step = 2 ^ (ak_adicity K 2 (length g2pp) - depth) in
       and_then (unwrap_option (ak_domain K (2 ^ depth))) (\<lambda>fft_domain.
         let swapped = fft_domain\<lparr>dm_gen := dm_gen_inv fft_domain, dm_gen_inv := dm_gen fft_domain\<rparr>;
             coeff0 = (replicate (2 ^ depth) 0)[0 := g2pp ! (length g2pp - step)];
             coeff = fold (\<lambda>i cs. cs[i := g2pp ! ((i - 1) * step)]) [1..<length g2pp div step] coeff0
         in Inr (ak_fft2 K swapped coeff)))"

definition from_pp :: "('f, 'g::zero, 'h::zero) ark_ops \<Rightarrow> ('g, 'h) PowerTau \<Rightarrow> ('g, 'h) AMTParams result" where
  "from_pp K pp =
     (let g1pp = pt_g1 pp; g2pp = pt_g2 pp; n = length g1pp; depth = ak_adicity K 2 n in
      and_then (ensure (length g1pp = length g2pp) ''assertion failed: g1pp.len() == g2pp.len()'') (\<lambda>_.
      and_then (unwrap_option (ak_domain K n)) (\<lambda>fft_domain.
      and_then (map_res (gen_quotients K g1pp fft_domain) [1..<depth + 1]) (\<lambda>quots.
      and_then (map_res (gen_verify K g2pp) [1..<depth + 1]) (\<lambda>vers.
      and_then (nth_res g2pp 0) (\<lambda>g2.
        Inr \<lparr>commitments = gen_commitments K g1pp fft_domain, quotients = quots, verification = vers, pp_g2 = g2,
             indents_cache = replicate n [], quotients_cache = replicate depth (replicate n [])\<rparr>))))))"

section \<open>Stored tables\<close>

text \<open>What the file holds, in its order; the caches start empty.\<close>

definition load_cached :: "('f, 'g, 'h) ark_ops \<Rightarrow> ('g list \<times> 'g list list \<times> 'h list list \<times> 'h) result \<Rightarrow> ('g, 'h) AMTParams result" where
  "load_cached K file = and_then file (\<lambda>(comms, quots, vers, g2).
     let n = length comms; depth = ak_adicity K 2 n in
     Inr \<lparr>commitments = comms, quotients = quots, verification = vers, pp_g2 = g2,
          indents_cache = replicate n [], quotients_cache = replicate depth (replicate n [])\<rparr>)"

text \<open>The parameters, and the contents of the file that is written when there was none.\<close>

definition AMTParams_from_dir ::
  "('f::field, 'g::zero, 'h::zero) ark_ops \<Rightarrow> 'f \<Rightarrow> ('g list \<times> 'g list list \<times> 'h list list \<times> 'h) result \<Rightarrow> ('g, 'h) PowerTau result \<Rightarrow>
   nat \<Rightarrow> bool \<Rightarrow> (('g, 'h) AMTParams \<times> ('g list \<times> 'g list list \<times> 'h list list \<times> 'h) option) result" where
  "AMTParams_from_dir K random_tau file tau_file expected_depth create_mode = (case load_cached K file of
     Inr params \<Rightarrow> Inr (params, None)
   | Inl _ \<Rightarrow>
       and_then (if create_mode then from_dir_or_new K random_tau tau_file expected_depth else PowerTau_from_dir K tau_file expected_depth) (\<lambda>pp.
       and_then (from_pp K pp) (\<lambda>params.
         Inr (params, Some (commitments params, quotients params, verification params, pp_g2 params)))))"

section \<open>Warming up\<close>

text \<open>The powers by the first bits of six version slots are put into the cache of every quotient.\<close>

definition warm_leaf :: "nat \<Rightarrow> nat \<Rightarrow> nat \<Rightarrow> ('g::ab_group_add, 'h) AMTParams \<Rightarrow> ('g, 'h) AMTParams result" where
  "warm_leaf d depth j pp =
     (let index = bitreverse j depth in
      and_then (get_quotient pp d index) (\<lambda>q.
      and_then (nth_res (quotients_cache pp) (d - 1)) (\<lambda>row.
      and_then (nth_res row index) (\<lambda>cache.
        Inr (pp\<lparr>quotients_cache := (quotients_cache pp)[d - 1 := row[index :=
          fold (\<lambda>k. AList.update (k * 40) (smul (2 ^ (40 * k)) q)) [0..<6] cache]]\<rparr>)))))"

definition warm_quotient :: "('g::ab_group_add, 'h) AMTParams \<Rightarrow> ('g, 'h) AMTParams result" where
  "warm_quotient pp =
     and_then (nth_res (quotients_cache pp) 0) (\<lambda>first.
       let depth = length (quotients_cache pp); n = length first in
       fold_res (\<lambda>d. fold_res (warm_leaf d depth) [0..<n]) [1..<depth + 1] pp)"

lemma warm_leaf_ok:
  assumes "params_ok N pp" "0 < d" "d \<le> N"
  shows "\<exists>pp'. warm_leaf d N j pp = Inr pp' \<and> params_ok N pp' \<and> same_tables pp pp'"
proof -
  let ?i = "bitreverse j N" and ?row = "quotients_cache pp ! (d - 1)"
  let ?q = "quotients pp ! (d - 1) ! ?i"
  have dn: "d - 1 < N" and i: "?i < 2 ^ N" using assms(2,3) bitreverse_bound by simp_all
  have len: "length (quotients pp) = N" "length (quotients_cache pp) = N" "length (quotients pp ! (d - 1)) = 2 ^ N" "length ?row = 2 ^ N"
    using assms(1) dn by (auto simp: params_ok_def list_all_length)
  have ok: "pow_cache_ok ?q (?row ! ?i)" using assms(1) dn i by (auto simp: params_ok_def)
  have "pow_cache_ok ?q (fold (\<lambda>k. AList.update (k * 40) (smul (2 ^ (40 * k)) ?q)) ks c)" if "pow_cache_ok ?q c" for ks c
    using that
  proof (induction ks arbitrary: c)
    case (Cons k ks)
    have "pow_cache_ok ?q (AList.update (k * 40) (smul (2 ^ (40 * k)) ?q) c)"
      using Cons.prems by (auto simp: pow_cache_ok_def update_conv mult.commute)
    then show ?case using Cons.IH by simp
  qed simp
  from this [OF ok, of "[0..<6]"] show ?thesis using assms(1) dn i len
    by (auto simp: warm_leaf_def get_quotient_def nth_res_def Let_def params_ok_def same_tables_def nth_list_update list_all_length)
qed

lemma fold_res_total:
  assumes "\<And>x s. x \<in> set xs \<Longrightarrow> P s \<Longrightarrow> \<exists>t. f x s = Inr t \<and> P t" "P s"
  shows "\<exists>t. fold_res f xs s = Inr t \<and> P t"
  using assms
proof (induction xs arbitrary: s)
  case (Cons x xs)
  obtain t where "f x s = Inr t" "P t" using Cons.prems by (meson list.set_intros(1))
  then show ?case using Cons.IH [of t] Cons.prems(1) by simp
qed simp

lemma warm_quotient_ok:
  assumes "params_ok N pp" "0 < N"
  shows "\<exists>pp'. warm_quotient pp = Inr pp' \<and> params_ok N pp' \<and> same_tables pp pp'"
proof -
  let ?P = "\<lambda>pp'. params_ok N pp' \<and> same_tables pp pp'"
  have leaf: "\<exists>t. warm_leaf d N j s = Inr t \<and> ?P t" if "d \<in> set [1..<N + 1]" "?P s" for d j s
    using warm_leaf_ok [of N s d j] same_tables_trans that by fastforce
  have "\<exists>t. fold_res (\<lambda>d. fold_res (warm_leaf d N) [0..<2 ^ N]) [1..<N + 1] pp = Inr t \<and> ?P t"
    by (rule fold_res_total) (use leaf assms(1) in \<open>auto intro!: fold_res_total [where P = ?P]\<close>)
  moreover have "length (quotients_cache pp) = N" "length (quotients_cache pp ! 0) = 2 ^ N"
    using assms by (auto simp: params_ok_def list_all_length)
  ultimately show ?thesis using assms(2) by (simp add: warm_quotient_def nth_res_def)
qed

end
