(* ===== verification/ParamsProofs.thy ===== *)
theory ParamsProofs
  imports Complex_Main ParamsGen
begin

text \<open>
  The tables made from the powers of a secret have what the proofs of the multipoint tree need: for every leaf and every
  depth, the quotient and the verification key pair to the commitment of the leaf.  The laws of the library
  are the documented ones: points are a module over the scalars, a transform evaluates at the powers of the generator of its
  domain, the domain of a power of two has a root of unity of that order, and smaller domains use its powers.
\<close>

lemma mult_scale: "q * v = c \<Longrightarrow> q * s * v = c * s * (1 :: 'f :: comm_ring_1)"
  by (auto simp: mult.assoc mult.commute mult.left_commute)

section \<open>Laws of the library\<close>

locale scalar_mul =
  fixes mul :: "'v::ab_group_add \<Rightarrow> 'f::field \<Rightarrow> 'v"
  assumes mul_add: "mul (u + v) a = mul u a + mul v a"
    and mul_plus: "mul v (a + b) = mul v a + mul v b"
    and mul_mul: "mul (mul v a) b = mul v (a * b)"
begin

lemma mul_zero [simp]: "mul v 0 = 0" "mul 0 a = 0"
  using mul_plus [of v 0 0] mul_add [of 0 0 a] by simp_all

lemma mul_sum: "mul v (\<Sum>i\<in>A. f i) = (\<Sum>i\<in>A. mul v (f i))"
  by (induction A rule: infinite_finite_induct) (simp_all add: mul_plus)

end

definition evals :: "('v::comm_monoid_add \<Rightarrow> 'f::monoid_mult \<Rightarrow> 'v) \<Rightarrow> 'f \<Rightarrow> 'v list \<Rightarrow> 'v list" where
  "evals mul w cs = map (\<lambda>i. \<Sum>j<length cs. mul (cs ! j) (w ^ (i * j))) [0..<length cs]"

definition proper_domain :: "'f::field domain \<Rightarrow> bool" where
  "proper_domain d \<longleftrightarrow> (\<exists>k. dm_size d = 2 ^ k) \<and> dm_gen d ^ dm_size d = 1 \<and> dm_gen d * dm_gen_inv d = 1 \<and>
     of_nat (dm_size d) * dm_size_inv d = 1 \<and> (dm_size d = 1 \<or> dm_gen d ^ (dm_size d div 2) = - 1)"

locale ark = act1: scalar_mul "ak_mul1 K" + act2: scalar_mul "ak_mul2 K"
  for K :: "('f::field, 'g::ab_group_add, 'h::ab_group_add) ark_ops" +
  assumes adicity: "ak_adicity K 2 (2 ^ k) = k"
    and domain_ok: "ak_domain K (2 ^ k) = Some d \<Longrightarrow> proper_domain d \<and> dm_size d = 2 ^ k"
    and domain_smaller: "ak_domain K (2 ^ k) = Some d \<Longrightarrow> l \<le> k \<Longrightarrow> \<exists>d'. ak_domain K (2 ^ l) = Some d' \<and> dm_gen d' = dm_gen d ^ 2 ^ (k - l)"
    and fft1: "proper_domain d \<Longrightarrow> length cs = dm_size d \<Longrightarrow> ak_fft1 K d cs = evals (ak_mul1 K) (dm_gen d) cs"
    and ifft1: "proper_domain d \<Longrightarrow> length cs = dm_size d \<Longrightarrow>
      ak_ifft1 K d cs = map (\<lambda>v. ak_mul1 K v (dm_size_inv d)) (evals (ak_mul1 K) (dm_gen_inv d) cs)"
    and fft2: "proper_domain d \<Longrightarrow> length hs = dm_size d \<Longrightarrow> ak_fft2 K d hs = evals (ak_mul2 K) (dm_gen d) hs"

text \<open>A pairing of the two groups.\<close>

locale ark_pairing = ark K + pairing_group pairing
  for K :: "('f::field, 'g::ab_group_add, 'h::ab_group_add) ark_ops" and pairing :: "'g \<Rightarrow> 'h \<Rightarrow> 'gt::ab_group_add" +
  assumes pairing_move: "pairing (ak_mul1 K u a) h = pairing u (ak_mul2 K h a)"

section \<open>Lists of points\<close>

lemma fold_update_length [simp]: "length (fold (\<lambda>i cs. cs[i := f i]) is xs) = length xs"
  by (induction "is" arbitrary: xs) simp_all

lemma fold_update_nth:
  assumes "j < length xs"
  shows "fold (\<lambda>i cs. cs[i := f i]) [a..<b] xs ! j = (if a \<le> j \<and> j < b then f j else xs ! j)"
proof (induction b)
  case (Suc b)
  then show ?case using assms by (cases "j = b") (auto simp: nth_list_update)
qed simp

context scalar_mul
begin

lemma evals_multiples:
  assumes "i < n"
  shows "evals mul w (map (\<lambda>j. mul v (c j)) [0..<n]) ! i = mul v (\<Sum>j<n. c j * w ^ (i * j))"
  using assms by (simp add: evals_def mul_sum mul_mul)

lemma power_tau_nth: "i < n \<Longrightarrow> power_tau mul v tau n ! i = mul v (tau ^ i)"
  by (simp add: power_tau_def)

end

lemma length_power_tau [simp]: "length (power_tau mul v tau n) = n"
  by (simp add: power_tau_def)

lemma power_tau_empty [simp]: "power_tau mul v tau n = [] \<longleftrightarrow> n = 0"
  by (simp add: power_tau_def)

lemma length_evals [simp]: "length (evals mul w cs) = length cs"
  by (simp add: evals_def)

section \<open>The identity of the scalars\<close>

text \<open>For \<open>n = m k\<close>, \<open>w\<close> a root of unity of order \<open>n\<close> with inverse \<open>v\<close>: the product of the
  two sums of a leaf is the evaluation of its Lagrange polynomial.\<close>

lemma split_sum:
  fixes tau w v :: "'f::field"
  assumes "w * v = 1"
  shows "(\<Sum>c<m. tau ^ c * w ^ (t * (m - c))) * (\<Sum>e<k. tau ^ (e * m) * v ^ (t * m * (e + 1))) = (\<Sum>i<k * m. tau ^ i * v ^ (t * i))"
proof -
  have one: "w ^ a * v ^ a = 1" for a using assms by (metis power_mult_distrib power_one)
  have summand: "tau ^ c * w ^ (t * (m - c)) * (tau ^ (e * m) * v ^ (t * m * (e + 1))) = tau ^ (e * m + c) * v ^ (t * (e * m + c))"
    if "c < m" for c e
  proof -
    have "t * m * (e + 1) = t * (m - c) + t * (e * m + c)"
      using less_imp_add_positive [OF that] by (auto simp: algebra_simps)
    then have "tau ^ c * w ^ (t * (m - c)) * (tau ^ (e * m) * v ^ (t * m * (e + 1))) =
        tau ^ (e * m + c) * (w ^ (t * (m - c)) * v ^ (t * (m - c))) * v ^ (t * (e * m + c))"
      by (simp only: power_add mult_ac)
    then show ?thesis by (simp only: one mult_1_right)
  qed
  have "(\<Sum>c<m. tau ^ c * w ^ (t * (m - c))) * (\<Sum>e<k. tau ^ (e * m) * v ^ (t * m * (e + 1))) =
      (\<Sum>e<k. \<Sum>c<m. tau ^ (e * m + c) * v ^ (t * (e * m + c)))"
    unfolding sum_product by (subst sum.swap, rule sum.cong [OF refl], rule sum.cong [OF refl], rule summand, simp)
  also have "\<dots> = (\<Sum>e<k. \<Sum>i\<in>{e * m..<e * m + m}. tau ^ i * v ^ (t * i))"
  proof (rule sum.cong)
    fix e
    show "(\<Sum>c<m. tau ^ (e * m + c) * v ^ (t * (e * m + c))) = (\<Sum>i\<in>{e * m..<e * m + m}. tau ^ i * v ^ (t * i))"
      using sum.shift_bounds_nat_ivl [of "\<lambda>i. tau ^ i * v ^ (t * i)" 0 "e * m" m] by (simp add: lessThan_atLeast0 add.commute)
  qed simp
  also have "\<dots> = (\<Sum>i<k * m. tau ^ i * v ^ (t * i))" by (rule sum.nat_group)
  finally show ?thesis .
qed

section \<open>The generated tables\<close>

context ark
begin

lemma asserts_ok: "N \<le> 32 \<Longrightarrow> 1 \<le> d \<Longrightarrow> d \<le> N \<Longrightarrow> gen_asserts K (2 ^ N) d = Inr ()"
  using power_increasing [of N 32 "2 :: nat"] by (simp add: gen_asserts_def adicity)

lemma commitments_nth:
  assumes "ak_domain K (2 ^ N) = Some D" "i < 2 ^ N"
  shows "gen_commitments K (power_tau (ak_mul1 K) g tau (2 ^ N)) D ! i =
    ak_mul1 K g ((\<Sum>j<2 ^ N. tau ^ j * dm_gen_inv D ^ (i * j)) * dm_size_inv D)"
proof -
  have d: "proper_domain D" "dm_size D = 2 ^ N" using domain_ok [OF assms(1)] by simp_all
  have "evals (ak_mul1 K) (dm_gen_inv D) (power_tau (ak_mul1 K) g tau (2 ^ N)) ! i =
      ak_mul1 K g (\<Sum>j<2 ^ N. tau ^ j * dm_gen_inv D ^ (i * j))"
    using act1.evals_multiples [OF assms(2)] by (simp add: power_tau_def)
  then show ?thesis using ifft1 [OF d(1)] d(2) assms(2) by (simp add: gen_commitments_def act1.mul_mul)
qed

lemma quotients_nth:
  assumes "ak_domain K (2 ^ N) = Some D" "N \<le> 32" "1 \<le> d" "d \<le> N"
  shows "\<exists>row. gen_quotients K (power_tau (ak_mul1 K) g tau (2 ^ N)) D d = Inr row \<and> length row = 2 ^ N \<and>
    (\<forall>i < 2 ^ N. row ! i = ak_mul1 K g ((\<Sum>c<2 ^ (N - d). tau ^ c * dm_gen D ^ (i * (2 ^ (N - d) - c))) * dm_size_inv D))"
proof -
  let ?pt = "power_tau (ak_mul1 K) g tau (2 ^ N)" and ?m = "2 ^ (N - d) :: nat"
  let ?f = "\<lambda>j. if 1 \<le> j \<and> j < ?m + 1 then tau ^ (?m - j) else 0"
  let ?coeff = "fold (\<lambda>i cs. cs[i := ?pt ! (?m - i)]) [1..<?m + 1] (replicate (2 ^ N) 0)"
  have D: "proper_domain D" "dm_size D = 2 ^ N" using domain_ok [OF assms(1)] by simp_all
  have m: "?m < 2 ^ N" using assms(3,4) by (intro power_strict_increasing) auto
  have pt: "?pt ! (?m - j) = ak_mul1 K g (tau ^ (?m - j))" for j
    using m by (intro act1.power_tau_nth) (rule less_imp_diff_less)
  have coeff: "?coeff = map (\<lambda>j. ak_mul1 K g (?f j)) [0..<2 ^ N]"
    by (intro nth_equalityI) (simp_all add: fold_update_nth pt del: upt_Suc)
  have sum: "(\<Sum>j<2 ^ N. ?f j * dm_gen D ^ (i * j)) = (\<Sum>c<?m. tau ^ c * dm_gen D ^ (i * (?m - c)))" for i
  proof -
    have "(\<Sum>j<2 ^ N. ?f j * dm_gen D ^ (i * j)) = (\<Sum>j\<in>{1..?m}. tau ^ (?m - j) * dm_gen D ^ (i * j))"
      using le_less_trans [OF _ m] by (intro sum.mono_neutral_cong_right) auto
    also have "\<dots> = (\<Sum>c<?m. tau ^ c * dm_gen D ^ (i * (?m - c)))"
      by (rule sum.reindex_bij_witness [of _ "\<lambda>c. ?m - c" "\<lambda>j. ?m - j"]) auto
    finally show ?thesis .
  qed
  have nth: "evals (ak_mul1 K) (dm_gen D) ?coeff ! i = ak_mul1 K g (\<Sum>c<?m. tau ^ c * dm_gen D ^ (i * (?m - c)))" if "i < 2 ^ N" for i
    by (simp only: coeff act1.evals_multiples [OF that] sum)
  have "gen_quotients K ?pt D d = Inr (map (\<lambda>val. ak_mul1 K val (dm_size_inv D)) (evals (ak_mul1 K) (dm_gen D) ?coeff))"
    using fft1 [OF D(1), of ?coeff] D(2) asserts_ok [OF assms(2-4)] by (simp add: gen_quotients_def adicity Let_def del: upt_Suc)
  then show ?thesis using nth by (simp add: act1.mul_mul del: upt_Suc)
qed

lemma verify_nth:
  assumes "ak_domain K (2 ^ N) = Some D" "N \<le> 32" "1 \<le> d" "d \<le> N"
  shows "\<exists>row. gen_verify K (power_tau (ak_mul2 K) h tau (2 ^ N)) d = Inr row \<and> length row = 2 ^ d \<and>
    (\<forall>i. row ! (i mod 2 ^ d) = ak_mul2 K h (\<Sum>e<2 ^ d. tau ^ (e * 2 ^ (N - d)) * dm_gen_inv D ^ (i * 2 ^ (N - d) * (e + 1))))"
proof -
  let ?pt = "power_tau (ak_mul2 K) h tau (2 ^ N)" and ?m = "2 ^ (N - d) :: nat" and ?k = "2 ^ d :: nat"
  have n: "(2 :: nat) ^ N = ?k * ?m" using power_add [of "2 :: nat" d "N - d"] assms(4) by simp
  obtain D' where D': "ak_domain K ?k = Some D'" "dm_gen D' = dm_gen D ^ ?m" using domain_smaller [OF assms(1,4)] by blast
  have D: "proper_domain D" "proper_domain D'" "dm_size D' = ?k" using domain_ok [OF assms(1)] domain_ok [OF D'(1)] by simp_all
  have g: "dm_gen D * dm_gen_inv D = 1" "dm_gen D' * dm_gen_inv D' = 1" "dm_gen D' ^ ?k = 1"
    using D by (simp_all add: proper_domain_def)
  have "dm_gen D ^ ?m * dm_gen_inv D ^ ?m = 1" using g(1) by (metis power_mult_distrib power_one)
  then have inv: "dm_gen_inv D' = dm_gen_inv D ^ ?m" using inverse_unique [OF g(2)] unfolding D'(2) by (metis inverse_unique)
  let ?S = "D'\<lparr>dm_gen := dm_gen_inv D', dm_gen_inv := dm_gen D'\<rparr>" and ?v = "dm_gen_inv D'"
  have vk: "?v ^ ?k = 1" using g(2,3) by (metis mult_1 power_mult_distrib power_one)
  have S: "proper_domain ?S"
  proof -
    have "?v ^ (?k div 2) = - 1" if "dm_gen D' ^ (?k div 2) = - 1"
    proof -
      have "- 1 * ?v ^ (?k div 2) = 1" using that g(2) by (metis power_mult_distrib power_one)
      then show ?thesis by (metis minus_minus mult_minus1)
    qed
    then show ?thesis using D(2,3) vk by (auto simp: proper_domain_def mult.commute)
  qed
  let ?f = "\<lambda>j. if j = 0 then tau ^ (2 ^ N - ?m) else tau ^ ((j - 1) * ?m)"
  let ?coeff = "fold (\<lambda>i cs. cs[i := ?pt ! ((i - 1) * ?m)]) [1..<2 ^ N div ?m] ((replicate ?k 0)[0 := ?pt ! (2 ^ N - ?m)])"
  have km: "(2 :: nat) ^ N div ?m = ?k" by (simp add: n)
  have pos: "0 < ?m" "?m \<le> 2 ^ N" "2 ^ N - ?m < (2 :: nat) ^ N" by (simp_all add: n)
  have small: "(j - 1) * ?m < 2 ^ N" if "j < ?k" for j
    using that unfolding n by (intro mult_strict_right_mono) auto
  have coeff: "?coeff = map (\<lambda>j. ak_mul2 K h (?f j)) [0..<?k]"
  proof (rule nth_equalityI)
    fix j assume "j < length ?coeff"
    then have "j < ?k" by simp
    then show "?coeff ! j = map (\<lambda>j. ak_mul2 K h (?f j)) [0..<?k] ! j"
      using small [of j] pos unfolding km by (cases "j = 0") (simp_all add: fold_update_nth act2.power_tau_nth)
  qed simp
  have sum: "(\<Sum>j<?k. ?f j * ?v ^ (i * j)) = (\<Sum>e<?k. tau ^ (e * ?m) * ?v ^ (i * (e + 1)))" for i
  proof -
    obtain k where k: "?k = Suc k" by (cases "?k") simp_all
    have "2 ^ N - ?m = k * ?m" unfolding n k by simp
    moreover have "?v ^ (i * (k + 1)) = 1" using vk unfolding k by (metis Suc_eq_plus1 mult.commute power_mult power_one)
    ultimately show ?thesis unfolding k by (subst sum.lessThan_Suc_shift, subst sum.lessThan_Suc) simp
  qed
  have row: "gen_verify K ?pt d = Inr (evals (ak_mul2 K) ?v ?coeff)"
    using fft2 [OF S, of ?coeff] D(3) asserts_ok [OF assms(2-4)] D'(1) by (simp add: gen_verify_def adicity Let_def del: upt_Suc)
  have "evals (ak_mul2 K) ?v ?coeff ! (i mod ?k) = ak_mul2 K h (\<Sum>e<?k. tau ^ (e * ?m) * dm_gen_inv D ^ (i * ?m * (e + 1)))" for i
  proof -
    have cut: "?v ^ (i mod ?k * (e + 1)) = dm_gen_inv D ^ (i * ?m * (e + 1))" for e
    proof -
      have "?v ^ i = (?v ^ ?k) ^ (i div ?k) * ?v ^ (i mod ?k)"
        by (simp only: power_mult [symmetric] power_add [symmetric] mult_div_mod_eq)
      then have "?v ^ i = ?v ^ (i mod ?k)" by (simp only: vk power_one mult_1_left)
      then have "?v ^ (i mod ?k * (e + 1)) = ?v ^ (i * (e + 1))" by (simp only: power_mult)
      then show ?thesis unfolding inv by (simp only: power_mult [symmetric] mult_ac)
    qed
    have "i mod ?k < ?k" by simp
    then have "evals (ak_mul2 K) ?v ?coeff ! (i mod ?k) = ak_mul2 K h (\<Sum>j<?k. ?f j * ?v ^ (i mod ?k * j))"
      unfolding coeff by (rule act2.evals_multiples)
    then show ?thesis by (simp only: sum cut)
  qed
  then show ?thesis using row by simp
qed

end

lemma take_power_tau: "N \<le> M \<Longrightarrow> take (2 ^ N) (power_tau mul v tau (2 ^ M)) = power_tau mul v tau (2 ^ N)"
  using power_increasing [of N M "2 :: nat"] by (simp add: power_tau_def take_map)

lemma map_res_all:
  assumes "\<And>x. x \<in> set xs \<Longrightarrow> \<exists>y. f x = Inr y \<and> P x y"
  shows "\<exists>ys. map_res f xs = Inr ys \<and> list_all2 P xs ys"
  using assms
proof (induction xs)
  case (Cons x xs)
  obtain y where "f x = Inr y" "P x y" using Cons.prems by (meson list.set_intros(1))
  moreover obtain ys where "map_res f xs = Inr ys" "list_all2 P xs ys" using Cons by (meson list.set_intros(2))
  ultimately show ?case by simp
qed simp

context ark_pairing
begin

lemma pairing_scalars: "pairing (ak_mul1 K g a) (ak_mul2 K h b) = pairing (ak_mul1 K g (a * b)) h"
  by (simp only: pairing_move [symmetric] act1.mul_mul)

lemma tables_from_pp:
  assumes D: "ak_domain K (2 ^ N) = Some D" and N: "N \<le> 32"
  shows "\<exists>pp. from_pp K (setup_inner K r (Some tau) N) = Inr pp \<and> params_ok N pp \<and> tables_pair N pairing pp \<and>
    indents_cache pp = replicate (2 ^ N) [] \<and> quotients_cache pp = replicate N (replicate (2 ^ N) [])"
proof -
  let ?g = "ak_gen1 K" and ?h = "ak_gen2 K"
  let ?g1 = "power_tau (ak_mul1 K) ?g tau (2 ^ N)" and ?g2 = "power_tau (ak_mul2 K) ?h tau (2 ^ N)"
  let ?C = "\<lambda>i. \<Sum>j<2 ^ N. tau ^ j * dm_gen_inv D ^ (i * j)" and ?s = "dm_size_inv D"
  let ?Q = "\<lambda>d i. \<Sum>c<2 ^ (N - d). tau ^ c * dm_gen D ^ (i * (2 ^ (N - d) - c))"
  let ?V = "\<lambda>d i. \<Sum>e<2 ^ d. tau ^ (e * 2 ^ (N - d)) * dm_gen_inv D ^ (i * 2 ^ (N - d) * (e + 1))"
  have gi: "dm_gen D * dm_gen_inv D = 1" using domain_ok [OF D] by (simp add: proper_domain_def)
  let ?okq = "\<lambda>d row. length row = 2 ^ N \<and> (\<forall>i < 2 ^ N. row ! i = ak_mul1 K ?g (?Q d i * ?s))"
  let ?okv = "\<lambda>d row. length row = 2 ^ d \<and> (\<forall>i. row ! (i mod 2 ^ d) = ak_mul2 K ?h (?V d i))"
  have "\<exists>row. gen_quotients K ?g1 D d = Inr row \<and> ?okq d row" if "d \<in> set [1..<N + 1]" for d
    using that by (intro quotients_nth [OF D N]) auto
  then obtain qs where q: "map_res (gen_quotients K ?g1 D) [1..<N + 1] = Inr qs"
    "list_all2 ?okq [1..<N + 1] qs"
    using map_res_all [where f = "gen_quotients K ?g1 D" and xs = "[1..<N + 1]" and P = ?okq] by blast
  have "\<exists>row. gen_verify K ?g2 d = Inr row \<and> ?okv d row" if "d \<in> set [1..<N + 1]" for d
    using that by (intro verify_nth [OF D N]) auto
  then obtain vs where v: "map_res (gen_verify K ?g2) [1..<N + 1] = Inr vs"
    "list_all2 ?okv [1..<N + 1] vs"
    using map_res_all [where f = "gen_verify K ?g2" and xs = "[1..<N + 1]" and P = ?okv] by blast
  let ?cs = "gen_commitments K ?g1 D"
  let ?pp = "\<lparr>commitments = ?cs, quotients = qs, verification = vs, pp_g2 = ?g2 ! 0, indents_cache = replicate (2 ^ N) [],
    quotients_cache = replicate N (replicate (2 ^ N) [])\<rparr>"
  have new: "from_pp K (setup_inner K r (Some tau) N) = Inr ?pp"
    using q(1) v(1) D by (simp add: from_pp_def setup_inner_def adicity nth_res_def Let_def del: upt_Suc)
  have lens: "length qs = N" "length vs = N" using list_all2_lengthD [OF q(2)] list_all2_lengthD [OF v(2)] by (simp_all del: upt_Suc)
  have qn: "length (qs ! d) = 2 ^ N" "i < 2 ^ N \<Longrightarrow> qs ! d ! i = ak_mul1 K ?g (?Q (Suc d) i * ?s)" if "d < N" for d i
    using list_all2_nthD [OF q(2), of d] that by (simp_all del: upt_Suc)
  have vn: "length (vs ! d) = 2 ^ Suc d" "vs ! d ! (i mod 2 ^ Suc d) = ak_mul2 K ?h (?V (Suc d) i)" if "d < N" for d i
    using list_all2_nthD [OF v(2), of d] that by (simp_all del: upt_Suc power_Suc)
  have cl: "length ?cs = 2 ^ N" using ifft1 [of D ?g1] domain_ok [OF D] by (simp add: gen_commitments_def)
  have "params_ok N ?pp" using cl lens qn by (auto simp: params_ok_def list_all_length pow_cache_ok_def)
  moreover have "pairing (?cs ! i) (?g2 ! 0) = pairing (qs ! d ! i) (vs ! d ! (i mod 2 ^ Suc d))" if "d < N" "i < 2 ^ N" for d i
  proof -
    have n: "(2 :: nat) ^ Suc d * 2 ^ (N - Suc d) = 2 ^ N" using power_add [of "2 :: nat" "Suc d" "N - Suc d"] that(1) by simp
    have id: "?Q (Suc d) i * ?V (Suc d) i = ?C i" by (rule split_sum [OF gi, of tau i "2 ^ (N - Suc d)" "2 ^ Suc d", unfolded n])
    have "?cs ! i = ak_mul1 K ?g (?C i * ?s)" by (rule commitments_nth [OF D that(2)])
    moreover have "?g2 ! 0 = ak_mul2 K ?h 1" using act2.power_tau_nth [of 0 "2 ^ N"] by simp
    moreover have "?Q (Suc d) i * ?s * ?V (Suc d) i = ?C i * ?s * 1" by (rule mult_scale [OF id])
    ultimately show ?thesis using qn(2) [OF that] vn(2) [OF that(1), of i] by (simp only: pairing_scalars)
  qed
  then have "tables_pair N pairing ?pp" using lens vn(1) by (simp add: tables_pair_def)
  ultimately show ?thesis using new by simp
qed

lemma cut_powers:
  assumes "N \<le> M"
  shows "from_dir_inner K (Inr (setup_inner K r (Some tau) M)) N = Inr (setup_inner K r' (Some tau) N)"
proof -
  have "N < 2 ^ M" using assms less_exp [of M] by linarith
  moreover have "(2 :: nat) ^ N \<le> 2 ^ M" using power_increasing [OF assms, of "2 :: nat"] by simp
  ultimately show ?thesis using assms by (simp add: from_dir_inner_def setup_inner_def adicity Let_def take_power_tau)
qed

end

section \<open>The property\<close>

text \<open>C8. Public parameters made from the powers of a secret pair: when no tables are stored, opening the parameters of depth
  \<open>N\<close> cuts a stored list of powers of any larger depth, computes the tables from it and writes them; every
  quotient and verification key pair to the commitment of the leaf, as the proofs of the multipoint tree
  need it.  Opening again loads the same parameters from the file, and warming up the
  caches keeps the tables and the cached powers right.\<close>

theorem amt_params_from_powers_pair:
  fixes pairing :: "'g::ab_group_add \<Rightarrow> 'h::ab_group_add \<Rightarrow> 'gt::ab_group_add"
  assumes "ark_pairing K pairing" and "ak_domain K (2 ^ N) = Some D" and "0 < N" and "N \<le> 32" and "N \<le> M"
  shows "\<exists>pp file pp'.
    AMTParams_from_dir K r (Inl (IoErr e)) (Inr (setup_inner K r0 (Some tau) M)) N create = Inr (pp, Some file) \<and>
    params_ok N pp \<and> tables_pair N pairing pp \<and>
    AMTParams_from_dir K r' (Inr file) tau_file N create' = Inr (pp, None) \<and>
    warm_quotient pp = Inr pp' \<and> params_ok N pp' \<and> tables_pair N pairing pp'"
proof -
  obtain pp where pp: "from_pp K (setup_inner K r (Some tau) N) = Inr pp" "params_ok N pp" "tables_pair N pairing pp"
    "indents_cache pp = replicate (2 ^ N) []" "quotients_cache pp = replicate N (replicate (2 ^ N) [])"
    using ark_pairing.tables_from_pp [OF assms(1,2,4)] by blast
  have ad: "ak_adicity K 2 (2 ^ N) = N" using ark.adicity [OF ark_pairing.axioms(1) [OF assms(1)]] .
  let ?file = "(commitments pp, quotients pp, verification pp, pp_g2 pp)"
  have new: "AMTParams_from_dir K r (Inl (IoErr e)) (Inr (setup_inner K r0 (Some tau) M)) N create = Inr (pp, Some ?file)"
    using ark_pairing.cut_powers [OF assms(1,5), of r0 tau r] pp(1)
    by (simp add: AMTParams_from_dir_def load_cached_def from_dir_or_new_def PowerTau_from_dir_def)
  have "length (commitments pp) = 2 ^ N" using pp(2) by (simp add: params_ok_def)
  then have again: "AMTParams_from_dir K r' (Inr ?file) tau_file N create' = Inr (pp, None)"
    using pp(4,5) ad by (simp add: AMTParams_from_dir_def load_cached_def Let_def)
  obtain pp' where w: "warm_quotient pp = Inr pp'" "params_ok N pp'" "same_tables pp pp'" using warm_quotient_ok [OF pp(2) assms(3)] by blast
  then have "tables_pair N pairing pp'" using pp(3) by (simp add: same_tables_def tables_pair_def)
  then show ?thesis using new again pp(2,3) w by blast
qed

section \<open>The complex numbers as scalars\<close>

text \<open>The complex numbers have roots of unity of every order; points and values of the pairing are complex
  numbers as well, and the transforms are evaluations.\<close>

definition complex_ark :: "(complex, complex, complex) ark_ops" where
  "complex_ark = \<lparr>ak_adicity = (\<lambda>k n. length (takeWhile (\<lambda>i. k ^ i dvd n) [1..<n + 1])),
     ak_domain = (\<lambda>n. Some \<lparr>dm_size = n, dm_size_inv = inverse (of_nat n), dm_gen = cis (2 * pi / real n), dm_gen_inv = cis (- (2 * pi / real n))\<rparr>),
     ak_fft1 = (\<lambda>d. evals (*) (dm_gen d)), ak_ifft1 = (\<lambda>d cs. map (\<lambda>v. v * dm_size_inv d) (evals (*) (dm_gen_inv d) cs)),
     ak_fft2 = (\<lambda>d. evals (*) (dm_gen d)), ak_mul1 = (*), ak_mul2 = (*), ak_gen1 = 1, ak_gen2 = 1\<rparr>"

lemma two_adicity: "length (takeWhile (\<lambda>i. 2 ^ i dvd (2 :: nat) ^ k) [1..<2 ^ k + 1]) = k"
proof -
  have "(2 :: nat) ^ i dvd 2 ^ k \<longleftrightarrow> i \<le> k" for i by (meson le_imp_power_dvd lessI one_less_numeral_iff power_dvd_imp_le semiring_norm(76))
  then have "takeWhile (\<lambda>i. 2 ^ i dvd (2 :: nat) ^ k) [1..<2 ^ k + 1] = take k [1..<2 ^ k + 1]"
    by (intro takeWhile_eq_take_P_nth) (simp_all del: upt_Suc power_Suc)
  then show ?thesis using less_exp [of k] by (simp del: upt_Suc)
qed

lemma cis_domain: "cis (2 * pi / real (2 ^ k)) ^ 2 ^ l = cis (2 * pi / real (2 ^ k) * real (2 ^ l))"
  by (simp add: DeMoivre mult.commute)

interpretation complex_ark: ark_pairing complex_ark "(*) :: complex \<Rightarrow> complex \<Rightarrow> complex"
proof
  fix k d assume "ak_domain complex_ark (2 ^ k) = Some d"
  then have d: "d = \<lparr>dm_size = 2 ^ k, dm_size_inv = inverse (of_nat (2 ^ k)), dm_gen = cis (2 * pi / real (2 ^ k)), dm_gen_inv = cis (- (2 * pi / real (2 ^ k)))\<rparr>"
    by (simp add: complex_ark_def)
  have "dm_gen d ^ 2 ^ k = 1" unfolding d by (simp only: domain.simps cis_domain) simp
  moreover have "dm_gen d ^ (2 ^ k div 2) = - 1" if k1: "(2 :: nat) ^ k \<noteq> 1"
  proof -
    obtain j where j: "k = Suc j" using k1 by (cases k) auto
    then have "2 ^ k div 2 = (2 :: nat) ^ j" by simp
    moreover have "2 * pi / real (2 ^ k) * real (2 ^ j) = pi" by (simp add: j)
    ultimately show ?thesis unfolding d by (simp only: domain.simps cis_domain cis_pi)
  qed
  ultimately show "proper_domain d \<and> dm_size d = 2 ^ k" by (auto simp: proper_domain_def d cis_mult)
  show "\<exists>d'. ak_domain complex_ark (2 ^ l) = Some d' \<and> dm_gen d' = dm_gen d ^ 2 ^ (k - l)" if "l \<le> k" for l
  proof -
    have "2 * pi / real (2 ^ k) * real (2 ^ (k - l)) = 2 * pi / real (2 ^ l)"
      using le_Suc_ex [OF that] by (auto simp: power_add)
    then have "dm_gen d ^ 2 ^ (k - l) = cis (2 * pi / real (2 ^ l))" unfolding d by (simp only: domain.simps cis_domain)
    then show ?thesis by (simp add: complex_ark_def)
  qed
next
  show "ak_adicity complex_ark 2 (2 ^ k) = k" for k using two_adicity [of k] by (simp add: complex_ark_def)
qed (simp_all add: complex_ark_def algebra_simps)

theorem amt_params_from_powers_pair_witness:
  "\<exists>pp file. AMTParams_from_dir complex_ark 5 (Inl (IoErr ''not found'')) (Inr (setup_inner complex_ark 7 (Some 3) 4)) 2 True = Inr (pp, Some file) \<and>
     params_ok 2 pp \<and> tables_pair 2 (*) pp"
proof -
  have D: "\<exists>D. ak_domain complex_ark (2 ^ 2) = Some D" by (simp add: complex_ark_def)
  then obtain D where "ak_domain complex_ark (2 ^ 2) = Some D" by blast
  from amt_params_from_powers_pair [OF complex_ark.ark_pairing_axioms this, of 4 5 "''not found''" 7 3 True] show ?thesis by fastforce
qed

end
