(* ===== verification/PatriciaCodec.thy ===== *)
theory PatriciaCodec
  imports RainCodec
begin

text \<open>
  The node codec of patricia-trie-ethereum (\<open>rlp_node_codec.rs\<close>) and the hashers of blake2-hasher.
  The codec is what trie-db stores its nodes with.  The rlp crate is the parameter of theory RainNode, and
  \<open>NibbleSlice::from_encoded\<close> of trie-db is the parameter \<open>fe\<close>: it gives a slice and whether the
  node is a leaf, and may panic.
\<close>

section \<open>Nodes\<close>

datatype 'n codec_node =
    EmptyNode
  | LeafNode 'n bytes
  | ExtensionNode 'n bytes
  | BranchNode "bytes option list" "bytes option"

datatype ChildReference = HashRef h256 | InlineRef h256 nat

datatype codec_hasher = KeccakHasher | Blake2sHasher | Blake2bHasher

definition HASHED_NULL_NODE :: "codec_hasher \<Rightarrow> h256" where
  "HASHED_NULL_NODE H = from_be_bytes (case H of
     KeccakHasher \<Rightarrow> [0x56, 0xe8, 0x1f, 0x17, 0x1b, 0xcc, 0x55, 0xa6, 0xff, 0x83, 0x45, 0xe6, 0x92, 0xc0, 0xf8,
       0x6e, 0x5b, 0x48, 0xe0, 0x1b, 0x99, 0x6c, 0xad, 0xc0, 0x01, 0x62, 0x2f, 0xb5, 0xe3, 0x63, 0xb4, 0x21]
   | Blake2sHasher \<Rightarrow> [0xfc, 0x84, 0x47, 0xd5, 0x56, 0x41, 0xbe, 0xee, 0x0c, 0x65, 0xd3, 0x85, 0xe8, 0xd8, 0x53,
       0x9a, 0xbe, 0x95, 0x13, 0xc2, 0x3b, 0x2a, 0x0a, 0xea, 0xef, 0x1f, 0x29, 0x91, 0xd6, 0x91, 0xc6, 0x27]
   | Blake2bHasher \<Rightarrow> [0x24, 0xfc, 0x3b, 0x2d, 0x20, 0x85, 0x2c, 0xa3, 0xf2, 0x66, 0x06, 0xcb, 0x64, 0x9f, 0xa0,
       0x1c, 0x76, 0x8e, 0xf1, 0xe7, 0xb7, 0x3c, 0x1f, 0xb1, 0x01, 0x1c, 0xba, 0xb1, 0xb9, 0xd4, 0xd3, 0x40])"

definition hashed_null_node :: "codec_hasher \<Rightarrow> h256" where
  "hashed_null_node H = HASHED_NULL_NODE H"

text \<open>The hashers copy the digest of the blake2 crate, a parameter, into 32 bytes; \<open>copy_from_slice\<close>
  panics when the lengths differ.\<close>

definition blake2s_hash :: "(bytes \<Rightarrow> bytes) \<Rightarrow> bytes \<Rightarrow> h256 result" where
  "blake2s_hash blake2s256 x = (let digest = blake2s256 x in
     if length digest = 32 then Inr (from_be_bytes digest)
     else Inl (Panic ''source slice length does not match destination slice length''))"

definition blake2b_hash :: "(bytes \<Rightarrow> bytes) \<Rightarrow> bytes \<Rightarrow> h256 result" where
  "blake2b_hash blake2b512 x = (let digest = blake2b512 x in
     if length digest < 32 then Inl (Panic ''range end index out of range'') else Inr (from_be_bytes (take 32 digest)))"

section \<open>Decoding\<close>

definition branch_slot :: "rlp_view \<Rightarrow> bytes option" where
  "branch_slot v = (if view_is_empty v then None else Some (view_raw v))"

text \<open>\<open>prototype\<close> tells a list by the number of its items and a string by its length.\<close>

definition codec_decode :: "trie_env \<Rightarrow> (bytes \<Rightarrow> ('n \<times> bool) result) \<Rightarrow> bytes \<Rightarrow> 'n codec_node result" where
  "codec_decode E fe data = (case te_view E data of
     VList b vs \<Rightarrow>
       if length vs = 2 then
         and_then (view_bytes (vs ! 0)) (\<lambda>partial. and_then (fe partial) (\<lambda>(slice, leaf).
           if leaf then and_then (view_bytes (vs ! 1)) (\<lambda>value. Inr (LeafNode slice value))
           else Inr (ExtensionNode slice (view_raw (vs ! 1)))))
       else if length vs = 17 then
         (if view_is_empty (vs ! 16) then Inr (BranchNode (map branch_slot (take 16 vs)) None)
          else and_then (view_bytes (vs ! 16)) (\<lambda>value. Inr (BranchNode (map branch_slot (take 16 vs)) (Some value))))
       else Inl (IoErr ''Rlp is not valid.'')
   | VData b d \<Rightarrow> if d = [] then Inr EmptyNode else Inl (IoErr ''Rlp is not valid.'')
   | VBad b \<Rightarrow> Inl (IoErr ''Rlp is not valid.''))"

definition try_decode_hash :: "trie_env \<Rightarrow> bytes \<Rightarrow> h256 option" where
  "try_decode_hash E data = (case te_view E data of
     VData b d \<Rightarrow> if length d = 32 then Some (from_be_bytes d) else None | _ \<Rightarrow> None)"

definition is_empty_node :: "trie_env \<Rightarrow> bytes \<Rightarrow> bool" where
  "is_empty_node E data = view_is_empty (te_view E data)"

section \<open>Encoding\<close>

definition empty_node :: "trie_env \<Rightarrow> bytes" where
  "empty_node E = te_data E []"

definition leaf_node :: "trie_env \<Rightarrow> bytes \<Rightarrow> bytes \<Rightarrow> bytes" where
  "leaf_node E partial value = te_list E [te_data E partial, te_data E value]"

text \<open>What is appended for a child: the slice \<open>[..len]\<close> of the 32 bytes panics beyond them.\<close>

fun child_item :: "trie_env \<Rightarrow> ChildReference \<Rightarrow> bytes result" where
  "child_item E (HashRef h) = Inr (te_data E (digest_bytes h))"
| "child_item E (InlineRef inline_data len) =
     (if len \<le> 32 then Inr (take len (digest_bytes inline_data)) else Inl (Panic ''range end index out of range''))"

definition codec_ext_node :: "trie_env \<Rightarrow> bytes \<Rightarrow> ChildReference \<Rightarrow> bytes result" where
  "codec_ext_node E partial child_ref = and_then (child_item E child_ref) (\<lambda>item. Inr (te_list E [te_data E partial, item]))"

text \<open>A stream opened for 17 items: \<open>drain\<close> panics when there are fewer, and what comes after the last is
  appended behind the list.\<close>

definition drain_list :: "trie_env \<Rightarrow> nat \<Rightarrow> bytes list \<Rightarrow> bytes result" where
  "drain_list E n items = (if length items < n then Inl (Panic ''drain of an unfinished stream'')
     else Inr (te_list E (take n items) @ concat (drop n items)))"

definition branch_node :: "trie_env \<Rightarrow> ChildReference option list \<Rightarrow> bytes option \<Rightarrow> bytes result" where
  "branch_node E children value =
     and_then (map_res (\<lambda>c. case c of Some r \<Rightarrow> child_item E r | None \<Rightarrow> Inr (te_data E [])) children) (\<lambda>items.
       drain_list E 17 (items @ [te_data E (case value of Some v \<Rightarrow> v | None \<Rightarrow> [])]))"

section \<open>What is encoded is decoded\<close>

text \<open>A child that the codec can carry: an inline child is the encoding of a node.\<close>

definition child_fits :: "trie_env \<Rightarrow> ChildReference \<Rightarrow> bool" where
  "child_fits E c \<longleftrightarrow> (case child_item E c of
     Inr b \<Rightarrow> rlp_valid E b \<and> \<not> view_is_empty (te_view E b) | Inl e \<Rightarrow> False)"

definition child_raw :: "trie_env \<Rightarrow> ChildReference \<Rightarrow> bytes" where
  "child_raw E c = (case child_item E c of Inr b \<Rightarrow> b | Inl e \<Rightarrow> [])"

lemma child_fits_item: "child_fits E c \<Longrightarrow> child_item E c = Inr (child_raw E c)"
  by (auto simp: child_fits_def child_raw_def split: sum.splits)

lemma child_fits_valid: "child_fits E c \<Longrightarrow> rlp_valid E (child_raw E c) \<and> \<not> view_is_empty (te_view E (child_raw E c))"
  by (auto simp: child_fits_def child_raw_def split: sum.splits)

lemma digest_bytes_ne: "digest_bytes h \<noteq> []"
  unfolding digest_bytes_def by (metis length_to_be_bytes list.size(3) zero_neq_numeral)

lemma map_res_length: "map_res f xs = Inr ys \<Longrightarrow> length ys = length xs"
  by (induction xs arbitrary: ys) (auto simp: and_then_eq_Inr)

lemma map_res_Inr: "(\<And>x. x \<in> set xs \<Longrightarrow> f x = Inr (g x)) \<Longrightarrow> map_res f xs = Inr (map g xs)"
  by (induction xs) simp_all

definition branch_items :: "trie_env \<Rightarrow> ChildReference option list \<Rightarrow> bytes option \<Rightarrow> bytes list" where
  "branch_items E children value =
     map (case_option (te_data E []) (child_raw E)) children @ [te_data E (case value of Some v \<Rightarrow> v | None \<Rightarrow> [])]"

lemma branch_node_items:
  assumes "length children = 16" and "\<And>c. Some c \<in> set children \<Longrightarrow> child_item E c = Inr (child_raw E c)"
  shows "branch_node E children value = Inr (te_list E (branch_items E children value))"
proof -
  have "map_res (\<lambda>c. case c of Some r \<Rightarrow> child_item E r | None \<Rightarrow> Inr (te_data E [])) children =
      Inr (map (case_option (te_data E []) (child_raw E)) children)"
    using assms(2) by (intro map_res_Inr) (auto split: option.splits)
  then show ?thesis using assms(1) by (simp add: branch_node_def drain_list_def branch_items_def)
qed

context trie_rlp
begin

lemma valid_raw: "rlp_valid E x \<Longrightarrow> view_raw (te_view E x) = x"
  by (induction rule: rlp_valid.induct) (simp_all add: view_data view_list list_all_iff)

lemma slot_item:
  "(\<And>c. x = Some c \<Longrightarrow> child_fits E c) \<Longrightarrow>
   branch_slot (te_view E (case_option (te_data E []) (child_raw E) x)) = map_option (child_raw E) x"
  using child_fits_valid by (cases x) (auto simp: branch_slot_def view_data valid_raw)

lemma decode_leaf: "fe p = Inr (s, True) \<Longrightarrow> codec_decode E fe (leaf_node E p v) = Inr (LeafNode s v)"
  by (simp add: leaf_node_def codec_decode_def view_list valid_data view_data)

lemma decode_ext:
  "fe p = Inr (s, False) \<Longrightarrow> rlp_valid E x \<Longrightarrow> codec_decode E fe (te_list E [te_data E p, x]) = Inr (ExtensionNode s x)"
  by (simp add: codec_decode_def view_list valid_data view_data valid_raw)

lemma decode_branch:
  assumes "length children = 16" and "\<And>c. Some c \<in> set children \<Longrightarrow> child_fits E c"
  shows "codec_decode E fe (te_list E (branch_items E children value)) =
    Inr (BranchNode (map (map_option (child_raw E)) children) (if value = Some [] then None else value))"
proof -
  let ?item = "te_data E (case value of Some v \<Rightarrow> v | None \<Rightarrow> [])"
  have "list_all (rlp_valid E) (branch_items E children value)"
    using assms(2) child_fits_valid by (auto simp: branch_items_def list_all_iff valid_data split: option.splits)
  then have view: "te_view E (te_list E (branch_items E children value)) =
      VList (te_list E (branch_items E children value)) (map (te_view E) (branch_items E children value))" by (rule view_list)
  have len: "length (map (te_view E) (branch_items E children value)) = 17" using assms(1) by (simp add: branch_items_def)
  have "map (te_view E) (branch_items E children value) ! 16 = te_view E ?item"
    using assms(1) by (simp add: branch_items_def nth_append)
  moreover have "map branch_slot (take 16 (map (te_view E) (branch_items E children value))) = map (map_option (child_raw E)) children"
    using assms by (auto simp: branch_items_def intro: slot_item)
  ultimately show ?thesis using len by (auto simp: codec_decode_def view view_data split: option.splits)
qed

lemma decode_hash: "try_decode_hash E (child_raw E (HashRef h)) = Some h"
  by (simp add: child_raw_def try_decode_hash_def view_data) (simp add: digest_bytes_def from_be_to_be)

end

text \<open>C23. The codec reads back what it writes.  The encoding of a leaf decodes to the leaf, that of an extension to the
  extension with the raw bytes of the child, that of a branch to the 16 children and the value, where an
  empty value is read as none; a branch with fewer than 16 children panics.  A child given by its hash is recognized as a
  hash, and the empty node as the empty node.\<close>

theorem patricia_node_round_trip:
  assumes "trie_rlp E" and "fe p = Inr (s, True)" and "fe q = Inr (t, False)" and "child_fits E c"
    and "length cs = 16" and "list_all (\<lambda>x. case x of None \<Rightarrow> True | Some r \<Rightarrow> child_fits E r) cs" and "length few < 16"
  shows "codec_decode E fe (leaf_node E p v) = Inr (LeafNode s v) \<and>
    and_then (codec_ext_node E q c) (codec_decode E fe) = Inr (ExtensionNode t (child_raw E c)) \<and>
    and_then (branch_node E cs value) (codec_decode E fe) =
      Inr (BranchNode (map (map_option (child_raw E)) cs) (if value = Some [] then None else value)) \<and>
    (\<exists>e. branch_node E few value = Inl e) \<and>
    try_decode_hash E (child_raw E (HashRef h)) = Some h \<and>
    codec_decode E fe (empty_node E) = Inr EmptyNode \<and> is_empty_node E (empty_node E)"
proof -
  have cs: "child_fits E r" if "Some r \<in> set cs" for r using assms(6) that by (auto simp: list_all_iff)
  have "and_then (codec_ext_node E q c) (codec_decode E fe) = Inr (ExtensionNode t (child_raw E c))"
    using trie_rlp.decode_ext [OF assms(1), where fe = fe and p = q, OF assms(3)] child_fits_valid [OF assms(4)] child_fits_item [OF assms(4)] by (simp add: codec_ext_node_def)
  moreover have "and_then (branch_node E cs value) (codec_decode E fe) =
      Inr (BranchNode (map (map_option (child_raw E)) cs) (if value = Some [] then None else value))"
    using branch_node_items [OF assms(5) child_fits_item [OF cs]] trie_rlp.decode_branch [OF assms(1,5) cs, of fe "value"] by simp
  moreover have "\<exists>e. branch_node E few value = Inl e"
    using assms(7) map_res_length by (cases "map_res (\<lambda>c. case c of Some r \<Rightarrow> child_item E r | None \<Rightarrow> Inr (te_data E [])) few")
      (fastforce simp: branch_node_def drain_list_def)+
  moreover have "codec_decode E fe (empty_node E) = Inr EmptyNode" "is_empty_node E (empty_node E)"
    using trie_rlp.view_data [OF assms(1), of "[]"] by (simp_all add: codec_decode_def empty_node_def is_empty_node_def)
  ultimately show ?thesis using trie_rlp.decode_leaf [OF assms(1), where fe = fe and p = p, OF assms(2)] trie_rlp.decode_hash [OF assms(1)] by blast
qed

text \<open>An environment with a leaf and an extension of the tagged encoding, the keys read as in the RainBlock trie.\<close>

theorem patricia_node_round_trip_witness:
  "and_then (codec_ext_node (tag_env low_bytes) (mpt_key_bytes [1] False) (HashRef 5)) (codec_decode (tag_env low_bytes) from_mpt_key) =
     Inr (ExtensionNode [1] (child_raw (tag_env low_bytes) (HashRef 5)))"
proof -
  have fits: "child_fits (tag_env low_bytes) (HashRef 5)"
    by (simp add: child_fits_def valid_data tag.view_data digest_bytes_ne)
  show ?thesis
    using patricia_node_round_trip [OF tag.trie_rlp_axioms mpt_key_bytes_round_trip [of "[1]" True] mpt_key_bytes_round_trip [of "[1]" False] fits,
        of "replicate 16 None" "[]"] by (simp add: list_all_iff)
qed

end
