(* ===== verification/StatsLib.thy ===== *)
theory StatsLib
  imports Prelude
begin

text \<open>
  The corpus and the histogram of parity-stats, \<open>src/lib.rs\<close>.  The elements are \<open>usize\<close>, the instance of
  the crate's tests: 64-bit words, whose arithmetic wraps around in a release build.  The position of the loop over the corpus is the rest of the corpus.
  The registry of Prometheus is not modelled.
\<close>

section \<open>Corpus\<close>

type_synonym corpus = "u64 list"

definition corpus_from :: "u64 list \<Rightarrow> corpus" where
  "corpus_from data = sort data"

definition corpus_percentile :: "corpus \<Rightarrow> nat \<Rightarrow> u64 option" where
  "corpus_percentile data val = (let len = length data; x = min (val * len mod 2 ^ 64 div 100) len in
     if x = 0 then None else if x - 1 < len then Some (data ! (x - 1)) else None)"

definition corpus_median :: "corpus \<Rightarrow> u64 option" where
  "corpus_median data = (if length data div 2 < length data then Some (data ! (length data div 2)) else None)"

definition corpus_is_empty :: "corpus \<Rightarrow> bool" where
  "corpus_is_empty data \<longleftrightarrow> data = []"

section \<open>Histogram\<close>

record Histogram =
  bucket_bounds :: "u64 list"
  bucket_counts :: "nat list"

text \<open>The inner loop: the elements below the end of the bucket are counted and passed.\<close>

fun fill_bucket :: "u64 \<Rightarrow> u64 list \<Rightarrow> nat \<times> u64 list" where
  "fill_bucket bucket_end [] = (0, [])"
| "fill_bucket bucket_end (v # vs) =
     (if v < bucket_end then (case fill_bucket bucket_end vs of (n, rest) \<Rightarrow> (Suc n, rest)) else (0, v # vs))"

primrec fill_buckets :: "u64 \<Rightarrow> nat \<Rightarrow> u64 \<Rightarrow> u64 list \<Rightarrow> u64 list \<times> nat list" where
  "fill_buckets bucket_size 0 bucket_end vs = ([], [])"
| "fill_buckets bucket_size (Suc n) bucket_end vs = (case fill_bucket bucket_end vs of (c, rest) \<Rightarrow>
     case fill_buckets bucket_size n (bucket_end + bucket_size) rest of (bounds, cs) \<Rightarrow> (bucket_end # bounds, c # cs))"

definition Histogram_create :: "u64 list \<Rightarrow> nat \<Rightarrow> Histogram option result" where
  "Histogram_create data bucket_number =
     (if length data < 1 then Inr None
      else if (word_of_nat bucket_number :: u64) = 0 then Inl (Panic ''attempt to divide by zero'')
      else let corpus_end = last data; corpus_start = hd data;
        raw_bucket_size = (corpus_end - corpus_start + word_of_nat bucket_number) div word_of_nat bucket_number;
        bucket_size = (if raw_bucket_size = 0 then 1 else raw_bucket_size) in
      case fill_buckets bucket_size bucket_number (corpus_start + bucket_size) data of (bounds, cs) \<Rightarrow>
        Inr (Some \<lparr>bucket_bounds = corpus_start # bounds, bucket_counts = cs\<rparr>))"

definition corpus_histogram :: "corpus \<Rightarrow> nat \<Rightarrow> Histogram option result" where
  "corpus_histogram data bucket_number = Histogram_create (take (length data - length data div 40) data) bucket_number"

text \<open>The examples of the crate's tests.\<close>

lemma corpus_examples:
  "map (corpus_percentile [1, 2, 3, 4, 5, 6, 7, 8, 9, 10]) [0, 1, 101, 100, 50, 60] = [None, None, Some 10, Some 10, Some 5, Some 6]"
  "corpus_median [1, 2, 3, 4, 5, 6, 7, 8, 9, 10] = Some 6"
  by (simp_all add: corpus_percentile_def corpus_median_def)

lemma fill_buckets_numeral [simp]:
  "fill_buckets s (numeral k) e vs = (case fill_bucket e vs of (c, rest) \<Rightarrow>
     case fill_buckets s (pred_numeral k) (e + s) rest of (bounds, cs) \<Rightarrow> (e # bounds, c # cs))"
  by (simp add: numeral_eq_Suc)

lemma histogram_examples:
  "Histogram_create [1, 2, 2] 3 = Inr (Some \<lparr>bucket_bounds = [1, 2, 3, 4], bucket_counts = [1, 2, 0]\<rparr>)"
  "Histogram_create [1, 2, 5] 2 = Inr (Some \<lparr>bucket_bounds = [1, 4, 7], bucket_counts = [2, 1]\<rparr>)"
  "Histogram_create [1, 2, 6] 2 = Inr (Some \<lparr>bucket_bounds = [1, 4, 7], bucket_counts = [2, 1]\<rparr>)"
  "Histogram_create [] 1 = Inr None"
  by (simp_all add: Histogram_create_def Let_def word_div_def)

section \<open>Every element is counted in its bucket\<close>

lemma fill_bucket_sorted:
  "sorted vs \<Longrightarrow> fill_bucket e vs = (length (filter (\<lambda>v. v < e) vs), filter (\<lambda>v. \<not> v < e) vs)"
proof (induction vs)
  case (Cons v vs)
  have "filter (\<lambda>u. u < e) vs = [] \<and> filter (\<lambda>u. \<not> u < e) vs = vs" if "\<not> v < e"
    using that Cons.prems by (auto simp: filter_empty_conv filter_id_conv)
  then show ?case using Cons by auto
qed simp

definition in_bucket :: "nat \<Rightarrow> nat \<Rightarrow> nat \<Rightarrow> u64 \<Rightarrow> bool" where
  "in_bucket lo s i v \<longleftrightarrow> lo + i * s \<le> unat v \<and> unat v < lo + (i + 1) * s"

lemma fill_buckets_sorted:
  assumes "sorted vs" and "list_all (\<lambda>v. lo \<le> unat v) vs" and "unat e = lo + unat s" and "lo + n * unat s < 2 ^ 64"
  shows "map unat (fst (fill_buckets s n e vs)) = map (\<lambda>i. lo + (i + 1) * unat s) [0..<n] \<and>
    snd (fill_buckets s n e vs) = map (\<lambda>i. length (filter (in_bucket lo (unat s) i) vs)) [0..<n]"
  using assms
proof (induction n arbitrary: lo e vs)
  case (Suc n)
  let ?rest = "filter (\<lambda>v. \<not> v < e) vs"
  have rest: "sorted ?rest" "list_all (\<lambda>v. lo + unat s \<le> unat v) ?rest"
    using Suc.prems by (auto simp: sorted_wrt_filter list_all_iff word_less_nat_alt)
  have here: "filter (\<lambda>v. v < e) vs = filter (in_bucket lo (unat s) 0) vs"
    using Suc.prems by (intro filter_cong) (auto simp: in_bucket_def list_all_iff word_less_nat_alt)
  have later: "filter (in_bucket (lo + unat s) (unat s) i) ?rest = filter (in_bucket lo (unat s) (Suc i)) vs" for i
    using Suc.prems(3) by (auto simp: in_bucket_def filter_filter word_less_nat_alt algebra_simps intro!: filter_cong)
  have "unat (e + s) = lo + unat s + unat s" if "0 < n"
  proof -
    have "unat s \<le> n * unat s" using that by (cases n) simp_all
    then have "lo + unat s + unat s < 2 ^ 64" using Suc.prems(4) by (simp only: mult_Suc)
    then have "unat e + unat s < 2 ^ LENGTH(64)" using Suc.prems(3) by simp
    then have "unat (e + s) = unat e + unat s" by (rule unat_add_lem [THEN iffD1])
    then show ?thesis using Suc.prems(3) by simp
  qed
  then have "n = 0 \<or> unat (e + s) = lo + unat s + unat s" by blast
  then have "n = 0 \<or> map unat (fst (fill_buckets s n (e + s) ?rest)) = map (\<lambda>i. lo + unat s + (i + 1) * unat s) [0..<n] \<and>
      snd (fill_buckets s n (e + s) ?rest) = map (\<lambda>i. length (filter (in_bucket (lo + unat s) (unat s) i) ?rest)) [0..<n]"
    using Suc.IH [OF rest, of "e + s"] Suc.prems(4) by (auto simp: algebra_simps)
  then have "map unat (fst (fill_buckets s n (e + s) ?rest)) = map (\<lambda>i. lo + (Suc i + 1) * unat s) [0..<n] \<and>
      snd (fill_buckets s n (e + s) ?rest) = map (\<lambda>i. length (filter (in_bucket lo (unat s) (Suc i)) vs)) [0..<n]"
    by (auto simp: later algebra_simps simp del: filter_filter)
  then show ?case using Suc.prems(3)
    by (simp add: fill_bucket_sorted [OF Suc.prems(1)] here upt_conv_Cons map_Suc_upt [symmetric] o_def case_prod_beta del: upt_Suc)
qed simp

lemma bucket_covers:
  assumes "0 < (b :: nat)"
  shows "x < b * ((x + b) div b)"
proof -
  have "(x + b) div b = x div b + 1" using div_add_self2 [of b x] assms by simp
  then show ?thesis using dividend_less_times_div [OF assms, of x] by simp
qed

lemma bucket_index: "0 < (s :: nat) \<Longrightarrow> i * s \<le> x \<and> x < (i + 1) * s \<longleftrightarrow> i = x div s"
  using div_nat_eqI [of s i x] dividend_less_times_div [of s x] div_times_less_eq_dividend [of x s] by (auto simp: algebra_simps)

lemma sum_in_buckets:
  assumes "0 < s" and "list_all (\<lambda>v. lo \<le> unat v \<and> unat v < lo + n * s) vs"
  shows "(\<Sum>i<n. length (filter (in_bucket lo s i) vs)) = length vs"
  using assms(2)
proof (induction vs)
  case (Cons v vs)
  have lo: "unat v = lo + (unat v - lo)" using Cons.prems by simp
  have "in_bucket lo s i v \<longleftrightarrow> i * s \<le> unat v - lo \<and> unat v - lo < (i + 1) * s" for i
    unfolding in_bucket_def by (subst (1 2) lo) simp
  then have "in_bucket lo s i v \<longleftrightarrow> i = (unat v - lo) div s" for i
    using assms(1) by (simp only: bucket_index)
  moreover have "(unat v - lo) div s < n" using Cons.prems assms(1) by (auto simp: less_mult_imp_div_less)
  ultimately have "(\<Sum>i<n. if in_bucket lo s i v then 1 else 0 :: nat) = 1" by simp
  moreover have "length (filter (in_bucket lo s i) (v # vs)) = (if in_bucket lo s i v then 1 else 0) + length (filter (in_bucket lo s i) vs)" for i
    by simp
  ultimately show ?case using Cons by (simp add: sum.distrib)
qed simp

section \<open>The property\<close>

lemma corpus_percentile_rank:
  assumes "sorted data" and "val * length data < 2 ^ 64" and "corpus_percentile data val = Some x"
  shows "min (val * length data div 100) (length data) \<le> length (filter (\<lambda>y. y \<le> x) data) \<and>
    length (filter (\<lambda>y. y < x) data) < min (val * length data div 100) (length data)"
proof -
  let ?k = "min (val * length data div 100) (length data)"
  have k: "0 < ?k" "?k \<le> length data" "x = data ! (?k - 1)"
    using assms(2,3) by (auto simp: corpus_percentile_def Let_def split: if_splits)
  obtain j where j: "?k = Suc j" "j < length data" "x = data ! j" using k by (cases ?k) auto
  have "list_all (\<lambda>y. y \<le> x) (take ?k data)"
    using assms(1) unfolding j(1) j(3) using j(2) by (auto simp: list_all_length sorted_iff_nth_mono)
  then have "?k \<le> length (filter (\<lambda>y. y \<le> x) (take ?k data)) + length (filter (\<lambda>y. y \<le> x) (drop ?k data))"
    using k(2) by (simp add: list_all_iff filter_id_conv [THEN iffD2])
  then have "?k \<le> length (filter (\<lambda>y. y \<le> x) data)" by (simp only: length_append [symmetric] filter_append [symmetric] append_take_drop_id)
  moreover have "list_all (\<lambda>y. \<not> y < x) (drop (?k - 1) data)"
    using assms(1) unfolding j(1) j(3) using j(2) by (auto simp: list_all_length sorted_iff_nth_mono not_less)
  then have "length (filter (\<lambda>y. y < x) (take (?k - 1) data)) + length (filter (\<lambda>y. y < x) (drop (?k - 1) data)) \<le> ?k - 1"
    using k(2) length_filter_le [of "\<lambda>y. y < x" "take (?k - 1) data"] by (simp add: list_all_iff filter_empty_conv [THEN iffD2])
  then have "length (filter (\<lambda>y. y < x) data) \<le> ?k - 1" by (simp only: length_append [symmetric] filter_append [symmetric] append_take_drop_id)
  ultimately show ?thesis unfolding j(1) by simp
qed

text \<open>C39. A histogram of a sorted corpus counts every element once.  The bounds start at the smallest element and have equal
  distances, the count of a bucket is the number of elements from its lower bound (included) to its
  upper bound (excluded), and the largest element is in a bucket as well, because the size of a bucket is
  rounded up; the condition is that the last bound is a \<open>usize\<close>.\<close>

theorem histogram_counts_corpus:
  assumes "sorted data" and "data \<noteq> []" and "0 < n" and "unat (last data) - unat (hd data) + n < 2 ^ 64"
    and "s = (unat (last data) - unat (hd data) + n) div n" and "unat (hd data) + n * s < 2 ^ 64"
  shows "\<exists>h. Histogram_create data n = Inr (Some h) \<and>
    map unat (bucket_bounds h) = map (\<lambda>i. unat (hd data) + i * s) [0..<n + 1] \<and>
    bucket_counts h = map (\<lambda>i. length (filter (in_bucket (unat (hd data)) s i) data)) [0..<n] \<and>
    sum_list (bucket_counts h) = length data"
proof -
  let ?lo = "unat (hd data)"
  have mono: "list_all (\<lambda>v. ?lo \<le> unat v \<and> unat v \<le> unat (last data)) data"
    using assms(1,2) by (auto simp: list_all_length hd_conv_nth last_conv_nth sorted_iff_nth_mono word_le_nat_alt [symmetric])
  then have hl: "?lo \<le> unat (last data)" using assms(2) by (simp add: list_all_iff)
  have spread: "unat (last data) - ?lo < n * s" using bucket_covers [OF assms(3)] assms(5) by simp
  then have s: "0 < s" by (cases s) simp_all
  have nw: "unat (word_of_nat n :: u64) = n" using assms(4) by (simp add: unsigned_of_nat take_bit_nat_eq_self)
  have diff: "unat (last data - hd data) = unat (last data) - ?lo" using hl by (simp add: unat_sub word_le_nat_alt)
  have "unat (last data - hd data) + unat (word_of_nat n :: u64) < 2 ^ LENGTH(64)" using assms(4) by (simp only: diff nw) simp
  then have "unat (last data - hd data + word_of_nat n) = unat (last data - hd data) + unat (word_of_nat n :: u64)"
    by (rule unat_add_lem [THEN iffD1])
  then have "unat (last data - hd data + word_of_nat n) = unat (last data) - ?lo + n" by (simp only: diff nw)
  then have raw: "unat ((last data - hd data + word_of_nat n) div word_of_nat n) = s" by (simp only: unat_div nw assms(5))
  let ?s = "(last data - hd data + word_of_nat n) div word_of_nat n"
  have pos: "?s \<noteq> 0" "(word_of_nat n :: u64) \<noteq> 0" using raw s nw assms(3) by force+
  have "s \<le> n * s" using assms(3) by (cases n) simp_all
  then have "?lo + s < 2 ^ 64" using assms(6) by (rule le_less_trans [OF add_left_mono])
  then have "?lo + unat ?s < 2 ^ LENGTH(64)" using raw by simp
  then have e: "unat (hd data + ?s) = ?lo + unat ?s" by (rule unat_add_lem [THEN iffD1])
  obtain bounds cs where b: "fill_buckets ?s n (hd data + ?s) data = (bounds, cs)" by fastforce
  have "list_all (\<lambda>v. ?lo \<le> unat v) data" using mono by (simp add: list_all_iff)
  from fill_buckets_sorted [OF assms(1) this e, of n] assms(6) raw b
  have "map unat bounds = map (\<lambda>i. ?lo + (i + 1) * s) [0..<n]" "cs = map (\<lambda>i. length (filter (in_bucket ?lo s i) data)) [0..<n]"
    by simp_all
  moreover have "Histogram_create data n = Inr (Some \<lparr>bucket_bounds = hd data # bounds, bucket_counts = cs\<rparr>)"
    using assms(2) pos b by (cases data) (simp_all add: Histogram_create_def Let_def del: div_word_self)
  moreover have "list_all (\<lambda>v. ?lo \<le> unat v \<and> unat v < ?lo + n * s) data"
    using mono spread by (fastforce simp: list_all_iff)
  then have "sum_list (map (\<lambda>i. length (filter (in_bucket ?lo s i) data)) [0..<n]) = length data"
    using sum_in_buckets [OF s] by (simp add: interv_sum_list_conv_sum_set_nat atLeast0LessThan)
  ultimately show ?thesis by (simp add: upt_conv_Cons map_Suc_upt [symmetric] del: upt_Suc)
qed

theorem histogram_counts_corpus_witness:
  "\<exists>h. Histogram_create [1, 2, 5] 2 = Inr (Some h) \<and> sum_list (bucket_counts h) = 3"
  using histogram_counts_corpus [of "[1, 2, 5]" 2 3] by fastforce

end
