(* ===== verification/Spec2Isabelle.thy ===== *)
theory Spec2Isabelle
  imports LvmtVerify VersionProofs RainFresh MptProofs BenchMain ParamsProofs PatriciaCodec StatsLib
begin

text \<open>
  Verification of the authenticated-storage benchmark.

  The program measures authenticated key-value storages over key-value backends.
  A storage is a Rust type with \<open>get\<close>, \<open>set\<close>, \<open>commit\<close> and \<open>flush_all\<close>; the
  benchmark driver feeds it keys and values, calls \<open>commit\<close> at the end of every
  epoch and times it.  The parts with logic of their own are the LVMT storage
  (\<open>asb-authdb/lvmt-db\<close>), the RainBlock trie (\<open>asb-authdb/rainblock-trie\<close>), the
  journal databases under the Merkle Patricia trie (\<open>asb-authdb/parity-journaldb\<close>) and
  the RocksDB wrapper with its statistics (\<open>asb-backend/cfx-kvdb-rocksdb\<close>).

  \<^bold>\<open>Conventions\<close> (theory Prelude).  A panic and an \<open>Err\<close> are values of \<open>fault\<close>, a
  fallible operation returns a \<open>result\<close>, and \<open>and_then\<close> is the \<open>?\<close> operator.  Machine
  integers are words, except for \<open>usize\<close> lengths and positions, which are natural numbers.  A
  mutable structure is a record that the operation takes and returns.  A loop with no
  bound in the code is a partial function whose value \<open>None\<close> means that it does not
  return; the theorems about it show that it returns.  Code that is not in the
  repository is an argument: the elliptic curve and its pairing, the hash
  functions, the rlp crate, the RocksDB engine.  What is assumed of it is a
  locale, and every locale is interpreted.

  \<^bold>\<open>Storage interface\<close>.  Kvdb states the contract of \<open>KeyValueDB\<close> (locale \<open>kvdb\<close>) and
  models the column view of \<open>storage/kvdb.rs\<close>.  CfxRocksdb models the buffered
  wrapper (overlay, flushing buffer, engine; \<open>write_buffered\<close>, \<open>flush\<close>, \<open>write\<close>, \<open>get\<close>,
  iteration of a failed flush) and shows that it provides the contract over every
  engine that applies the batches it accepts; after a refused flush direct and buffered writes can be
  hidden.  DbStats models the counters of \<open>stats.rs\<close>.  CfxAdmin models the rest of the wrapper: opening with repair, restoring
  from a copy, adding and dropping columns, and the statistics of the engine; its theorems say which of these leave a usable
  database.  Backends and BackendStores model \<open>asb-backend/src\<close>: MDBX over the calls of libmdbx (locale \<open>mdbx\<close>), the
  RocksDB of parity, the database with counters and the choice of a backend.  The first two show writes
  at a flush only (locale \<open>deferred_store\<close>), unlike the wrapper.  StatsLib models the corpus and the
  histogram of \<open>parity-stats\<close>.

  \<^bold>\<open>LVMT\<close>.  Serde models the byte formats of \<open>serde/\<close> (locale \<open>codec\<close>: reading gives
  back what was written), DbAccess the write-back cache of \<open>storage/access.rs\<close> (locale
  \<open>dbaccess\<close>), Merkle the static Merkle tree of an epoch (completeness of proofs, and
  soundness up to a collision).  AmtNode, AmtParams and Amt model the
  authenticated multipoint tree over an arbitrary commutative group, AmtProofs shows that
  writes keep every sum right when the value as a field integer does not become smaller (the version tree only
  increments), that a smaller value leaves a wrong commitment, because the guard then adds the Montgomery constant
  of the field for its modulus (\<open>write_guard.rs\<close>), and that proofs verify.  ParamsGen models how the public parameters are made
  (\<open>crypto/power_tau.rs\<close>, \<open>crypto/prove_params.rs\<close>) over the operations of the curve library, and ParamsProofs that
  parameters made from the powers of a secret have what those proofs need.  SingleAmt models the storage of one
  tree (\<open>single_amt/mod.rs\<close>, \<open>asb-authdb/src/amt.rs\<close>), whose writes always panic.  LvmtKey and VersionTree model
  keys, names, leaves and the multi-layer version tree; VersionProofs that the two
  ways of incrementing a version give the same commitment.  LvmtDb models \<open>lvmt_db.rs\<close> as a
  whole; LvmtProofs shows that a commit stores what was written and that every written key
  has a Merkle proof if the trees are kept, LvmtVerify what an accepted proof binds, up to a collision or a confusion of
  the encodings that are hashed.

  \<^bold>\<open>Journal databases\<close>.  MemoryDb models the reference-counting hash database, Rlp the interface of
  the rlp crate, OverlayDb the overlay with counts on disk, and ArchiveDb, RefCountedDb, EarlyMergeDb and
  OverlayRecentDb the four journal databases (\<open>archivedb.rs\<close>, \<open>refcounteddb.rs\<close>,
  \<open>earlymergedb.rs\<close>, \<open>overlayrecentdb.rs\<close>): journalling a block changes nothing that is read, and
  the choice of a canonical block has the effect of that block only, whatever competing
  blocks were journalled for its era.  EarlyMergeProofs and OverlayRecentProofs state this as a
  refinement: an archive, which is a set of keys, and a queue of journalled blocks are
  implemented by the store with reference counts in memory, or by the store with a history overlay;
  OverlayRecentRestart and the last part of EarlyMergeProofs show that opening the
  store builds the state in memory again.  OverlayRecentRestart also shows that \<open>inject\<close> leaves the read
  cache stale.

  \<^bold>\<open>RainBlock trie\<close>.  Nibble models nibbles and the hex-prefix encoding, RainNode the nodes with
  their caches, their encoding and decoding and the recursive walks (commit, truncate,
  exile, loading), RainMpt the operations of the tree.  RainReps defines what a tree
  stands for; RainProofs, RainRemove and RainRoot show that search terminates, that \<open>put\<close>
  and \<open>get\<close> refine a map on trees with unloaded parts, and that the root hash is a
  function of the contents.  RainCodec shows that nodes decode to what was encoded and
  that the root hash binds the contents up to a collision.  RainCommit, RainFlush and
  RainStore follow a commit and a flush through the tree and the store (locale \<open>rain_store\<close>): the
  contents are kept and can be loaded again; RainFresh shows that the first
  epoch meets their hypotheses, so that a history of \<open>put\<close>s survives closing and
  opening the store.  In later epochs a subtree can be lost that is shared with a replaced one, because
  nodes are deleted by their hash; the hypothesis \<open>committable\<close> excludes it and RainFresh shows it.

  \<^bold>\<open>Storages and benchmark\<close>.  AuthTrait models the interface \<open>AuthDB\<close> and its contract (locales \<open>auth_epoch\<close>,
  \<open>authdb\<close> and \<open>authdb_total\<close>: a storage stands for the map of the last commit and the writes since), and
  shows that the plain store keeps it; AuthAdapters the adapters of LVMT, which keeps the contract, and of the
  RainBlock trie, which keeps its part within an epoch.  MptDb models the Merkle Patricia trie storage
  (\<open>asb-authdb/src/mpt.rs\<close>) over the overlay-recent journal, the trie-db crate a parameter that
  issues hash database operations, and JournalDb the choice of a journal; MptProofs shows that a commit
  archives the epoch and that a closed store opens with the same root and values.  BenchOptions models the command
  line options and their parsers, BenchTasks the workloads of \<open>asb-tasks\<close> over a random generator
  (locale \<open>rng\<close>), BenchRun the driver \<open>benchmarks/src/run.rs\<close> and the counters of the reporter.  BenchProofs
  composes them: a benchmark that warms up its keys over a storage with the contract has no empty reads;
  LvmtBench applies it to LVMT.  BenchMain models \<open>benchmarks/src/main.rs\<close>: the checks, the directories and the
  order in which workload, backend and storage are made.

  \<^bold>\<open>Patricia codec\<close>.  PatriciaCodec models \<open>patricia-trie-ethereum/src/rlp_node_codec.rs\<close> and the
  hashers of \<open>blake2-hasher\<close>: what is encoded is decoded.

  \<^bold>\<open>Bounds\<close>.  A theorem that needs a bound states it: lengths and positions below \<open>2 ^ 64\<close>, columns below
  \<open>2 ^ 32\<close>, a depth of at most 32 for public parameters.  Fuel occurs in the reader of the concrete encoding of RainCodec, where the
  length of the input is enough.  The number of steps in collecting an MDBX iterator is no fuel but the number of items the
  client takes; the theorem is about at most as many as there are entries, since how the iterator ends rests on an
  answer of MDBX that its documentation does not fix.

  \<^bold>\<open>Not modelled\<close>.  A read of the store that answers an error: the storages are modelled over stores whose reads
  succeed (\<open>kv_get\<close> of Kvdb is the answer of such a read), while failing writes and flushes are
  modelled, and the wrappers of the engines are modelled with failing reads as well.  Timing, memory measurement, profiling, the registry of Prometheus
  and printing are input and output; the conversion of trusted-setup files calls a library for every
  step; the LMPTs storage and the trie of the MPT storage are third-party crates, and the types of
  \<open>patricia-trie-ethereum/src/lib.rs\<close> only name them; the derive macro for serialization works on syntax.
\<close>

text \<open>The Merkle tree over the RocksDB wrapper: the wrapper provides the store it needs.\<close>

interpretation cfx_merkle: merkle_store "cfx_kvdb map_engine nanos" "quiet n" n keccak for nanos n keccak
  by unfold_locales

text \<open>The RainBlock trie over the RocksDB wrapper.\<close>

interpretation cfx_rain: rain_store "tag_env H" "cfx_kvdb map_engine nanos" "quiet (Suc n)" "Suc n" for nanos n H
  by unfold_locales simp

text \<open>The plain storage over the RocksDB wrapper.\<close>

interpretation cfx_raw: authdb "raw_authdb (cfx_kvdb map_engine nanos)" "raw_rel (cfx_kvdb map_engine nanos) (quiet (Suc n))" "\<lambda>_. True" "\<lambda>_. True"
  for nanos n
  by (rule raw_provides_authdb [OF map_eng.cfx.kvdb_axioms]) simp

end
